(* ===== verification/Prelude.thy ===== *)
theory Prelude
  imports Main "HOL-Library.Word" "HOL-Library.Monad_Syntax"
begin

text \<open>
  Shared vocabulary of the development.

  \<^item> the C integer types at their widths and the layout of byte buffers as lists of bytes;
  \<^item> the fault discipline: a C function of the model returns \<open>None\<close> exactly where an
    \<^verbatim>\<open>ASSERT\<close> of the code fails or where memory outside a buffer would be touched; what the
    code itself reports (return codes, error events) are ordinary values inside \<open>Some\<close>;
  \<^item> three interface contracts as locales: a fixed-width memory codec, a FIFO of packets and
    a guarded state machine. The components interpret them on their own definitions.
\<close>

unbundle bit_operations_syntax

type_synonym u8 = "8 word"
type_synonym u16 = "16 word"
type_synonym u32 = "32 word"
type_synonym u64 = "64 word"
type_synonym bytes = "u8 list"

named_theorems codec_simps \<open>layouts of the packed C structs\<close>
named_theorems fault_simps \<open>unfolding of assertions and bounded memory accesses\<close>

abbreviation (input) INT_MAX :: int where "INT_MAX \<equiv> 2147483647"
abbreviation (input) UINT16_MAX :: int where "UINT16_MAX \<equiv> 65535"

section \<open>Faults\<close>

text \<open>\<^verbatim>\<open>ASSERT(b)\<close> of misc/debug.h: the program aborts when \<open>b\<close> is false.\<close>

definition ASSERT :: "bool \<Rightarrow> unit option" where
  "ASSERT b = (if b then Some () else None)"

text \<open>A \<^verbatim>\<open>memcpy\<close> of \<open>n\<close> bytes out of a buffer, starting at \<open>off\<close>.\<close>

definition mem_read :: "'a list \<Rightarrow> nat \<Rightarrow> nat \<Rightarrow> 'a list option" where
  "mem_read buf off n = (if off + n \<le> length buf then Some (take n (drop off buf)) else None)"

text \<open>A \<^verbatim>\<open>memcpy\<close> of the bytes \<open>xs\<close> into a buffer, starting at \<open>off\<close>.\<close>

definition mem_write :: "'a list \<Rightarrow> nat \<Rightarrow> 'a list \<Rightarrow> 'a list option" where
  "mem_write buf off xs =
     (if off + length xs \<le> length buf
      then Some (take off buf @ xs @ drop (off + length xs) buf) else None)"

lemma ASSERT_True [simp]: "ASSERT True = Some ()"
  and ASSERT_False [simp]: "ASSERT False = None"
  by (simp_all add: ASSERT_def)

lemma ASSERT_eq_Some [simp]: "(ASSERT b = Some x) = b"
  by (simp add: ASSERT_def)

lemma ASSERT_eq_None [simp]: "(ASSERT b = None) = (\<not> b)"
  by (simp add: ASSERT_def)

lemma ASSERT_bind_Some [simp]: "(ASSERT b \<bind> f = Some y) = (b \<and> f () = Some y)"
  by (simp add: ASSERT_def)

lemma ASSERT_bind [simp]: "b \<Longrightarrow> ASSERT b \<bind> f = f ()"
  by (simp add: ASSERT_def)

lemma mem_read_Some [fault_simps]:
  "off + n \<le> length buf \<Longrightarrow> mem_read buf off n = Some (take n (drop off buf))"
  by (simp add: mem_read_def)

lemma mem_read_eq_Some [fault_simps]:
  "(mem_read buf off n = Some xs) = (off + n \<le> length buf \<and> xs = take n (drop off buf))"
  by (auto simp: mem_read_def)

lemma mem_read_length: "mem_read buf off n = Some xs \<Longrightarrow> length xs = n"
  by (auto simp: mem_read_def split: if_splits)

lemma mem_write_Some [fault_simps]:
  "off + length xs \<le> length buf \<Longrightarrow>
   mem_write buf off xs = Some (take off buf @ xs @ drop (off + length xs) buf)"
  by (simp add: mem_write_def)

lemma mem_write_length: "mem_write buf off xs = Some buf' \<Longrightarrow> length buf' = length buf"
  by (auto simp: mem_write_def split: if_splits)

lemma mem_write_nth:
  assumes "mem_write buf off xs = Some buf'" "i < length buf"
  shows "buf' ! i = (if off \<le> i \<and> i < off + length xs then xs ! (i - off) else buf ! i)"
  using assms by (auto simp: mem_write_def nth_append min_def not_less split: if_splits)

lemma mem_write_sub:
  assumes "mem_write buf off xs = Some buf'"
  shows "take (length xs) (drop off buf') = xs"
  using assms by (auto simp: mem_write_def min_def split: if_splits)

lemma mem_write_take:
  "off + length xs \<le> length buf \<Longrightarrow> n \<le> off \<Longrightarrow>
   take n (the (mem_write buf off xs)) = take n buf"
  by (simp add: mem_write_def min_def)

text \<open>Writing consecutive pieces into a buffer that is large enough leaves their concatenation at its start.\<close>

lemma write_next:
  assumes "take n buf = xs" "length xs = n" "n + length ys \<le> length buf"
  shows "\<exists>buf'. mem_write buf n ys = Some buf' \<and> take (n + length ys) buf' = xs @ ys \<and> length buf' = length buf"
  using assms by (auto simp: mem_write_def min_def)

lemma prefix_of_take:
  assumes "take k zs = xs @ ys"
  shows "xs = take (length xs) zs"
proof -
  have "length xs \<le> length (take k zs)" using assms by simp
  then have "take (length xs) (take k zs) = take (length xs) zs"
    by (simp only: take_take length_take min.bounded_iff min.absorb1)
  moreover have "take (length xs) (take k zs) = xs" by (simp add: assms)
  ultimately show ?thesis by simp
qed

section \<open>Memory codecs\<close>

text \<open>
  A C object that is copied to and from a byte buffer: \<open>enc\<close> is its memory image and \<open>dec\<close>
  reads the object back from an image of \<open>width\<close> bytes.
\<close>

locale codec =
  fixes enc :: "'a \<Rightarrow> bytes"
    and dec :: "bytes \<Rightarrow> 'a"
    and width :: nat
    and ok :: "'a \<Rightarrow> bool"
  assumes length_enc: "ok x \<Longrightarrow> length (enc x) = width"
    and dec_enc: "ok x \<Longrightarrow> dec (enc x) = x"
    and enc_dec: "length b = width \<Longrightarrow> enc (dec b) = b"
    and ok_dec: "length b = width \<Longrightarrow> ok (dec b)"
begin

lemma take_enc: "ok x \<Longrightarrow> take width (enc x @ rest) = enc x"
  by (simp add: length_enc)

lemma drop_enc: "ok x \<Longrightarrow> drop width (enc x @ rest) = rest"
  by (simp add: length_enc)

lemma read_back: "ok x \<Longrightarrow> mem_read (enc x @ rest) 0 width = Some (enc x)"
  by (simp add: mem_read_def length_enc)

lemma read_dec: "ok x \<Longrightarrow> map_option dec (mem_read (enc x @ rest) 0 width) = Some x"
  by (simp add: read_back dec_enc)

lemma dec_read:
  assumes "mem_read buf off width = Some img"
  shows "ok (dec img) \<and> enc (dec img) = img"
  using mem_read_length [OF assms] by (simp add: enc_dec ok_dec)

lemma enc_inj: "ok x \<Longrightarrow> ok y \<Longrightarrow> enc x = enc y \<Longrightarrow> x = y"
  by (metis dec_enc)

end

section \<open>Three-way comparators\<close>

text \<open>
  The contract the search trees (structure/BAVL.h, structure/SAvl.h) put on the comparator
  they are given: on the keys \<open>key\<close> in use it is a strict total order whose zero is equality.
\<close>

locale comparator =
  fixes cmp :: "'k \<Rightarrow> 'k \<Rightarrow> int"
    and key :: "'k \<Rightarrow> bool"
  assumes cmp_zero: "key x \<Longrightarrow> key y \<Longrightarrow> cmp x y = 0 \<longleftrightarrow> x = y"
    and cmp_swap: "key x \<Longrightarrow> key y \<Longrightarrow> cmp y x = - cmp x y"
    and cmp_trans: "key x \<Longrightarrow> key y \<Longrightarrow> key z \<Longrightarrow> cmp x y < 0 \<Longrightarrow> cmp y z < 0 \<Longrightarrow> cmp x z < 0"
begin

lemma cmp_refl: "key x \<Longrightarrow> cmp x x = 0"
  by (simp add: cmp_zero)

lemma cmp_cases:
  assumes "key x" "key y"
  obtains "cmp x y < 0" "x \<noteq> y" | "x = y" "cmp x y = 0" | "cmp x y > 0" "x \<noteq> y"
  using assms cmp_zero [of x y] by (cases "cmp x y" "0::int" rule: linorder_cases) auto

lemma cmp_pos: "key x \<Longrightarrow> key y \<Longrightarrow> cmp x y > 0 \<longleftrightarrow> cmp y x < 0"
  using cmp_swap [of x y] by linarith

lemma cmp_sign:
  assumes "key x" "key y"
  shows "of_bool (cmp x y < 0) + of_bool (x = y) + of_bool (cmp y x < 0) = (1::nat)"
  using assms(1) assms(2)
  by (rule cmp_cases) (use assms in \<open>auto simp: cmp_refl cmp_pos [symmetric] dest: cmp_swap\<close>)

end

section \<open>FIFO of packets\<close>

text \<open>
  The promise of a packet buffer: what was put in comes out again, complete and in order.
  \<open>put\<close> is only called when \<open>can_put\<close> allows it, \<open>get\<close> only when there is a packet.
\<close>

datatype 'p fifo_op = Put 'p | Get

fun fifo_exec :: "('p \<Rightarrow> 'q \<Rightarrow> 'q option) \<Rightarrow> ('q \<Rightarrow> ('p \<times> 'q) option) \<Rightarrow> 'q \<Rightarrow> 'p fifo_op list
    \<Rightarrow> ('p list \<times> 'q) option" where
  "fifo_exec put get q [] = Some ([], q)"
| "fifo_exec put get q (Put p # ops) =
     (case put p q of None \<Rightarrow> None | Some q' \<Rightarrow> fifo_exec put get q' ops)"
| "fifo_exec put get q (Get # ops) =
     (case get q of None \<Rightarrow> None
      | Some (p, q') \<Rightarrow> map_option (\<lambda>(out, q''). (p # out, q'')) (fifo_exec put get q' ops))"

fun puts_of :: "'p fifo_op list \<Rightarrow> 'p list" where
  "puts_of [] = []"
| "puts_of (Put p # ops) = p # puts_of ops"
| "puts_of (Get # ops) = puts_of ops"

locale fifo =
  fixes put :: "'p \<Rightarrow> 'q \<Rightarrow> 'q option"
    and get :: "'q \<Rightarrow> ('p \<times> 'q) option"
    and contents :: "'q \<Rightarrow> 'p list"
    and invar :: "'q \<Rightarrow> bool"
    and can_put :: "'p \<Rightarrow> 'q \<Rightarrow> bool"
  assumes put_ok: "invar q \<Longrightarrow> can_put p q \<Longrightarrow>
      \<exists>q'. put p q = Some q' \<and> invar q' \<and> contents q' = contents q @ [p]"
    and put_only: "invar q \<Longrightarrow> put p q = Some q' \<Longrightarrow> can_put p q"
    and get_ok: "invar q \<Longrightarrow> contents q \<noteq> [] \<Longrightarrow>
      \<exists>q'. get q = Some (hd (contents q), q') \<and> invar q' \<and> contents q' = tl (contents q)"
    and get_only: "invar q \<Longrightarrow> get q = Some r \<Longrightarrow> contents q \<noteq> []"
begin

lemma put_Some:
  assumes "invar q" "put p q = Some q'"
  shows "invar q' \<and> contents q' = contents q @ [p]"
proof -
  from assms have "can_put p q" by (rule put_only)
  from put_ok [OF assms(1) this] assms(2) show ?thesis by auto
qed

lemma get_Some:
  assumes "invar q" "get q = Some (p, q')"
  shows "invar q' \<and> contents q = p # contents q'"
proof -
  from assms have ne: "contents q \<noteq> []" by (rule get_only)
  from get_ok [OF assms(1) this] assms(2) have "p = hd (contents q)"
    "invar q'" "contents q' = tl (contents q)" by auto
  with ne show ?thesis by simp
qed

lemma fifo_order:
  assumes "invar q" "fifo_exec put get q ops = Some (out, q')"
  shows "invar q' \<and> contents q @ puts_of ops = out @ contents q'"
  using assms
proof (induction ops arbitrary: q out)
  case Nil
  then show ?case by simp
next
  case (Cons op ops)
  show ?case
  proof (cases op)
    case (Put p)
    with Cons.prems obtain q1 where "put p q = Some q1"
      and run: "fifo_exec put get q1 ops = Some (out, q')"
      by (auto split: option.splits)
    with put_Some Cons.prems have "invar q1" "contents q1 = contents q @ [p]" by auto
    with Cons.IH [OF _ run] Put show ?thesis by simp
  next
    case Get
    with Cons.prems obtain p q1 out1 where "get q = Some (p, q1)" "out = p # out1"
      and run: "fifo_exec put get q1 ops = Some (out1, q')"
      by (auto split: option.splits)
    with get_Some Cons.prems have "invar q1" "contents q = p # contents q1" by auto
    with Cons.IH [OF _ run] Get \<open>out = p # out1\<close> show ?thesis by simp
  qed
qed

end

section \<open>Guarded state machines\<close>

text \<open>
  An event-driven component: \<open>step s e\<close> is what the component does on event \<open>e\<close> (\<open>None\<close> is a
  fault) and \<open>enabled s e\<close> says when the environment may deliver \<open>e\<close>. A run is admissible
  when each of its events is enabled at the moment it is delivered.
\<close>

fun exec :: "('s \<Rightarrow> 'e \<Rightarrow> 's option) \<Rightarrow> 's \<Rightarrow> 'e list \<Rightarrow> 's option" where
  "exec step s [] = Some s"
| "exec step s (e # es) = (case step s e of None \<Rightarrow> None | Some s' \<Rightarrow> exec step s' es)"

lemma exec_append: "exec step s (xs @ ys) = exec step s xs \<bind> (\<lambda>s'. exec step s' ys)"
  by (induction xs arbitrary: s) (auto split: option.split)

fun admissible :: "('s \<Rightarrow> 'e \<Rightarrow> bool) \<Rightarrow> ('s \<Rightarrow> 'e \<Rightarrow> 's option) \<Rightarrow> 's \<Rightarrow> 'e list \<Rightarrow> bool" where
  "admissible enabled step s [] = True"
| "admissible enabled step s (e # es) =
     (enabled s e \<and> (case step s e of None \<Rightarrow> True | Some s' \<Rightarrow> admissible enabled step s' es))"

locale machine =
  fixes init :: "'s \<Rightarrow> bool"
    and step :: "'s \<Rightarrow> 'e \<Rightarrow> 's option"
    and enabled :: "'s \<Rightarrow> 'e \<Rightarrow> bool"
    and inv :: "'s \<Rightarrow> bool"
  assumes init_inv: "init s \<Longrightarrow> inv s"
    and step_inv: "inv s \<Longrightarrow> enabled s e \<Longrightarrow> \<exists>s'. step s e = Some s' \<and> inv s'"
begin

lemma exec_inv:
  assumes "inv s" "admissible enabled step s es"
  shows "\<exists>s'. exec step s es = Some s' \<and> inv s'"
  using assms
proof (induction es arbitrary: s)
  case Nil
  then show ?case by simp
next
  case (Cons e es)
  then obtain s1 where "step s e = Some s1" "inv s1" using step_inv [of s e] by auto
  with Cons show ?case by simp
qed

lemma run_safe:
  assumes "init s" "admissible enabled step s es"
  shows "\<exists>s'. exec step s es = Some s' \<and> inv s'"
  using assms by (blast intro: exec_inv init_inv)

lemma exec_preserves:
  assumes "inv s" "admissible enabled step s es" "exec step s es = Some s'"
  shows "inv s'"
  using exec_inv [OF assms(1,2)] assms(3) by simp

end

end
