(* ===== verification/Byteorder.thy ===== *)
theory Byteorder
  imports Prelude
begin

text \<open>
  misc/byteorder.h and misc/read_write_int.h for the little-endian target the Android build
  selects (\<^verbatim>\<open>-DBADVPN_LITTLE_ENDIAN\<close>), and misc/compare.h, misc/minmax.h.
  The memory image of a C integer lists its bytes from the lowest address up. A buffer that is
  read through a pointer is passed as the list of the bytes the pointer refers to.
\<close>

section \<open>Memory images of the C integers\<close>

definition mem16 :: "u16 \<Rightarrow> bytes" where
  "mem16 x = [ucast x, ucast (drop_bit 8 x)]"

definition of_mem16 :: "bytes \<Rightarrow> u16" where
  "of_mem16 b = push_bit 8 (ucast (b ! 1)) OR ucast (b ! 0)"

definition mem32 :: "u32 \<Rightarrow> bytes" where
  "mem32 x = [ucast x, ucast (drop_bit 8 x), ucast (drop_bit 16 x), ucast (drop_bit 24 x)]"

definition of_mem32 :: "bytes \<Rightarrow> u32" where
  "of_mem32 b = push_bit 24 (ucast (b ! 3)) OR push_bit 16 (ucast (b ! 2)) OR
     push_bit 8 (ucast (b ! 1)) OR ucast (b ! 0)"

lemma length_mem16 [simp]: "length (mem16 x) = 2"
  and length_mem32 [simp]: "length (mem32 y) = 4"
  by (simp_all add: mem16_def mem32_def)

lemma list2: "length b = 2 \<Longrightarrow> b = [b ! 0, b ! 1]"
  by (cases b; cases "tl b") auto

lemma list4: "length b = 4 \<Longrightarrow> b = [b ! 0, b ! 1, b ! 2, b ! 3]"
  by (auto intro!: nth_equalityI simp: less_Suc_eq numeral_eq_Suc)

lemma of_mem16_mem16 [simp]: "of_mem16 (mem16 x) = x"
  unfolding of_mem16_def mem16_def by (auto intro!: bit_word_eqI simp: bit_simps)

lemma byte_high_zero [simp]: "8 \<le> n \<Longrightarrow> \<not> bit (x :: u8) n"
  using bit_imp_le_length [of x n] by auto

lemma quarters: "(n::nat) < 32 \<Longrightarrow>
    n < 8 \<or> 8 \<le> n \<and> n < 16 \<or> 16 \<le> n \<and> n < 24 \<or> 24 \<le> n \<and> n < 32"
  by arith

lemma join_bytes32:
  "push_bit 24 (ucast (ucast (drop_bit 24 x) :: u8)) OR
   push_bit 16 (ucast (ucast (drop_bit 16 x) :: u8)) OR
   push_bit 8 (ucast (ucast (drop_bit 8 x) :: u8)) OR ucast (ucast x :: u8) = (x :: u32)"
proof (rule bit_word_eqI)
  fix n assume "n < LENGTH(32)"
  then consider "n < 8" | "8 \<le> n \<and> n < 16" | "16 \<le> n \<and> n < 24" | "24 \<le> n \<and> n < 32"
    using quarters [of n] by auto
  then show "bit (push_bit 24 (ucast (ucast (drop_bit 24 x) :: u8)) OR
   push_bit 16 (ucast (ucast (drop_bit 16 x) :: u8)) OR
   push_bit 8 (ucast (ucast (drop_bit 8 x) :: u8)) OR ucast (ucast x :: u8) :: u32) n = bit x n"
    by cases (auto simp: bit_simps)
qed

lemma of_mem32_mem32 [simp]: "of_mem32 (mem32 x) = x"
  using join_bytes32 [of x] by (simp add: of_mem32_def mem32_def)

lemma mem16_pair: "mem16 (push_bit 8 (ucast hi) OR ucast lo) = [lo, hi]"
  unfolding mem16_def by (auto intro!: bit_word_eqI simp: bit_simps)

lemma mem16_of_mem16: "length b = 2 \<Longrightarrow> mem16 (of_mem16 b) = b"
  by (subst (2) list2) (simp_all add: of_mem16_def mem16_pair)

lemma mem32_of_mem32: "length b = 4 \<Longrightarrow> mem32 (of_mem32 b) = b"
  by (subst (2) list4)
    (auto simp: of_mem32_def mem32_def intro!: bit_word_eqI simp: bit_simps)

section \<open>Byte swapping\<close>

definition badvpn_reverse16 :: "u16 \<Rightarrow> u16" where
  "badvpn_reverse16 x = (let m = mem16 x in of_mem16 [m ! 1, m ! 0])"

definition badvpn_reverse32 :: "u32 \<Rightarrow> u32" where
  "badvpn_reverse32 x = (let m = mem32 x in of_mem32 [m ! 3, m ! 2, m ! 1, m ! 0])"

definition hton8 :: "u8 \<Rightarrow> u8" where "hton8 x = x"
definition ntoh8 :: "u8 \<Rightarrow> u8" where "ntoh8 x = hton8 x"
definition htol8 :: "u8 \<Rightarrow> u8" where "htol8 x = x"
definition ltoh8 :: "u8 \<Rightarrow> u8" where "ltoh8 x = htol8 x"
definition hton16 :: "u16 \<Rightarrow> u16" where "hton16 x = badvpn_reverse16 x"
definition ntoh16 :: "u16 \<Rightarrow> u16" where "ntoh16 x = hton16 x"
definition hton32 :: "u32 \<Rightarrow> u32" where "hton32 x = badvpn_reverse32 x"
definition ntoh32 :: "u32 \<Rightarrow> u32" where "ntoh32 x = hton32 x"
definition htol16 :: "u16 \<Rightarrow> u16" where "htol16 x = x"
definition ltoh16 :: "u16 \<Rightarrow> u16" where "ltoh16 x = htol16 x"

section \<open>Reading and writing integers in a buffer\<close>

definition badvpn_read_be16 :: "bytes \<Rightarrow> u16" where
  "badvpn_read_be16 ptr = push_bit 8 (ucast (ptr ! 0)) OR ucast (ptr ! 1)"

definition badvpn_read_be32 :: "bytes \<Rightarrow> u32" where
  "badvpn_read_be32 ptr = push_bit 24 (ucast (ptr ! 0)) OR push_bit 16 (ucast (ptr ! 1)) OR
     push_bit 8 (ucast (ptr ! 2)) OR ucast (ptr ! 3)"

definition badvpn_write_be16 :: "u16 \<Rightarrow> bytes" where
  "badvpn_write_be16 x = [ucast (drop_bit 8 x), ucast x]"

definition badvpn_write_be32 :: "u32 \<Rightarrow> bytes" where
  "badvpn_write_be32 x =
     [ucast (drop_bit 24 x), ucast (drop_bit 16 x), ucast (drop_bit 8 x), ucast x]"

definition badvpn_read_le16 :: "bytes \<Rightarrow> u16" where
  "badvpn_read_le16 ptr = push_bit 8 (ucast (ptr ! 1)) OR ucast (ptr ! 0)"

definition badvpn_write_le16 :: "u16 \<Rightarrow> bytes" where
  "badvpn_write_le16 x = [ucast x, ucast (drop_bit 8 x)]"

section \<open>misc/compare.h and misc/minmax.h\<close>

definition B_COMPARE :: "'a::linorder \<Rightarrow> 'a \<Rightarrow> int" where
  "B_COMPARE a b = of_bool (a > b) - of_bool (a < b)"

definition bmin_int :: "int \<Rightarrow> int \<Rightarrow> int" where
  "bmin_int a b = (if a < b then a else b)"

definition bmax_uint64 :: "u64 \<Rightarrow> u64 \<Rightarrow> u64" where
  "bmax_uint64 a b = (if a > b then a else b)"

section \<open>Lemmas\<close>

lemma mem16_reverse: "mem16 (badvpn_reverse16 x) = rev (mem16 x)"
  by (simp add: badvpn_reverse16_def mem16_def Let_def of_mem16_def)
    (auto intro!: bit_word_eqI simp: bit_simps)

lemma mem32_reverse: "mem32 (badvpn_reverse32 x) = rev (mem32 x)"
  by (simp add: badvpn_reverse32_def Let_def mem32_of_mem32) (simp add: mem32_def)

lemma mem16_inj: "mem16 x = mem16 y \<Longrightarrow> x = y"
  by (metis of_mem16_mem16)

lemma mem32_inj: "mem32 x = mem32 y \<Longrightarrow> x = y"
  by (metis of_mem32_mem32)

lemma hton16_invol [simp]: "hton16 (hton16 x) = x"
  unfolding hton16_def by (rule mem16_inj) (simp add: mem16_reverse)

lemma hton32_invol [simp]: "hton32 (hton32 x) = x"
  unfolding hton32_def by (rule mem32_inj) (simp add: mem32_reverse)

lemma ntoh16_hton16 [simp]: "ntoh16 (hton16 x) = x"
  and hton16_ntoh16 [simp]: "hton16 (ntoh16 x) = x"
  and ntoh32_hton32 [simp]: "ntoh32 (hton32 y) = y"
  and ltoh16_htol16 [simp]: "ltoh16 (htol16 x) = x"
  by (simp_all add: ntoh16_def ntoh32_def ltoh16_def htol16_def)

lemma hton16_eq_iff [simp]: "hton16 x = hton16 y \<longleftrightarrow> x = y"
  by (metis hton16_invol)

lemma ntoh16_eq_iff [simp]: "ntoh16 x = ntoh16 y \<longleftrightarrow> x = y"
  by (simp add: ntoh16_def)

lemma ntoh32_eq_iff [simp]: "ntoh32 x = ntoh32 y \<longleftrightarrow> x = y"
  unfolding ntoh32_def by (metis hton32_invol)

text \<open>Network order: the image of a swapped integer is what the big-endian reader expects.\<close>

lemma mem16_hton16: "mem16 (hton16 x) = badvpn_write_be16 x"
  by (simp add: hton16_def mem16_reverse) (simp add: mem16_def badvpn_write_be16_def)

lemma mem32_hton32: "mem32 (hton32 x) = badvpn_write_be32 x"
  by (simp add: hton32_def mem32_reverse) (simp add: mem32_def badvpn_write_be32_def)

lemma badvpn_read_write_be16 [simp]: "badvpn_read_be16 (badvpn_write_be16 x) = x"
  unfolding badvpn_read_be16_def badvpn_write_be16_def
  by (auto intro!: bit_word_eqI simp: bit_simps)

lemma badvpn_read_write_be32 [simp]: "badvpn_read_be32 (badvpn_write_be32 x) = x"
  using join_bytes32 [of x] by (simp add: badvpn_read_be32_def badvpn_write_be32_def)

lemma badvpn_read_write_le16 [simp]: "badvpn_read_le16 (badvpn_write_le16 x) = x"
  unfolding badvpn_read_le16_def badvpn_write_le16_def
  by (auto intro!: bit_word_eqI simp: bit_simps)

lemma read_be16_mem16: "badvpn_read_be16 (mem16 x) = ntoh16 x"
  by (metis badvpn_read_write_be16 hton16_ntoh16 mem16_hton16)

lemma B_COMPARE_zero [simp]: "B_COMPARE a b = 0 \<longleftrightarrow> a = b"
  by (auto simp: B_COMPARE_def of_bool_def)

lemma B_COMPARE_neg [simp]: "B_COMPARE a b < 0 \<longleftrightarrow> a < b"
  by (auto simp: B_COMPARE_def of_bool_def)

lemma B_COMPARE_pos [simp]: "0 < B_COMPARE a b \<longleftrightarrow> b < a"
  by (auto simp: B_COMPARE_def of_bool_def)

lemma B_COMPARE_swap: "B_COMPARE b a = - B_COMPARE a b"
  by (auto simp: B_COMPARE_def of_bool_def)

interpretation mem_u16: codec mem16 of_mem16 2 "\<lambda>_. True"
  by unfold_locales (simp_all add: mem16_of_mem16)

interpretation mem_u32: codec mem32 of_mem32 4 "\<lambda>_. True"
  by unfold_locales (simp_all add: mem32_of_mem32)

end
