(* ===== verification/BSize.thy ===== *)
theory BSize
  imports Byteorder
begin

text \<open>
  Size arithmetic: misc/balign.h, misc/bsize.h, the conversion of a \<^verbatim>\<open>size_t\<close> to an \<^verbatim>\<open>int\<close>, and
  the MTU computation of protocol/udpgw_proto.h. \<^verbatim>\<open>size_t\<close> is the 64-bit type of the
  arm64 target.
\<close>

type_synonym size_t = u64

text \<open>The value an \<^verbatim>\<open>int\<close> variable gets from a wider integer (two's complement).\<close>

definition c_int :: "int \<Rightarrow> int" where
  "c_int x = sint (word_of_int x :: u32)"

definition bdivide_up :: "size_t \<Rightarrow> size_t \<Rightarrow> size_t" where
  "bdivide_up a b = (let r = a mod b in if r > 0 then a div b + 1 else a div b)"

record bsize_t =
  is_overflow :: bool
  bs_value :: size_t

definition bsize_fromsize :: "size_t \<Rightarrow> bsize_t" where
  "bsize_fromsize v = \<lparr>is_overflow = False, bs_value = v\<rparr>"

definition bsize_fromint :: "int \<Rightarrow> bsize_t" where
  "bsize_fromint v =
     \<lparr>is_overflow = (v < 0 \<or> (word_of_int v :: size_t) > -1), bs_value = word_of_int v\<rparr>"

definition bsize_overflow :: bsize_t where
  "bsize_overflow = \<lparr>is_overflow = True, bs_value = 0\<rparr>"

definition bsize_tosize :: "bsize_t \<Rightarrow> size_t option" where
  "bsize_tosize s = (if is_overflow s then None else Some (bs_value s))"

definition bsize_toint :: "bsize_t \<Rightarrow> int option" where
  "bsize_toint s =
     (if is_overflow s \<or> bs_value s > word_of_int INT_MAX then None
      else Some (c_int (uint (bs_value s))))"

definition bsize_add :: "bsize_t \<Rightarrow> bsize_t \<Rightarrow> bsize_t" where
  "bsize_add s1 s2 =
     \<lparr>is_overflow = (is_overflow s1 \<or> is_overflow s2 \<or> bs_value s2 > -1 - bs_value s1),
      bs_value = bs_value s1 + bs_value s2\<rparr>"

definition bsize_max :: "bsize_t \<Rightarrow> bsize_t \<Rightarrow> bsize_t" where
  "bsize_max s1 s2 =
     \<lparr>is_overflow = (is_overflow s1 \<or> is_overflow s2),
      bs_value = of_bool (bs_value s1 > bs_value s2) * bs_value s1 +
        of_bool (bs_value s1 \<le> bs_value s2) * bs_value s2\<rparr>"

definition bsize_mul :: "bsize_t \<Rightarrow> bsize_t \<Rightarrow> bsize_t" where
  "bsize_mul s1 s2 =
     \<lparr>is_overflow = (is_overflow s1 \<or> is_overflow s2 \<or>
        (bs_value s1 \<noteq> 0 \<and> bs_value s2 > -1 div bs_value s1)),
      bs_value = bs_value s1 * bs_value s2\<rparr>"

text \<open>
  misc/balloc.h. \<open>fresh\<close> is what the C library's \<^verbatim>\<open>realloc\<close> does: \<open>None\<close> when it returns \<^verbatim>\<open>NULL\<close>,
  otherwise the indeterminate bytes it finds behind the old contents (zeros after those).
\<close>

definition realloc_block :: "bytes option \<Rightarrow> bytes option \<Rightarrow> nat \<Rightarrow> bytes option" where
  "realloc_block fresh m n = map_option (\<lambda>f.
     take n ((case m of None \<Rightarrow> [] | Some old \<Rightarrow> old) @ f @ replicate n 0)) fresh"

definition BRealloc :: "bytes option \<Rightarrow> bytes option \<Rightarrow> size_t \<Rightarrow> bytes option" where
  "BRealloc fresh m n =
     (if n = 0 then realloc_block fresh m 1 else realloc_block fresh m (unat n))"

definition BAlloc :: "bytes option \<Rightarrow> size_t \<Rightarrow> bytes option" where
  "BAlloc fresh n = (if n = 0 then realloc_block fresh None 1 else realloc_block fresh None (unat n))"

definition BAllocArray :: "bytes option \<Rightarrow> size_t \<Rightarrow> size_t \<Rightarrow> bytes option" where
  "BAllocArray fresh count n =
     (if count = 0 \<or> n = 0 then realloc_block fresh None 1
      else if count > -1 div n then None
      else BAlloc fresh (count * n))"

text \<open>protocol/udpgw_proto.h: 3 header bytes, the larger address (18 bytes), the datagram.\<close>

definition udpgw_compute_mtu :: "int \<Rightarrow> int" where
  "udpgw_compute_mtu dgram_mtu =
     (case bsize_toint
        (bsize_add (bsize_fromsize 3)
          (bsize_add (bsize_max (bsize_fromsize 6) (bsize_fromsize 18))
            (bsize_fromint dgram_mtu))) of
        None \<Rightarrow> -1
      | Some s \<Rightarrow> s)"

section \<open>Lemmas\<close>

lemma unat_size_of_nat: "n < 2 ^ 64 \<Longrightarrow> unat (word_of_nat n :: size_t) = n"
  by (simp add: unsigned_of_nat take_bit_nat_eq_self)

lemma realloc_block_length: "realloc_block fresh m n = Some b \<Longrightarrow> length b = n"
  by (auto simp: realloc_block_def)

lemma BRealloc_length: "BRealloc fresh m n = Some b \<Longrightarrow> n \<noteq> 0 \<Longrightarrow> length b = unat n"
  by (auto simp: BRealloc_def dest: realloc_block_length)

lemma c_int_id: "- INT_MAX - 1 \<le> x \<Longrightarrow> x \<le> INT_MAX \<Longrightarrow> c_int x = x"
  by (simp add: c_int_def signed_of_int signed_take_bit_int_eq_self)

lemma uint_size [simp]: "0 \<le> v \<Longrightarrow> v < 2 ^ 64 \<Longrightarrow> uint (word_of_int v :: size_t) = v"
  by (simp add: unsigned_of_int take_bit_int_eq_self)

text \<open>An array of \<open>n\<close> four-byte units, with \<open>n\<close> a positive \<^verbatim>\<open>int\<close>: its size in bytes does not overflow.\<close>

lemma BAllocArray_4:
  assumes "0 < n" "n \<le> INT_MAX"
  shows "BAllocArray fresh (word_of_int n) 4 = realloc_block fresh None (nat (4 * n))"
proof -
  have u: "uint (word_of_int n :: size_t) = n" "uint (word_of_int (4 * n) :: size_t) = 4 * n"
    using assms by (intro uint_size; simp)+
  have "(word_of_int n :: size_t) \<noteq> 0" using u(1) assms(1) by auto
  moreover have "\<not> (word_of_int n :: size_t) > -1 div 4"
    using u(1) assms(2) by (simp add: word_less_def uint_div)
  moreover have "(word_of_int n :: size_t) * 4 = word_of_int (4 * n)" by simp
  moreover have "unat (word_of_int (4 * n) :: size_t) = nat (4 * n)" using u(2) by (simp add: unat_eq_nat_uint)
  moreover have "(word_of_int (4 * n) :: size_t) \<noteq> 0" using u(2) assms(1) by auto
  ultimately show ?thesis by (simp add: BAllocArray_def BAlloc_def mult.commute [of "word_of_int n"])
qed

lemma uint_plus_1: "uint (x :: size_t) + 1 < 2 ^ 64 \<Longrightarrow> uint (x + 1) = uint x + 1"
  by (simp add: uint_word_ariths)

lemma bdivide_up_4:
  assumes "0 \<le> len" "len < 2 ^ 63"
  shows "uint (bdivide_up (word_of_int len) 4) = (len + 3) div 4"
proof -
  let ?a = "word_of_int len :: size_t"
  have a: "uint ?a = len" using assms by simp
  have md: "uint (?a mod 4) = len mod 4" and dv: "uint (?a div 4) = len div 4"
    by (simp_all add: uint_mod uint_div a)
  have "?a mod 4 > 0 \<longleftrightarrow> len mod 4 > 0" by (simp add: word_less_def md)
  moreover have "uint (?a div 4 + 1) = len div 4 + 1"
    using assms uint_plus_1 [of "?a div 4"] by (simp add: dv)
  moreover have "len mod 4 > 0 \<Longrightarrow> (len + 3) div 4 = len div 4 + 1"
    and "\<not> len mod 4 > 0 \<Longrightarrow> (len + 3) div 4 = len div 4"
    using assms by presburger+
  ultimately show ?thesis by (simp add: bdivide_up_def Let_def dv)
qed

text \<open>
  What a \<^verbatim>\<open>bsize_t\<close> stands for: a natural number that fits a \<^verbatim>\<open>size_t\<close>, or overflow. Each
  operation computes the exact result, or overflow where the exact result does not fit.
\<close>

definition bsize_abs :: "bsize_t \<Rightarrow> int option" where
  "bsize_abs s = (if is_overflow s then None else Some (uint (bs_value s)))"

definition fits :: "int \<Rightarrow> int option" where
  "fits n = (if 0 \<le> n \<and> n < 2 ^ 64 then Some n else None)"

lemma uint_le_size: "uint (x :: size_t) < 2 ^ 64" "0 \<le> uint x"
  using uint_lt2p [of x] by simp_all

lemma bsize_abs_fromsize: "bsize_abs (bsize_fromsize v) = Some (uint v)"
  by (simp add: bsize_abs_def bsize_fromsize_def)

lemma not_above_max: "\<not> (x :: size_t) > -1"
  by (simp add: word_order.extremum_strict)

lemma bsize_abs_fromint:
  assumes "v \<le> INT_MAX"
  shows "bsize_abs (bsize_fromint v) = fits v"
  using assms not_above_max [of "word_of_int v"]
  by (simp add: bsize_abs_def bsize_fromint_def fits_def)

lemma uint_max_minus: "uint (-1 - x :: size_t) = 2 ^ 64 - 1 - uint x"
proof -
  have "uint (-1 - x) = (2 ^ 64 - 1 - uint x) mod 2 ^ 64"
    by (simp add: uint_word_ariths unsigned_minus_1_eq_mask mask_eq_exp_minus_1)
  moreover have "0 \<le> 2 ^ 64 - 1 - uint x" "2 ^ 64 - 1 - uint x < 2 ^ 64"
    using uint_le_size [of x] by linarith+
  ultimately show ?thesis by (simp only: mod_pos_pos_trivial)
qed

lemma bsize_abs_add:
  "bsize_abs (bsize_add s1 s2) =
     do { a \<leftarrow> bsize_abs s1; b \<leftarrow> bsize_abs s2; fits (a + b) }"
proof (cases "is_overflow s1 \<or> is_overflow s2")
  case True
  then show ?thesis by (auto simp: bsize_abs_def bsize_add_def bind_eq_None_conv)
next
  case False
  let ?a = "bs_value s1" and ?b = "bs_value s2"
  have "?b > -1 - ?a \<longleftrightarrow> uint ?a + uint ?b \<ge> 2 ^ 64"
    by (simp add: word_less_def uint_max_minus) linarith
  moreover have "uint ?a + uint ?b < 2 ^ 64 \<Longrightarrow> uint (?a + ?b) = uint ?a + uint ?b"
    using uint_le_size by (simp add: uint_word_ariths)
  ultimately show ?thesis
    using False uint_le_size [of ?a] uint_le_size [of ?b]
    by (auto simp: bsize_abs_def bsize_add_def fits_def)
qed

lemma bsize_abs_max:
  "bsize_abs (bsize_max s1 s2) =
     do { a \<leftarrow> bsize_abs s1; b \<leftarrow> bsize_abs s2; Some (max a b) }"
  by (auto simp: bsize_abs_def bsize_max_def bind_eq_None_conv max_def word_less_def word_le_def
      not_le)

lemma div_less_iff_mult: "0 < (a::int) \<Longrightarrow> m div a < b \<longleftrightarrow> m < b * a"
proof -
  assume a: "0 < a"
  have m: "m = a * (m div a) + m mod a" "0 \<le> m mod a" "m mod a < a" using a by simp_all
  show ?thesis
  proof
    assume "m div a < b"
    then have "a * (m div a) \<le> a * (b - 1)" using a by (simp add: mult_left_mono)
    then have "a * (m div a) + a \<le> b * a" by (simp add: algebra_simps)
    with m(1,3) show "m < b * a" by linarith
  next
    assume less: "m < b * a"
    show "m div a < b"
    proof (rule ccontr)
      assume "\<not> m div a < b"
      then have "a * b \<le> a * (m div a)" using a by (simp add: mult_left_mono)
      moreover have "a * b = b * a" by simp
      ultimately show False using m(1,2) less by linarith
    qed
  qed
qed

lemma bsize_abs_mul:
  "bsize_abs (bsize_mul s1 s2) =
     do { a \<leftarrow> bsize_abs s1; b \<leftarrow> bsize_abs s2; fits (a * b) }"
proof (cases "is_overflow s1 \<or> is_overflow s2")
  case True
  then show ?thesis by (auto simp: bsize_abs_def bsize_mul_def bind_eq_None_conv)
next
  case False
  let ?a = "bs_value s1" and ?b = "bs_value s2"
  have nonneg: "0 \<le> uint ?a * uint ?b" by simp
  have "?b > -1 div ?a \<longleftrightarrow> uint ?a * uint ?b \<ge> 2 ^ 64" if "?a \<noteq> 0"
  proof -
    from that have "uint ?a > 0"
      by (metis uint_le_size(2) order.not_eq_order_implies_strict uint_0_iff)
    then show ?thesis
      by (simp add: word_less_def uint_div unsigned_minus_1_eq_mask mask_eq_exp_minus_1
          div_less_iff_mult mult.commute) linarith
  qed
  moreover have "uint ?a * uint ?b < 2 ^ 64 \<Longrightarrow> uint (?a * ?b) = uint ?a * uint ?b"
    using nonneg by (simp add: uint_word_ariths)
  moreover have "?a = 0 \<Longrightarrow> uint ?a * uint ?b = 0" by simp
  ultimately show ?thesis
    using False nonneg
    by (cases "?a = 0") (auto simp: bsize_abs_def bsize_mul_def fits_def not_less)
qed

lemma bsize_toint_abs:
  "bsize_toint s = do { n \<leftarrow> bsize_abs s; if n \<le> INT_MAX then Some n else None }"
proof -
  have "0 \<le> uint (bs_value s)" by simp
  then have "uint (bs_value s) \<le> INT_MAX \<Longrightarrow> c_int (uint (bs_value s)) = uint (bs_value s)"
    by (intro c_int_id) linarith
  then show ?thesis by (auto simp: bsize_toint_def bsize_abs_def word_less_def)
qed

text \<open>The MTU of the udpgw protocol: exact, and -1 exactly when it does not fit an \<^verbatim>\<open>int\<close>.\<close>

lemma udpgw_compute_mtu_eq:
  assumes "m \<le> INT_MAX"
  shows "udpgw_compute_mtu m = (if 0 \<le> m \<and> m + 21 \<le> INT_MAX then m + 21 else -1)"
  using assms
  by (auto simp: udpgw_compute_mtu_def bsize_toint_abs bsize_abs_add bsize_abs_max
      bsize_abs_fromsize bsize_abs_fromint fits_def)

end
