(* ===== verification/ChunkBuffer.thy ===== *)
theory ChunkBuffer
  imports BSize
begin

text \<open>
  structure/ChunkBuffer2.h: a circular buffer of packets inside one array of 4-byte blocks.
  Each packet is a header block that holds its length, followed by the blocks of its data;
  packets never straddle the end of the array, so the buffer wraps early where an MTU-sized
  packet would not fit (\<open>wrap\<close>).

  The array is the byte list \<open>cb_buffer\<close>; the pointers \<^verbatim>\<open>input_dest\<close> and \<^verbatim>\<open>output_dest\<close> are
  offsets into it, \<open>None\<close> for \<^verbatim>\<open>NULL\<close>. The producer writes a packet at \<^verbatim>\<open>input_dest\<close> and then
  calls \<^verbatim>\<open>SubmitPacket\<close>; the consumer reads it at \<^verbatim>\<open>output_dest\<close> and calls \<^verbatim>\<open>ConsumePacket\<close>
  (\<open>cb_put\<close> and \<open>cb_get\<close>).
\<close>

section \<open>State and operations\<close>

record ChunkBuffer2 =
  cb_buffer :: bytes
  cb_size :: int
  cb_wrap :: int
  cb_start :: int
  cb_used :: int
  cb_mtu :: int
  cb_input_dest :: "int option"
  cb_input_avail :: int
  cb_output_dest :: "int option"
  cb_output_avail :: int

text \<open>Blocks needed for \<open>len\<close> bytes: \<^verbatim>\<open>bdivide_up(len, sizeof(struct ChunkBuffer2_block))\<close>.\<close>

definition blocks :: "int \<Rightarrow> int" where
  "blocks len = c_int (uint (bdivide_up (word_of_int len) 4))"

definition cb_end :: "ChunkBuffer2 \<Rightarrow> int" where
  "cb_end buf =
     (if cb_used buf \<ge> cb_wrap buf - cb_start buf
      then cb_used buf - (cb_wrap buf - cb_start buf)
      else cb_start buf + cb_used buf)"

text \<open>\<^verbatim>\<open>buf->buffer[i].len\<close>, read and written\<close>

definition block_len :: "ChunkBuffer2 \<Rightarrow> int \<Rightarrow> int option" where
  "block_len buf i =
     (if i < 0 then None
      else map_option (\<lambda>img. sint (of_mem32 img)) (mem_read (cb_buffer buf) (nat (4 * i)) 4))"

definition set_block_len :: "ChunkBuffer2 \<Rightarrow> int \<Rightarrow> int \<Rightarrow> ChunkBuffer2 option" where
  "set_block_len buf i len =
     (if i < 0 then None
      else map_option (\<lambda>m. buf\<lparr>cb_buffer := m\<rparr>)
        (mem_write (cb_buffer buf) (nat (4 * i)) (mem32 (word_of_int len))))"

definition cb_assert_buffer :: "ChunkBuffer2 \<Rightarrow> bool" where
  "cb_assert_buffer buf \<longleftrightarrow>
     cb_size buf > 0 \<and> cb_wrap buf > 0 \<and> cb_wrap buf \<le> cb_size buf \<and>
     cb_start buf \<ge> 0 \<and> cb_start buf < cb_wrap buf \<and>
     cb_used buf \<ge> 0 \<and> cb_used buf \<le> cb_wrap buf \<and>
     (cb_wrap buf = cb_size buf \<or> cb_used buf \<ge> cb_wrap buf - cb_start buf) \<and>
     cb_mtu buf \<ge> 0"

definition cb_free :: "ChunkBuffer2 \<Rightarrow> int" where
  "cb_free buf =
     (if cb_used buf \<ge> cb_wrap buf - cb_start buf
      then cb_start buf - cb_end buf else cb_size buf - cb_end buf)"

definition cb_assert_input :: "ChunkBuffer2 \<Rightarrow> bool" where
  "cb_assert_input buf \<longleftrightarrow>
     (if cb_size buf - cb_end buf - 1 < cb_mtu buf
      then cb_input_dest buf = None \<and> cb_input_avail buf = -1
      else if cb_free buf > 0
      then cb_input_dest buf = Some (4 * (cb_end buf + 1)) \<and>
        cb_input_avail buf = (cb_free buf - 1) * 4
      else cb_input_dest buf = None \<and> cb_input_avail buf = -1)"

definition cb_assert_output :: "ChunkBuffer2 \<Rightarrow> bool" where
  "cb_assert_output buf \<longleftrightarrow>
     (if cb_used buf > 0
      then (case block_len buf (cb_start buf) of None \<Rightarrow> False | Some datalen \<Rightarrow>
         datalen \<ge> 0 \<and> blocks datalen \<le> cb_used buf - 1 \<and>
         blocks datalen \<le> cb_wrap buf - cb_start buf - 1 \<and>
         cb_output_dest buf = Some (4 * (cb_start buf + 1)) \<and> cb_output_avail buf = datalen)
      else cb_output_dest buf = None \<and> cb_output_avail buf = -1)"

definition cb_assert_io :: "ChunkBuffer2 \<Rightarrow> bool" where
  "cb_assert_io buf \<longleftrightarrow> cb_assert_input buf \<and> cb_assert_output buf"

definition cb_update_input :: "ChunkBuffer2 \<Rightarrow> ChunkBuffer2" where
  "cb_update_input buf =
     (if cb_size buf - cb_end buf - 1 < cb_mtu buf
      then buf\<lparr>cb_input_dest := None, cb_input_avail := -1\<rparr>
      else if cb_free buf > 0
      then buf\<lparr>cb_input_dest := Some (4 * (cb_end buf + 1)),
               cb_input_avail := c_int ((cb_free buf - 1) * 4)\<rparr>
      else buf\<lparr>cb_input_dest := None, cb_input_avail := -1\<rparr>)"

definition cb_update_output :: "ChunkBuffer2 \<Rightarrow> ChunkBuffer2 option" where
  "cb_update_output buf =
     (if cb_used buf > 0
      then do {
        datalen \<leftarrow> block_len buf (cb_start buf);
        ASSERT (datalen \<ge> 0);
        ASSERT (blocks datalen \<le> cb_used buf - 1);
        ASSERT (blocks datalen \<le> cb_wrap buf - cb_start buf - 1);
        Some (buf\<lparr>cb_output_dest := Some (4 * (cb_start buf + 1)), cb_output_avail := datalen\<rparr>)
      }
      else Some (buf\<lparr>cb_output_dest := None, cb_output_avail := -1\<rparr>))"

definition ChunkBuffer2_calc_blocks :: "int \<Rightarrow> int \<Rightarrow> int" where
  "ChunkBuffer2_calc_blocks chunk_len num =
     (let chunk_data_blocks = blocks chunk_len in
      if chunk_data_blocks > INT_MAX - 1 then -1
      else let chunk_blocks = 1 + chunk_data_blocks in
      if num > INT_MAX - 1 then -1
      else let num_chunks = num + 1 in
      if chunk_blocks > INT_MAX div num_chunks then -1
      else chunk_blocks * num_chunks)"

text \<open>\<open>buffer\<close> is the freshly allocated array.\<close>

definition ChunkBuffer2_Init :: "bytes \<Rightarrow> int \<Rightarrow> int \<Rightarrow> ChunkBuffer2 option" where
  "ChunkBuffer2_Init buffer nblocks mtu = do {
     ASSERT (nblocks > 0);
     ASSERT (mtu \<ge> 0);
     let buf = \<lparr>cb_buffer = buffer, cb_size = nblocks, cb_wrap = nblocks, cb_start = 0,
       cb_used = 0, cb_mtu = blocks mtu, cb_input_dest = None, cb_input_avail = 0,
       cb_output_dest = None, cb_output_avail = 0\<rparr>;
     ASSERT (cb_assert_buffer buf);
     buf \<leftarrow> cb_update_output (cb_update_input buf);
     ASSERT (cb_assert_io buf);
     Some buf
   }"

definition ChunkBuffer2_SubmitPacket :: "ChunkBuffer2 \<Rightarrow> int \<Rightarrow> ChunkBuffer2 option" where
  "ChunkBuffer2_SubmitPacket buf len = do {
     ASSERT (cb_input_dest buf \<noteq> None);
     ASSERT (len \<ge> 0);
     ASSERT (len \<le> cb_input_avail buf);
     ASSERT (cb_assert_buffer buf);
     ASSERT (cb_assert_io buf);
     let end = cb_end buf;
     let blocklen = blocks len;
     ASSERT (blocklen \<le> cb_size buf - end - 1);
     ASSERT (cb_used buf < cb_wrap buf - cb_start buf \<or> blocklen \<le> cb_start buf - end - 1);
     buf \<leftarrow> set_block_len buf end len;
     let buf = buf\<lparr>cb_used := cb_used buf + (1 + blocklen)\<rparr>;
     let buf = (if cb_used buf \<le> cb_wrap buf - cb_start buf \<and>
                   cb_mtu buf > cb_size buf - (end + 1 + blocklen) - 1
                then buf\<lparr>cb_wrap := end + 1 + blocklen\<rparr> else buf);
     ASSERT (cb_assert_buffer buf);
     let buf = cb_update_input buf;
     buf \<leftarrow> (if cb_used buf = 1 + blocklen then cb_update_output buf else Some buf);
     ASSERT (cb_assert_io buf);
     Some buf
   }"

definition ChunkBuffer2_ConsumePacket :: "ChunkBuffer2 \<Rightarrow> ChunkBuffer2 option" where
  "ChunkBuffer2_ConsumePacket buf = do {
     ASSERT (cb_output_dest buf \<noteq> None);
     ASSERT (cb_assert_buffer buf);
     ASSERT (cb_assert_io buf);
     ASSERT (1 \<le> cb_wrap buf - cb_start buf);
     ASSERT (1 \<le> cb_used buf);
     len \<leftarrow> block_len buf (cb_start buf);
     let blocklen = blocks len;
     ASSERT (blocklen \<le> cb_wrap buf - cb_start buf - 1);
     ASSERT (blocklen \<le> cb_used buf - 1);
     let data_wrapped = (cb_used buf \<ge> cb_wrap buf - cb_start buf);
     let buf = buf\<lparr>cb_start := cb_start buf + (1 + blocklen), cb_used := cb_used buf - (1 + blocklen)\<rparr>;
     let buf = (if cb_start buf = cb_wrap buf
                then buf\<lparr>cb_start := 0, cb_wrap := cb_size buf\<rparr> else buf);
     ASSERT (cb_assert_buffer buf);
     let buf = (if data_wrapped then cb_update_input buf else buf);
     buf \<leftarrow> cb_update_output buf;
     ASSERT (cb_assert_io buf);
     Some buf
   }"

text \<open>The producer and the consumer side of the buffer.\<close>

definition cb_put :: "bytes \<Rightarrow> ChunkBuffer2 \<Rightarrow> ChunkBuffer2 option" where
  "cb_put p buf = do {
     dest \<leftarrow> cb_input_dest buf;
     ASSERT (int (length p) \<le> cb_input_avail buf);
     m \<leftarrow> mem_write (cb_buffer buf) (nat dest) p;
     ChunkBuffer2_SubmitPacket (buf\<lparr>cb_buffer := m\<rparr>) (int (length p))
   }"

definition cb_get :: "ChunkBuffer2 \<Rightarrow> (bytes \<times> ChunkBuffer2) option" where
  "cb_get buf = do {
     src \<leftarrow> cb_output_dest buf;
     p \<leftarrow> mem_read (cb_buffer buf) (nat src) (nat (cb_output_avail buf));
     buf' \<leftarrow> ChunkBuffer2_ConsumePacket buf;
     Some (p, buf')
   }"

section \<open>Abstraction: the packets in the buffer\<close>

text \<open>
  The packets laid out from block \<open>pos\<close> on, \<open>n\<close> blocks in all. (\<open>csize\<close> is the number of
  blocks of a packet with its header.)
\<close>

definition csize :: "bytes \<Rightarrow> int" where
  "csize p = 1 + blocks (int (length p))"

definition span :: "bytes list \<Rightarrow> int" where
  "span ps = sum_list (map csize ps)"

function chunks_at :: "bytes \<Rightarrow> int \<Rightarrow> int \<Rightarrow> bytes list" where
  "chunks_at m pos n =
     (if n \<le> 0 then []
      else let len = sint (of_mem32 (take 4 (drop (nat (4 * pos)) m)));
               bl = 1 + blocks len in
        if bl \<le> 0 \<or> n < bl then []
        else take (nat len) (drop (nat (4 * (pos + 1))) m) # chunks_at m (pos + bl) (n - bl))"
  by pat_completeness auto
termination
  by (relation "measure (\<lambda>(m, pos, n). nat n)") auto

declare chunks_at.simps [simp del]

definition cb_contents :: "ChunkBuffer2 \<Rightarrow> bytes list" where
  "cb_contents buf =
     (let tail = cb_wrap buf - cb_start buf in
      if cb_used buf \<ge> tail
      then chunks_at (cb_buffer buf) (cb_start buf) tail @
           chunks_at (cb_buffer buf) 0 (cb_used buf - tail)
      else chunks_at (cb_buffer buf) (cb_start buf) (cb_used buf))"


section \<open>Layout of packets in the array\<close>

fun laid :: "bytes \<Rightarrow> int \<Rightarrow> bytes list \<Rightarrow> bool" where
  "laid m pos [] \<longleftrightarrow> True"
| "laid m pos (p # ps) \<longleftrightarrow>
     take 4 (drop (nat (4 * pos)) m) = mem32 (word_of_int (int (length p))) \<and>
     take (length p) (drop (nat (4 * (pos + 1))) m) = p \<and>
     laid m (pos + csize p) ps"

lemma blocks_eq: "0 \<le> len \<Longrightarrow> len \<le> INT_MAX \<Longrightarrow> blocks len = (len + 3) div 4"
  by (simp add: blocks_def bdivide_up_4 c_int_id)

lemma blocks_bounds:
  assumes "0 \<le> len" "len \<le> INT_MAX"
  shows "0 \<le> blocks len" "len \<le> 4 * blocks len" "4 * blocks len \<le> len + 3"
  using assms by (simp_all add: blocks_eq)

lemma blocks_le: "0 \<le> len \<Longrightarrow> len \<le> INT_MAX \<Longrightarrow> blocks len \<le> k \<longleftrightarrow> len \<le> 4 * k"
  by (simp add: blocks_eq) presburger

text \<open>A packet no longer than an \<^verbatim>\<open>int\<close> can say.\<close>

abbreviation small :: "bytes \<Rightarrow> bool" where
  "small p \<equiv> length p \<le> 2147483647"

lemma csize_bounds:
  assumes "small p"
  shows "1 \<le> csize p" "int (length p) \<le> 4 * (csize p - 1)"
  using blocks_bounds [of "int (length p)"] assms by (auto simp: csize_def)

lemma span_Nil [simp]: "span [] = 0"
  and span_Cons [simp]: "span (p # ps) = csize p + span ps"
  and span_append [simp]: "span (ps @ qs) = span ps + span qs"
  by (simp_all add: span_def)

lemma span_nonneg: "\<forall>p \<in> set ps. small p \<Longrightarrow> 0 \<le> span ps"
proof (induction ps)
  case (Cons p ps)
  then show ?case using csize_bounds(1) [of p] by simp
qed simp

lemma laid_append:
  "laid m pos (ps @ qs) \<longleftrightarrow> laid m pos ps \<and> laid m (pos + span ps) qs"
  by (induction ps arbitrary: pos) (auto simp: algebra_simps)

lemma laid_fits: "laid m pos ps \<Longrightarrow> p \<in> set ps \<Longrightarrow> length p \<le> length m"
proof (induction ps arbitrary: pos)
  case Nil
  then show ?case by simp
next
  case (Cons q ps)
  from Cons.prems(1) have "length (take (length q) (drop (nat (4 * (pos + 1))) m)) = length q"
    by simp
  then have "length q \<le> length m" by simp
  with Cons show ?case by auto
qed

lemma laid_small: "laid m pos ps \<Longrightarrow> small m \<Longrightarrow> \<forall>p \<in> set ps. small p"
  using laid_fits by fastforce

lemma sub_eq:
  assumes "length m = length m'" "\<And>i. k \<le> i \<Longrightarrow> i < k + n \<Longrightarrow> m ! i = m' ! i"
  shows "take n (drop k m) = take n (drop k m')"
  using assms by (intro nth_equalityI) auto

text \<open>Changes outside the blocks of the packets leave them in place.\<close>

lemma laid_frame:
  assumes "laid m pos ps" "length m = length m'" "0 \<le> pos" "small m"
    and "\<And>i. 4 * pos \<le> int i \<Longrightarrow> int i < 4 * (pos + span ps) \<Longrightarrow> m ! i = m' ! i"
  shows "laid m' pos ps"
  using assms
proof (induction ps arbitrary: pos)
  case Nil
  then show ?case by simp
next
  case (Cons p ps)
  have "\<forall>q \<in> set (p # ps). small q" using laid_small Cons.prems(1,4) by blast
  then have sp: "0 \<le> span ps" and c: "1 \<le> csize p" "int (length p) \<le> 4 * (csize p - 1)"
    using span_nonneg [of ps] csize_bounds [of p] by simp_all
  have same: "m ! i = m' ! i" if "4 * pos \<le> int i" "int i < 4 * (pos + csize p + span ps)" for i
    using that by (intro Cons.prems(5)) (simp_all add: algebra_simps)
  have "take 4 (drop (nat (4 * pos)) m) = take 4 (drop (nat (4 * pos)) m')"
    using Cons.prems(2,3) sp c by (intro sub_eq same) auto
  moreover have "take (length p) (drop (nat (4 * (pos + 1))) m) =
      take (length p) (drop (nat (4 * (pos + 1))) m')"
    using Cons.prems(2,3) sp c by (intro sub_eq same) auto
  moreover have "laid m' (pos + csize p) ps"
    using Cons.prems(1-4) c by (intro Cons.IH same) auto
  ultimately show ?case using Cons.prems(1) by simp
qed

lemma header_value:
  "small p \<Longrightarrow> sint (of_mem32 (mem32 (word_of_int (int (length p))))) = int (length p)"
  using c_int_id [of "int (length p)"] by (simp add: c_int_def)

lemma chunks_at_laid:
  assumes "laid m pos ps" "small m"
  shows "chunks_at m pos (span ps) = ps"
  using assms
proof (induction ps arbitrary: pos)
  case Nil
  then show ?case by (simp add: chunks_at.simps)
next
  case (Cons p ps)
  have len: "\<forall>q \<in> set (p # ps). small q" using laid_small Cons.prems by blast
  then have "1 \<le> csize p" "0 \<le> span ps" using csize_bounds span_nonneg by auto
  moreover have "chunks_at m (pos + csize p) (span ps) = ps"
    using Cons by simp
  moreover have "sint (of_mem32 (take 4 (drop (nat (4 * pos)) m))) = int (length p)"
    using Cons.prems(1) len header_value [of p] by simp
  ultimately show ?case using Cons.prems(1)
    by (subst chunks_at.simps) (simp add: Let_def csize_def algebra_simps)
qed


section \<open>Invariant\<close>

text \<open>
  \<open>ps1\<close> are the packets from \<open>start\<close> up to the end of the data or to \<open>wrap\<close>, \<open>ps2\<close> those after the
  wrap. Before a wrap there is always room for a packet of the MTU behind the data; once
  wrapped, less than that was left behind \<open>wrap\<close>, and the last packet before it started where
  an MTU-sized packet would have fitted.
\<close>

definition cb_layout :: "ChunkBuffer2 \<Rightarrow> bytes list \<Rightarrow> bytes list \<Rightarrow> bool" where
  "cb_layout buf ps1 ps2 \<longleftrightarrow>
     cb_assert_buffer buf \<and>
     int (length (cb_buffer buf)) = 4 * cb_size buf \<and> 4 * cb_size buf \<le> INT_MAX \<and>
     laid (cb_buffer buf) (cb_start buf) ps1 \<and> laid (cb_buffer buf) 0 ps2 \<and>
     (if cb_used buf \<ge> cb_wrap buf - cb_start buf
      then span ps1 = cb_wrap buf - cb_start buf \<and>
        span ps2 = cb_used buf - (cb_wrap buf - cb_start buf) \<and>
        cb_size buf - cb_wrap buf \<le> cb_mtu buf \<and>
        ps1 \<noteq> [] \<and> cb_wrap buf - csize (last ps1) + cb_mtu buf + 1 \<le> cb_size buf
      else ps2 = [] \<and> span ps1 = cb_used buf \<and>
        cb_start buf + cb_used buf + cb_mtu buf + 1 \<le> cb_size buf)"

definition cb_invar :: "ChunkBuffer2 \<Rightarrow> bool" where
  "cb_invar buf \<longleftrightarrow> (\<exists>ps1 ps2. cb_layout buf ps1 ps2) \<and> cb_assert_io buf"

lemma layout_invar: "cb_layout buf ps1 ps2 \<Longrightarrow> cb_assert_io buf \<Longrightarrow> cb_invar buf"
  by (auto simp: cb_invar_def)

lemma layout_small: "cb_layout buf ps1 ps2 \<Longrightarrow> small (cb_buffer buf)"
  by (auto simp: cb_layout_def)

lemma layout_contents:
  assumes "cb_layout buf ps1 ps2"
  shows "cb_contents buf = ps1 @ ps2"
  using assms layout_small [OF assms] chunks_at_laid [of "cb_buffer buf" "cb_start buf" ps1]
    chunks_at_laid [of "cb_buffer buf" 0 ps2]
  by (auto simp: cb_layout_def cb_contents_def Let_def split: if_splits)

lemma layout_smalls:
  assumes "cb_layout buf ps1 ps2"
  shows "\<forall>p \<in> set ps1. small p" "\<forall>p \<in> set ps2. small p"
  using assms layout_small [OF assms] laid_small unfolding cb_layout_def by blast+

text \<open>Where the free area is.\<close>

lemma layout_free:
  assumes "cb_layout buf ps1 ps2"
  shows "0 \<le> cb_end buf" "cb_end buf \<le> cb_size buf" "cb_free buf \<le> cb_size buf"
    "cb_end buf + cb_free buf \<le> cb_size buf" "0 \<le> cb_free buf"
  using assms unfolding cb_layout_def cb_assert_buffer_def cb_end_def cb_free_def
  by (auto split: if_splits)

lemma update_input_fields [simp]:
  "cb_buffer (cb_update_input buf) = cb_buffer buf"
  "cb_size (cb_update_input buf) = cb_size buf"
  "cb_wrap (cb_update_input buf) = cb_wrap buf"
  "cb_start (cb_update_input buf) = cb_start buf"
  "cb_used (cb_update_input buf) = cb_used buf"
  "cb_mtu (cb_update_input buf) = cb_mtu buf"
  "cb_output_dest (cb_update_input buf) = cb_output_dest buf"
  "cb_output_avail (cb_update_input buf) = cb_output_avail buf"
  by (simp_all add: cb_update_input_def)

lemma block_len_fields [simp]:
  "block_len (buf\<lparr>cb_wrap := w\<rparr>) i = block_len buf i"
  "block_len (buf\<lparr>cb_start := s\<rparr>) i = block_len buf i"
  "block_len (buf\<lparr>cb_used := u\<rparr>) i = block_len buf i"
  "block_len (buf\<lparr>cb_output_dest := od\<rparr>) i = block_len buf i"
  "block_len (buf\<lparr>cb_output_avail := oa\<rparr>) i = block_len buf i"
  "block_len (cb_update_input buf) i = block_len buf i"
  by (simp_all add: block_len_def)

lemma cb_end_fields [simp]:
  "cb_end (buf\<lparr>cb_buffer := m\<rparr>) = cb_end buf"
  "cb_end (buf\<lparr>cb_output_dest := od\<rparr>) = cb_end buf"
  "cb_end (buf\<lparr>cb_output_avail := oa\<rparr>) = cb_end buf"
  "cb_end (cb_update_input buf) = cb_end buf"
  "cb_free (buf\<lparr>cb_buffer := m\<rparr>) = cb_free buf"
  "cb_free (buf\<lparr>cb_output_dest := od\<rparr>) = cb_free buf"
  "cb_free (buf\<lparr>cb_output_avail := oa\<rparr>) = cb_free buf"
  "cb_free (cb_update_input buf) = cb_free buf"
  by (simp_all add: cb_end_def cb_free_def)

lemma layout_output_fields [simp]:
  "cb_layout (buf\<lparr>cb_output_dest := od\<rparr>) ps1 ps2 = cb_layout buf ps1 ps2"
  "cb_layout (buf\<lparr>cb_output_avail := oa\<rparr>) ps1 ps2 = cb_layout buf ps1 ps2"
  by (simp_all add: cb_layout_def cb_assert_buffer_def)

lemma assert_input_fields [simp]:
  "cb_assert_input (buf\<lparr>cb_buffer := m\<rparr>) = cb_assert_input buf"
  "cb_assert_input (buf\<lparr>cb_output_dest := od\<rparr>) = cb_assert_input buf"
  "cb_assert_input (buf\<lparr>cb_output_avail := oa\<rparr>) = cb_assert_input buf"
  "cb_assert_output (cb_update_input buf) = cb_assert_output buf"
  by (simp_all add: cb_assert_input_def cb_assert_output_def split: option.split)

lemma layout_update_input [simp]: "cb_layout (cb_update_input buf) ps1 ps2 = cb_layout buf ps1 ps2"
  by (simp add: cb_layout_def cb_assert_buffer_def)

lemma update_input_ok:
  assumes "cb_layout buf ps1 ps2"
  shows "cb_assert_input (cb_update_input buf)"
proof -
  have "0 < cb_free buf \<Longrightarrow> c_int ((cb_free buf - 1) * 4) = (cb_free buf - 1) * 4"
    using layout_free(3) [OF assms] assms by (intro c_int_id) (auto simp: cb_layout_def)
  then show ?thesis
    by (simp add: cb_assert_input_def) (simp add: cb_update_input_def)
qed

text \<open>The first packet is found at the output position.\<close>

lemma layout_first:
  assumes lay: "cb_layout buf ps1 ps2" and used: "0 < cb_used buf"
  obtains p ps where "ps1 = p # ps" "block_len buf (cb_start buf) = Some (int (length p))"
    "csize p \<le> cb_used buf" "csize p \<le> cb_wrap buf - cb_start buf"
    "mem_read (cb_buffer buf) (nat (4 * (cb_start buf + 1))) (length p) = Some p" "small p"
proof -
  have "span ps1 \<noteq> 0" using lay used
    by (auto simp: cb_layout_def cb_assert_buffer_def split: if_splits)
  then obtain p ps where ps1: "ps1 = p # ps" by (cases ps1) auto
  have sm: "small p" "0 \<le> span ps"
    using layout_smalls(1) [OF lay] span_nonneg [of ps] by (auto simp: ps1)
  have fits: "csize p \<le> cb_used buf" "csize p \<le> cb_wrap buf - cb_start buf"
    using lay sm unfolding cb_layout_def ps1 by (auto split: if_splits)
  have len: "0 \<le> cb_start buf" "cb_wrap buf \<le> cb_size buf"
    "int (length (cb_buffer buf)) = 4 * cb_size buf"
    using lay by (auto simp: cb_layout_def cb_assert_buffer_def)
  have "laid (cb_buffer buf) (cb_start buf) (p # ps)" using lay by (simp add: cb_layout_def ps1)
  then have hd: "take 4 (drop (nat (4 * cb_start buf)) (cb_buffer buf)) = mem32 (word_of_int (int (length p)))"
    and dat: "take (length p) (drop (nat (4 * (cb_start buf + 1))) (cb_buffer buf)) = p" by simp_all
  have "block_len buf (cb_start buf) = Some (int (length p))"
    using len fits csize_bounds(1) [OF sm(1)] header_value [OF sm(1)]
    by (auto simp: block_len_def mem_read_def hd)
  moreover have "mem_read (cb_buffer buf) (nat (4 * (cb_start buf + 1))) (length p) = Some p"
    using len fits csize_bounds(2) [OF sm(1)] dat by (auto simp: mem_read_def algebra_simps)
  ultimately show thesis using that ps1 fits sm by blast
qed

lemma update_output_ok:
  assumes lay: "cb_layout buf ps1 ps2"
  obtains od oa where "cb_update_output buf = Some (buf\<lparr>cb_output_dest := od, cb_output_avail := oa\<rparr>)"
    "cb_assert_output (buf\<lparr>cb_output_dest := od, cb_output_avail := oa\<rparr>)"
proof (cases "0 < cb_used buf")
  case True
  obtain p ps where p: "ps1 = p # ps" "block_len buf (cb_start buf) = Some (int (length p))"
    "csize p \<le> cb_used buf" "csize p \<le> cb_wrap buf - cb_start buf" "small p"
    using layout_first [OF lay True] by metis
  show thesis
  proof (rule that)
    show "cb_update_output buf = Some (buf\<lparr>cb_output_dest := Some (4 * (cb_start buf + 1)),
        cb_output_avail := int (length p)\<rparr>)"
      using True p by (simp add: cb_update_output_def csize_def)
    show "cb_assert_output (buf\<lparr>cb_output_dest := Some (4 * (cb_start buf + 1)),
        cb_output_avail := int (length p)\<rparr>)"
      using True p by (simp add: cb_assert_output_def csize_def)
  qed
next
  case False
  show thesis
    by (rule that [where od = None and oa = "-1"]) (use False in \<open>simp_all add: cb_update_output_def cb_assert_output_def\<close>)
qed


section \<open>Submitting a packet\<close>

lemma put_memory:
  assumes lay: "cb_layout buf ps1 ps2" and sm: "small p" and fit: "csize p \<le> cb_free buf"
  obtains m1 m2 where
    "mem_write (cb_buffer buf) (nat (4 * (cb_end buf + 1))) p = Some m1"
    "mem_write m1 (nat (4 * cb_end buf)) (mem32 (word_of_int (int (length p)))) = Some m2"
    "length m1 = length (cb_buffer buf)" "length m2 = length (cb_buffer buf)"
    "laid m2 (cb_end buf) [p]"
    "\<And>i. i < length m2 \<Longrightarrow> int i < 4 * cb_end buf \<or> 4 * (cb_end buf + csize p) \<le> int i \<Longrightarrow>
       m1 ! i = cb_buffer buf ! i \<and> m2 ! i = cb_buffer buf ! i"
proof -
  let ?m = "cb_buffer buf" and ?e = "cb_end buf" and ?hd = "mem32 (word_of_int (int (length p)))"
  note c = csize_bounds [OF sm]
  have e: "0 \<le> ?e" "?e + csize p \<le> cb_size buf" "int (length ?m) = 4 * cb_size buf"
    using layout_free [OF lay] lay fit by (auto simp: cb_layout_def)
  have "nat (4 * (?e + 1)) + length p \<le> length ?m"
    using e c by (subst zle_int [symmetric]) (simp add: algebra_simps)
  then obtain m1 where m1: "mem_write ?m (nat (4 * (?e + 1))) p = Some m1"
    by (simp add: mem_write_Some)
  have l1: "length m1 = length ?m" using m1 by (rule mem_write_length)
  have "nat (4 * ?e) + length ?hd \<le> length m1" using e c l1 by simp
  then obtain m2 where m2: "mem_write m1 (nat (4 * ?e)) ?hd = Some m2"
    by (simp add: mem_write_Some)
  have l2: "length m2 = length ?m" using mem_write_length [OF m2] l1 by simp
  have "take (length p) (drop (nat (4 * (?e + 1))) m2) = take (length p) (drop (nat (4 * (?e + 1))) m1)"
    using e c l1 l2 by (intro sub_eq) (auto simp: mem_write_nth [OF m2])
  then have "laid m2 ?e [p]"
    using mem_write_sub [OF m2] mem_write_sub [OF m1] by simp
  moreover have "m1 ! i = ?m ! i \<and> m2 ! i = ?m ! i"
    if "i < length m2" "int i < 4 * ?e \<or> 4 * (?e + csize p) \<le> int i" for i
    using that e c l1 l2 by (auto simp: mem_write_nth [OF m2] mem_write_nth [OF m1])
  ultimately show thesis using that m1 m2 l1 l2 by blast
qed

lemma layout_frame:
  assumes lay: "cb_layout buf ps1 ps2" and fit: "csize p \<le> cb_free buf" and sm: "small p"
    and len: "length m = length (cb_buffer buf)"
    and same: "\<And>i. i < length m \<Longrightarrow> int i < 4 * cb_end buf \<or> 4 * (cb_end buf + csize p) \<le> int i \<Longrightarrow>
       m ! i = cb_buffer buf ! i"
  shows "laid m (cb_start buf) ps1" "laid m 0 ps2" "cb_layout (buf\<lparr>cb_buffer := m\<rparr>) ps1 ps2"
proof -
  note l = lay [unfolded cb_layout_def cb_assert_buffer_def]
  have c: "1 \<le> csize p" using csize_bounds(1) [OF sm] .
  show 1: "laid m (cb_start buf) ps1"
  proof (rule laid_frame)
    show "cb_buffer buf ! i = m ! i"
      if "4 * cb_start buf \<le> int i" "int i < 4 * (cb_start buf + span ps1)" for i
      using that l c fit len by (intro same [symmetric]) (auto simp: cb_end_def cb_free_def split: if_splits)
  qed (use l len in auto)
  show 2: "laid m 0 ps2"
  proof (rule laid_frame)
    show "cb_buffer buf ! i = m ! i" if "4 * 0 \<le> int i" "int i < 4 * (0 + span ps2)" for i
      using that l c fit len by (intro same [symmetric]) (auto simp: cb_end_def cb_free_def split: if_splits)
  qed (use l len in auto)
  show "cb_layout (buf\<lparr>cb_buffer := m\<rparr>) ps1 ps2"
    using l 1 2 len by (simp add: cb_layout_def cb_assert_buffer_def)
qed


lemma put_layout:
  assumes lay: "cb_layout buf ps1 ps2" and sm: "small p" and fit: "csize p \<le> cb_free buf"
    and room: "cb_mtu buf \<le> cb_size buf - cb_end buf - 1"
    and laid: "laid m (cb_end buf) [p]"
    and len: "length m = length (cb_buffer buf)"
    and same: "\<And>i. i < length m \<Longrightarrow> int i < 4 * cb_end buf \<or> 4 * (cb_end buf + csize p) \<le> int i \<Longrightarrow>
       m ! i = cb_buffer buf ! i"
    and b1: "b1 = buf\<lparr>cb_buffer := m, cb_used := cb_used buf + csize p\<rparr>"
    and b2: "b2 = (if cb_used b1 \<le> cb_wrap b1 - cb_start b1 \<and>
        cb_mtu b1 > cb_size b1 - (cb_end buf + csize p) - 1
        then b1\<lparr>cb_wrap := cb_end buf + csize p\<rparr> else b1)"
  shows "\<exists>qs1 qs2. cb_layout b2 qs1 qs2 \<and> qs1 @ qs2 = ps1 @ ps2 @ [p]"
proof (cases "cb_used buf \<ge> cb_wrap buf - cb_start buf")
  case True
  note l = lay [unfolded cb_layout_def cb_assert_buffer_def] layout_frame [OF lay fit sm len same]
  have c: "1 \<le> csize p" using csize_bounds(1) [OF sm] .
  have "b2 = b1" using True c by (auto simp: b2 b1)
  moreover have "cb_end buf = span ps2" using True l by (simp add: cb_end_def)
  ultimately have "cb_layout b2 ps1 (ps2 @ [p])"
    using True l c fit laid len
    by (simp add: cb_layout_def cb_assert_buffer_def b1 cb_free_def laid_append)
  then show ?thesis by (intro exI [of _ ps1] exI [of _ "ps2 @ [p]"]) simp
next
  case False
  note l = lay [unfolded cb_layout_def cb_assert_buffer_def] layout_frame [OF lay fit sm len same]
  have c: "1 \<le> csize p" using csize_bounds(1) [OF sm] .
  have e: "cb_end buf = cb_start buf + cb_used buf" "cb_free buf = cb_size buf - cb_end buf"
    "ps2 = []" "span ps1 = cb_used buf"
    using False l by (auto simp: cb_end_def cb_free_def)
  have "cb_layout b2 (ps1 @ [p]) []"
    using False l c fit laid len room e
    by (auto simp: cb_layout_def cb_assert_buffer_def b1 b2 laid_append)
  then show ?thesis using e by (intro exI [of _ "ps1 @ [p]"] exI [of _ "[]"]) simp
qed

text \<open>The output pointers, said by the packets in the buffer.\<close>

lemma layout_empty:
  assumes "cb_layout buf ps1 ps2"
  shows "ps1 @ ps2 = [] \<longleftrightarrow> cb_used buf = 0"
proof
  assume "ps1 @ ps2 = []"
  with assms show "cb_used buf = 0"
    by (auto simp: cb_layout_def cb_assert_buffer_def split: if_splits)
next
  assume u: "cb_used buf = 0"
  have "\<not> cb_used buf \<ge> cb_wrap buf - cb_start buf"
    using assms u by (auto simp: cb_layout_def cb_assert_buffer_def)
  then have "span ps1 = 0" "ps2 = []" using assms u by (auto simp: cb_layout_def)
  moreover have "0 < span (q # qs)" if "ps1 = q # qs" for q qs
    using layout_smalls(1) [OF assms] that csize_bounds(1) [of q] span_nonneg [of qs] by auto
  ultimately show "ps1 @ ps2 = []" by (cases ps1) auto
qed

lemma assert_output_iff:
  assumes lay: "cb_layout buf ps1 ps2"
  shows "cb_assert_output buf \<longleftrightarrow>
    (case ps1 @ ps2 of [] \<Rightarrow> cb_output_dest buf = None \<and> cb_output_avail buf = -1
     | p # _ \<Rightarrow> cb_output_dest buf = Some (4 * (cb_start buf + 1)) \<and>
         cb_output_avail buf = int (length p))"
proof (cases "0 < cb_used buf")
  case True
  obtain p ps where "ps1 = p # ps" "block_len buf (cb_start buf) = Some (int (length p))"
    "csize p \<le> cb_used buf" "csize p \<le> cb_wrap buf - cb_start buf"
    using layout_first [OF lay True] by metis
  with True show ?thesis by (auto simp: cb_assert_output_def csize_def)
next
  case False
  moreover have "0 \<le> cb_used buf" using lay by (simp add: cb_layout_def cb_assert_buffer_def)
  ultimately have "ps1 @ ps2 = []" using layout_empty [OF lay] by simp
  with False show ?thesis by (simp add: cb_assert_output_def)
qed

lemma input_open:
  assumes lay: "cb_layout buf ps1 ps2" and io: "cb_assert_input buf"
    and dest: "cb_input_dest buf \<noteq> None" and len: "int (length p) \<le> cb_input_avail buf"
  shows "cb_input_dest buf = Some (4 * (cb_end buf + 1))" "small p" "csize p \<le> cb_free buf"
    "cb_mtu buf \<le> cb_size buf - cb_end buf - 1"
proof -
  from io dest show d: "cb_input_dest buf = Some (4 * (cb_end buf + 1))"
    and "cb_mtu buf \<le> cb_size buf - cb_end buf - 1"
    by (auto simp: cb_assert_input_def split: if_splits)
  from io dest have av: "cb_input_avail buf = (cb_free buf - 1) * 4"
    by (auto simp: cb_assert_input_def split: if_splits)
  moreover have "cb_free buf \<le> cb_size buf" "4 * cb_size buf \<le> 2147483647"
    using layout_free [OF lay] lay by (auto simp: cb_layout_def)
  ultimately show sm: "small p" using len by simp
  have "blocks (int (length p)) \<le> cb_free buf - 1"
    using sm len av by (subst blocks_le) auto
  then show "csize p \<le> cb_free buf" by (simp add: csize_def)
qed

lemma output_after_put:
  assumes lay: "cb_layout buf ps1 ps2" and lay2: "cb_layout b2 qs1 qs2"
    and eq: "qs1 @ qs2 = ps1 @ ps2 @ [p]" and out: "cb_assert_output buf"
    and same: "cb_output_dest b2 = cb_output_dest buf" "cb_output_avail b2 = cb_output_avail buf"
      "cb_start b2 = cb_start buf"
    and used: "cb_used b2 = cb_used buf + csize p"
  shows "\<exists>b3. (if cb_used (cb_update_input b2) = csize p then cb_update_output (cb_update_input b2)
          else Some (cb_update_input b2)) = Some b3 \<and>
      cb_assert_io b3 \<and> cb_layout b3 qs1 qs2 \<and> cb_size b3 = cb_size b2 \<and> cb_mtu b3 = cb_mtu b2"
proof (cases "cb_used b2 = csize p")
  case True
  have lay3: "cb_layout (cb_update_input b2) qs1 qs2" using lay2 by simp
  obtain od oa where o: "cb_update_output (cb_update_input b2) =
      Some (cb_update_input b2\<lparr>cb_output_dest := od, cb_output_avail := oa\<rparr>)"
    "cb_assert_output (cb_update_input b2\<lparr>cb_output_dest := od, cb_output_avail := oa\<rparr>)"
    using update_output_ok [OF lay3] .
  have "cb_assert_input (cb_update_input b2)" using update_input_ok [OF lay2] .
  with True o lay3 show ?thesis by (simp add: cb_assert_io_def)
next
  case False
  then have "cb_used buf \<noteq> 0" using used by simp
  then have "ps1 @ ps2 \<noteq> []" using layout_empty [OF lay] by blast
  then have "cb_assert_output b2"
    using out eq same
    by (subst assert_output_iff [OF lay2], subst (asm) assert_output_iff [OF lay])
      (cases "ps1 @ ps2", auto simp flip: append_assoc)
  with False lay2 update_input_ok [OF lay2] show ?thesis by (simp add: cb_assert_io_def)
qed

lemma cb_put_ok:
  assumes inv: "cb_invar buf" and dest: "cb_input_dest buf \<noteq> None"
    and len: "int (length p) \<le> cb_input_avail buf"
  shows "\<exists>buf'. cb_put p buf = Some buf' \<and> cb_invar buf' \<and> cb_contents buf' = cb_contents buf @ [p] \<and>
      cb_size buf' = cb_size buf \<and> cb_mtu buf' = cb_mtu buf"
proof -
  obtain ps1 ps2 where lay: "cb_layout buf ps1 ps2" and inp: "cb_assert_input buf"
    and out: "cb_assert_output buf" using inv by (auto simp: cb_invar_def cb_assert_io_def)
  note i = input_open [OF lay inp dest len]
  obtain m1 m2 where m: "mem_write (cb_buffer buf) (nat (4 * (cb_end buf + 1))) p = Some m1"
    "mem_write m1 (nat (4 * cb_end buf)) (mem32 (word_of_int (int (length p)))) = Some m2"
    "length m1 = length (cb_buffer buf)" "length m2 = length (cb_buffer buf)"
    "laid m2 (cb_end buf) [p]"
    and same: "\<And>i. i < length m2 \<Longrightarrow> int i < 4 * cb_end buf \<or> 4 * (cb_end buf + csize p) \<le> int i \<Longrightarrow>
       m1 ! i = cb_buffer buf ! i \<and> m2 ! i = cb_buffer buf ! i"
    using put_memory [OF lay i(2,3)] by blast
  let ?b1 = "buf\<lparr>cb_buffer := m1\<rparr>"
  have lay1: "cb_layout ?b1 ps1 ps2"
    using layout_frame [OF lay i(3,2) m(3)] same m by simp
  have out1: "cb_assert_output ?b1"
    using out unfolding assert_output_iff [OF lay] assert_output_iff [OF lay1]
    by (cases "ps1 @ ps2"; simp)
  define b2 where "b2 = buf\<lparr>cb_buffer := m2, cb_used := cb_used buf + csize p\<rparr>"
  define b3 where "b3 = (if cb_used b2 \<le> cb_wrap b2 - cb_start b2 \<and>
        cb_mtu b2 > cb_size b2 - (cb_end buf + csize p) - 1
        then b2\<lparr>cb_wrap := cb_end buf + csize p\<rparr> else b2)"
  obtain qs1 qs2 where lay3: "cb_layout b3 qs1 qs2" "qs1 @ qs2 = ps1 @ ps2 @ [p]"
    using put_layout [OF lay i(2,3,4) m(5,4) _ b2_def b3_def] same by blast
  have f: "cb_output_dest b3 = cb_output_dest buf" "cb_output_avail b3 = cb_output_avail buf"
    "cb_start b3 = cb_start buf" "cb_used b3 = cb_used buf + csize p"
    and g: "cb_size b3 = cb_size buf" "cb_mtu b3 = cb_mtu buf"
    by (simp_all add: b3_def b2_def)
  obtain b4 where b4: "(if cb_used (cb_update_input b3) = csize p
      then cb_update_output (cb_update_input b3) else Some (cb_update_input b3)) = Some b4"
      "cb_assert_io b4" "cb_layout b4 qs1 qs2" "cb_size b4 = cb_size b3" "cb_mtu b4 = cb_mtu b3"
    using output_after_put [OF lay lay3 out f] by blast
  have "cb_used buf < cb_wrap buf - cb_start buf \<or> csize p \<le> cb_start buf - cb_end buf"
    "csize p \<le> cb_size buf - cb_end buf"
    using i(3) layout_free [OF lay] by (auto simp: cb_free_def split: if_splits)
  then have A: "blocks (int (length p)) \<le> cb_size ?b1 - cb_end ?b1 - 1"
    "cb_used ?b1 < cb_wrap ?b1 - cb_start ?b1 \<or>
     blocks (int (length p)) \<le> cb_start ?b1 - cb_end ?b1 - 1"
    "cb_input_dest ?b1 \<noteq> None" "0 \<le> int (length p)" "int (length p) \<le> cb_input_avail ?b1"
    "cb_assert_buffer ?b1" "cb_assert_io ?b1" "cb_assert_buffer b3"
    using dest len lay1 lay3(1) inp out1 by (auto simp: csize_def cb_assert_io_def cb_layout_def)
  have s: "set_block_len ?b1 (cb_end ?b1) (int (length p)) = Some (buf\<lparr>cb_buffer := m2\<rparr>)"
    using m(2) layout_free(1) [OF lay] by (simp add: set_block_len_def)
  have b3: "(let buf = buf\<lparr>cb_buffer := m2\<rparr>\<lparr>cb_used := cb_used (buf\<lparr>cb_buffer := m2\<rparr>) +
           (1 + blocks (int (length p)))\<rparr> in
      if cb_used buf \<le> cb_wrap buf - cb_start buf \<and>
         cb_size buf - (cb_end ?b1 + 1 + blocks (int (length p))) - 1 < cb_mtu buf
      then buf\<lparr>cb_wrap := cb_end ?b1 + 1 + blocks (int (length p))\<rparr> else buf) = b3"
    by (simp add: Let_def b3_def b2_def csize_def algebra_simps)
  have "ChunkBuffer2_SubmitPacket ?b1 (int (length p)) = Some b4"
    by (simp only: ChunkBuffer2_SubmitPacket_def Let_def ASSERT_bind A s bind.bind_lunit not_False_eq_True
        b3 [unfolded Let_def] b4(1) [unfolded csize_def] b4(2))
  then have "cb_put p buf = Some b4" using i(1) len m(1) by (simp add: cb_put_def)
  with b4 layout_contents [OF lay] layout_contents [OF b4(3)] lay3(2) g show ?thesis
    by (auto simp: cb_invar_def)
qed


section \<open>Consuming a packet\<close>

definition cb_drop :: "ChunkBuffer2 \<Rightarrow> int \<Rightarrow> ChunkBuffer2" where
  "cb_drop buf c =
     (let buf = buf\<lparr>cb_start := cb_start buf + c, cb_used := cb_used buf - c\<rparr> in
      if cb_start buf = cb_wrap buf then buf\<lparr>cb_start := 0, cb_wrap := cb_size buf\<rparr> else buf)"

lemma get_layout:
  assumes lay: "cb_layout buf (p # ps) ps2"
  shows "\<exists>qs1 qs2. cb_layout (cb_drop buf (csize p)) qs1 qs2 \<and> qs1 @ qs2 = ps @ ps2"
proof (cases "cb_used buf \<ge> cb_wrap buf - cb_start buf \<and> ps = []")
  case True
  with lay have "cb_layout (cb_drop buf (csize p)) ps2 []"
    by (auto simp: cb_layout_def cb_assert_buffer_def cb_drop_def Let_def)
  with True show ?thesis by (intro exI [of _ ps2] exI [of _ "[]"]) simp
next
  case False
  have c: "1 \<le> csize p" "0 \<le> span ps" "ps \<noteq> [] \<Longrightarrow> 0 < span ps"
    using layout_smalls(1) [OF lay] csize_bounds(1) [of p] csize_bounds(1) [of "hd ps"]
      span_nonneg [of ps] span_nonneg [of "tl ps"] by (cases ps; simp)+
  have "cb_layout (cb_drop buf (csize p)) ps ps2"
  proof (cases "cb_used buf \<ge> cb_wrap buf - cb_start buf")
    case True
    with lay c False show ?thesis
      by (simp add: cb_layout_def cb_assert_buffer_def cb_drop_def Let_def)
  next
    case nowrap: False
    with lay c show ?thesis
      by (auto simp: cb_layout_def cb_assert_buffer_def cb_drop_def Let_def)
  qed
  then show ?thesis by blast
qed

lemma get_input:
  assumes lay: "cb_layout buf (p # ps) ps2" and io: "cb_assert_input buf"
    and nowrap: "\<not> cb_used buf \<ge> cb_wrap buf - cb_start buf"
  shows "cb_assert_input (cb_drop buf (csize p))"
proof -
  have "csize p + span ps = cb_used buf" "0 \<le> span ps"
    using lay nowrap layout_smalls(1) [OF lay] span_nonneg [of ps] by (auto simp: cb_layout_def)
  with nowrap have "cb_drop buf (csize p) =
      buf\<lparr>cb_start := cb_start buf + csize p, cb_used := cb_used buf - csize p\<rparr>"
    by (auto simp: cb_drop_def Let_def)
  with nowrap io show ?thesis by (simp add: cb_assert_input_def cb_end_def cb_free_def)
qed

text \<open>Consuming leaves the end of the data where it is; a place offered for input stays offered.\<close>

lemma drop_end:
  assumes lay: "cb_layout buf (p # ps) ps2"
  shows "cb_end (cb_drop buf (csize p)) = cb_end buf" "cb_free buf \<le> cb_free (cb_drop buf (csize p))"
    "cb_size (cb_drop buf (csize p)) = cb_size buf" "cb_mtu (cb_drop buf (csize p)) = cb_mtu buf"
    "cb_input_dest (cb_drop buf (csize p)) = cb_input_dest buf"
    "cb_input_avail (cb_drop buf (csize p)) = cb_input_avail buf"
proof -
  have c: "1 \<le> csize p" "0 \<le> span ps" "ps \<noteq> [] \<Longrightarrow> 0 < span ps"
    using layout_smalls(1) [OF lay] csize_bounds(1) [of p] csize_bounds(1) [of "hd ps"]
      span_nonneg [of ps] span_nonneg [of "tl ps"] by (cases ps; simp)+
  show "cb_end (cb_drop buf (csize p)) = cb_end buf" "cb_free buf \<le> cb_free (cb_drop buf (csize p))"
    using lay c
    by (auto simp: cb_layout_def cb_assert_buffer_def cb_drop_def Let_def cb_end_def cb_free_def split: if_splits)
  show "cb_size (cb_drop buf (csize p)) = cb_size buf" "cb_mtu (cb_drop buf (csize p)) = cb_mtu buf"
    "cb_input_dest (cb_drop buf (csize p)) = cb_input_dest buf"
    "cb_input_avail (cb_drop buf (csize p)) = cb_input_avail buf"
    by (simp_all add: cb_drop_def Let_def)
qed

lemma drop_keeps_input:
  assumes lay: "cb_layout buf (p # ps) ps2" and io: "cb_assert_input buf" and d: "cb_input_dest buf = Some d"
    and b: "b \<in> {cb_drop buf (csize p), cb_update_input (cb_drop buf (csize p))}" and io': "cb_assert_input b"
  shows "cb_input_dest b = Some d" "cb_input_avail buf \<le> cb_input_avail b"
proof -
  note e = drop_end [OF lay]
  have f: "cb_end b = cb_end buf" "cb_free buf \<le> cb_free b" "cb_size b = cb_size buf" "cb_mtu b = cb_mtu buf"
    using b e by auto
  show "cb_input_dest b = Some d" "cb_input_avail buf \<le> cb_input_avail b"
    using io io' d f by (auto simp: cb_assert_input_def split: if_splits)
qed

lemma output_update_input:
  "cb_input_dest (b\<lparr>cb_output_dest := od, cb_output_avail := oa\<rparr>) = cb_input_dest b"
  "cb_input_avail (b\<lparr>cb_output_dest := od, cb_output_avail := oa\<rparr>) = cb_input_avail b"
  by simp_all

lemma cb_get_ok:
  assumes inv: "cb_invar buf" and ne: "cb_contents buf \<noteq> []"
  shows "\<exists>buf'. cb_get buf = Some (hd (cb_contents buf), buf') \<and> cb_invar buf' \<and>
           cb_contents buf' = tl (cb_contents buf) \<and>
           cb_size buf' = cb_size buf \<and> cb_mtu buf' = cb_mtu buf \<and>
           (\<forall>d. cb_input_dest buf = Some d \<longrightarrow>
              cb_input_dest buf' = Some d \<and> cb_input_avail buf \<le> cb_input_avail buf')"
proof -
  obtain ps1 ps2 where lay: "cb_layout buf ps1 ps2" and inp: "cb_assert_input buf"
    and out: "cb_assert_output buf" using inv by (auto simp: cb_invar_def cb_assert_io_def)
  have "cb_used buf \<noteq> 0" using ne layout_contents [OF lay] layout_empty [OF lay] by metis
  moreover have ab: "cb_assert_buffer buf" using lay by (simp add: cb_layout_def)
  ultimately have used: "0 < cb_used buf" by (simp add: cb_assert_buffer_def)
  obtain p ps where p: "ps1 = p # ps" "block_len buf (cb_start buf) = Some (int (length p))"
    "csize p \<le> cb_used buf" "csize p \<le> cb_wrap buf - cb_start buf"
    "mem_read (cb_buffer buf) (nat (4 * (cb_start buf + 1))) (length p) = Some p" "small p"
    using layout_first [OF lay used] by metis
  let ?b = "cb_drop buf (csize p)"
  let ?b' = "if cb_used buf \<ge> cb_wrap buf - cb_start buf then cb_update_input ?b else ?b"
  obtain qs1 qs2 where lay2: "cb_layout ?b qs1 qs2" and eq: "qs1 @ qs2 = ps @ ps2"
    using get_layout lay p(1) by blast
  have lay3: "cb_layout ?b' qs1 qs2" using lay2 by simp
  have inp3: "cb_assert_input ?b'"
    using update_input_ok [OF lay2] get_input inp lay p(1) by auto
  obtain od oa where o: "cb_update_output ?b' = Some (?b'\<lparr>cb_output_dest := od, cb_output_avail := oa\<rparr>)"
    "cb_assert_output (?b'\<lparr>cb_output_dest := od, cb_output_avail := oa\<rparr>)"
    using update_output_ok [OF lay3] .
  let ?b4 = "?b'\<lparr>cb_output_dest := od, cb_output_avail := oa\<rparr>"
  have o2: "cb_output_dest buf = Some (4 * (cb_start buf + 1))" "cb_output_avail buf = int (length p)"
    using out assert_output_iff [OF lay] p(1) by simp_all
  have A: "cb_output_dest buf \<noteq> None" "cb_assert_io buf" "1 \<le> cb_wrap buf - cb_start buf"
    "1 \<le> cb_used buf" "blocks (int (length p)) \<le> cb_wrap buf - cb_start buf - 1"
    "blocks (int (length p)) \<le> cb_used buf - 1" "cb_assert_buffer ?b" "cb_assert_io ?b4"
    using o2 inp out ab used p lay2 inp3 o
    by (auto simp: cb_assert_io_def csize_def cb_layout_def cb_assert_buffer_def [of buf])
  have "ChunkBuffer2_ConsumePacket buf = Some ?b4"
    by (simp only: ChunkBuffer2_ConsumePacket_def Let_def ASSERT_bind A ab p(2) bind.bind_lunit
        not_False_eq_True cb_drop_def csize_def o(1) [unfolded cb_drop_def Let_def csize_def]
        A(7,8) [unfolded cb_drop_def Let_def csize_def])
  then have "cb_get buf = Some (p, ?b4)" using o2 p(5) by (simp add: cb_get_def)
  moreover have lay4: "cb_layout ?b4 qs1 qs2" using lay3 by simp
  moreover have "cb_invar ?b4" using lay4 A(8) by (rule layout_invar)
  moreover have "cb_size ?b4 = cb_size buf" "cb_mtu ?b4 = cb_mtu buf"
    by (simp_all add: cb_drop_def Let_def)
  moreover have "\<forall>d. cb_input_dest buf = Some d \<longrightarrow>
      cb_input_dest ?b4 = Some d \<and> cb_input_avail buf \<le> cb_input_avail ?b4"
  proof (intro allI impI)
    fix d assume "cb_input_dest buf = Some d"
    moreover have "?b' \<in> {?b, cb_update_input ?b}" by simp
    ultimately have "cb_input_dest ?b' = Some d" "cb_input_avail buf \<le> cb_input_avail ?b'"
      using drop_keeps_input [OF lay [unfolded p(1)] inp _ _ inp3] by blast+
    then show "cb_input_dest ?b4 = Some d \<and> cb_input_avail buf \<le> cb_input_avail ?b4"
      by (simp only: output_update_input simp_thms)
  qed
  ultimately obtain b4 where "cb_get buf = Some (p, b4)" "cb_layout b4 qs1 qs2" "cb_invar b4"
    "cb_size b4 = cb_size buf" "cb_mtu b4 = cb_mtu buf"
    "\<forall>d. cb_input_dest buf = Some d \<longrightarrow> cb_input_dest b4 = Some d \<and> cb_input_avail buf \<le> cb_input_avail b4"
    by blast
  then show ?thesis
    using layout_contents [OF lay] layout_contents [of b4] eq p(1) by (intro exI [of _ b4]) simp
qed

section \<open>The buffer is a FIFO\<close>

definition cb_can_put :: "bytes \<Rightarrow> ChunkBuffer2 \<Rightarrow> bool" where
  "cb_can_put p buf \<longleftrightarrow> cb_input_dest buf \<noteq> None \<and> int (length p) \<le> cb_input_avail buf"

lemma cb_put_only: "cb_put p buf = Some buf' \<Longrightarrow> cb_can_put p buf"
  by (auto simp: cb_put_def cb_can_put_def bind_eq_Some_conv)

lemma cb_get_only:
  assumes "cb_invar buf" "cb_get buf = Some r"
  shows "cb_contents buf \<noteq> []"
proof -
  obtain ps1 ps2 where lay: "cb_layout buf ps1 ps2" and out: "cb_assert_output buf"
    using assms(1) by (auto simp: cb_invar_def cb_assert_io_def)
  have "cb_output_dest buf \<noteq> None" using assms(2) by (auto simp: cb_get_def bind_eq_Some_conv)
  then have "ps1 @ ps2 \<noteq> []" using out by (auto simp: assert_output_iff [OF lay])
  then show ?thesis using layout_contents [OF lay] by simp
qed

interpretation chunk_buffer: fifo cb_put cb_get cb_contents cb_invar cb_can_put
proof
  show "\<exists>q'. cb_put p q = Some q' \<and> cb_invar q' \<and> cb_contents q' = cb_contents q @ [p]"
    if "cb_invar q" "cb_can_put p q" for p q
    using that cb_put_ok [of q p] by (auto simp: cb_can_put_def)
qed (blast intro: cb_put_only dest: cb_get_ok cb_get_only)+

lemma cb_init_ok:
  assumes "0 \<le> mtu" "mtu \<le> INT_MAX" "1 + blocks mtu \<le> nblocks" "4 * nblocks \<le> INT_MAX"
    "int (length buffer) = 4 * nblocks"
  obtains buf where "ChunkBuffer2_Init buffer nblocks mtu = Some buf" "cb_invar buf"
    "cb_contents buf = []" "cb_size buf = nblocks" "cb_mtu buf = blocks mtu"
proof -
  let ?b = "\<lparr>cb_buffer = buffer, cb_size = nblocks, cb_wrap = nblocks, cb_start = 0,
       cb_used = 0, cb_mtu = blocks mtu, cb_input_dest = None, cb_input_avail = 0,
       cb_output_dest = None, cb_output_avail = 0\<rparr>"
  note bl = blocks_bounds [OF assms(1,2)]
  have lay: "cb_layout ?b [] []" using assms bl by (simp add: cb_layout_def cb_assert_buffer_def)
  then have lay1: "cb_layout (cb_update_input ?b) [] []" by simp
  obtain od oa where o: "cb_update_output (cb_update_input ?b) =
      Some (cb_update_input ?b\<lparr>cb_output_dest := od, cb_output_avail := oa\<rparr>)"
    "cb_assert_output (cb_update_input ?b\<lparr>cb_output_dest := od, cb_output_avail := oa\<rparr>)"
    using update_output_ok [OF lay1] .
  let ?b1 = "cb_update_input ?b\<lparr>cb_output_dest := od, cb_output_avail := oa\<rparr>"
  have lay2: "cb_layout ?b1 [] []" using lay1 by simp
  have io: "cb_assert_io ?b1" using o(2) update_input_ok [OF lay] by (simp add: cb_assert_io_def)
  have "ChunkBuffer2_Init buffer nblocks mtu = Some ?b1"
    using assms bl o(1) io lay by (simp add: ChunkBuffer2_Init_def cb_layout_def)
  moreover have "cb_invar ?b1" using lay2 io by (rule layout_invar)
  ultimately show thesis using that layout_contents [OF lay2] by simp
qed


section \<open>Capacity: a bounded queue of packets\<close>

lemma cb_put_params:
  assumes "cb_invar buf" "cb_put p buf = Some buf'"
  shows "cb_size buf' = cb_size buf" "cb_mtu buf' = cb_mtu buf"
  using cb_put_ok [OF assms(1), of p] cb_put_only [OF assms(2)] assms(2)
  by (auto simp: cb_can_put_def)

lemma cb_get_params:
  assumes "cb_invar buf" "cb_get buf = Some (p, buf')"
  shows "cb_size buf' = cb_size buf" "cb_mtu buf' = cb_mtu buf"
  using cb_get_ok [OF assms(1) cb_get_only [OF assms]] assms(2) by auto

lemma cb_get_keeps_input:
  assumes "cb_invar buf" "cb_get buf = Some (p, buf')" "cb_input_dest buf = Some d"
  shows "cb_input_dest buf' = Some d" "cb_input_avail buf \<le> cb_input_avail buf'"
  using cb_get_ok [OF assms(1) cb_get_only [OF assms(1,2)]] assms(2,3) by auto

lemma span_le:
  assumes "\<forall>p \<in> set ps. csize p \<le> c"
  shows "span ps \<le> c * int (length ps)"
  using assms by (induction ps) (auto simp: algebra_simps)

lemma csize_le:
  assumes "0 \<le> mtu" "mtu \<le> INT_MAX" "int (length p) \<le> mtu"
  shows "csize p \<le> 1 + blocks mtu"
  using assms blocks_bounds(2) [of mtu] by (simp add: csize_def blocks_le)

lemma cb_room:
  assumes inv: "cb_invar buf" and mtu: "0 \<le> mtu" "mtu \<le> INT_MAX" "cb_mtu buf = blocks mtu"
    and size: "(1 + blocks mtu) * (int num + 1) \<le> cb_size buf"
    and le: "\<forall>p \<in> set (cb_contents buf). int (length p) \<le> mtu"
    and less: "length (cb_contents buf) < num" and p: "int (length p) \<le> mtu"
  shows "cb_can_put p buf"
proof -
  obtain ps1 ps2 where lay: "cb_layout buf ps1 ps2" and inp: "cb_assert_input buf"
    using inv by (auto simp: cb_invar_def cb_assert_io_def)
  let ?M = "blocks mtu"
  note M = blocks_bounds [OF mtu(1,2)]
  have "span (ps1 @ ps2) \<le> (1 + ?M) * int (length (ps1 @ ps2))"
    using le layout_contents [OF lay] csize_le [OF mtu(1,2)] by (intro span_le) simp
  also have "\<dots> \<le> (1 + ?M) * (int num - 1)"
    using less layout_contents [OF lay] M by (intro mult_left_mono) auto
  finally have sp: "span ps1 + span ps2 \<le> (1 + ?M) * (int num - 1)" by simp
  have "(1 + ?M) * (int num + 1) = (1 + ?M) * (int num - 1) + 2 * (1 + ?M)"
    by (simp add: algebra_simps)
  then have "?M + 1 \<le> cb_free buf" "cb_mtu buf \<le> cb_size buf - cb_end buf - 1"
    using lay sp size M mtu(3) unfolding cb_layout_def cb_assert_buffer_def cb_free_def cb_end_def
    by (auto split: if_splits)
  then show ?thesis using inp p M by (auto simp: cb_can_put_def cb_assert_input_def)
qed

text \<open>The specification: a queue that takes packets of at most \<open>mtu\<close> bytes while it holds fewer
  than \<open>num\<close>.\<close>

definition bq_put :: "int \<Rightarrow> nat \<Rightarrow> bytes \<Rightarrow> bytes list \<Rightarrow> bytes list option" where
  "bq_put mtu num p q = (if int (length p) \<le> mtu \<and> length q < num then Some (q @ [p]) else None)"

lemma bq_put_Some: "bq_put mtu num p q = Some q' \<longleftrightarrow>
    int (length p) \<le> mtu \<and> length q < num \<and> q' = q @ [p]"
  by (auto simp: bq_put_def)

fun bq_get :: "bytes list \<Rightarrow> (bytes \<times> bytes list) option" where
  "bq_get [] = None"
| "bq_get (p # q) = Some (p, q)"

lemma cb_refines_step:
  assumes inv: "cb_invar buf" and mtu: "0 \<le> mtu" "mtu \<le> INT_MAX" "cb_mtu buf = blocks mtu"
    and size: "(1 + blocks mtu) * (int num + 1) \<le> cb_size buf"
    and le: "\<forall>p \<in> set (cb_contents buf). int (length p) \<le> mtu"
    and run: "fifo_exec (bq_put mtu num) bq_get (cb_contents buf) ops = Some (out, q)"
  shows "\<exists>buf'. fifo_exec cb_put cb_get buf ops = Some (out, buf') \<and> cb_invar buf' \<and>
           cb_contents buf' = q"
  using assms
proof (induction ops arbitrary: buf out)
  case Nil
  then show ?case by simp
next
  case (Cons op ops)
  show ?case
  proof (cases op)
    case (Put p)
    with Cons.prems(7) have ok: "int (length p) \<le> mtu" "length (cb_contents buf) < num"
      and run: "fifo_exec (bq_put mtu num) bq_get (cb_contents buf @ [p]) ops = Some (out, q)"
      by (auto simp: bq_put_Some split: option.splits)
    obtain b where b: "cb_put p buf = Some b" "cb_invar b" "cb_contents b = cb_contents buf @ [p]"
      using chunk_buffer.put_ok [OF Cons.prems(1) cb_room [OF Cons.prems(1-6) ok(2,1)]] by blast
    have "cb_size b = cb_size buf" "cb_mtu b = cb_mtu buf" using cb_put_params [OF Cons.prems(1) b(1)] .
    then show ?thesis using Cons.IH [of b out] Cons.prems(2-6) b run ok(1) Put by simp
  next
    case Get
    with Cons.prems(7) obtain p ps out1 where ps: "cb_contents buf = p # ps" "out = p # out1"
      and run: "fifo_exec (bq_put mtu num) bq_get ps ops = Some (out1, q)"
      by (cases "cb_contents buf") auto
    obtain b where b: "cb_get buf = Some (p, b)" "cb_invar b" "cb_contents b = ps"
      using chunk_buffer.get_ok [OF Cons.prems(1)] ps(1) by auto
    have "cb_size b = cb_size buf" "cb_mtu b = cb_mtu buf" using cb_get_params [OF Cons.prems(1) b(1)] .
    then show ?thesis using Cons.IH [of b out1] Cons.prems(2-6) b run ps Get by auto
  qed
qed

lemma calc_blocks_eq:
  assumes "0 \<le> mtu" "mtu \<le> INT_MAX" "0 \<le> num" "num \<le> INT_MAX"
  shows "ChunkBuffer2_calc_blocks mtu num =
    (if (1 + blocks mtu) * (num + 1) \<le> INT_MAX \<and> num < INT_MAX then (1 + blocks mtu) * (num + 1) else -1)"
proof -
  have "1 + blocks mtu \<le> INT_MAX div (num + 1) \<longleftrightarrow> (1 + blocks mtu) * (num + 1) \<le> INT_MAX"
    using div_less_iff_mult [of "num + 1" INT_MAX "1 + blocks mtu"] assms by linarith
  moreover have "4 * blocks mtu \<le> INT_MAX + 3" using blocks_bounds(3) [of mtu] assms by linarith
  ultimately show ?thesis
    using assms by (auto simp: ChunkBuffer2_calc_blocks_def Let_def)
qed

text \<open>
  \<^verbatim>\<open>ChunkBuffer2_calc_blocks\<close> only makes sure that the number of blocks fits an \<^verbatim>\<open>int\<close>. When the bytes behind the first header do not,
  \<^verbatim>\<open>input_avail\<close> has overflowed by the time \<^verbatim>\<open>ChunkBuffer2_Init\<close> compares it, as a \<^verbatim>\<open>size_t\<close> of 64 bits, with what it should be: the assertion fails.
\<close>

lemma c_int_overflow: "INT_MAX < x \<Longrightarrow> c_int x \<noteq> x"
  using sint_lt [of "word_of_int x :: u32"] by (simp add: c_int_def)

theorem chunk_buffer_too_large:
  assumes "0 \<le> mtu" "mtu \<le> INT_MAX" "int num \<le> INT_MAX"
    and "ChunkBuffer2_calc_blocks mtu (int num) = n" "INT_MAX < 4 * (n - 1)"
  shows "ChunkBuffer2_Init buffer n mtu = None"
proof -
  have M: "0 \<le> blocks mtu" using blocks_bounds(1) [OF assms(1,2)] .
  have n: "n = (1 + blocks mtu) * (int num + 1)"
    using calc_blocks_eq [OF assms(1,2), of "int num"] assms(3-5) by (auto split: if_splits)
  have "1 * (1 + blocks mtu) \<le> (int num + 1) * (1 + blocks mtu)" using M
    by (intro mult_right_mono) auto
  then have "blocks mtu \<le> n - 1" by (simp add: n mult.commute)
  then show ?thesis
    using assms(1,5) c_int_overflow [of "(n - 1) * 4"]
    by (auto simp: ChunkBuffer2_Init_def Let_def cb_update_input_def cb_update_output_def cb_end_def cb_free_def
        cb_assert_io_def cb_assert_input_def)
qed

theorem chunk_buffer_too_large_witness:
  "ChunkBuffer2_calc_blocks 4 (int 536870912) = 1073741826 \<and> ChunkBuffer2_Init buffer 1073741826 4 = None"
proof
  show n: "ChunkBuffer2_calc_blocks 4 (int 536870912) = 1073741826"
    by (simp add: ChunkBuffer2_calc_blocks_def blocks_eq)
  show "ChunkBuffer2_Init buffer 1073741826 4 = None" by (rule chunk_buffer_too_large [OF _ _ _ n]) simp_all
qed

text \<open>
  C8. A buffer of the size that \<^verbatim>\<open>ChunkBuffer2_calc_blocks(mtu, num)\<close> computes refines a bounded
  queue: every sequence of puts and gets that a queue of \<open>num\<close> packets of at most \<open>mtu\<close> bytes
  accepts is executed by the circular buffer without any assertion failing and without touching
  memory outside the array, and delivers the same packets, byte for byte and in the same order. This holds as long as the size of the
  array in bytes fits an \<^verbatim>\<open>int\<close>, which the code does not check; \<open>chunk_buffer_too_large\<close> says what happens otherwise.
\<close>

theorem chunk_buffer_refines_bounded_queue:
  assumes "0 \<le> mtu" "mtu \<le> INT_MAX" "int num \<le> INT_MAX"
    and "ChunkBuffer2_calc_blocks mtu (int num) = n" "n \<noteq> -1" "4 * n \<le> INT_MAX"
    and "int (length buffer) = 4 * n"
    and "fifo_exec (bq_put mtu num) bq_get [] ops = Some (out, q)"
  shows "\<exists>b0 b. ChunkBuffer2_Init buffer n mtu = Some b0 \<and>
    fifo_exec cb_put cb_get b0 ops = Some (out, b) \<and> cb_contents b = q"
proof -
  have M: "0 \<le> blocks mtu" using blocks_bounds(1) [OF assms(1,2)] .
  have n: "n = (1 + blocks mtu) * (int num + 1)"
    using calc_blocks_eq [OF assms(1,2), of "int num"] assms(3-5) by (auto split: if_splits)
  have "1 * (1 + blocks mtu) \<le> (int num + 1) * (1 + blocks mtu)" using M
    by (intro mult_right_mono) auto
  then have "1 + blocks mtu \<le> n" by (simp add: n mult.commute)
  then obtain b0 where b0: "ChunkBuffer2_Init buffer n mtu = Some b0" "cb_invar b0"
    "cb_contents b0 = []" "cb_size b0 = n" "cb_mtu b0 = blocks mtu"
    using cb_init_ok [OF assms(1,2) _ assms(6,7)] by blast
  then show ?thesis
    using cb_refines_step [OF b0(2) assms(1,2) b0(5), of num ops out q] assms(8) n by auto
qed

theorem chunk_buffer_refines_bounded_queue_witness:
  "\<exists>b0 b. ChunkBuffer2_Init (replicate 24 0) 6 4 = Some b0 \<and>
    fifo_exec cb_put cb_get b0 [Put [1, 2], Put [3], Get, Put [4, 5, 6, 7]] = Some ([[1, 2]], b) \<and>
    cb_contents b = [[3], [4, 5, 6, 7]]"
  by (rule chunk_buffer_refines_bounded_queue [where num = 2])
    (simp_all add: ChunkBuffer2_calc_blocks_def blocks_eq bq_put_def)

end
