(* ===== verification/BPending.thy ===== *)
theory BPending
  imports Prelude
begin

text \<open>
  base/BPending.c: the job queue of the event loop. A group keeps the list of pending jobs, the
  newest first; a job object is in the list at most once. Job objects are addressed by numbers;
  \<open>pg_objs\<close> holds the fields of the live ones. The list is the intrusive list of
  structure/SLinkedList_impl.h, given here by the sequence of its entries; \<open>bp_removed\<close> is the
  mark \<^verbatim>\<open>BPending__ListIsRemoved\<close> tests and \<open>bp_pending\<close> the debug flag \<^verbatim>\<open>pending\<close>.
  A call \<^verbatim>\<open>p->handler(p->user)\<close> is the pair of handler and argument that is returned.
\<close>

section \<open>State and operations\<close>

record ('h, 'u) BSmallPending =
  bp_handler :: 'h
  bp_user :: 'u
  bp_removed :: bool
  bp_pending :: bool

record ('h, 'u) BPendingGroup =
  pg_jobs :: "nat list"
  pg_ctr :: nat
  pg_objs :: "nat \<rightharpoonup> ('h, 'u) BSmallPending"

definition BPendingGroup_Init :: "('h, 'u) BPendingGroup" where
  "BPendingGroup_Init = \<lparr>pg_jobs = [], pg_ctr = 0, pg_objs = (\<lambda>_. None)\<rparr>"

definition BPendingGroup_Free :: "('h, 'u) BPendingGroup \<Rightarrow> unit option" where
  "BPendingGroup_Free g = do { ASSERT (pg_ctr g = 0); ASSERT (pg_jobs g = []) }"

definition BPendingGroup_HasJobs :: "('h, 'u) BPendingGroup \<Rightarrow> bool" where
  "BPendingGroup_HasJobs g = (pg_jobs g \<noteq> [])"

definition BPendingGroup_ExecuteJob ::
  "('h, 'u) BPendingGroup \<Rightarrow> (('h \<times> 'u) \<times> ('h, 'u) BPendingGroup) option" where
  "BPendingGroup_ExecuteJob g = do {
     ASSERT (pg_jobs g \<noteq> []);
     let p = hd (pg_jobs g);
     b \<leftarrow> pg_objs g p;
     ASSERT (\<not> bp_removed b);
     ASSERT (bp_pending b);
     let g = g\<lparr>pg_jobs := tl (pg_jobs g)\<rparr>;
     let b = b\<lparr>bp_removed := True, bp_pending := False\<rparr>;
     Some ((bp_handler b, bp_user b), g\<lparr>pg_objs := (pg_objs g)(p \<mapsto> b)\<rparr>)
   }"

definition BPendingGroup_PeekJob :: "('h, 'u) BPendingGroup \<Rightarrow> nat option" where
  "BPendingGroup_PeekJob g = (case pg_jobs g of [] \<Rightarrow> None | p # _ \<Rightarrow> Some p)"

definition BSmallPending_Init ::
  "nat \<Rightarrow> 'h \<Rightarrow> 'u \<Rightarrow> ('h, 'u) BPendingGroup \<Rightarrow> ('h, 'u) BPendingGroup" where
  "BSmallPending_Init i handler user g =
     g\<lparr>pg_objs := (pg_objs g)(i \<mapsto> \<lparr>bp_handler = handler, bp_user = user, bp_removed = True,
         bp_pending = False\<rparr>),
       pg_ctr := pg_ctr g + 1\<rparr>"

definition BSmallPending_Free ::
  "nat \<Rightarrow> ('h, 'u) BPendingGroup \<Rightarrow> ('h, 'u) BPendingGroup option" where
  "BSmallPending_Free i g = do {
     ASSERT (pg_ctr g > 0);
     let g = g\<lparr>pg_ctr := pg_ctr g - 1\<rparr>;
     b \<leftarrow> pg_objs g i;
     ASSERT (bp_pending b = (\<not> bp_removed b));
     let g = (if \<not> bp_removed b then g\<lparr>pg_jobs := remove1 i (pg_jobs g)\<rparr> else g);
     Some (g\<lparr>pg_objs := (pg_objs g)(i := None)\<rparr>)
   }"

definition BSmallPending_SetHandler ::
  "nat \<Rightarrow> 'h \<Rightarrow> 'u \<Rightarrow> ('h, 'u) BPendingGroup \<Rightarrow> ('h, 'u) BPendingGroup option" where
  "BSmallPending_SetHandler i handler user g = do {
     b \<leftarrow> pg_objs g i;
     Some (g\<lparr>pg_objs := (pg_objs g)(i \<mapsto> b\<lparr>bp_handler := handler, bp_user := user\<rparr>)\<rparr>)
   }"

definition BSmallPending_Set ::
  "nat \<Rightarrow> ('h, 'u) BPendingGroup \<Rightarrow> ('h, 'u) BPendingGroup option" where
  "BSmallPending_Set i g = do {
     b \<leftarrow> pg_objs g i;
     ASSERT (bp_pending b = (\<not> bp_removed b));
     let g = (if \<not> bp_removed b then g\<lparr>pg_jobs := remove1 i (pg_jobs g)\<rparr> else g);
     let g = g\<lparr>pg_jobs := i # pg_jobs g\<rparr>;
     Some (g\<lparr>pg_objs := (pg_objs g)(i \<mapsto> b\<lparr>bp_removed := False, bp_pending := True\<rparr>)\<rparr>)
   }"

definition BSmallPending_Unset ::
  "nat \<Rightarrow> ('h, 'u) BPendingGroup \<Rightarrow> ('h, 'u) BPendingGroup option" where
  "BSmallPending_Unset i g = do {
     b \<leftarrow> pg_objs g i;
     ASSERT (bp_pending b = (\<not> bp_removed b));
     if \<not> bp_removed b
     then Some (g\<lparr>pg_jobs := remove1 i (pg_jobs g),
                  pg_objs := (pg_objs g)(i \<mapsto> b\<lparr>bp_removed := True, bp_pending := False\<rparr>)\<rparr>)
     else Some g
   }"

definition BSmallPending_IsSet :: "nat \<Rightarrow> ('h, 'u) BPendingGroup \<Rightarrow> bool option" where
  "BSmallPending_IsSet i g = do {
     b \<leftarrow> pg_objs g i;
     ASSERT (bp_pending b = (\<not> bp_removed b));
     Some (\<not> bp_removed b)
   }"

text \<open>The \<^verbatim>\<open>BPending\<close> object: a \<^verbatim>\<open>BSmallPending\<close> that remembers its group.\<close>

definition BPending_Init where "BPending_Init = BSmallPending_Init"
definition BPending_Free where "BPending_Free = BSmallPending_Free"
definition BPending_Set where "BPending_Set = BSmallPending_Set"
definition BPending_Unset where "BPending_Unset = BSmallPending_Unset"
definition BPending_IsSet where "BPending_IsSet = BSmallPending_IsSet"

section \<open>The group as a machine\<close>

datatype ('h, 'u) pending_event =
    EvInit nat 'h 'u | EvFree nat | EvSetHandler nat 'h 'u | EvSet nat | EvUnset nat | EvExecute

fun pending_step ::
  "('h, 'u) BPendingGroup \<Rightarrow> ('h, 'u) pending_event \<Rightarrow> ('h, 'u) BPendingGroup option" where
  "pending_step g (EvInit i h u) = Some (BPending_Init i h u g)"
| "pending_step g (EvFree i) = BPending_Free i g"
| "pending_step g (EvSetHandler i h u) = BSmallPending_SetHandler i h u g"
| "pending_step g (EvSet i) = BPending_Set i g"
| "pending_step g (EvUnset i) = BPending_Unset i g"
| "pending_step g EvExecute = map_option snd (BPendingGroup_ExecuteJob g)"

text \<open>
  What a caller has to respect: an object is initialised once, used while it is live, and a job
  is only executed when the group has one (the loop of \<^verbatim>\<open>BReactor_Exec\<close> tests it).
\<close>

fun pending_enabled :: "('h, 'u) BPendingGroup \<Rightarrow> ('h, 'u) pending_event \<Rightarrow> bool" where
  "pending_enabled g (EvInit i h u) \<longleftrightarrow> pg_objs g i = None"
| "pending_enabled g (EvFree i) \<longleftrightarrow> pg_objs g i \<noteq> None"
| "pending_enabled g (EvSetHandler i h u) \<longleftrightarrow> pg_objs g i \<noteq> None"
| "pending_enabled g (EvSet i) \<longleftrightarrow> pg_objs g i \<noteq> None"
| "pending_enabled g (EvUnset i) \<longleftrightarrow> pg_objs g i \<noteq> None"
| "pending_enabled g EvExecute \<longleftrightarrow> BPendingGroup_HasJobs g"

definition pending_inv :: "('h, 'u) BPendingGroup \<Rightarrow> bool" where
  "pending_inv g \<longleftrightarrow>
     distinct (pg_jobs g) \<and> finite (dom (pg_objs g)) \<and> pg_ctr g = card (dom (pg_objs g)) \<and>
     set (pg_jobs g) \<subseteq> dom (pg_objs g) \<and>
     (\<forall>i b. pg_objs g i = Some b \<longrightarrow>
        bp_pending b = (i \<in> set (pg_jobs g)) \<and> bp_removed b = (i \<notin> set (pg_jobs g)))"

lemma pending_invI:
  assumes "distinct (pg_jobs g)" "finite (dom (pg_objs g))" "pg_ctr g = card (dom (pg_objs g))"
    "set (pg_jobs g) \<subseteq> dom (pg_objs g)"
    "\<And>i b. pg_objs g i = Some b \<Longrightarrow>
        bp_pending b = (i \<in> set (pg_jobs g)) \<and> bp_removed b = (i \<notin> set (pg_jobs g))"
  shows "pending_inv g"
  using assms unfolding pending_inv_def by blast

lemma pending_inv_obj:
  assumes "pending_inv g" "pg_objs g i \<noteq> None"
  obtains b where "pg_objs g i = Some b" "bp_pending b = (i \<in> set (pg_jobs g))"
    "bp_removed b = (i \<notin> set (pg_jobs g))"
  using assms by (auto simp: pending_inv_def)

lemma pending_init_inv: "pending_inv BPendingGroup_Init"
  by (simp add: pending_inv_def BPendingGroup_Init_def)

lemmas pending_defs = BPending_Init_def BPending_Free_def BPending_Set_def BPending_Unset_def
  BPending_IsSet_def

lemma BPending_Set_eq:
  assumes "pending_inv g" "pg_objs g i = Some b"
  shows "BPending_Set i g = Some (g\<lparr>pg_jobs := i # remove1 i (pg_jobs g),
     pg_objs := (pg_objs g)(i \<mapsto> b\<lparr>bp_removed := False, bp_pending := True\<rparr>)\<rparr>)"
  using assms by (auto simp: pending_inv_def pending_defs BSmallPending_Set_def remove1_idem Let_def)

lemma BPending_Unset_eq:
  assumes "pending_inv g" "pg_objs g i = Some b"
  shows "BPending_Unset i g = Some (g\<lparr>pg_jobs := remove1 i (pg_jobs g),
     pg_objs := (pg_objs g)(i \<mapsto> b\<lparr>bp_removed := True, bp_pending := False\<rparr>)\<rparr>)"
proof -
  have "bp_removed b \<Longrightarrow> b\<lparr>bp_removed := True, bp_pending := False\<rparr> = b"
    using assms by (auto simp: pending_inv_def)
  then show ?thesis
    using assms by (auto simp: pending_inv_def pending_defs BSmallPending_Unset_def remove1_idem
      fun_upd_idem)
qed

lemma BPendingGroup_ExecuteJob_eq:
  assumes "pending_inv g" "pg_jobs g = i # js"
  obtains b where "pg_objs g i = Some b" "BPendingGroup_ExecuteJob g =
    Some ((bp_handler b, bp_user b), g\<lparr>pg_jobs := js,
      pg_objs := (pg_objs g)(i \<mapsto> b\<lparr>bp_removed := True, bp_pending := False\<rparr>)\<rparr>)"
proof -
  have "i \<in> dom (pg_objs g)" using assms by (auto simp: pending_inv_def)
  then obtain b where "pg_objs g i = Some b" by auto
  with assms that show thesis
    by (auto simp: pending_inv_def BPendingGroup_ExecuteJob_def Let_def)
qed

lemma pending_step_inv:
  assumes inv: "pending_inv g" and en: "pending_enabled g e"
  shows "\<exists>g'. pending_step g e = Some g' \<and> pending_inv g'"
proof (cases e)
  case (EvInit i h u)
  with inv en show ?thesis
    by (auto simp: pending_inv_def pending_defs BSmallPending_Init_def domIff)
next
  case (EvFree i)
  then obtain b where b: "pg_objs g i = Some b" using en by auto
  then have "pg_ctr g > 0" using inv by (auto simp: pending_inv_def card_gt_0_iff)
  with inv b EvFree show ?thesis
    by (auto simp: pending_inv_def pending_defs BSmallPending_Free_def Let_def remove1_idem
        card_Diff_singleton_if)
next
  case (EvSetHandler i h u)
  then obtain b where b: "pg_objs g i = Some b" using en by auto
  with inv have "i \<in> dom (pg_objs g)" by auto
  with inv b EvSetHandler show ?thesis
    by (auto simp: pending_inv_def BSmallPending_SetHandler_def insert_absorb)
next
  case (EvSet i)
  then obtain b where b: "pg_objs g i = Some b" using en by auto
  with inv have "i \<in> dom (pg_objs g)" by auto
  with inv b EvSet show ?thesis
    by (auto simp: BPending_Set_eq [OF inv b] pending_inv_def insert_absorb)
next
  case (EvUnset i)
  then obtain b where b: "pg_objs g i = Some b" using en by auto
  with inv have "i \<in> dom (pg_objs g)" by auto
  with inv b EvUnset show ?thesis
    by (auto simp: BPending_Unset_eq [OF inv b] pending_inv_def insert_absorb)
next
  case EvExecute
  then obtain i js where js: "pg_jobs g = i # js" using en
    by (auto simp: BPendingGroup_HasJobs_def neq_Nil_conv)
  obtain b where "pg_objs g i = Some b" "BPendingGroup_ExecuteJob g =
    Some ((bp_handler b, bp_user b), g\<lparr>pg_jobs := js,
      pg_objs := (pg_objs g)(i \<mapsto> b\<lparr>bp_removed := True, bp_pending := False\<rparr>)\<rparr>)"
    using BPendingGroup_ExecuteJob_eq [OF inv js] .
  moreover have "i \<in> dom (pg_objs g)" using calculation by auto
  ultimately show ?thesis using inv js EvExecute by (auto simp: pending_inv_def insert_absorb)
qed

interpretation pending: machine "\<lambda>g. g = BPendingGroup_Init" pending_step pending_enabled pending_inv
  using pending_init_inv pending_step_inv by unfold_locales auto

section \<open>Properties\<close>

text \<open>
  C16. No use of a job group that initialises, frees, sets, unsets and executes jobs in a permitted
  order trips an assertion of BPending.c, and after it each live job is in the job list exactly
  when \<^verbatim>\<open>BPending_IsSet\<close> says so, and never twice; the counter counts the live job objects.
\<close>

theorem bpending_run_safe:
  assumes "admissible pending_enabled pending_step BPendingGroup_Init es"
  shows "\<exists>g. exec pending_step BPendingGroup_Init es = Some g \<and> distinct (pg_jobs g) \<and>
    pg_ctr g = card (dom (pg_objs g)) \<and>
    (\<forall>i. BPending_IsSet i g = (if i \<in> dom (pg_objs g) then Some (i \<in> set (pg_jobs g)) else None))"
proof -
  obtain g where g: "exec pending_step BPendingGroup_Init es = Some g" "pending_inv g"
    using pending.run_safe [OF refl assms] by blast
  have "BPending_IsSet i g = (if i \<in> dom (pg_objs g) then Some (i \<in> set (pg_jobs g)) else None)" for i
    using g(2) by (cases "pg_objs g i")
      (auto simp: pending_inv_def pending_defs BSmallPending_IsSet_def domIff)
  with g show ?thesis by (auto simp: pending_inv_def)
qed

theorem bpending_run_safe_witness:
  "\<exists>g. exec pending_step BPendingGroup_Init
      [EvInit 1 ''send'' (), EvInit 2 ''done'' (), EvSet 1, EvSet 2, EvSet 1, EvExecute, EvFree 1] = Some g \<and>
    distinct (pg_jobs g) \<and> pg_ctr g = card (dom (pg_objs g)) \<and>
    (\<forall>i. BPending_IsSet i g = (if i \<in> dom (pg_objs g) then Some (i \<in> set (pg_jobs g)) else None))"
  by (rule bpending_run_safe)
    (simp add: pending_defs BPendingGroup_Init_def BSmallPending_Init_def BSmallPending_Set_def
      BPendingGroup_ExecuteJob_def BSmallPending_Free_def BPendingGroup_HasJobs_def)

text \<open>
  Jobs run in last-set-first order: after a job is set, it is the next job the group executes,
  with the handler and argument it was given, and executing it leaves the other pending jobs in
  their order, whether or not the job was pending before.
\<close>

theorem bpending_set_runs_next:
  assumes "pending_inv g" "pg_objs g i = Some b"
  shows "\<exists>g1 g2. BPending_Set i g = Some g1 \<and> BPendingGroup_PeekJob g1 = Some i \<and>
    BPendingGroup_ExecuteJob g1 = Some ((bp_handler b, bp_user b), g2) \<and>
    pg_jobs g2 = remove1 i (pg_jobs g) \<and> BPending_IsSet i g2 = Some False"
  unfolding BPending_Set_eq [OF assms]
  by (auto simp: BPendingGroup_PeekJob_def BPendingGroup_ExecuteJob_def pending_defs
      BSmallPending_IsSet_def Let_def)

theorem bpending_set_runs_next_witness:
  "\<exists>g1 g2. BPending_Set 1 (BPending_Init 1 ''send'' () BPendingGroup_Init) = Some g1 \<and>
    BPendingGroup_PeekJob g1 = Some 1 \<and>
    BPendingGroup_ExecuteJob g1 = Some ((''send'', ()), g2) \<and>
    pg_jobs g2 = [] \<and> BPending_IsSet 1 g2 = Some False"
  using bpending_set_runs_next [of "BPending_Init 1 ''send'' () BPendingGroup_Init" 1
      "\<lparr>bp_handler = ''send'', bp_user = (), bp_removed = True, bp_pending = False\<rparr>"]
  by (simp add: pending_inv_def pending_defs BSmallPending_Init_def BPendingGroup_Init_def)

end
