(* ===== verification/Flow_Interfaces.thy ===== *)
theory Flow_Interfaces
  imports Prelude
begin

text \<open>
  The four interfaces of flow/: PacketPassInterface, PacketRecvInterface, StreamPassInterface and
  StreamRecvInterface. Each connects a user, who requests an operation, with a provider, who
  performs it; both directions go through the job queue, so a request is first pending, then the
  provider's handler runs, and the completion is again pending before the user's handler runs.

  An interface is a record of its fields; a \<^verbatim>\<open>BPending\<close> job is the flag whether it is set, and a
  handler pointer the flag whether it is not \<^verbatim>\<open>NULL\<close>. A call of a handler is an entry the operation
  returns. \<open>'d\<close> is the type of the data pointers.
\<close>

section \<open>The protocol between user and provider\<close>

text \<open>What happens on an interface, as its two parties see it.\<close>

datatype 'd entry = Request "'d option" int | Operation "'d option" int | RequestCancel | Done int

datatype 'd proto = PIdle | PRequested "'d option" int | PBusy "'d option" int bool

text \<open>
  The promise: an operation is handed to the provider once, with the data of the request; it is
  completed once, with a length that \<open>ok\<close> allows for the requested one, and only after the
  provider was called, unless cancelling is possible (\<open>cc\<close>); a cancel reaches a busy provider at most once.
\<close>

fun proto_step :: "bool \<Rightarrow> (int \<Rightarrow> int \<Rightarrow> bool) \<Rightarrow> 'd proto \<Rightarrow> 'd entry \<Rightarrow> 'd proto option" where
  "proto_step cc ok PIdle (Request d n) = Some (PRequested d n)"
| "proto_step cc ok (PRequested d n) (Operation d' n') =
     (if d' = d \<and> n' = n then Some (PBusy d n False) else None)"
| "proto_step cc ok (PRequested d n) (Done k) = (if cc then Some PIdle else None)"
| "proto_step cc ok (PBusy d n False) RequestCancel = (if cc then Some (PBusy d n True) else None)"
| "proto_step cc ok (PBusy d n c) (Done k) = (if ok n k then Some PIdle else None)"
| "proto_step cc ok _ _ = None"

datatype if_state = STATE_NONE | STATE_OPERATION_PENDING | STATE_BUSY | STATE_DONE_PENDING

section \<open>PacketPassInterface\<close>

record 'd PacketPassInterface =
  ppi_mtu :: int
  ppi_handler_requestcancel :: bool
  ppi_handler_done :: bool
  ppi_job_operation :: bool
  ppi_job_operation_data :: "'d option"
  ppi_job_operation_len :: int
  ppi_job_requestcancel :: bool
  ppi_job_done :: bool
  ppi_state :: if_state
  ppi_cancel_requested :: bool

text \<open>\<open>i\<close> is the uninitialised struct.\<close>

definition PacketPassInterface_Init ::
  "'d PacketPassInterface \<Rightarrow> int \<Rightarrow> 'd PacketPassInterface option" where
  "PacketPassInterface_Init i mtu = do {
     ASSERT (mtu \<ge> 0);
     Some (i\<lparr>ppi_mtu := mtu, ppi_handler_requestcancel := False, ppi_handler_done := False,
       ppi_job_operation := False, ppi_job_requestcancel := False, ppi_job_done := False,
       ppi_state := STATE_NONE\<rparr>)
   }"

text \<open>Freeing an interface frees its jobs.\<close>

definition PacketPassInterface_Free :: "'d PacketPassInterface \<Rightarrow> 'd PacketPassInterface" where
  "PacketPassInterface_Free i =
     i\<lparr>ppi_job_done := False, ppi_job_requestcancel := False, ppi_job_operation := False\<rparr>"

definition PacketPassInterface_EnableCancel ::
  "'d PacketPassInterface \<Rightarrow> 'd PacketPassInterface option" where
  "PacketPassInterface_EnableCancel i = do {
     ASSERT (\<not> ppi_handler_requestcancel i);
     ASSERT (\<not> ppi_handler_done i);
     Some (i\<lparr>ppi_handler_requestcancel := True\<rparr>)
   }"

definition PacketPassInterface_Done :: "'d PacketPassInterface \<Rightarrow> 'd PacketPassInterface option" where
  "PacketPassInterface_Done i = do {
     ASSERT (ppi_state i = STATE_BUSY);
     Some (i\<lparr>ppi_job_requestcancel := False, ppi_job_done := True, ppi_state := STATE_DONE_PENDING\<rparr>)
   }"

definition PacketPassInterface_Sender_Init ::
  "'d PacketPassInterface \<Rightarrow> 'd PacketPassInterface option" where
  "PacketPassInterface_Sender_Init i = do {
     ASSERT (\<not> ppi_handler_done i);
     Some (i\<lparr>ppi_handler_done := True\<rparr>)
   }"

definition PacketPassInterface_Sender_Send ::
  "'d PacketPassInterface \<Rightarrow> 'd option \<Rightarrow> int \<Rightarrow> 'd PacketPassInterface option" where
  "PacketPassInterface_Sender_Send i data data_len = do {
     ASSERT (data_len \<ge> 0);
     ASSERT (data_len \<le> ppi_mtu i);
     ASSERT (\<not> data_len > 0 \<or> data \<noteq> None);
     ASSERT (ppi_state i = STATE_NONE);
     ASSERT (ppi_handler_done i);
     Some (i\<lparr>ppi_job_operation_data := data, ppi_job_operation_len := data_len,
       ppi_job_operation := True, ppi_state := STATE_OPERATION_PENDING, ppi_cancel_requested := False\<rparr>)
   }"

definition PacketPassInterface_Sender_RequestCancel ::
  "'d PacketPassInterface \<Rightarrow> 'd PacketPassInterface option" where
  "PacketPassInterface_Sender_RequestCancel i = do {
     ASSERT (ppi_state i = STATE_OPERATION_PENDING \<or> ppi_state i = STATE_BUSY \<or>
       ppi_state i = STATE_DONE_PENDING);
     ASSERT (ppi_handler_requestcancel i);
     if ppi_cancel_requested i then Some i
     else do {
       let i = i\<lparr>ppi_cancel_requested := True\<rparr>;
       if ppi_state i = STATE_OPERATION_PENDING
       then Some (i\<lparr>ppi_job_operation := False, ppi_job_done := True, ppi_state := STATE_DONE_PENDING\<rparr>)
       else if ppi_state i = STATE_BUSY then Some (i\<lparr>ppi_job_requestcancel := True\<rparr>)
       else Some i
     }
   }"

text \<open>The three jobs; the job itself is no longer set when its handler runs.\<close>

definition PacketPassInterface_job_operation ::
  "'d PacketPassInterface \<Rightarrow> ('d entry \<times> 'd PacketPassInterface) option" where
  "PacketPassInterface_job_operation i = do {
     let i = i\<lparr>ppi_job_operation := False\<rparr>;
     ASSERT (ppi_state i = STATE_OPERATION_PENDING);
     let i = i\<lparr>ppi_state := STATE_BUSY\<rparr>;
     Some (Operation (ppi_job_operation_data i) (ppi_job_operation_len i), i)
   }"

definition PacketPassInterface_job_requestcancel ::
  "'d PacketPassInterface \<Rightarrow> ('d entry \<times> 'd PacketPassInterface) option" where
  "PacketPassInterface_job_requestcancel i = do {
     let i = i\<lparr>ppi_job_requestcancel := False\<rparr>;
     ASSERT (ppi_state i = STATE_BUSY);
     ASSERT (ppi_cancel_requested i);
     ASSERT (ppi_handler_requestcancel i);
     Some (RequestCancel, i)
   }"

definition PacketPassInterface_job_done ::
  "'d PacketPassInterface \<Rightarrow> ('d entry \<times> 'd PacketPassInterface) option" where
  "PacketPassInterface_job_done i = do {
     let i = i\<lparr>ppi_job_done := False\<rparr>;
     ASSERT (ppi_state i = STATE_DONE_PENDING);
     Some (Done 0, i\<lparr>ppi_state := STATE_NONE\<rparr>)
   }"

section \<open>StreamRecvInterface and StreamPassInterface\<close>

record 'd StreamRecvInterface =
  sri_handler_done :: bool
  sri_job_operation :: bool
  sri_job_operation_data :: "'d option"
  sri_job_operation_len :: int
  sri_job_done :: bool
  sri_job_done_len :: int
  sri_state :: if_state

definition StreamRecvInterface_Init :: "'d StreamRecvInterface \<Rightarrow> 'd StreamRecvInterface" where
  "StreamRecvInterface_Init i =
     i\<lparr>sri_handler_done := False, sri_job_operation := False, sri_job_done := False,
       sri_state := STATE_NONE\<rparr>"

definition StreamRecvInterface_Free :: "'d StreamRecvInterface \<Rightarrow> 'd StreamRecvInterface" where
  "StreamRecvInterface_Free i = i\<lparr>sri_job_done := False, sri_job_operation := False\<rparr>"

definition StreamRecvInterface_Done ::
  "'d StreamRecvInterface \<Rightarrow> int \<Rightarrow> 'd StreamRecvInterface option" where
  "StreamRecvInterface_Done i data_len = do {
     ASSERT (sri_state i = STATE_BUSY);
     ASSERT (data_len > 0);
     ASSERT (data_len \<le> sri_job_operation_len i);
     Some (i\<lparr>sri_job_done_len := data_len, sri_job_done := True, sri_state := STATE_DONE_PENDING\<rparr>)
   }"

definition StreamRecvInterface_Receiver_Init ::
  "'d StreamRecvInterface \<Rightarrow> 'd StreamRecvInterface option" where
  "StreamRecvInterface_Receiver_Init i = do {
     ASSERT (\<not> sri_handler_done i);
     Some (i\<lparr>sri_handler_done := True\<rparr>)
   }"

definition StreamRecvInterface_Receiver_Recv ::
  "'d StreamRecvInterface \<Rightarrow> 'd option \<Rightarrow> int \<Rightarrow> 'd StreamRecvInterface option" where
  "StreamRecvInterface_Receiver_Recv i data data_len = do {
     ASSERT (data_len > 0);
     ASSERT (data \<noteq> None);
     ASSERT (sri_state i = STATE_NONE);
     ASSERT (sri_handler_done i);
     Some (i\<lparr>sri_job_operation_data := data, sri_job_operation_len := data_len,
       sri_job_operation := True, sri_state := STATE_OPERATION_PENDING\<rparr>)
   }"

definition StreamRecvInterface_job_operation ::
  "'d StreamRecvInterface \<Rightarrow> ('d entry \<times> 'd StreamRecvInterface) option" where
  "StreamRecvInterface_job_operation i = do {
     let i = i\<lparr>sri_job_operation := False\<rparr>;
     ASSERT (sri_state i = STATE_OPERATION_PENDING);
     let i = i\<lparr>sri_state := STATE_BUSY\<rparr>;
     Some (Operation (sri_job_operation_data i) (sri_job_operation_len i), i)
   }"

definition StreamRecvInterface_job_done ::
  "'d StreamRecvInterface \<Rightarrow> ('d entry \<times> 'd StreamRecvInterface) option" where
  "StreamRecvInterface_job_done i = do {
     let i = i\<lparr>sri_job_done := False\<rparr>;
     ASSERT (sri_state i = STATE_DONE_PENDING);
     Some (Done (sri_job_done_len i), i\<lparr>sri_state := STATE_NONE\<rparr>)
   }"

text \<open>StreamPassInterface has the same fields; its two headers and sources differ in names only.\<close>

type_synonym 'd StreamPassInterface = "'d StreamRecvInterface"

definition StreamPassInterface_Init :: "'d StreamPassInterface \<Rightarrow> 'd StreamPassInterface" where
  "StreamPassInterface_Init i =
     i\<lparr>sri_handler_done := False, sri_job_operation := False, sri_job_done := False,
       sri_state := STATE_NONE\<rparr>"

definition StreamPassInterface_Free :: "'d StreamPassInterface \<Rightarrow> 'd StreamPassInterface" where
  "StreamPassInterface_Free i = i\<lparr>sri_job_done := False, sri_job_operation := False\<rparr>"

definition StreamPassInterface_Done ::
  "'d StreamPassInterface \<Rightarrow> int \<Rightarrow> 'd StreamPassInterface option" where
  "StreamPassInterface_Done i data_len = do {
     ASSERT (sri_state i = STATE_BUSY);
     ASSERT (data_len > 0);
     ASSERT (data_len \<le> sri_job_operation_len i);
     Some (i\<lparr>sri_job_done_len := data_len, sri_job_done := True, sri_state := STATE_DONE_PENDING\<rparr>)
   }"

definition StreamPassInterface_Sender_Init ::
  "'d StreamPassInterface \<Rightarrow> 'd StreamPassInterface option" where
  "StreamPassInterface_Sender_Init i = do {
     ASSERT (\<not> sri_handler_done i);
     Some (i\<lparr>sri_handler_done := True\<rparr>)
   }"

definition StreamPassInterface_Sender_Send ::
  "'d StreamPassInterface \<Rightarrow> 'd option \<Rightarrow> int \<Rightarrow> 'd StreamPassInterface option" where
  "StreamPassInterface_Sender_Send i data data_len = do {
     ASSERT (data_len > 0);
     ASSERT (data \<noteq> None);
     ASSERT (sri_state i = STATE_NONE);
     ASSERT (sri_handler_done i);
     Some (i\<lparr>sri_job_operation_data := data, sri_job_operation_len := data_len,
       sri_job_operation := True, sri_state := STATE_OPERATION_PENDING\<rparr>)
   }"

definition StreamPassInterface_job_operation ::
  "'d StreamPassInterface \<Rightarrow> ('d entry \<times> 'd StreamPassInterface) option" where
  "StreamPassInterface_job_operation i = do {
     let i = i\<lparr>sri_job_operation := False\<rparr>;
     ASSERT (sri_state i = STATE_OPERATION_PENDING);
     let i = i\<lparr>sri_state := STATE_BUSY\<rparr>;
     Some (Operation (sri_job_operation_data i) (sri_job_operation_len i), i)
   }"

definition StreamPassInterface_job_done ::
  "'d StreamPassInterface \<Rightarrow> ('d entry \<times> 'd StreamPassInterface) option" where
  "StreamPassInterface_job_done i = do {
     let i = i\<lparr>sri_job_done := False\<rparr>;
     ASSERT (sri_state i = STATE_DONE_PENDING);
     Some (Done (sri_job_done_len i), i\<lparr>sri_state := STATE_NONE\<rparr>)
   }"

section \<open>PacketRecvInterface\<close>

record 'd PacketRecvInterface =
  pri_mtu :: int
  pri_handler_done :: bool
  pri_job_operation :: bool
  pri_job_operation_data :: "'d option"
  pri_job_done :: bool
  pri_job_done_len :: int
  pri_state :: if_state

definition PacketRecvInterface_Init ::
  "'d PacketRecvInterface \<Rightarrow> int \<Rightarrow> 'd PacketRecvInterface option" where
  "PacketRecvInterface_Init i mtu = do {
     ASSERT (mtu \<ge> 0);
     Some (i\<lparr>pri_mtu := mtu, pri_handler_done := False, pri_job_operation := False,
       pri_job_done := False, pri_state := STATE_NONE\<rparr>)
   }"

definition PacketRecvInterface_Free :: "'d PacketRecvInterface \<Rightarrow> 'd PacketRecvInterface" where
  "PacketRecvInterface_Free i = i\<lparr>pri_job_done := False, pri_job_operation := False\<rparr>"

definition PacketRecvInterface_Done ::
  "'d PacketRecvInterface \<Rightarrow> int \<Rightarrow> 'd PacketRecvInterface option" where
  "PacketRecvInterface_Done i data_len = do {
     ASSERT (data_len \<ge> 0);
     ASSERT (data_len \<le> pri_mtu i);
     ASSERT (pri_state i = STATE_BUSY);
     Some (i\<lparr>pri_job_done_len := data_len, pri_job_done := True, pri_state := STATE_DONE_PENDING\<rparr>)
   }"

definition PacketRecvInterface_Receiver_Init ::
  "'d PacketRecvInterface \<Rightarrow> 'd PacketRecvInterface option" where
  "PacketRecvInterface_Receiver_Init i = do {
     ASSERT (\<not> pri_handler_done i);
     Some (i\<lparr>pri_handler_done := True\<rparr>)
   }"

definition PacketRecvInterface_Receiver_Recv ::
  "'d PacketRecvInterface \<Rightarrow> 'd option \<Rightarrow> 'd PacketRecvInterface option" where
  "PacketRecvInterface_Receiver_Recv i data = do {
     ASSERT (\<not> pri_mtu i > 0 \<or> data \<noteq> None);
     ASSERT (pri_state i = STATE_NONE);
     ASSERT (pri_handler_done i);
     Some (i\<lparr>pri_job_operation_data := data, pri_job_operation := True,
       pri_state := STATE_OPERATION_PENDING\<rparr>)
   }"

definition PacketRecvInterface_job_operation ::
  "'d PacketRecvInterface \<Rightarrow> ('d entry \<times> 'd PacketRecvInterface) option" where
  "PacketRecvInterface_job_operation i = do {
     let i = i\<lparr>pri_job_operation := False\<rparr>;
     ASSERT (pri_state i = STATE_OPERATION_PENDING);
     let i = i\<lparr>pri_state := STATE_BUSY\<rparr>;
     Some (Operation (pri_job_operation_data i) (pri_mtu i), i)
   }"

definition PacketRecvInterface_job_done ::
  "'d PacketRecvInterface \<Rightarrow> ('d entry \<times> 'd PacketRecvInterface) option" where
  "PacketRecvInterface_job_done i = do {
     let i = i\<lparr>pri_job_done := False\<rparr>;
     ASSERT (pri_state i = STATE_DONE_PENDING);
     Some (Done (pri_job_done_len i), i\<lparr>pri_state := STATE_NONE\<rparr>)
   }"

section \<open>Machines: an interface with its trace\<close>

text \<open>
  The events of an interface: what the user does, what the provider does, and the jobs the
  event loop runs. The state of the machine is the interface with the entries seen so far.
\<close>

datatype 'd if_event =
    UserRequest "'d option" int | UserCancel | ProviderDone int | JobOperation | JobCancel | JobDone

definition emit :: "'d entry list \<Rightarrow> ('d entry \<times> 'i) option \<Rightarrow> ('i \<times> 'd entry list) option" where
  "emit tr r = map_option (\<lambda>(e, i). (i, tr @ [e])) r"

fun ppi_step :: "'d PacketPassInterface \<times> 'd entry list \<Rightarrow> 'd if_event
    \<Rightarrow> ('d PacketPassInterface \<times> 'd entry list) option" where
  "ppi_step (i, tr) (UserRequest d n) =
     map_option (\<lambda>i'. (i', tr @ [Request d n])) (PacketPassInterface_Sender_Send i d n)"
| "ppi_step (i, tr) UserCancel = map_option (\<lambda>i'. (i', tr)) (PacketPassInterface_Sender_RequestCancel i)"
| "ppi_step (i, tr) (ProviderDone k) = map_option (\<lambda>i'. (i', tr)) (PacketPassInterface_Done i)"
| "ppi_step (i, tr) JobOperation = emit tr (PacketPassInterface_job_operation i)"
| "ppi_step (i, tr) JobCancel = emit tr (PacketPassInterface_job_requestcancel i)"
| "ppi_step (i, tr) JobDone = emit tr (PacketPassInterface_job_done i)"

text \<open>The user acts on an idle interface or cancels a running operation, the provider completes
  an operation it was given, and the loop runs the jobs that are set.\<close>

fun ppi_enabled :: "'d PacketPassInterface \<times> 'd entry list \<Rightarrow> 'd if_event \<Rightarrow> bool" where
  "ppi_enabled (i, tr) (UserRequest d n) \<longleftrightarrow>
     ppi_state i = STATE_NONE \<and> 0 \<le> n \<and> n \<le> ppi_mtu i \<and> d \<noteq> None"
| "ppi_enabled (i, tr) UserCancel \<longleftrightarrow> ppi_state i \<noteq> STATE_NONE \<and> ppi_handler_requestcancel i"
| "ppi_enabled (i, tr) (ProviderDone k) \<longleftrightarrow> ppi_state i = STATE_BUSY"
| "ppi_enabled (i, tr) JobOperation \<longleftrightarrow> ppi_job_operation i"
| "ppi_enabled (i, tr) JobCancel \<longleftrightarrow> ppi_job_requestcancel i"
| "ppi_enabled (i, tr) JobDone \<longleftrightarrow> ppi_job_done i"

definition ppi_ready :: "bool \<Rightarrow> 'd PacketPassInterface \<times> 'd entry list \<Rightarrow> bool" where
  "ppi_ready cc s \<longleftrightarrow> ppi_handler_requestcancel (fst s) = cc \<and> ppi_handler_done (fst s) \<and> \<not> ppi_job_operation (fst s) \<and>
     \<not> ppi_job_requestcancel (fst s) \<and> \<not> ppi_job_done (fst s) \<and> ppi_state (fst s) = STATE_NONE \<and>
     snd s = []"

text \<open>The trace so far follows the protocol, and the fields agree with where it is.\<close>

definition ppi_inv :: "bool \<Rightarrow> 'd PacketPassInterface \<times> 'd entry list \<Rightarrow> bool" where
  "ppi_inv cc s \<longleftrightarrow> (\<exists>ps. exec (proto_step cc (\<lambda>_ _. True)) PIdle (snd s) = Some ps \<and>
     ppi_handler_done (fst s) \<and> ppi_handler_requestcancel (fst s) = cc \<and>
     (ppi_job_operation (fst s) \<longleftrightarrow> ppi_state (fst s) = STATE_OPERATION_PENDING) \<and>
     (ppi_job_done (fst s) \<longleftrightarrow> ppi_state (fst s) = STATE_DONE_PENDING) \<and>
     (ppi_job_requestcancel (fst s) \<longrightarrow> ppi_state (fst s) = STATE_BUSY \<and> ppi_cancel_requested (fst s) \<and>
        ppi_handler_requestcancel (fst s) \<and> (\<exists>d n. ps = PBusy d n False)) \<and>
     (case ppi_state (fst s) of
        STATE_NONE \<Rightarrow> ps = PIdle
      | STATE_OPERATION_PENDING \<Rightarrow>
          ps = PRequested (ppi_job_operation_data (fst s)) (ppi_job_operation_len (fst s))
      | STATE_BUSY \<Rightarrow> (\<exists>d n c. ps = PBusy d n c \<and> (c \<longrightarrow> ppi_cancel_requested (fst s)))
      | STATE_DONE_PENDING \<Rightarrow> (\<exists>d n. ps = PRequested d n) \<and> ppi_handler_requestcancel (fst s) \<or>
          (\<exists>d n c. ps = PBusy d n c)))"

lemmas ppi_defs = PacketPassInterface_Sender_Send_def PacketPassInterface_Sender_RequestCancel_def
  PacketPassInterface_Done_def PacketPassInterface_job_operation_def
  PacketPassInterface_job_requestcancel_def PacketPassInterface_job_done_def emit_def Let_def

lemma ppi_step_inv:
  assumes "ppi_inv cc s" "ppi_enabled s e"
  shows "\<exists>s'. ppi_step s e = Some s' \<and> ppi_inv cc s'"
proof (cases s)
  case (Pair i tr)
  show ?thesis
  proof (cases e)
    case (UserRequest d n)
    with assms Pair show ?thesis by (auto simp: ppi_inv_def ppi_defs exec_append)
  next
    case UserCancel
    with assms Pair show ?thesis
      by (cases "ppi_state i") (auto simp: ppi_inv_def ppi_defs exec_append)
  next
    case (ProviderDone k)
    with assms Pair show ?thesis by (auto simp: ppi_inv_def ppi_defs exec_append)
  next
    case JobOperation
    with assms Pair show ?thesis by (auto simp: ppi_inv_def ppi_defs exec_append)
  next
    case JobCancel
    with assms Pair show ?thesis by (auto simp: ppi_inv_def ppi_defs exec_append)
  next
    case JobDone
    with assms Pair show ?thesis by (auto simp: ppi_inv_def ppi_defs exec_append)
  qed
qed

interpretation ppi: machine "ppi_ready cc" ppi_step ppi_enabled "ppi_inv cc" for cc
proof
  show "ppi_inv cc s" if "ppi_ready cc s" for s :: "'a PacketPassInterface \<times> 'a entry list"
    using that by (simp add: ppi_ready_def ppi_inv_def)
qed (rule ppi_step_inv)

text \<open>Stream receive; a completion carries between one byte and the requested length.\<close>

definition stream_len_ok :: "int \<Rightarrow> int \<Rightarrow> bool" where
  "stream_len_ok n k \<longleftrightarrow> 0 < k \<and> k \<le> n"

fun sri_step :: "'d StreamRecvInterface \<times> 'd entry list \<Rightarrow> 'd if_event
    \<Rightarrow> ('d StreamRecvInterface \<times> 'd entry list) option" where
  "sri_step (i, tr) (UserRequest d n) =
     map_option (\<lambda>i'. (i', tr @ [Request d n])) (StreamRecvInterface_Receiver_Recv i d n)"
| "sri_step (i, tr) (ProviderDone k) = map_option (\<lambda>i'. (i', tr)) (StreamRecvInterface_Done i k)"
| "sri_step (i, tr) JobOperation = emit tr (StreamRecvInterface_job_operation i)"
| "sri_step (i, tr) JobDone = emit tr (StreamRecvInterface_job_done i)"
| "sri_step _ _ = None"

fun spi_step :: "'d StreamPassInterface \<times> 'd entry list \<Rightarrow> 'd if_event
    \<Rightarrow> ('d StreamPassInterface \<times> 'd entry list) option" where
  "spi_step (i, tr) (UserRequest d n) =
     map_option (\<lambda>i'. (i', tr @ [Request d n])) (StreamPassInterface_Sender_Send i d n)"
| "spi_step (i, tr) (ProviderDone k) = map_option (\<lambda>i'. (i', tr)) (StreamPassInterface_Done i k)"
| "spi_step (i, tr) JobOperation = emit tr (StreamPassInterface_job_operation i)"
| "spi_step (i, tr) JobDone = emit tr (StreamPassInterface_job_done i)"
| "spi_step _ _ = None"

fun sri_enabled :: "'d StreamRecvInterface \<times> 'd entry list \<Rightarrow> 'd if_event \<Rightarrow> bool" where
  "sri_enabled (i, tr) (UserRequest d n) \<longleftrightarrow> sri_state i = STATE_NONE \<and> 0 < n \<and> d \<noteq> None"
| "sri_enabled (i, tr) (ProviderDone k) \<longleftrightarrow>
     sri_state i = STATE_BUSY \<and> stream_len_ok (sri_job_operation_len i) k"
| "sri_enabled (i, tr) JobOperation \<longleftrightarrow> sri_job_operation i"
| "sri_enabled (i, tr) JobDone \<longleftrightarrow> sri_job_done i"
| "sri_enabled _ _ \<longleftrightarrow> False"

definition sri_ready :: "'d StreamRecvInterface \<times> 'd entry list \<Rightarrow> bool" where
  "sri_ready s \<longleftrightarrow> sri_handler_done (fst s) \<and> \<not> sri_job_operation (fst s) \<and>
     \<not> sri_job_done (fst s) \<and> sri_state (fst s) = STATE_NONE \<and> snd s = []"

definition sri_inv :: "'d StreamRecvInterface \<times> 'd entry list \<Rightarrow> bool" where
  "sri_inv s \<longleftrightarrow> (\<exists>ps. exec (proto_step False stream_len_ok) PIdle (snd s) = Some ps \<and>
     sri_handler_done (fst s) \<and>
     (sri_job_operation (fst s) \<longleftrightarrow> sri_state (fst s) = STATE_OPERATION_PENDING) \<and>
     (sri_job_done (fst s) \<longleftrightarrow> sri_state (fst s) = STATE_DONE_PENDING) \<and>
     (let d = sri_job_operation_data (fst s); n = sri_job_operation_len (fst s) in
      case sri_state (fst s) of
        STATE_NONE \<Rightarrow> ps = PIdle
      | STATE_OPERATION_PENDING \<Rightarrow> ps = PRequested d n
      | STATE_BUSY \<Rightarrow> ps = PBusy d n False
      | STATE_DONE_PENDING \<Rightarrow> ps = PBusy d n False \<and> stream_len_ok n (sri_job_done_len (fst s))))"

lemmas sri_defs = StreamRecvInterface_Receiver_Recv_def StreamRecvInterface_Done_def
  StreamRecvInterface_job_operation_def StreamRecvInterface_job_done_def emit_def Let_def
  StreamPassInterface_Sender_Send_def StreamPassInterface_Done_def
  StreamPassInterface_job_operation_def StreamPassInterface_job_done_def stream_len_ok_def

lemma sri_step_inv:
  assumes "sri_inv s" "sri_enabled s e"
  shows "\<exists>s'. sri_step s e = Some s' \<and> sri_inv s'"
  using assms by (cases s; cases e) (auto simp: sri_inv_def sri_defs exec_append)

lemma spi_step_eq: "spi_step s e = sri_step s e"
  by (cases s; cases e) (simp_all add: sri_defs)

interpretation sri: machine sri_ready sri_step sri_enabled sri_inv
proof
  show "sri_inv s" if "sri_ready s" for s :: "'a StreamRecvInterface \<times> 'a entry list"
    using that by (simp add: sri_ready_def sri_inv_def)
qed (rule sri_step_inv)

interpretation spi: machine sri_ready spi_step sri_enabled sri_inv
  by unfold_locales (simp add: sri.init_inv, unfold spi_step_eq, rule sri_step_inv)

text \<open>Packet receive; the provider fills at most the MTU.\<close>

definition packet_len_ok :: "int \<Rightarrow> int \<Rightarrow> bool" where
  "packet_len_ok n k \<longleftrightarrow> 0 \<le> k \<and> k \<le> n"

fun pri_step :: "'d PacketRecvInterface \<times> 'd entry list \<Rightarrow> 'd if_event
    \<Rightarrow> ('d PacketRecvInterface \<times> 'd entry list) option" where
  "pri_step (i, tr) (UserRequest d n) =
     map_option (\<lambda>i'. (i', tr @ [Request d (pri_mtu i)])) (PacketRecvInterface_Receiver_Recv i d)"
| "pri_step (i, tr) (ProviderDone k) = map_option (\<lambda>i'. (i', tr)) (PacketRecvInterface_Done i k)"
| "pri_step (i, tr) JobOperation = emit tr (PacketRecvInterface_job_operation i)"
| "pri_step (i, tr) JobDone = emit tr (PacketRecvInterface_job_done i)"
| "pri_step _ _ = None"

fun pri_enabled :: "'d PacketRecvInterface \<times> 'd entry list \<Rightarrow> 'd if_event \<Rightarrow> bool" where
  "pri_enabled (i, tr) (UserRequest d n) \<longleftrightarrow> pri_state i = STATE_NONE \<and> d \<noteq> None"
| "pri_enabled (i, tr) (ProviderDone k) \<longleftrightarrow> pri_state i = STATE_BUSY \<and> packet_len_ok (pri_mtu i) k"
| "pri_enabled (i, tr) JobOperation \<longleftrightarrow> pri_job_operation i"
| "pri_enabled (i, tr) JobDone \<longleftrightarrow> pri_job_done i"
| "pri_enabled _ _ \<longleftrightarrow> False"

definition pri_ready :: "'d PacketRecvInterface \<times> 'd entry list \<Rightarrow> bool" where
  "pri_ready s \<longleftrightarrow> pri_handler_done (fst s) \<and> \<not> pri_job_operation (fst s) \<and>
     \<not> pri_job_done (fst s) \<and> pri_state (fst s) = STATE_NONE \<and> snd s = []"

definition pri_inv :: "'d PacketRecvInterface \<times> 'd entry list \<Rightarrow> bool" where
  "pri_inv s \<longleftrightarrow> (\<exists>ps. exec (proto_step False packet_len_ok) PIdle (snd s) = Some ps \<and>
     pri_handler_done (fst s) \<and>
     (pri_job_operation (fst s) \<longleftrightarrow> pri_state (fst s) = STATE_OPERATION_PENDING) \<and>
     (pri_job_done (fst s) \<longleftrightarrow> pri_state (fst s) = STATE_DONE_PENDING) \<and>
     (let d = pri_job_operation_data (fst s); n = pri_mtu (fst s) in
      case pri_state (fst s) of
        STATE_NONE \<Rightarrow> ps = PIdle
      | STATE_OPERATION_PENDING \<Rightarrow> ps = PRequested d n
      | STATE_BUSY \<Rightarrow> ps = PBusy d n False
      | STATE_DONE_PENDING \<Rightarrow> ps = PBusy d n False \<and> packet_len_ok n (pri_job_done_len (fst s))))"

lemma pri_step_inv:
  assumes "pri_inv s" "pri_enabled s e"
  shows "\<exists>s'. pri_step s e = Some s' \<and> pri_inv s'"
  using assms
  by (cases s; cases e) (auto simp: pri_inv_def exec_append PacketRecvInterface_Receiver_Recv_def
      PacketRecvInterface_Done_def PacketRecvInterface_job_operation_def
      PacketRecvInterface_job_done_def emit_def Let_def packet_len_ok_def)

interpretation pri: machine pri_ready pri_step pri_enabled pri_inv
proof
  show "pri_inv s" if "pri_ready s" for s :: "'a PacketRecvInterface \<times> 'a entry list"
    using that by (simp add: pri_ready_def pri_inv_def)
qed (rule pri_step_inv)

section \<open>Properties\<close>

text \<open>
  C17. A packet-pass interface whose parties respect its calling rules never trips an assertion,
  and what they see follows the protocol: each packet is handed to the provider at most once and
  with the data it was sent with, each send is completed exactly once before the next one, and a
  cancel reaches the provider only while it is busy and at most once per packet.
\<close>

theorem packet_pass_protocol:
  assumes "PacketPassInterface_Init i0 mtu = Some i1"
    and "(if cc then PacketPassInterface_EnableCancel i1 else Some i1) = Some i2"
    and "PacketPassInterface_Sender_Init i2 = Some i3"
    and "admissible ppi_enabled ppi_step (i3, []) es"
  shows "\<exists>i tr ps. exec ppi_step (i3, []) es = Some (i, tr) \<and>
    exec (proto_step cc (\<lambda>_ _. True)) PIdle tr = Some ps \<and> (ppi_state i = STATE_NONE \<longleftrightarrow> ps = PIdle)"
proof -
  have "ppi_ready cc (i3, [])" using assms(1-3)
    by (auto simp: ppi_ready_def PacketPassInterface_Init_def PacketPassInterface_EnableCancel_def
        PacketPassInterface_Sender_Init_def split: if_splits)
  from ppi.run_safe [OF this assms(4)] obtain i tr
    where "exec ppi_step (i3, []) es = Some (i, tr)" "ppi_inv cc (i, tr)" by auto
  then show ?thesis by (cases "ppi_state i") (auto simp: ppi_inv_def)
qed

definition ppi_blank :: "bytes PacketPassInterface" where
  "ppi_blank = \<lparr>ppi_mtu = 7, ppi_handler_requestcancel = True, ppi_handler_done = True,
    ppi_job_operation = True, ppi_job_operation_data = None, ppi_job_operation_len = 9,
    ppi_job_requestcancel = True, ppi_job_done = True, ppi_state = STATE_BUSY,
    ppi_cancel_requested = True\<rparr>"

theorem packet_pass_protocol_witness:
  "\<exists>i tr ps. exec ppi_step (ppi_blank\<lparr>ppi_mtu := 10, ppi_state := STATE_NONE, ppi_job_operation := False,
      ppi_job_requestcancel := False, ppi_job_done := False\<rparr>, [])
      [UserRequest (Some [1, 2]) 2, JobOperation, UserCancel, JobCancel, ProviderDone 0, JobDone]
      = Some (i, tr) \<and>
    exec (proto_step True (\<lambda>_ _. True)) PIdle tr = Some ps \<and> (ppi_state i = STATE_NONE \<longleftrightarrow> ps = PIdle)"
  by (rule packet_pass_protocol [where ?i0.0 = ppi_blank and mtu = 10 and cc = True and
        ?i1.0 = "the (PacketPassInterface_Init ppi_blank 10)" and
        ?i2.0 = "the (PacketPassInterface_EnableCancel (the (PacketPassInterface_Init ppi_blank 10)))"])
    (simp_all add: ppi_blank_def PacketPassInterface_Init_def PacketPassInterface_EnableCancel_def
      PacketPassInterface_Sender_Init_def ppi_defs)

text \<open>
  The stream interfaces: with parties that respect the calling rules no assertion fails, and each
  request is served by exactly one call of the provider and one completion that carries between
  one and the requested number of bytes, before the next request.
\<close>

theorem stream_interfaces_protocol:
  assumes "StreamRecvInterface_Receiver_Init (StreamRecvInterface_Init i0) = Some i1"
    and "StreamPassInterface_Sender_Init (StreamPassInterface_Init j0) = Some j1"
    and "admissible sri_enabled sri_step (i1, []) es" "admissible sri_enabled spi_step (j1, []) fs"
  shows "\<exists>i tr ps j ts qs. exec sri_step (i1, []) es = Some (i, tr) \<and> exec spi_step (j1, []) fs = Some (j, ts) \<and>
    exec (proto_step False stream_len_ok) PIdle tr = Some ps \<and>
    exec (proto_step False stream_len_ok) PIdle ts = Some qs"
proof -
  have "sri_ready (i1, [])" "sri_ready (j1, [])" using assms(1,2)
    by (auto simp: sri_ready_def StreamRecvInterface_Init_def StreamRecvInterface_Receiver_Init_def
        StreamPassInterface_Init_def StreamPassInterface_Sender_Init_def)
  from sri.run_safe [OF this(1) assms(3)] spi.run_safe [OF this(2) assms(4)]
  show ?thesis by (auto simp: sri_inv_def)
qed

definition sri_blank :: "bytes StreamRecvInterface" where
  "sri_blank = \<lparr>sri_handler_done = True, sri_job_operation = False, sri_job_operation_data = None,
    sri_job_operation_len = 0, sri_job_done = False, sri_job_done_len = 0, sri_state = STATE_NONE\<rparr>"

theorem stream_interfaces_protocol_witness:
  "\<exists>i tr ps j ts qs.
    exec sri_step (sri_blank, []) [UserRequest (Some [0, 0]) 2, JobOperation, ProviderDone 1, JobDone] = Some (i, tr) \<and>
    exec spi_step (sri_blank, []) [UserRequest (Some [8]) 1, JobOperation] = Some (j, ts) \<and>
    exec (proto_step False stream_len_ok) PIdle tr = Some ps \<and>
    exec (proto_step False stream_len_ok) PIdle ts = Some qs"
  by (rule stream_interfaces_protocol [where ?i0.0 = sri_blank and ?j0.0 = sri_blank])
    (simp_all add: sri_blank_def StreamRecvInterface_Init_def StreamRecvInterface_Receiver_Init_def
      StreamPassInterface_Init_def StreamPassInterface_Sender_Init_def sri_defs)

end
