(* ===== verification/PacketProto.thy ===== *)
theory PacketProto
  imports BSize
begin

text \<open>
  Framing of packets on a stream: protocol/packetproto.h, flow/PacketProtoEncoder.c,
  flow/PacketStreamSender.c and flow/PacketProtoDecoder.c. A packet is a 16-bit little-endian
  length and that many bytes.

  Each handler returns the new state and, in the order of the code, the calls it makes on the
  interfaces around it. A pointer into a buffer of the component is an offset into it.
\<close>

section \<open>packetproto.h\<close>

abbreviation (input) PACKETPROTO_MAXPAYLOAD :: int where "PACKETPROTO_MAXPAYLOAD \<equiv> UINT16_MAX"

definition PACKETPROTO_ENCLEN :: "int \<Rightarrow> int" where
  "PACKETPROTO_ENCLEN len = 2 + len"

section \<open>PacketProtoEncoder.c\<close>

text \<open>
  \<open>ppe_output_packet\<close> is the buffer the output was asked to fill, \<open>None\<close> for \<^verbatim>\<open>NULL\<close>.
\<close>

record PacketProtoEncoder =
  ppe_input_mtu :: int
  ppe_output_mtu :: int
  ppe_output_packet :: "bytes option"

datatype encoder_call = EncInputRecv nat | EncOutputDone bytes int

definition Encoder_output_handler_recv ::
  "PacketProtoEncoder \<Rightarrow> bytes \<Rightarrow> (PacketProtoEncoder \<times> encoder_call list) option" where
  "Encoder_output_handler_recv enc data = do {
     ASSERT (ppe_output_packet enc = None);
     Some (enc\<lparr>ppe_output_packet := Some data\<rparr>, [EncInputRecv 2])
   }"

definition Encoder_input_handler_done ::
  "PacketProtoEncoder \<Rightarrow> int \<Rightarrow> (PacketProtoEncoder \<times> encoder_call list) option" where
  "Encoder_input_handler_done enc in_len = do {
     packet \<leftarrow> ppe_output_packet enc;
     packet \<leftarrow> mem_write packet 0 (mem16 (htol16 (word_of_int in_len)));
     Some (enc\<lparr>ppe_output_packet := None\<rparr>, [EncOutputDone packet (PACKETPROTO_ENCLEN in_len)])
   }"

definition PacketProtoEncoder_Init :: "int \<Rightarrow> PacketProtoEncoder option" where
  "PacketProtoEncoder_Init input_mtu = do {
     ASSERT (input_mtu \<le> PACKETPROTO_MAXPAYLOAD);
     Some \<lparr>ppe_input_mtu = input_mtu, ppe_output_mtu = PACKETPROTO_ENCLEN input_mtu,
       ppe_output_packet = None\<rparr>
   }"

text \<open>The input delivers a packet: it is written where the encoder asked for it.\<close>

definition encoder_input :: "PacketProtoEncoder \<Rightarrow> bytes \<Rightarrow> (PacketProtoEncoder \<times> encoder_call list) option" where
  "encoder_input enc p = do {
     packet \<leftarrow> ppe_output_packet enc;
     packet \<leftarrow> mem_write packet 2 p;
     Encoder_input_handler_done (enc\<lparr>ppe_output_packet := Some packet\<rparr>) (int (length p))
   }"

section \<open>PacketStreamSender.c\<close>

record PacketStreamSender =
  pss_in_len :: int
  pss_in :: bytes
  pss_in_used :: int

datatype sender_call = SndOutputSend bytes | SndInputDone

definition Sender_send_data :: "PacketStreamSender \<Rightarrow> (PacketStreamSender \<times> sender_call list) option" where
  "Sender_send_data s = do {
     ASSERT (pss_in_len s \<ge> 0);
     if pss_in_used s < pss_in_len s
     then do {
       d \<leftarrow> mem_read (pss_in s) (nat (pss_in_used s)) (nat (pss_in_len s - pss_in_used s));
       Some (s, [SndOutputSend d])
     }
     else Some (s\<lparr>pss_in_len := -1\<rparr>, [SndInputDone])
   }"

definition Sender_input_handler_send ::
  "PacketStreamSender \<Rightarrow> bytes \<Rightarrow> int \<Rightarrow> (PacketStreamSender \<times> sender_call list) option" where
  "Sender_input_handler_send s data data_len = do {
     ASSERT (pss_in_len s = -1);
     ASSERT (data_len \<ge> 0);
     Sender_send_data (s\<lparr>pss_in_len := data_len, pss_in := data, pss_in_used := 0\<rparr>)
   }"

definition Sender_output_handler_done ::
  "PacketStreamSender \<Rightarrow> int \<Rightarrow> (PacketStreamSender \<times> sender_call list) option" where
  "Sender_output_handler_done s data_len = do {
     ASSERT (pss_in_len s \<ge> 0);
     ASSERT (data_len > 0);
     ASSERT (data_len \<le> pss_in_len s - pss_in_used s);
     Sender_send_data (s\<lparr>pss_in_used := pss_in_used s + data_len\<rparr>)
   }"

text \<open>\<open>s\<close> is the uninitialised struct.\<close>

definition PacketStreamSender_Init :: "PacketStreamSender \<Rightarrow> int \<Rightarrow> PacketStreamSender option" where
  "PacketStreamSender_Init s mtu = do {
     ASSERT (mtu \<ge> 0);
     Some (s\<lparr>pss_in_len := -1\<rparr>)
   }"

section \<open>PacketProtoDecoder.c\<close>

record PacketProtoDecoder =
  ppd_output_mtu :: int
  ppd_buf_size :: int
  ppd_buf_start :: int
  ppd_buf_used :: int
  ppd_buf :: bytes

datatype decoder_call = DecSend bytes | DecRecv int int | DecError

text \<open>The part of \<^verbatim>\<open>process_data\<close> after its \<^verbatim>\<open>do { } while (0)\<close> block.\<close>

definition process_data_tail ::
  "PacketProtoDecoder \<Rightarrow> bool \<Rightarrow> (PacketProtoDecoder \<times> decoder_call list) option" where
  "process_data_tail enc was_error = do {
     enc \<leftarrow> (if was_error then Some (enc\<lparr>ppd_buf_start := 0, ppd_buf_used := 0\<rparr>)
       else if ppd_buf_start enc + ppd_buf_used enc = ppd_buf_size enc
       then do {
         d \<leftarrow> mem_read (ppd_buf enc) (nat (ppd_buf_start enc)) (nat (ppd_buf_used enc));
         b \<leftarrow> mem_write (ppd_buf enc) 0 d;
         Some (enc\<lparr>ppd_buf := b, ppd_buf_start := 0\<rparr>)
       }
       else Some enc);
     Some (enc, DecRecv (ppd_buf_start enc + ppd_buf_used enc)
         (ppd_buf_size enc - (ppd_buf_start enc + ppd_buf_used enc))
       # (if was_error then [DecError] else []))
   }"

definition process_data :: "PacketProtoDecoder \<Rightarrow> (PacketProtoDecoder \<times> decoder_call list) option" where
  "process_data enc = do {
     let data = ppd_buf_start enc;
     let left = ppd_buf_used enc;
     if left < 2 then process_data_tail enc False
     else do {
       header \<leftarrow> mem_read (ppd_buf enc) (nat data) 2;
       let data = data + 2;
       let left = left - 2;
       let data_len = uint (ltoh16 (of_mem16 header));
       if data_len > ppd_output_mtu enc then process_data_tail enc True
       else if left < data_len then process_data_tail enc False
       else do {
         payload \<leftarrow> mem_read (ppd_buf enc) (nat data) (nat data_len);
         Some (enc\<lparr>ppd_buf_start := ppd_buf_start enc + (2 + data_len),
                   ppd_buf_used := ppd_buf_used enc - (2 + data_len)\<rparr>, [DecSend payload])
       }
     }
   }"

definition Decoder_input_handler_done ::
  "PacketProtoDecoder \<Rightarrow> int \<Rightarrow> (PacketProtoDecoder \<times> decoder_call list) option" where
  "Decoder_input_handler_done enc data_len = do {
     ASSERT (data_len > 0);
     ASSERT (data_len \<le> ppd_buf_size enc - (ppd_buf_start enc + ppd_buf_used enc));
     process_data (enc\<lparr>ppd_buf_used := ppd_buf_used enc + data_len\<rparr>)
   }"

definition Decoder_output_handler_done ::
  "PacketProtoDecoder \<Rightarrow> (PacketProtoDecoder \<times> decoder_call list) option" where
  "Decoder_output_handler_done enc = process_data enc"

text \<open>
  \<open>alloc\<close> is what \<^verbatim>\<open>malloc\<close> returns for the buffer; the result is the return code with the
  initialised object.
\<close>

definition PacketProtoDecoder_Init ::
  "int \<Rightarrow> (int \<Rightarrow> bytes option) \<Rightarrow> (int \<times> PacketProtoDecoder \<times> decoder_call list) option" where
  "PacketProtoDecoder_Init out_mtu alloc =
     (let output_mtu = bmin_int out_mtu PACKETPROTO_MAXPAYLOAD;
          buf_size = PACKETPROTO_ENCLEN output_mtu in
      case alloc buf_size of
        None \<Rightarrow> Some (0, \<lparr>ppd_output_mtu = output_mtu, ppd_buf_size = buf_size, ppd_buf_start = 0,
            ppd_buf_used = 0, ppd_buf = []\<rparr>, [])
      | Some b \<Rightarrow> Some (1, \<lparr>ppd_output_mtu = output_mtu, ppd_buf_size = buf_size, ppd_buf_start = 0,
            ppd_buf_used = 0, ppd_buf = b\<rparr>, [DecRecv 0 buf_size]))"

definition PacketProtoDecoder_Reset :: "PacketProtoDecoder \<Rightarrow> PacketProtoDecoder" where
  "PacketProtoDecoder_Reset enc =
     enc\<lparr>ppd_buf_start := ppd_buf_start enc + ppd_buf_used enc, ppd_buf_used := 0\<rparr>"

section \<open>The format\<close>

definition pp_encode :: "bytes \<Rightarrow> bytes" where
  "pp_encode p = mem16 (htol16 (word_of_int (int (length p)))) @ p"

text \<open>
  The reference reader of a whole stream: its packets, what is left behind the last complete one, and whether
  the next header announces more than the MTU.
\<close>

function pp_parse :: "nat \<Rightarrow> bytes \<Rightarrow> bytes list \<times> bytes \<times> bool" where
  "pp_parse mtu bs =
     (if length bs < 2 then ([], bs, False)
      else let n = unat (of_mem16 (take 2 bs)) in
        if n > mtu then ([], bs, True)
        else if length bs - 2 < n then ([], bs, False)
        else let (ps, r, e) = pp_parse mtu (drop (2 + n) bs) in (take n (drop 2 bs) # ps, r, e))"
  by pat_completeness auto
termination
  by (relation "measure (\<lambda>(mtu, bs). length bs)") auto

declare pp_parse.simps [simp del]

lemma parse_short: "length bs < 2 \<Longrightarrow> pp_parse mtu bs = ([], bs, False)"
  by (simp add: pp_parse.simps)

lemma parse_large: "2 \<le> length bs \<Longrightarrow> mtu < unat (of_mem16 (take 2 bs)) \<Longrightarrow>
    pp_parse mtu bs = ([], bs, True)"
  by (simp add: pp_parse.simps)

lemma parse_incomplete: "2 \<le> length bs \<Longrightarrow> unat (of_mem16 (take 2 bs)) \<le> mtu \<Longrightarrow>
    length bs < 2 + unat (of_mem16 (take 2 bs)) \<Longrightarrow> pp_parse mtu bs = ([], bs, False)"
  by (subst pp_parse.simps) (auto simp: Let_def)

lemma parse_packet: "2 \<le> length bs \<Longrightarrow> n = unat (of_mem16 (take 2 bs)) \<Longrightarrow> n \<le> mtu \<Longrightarrow>
    2 + n \<le> length bs \<Longrightarrow> pp_parse mtu (drop (2 + n) bs) = (ps, r, e) \<Longrightarrow>
    pp_parse mtu bs = (take n (drop 2 bs) # ps, r, e)"
  by (subst pp_parse.simps) (auto simp: Let_def)

lemma parse_append:
  assumes "pp_parse mtu x = (ps, r, False)" "pp_parse mtu (r @ y) = (qs, r', e)"
  shows "pp_parse mtu (x @ y) = (ps @ qs, r', e)"
  using assms
proof (induction mtu x arbitrary: ps r rule: pp_parse.induct)
  case (1 mtu x)
  let ?n = "unat (of_mem16 (take 2 x))"
  show ?case
  proof (cases "2 \<le> length x \<and> ?n \<le> mtu \<and> 2 + ?n \<le> length x")
    case True
    obtain ps1 r1 e1 where rec: "pp_parse mtu (drop (2 + ?n) x) = (ps1, r1, e1)"
      by (metis prod_cases3)
    have "pp_parse mtu x = (take ?n (drop 2 x) # ps1, r1, e1)"
      using True rec by (intro parse_packet) auto
    with "1.prems" have eq: "ps = take ?n (drop 2 x) # ps1" "r = r1" "e1 = False" by auto
    have "pp_parse mtu (drop (2 + ?n) x @ y) = (ps1 @ qs, r', e)"
      using "1.IH" [OF _ refl _ _ rec [unfolded eq] "1.prems"(2) [unfolded eq]] True eq rec "1.prems"(2)
      by auto
    then have "pp_parse mtu (x @ y) = (take ?n (drop 2 (x @ y)) # ps1 @ qs, r', e)"
      using True by (intro parse_packet) auto
    then show ?thesis using True eq by simp
  next
    case False
    then have "ps = []" "r = x" using "1.prems"(1) by (auto simp: pp_parse.simps [of mtu x] Let_def split: if_splits)
    with "1.prems"(2) show ?thesis by simp
  qed
qed

lemma parse_encode:
  assumes "length p \<le> mtu" "length p \<le> 65535"
  shows "pp_parse mtu (pp_encode p @ y) = (case pp_parse mtu y of (ps, r, e) \<Rightarrow> (p # ps, r, e))"
proof -
  obtain ps r e where y: "pp_parse mtu y = (ps, r, e)" by (metis prod_cases3)
  have "unat (word_of_int (int (length p)) :: u16) = length p"
    using assms(2) by (simp add: unat_of_nat)
  then have "pp_parse mtu (pp_encode p @ y) = (take (length p) (drop 2 (pp_encode p @ y)) # ps, r, e)"
    using assms y by (intro parse_packet) (auto simp: pp_encode_def htol16_def)
  then show ?thesis by (simp add: y pp_encode_def)
qed

text \<open>Whatever part of an encoded stream has arrived, the packets read from it are the first ones sent.\<close>

lemma parse_encoded_prefix:
  assumes "\<forall>p \<in> set ps. length p \<le> mtu \<and> length p \<le> 65535" "x @ y = concat (map pp_encode ps)"
  shows "\<exists>r. pp_parse mtu x = (take (length (fst (pp_parse mtu x))) ps, r, False)"
  using assms
proof (induction ps arbitrary: x)
  case Nil
  then show ?case by (simp add: pp_parse.simps)
next
  case (Cons p ps)
  show ?case
  proof (cases "length (pp_encode p) \<le> length x")
    case True
    let ?x' = "drop (length (pp_encode p)) x"
    have "take (length (pp_encode p)) (x @ y) = pp_encode p"
      "drop (length (pp_encode p)) (x @ y) = concat (map pp_encode ps)"
      by (simp_all only: Cons.prems(2)) simp_all
    then have x: "x = pp_encode p @ ?x'" "?x' @ y = concat (map pp_encode ps)"
      using True append_take_drop_id [of "length (pp_encode p)" x] by simp_all
    from Cons.IH [OF _ x(2)] Cons.prems(1)
    obtain r where "pp_parse mtu ?x' = (take (length (fst (pp_parse mtu ?x'))) ps, r, False)" by auto
    moreover have "pp_parse mtu x = (case pp_parse mtu ?x' of (ps, r, e) \<Rightarrow> (p # ps, r, e))"
      using parse_encode [of p mtu ?x'] Cons.prems(1) x(1) by simp
    ultimately show ?thesis by (auto split: prod.splits)
  next
    case False
    have hd: "unat (word_of_int (int (length p)) :: u16) = length p"
      using Cons.prems(1) by (simp add: unat_of_nat)
    have "pp_parse mtu x = ([], x, False)"
    proof (cases "length x < 2")
      case long: False
      have "take 2 x = take 2 (x @ y)" using long by simp
      also have "\<dots> = take 2 (pp_encode p)" by (simp only: Cons.prems(2)) (simp add: pp_encode_def)
      finally have "take 2 x = take 2 (pp_encode p)" .
      then have "of_mem16 (take 2 x) = word_of_int (int (length p))"
        by (simp add: pp_encode_def htol16_def)
      then show ?thesis using Cons.prems(1) hd long False
        by (intro parse_incomplete) (auto simp: pp_encode_def)
    qed (simp add: parse_short)
    then show ?thesis by simp
  qed
qed

section \<open>The encoder produces the format\<close>

lemma encoder_round:
  assumes "PacketProtoEncoder_Init mtu = Some enc" "int (length p) \<le> mtu"
    and "int (length data) = ppe_output_mtu enc"
  shows "\<exists>enc1 out. Encoder_output_handler_recv enc data = Some (enc1, [EncInputRecv 2]) \<and>
    encoder_input enc1 p = Some (enc, [EncOutputDone out (PACKETPROTO_ENCLEN (int (length p)))]) \<and>
    take (nat (PACKETPROTO_ENCLEN (int (length p)))) out = pp_encode p"
  using assms
  by (auto simp: PacketProtoEncoder_Init_def Encoder_output_handler_recv_def encoder_input_def
      Encoder_input_handler_done_def PACKETPROTO_ENCLEN_def mem_write_def pp_encode_def nat_add_distrib)

section \<open>The sender as a machine\<close>

text \<open>
  The environment hands in a packet when the previous one is done, and the stream accepts some
  bytes of the data it was last given. Ghost fields: the stream accepted so far, and the packets taken.
\<close>

record sender_state =
  snd_sender :: PacketStreamSender
  snd_output :: "bytes option"
  snd_stream :: bytes
  snd_packets :: "bytes list"

datatype sender_event = SndPacket bytes | SndAccepted nat

fun sender_apply :: "sender_call list \<Rightarrow> sender_state \<Rightarrow> sender_state" where
  "sender_apply [] s = s"
| "sender_apply (SndOutputSend d # cs) s = sender_apply cs (s\<lparr>snd_output := Some d\<rparr>)"
| "sender_apply (SndInputDone # cs) s = sender_apply cs (s\<lparr>snd_output := None\<rparr>)"

fun sender_step :: "sender_state \<Rightarrow> sender_event \<Rightarrow> sender_state option" where
  "sender_step s (SndPacket p) =
     map_option (\<lambda>(sn, cs). sender_apply cs (s\<lparr>snd_sender := sn, snd_packets := snd_packets s @ [p]\<rparr>))
       (Sender_input_handler_send (snd_sender s) p (int (length p)))"
| "sender_step s (SndAccepted k) =
     map_option (\<lambda>(sn, cs). sender_apply cs (s\<lparr>snd_sender := sn,
         snd_stream := snd_stream s @ take k (the (snd_output s))\<rparr>))
       (Sender_output_handler_done (snd_sender s) (int k))"

fun sender_enabled :: "sender_state \<Rightarrow> sender_event \<Rightarrow> bool" where
  "sender_enabled s (SndPacket p) \<longleftrightarrow> snd_output s = None"
| "sender_enabled s (SndAccepted k) \<longleftrightarrow>
     (case snd_output s of None \<Rightarrow> False | Some d \<Rightarrow> 0 < k \<and> k \<le> length d)"

definition sender_init :: "sender_state \<Rightarrow> bool" where
  "sender_init s \<longleftrightarrow> (\<exists>raw mtu. Some (snd_sender s) = PacketStreamSender_Init raw mtu) \<and>
     snd_output s = None \<and> snd_stream s = [] \<and> snd_packets s = []"

definition sender_inv :: "sender_state \<Rightarrow> bool" where
  "sender_inv s \<longleftrightarrow>
     (let sn = snd_sender s in
      case snd_output s of
        None \<Rightarrow> pss_in_len sn = -1 \<and> snd_stream s = concat (snd_packets s)
      | Some d \<Rightarrow> (\<exists>ps. snd_packets s = ps @ [pss_in sn] \<and>
          pss_in_len sn = int (length (pss_in sn)) \<and> 0 \<le> pss_in_used sn \<and> pss_in_used sn < pss_in_len sn \<and>
          d = drop (nat (pss_in_used sn)) (pss_in sn) \<and>
          snd_stream s = concat ps @ take (nat (pss_in_used sn)) (pss_in sn)))"

lemmas sender_defs = Sender_send_data_def Sender_input_handler_send_def Sender_output_handler_done_def

lemma sender_step_inv:
  assumes "sender_inv s" "sender_enabled s e"
  shows "\<exists>s'. sender_step s e = Some s' \<and> sender_inv s'"
proof (cases e)
  case (SndPacket p)
  with assms show ?thesis
    by (cases "p = []") (auto simp: sender_inv_def sender_defs mem_read_def Let_def)
next
  case (SndAccepted k)
  with assms obtain d ps where d: "snd_output s = Some d" "0 < k" "k \<le> length d"
    "snd_packets s = ps @ [pss_in (snd_sender s)]"
    "pss_in_len (snd_sender s) = int (length (pss_in (snd_sender s)))"
    "0 \<le> pss_in_used (snd_sender s)" "pss_in_used (snd_sender s) < pss_in_len (snd_sender s)"
    "d = drop (nat (pss_in_used (snd_sender s))) (pss_in (snd_sender s))"
    "snd_stream s = concat ps @ take (nat (pss_in_used (snd_sender s))) (pss_in (snd_sender s))"
    by (auto simp: sender_inv_def Let_def split: option.splits)
  have k: "take (nat (pss_in_used (snd_sender s) + int k)) (pss_in (snd_sender s)) =
      take (nat (pss_in_used (snd_sender s))) (pss_in (snd_sender s)) @ take k d"
    using d(6) by (simp add: d(8) nat_add_distrib take_add)
  show ?thesis
  proof (cases "k = length d")
    case True
    then have "pss_in_used (snd_sender s) + int k = pss_in_len (snd_sender s)"
      using d by auto
    with True SndAccepted d k show ?thesis
      by (auto simp: sender_inv_def sender_defs Let_def)
  next
    case False
    then have "pss_in_used (snd_sender s) + int k < pss_in_len (snd_sender s)"
      using d by auto
    with False SndAccepted d k show ?thesis
      by (auto simp: sender_inv_def sender_defs Let_def mem_read_def take_all)
  qed
qed

interpretation stream_sender: machine sender_init sender_step sender_enabled sender_inv
proof
  show "sender_inv s" if "sender_init s" for s
    using that by (auto simp: sender_init_def sender_inv_def PacketStreamSender_Init_def ASSERT_def split: if_splits)
qed (rule sender_step_inv)

section \<open>The decoder as a machine\<close>

text \<open>
  The stream delivers some bytes into the area the decoder asked for, or the packet that is being
  passed on is done; the user may also reset the decoder. Ghost fields: the bytes received since the
  last reset, the packets passed on and whether the error handler was called (then both stop growing).
\<close>

record decoder_state =
  dcs_dec :: PacketProtoDecoder
  dcs_recv :: "(int \<times> int) option"
  dcs_sending :: bool
  dcs_stream :: bytes
  dcs_delivered :: "bytes list"
  dcs_error :: bool

datatype decoder_event = DecArrive bytes | DecSent | DecReset

text \<open>The calls as the interfaces take them: \<^verbatim>\<open>Receiver_Recv\<close> asserts a positive length and an idle
  interface, \<^verbatim>\<open>Sender_Send\<close> a length within the MTU and an idle interface.\<close>

fun decoder_apply :: "decoder_call list \<Rightarrow> decoder_state \<Rightarrow> decoder_state option" where
  "decoder_apply [] s = Some s"
| "decoder_apply (DecRecv off n # cs) s = do {
     ASSERT (n > 0);
     ASSERT (dcs_recv s = None);
     decoder_apply cs (s\<lparr>dcs_recv := Some (off, n)\<rparr>)
   }"
| "decoder_apply (DecSend p # cs) s = do {
     ASSERT (int (length p) \<le> ppd_output_mtu (dcs_dec s));
     ASSERT (\<not> dcs_sending s);
     decoder_apply cs (s\<lparr>dcs_sending := True,
       dcs_delivered := (if dcs_error s then dcs_delivered s else dcs_delivered s @ [p])\<rparr>)
   }"
| "decoder_apply (DecError # cs) s = decoder_apply cs (s\<lparr>dcs_error := True\<rparr>)"

fun decoder_step :: "decoder_state \<Rightarrow> decoder_event \<Rightarrow> decoder_state option" where
  "decoder_step s (DecArrive c) = do {
     (off, n) \<leftarrow> dcs_recv s;
     b \<leftarrow> mem_write (ppd_buf (dcs_dec s)) (nat off) c;
     (dec, cs) \<leftarrow> Decoder_input_handler_done ((dcs_dec s)\<lparr>ppd_buf := b\<rparr>) (int (length c));
     decoder_apply cs (s\<lparr>dcs_recv := None,
       dcs_stream := (if dcs_error s then dcs_stream s else dcs_stream s @ c), dcs_dec := dec\<rparr>)
   }"
| "decoder_step s DecSent = do {
     (dec, cs) \<leftarrow> Decoder_output_handler_done (dcs_dec s);
     decoder_apply cs (s\<lparr>dcs_sending := False, dcs_dec := dec\<rparr>)
   }"
| "decoder_step s DecReset =
     Some (s\<lparr>dcs_dec := PacketProtoDecoder_Reset (dcs_dec s), dcs_stream := [], dcs_delivered := [],
       dcs_error := False\<rparr>)"

fun decoder_enabled :: "decoder_state \<Rightarrow> decoder_event \<Rightarrow> bool" where
  "decoder_enabled s (DecArrive c) \<longleftrightarrow>
     (case dcs_recv s of None \<Rightarrow> False | Some (off, n) \<Rightarrow> c \<noteq> [] \<and> int (length c) \<le> n)"
| "decoder_enabled s DecSent \<longleftrightarrow> dcs_sending s"
| "decoder_enabled s DecReset \<longleftrightarrow> True"

definition dec_ok :: "PacketProtoDecoder \<Rightarrow> bool" where
  "dec_ok d \<longleftrightarrow> 0 \<le> ppd_output_mtu d \<and> ppd_output_mtu d \<le> PACKETPROTO_MAXPAYLOAD \<and>
     ppd_buf_size d = 2 + ppd_output_mtu d \<and> int (length (ppd_buf d)) = ppd_buf_size d \<and>
     0 \<le> ppd_buf_start d \<and> 0 \<le> ppd_buf_used d \<and> ppd_buf_start d + ppd_buf_used d \<le> ppd_buf_size d"

definition dec_pending :: "PacketProtoDecoder \<Rightarrow> bytes" where
  "dec_pending d = take (nat (ppd_buf_used d)) (drop (nat (ppd_buf_start d)) (ppd_buf d))"

definition dec_parse :: "PacketProtoDecoder \<Rightarrow> bytes \<Rightarrow> bytes list \<times> bytes \<times> bool" where
  "dec_parse d bs = pp_parse (nat (ppd_output_mtu d)) bs"

lemma dec_pending_length: "dec_ok d \<Longrightarrow> int (length (dec_pending d)) = ppd_buf_used d"
  by (auto simp: dec_ok_def dec_pending_def min_def)

text \<open>What \<^verbatim>\<open>process_data\<close> does, said by the reference reader on the buffered bytes.\<close>

lemma process_tail_ok:
  assumes ok: "dec_ok d" and less: "ppd_buf_used d < ppd_buf_size d"
  shows "\<exists>d' off n. process_data_tail d False = Some (d', [DecRecv off n]) \<and> dec_ok d' \<and>
    dec_pending d' = dec_pending d \<and> ppd_output_mtu d' = ppd_output_mtu d \<and> 0 < n \<and>
    off = ppd_buf_start d' + ppd_buf_used d' \<and> n = ppd_buf_size d' - off"
proof (cases "ppd_buf_start d + ppd_buf_used d = ppd_buf_size d")
  case True
  let ?u = "nat (ppd_buf_used d)" and ?b = "ppd_buf d"
  have l: "nat (ppd_buf_start d) + ?u \<le> length ?b" "length (take ?u (drop (nat (ppd_buf_start d)) ?b)) = ?u"
    "?u \<le> length ?b"
    using ok by (auto simp: dec_ok_def)
  then have "mem_read ?b (nat (ppd_buf_start d)) ?u = Some (dec_pending d)"
    by (simp add: mem_read_def dec_pending_def)
  moreover have "mem_write ?b 0 (dec_pending d) = Some (dec_pending d @ drop ?u ?b)"
    using l by (simp add: mem_write_def dec_pending_def)
  ultimately show ?thesis using True ok less l
    by (auto simp: process_data_tail_def dec_ok_def dec_pending_def)
next
  case False
  with ok show ?thesis by (auto simp: process_data_tail_def dec_ok_def)
qed

lemma process_tail_error:
  assumes ok: "dec_ok d"
  shows "\<exists>d' off n. process_data_tail d True = Some (d', [DecRecv off n, DecError]) \<and> dec_ok d' \<and>
    dec_pending d' = [] \<and> ppd_output_mtu d' = ppd_output_mtu d \<and> 0 < n \<and>
    off = ppd_buf_start d' + ppd_buf_used d' \<and> n = ppd_buf_size d' - off"
  using ok by (auto simp: process_data_tail_def dec_ok_def dec_pending_def)

lemma decoder_read:
  assumes "dec_ok d" "int (k + m) \<le> ppd_buf_used d"
  shows "mem_read (ppd_buf d) (nat (ppd_buf_start d + int k)) m = Some (take m (drop k (dec_pending d)))"
proof -
  have "nat (ppd_buf_start d + int k) = nat (ppd_buf_start d) + k"
    and "nat (ppd_buf_start d) + k + m \<le> length (ppd_buf d)" and "m \<le> nat (ppd_buf_used d) - k"
    using assms by (auto simp: dec_ok_def nat_add_distrib)
  then show ?thesis by (simp add: mem_read_def dec_pending_def drop_take min_def ac_simps)
qed

lemma dec_advance:
  fixes n :: nat
  assumes "dec_ok d" "int n \<le> ppd_buf_used d"
  defines "d' \<equiv> d\<lparr>ppd_buf_start := ppd_buf_start d + int n, ppd_buf_used := ppd_buf_used d - int n\<rparr>"
  shows "dec_ok d'" "dec_pending d' = drop n (dec_pending d)"
proof -
  show "dec_ok d'" using assms by (auto simp: dec_ok_def)
  have "nat (ppd_buf_start d + int n) = nat (ppd_buf_start d) + n"
    "nat (ppd_buf_used d - int n) = nat (ppd_buf_used d) - n"
    using assms(1,2) by (auto simp: dec_ok_def)
  then show "dec_pending d' = drop n (dec_pending d)"
    by (simp add: d'_def dec_pending_def drop_take add.commute)
qed

definition asks :: "PacketProtoDecoder \<Rightarrow> int \<Rightarrow> int \<Rightarrow> bool" where
  "asks d off n \<longleftrightarrow> 0 < n \<and> off = ppd_buf_start d + ppd_buf_used d \<and> n = ppd_buf_size d - off"

lemma process_data_cases:
  assumes ok: "dec_ok d"
  obtains (more) d' off n where "process_data d = Some (d', [DecRecv off n])" "dec_ok d'"
      "dec_pending d' = dec_pending d" "ppd_output_mtu d' = ppd_output_mtu d" "asks d' off n"
      "dec_parse d (dec_pending d) = ([], dec_pending d, False)"
  | (error) d' off n where "process_data d = Some (d', [DecRecv off n, DecError])" "dec_ok d'"
      "dec_pending d' = []" "ppd_output_mtu d' = ppd_output_mtu d" "asks d' off n"
      "dec_parse d (dec_pending d) = ([], dec_pending d, True)"
  | (packet) d' p where "process_data d = Some (d', [DecSend p])" "dec_ok d'"
      "ppd_output_mtu d' = ppd_output_mtu d" "int (length p) \<le> ppd_output_mtu d"
      "dec_parse d (dec_pending d) =
        (case dec_parse d (dec_pending d') of (ps, r, e) \<Rightarrow> (p # ps, r, e))"
proof -
  let ?p = "dec_pending d" and ?mtu = "nat (ppd_output_mtu d)"
  let ?n = "unat (of_mem16 (take 2 ?p))"
  have len: "int (length ?p) = ppd_buf_used d" using dec_pending_length [OF ok] .
  have sz: "ppd_buf_size d = 2 + ppd_output_mtu d" "0 \<le> ppd_output_mtu d"
    using ok by (auto simp: dec_ok_def)
  have hdr: "mem_read (ppd_buf d) (nat (ppd_buf_start d)) 2 = Some (take 2 ?p)" if "2 \<le> length ?p"
    using decoder_read [OF ok, of 0 2] that len by simp
  have n: "uint (ltoh16 (of_mem16 (take 2 ?p))) = int ?n"
    by (simp add: ltoh16_def htol16_def)
  consider "length ?p < 2" | "2 \<le> length ?p" "?mtu < ?n"
    | "2 \<le> length ?p" "?n \<le> ?mtu" "length ?p < 2 + ?n"
    | "2 \<le> length ?p" "?n \<le> ?mtu" "2 + ?n \<le> length ?p" by linarith
  then show thesis
  proof cases
    case 1
    then have "ppd_buf_used d < ppd_buf_size d" using len sz by linarith
    then obtain d' off n where t: "process_data_tail d False = Some (d', [DecRecv off n])" "dec_ok d'"
      "dec_pending d' = dec_pending d" "ppd_output_mtu d' = ppd_output_mtu d" "asks d' off n"
      using process_tail_ok [OF ok] unfolding asks_def by blast
    have "process_data d = Some (d', [DecRecv off n])" using 1 len t(1) by (simp add: process_data_def)
    then show thesis using more t(2-5) 1 parse_short unfolding dec_parse_def by blast
  next
    case 2
    then have "ppd_output_mtu d < int ?n" using sz by linarith
    moreover obtain d' off n where t: "process_data_tail d True = Some (d', [DecRecv off n, DecError])" "dec_ok d'"
      "dec_pending d' = []" "ppd_output_mtu d' = ppd_output_mtu d" "asks d' off n"
      using process_tail_error [OF ok] unfolding asks_def by blast
    ultimately have "process_data d = Some (d', [DecRecv off n, DecError])"
      using 2 len hdr n by (simp add: process_data_def Let_def)
    then show thesis using error t(2-5) 2 parse_large unfolding dec_parse_def by blast
  next
    case 3
    then have "ppd_buf_used d < ppd_buf_size d" "int ?n \<le> ppd_output_mtu d" "ppd_buf_used d - 2 < int ?n"
      using len sz by linarith+
    moreover from this obtain d' off n where t: "process_data_tail d False = Some (d', [DecRecv off n])"
      "dec_ok d'" "dec_pending d' = dec_pending d" "ppd_output_mtu d' = ppd_output_mtu d" "asks d' off n"
      using process_tail_ok [OF ok] unfolding asks_def by blast
    ultimately have "process_data d = Some (d', [DecRecv off n])"
      using 3 len hdr n by (simp add: process_data_def Let_def)
    then show thesis using more t(2-5) 3 parse_incomplete unfolding dec_parse_def by blast
  next
    case 4
    let ?d = "d\<lparr>ppd_buf_start := ppd_buf_start d + (2 + int ?n), ppd_buf_used := ppd_buf_used d - (2 + int ?n)\<rparr>"
    have b: "int ?n \<le> ppd_output_mtu d" "\<not> ppd_buf_used d - 2 < int ?n" "\<not> ppd_buf_used d < 2"
      using 4 len sz by linarith+
    have ok': "dec_ok ?d" and pend: "dec_pending ?d = drop (2 + ?n) ?p"
      using dec_advance [OF ok, of "2 + ?n"] b by simp_all
    have pay: "mem_read (ppd_buf d) (nat (ppd_buf_start d + 2)) ?n = Some (take ?n (drop 2 ?p))"
      using decoder_read [OF ok, of 2 ?n] b by simp
    obtain ps r e where rest: "dec_parse d (dec_pending ?d) = (ps, r, e)" by (metis prod_cases3)
    have "dec_parse d ?p = (take ?n (drop 2 ?p) # ps, r, e)"
      using 4 rest unfolding dec_parse_def pend by (intro parse_packet) auto
    moreover have "process_data d = Some (?d, [DecSend (take ?n (drop 2 ?p))])"
      using hdr 4(1) n b pay by (simp add: process_data_def Let_def)
    ultimately show thesis using packet [of ?d "take ?n (drop 2 ?p)"] ok' b rest 4 by simp
  qed
qed

text \<open>The packets passed on and those still in the buffer are what the reference reader finds.\<close>

definition dec_agrees :: "PacketProtoDecoder \<Rightarrow> decoder_state \<Rightarrow> bool" where
  "dec_agrees d s \<longleftrightarrow>
     (if dcs_error s then \<exists>r. dec_parse d (dcs_stream s) = (dcs_delivered s, r, True)
      else dec_parse d (dcs_stream s) =
        (case dec_parse d (dec_pending d) of (ps, r, e) \<Rightarrow> (dcs_delivered s @ ps, r, e)))"

definition decoder_inv :: "int \<Rightarrow> decoder_state \<Rightarrow> bool" where
  "decoder_inv m s \<longleftrightarrow> ppd_output_mtu (dcs_dec s) = m \<and> dec_ok (dcs_dec s) \<and> dec_agrees (dcs_dec s) s \<and>
     (if dcs_sending s then dcs_recv s = None
      else (\<exists>off n. dcs_recv s = Some (off, n) \<and> asks (dcs_dec s) off n) \<and>
        (dcs_error s \<or> dec_parse (dcs_dec s) (dec_pending (dcs_dec s)) = ([], dec_pending (dcs_dec s), False)))"

lemma decoder_process:
  assumes ok: "dec_ok d" and idle: "dcs_recv s = None" "\<not> dcs_sending s" and ag: "dec_agrees d s"
    and m: "ppd_output_mtu d = m"
  shows "\<exists>s'. do { (dec, cs) \<leftarrow> process_data d; decoder_apply cs (s\<lparr>dcs_dec := dec\<rparr>) } = Some s' \<and>
    decoder_inv m s'"
  using ok
proof (cases rule: process_data_cases)
  case (more d' off n)
  then show ?thesis using idle ag m
    by (auto simp: decoder_inv_def dec_agrees_def dec_parse_def asks_def)
next
  case (error d' off n)
  then show ?thesis using idle ag m
    by (cases "dcs_error s") (auto simp: decoder_inv_def dec_agrees_def dec_parse_def asks_def)
next
  case (packet d' p)
  then show ?thesis using idle ag m
    by (auto simp: decoder_inv_def dec_agrees_def dec_parse_def split: prod.splits)
qed

lemma dec_arrive:
  assumes ok: "dec_ok d" and a: "asks d off n" and c: "int (length c) \<le> n"
    and b: "mem_write (ppd_buf d) (nat off) c = Some b"
  defines "d' \<equiv> d\<lparr>ppd_buf := b, ppd_buf_used := ppd_buf_used d + int (length c)\<rparr>"
  shows "dec_ok d'" "dec_pending d' = dec_pending d @ c"
proof -
  show "dec_ok d'"
    using ok a c mem_write_length [OF b] by (auto simp: d'_def dec_ok_def asks_def)
  have off: "nat off = nat (ppd_buf_start d) + nat (ppd_buf_used d)"
    "nat (ppd_buf_used d + int (length c)) = nat (ppd_buf_used d) + length c"
    "nat off + length c \<le> length (ppd_buf d)"
    using ok a c by (auto simp: dec_ok_def asks_def nat_add_distrib)
  then show "dec_pending d' = dec_pending d @ c"
    using b by (auto simp: d'_def dec_pending_def mem_write_def take_drop ac_simps)
qed

lemma dec_arrive_write:
  assumes "dec_ok d" "asks d off n" "int (length c) \<le> n"
  obtains b where "mem_write (ppd_buf d) (nat off) c = Some b"
proof -
  have "nat off + length c \<le> length (ppd_buf d)" using assms by (auto simp: dec_ok_def asks_def)
  then show thesis using that by (simp add: mem_write_def)
qed

lemma decoder_step_inv:
  assumes inv: "decoder_inv m s" and en: "decoder_enabled s e"
  shows "\<exists>s'. decoder_step s e = Some s' \<and> decoder_inv m s'"
proof (cases e)
  case (DecArrive c)
  let ?d = "dcs_dec s"
  obtain off n where r: "dcs_recv s = Some (off, n)" "asks ?d off n" "c \<noteq> []" "int (length c) \<le> n"
    and ns: "\<not> dcs_sending s" and ok: "dec_ok ?d" and ag: "dec_agrees ?d s" and m: "ppd_output_mtu ?d = m"
    and wait: "dcs_error s \<or> dec_parse ?d (dec_pending ?d) = ([], dec_pending ?d, False)"
    using inv en DecArrive by (auto simp: decoder_inv_def split: option.splits if_splits)
  obtain b where b: "mem_write (ppd_buf ?d) (nat off) c = Some b" using dec_arrive_write [OF ok r(2,4)] .
  let ?d' = "?d\<lparr>ppd_buf := b, ppd_buf_used := ppd_buf_used ?d + int (length c)\<rparr>"
  let ?s = "s\<lparr>dcs_recv := None, dcs_stream := (if dcs_error s then dcs_stream s else dcs_stream s @ c)\<rparr>"
  note ok' = dec_arrive [OF ok r(2,4) b]
  have "dec_agrees ?d' ?s"
  proof (cases "dcs_error s")
    case False
    obtain ps r e where pr: "dec_parse ?d (dec_pending ?d @ c) = (ps, r, e)" by (metis prod_cases3)
    have "dec_parse ?d (dcs_stream s) = (dcs_delivered s, dec_pending ?d, False)"
      using ag wait False by (simp add: dec_agrees_def)
    then have "dec_parse ?d (dcs_stream s @ c) = (dcs_delivered s @ ps, r, e)"
      using pr parse_append unfolding dec_parse_def by blast
    then show ?thesis using False ok'(2) pr by (simp add: dec_agrees_def dec_parse_def)
  qed (use ag in \<open>simp add: dec_agrees_def dec_parse_def\<close>)
  from decoder_process [OF ok'(1) _ _ this, of m] ns m
  obtain s' where "do { (dec, cs) \<leftarrow> process_data ?d'; decoder_apply cs (?s\<lparr>dcs_dec := dec\<rparr>) } = Some s'"
    "decoder_inv m s'" by auto
  moreover have "Decoder_input_handler_done (?d\<lparr>ppd_buf := b\<rparr>) (int (length c)) = process_data ?d'"
    using r by (auto simp: Decoder_input_handler_done_def asks_def)
  ultimately show ?thesis using DecArrive r(1) b by simp
next
  case DecSent
  then have "dec_ok (dcs_dec s)" "dec_agrees (dcs_dec s) (s\<lparr>dcs_sending := False\<rparr>)" "dcs_recv s = None"
    "ppd_output_mtu (dcs_dec s) = m"
    using inv en by (auto simp: decoder_inv_def dec_agrees_def)
  from decoder_process [OF this(1) _ _ this(2), of m] this(3,4) DecSent show ?thesis
    by (simp add: Decoder_output_handler_done_def)
next
  case DecReset
  then show ?thesis using inv
    by (auto simp: decoder_inv_def dec_agrees_def dec_parse_def PacketProtoDecoder_Reset_def dec_ok_def
        dec_pending_def parse_short asks_def)
qed

text \<open>A decoder whose buffer was allocated, with the first receive it has started.\<close>

definition decoder_init :: "int \<Rightarrow> decoder_state \<Rightarrow> bool" where
  "decoder_init out_mtu s \<longleftrightarrow> 0 \<le> out_mtu \<and>
     (\<exists>alloc off n. (\<forall>k b. alloc k = Some b \<longrightarrow> int (length b) = k) \<and>
        Some (1, dcs_dec s, [DecRecv off n]) = PacketProtoDecoder_Init out_mtu alloc \<and>
        dcs_recv s = Some (off, n)) \<and>
     \<not> dcs_sending s \<and> dcs_stream s = [] \<and> dcs_delivered s = [] \<and> \<not> dcs_error s"

interpretation decoder: machine "decoder_init out_mtu" decoder_step decoder_enabled
  "decoder_inv (bmin_int out_mtu PACKETPROTO_MAXPAYLOAD)" for out_mtu
proof
  show "decoder_inv (bmin_int out_mtu PACKETPROTO_MAXPAYLOAD) s" if "decoder_init out_mtu s" for s
    using that
    by (auto simp: decoder_init_def decoder_inv_def PacketProtoDecoder_Init_def dec_ok_def asks_def
        dec_agrees_def dec_parse_def dec_pending_def parse_short bmin_int_def PACKETPROTO_ENCLEN_def
        Let_def split: option.splits)
qed (rule decoder_step_inv)

section \<open>Runs\<close>

fun arrived :: "decoder_event list \<Rightarrow> bytes" where
  "arrived [] = []"
| "arrived (DecArrive c # es) = c @ arrived es"
| "arrived (_ # es) = arrived es"

fun submitted :: "sender_event list \<Rightarrow> bytes list" where
  "submitted [] = []"
| "submitted (SndPacket p # es) = p # submitted es"
| "submitted (_ # es) = submitted es"

lemma decoder_apply_stream:
  "decoder_apply cs s = Some s' \<Longrightarrow> dcs_stream s' = dcs_stream s \<and> (dcs_error s \<longrightarrow> dcs_error s')"
  by (induction cs s rule: decoder_apply.induct) (auto simp: bind_eq_Some_conv)

lemma decoder_step_stream:
  assumes "decoder_step s e = Some s'" "e \<noteq> DecReset"
  shows "(dcs_error s \<longrightarrow> dcs_error s' \<and> dcs_stream s' = dcs_stream s) \<and>
    (\<not> dcs_error s \<longrightarrow> dcs_stream s' = dcs_stream s @ arrived [e])"
  using assms by (cases e) (auto simp: bind_eq_Some_conv dest: decoder_apply_stream)

lemma decoder_exec_stream:
  assumes "exec decoder_step s es = Some s'" "DecReset \<notin> set es"
  shows "\<exists>rest. dcs_stream s @ (if dcs_error s then [] else arrived es) = dcs_stream s' @ rest \<and>
    (\<not> dcs_error s' \<longrightarrow> rest = []) \<and> (dcs_error s \<longrightarrow> dcs_error s')"
  using assms
proof (induction es arbitrary: s)
  case Nil
  then show ?case by auto
next
  case (Cons e es)
  then obtain s1 where s1: "decoder_step s e = Some s1" "exec decoder_step s1 es = Some s'"
    by (auto split: option.splits)
  have e: "e \<noteq> DecReset" using Cons.prems(2) by auto
  have split: "arrived (e # es) = arrived [e] @ arrived es" using e by (cases e) auto
  obtain rest where ih: "dcs_stream s1 @ (if dcs_error s1 then [] else arrived es) = dcs_stream s' @ rest"
    "\<not> dcs_error s' \<longrightarrow> rest = []" "dcs_error s1 \<longrightarrow> dcs_error s'"
    using Cons.IH [OF s1(2)] Cons.prems(2) by auto
  note st = decoder_step_stream [OF s1(1) e]
  show ?case
  proof (cases "\<not> dcs_error s \<and> dcs_error s1")
    case True
    with ih st split show ?thesis by (intro exI [of _ "rest @ arrived es"]) (simp flip: append_assoc)
  next
    case False
    with ih st split show ?thesis by (intro exI [of _ rest]) auto
  qed
qed

lemma parse_error_append: "pp_parse mtu x = (ps, r, True) \<Longrightarrow> pp_parse mtu (x @ y) = (ps, r @ y, True)"
proof (induction mtu x arbitrary: ps r rule: pp_parse.induct)
  case (1 mtu x)
  let ?n = "unat (of_mem16 (take 2 x))"
  show ?case
  proof (cases "2 \<le> length x \<and> ?n \<le> mtu \<and> 2 + ?n \<le> length x")
    case True
    obtain ps1 r1 e1 where rec: "pp_parse mtu (drop (2 + ?n) x) = (ps1, r1, e1)"
      by (metis prod_cases3)
    have "pp_parse mtu x = (take ?n (drop 2 x) # ps1, r1, e1)"
      using True rec by (intro parse_packet) auto
    with "1.prems" have eq: "ps = take ?n (drop 2 x) # ps1" "r = r1" "e1 = True" by auto
    have "pp_parse mtu (drop (2 + ?n) x @ y) = (ps1, r @ y, True)"
      using "1.IH" [OF _ refl _ _ rec [unfolded eq]] True eq by auto
    then have "pp_parse mtu (x @ y) = (take ?n (drop 2 (x @ y)) # ps1, r @ y, True)"
      using True by (intro parse_packet) auto
    then show ?thesis using True eq by simp
  next
    case False
    then have "ps = []" "r = x" "2 \<le> length x" "mtu < ?n"
      using "1.prems" by (auto simp: pp_parse.simps [of mtu x] Let_def split: if_splits)
    then show ?thesis by (simp add: parse_large)
  qed
qed

lemma decoder_run:
  assumes "decoder_init out_mtu s" "admissible decoder_enabled decoder_step s es" "DecReset \<notin> set es"
  obtains s' where "exec decoder_step s es = Some s'" "decoder_inv (bmin_int out_mtu PACKETPROTO_MAXPAYLOAD) s'"
    "\<not> dcs_error s' \<Longrightarrow> dcs_stream s' = arrived es"
    "dcs_error s' \<Longrightarrow> \<exists>rest. arrived es = dcs_stream s' @ rest"
proof -
  obtain s' where s': "exec decoder_step s es = Some s'" "decoder_inv (bmin_int out_mtu PACKETPROTO_MAXPAYLOAD) s'"
    using decoder.run_safe [OF assms(1,2)] by blast
  have "dcs_stream s = []" "\<not> dcs_error s" using assms(1) by (auto simp: decoder_init_def)
  with decoder_exec_stream [OF s'(1) assms(3)] that [OF s'] show thesis by auto
qed

lemma decoder_waiting:
  assumes "decoder_inv m s" "\<not> dcs_sending s" "\<not> dcs_error s"
  shows "pp_parse (nat m) (dcs_stream s) = (dcs_delivered s, dec_pending (dcs_dec s), False)"
  using assms by (auto simp: decoder_inv_def dec_agrees_def dec_parse_def)

lemma decoder_error_parse:
  assumes "decoder_inv m s" "dcs_error s"
  shows "\<exists>r. pp_parse (nat m) (dcs_stream s @ y) = (dcs_delivered s, r, True)"
  using assms parse_error_append by (fastforce simp: decoder_inv_def dec_agrees_def dec_parse_def)

lemma parse_encoded_all:
  "\<forall>p \<in> set ps. length p \<le> mtu \<and> length p \<le> 65535 \<Longrightarrow>
   pp_parse mtu (concat (map pp_encode ps)) = (ps, [], False)"
  by (induction ps) (auto simp: parse_short parse_encode)

lemma decoder_delivered:
  assumes "decoder_inv m s" "\<not> dcs_error s"
  shows "\<exists>qs. fst (pp_parse (nat m) (dcs_stream s)) = dcs_delivered s @ qs"
  using assms by (auto simp: decoder_inv_def dec_agrees_def dec_parse_def split: prod.splits)

lemma sender_step_packets:
  "sender_step s e = Some s' \<Longrightarrow> snd_packets s' = snd_packets s @ submitted [e]"
proof -
  have ap: "snd_packets (sender_apply cs t) = snd_packets t" for cs t
    by (induction cs t rule: sender_apply.induct) auto
  show "sender_step s e = Some s' \<Longrightarrow> snd_packets s' = snd_packets s @ submitted [e]"
    by (cases e) (auto simp: ap)
qed

lemma sender_exec_packets:
  "exec sender_step s es = Some s' \<Longrightarrow> snd_packets s' = snd_packets s @ submitted es"
proof (induction es arbitrary: s)
  case Nil
  then show ?case by simp
next
  case (Cons e es)
  then obtain s1 where s1: "sender_step s e = Some s1" "exec sender_step s1 es = Some s'"
    by (auto split: option.splits)
  have "submitted (e # es) = submitted [e] @ submitted es" by (cases e) auto
  with Cons.IH [OF s1(2)] sender_step_packets [OF s1(1)] show ?case by simp
qed

lemma sender_inv_prefix:
  assumes "sender_inv s"
  shows "\<exists>rest. concat (snd_packets s) = snd_stream s @ rest \<and> (snd_output s = None \<longrightarrow> rest = [])"
proof (cases "snd_output s")
  case None
  then show ?thesis using assms by (simp add: sender_inv_def Let_def)
next
  case (Some d)
  then obtain ps where "snd_packets s = ps @ [pss_in (snd_sender s)]"
    "snd_stream s = concat ps @ take (nat (pss_in_used (snd_sender s))) (pss_in (snd_sender s))"
    using assms by (auto simp: sender_inv_def Let_def)
  then show ?thesis using Some
    by (intro exI [of _ "drop (nat (pss_in_used (snd_sender s))) (pss_in (snd_sender s))"]) simp
qed

section \<open>Properties\<close>

text \<open>
  C15. The decoder equals the reference reader however the stream is cut into pieces: whenever it
  waits for input without having reported an error, the packets it has passed on and the bytes
  it still holds are exactly what reading the whole stream received so far gives; the error
  handler is called only for a header that announces more than the MTU, after the packets before
  it were passed on. No assertion fails, no access leaves the buffer, and the area it asks to be filled is never empty.
\<close>

theorem decoder_any_chunking:
  assumes "decoder_init out_mtu s" "admissible decoder_enabled decoder_step s es" "DecReset \<notin> set es"
  defines "mtu \<equiv> nat (bmin_int out_mtu PACKETPROTO_MAXPAYLOAD)"
  shows "\<exists>s'. exec decoder_step s es = Some s' \<and>
    (\<not> dcs_error s' \<and> \<not> dcs_sending s' \<longrightarrow>
       pp_parse mtu (arrived es) = (dcs_delivered s', dec_pending (dcs_dec s'), False)) \<and>
    (dcs_error s' \<longrightarrow> (\<exists>r. pp_parse mtu (arrived es) = (dcs_delivered s', r, True))) \<and>
    (\<not> dcs_sending s' \<longrightarrow> (\<exists>off n. dcs_recv s' = Some (off, n) \<and> 0 < n))"
proof -
  obtain s' where s': "exec decoder_step s es = Some s'"
    "decoder_inv (bmin_int out_mtu PACKETPROTO_MAXPAYLOAD) s'"
    "\<not> dcs_error s' \<Longrightarrow> dcs_stream s' = arrived es"
    "dcs_error s' \<Longrightarrow> \<exists>rest. arrived es = dcs_stream s' @ rest"
    using decoder_run [OF assms(1-3)] by metis
  have err: "\<exists>r. pp_parse mtu (arrived es) = (dcs_delivered s', r, True)" if e: "dcs_error s'"
  proof -
    obtain rest where "arrived es = dcs_stream s' @ rest" using s'(4) [OF e] by blast
    moreover obtain r where "pp_parse mtu (dcs_stream s') = (dcs_delivered s', r, True)"
      using s'(2) e by (auto simp: decoder_inv_def dec_agrees_def dec_parse_def mtu_def)
    ultimately show ?thesis using parse_error_append by simp
  qed
  have "\<exists>off n. dcs_recv s' = Some (off, n) \<and> 0 < n" if "\<not> dcs_sending s'"
    using s'(2) that by (auto simp: decoder_inv_def asks_def)
  with s'(1,3) err decoder_waiting [OF s'(2)] show ?thesis by (simp add: mtu_def)
qed

definition dec0 :: "int \<Rightarrow> decoder_state" where
  "dec0 mtu = \<lparr>dcs_dec = \<lparr>ppd_output_mtu = mtu, ppd_buf_size = 2 + mtu, ppd_buf_start = 0,
      ppd_buf_used = 0, ppd_buf = replicate (nat (2 + mtu)) 0\<rparr>,
    dcs_recv = Some (0, 2 + mtu), dcs_sending = False, dcs_stream = [], dcs_delivered = [], dcs_error = False\<rparr>"

lemma dec0_init:
  assumes "0 \<le> mtu" "mtu \<le> PACKETPROTO_MAXPAYLOAD"
  shows "decoder_init mtu (dec0 mtu)"
  unfolding decoder_init_def
  by (intro conjI exI [of _ "\<lambda>k. if 0 \<le> k then Some (replicate (nat k) 0) else None"] exI [of _ 0]
      exI [of _ "2 + mtu"])
    (use assms in \<open>auto simp: dec0_def PacketProtoDecoder_Init_def bmin_int_def PACKETPROTO_ENCLEN_def Let_def\<close>)

theorem decoder_any_chunking_witness:
  "\<exists>s'. exec decoder_step (dec0 3) [DecArrive [2], DecArrive [0, 7, 8], DecSent] = Some s' \<and>
    (\<not> dcs_error s' \<and> \<not> dcs_sending s' \<longrightarrow>
       pp_parse (nat (bmin_int 3 PACKETPROTO_MAXPAYLOAD)) (arrived [DecArrive [2], DecArrive [0, 7, 8], DecSent]) =
         (dcs_delivered s', dec_pending (dcs_dec s'), False)) \<and>
    (dcs_error s' \<longrightarrow> (\<exists>r. pp_parse (nat (bmin_int 3 PACKETPROTO_MAXPAYLOAD))
       (arrived [DecArrive [2], DecArrive [0, 7, 8], DecSent]) = (dcs_delivered s', r, True))) \<and>
    (\<not> dcs_sending s' \<longrightarrow> (\<exists>off n. dcs_recv s' = Some (off, n) \<and> 0 < n))"
proof (rule decoder_any_chunking [OF dec0_init])
  show "admissible decoder_enabled decoder_step (dec0 3) [DecArrive [2], DecArrive [0, 7, 8], DecSent]"
    by code_simp
qed simp_all

text \<open>
  C1. Reliable transport of packets over the stream: encoded packets handed to the stream sender come out of
  the decoder at the other end of the stream complete, unchanged and in order. At any moment the
  packets passed on are the first of the packets sent, whatever pieces the two ends see; when the
  whole stream has arrived and nothing is being passed on, they are all of them.
\<close>

theorem packetproto_channel:
  assumes "sender_init s" "admissible sender_enabled sender_step s es"
    and "submitted es = map pp_encode ps" "\<forall>p \<in> set ps. int (length p) \<le> bmin_int out_mtu PACKETPROTO_MAXPAYLOAD"
    and "decoder_init out_mtu d" "admissible decoder_enabled decoder_step d fs" "DecReset \<notin> set fs"
    and "arrived fs @ rest = snd_stream (the (exec sender_step s es))"
  shows "\<exists>s' d'. exec sender_step s es = Some s' \<and> exec decoder_step d fs = Some d' \<and> \<not> dcs_error d' \<and>
    dcs_delivered d' = take (length (dcs_delivered d')) ps \<and>
    (snd_output s' = None \<and> rest = [] \<and> \<not> dcs_sending d' \<longrightarrow> dcs_delivered d' = ps)"
proof -
  let ?mtu = "nat (bmin_int out_mtu PACKETPROTO_MAXPAYLOAD)"
  have small: "\<forall>p \<in> set ps. length p \<le> ?mtu \<and> length p \<le> 65535"
    using assms(4) by (auto simp: bmin_int_def split: if_splits)
  obtain s' where s': "exec sender_step s es = Some s'" "sender_inv s'"
    using stream_sender.run_safe [OF assms(1,2)] by blast
  have "snd_packets s = []" using assms(1) by (simp add: sender_init_def)
  then have "snd_packets s' = map pp_encode ps" using sender_exec_packets [OF s'(1)] assms(3) by simp
  then obtain rest2 where r2: "concat (map pp_encode ps) = snd_stream s' @ rest2"
    "snd_output s' = None \<longrightarrow> rest2 = []" using sender_inv_prefix [OF s'(2)] by auto
  have pre: "arrived fs @ (rest @ rest2) = concat (map pp_encode ps)"
    using assms(8) s'(1) r2(1) by simp
  obtain k r where pr: "pp_parse ?mtu (arrived fs) = (take k ps, r, False)"
    using parse_encoded_prefix [OF small pre] by blast
  obtain d' where d': "exec decoder_step d fs = Some d'"
    "decoder_inv (bmin_int out_mtu PACKETPROTO_MAXPAYLOAD) d'"
    "\<not> dcs_error d' \<Longrightarrow> dcs_stream d' = arrived fs"
    "dcs_error d' \<Longrightarrow> \<exists>rest. arrived fs = dcs_stream d' @ rest"
    using decoder_run [OF assms(5-7)] by metis
  have ne: "\<not> dcs_error d'"
  proof
    assume e: "dcs_error d'"
    then obtain rest where "arrived fs = dcs_stream d' @ rest" using d'(4) by blast
    with decoder_error_parse [OF d'(2) e, of rest] pr show False by simp
  qed
  have "dcs_delivered d' = take (length (dcs_delivered d')) ps"
    using decoder_delivered [OF d'(2) ne] d'(3) [OF ne] pr by (auto intro: prefix_of_take)
  moreover have "dcs_delivered d' = ps" if "snd_output s' = None \<and> rest = [] \<and> \<not> dcs_sending d'"
    using decoder_waiting [OF d'(2) _ ne] d'(3) [OF ne] pre r2(2) that parse_encoded_all [OF small] by auto
  ultimately show ?thesis using s'(1) d'(1) ne by blast
qed

definition snd0 :: sender_state where
  "snd0 = \<lparr>snd_sender = \<lparr>pss_in_len = -1, pss_in = [], pss_in_used = 0\<rparr>, snd_output = None,
    snd_stream = [], snd_packets = []\<rparr>"

lemma snd0_init: "sender_init snd0"
  unfolding sender_init_def
  by (intro conjI exI [of _ "snd_sender snd0"] exI [of _ 0])
    (simp_all add: snd0_def PacketStreamSender_Init_def)

theorem packetproto_channel_witness:
  "\<exists>s' d'. exec sender_step snd0 [SndPacket (pp_encode [7, 8]), SndAccepted 1, SndAccepted 3] = Some s' \<and>
    exec decoder_step (dec0 3) [DecArrive [2, 0, 7], DecArrive [8], DecSent] = Some d' \<and> \<not> dcs_error d' \<and>
    dcs_delivered d' = take (length (dcs_delivered d')) [[7, 8]] \<and>
    (snd_output s' = None \<and> [] = ([] :: bytes) \<and> \<not> dcs_sending d' \<longrightarrow> dcs_delivered d' = [[7, 8]])"
proof (rule packetproto_channel [OF snd0_init _ _ _ dec0_init])
  show "admissible sender_enabled sender_step snd0 [SndPacket (pp_encode [7, 8]), SndAccepted 1, SndAccepted 3]"
    by code_simp
  show "admissible decoder_enabled decoder_step (dec0 3) [DecArrive [2, 0, 7], DecArrive [8], DecSent]"
    by code_simp
  show "arrived [DecArrive [2, 0, 7], DecArrive [8], DecSent] @ [] = snd_stream (the (exec sender_step snd0
      [SndPacket (pp_encode [7, 8]), SndAccepted 1, SndAccepted 3]))"
    by code_simp
qed (simp_all add: bmin_int_def)

text \<open>
  The encoder writes the wire format: for a packet of at most its input MTU it asks the input to fill the
  output buffer behind the header, and completes the output with the two header bytes and the
  packet, within the buffer its output MTU announced; it is then ready for the next packet.
\<close>

theorem encoder_writes_format:
  assumes "PacketProtoEncoder_Init mtu = Some enc" "int (length p) \<le> mtu"
    and "int (length data) = ppe_output_mtu enc"
  shows "\<exists>enc1 out. Encoder_output_handler_recv enc data = Some (enc1, [EncInputRecv 2]) \<and>
    encoder_input enc1 p = Some (enc, [EncOutputDone out (PACKETPROTO_ENCLEN (int (length p)))]) \<and>
    take (nat (PACKETPROTO_ENCLEN (int (length p)))) out = pp_encode p"
  using assms by (rule encoder_round)

theorem encoder_writes_format_witness:
  "\<exists>enc1 out. Encoder_output_handler_recv \<lparr>ppe_input_mtu = 3, ppe_output_mtu = 5, ppe_output_packet = None\<rparr>
      (replicate 5 0) = Some (enc1, [EncInputRecv 2]) \<and>
    encoder_input enc1 [1, 2] = Some (\<lparr>ppe_input_mtu = 3, ppe_output_mtu = 5, ppe_output_packet = None\<rparr>,
      [EncOutputDone out (PACKETPROTO_ENCLEN (int (length [1 :: u8, 2])))]) \<and>
    take (nat (PACKETPROTO_ENCLEN (int (length [1 :: u8, 2])))) out = pp_encode [1, 2]"
  by (rule encoder_writes_format [where mtu = 3])
    (simp_all add: PacketProtoEncoder_Init_def PACKETPROTO_ENCLEN_def)

end
