(* ===== verification/Wire.thy ===== *)
theory Wire
  imports Byteorder
begin

text \<open>
  Addresses (system/BAddr.h) and the packed structs that go over the wire:
  protocol/packetproto.h, protocol/udpgw_proto.h, misc/socks_proto.h. A packed struct is a
  record; its memory image concatenates the images of its fields.
\<close>

section \<open>Socket addresses\<close>

datatype BAddr =
    BAddr_NONE
  | BAddr_IPV4 u32 u16
  | BAddr_IPV6 bytes u16
  | BAddr_PACKET u16 int int int bytes

fun BAddr_type :: "BAddr \<Rightarrow> int" where
  "BAddr_type BAddr_NONE = 0"
| "BAddr_type (BAddr_IPV4 _ _) = 1"
| "BAddr_type (BAddr_IPV6 _ _) = 2"
| "BAddr_type (BAddr_PACKET _ _ _ _ _) = 5"

abbreviation (input) BADDR_TYPE_NONE :: int where "BADDR_TYPE_NONE \<equiv> 0"
abbreviation (input) BADDR_TYPE_IPV4 :: int where "BADDR_TYPE_IPV4 \<equiv> 1"
abbreviation (input) BADDR_TYPE_IPV6 :: int where "BADDR_TYPE_IPV6 \<equiv> 2"

definition BAddr_InitIPv4 :: "u32 \<Rightarrow> u16 \<Rightarrow> BAddr" where
  "BAddr_InitIPv4 ip port = BAddr_IPV4 ip port"

definition BAddr_InitIPv6 :: "bytes \<Rightarrow> u16 \<Rightarrow> BAddr" where
  "BAddr_InitIPv6 ip port = BAddr_IPV6 (take 16 ip) port"

definition BAddr_IsInvalid :: "BAddr \<Rightarrow> bool" where
  "BAddr_IsInvalid addr = (BAddr_type addr = BADDR_TYPE_NONE)"

text \<open>The sign of C's \<^verbatim>\<open>memcmp\<close>: the first byte that differs decides.\<close>

fun memcmp :: "bytes \<Rightarrow> bytes \<Rightarrow> int" where
  "memcmp (x # xs) (y # ys) = (if x = y then memcmp xs ys else B_COMPARE x y)"
| "memcmp _ _ = 0"

fun BAddr_CompareOrder :: "BAddr \<Rightarrow> BAddr \<Rightarrow> int" where
  "BAddr_CompareOrder addr1 addr2 =
     (let cmp = B_COMPARE (BAddr_type addr1) (BAddr_type addr2) in
      if cmp \<noteq> 0 then cmp
      else (case (addr1, addr2) of
          (BAddr_IPV4 ip1 port1, BAddr_IPV4 ip2 port2) \<Rightarrow>
            (let cmp = B_COMPARE (ntoh32 ip1) (ntoh32 ip2) in
             if cmp \<noteq> 0 then cmp else B_COMPARE (ntoh16 port1) (ntoh16 port2))
        | (BAddr_IPV6 ip1 port1, BAddr_IPV6 ip2 port2) \<Rightarrow>
            (let cmp = memcmp ip1 ip2 in
             if cmp \<noteq> 0 then B_COMPARE cmp 0 else B_COMPARE (ntoh16 port1) (ntoh16 port2))
        | _ \<Rightarrow> 0))"

declare BAddr_CompareOrder.simps [simp del]

text \<open>The addresses the tunnel handles: IPv4, or IPv6 with its sixteen address bytes.\<close>

fun ip_addr :: "BAddr \<Rightarrow> bool" where
  "ip_addr (BAddr_IPV4 _ _) = True"
| "ip_addr (BAddr_IPV6 ip _) = (length ip = 16)"
| "ip_addr _ = False"

section \<open>Packed structs\<close>

record udpgw_header =
  uh_flags :: u8
  uh_conid :: u16

definition udpgw_header_image :: "udpgw_header \<Rightarrow> bytes" where
  [codec_simps]: "udpgw_header_image h = uh_flags h # mem16 (uh_conid h)"

definition udpgw_header_of :: "bytes \<Rightarrow> udpgw_header" where
  [codec_simps]: "udpgw_header_of b = \<lparr>uh_flags = b ! 0, uh_conid = of_mem16 (drop 1 b)\<rparr>"

text \<open>
  \<^verbatim>\<open>struct udpgw_addr_ipv4\<close> and \<^verbatim>\<open>struct socks_addr_ipv4\<close> have the same layout, and so have
  the two IPv6 structs.
\<close>

record addr_ipv4 =
  a4_ip :: u32
  a4_port :: u16

definition addr_ipv4_image :: "addr_ipv4 \<Rightarrow> bytes" where
  [codec_simps]: "addr_ipv4_image a = mem32 (a4_ip a) @ mem16 (a4_port a)"

definition addr_ipv4_of :: "bytes \<Rightarrow> addr_ipv4" where
  [codec_simps]: "addr_ipv4_of b =
     \<lparr>a4_ip = of_mem32 (take 4 b), a4_port = of_mem16 (drop 4 b)\<rparr>"

record addr_ipv6 =
  a6_ip :: bytes
  a6_port :: u16

definition addr_ipv6_image :: "addr_ipv6 \<Rightarrow> bytes" where
  [codec_simps]: "addr_ipv6_image a = a6_ip a @ mem16 (a6_port a)"

definition addr_ipv6_of :: "bytes \<Rightarrow> addr_ipv6" where
  [codec_simps]: "addr_ipv6_of b = \<lparr>a6_ip = take 16 b, a6_port = of_mem16 (drop 16 b)\<rparr>"

section \<open>Lemmas\<close>

lemma memcmp_zero: "length xs = length ys \<Longrightarrow> memcmp xs ys = 0 \<longleftrightarrow> xs = ys"
  by (induction xs ys rule: memcmp.induct) auto

lemma memcmp_swap: "memcmp ys xs = - memcmp xs ys"
proof (induction xs ys rule: memcmp.induct)
  case (1 x xs y ys)
  then show ?case using B_COMPARE_swap [of y x] by simp
qed simp_all

lemma memcmp_refl [simp]: "memcmp xs xs = 0"
  by (induction xs) auto

lemma B_COMPARE_sgn: "B_COMPARE (B_COMPARE a b) 0 = B_COMPARE a b"
  by (simp add: B_COMPARE_def of_bool_def)

lemma memcmp_sgn: "B_COMPARE (memcmp xs ys) 0 = memcmp xs ys"
  by (induction xs ys rule: memcmp.induct) (simp_all add: B_COMPARE_sgn)

lemma memcmp_trans:
  "length xs = length ys \<Longrightarrow> length ys = length zs \<Longrightarrow>
   memcmp xs ys < 0 \<Longrightarrow> memcmp ys zs < 0 \<Longrightarrow> memcmp xs zs < 0"
proof (induction xs arbitrary: ys zs)
  case Nil
  then show ?case by simp
next
  case (Cons x xs)
  from Cons.prems(1,2) obtain y ys' z zs' where eq: "ys = y # ys'" "zs = z # zs'"
    by (cases ys; cases zs) auto
  show ?case
  proof (cases "x = y \<and> y = z")
    case True
    with Cons.prems Cons.IH [of ys' zs'] eq show ?thesis by simp
  next
    case False
    from Cons.prems(3) eq have "x \<le> y" by (simp split: if_splits)
    moreover from Cons.prems(4) eq have "y \<le> z" by (simp split: if_splits)
    ultimately have "x < z" using False by (auto simp: order.order_iff_strict)
    with eq show ?thesis by auto
  qed
qed

lemmas compare_order_simps =
  BAddr_CompareOrder.simps Let_def memcmp_sgn

lemma compare_order_zero:
  "ip_addr a \<Longrightarrow> ip_addr b \<Longrightarrow> BAddr_CompareOrder a b = 0 \<longleftrightarrow> a = b"
  by (cases a; cases b) (auto simp: compare_order_simps memcmp_zero)

lemma compare_order_swap: "BAddr_CompareOrder b a = - BAddr_CompareOrder a b"
proof (cases "\<exists>i p j q. a = BAddr_IPV6 i p \<and> b = BAddr_IPV6 j q")
  case True
  then obtain i p j q where "a = BAddr_IPV6 i p" "b = BAddr_IPV6 j q" by blast
  then show ?thesis
    using memcmp_swap [of j i] B_COMPARE_swap [of "ntoh16 q" "ntoh16 p"] memcmp_sgn [of j i]
    by (simp add: compare_order_simps)
next
  case False
  then show ?thesis
    by (cases a; cases b) (simp_all add: compare_order_simps B_COMPARE_def)
qed

lemma compare_order_trans:
  assumes "ip_addr a" "ip_addr b" "ip_addr c"
    and "BAddr_CompareOrder a b < 0" "BAddr_CompareOrder b c < 0"
  shows "BAddr_CompareOrder a c < 0"
proof (cases "\<exists>i p j q k r. a = BAddr_IPV6 i p \<and> b = BAddr_IPV6 j q \<and> c = BAddr_IPV6 k r")
  case True
  then obtain i p j q k r where eq: "a = BAddr_IPV6 i p" "b = BAddr_IPV6 j q" "c = BAddr_IPV6 k r"
    by blast
  with assms memcmp_trans [of i j k] show ?thesis
    by (auto simp: compare_order_simps memcmp_zero split: if_splits)
next
  case False
  with assms show ?thesis
    by (cases a; cases b; cases c) (auto simp: compare_order_simps split: if_splits)
qed

interpretation baddr_order: comparator BAddr_CompareOrder ip_addr
  proof unfold_locales
  show "BAddr_CompareOrder y x = - BAddr_CompareOrder x y" for x y
    by (rule compare_order_swap)
qed (blast intro: compare_order_trans | simp add: compare_order_zero)+

interpretation udpgw_header: codec udpgw_header_image udpgw_header_of 3 "\<lambda>_. True"
proof (unfold_locales, goal_cases)
  case (3 b)
  then show ?case by (cases b) (auto simp: codec_simps mem16_of_mem16)
qed (simp_all add: codec_simps)

interpretation udpgw_addr4: codec addr_ipv4_image addr_ipv4_of 6 "\<lambda>_. True"
  by unfold_locales (simp_all add: codec_simps mem16_of_mem16 mem32_of_mem32)

interpretation udpgw_addr6: codec addr_ipv6_image addr_ipv6_of 18 "\<lambda>a. length (a6_ip a) = 16"
  by unfold_locales (simp_all add: codec_simps mem16_of_mem16)

end
