(* ===== verification/SearchTree.thy ===== *)
theory SearchTree
  imports Prelude
begin

text \<open>
  The search trees of structure/BAVL.h and structure/SAvl.h as their clients use them. A tree is the
  sequence of its nodes in tree order; what a node's key is, and so what the comparator returns, may
  depend on memory outside the tree. Lookup finds a node whose key compares equal; insertion puts a
  node where the comparator says and fails when an equal node is present; removal takes the given node
  out whatever its key is by then.
\<close>

fun tree_insert :: "('n \<Rightarrow> 'n \<Rightarrow> int) \<Rightarrow> 'n \<Rightarrow> 'n list \<Rightarrow> 'n list option" where
  "tree_insert cmp f [] = Some [f]"
| "tree_insert cmp f (g # gs) =
     (if cmp f g < 0 then Some (f # g # gs)
      else if cmp f g = 0 then None
      else map_option (\<lambda>gs'. g # gs') (tree_insert cmp f gs))"

definition tree_lookup :: "('k \<Rightarrow> 'n \<Rightarrow> int) \<Rightarrow> 'k \<Rightarrow> 'n list \<Rightarrow> 'n option" where
  "tree_lookup cmp k t = find (\<lambda>n. cmp k n = 0) t"

definition tree_remove :: "'n \<Rightarrow> 'n list \<Rightarrow> 'n list" where
  "tree_remove n t = remove1 n t"

text \<open>
  The contract for a tree whose nodes have pairwise different keys under a comparator of the keys:
  \<open>keyof\<close> reads a node's key.
\<close>

definition ordered_by :: "('k \<Rightarrow> 'k \<Rightarrow> int) \<Rightarrow> ('n \<Rightarrow> 'k) \<Rightarrow> 'n list \<Rightarrow> bool" where
  "ordered_by cmp keyof t \<longleftrightarrow> sorted_wrt (\<lambda>m n. cmp (keyof m) (keyof n) < 0) t"

lemma ordered_by_cong:
  "\<forall>n \<in> set t. keyof n = keyof' n \<Longrightarrow> ordered_by cmp keyof t = ordered_by cmp keyof' t"
  unfolding ordered_by_def by (induction t) auto

lemma ordered_by_remove: "ordered_by cmp keyof t \<Longrightarrow> ordered_by cmp keyof (tree_remove n t)"
  unfolding ordered_by_def tree_remove_def by (induction t) (auto dest: set_remove1_subset [THEN subsetD])

context comparator
begin

lemma ordered_distinct:
  assumes "ordered_by cmp keyof t" "\<forall>n \<in> set t. key (keyof n)"
  shows "distinct t" "inj_on keyof (set t)"
  using assms by (induction t) (auto simp: ordered_by_def cmp_refl)

lemma tree_lookup_eq:
  assumes "key k" "\<forall>n \<in> set t. key (keyof n)"
  shows "tree_lookup (\<lambda>k n. cmp k (keyof n)) k t = find (\<lambda>n. keyof n = k) t"
  using assms by (induction t) (auto simp: tree_lookup_def cmp_zero)

lemma tree_insert_spec:
  assumes "ordered_by cmp keyof t" "\<forall>n \<in> set t. key (keyof n)" "key (keyof f)" "keyof f \<notin> keyof ` set t"
  shows "\<exists>t'. tree_insert (\<lambda>m n. cmp (keyof m) (keyof n)) f t = Some t' \<and> ordered_by cmp keyof t' \<and>
    set t' = insert f (set t)"
  using assms
proof (induction t)
  case Nil
  then show ?case by (simp add: ordered_by_def)
next
  case (Cons g t)
  have kg: "key (keyof g)" and kf: "key (keyof f)" using Cons.prems by simp_all
  from kf kg show ?case
  proof (cases rule: cmp_cases)
    case 1
    moreover have "cmp (keyof f) (keyof n) < 0" if "n \<in> set t" for n
      using Cons.prems 1 that by (auto simp: ordered_by_def intro: cmp_trans [of "keyof f" "keyof g"])
    ultimately show ?thesis using Cons.prems by (simp add: ordered_by_def)
  next
    case 2
    then show ?thesis using Cons.prems by simp
  next
    case 3
    then have gf: "cmp (keyof g) (keyof f) < 0" using cmp_pos [OF kf kg] by simp
    from Cons obtain t' where t': "tree_insert (\<lambda>m n. cmp (keyof m) (keyof n)) f t = Some t'"
      "ordered_by cmp keyof t'" "set t' = insert f (set t)"
      by (auto simp: ordered_by_def)
    then have "ordered_by cmp keyof (g # t')"
      using gf Cons.prems by (auto simp: ordered_by_def)
    with 3 t' show ?thesis by auto
  qed
qed

end

end
