(* ===== verification/FairQueue.thy ===== *)
theory FairQueue
  imports BSize SearchTree
begin

text \<open>
  flow/PacketPassFairQueue.c: several packet flows share one output; the flow with the smallest
  virtual time is served next, and a served flow's time grows by the size of its packet plus a
  constant weight.

  Flows are addressed by numbers (the \<^verbatim>\<open>uintptr_t\<close> that \<^verbatim>\<open>compare_flows\<close> uses to break ties). The
  search tree of queued flows is the sequence of its entries in tree order: insertion puts an
  entry where the comparator says, at the times of that moment; times change later without
  touching the tree, so that it stays ordered is an invariant that has to be proved.
\<close>

section \<open>State\<close>

record flow =
  fl_handler_busy :: bool
  fl_time :: u64
  fl_is_queued :: bool
  fl_data :: bytes
  fl_data_len :: int

record PacketPassFairQueue =
  fq_output_mtu :: int
  fq_use_cancel :: bool
  fq_packet_weight :: int
  fq_sending_flow :: "nat option"
  fq_sending_len :: int
  fq_previous_flow :: "nat option"
  fq_queued_tree :: "nat list"
  fq_flows_list :: "nat list"
  fq_flows :: "nat \<Rightarrow> flow"
  fq_freeing :: bool
  fq_schedule_job :: bool

datatype fairqueue_call = FqSend bytes int | FqFlowDone nat | FqHandlerBusy nat | FqOutputCancel

abbreviation (input) FAIRQUEUE_MAX_TIME :: u64 where "FAIRQUEUE_MAX_TIME \<equiv> -1"

definition ftime :: "PacketPassFairQueue \<Rightarrow> nat \<Rightarrow> u64" where
  "ftime m f = fl_time (fq_flows m f)"

definition set_flow :: "nat \<Rightarrow> (flow \<Rightarrow> flow) \<Rightarrow> PacketPassFairQueue \<Rightarrow> PacketPassFairQueue" where
  "set_flow f upd m = m\<lparr>fq_flows := (fq_flows m)(f := upd (fq_flows m f))\<rparr>"

section \<open>Operations\<close>

definition compare_flows :: "PacketPassFairQueue \<Rightarrow> nat \<Rightarrow> nat \<Rightarrow> int" where
  "compare_flows m f1 f2 =
     (let cmp = B_COMPARE (ftime m f1) (ftime m f2) in
      if cmp \<noteq> 0 then cmp else B_COMPARE f1 f2)"

definition get_current_time :: "PacketPassFairQueue \<Rightarrow> u64 option" where
  "get_current_time m =
     (case fq_sending_flow m of
        Some f \<Rightarrow> Some (ftime m f)
      | None \<Rightarrow> do {
          (have, time) \<leftarrow> (case fq_queued_tree m of
              [] \<Rightarrow> Some (False, 0)
            | f # _ \<Rightarrow> do { ASSERT (fl_is_queued (fq_flows m f)); Some (True, ftime m f) });
          let (have, time) = (case fq_previous_flow m of
              None \<Rightarrow> (have, time)
            | Some p \<Rightarrow> if \<not> have \<or> ftime m p < time then (True, ftime m p) else (have, time));
          Some (if have then time else 0)
        })"

text \<open>The loop of \<^verbatim>\<open>increment_sent_flow\<close> over the flows list.\<close>

fun subtract_time :: "nat \<Rightarrow> u64 \<Rightarrow> nat list \<Rightarrow> PacketPassFairQueue \<Rightarrow> PacketPassFairQueue option" where
  "subtract_time flow subtract [] m = Some m"
| "subtract_time flow subtract (g # gs) m =
     (if subtract > ftime m g \<and> g \<noteq> flow
      then do {
        ASSERT (\<not> fl_is_queued (fq_flows m g));
        subtract_time flow subtract gs (set_flow g (\<lambda>x. x\<lparr>fl_time := 0\<rparr>) m)
      }
      else subtract_time flow subtract gs (set_flow g (\<lambda>x. x\<lparr>fl_time := fl_time x - subtract\<rparr>) m))"

definition increment_sent_flow :: "nat \<Rightarrow> u64 \<Rightarrow> PacketPassFairQueue \<Rightarrow> PacketPassFairQueue option" where
  "increment_sent_flow flow amount m = do {
     ASSERT (amount \<le> FAIRQUEUE_MAX_TIME);
     ASSERT (\<not> fl_is_queued (fq_flows m flow));
     ASSERT (fq_sending_flow m = None);
     m \<leftarrow> (if amount > FAIRQUEUE_MAX_TIME - ftime m flow
       then do {
         subtract \<leftarrow> (case fq_queued_tree m of
             [] \<Rightarrow> Some (ftime m flow)
           | f # _ \<Rightarrow> do { ASSERT (fl_is_queued (fq_flows m f)); Some (ftime m f) });
         subtract_time flow subtract (fq_flows_list m) m
       }
       else Some m);
     Some (set_flow flow (\<lambda>x. x\<lparr>fl_time := fl_time x + amount\<rparr>) m)
   }"

definition schedule :: "PacketPassFairQueue \<Rightarrow> (PacketPassFairQueue \<times> fairqueue_call list) option" where
  "schedule m = do {
     ASSERT (fq_sending_flow m = None);
     ASSERT (fq_previous_flow m = None);
     ASSERT (\<not> fq_freeing m);
     ASSERT (fq_queued_tree m \<noteq> []);
     let qflow = hd (fq_queued_tree m);
     ASSERT (fl_is_queued (fq_flows m qflow));
     let m = m\<lparr>fq_queued_tree := tree_remove qflow (fq_queued_tree m)\<rparr>;
     let m = set_flow qflow (\<lambda>x. x\<lparr>fl_is_queued := False\<rparr>) m;
     let data_len = fl_data_len (fq_flows m qflow);
     Some (m\<lparr>fq_sending_flow := Some qflow, fq_sending_len := data_len\<rparr>,
       [FqSend (fl_data (fq_flows m qflow)) data_len])
   }"

definition schedule_job_handler ::
  "PacketPassFairQueue \<Rightarrow> (PacketPassFairQueue \<times> fairqueue_call list) option" where
  "schedule_job_handler m = do {
     let m = m\<lparr>fq_schedule_job := False\<rparr>;
     ASSERT (fq_sending_flow m = None);
     ASSERT (\<not> fq_freeing m);
     let m = m\<lparr>fq_previous_flow := None\<rparr>;
     if fq_queued_tree m \<noteq> [] then schedule m else Some (m, [])
   }"

definition FairQueue_input_handler_send ::
  "PacketPassFairQueue \<Rightarrow> nat \<Rightarrow> bytes \<Rightarrow> int \<Rightarrow> (PacketPassFairQueue \<times> fairqueue_call list) option" where
  "FairQueue_input_handler_send m flow data data_len = do {
     ASSERT (fq_sending_flow m \<noteq> Some flow);
     ASSERT (\<not> fl_is_queued (fq_flows m flow));
     ASSERT (\<not> fq_freeing m);
     m \<leftarrow> (if fq_previous_flow m = Some flow then Some (m\<lparr>fq_previous_flow := None\<rparr>)
       else do {
         time \<leftarrow> get_current_time m;
         Some (set_flow flow (\<lambda>x. x\<lparr>fl_time := bmax_uint64 (fl_time x) time\<rparr>) m)
       });
     let m = set_flow flow (\<lambda>x. x\<lparr>fl_data := data, fl_data_len := data_len\<rparr>) m;
     tree \<leftarrow> tree_insert (compare_flows m) flow (fq_queued_tree m);
     let m = set_flow flow (\<lambda>x. x\<lparr>fl_is_queued := True\<rparr>) (m\<lparr>fq_queued_tree := tree\<rparr>);
     if fq_sending_flow m = None \<and> \<not> fq_schedule_job m then schedule m else Some (m, [])
   }"

definition FairQueue_output_handler_done ::
  "PacketPassFairQueue \<Rightarrow> (PacketPassFairQueue \<times> fairqueue_call list) option" where
  "FairQueue_output_handler_done m = do {
     flow \<leftarrow> fq_sending_flow m;
     ASSERT (fq_previous_flow m = None);
     ASSERT (\<not> fq_schedule_job m);
     ASSERT (\<not> fq_freeing m);
     ASSERT (\<not> fl_is_queued (fq_flows m flow));
     let m = m\<lparr>fq_sending_flow := None, fq_previous_flow := Some flow\<rparr>;
     m \<leftarrow> increment_sent_flow flow (word_of_int (fq_packet_weight m) + word_of_int (fq_sending_len m)) m;
     let m = m\<lparr>fq_schedule_job := True\<rparr>;
     if fl_handler_busy (fq_flows m flow)
     then Some (set_flow flow (\<lambda>x. x\<lparr>fl_handler_busy := False\<rparr>) m, [FqFlowDone flow, FqHandlerBusy flow])
     else Some (m, [FqFlowDone flow])
   }"

text \<open>\<open>has_cancel\<close> is \<^verbatim>\<open>PacketPassInterface_HasCancel(output)\<close>; the result is the return code with the object.\<close>

definition PacketPassFairQueue_Init ::
  "int \<Rightarrow> bool \<Rightarrow> bool \<Rightarrow> int \<Rightarrow> (nat \<Rightarrow> flow) \<Rightarrow> (int \<times> PacketPassFairQueue) option" where
  "PacketPassFairQueue_Init output_mtu has_cancel use_cancel packet_weight mem = do {
     ASSERT (packet_weight > 0);
     ASSERT (\<not> use_cancel \<or> has_cancel);
     let m = \<lparr>fq_output_mtu = output_mtu, fq_use_cancel = use_cancel, fq_packet_weight = packet_weight,
       fq_sending_flow = None, fq_sending_len = 0, fq_previous_flow = None, fq_queued_tree = [],
       fq_flows_list = [], fq_flows = mem, fq_freeing = False, fq_schedule_job = False\<rparr>;
     if \<not> ((word_of_int output_mtu :: u64) \<le> FAIRQUEUE_MAX_TIME \<and>
          (word_of_int packet_weight :: u64) \<le> FAIRQUEUE_MAX_TIME - word_of_int output_mtu)
     then Some (0, m)
     else Some (1, m)
   }"

definition PacketPassFairQueue_Free :: "PacketPassFairQueue \<Rightarrow> PacketPassFairQueue option" where
  "PacketPassFairQueue_Free m = do {
     ASSERT (fq_flows_list m = []);
     ASSERT (fq_queued_tree m = []);
     ASSERT (fq_previous_flow m = None);
     ASSERT (fq_sending_flow m = None);
     Some (m\<lparr>fq_schedule_job := False\<rparr>)
   }"

definition PacketPassFairQueue_PrepareFree :: "PacketPassFairQueue \<Rightarrow> PacketPassFairQueue" where
  "PacketPassFairQueue_PrepareFree m = m\<lparr>fq_freeing := True\<rparr>"

definition PacketPassFairQueueFlow_Init :: "nat \<Rightarrow> PacketPassFairQueue \<Rightarrow> PacketPassFairQueue option" where
  "PacketPassFairQueueFlow_Init flow m = do {
     ASSERT (\<not> fq_freeing m);
     let m = set_flow flow (\<lambda>x. x\<lparr>fl_handler_busy := False, fl_time := 0\<rparr>) m;
     let m = m\<lparr>fq_flows_list := fq_flows_list m @ [flow]\<rparr>;
     Some (set_flow flow (\<lambda>x. x\<lparr>fl_is_queued := False\<rparr>) m)
   }"

definition PacketPassFairQueueFlow_Free :: "nat \<Rightarrow> PacketPassFairQueue \<Rightarrow> PacketPassFairQueue option" where
  "PacketPassFairQueueFlow_Free flow m = do {
     ASSERT (fq_freeing m \<or> fq_sending_flow m \<noteq> Some flow);
     let m = (if fq_sending_flow m = Some flow then m\<lparr>fq_sending_flow := None\<rparr> else m);
     let m = (if fq_previous_flow m = Some flow then m\<lparr>fq_previous_flow := None\<rparr> else m);
     let m = (if fl_is_queued (fq_flows m flow)
              then m\<lparr>fq_queued_tree := tree_remove flow (fq_queued_tree m)\<rparr> else m);
     Some (m\<lparr>fq_flows_list := remove1 flow (fq_flows_list m)\<rparr>)
   }"

definition PacketPassFairQueueFlow_AssertFree :: "nat \<Rightarrow> PacketPassFairQueue \<Rightarrow> unit option" where
  "PacketPassFairQueueFlow_AssertFree flow m = ASSERT (fq_freeing m \<or> fq_sending_flow m \<noteq> Some flow)"

definition PacketPassFairQueueFlow_IsBusy :: "nat \<Rightarrow> PacketPassFairQueue \<Rightarrow> bool option" where
  "PacketPassFairQueueFlow_IsBusy flow m = do {
     ASSERT (\<not> fq_freeing m);
     Some (fq_sending_flow m = Some flow)
   }"

definition PacketPassFairQueueFlow_RequestCancel ::
  "nat \<Rightarrow> PacketPassFairQueue \<Rightarrow> fairqueue_call list option" where
  "PacketPassFairQueueFlow_RequestCancel flow m = do {
     ASSERT (fq_sending_flow m = Some flow);
     ASSERT (fq_use_cancel m);
     ASSERT (\<not> fq_freeing m);
     ASSERT (\<not> fq_schedule_job m);
     Some [FqOutputCancel]
   }"

definition PacketPassFairQueueFlow_SetBusyHandler ::
  "nat \<Rightarrow> PacketPassFairQueue \<Rightarrow> PacketPassFairQueue option" where
  "PacketPassFairQueueFlow_SetBusyHandler flow m = do {
     ASSERT (fq_sending_flow m = Some flow);
     ASSERT (\<not> fq_freeing m);
     Some (set_flow flow (\<lambda>x. x\<lparr>fl_handler_busy := True\<rparr>) m)
   }"

section \<open>Virtual time\<close>

declare tree_remove_def [simp]

lemma ftime_set_flow: "ftime (set_flow f u m) g = (if g = f then fl_time (u (fq_flows m f)) else ftime m g)"
  by (simp add: ftime_def set_flow_def)

lemma set_flow_fields [simp]:
  "fq_queued_tree (set_flow f u m) = fq_queued_tree m"
  "fq_flows_list (set_flow f u m) = fq_flows_list m"
  "fq_sending_flow (set_flow f u m) = fq_sending_flow m"
  "fq_sending_len (set_flow f u m) = fq_sending_len m"
  "fq_previous_flow (set_flow f u m) = fq_previous_flow m"
  "fq_freeing (set_flow f u m) = fq_freeing m"
  "fq_schedule_job (set_flow f u m) = fq_schedule_job m"
  "fq_packet_weight (set_flow f u m) = fq_packet_weight m"
  "fq_output_mtu (set_flow f u m) = fq_output_mtu m"
  "fq_use_cancel (set_flow f u m) = fq_use_cancel m"
  by (simp_all add: set_flow_def)

lemma compare_flows_less:
  "compare_flows m f g < 0 \<longleftrightarrow> ftime m f < ftime m g \<or> ftime m f = ftime m g \<and> f < g"
  by (auto simp: compare_flows_def Let_def B_COMPARE_def)

lemma compare_flows_zero: "compare_flows m f g = 0 \<longleftrightarrow> f = g"
  by (auto simp: compare_flows_def Let_def B_COMPARE_def split: if_splits)

interpretation flow_order: comparator "compare_flows m" "\<lambda>_. True" for m
proof
  show "compare_flows m y x = - compare_flows m x y" for x y
    using B_COMPARE_swap [of "ftime m x" "ftime m y"] B_COMPARE_swap [of x y]
    by (simp add: compare_flows_def Let_def)
  show "compare_flows m x z < 0" if "compare_flows m x y < 0" "compare_flows m y z < 0" for x y z
    using that by (auto simp: compare_flows_less)
qed (simp add: compare_flows_zero)

text \<open>One round of that loop.\<close>

definition dec_flow :: "nat \<Rightarrow> u64 \<Rightarrow> nat \<Rightarrow> flow \<Rightarrow> flow" where
  "dec_flow flow sub g x = x\<lparr>fl_time := if sub > fl_time x \<and> g \<noteq> flow then 0 else fl_time x - sub\<rparr>"

lemma subtract_time_Cons:
  assumes "g \<noteq> flow \<and> fl_is_queued (fq_flows m g) \<longrightarrow> sub \<le> ftime m g"
  shows "subtract_time flow sub (g # gs) m = subtract_time flow sub gs (set_flow g (dec_flow flow sub g) m)"
proof (cases "sub > ftime m g \<and> g \<noteq> flow")
  case True
  then have "\<not> fl_is_queued (fq_flows m g)" using assms by (auto simp: not_le [symmetric])
  with True show ?thesis by (simp add: set_flow_def dec_flow_def ftime_def)
next
  case False
  then show ?thesis by (auto simp: set_flow_def dec_flow_def ftime_def)
qed

lemma subtract_time_eq:
  assumes "distinct gs" "\<forall>g \<in> set gs. g \<noteq> flow \<and> fl_is_queued (fq_flows m g) \<longrightarrow> sub \<le> ftime m g"
  shows "subtract_time flow sub gs m =
    Some (m\<lparr>fq_flows := (\<lambda>g. if g \<in> set gs then dec_flow flow sub g (fq_flows m g) else fq_flows m g)\<rparr>)"
  using assms
proof (induction gs arbitrary: m)
  case Nil
  then show ?case by simp
next
  case (Cons g gs)
  let ?m = "set_flow g (dec_flow flow sub g) m"
  have eq: "fq_flows ?m h = fq_flows m h" if "h \<in> set gs" for h
    using Cons.prems(1) that by (auto simp: set_flow_def)
  have "subtract_time flow sub (g # gs) m = subtract_time flow sub gs ?m"
    using Cons.prems(2) by (intro subtract_time_Cons) simp
  also have "\<dots> = Some (?m\<lparr>fq_flows := (\<lambda>h. if h \<in> set gs then dec_flow flow sub h (fq_flows ?m h)
      else fq_flows ?m h)\<rparr>)"
    using Cons.prems eq by (intro Cons.IH) (auto simp: ftime_def)
  also have "(\<lambda>h. if h \<in> set gs then dec_flow flow sub h (fq_flows ?m h) else fq_flows ?m h) =
      (\<lambda>h. if h \<in> set (g # gs) then dec_flow flow sub h (fq_flows m h) else fq_flows m h)"
    using Cons.prems(1) eq by (auto simp: set_flow_def)
  finally show ?case by (simp add: set_flow_def)
qed

lemma uint_sub_le: "(s :: u64) \<le> a \<Longrightarrow> uint (a - s) = uint a - uint s"
proof -
  assume "s \<le> a"
  then have "0 \<le> uint a - uint s" "uint a - uint s < 2 ^ 64"
    using uint_le_size(1) [of a] uint_le_size(2) [of s] unfolding word_le_def by linarith+
  then show ?thesis by (simp add: uint_word_ariths)
qed

lemma uint_wrap_sum:
  assumes "0 \<le> uint (a :: u64) + uint b - uint s" "uint a + uint b - uint s < 2 ^ 64"
  shows "uint (a - s + b) = uint a + uint b - uint s"
  using assms by (simp add: uint_word_ariths mod_simps algebra_simps)

text \<open>
  The effect of \<^verbatim>\<open>increment_sent_flow\<close> on the times, as exact integers: \<open>sub\<close> is taken off all flows
  (not below zero), and the flow that sent gains \<open>amount\<close>.
\<close>

definition shifted :: "nat \<Rightarrow> u64 \<Rightarrow> int \<Rightarrow> PacketPassFairQueue \<Rightarrow> PacketPassFairQueue \<Rightarrow> bool" where
  "shifted flow amount sub m m' \<longleftrightarrow>
     0 \<le> sub \<and> uint (ftime m' flow) = uint (ftime m flow) + uint amount - sub \<and>
     (\<forall>g \<in> set (fq_queued_tree m). uint (ftime m' g) = uint (ftime m g) - sub) \<and>
     (\<forall>g \<in> set (fq_flows_list m). g \<noteq> flow \<longrightarrow> uint (ftime m' g) = max 0 (uint (ftime m g) - sub))"

text \<open>Two states that differ in the times of flows only.\<close>

definition retimed :: "PacketPassFairQueue \<Rightarrow> PacketPassFairQueue \<Rightarrow> bool" where
  "retimed m m' \<longleftrightarrow> (\<exists>t. m' = m\<lparr>fq_flows := (\<lambda>g. (fq_flows m g)\<lparr>fl_time := t g\<rparr>)\<rparr>)"

lemma retimedI:
  assumes "\<And>g. F g = (fq_flows m g)\<lparr>fl_time := fl_time (F g)\<rparr>"
  shows "retimed m (m\<lparr>fq_flows := F\<rparr>)"
proof -
  have "F = (\<lambda>g. (fq_flows m g)\<lparr>fl_time := fl_time (F g)\<rparr>)" using assms by (rule ext)
  then show ?thesis unfolding retimed_def by (intro exI [of _ "\<lambda>g. fl_time (F g)"])
    (rule arg_cong [of _ _ "\<lambda>F. m\<lparr>fq_flows := F\<rparr>"])
qed

lemma retimed_set: "retimed m (set_flow f (\<lambda>x. x\<lparr>fl_time := u x\<rparr>) m)"
  unfolding set_flow_def by (rule retimedI) simp

lemma retimed_dec:
  "retimed m (m\<lparr>fq_flows := (\<lambda>g. if g \<in> G then dec_flow flow sub g (fq_flows m g) else fq_flows m g)\<rparr>)"
  by (rule retimedI) (simp add: dec_flow_def)

lemma retimed_trans: "retimed m m1 \<Longrightarrow> retimed m1 m2 \<Longrightarrow> retimed m m2"
  by (auto simp: retimed_def)

lemma dec_time: "g \<noteq> flow \<Longrightarrow> uint (fl_time (dec_flow flow sub g x)) = max 0 (uint (fl_time x) - uint sub)"
  by (auto simp: dec_flow_def uint_sub_le not_less word_less_def word_le_def)

lemma increment_small:
  assumes "\<not> amount > FAIRQUEUE_MAX_TIME - ftime m flow" "flow \<notin> set (fq_queued_tree m)"
  shows "shifted flow amount 0 m (set_flow flow (\<lambda>x. x\<lparr>fl_time := fl_time x + amount\<rparr>) m)"
proof -
  have "uint (ftime m flow) + uint amount < 2 ^ 64"
    using assms(1) uint_max_minus [of "ftime m flow"] unfolding word_less_def by linarith
  then have "uint (ftime m flow + amount) = uint (ftime m flow) + uint amount"
    using uint_wrap_sum [of "ftime m flow" amount 0] by simp
  then show ?thesis using assms(2) unfolding shifted_def ftime_set_flow by (auto simp: ftime_def)
qed

lemma increment_large:
  assumes over: "amount > FAIRQUEUE_MAX_TIME - ftime m flow"
    and le: "\<forall>g \<in> set (fq_queued_tree m). sub \<le> ftime m g" "ftime m flow \<le> sub"
    and flows: "flow \<in> set (fq_flows_list m)" "flow \<notin> set (fq_queued_tree m)"
      "set (fq_queued_tree m) \<subseteq> set (fq_flows_list m)"
  shows "shifted flow amount (uint sub) m (set_flow flow (\<lambda>x. x\<lparr>fl_time := fl_time x + amount\<rparr>)
    (m\<lparr>fq_flows := (\<lambda>g. if g \<in> set (fq_flows_list m) then dec_flow flow sub g (fq_flows m g)
      else fq_flows m g)\<rparr>))" (is "shifted _ _ _ _ ?m'")
proof -
  have "uint (ftime m flow) + uint amount \<ge> 2 ^ 64"
    using over uint_max_minus [of "ftime m flow"] unfolding word_less_def by linarith
  moreover have "uint (ftime m flow) \<le> uint sub" using le(2) by (simp add: word_le_def)
  ultimately have "uint (ftime m flow - sub + amount) = uint (ftime m flow) + uint amount - uint sub"
    using uint_le_size(1) [of sub] uint_le_size(1) [of amount] by (intro uint_wrap_sum) linarith+
  then have 1: "uint (ftime ?m' flow) = uint (ftime m flow) + uint amount - uint sub"
    using flows(1) by (simp add: ftime_set_flow) (simp add: ftime_def dec_flow_def)
  have 2: "uint (ftime ?m' g) = max 0 (uint (ftime m g) - uint sub)"
    if "g \<in> set (fq_flows_list m)" "g \<noteq> flow" for g
    using that dec_time [of g flow sub "fq_flows m g"] by (simp add: ftime_set_flow) (simp add: ftime_def)
  have 3: "uint (ftime ?m' g) = uint (ftime m g) - uint sub" if "g \<in> set (fq_queued_tree m)" for g
  proof -
    have "uint sub \<le> uint (ftime m g)" using le(1) that by (simp add: word_le_def)
    moreover have "g \<noteq> flow" "g \<in> set (fq_flows_list m)" using flows(2,3) that by auto
    ultimately show ?thesis using 2 [of g] by simp
  qed
  show ?thesis unfolding shifted_def using 1 2 3 by simp
qed

lemma increment_exact:
  assumes flows: "distinct (fq_flows_list m)" "set (fq_queued_tree m) \<subseteq> set (fq_flows_list m)"
      "flow \<in> set (fq_flows_list m)" "flow \<notin> set (fq_queued_tree m)"
    and queued: "\<forall>f \<in> set (fq_flows_list m). fl_is_queued (fq_flows m f) \<longleftrightarrow> f \<in> set (fq_queued_tree m)"
    and order: "sorted_wrt (\<lambda>f g. compare_flows m f g < 0) (fq_queued_tree m)"
    and first: "\<forall>g \<in> set (fq_queued_tree m). ftime m flow \<le> ftime m g"
    and idle: "fq_sending_flow m = None"
  obtains m' sub where "increment_sent_flow flow amount m = Some m'" "shifted flow amount sub m m'"
    "retimed m m'"
proof (cases "amount > FAIRQUEUE_MAX_TIME - ftime m flow")
  case False
  have "increment_sent_flow flow amount m =
      Some (set_flow flow (\<lambda>x. x\<lparr>fl_time := fl_time x + amount\<rparr>) m)"
    using False queued flows idle by (simp add: increment_sent_flow_def)
  then show thesis using increment_small [OF False flows(4)] retimed_set by (rule that)
next
  case True
  define sub where "sub = (case fq_queued_tree m of [] \<Rightarrow> ftime m flow | f # _ \<Rightarrow> ftime m f)"
  have le: "\<forall>g \<in> set (fq_queued_tree m). sub \<le> ftime m g" "ftime m flow \<le> sub"
    using order first
    by (auto simp: sub_def compare_flows_less order.order_iff_strict split: list.splits)
  let ?m = "m\<lparr>fq_flows := (\<lambda>g. if g \<in> set (fq_flows_list m) then dec_flow flow sub g (fq_flows m g)
      else fq_flows m g)\<rparr>"
  have "subtract_time flow sub (fq_flows_list m) m = Some ?m"
    using queued le by (intro subtract_time_eq [OF flows(1)]) auto
  moreover have "(case fq_queued_tree m of [] \<Rightarrow> Some (ftime m flow)
      | f # _ \<Rightarrow> do { ASSERT (fl_is_queued (fq_flows m f)); Some (ftime m f) }) = Some sub"
    using queued flows by (cases "fq_queued_tree m") (auto simp: sub_def)
  ultimately have "increment_sent_flow flow amount m =
      Some (set_flow flow (\<lambda>x. x\<lparr>fl_time := fl_time x + amount\<rparr>) ?m)"
    using True queued flows(3,4) idle by (simp add: increment_sent_flow_def)
  then show thesis
    using increment_large [OF True le flows(3,4,2)] retimed_trans [OF retimed_dec retimed_set] by (rule that)
qed

section \<open>Invariant\<close>

definition fq_core :: "PacketPassFairQueue \<Rightarrow> bool" where
  "fq_core m \<longleftrightarrow>
     distinct (fq_flows_list m) \<and> set (fq_queued_tree m) \<subseteq> set (fq_flows_list m) \<and>
     (\<forall>f \<in> set (fq_flows_list m). fl_is_queued (fq_flows m f) \<longleftrightarrow> f \<in> set (fq_queued_tree m)) \<and>
     sorted_wrt (\<lambda>f g. compare_flows m f g < 0) (fq_queued_tree m) \<and>
     \<not> fq_freeing m \<and>
     (\<forall>f \<in> set (fq_queued_tree m). 0 \<le> fl_data_len (fq_flows m f) \<and> fl_data_len (fq_flows m f) \<le> fq_output_mtu m)"

definition fq_inv :: "PacketPassFairQueue \<Rightarrow> bool" where
  "fq_inv m \<longleftrightarrow> fq_core m \<and>
     (\<forall>f. fq_sending_flow m = Some f \<longrightarrow> f \<in> set (fq_flows_list m) \<and> f \<notin> set (fq_queued_tree m) \<and>
        fq_previous_flow m = None \<and> \<not> fq_schedule_job m \<and>
        (\<forall>g \<in> set (fq_queued_tree m). ftime m f \<le> ftime m g) \<and>
        0 \<le> fq_sending_len m \<and> fq_sending_len m \<le> fq_output_mtu m) \<and>
     (\<forall>f. fq_previous_flow m = Some f \<longrightarrow> f \<in> set (fq_flows_list m) \<and> f \<notin> set (fq_queued_tree m) \<and>
        fq_schedule_job m) \<and>
     (fq_sending_flow m = None \<and> \<not> fq_schedule_job m \<longrightarrow> fq_queued_tree m = [])"

lemma sorted_distinct: "sorted_wrt (\<lambda>f g. compare_flows m f g < 0) q \<Longrightarrow> distinct q"
  by (induction q) (auto simp: compare_flows_less)

lemma sorted_retime:
  assumes "sorted_wrt (\<lambda>f g. compare_flows m f g < 0) q"
    and "\<forall>g \<in> set q. uint (ftime m' g) = uint (ftime m g) - sub"
  shows "sorted_wrt (\<lambda>f g. compare_flows m' f g < 0) q"
  using assms(1)
proof (rule sorted_wrt_mono_rel [rotated])
  fix f g assume fg: "f \<in> set q" "g \<in> set q" "compare_flows m f g < 0"
  have "ftime m' f < ftime m' g \<longleftrightarrow> ftime m f < ftime m g" "ftime m' f = ftime m' g \<longleftrightarrow> ftime m f = ftime m g"
    using assms(2) fg by (auto simp: word_less_def word_uint_eq_iff)
  with fg(3) show "compare_flows m' f g < 0" by (simp add: compare_flows_less)
qed

lemma tree_insert_ok:
  assumes "sorted_wrt (\<lambda>f g. compare_flows m f g < 0) q" "f \<notin> set q"
  shows "\<exists>q'. tree_insert (compare_flows m) f q = Some q' \<and>
    sorted_wrt (\<lambda>f g. compare_flows m f g < 0) q' \<and> set q' = insert f (set q)"
  using flow_order.tree_insert_spec [of m "\<lambda>f. f" q f] assms by (simp add: ordered_by_def)

lemma compare_flows_cong:
  "ftime m' f = ftime m f \<Longrightarrow> ftime m' g = ftime m g \<Longrightarrow> compare_flows m' f g = compare_flows m f g"
  by (simp add: compare_flows_def)

lemma sorted_cong:
  assumes "sorted_wrt (\<lambda>f g. compare_flows m f g < 0) q" "\<forall>g \<in> set q. ftime m' g = ftime m g"
  shows "sorted_wrt (\<lambda>f g. compare_flows m' f g < 0) q"
  using assms by (intro sorted_retime [of m q m' 0]) auto

lemma schedule_step:
  assumes core: "fq_core m" and idle: "fq_sending_flow m = None" "fq_previous_flow m = None"
    "\<not> fq_schedule_job m" and ne: "fq_queued_tree m = q # qs"
  obtains m' where "schedule m = Some (m', [FqSend (fl_data (fq_flows m q)) (fl_data_len (fq_flows m q))])"
    "fq_inv m'" "fq_sending_flow m' = Some q" "fq_queued_tree m' = qs" "\<And>f. ftime m' f = ftime m f"
    "fq_output_mtu m' = fq_output_mtu m" "fq_flows_list m' = fq_flows_list m"
proof -
  define m' where "m' = m\<lparr>fq_queued_tree := qs, fq_flows := (fq_flows m)(q := (fq_flows m q)\<lparr>fl_is_queued := False\<rparr>),
      fq_sending_flow := Some q, fq_sending_len := fl_data_len (fq_flows m q)\<rparr>"
  have f: "fq_queued_tree m' = qs" "fq_flows_list m' = fq_flows_list m" "fq_sending_flow m' = Some q"
    "fq_sending_len m' = fl_data_len (fq_flows m q)" "fq_previous_flow m' = None" "\<not> fq_schedule_job m'"
    "fq_freeing m' = fq_freeing m" "fq_output_mtu m' = fq_output_mtu m"
    "\<And>f. fl_is_queued (fq_flows m' f) = (f \<noteq> q \<and> fl_is_queued (fq_flows m f))"
    "\<And>f. fl_data_len (fq_flows m' f) = fl_data_len (fq_flows m f)"
    and t: "\<And>f. ftime m' f = ftime m f"
    using idle by (simp_all add: m'_def ftime_def)
  have q: "q \<in> set (fq_flows_list m)" "fl_is_queued (fq_flows m q)" "q \<notin> set qs"
    "0 \<le> fl_data_len (fq_flows m q)" "fl_data_len (fq_flows m q) \<le> fq_output_mtu m" "\<not> fq_freeing m"
    using core ne sorted_distinct [of m "fq_queued_tree m"] by (auto simp: fq_core_def)
  have "sorted_wrt (\<lambda>f g. compare_flows m f g < 0) qs" using core ne by (simp add: fq_core_def)
  then have "sorted_wrt (\<lambda>f g. compare_flows m' f g < 0) qs" by (rule sorted_cong) (simp add: t)
  then have core': "fq_core m'"
    using core ne q(3) unfolding fq_core_def f by auto
  have le: "\<forall>g \<in> set qs. ftime m q \<le> ftime m g"
    using core ne by (auto simp: fq_core_def compare_flows_less order.order_iff_strict)
  have "schedule m = Some (m', [FqSend (fl_data (fq_flows m q)) (fl_data_len (fq_flows m q))])"
    using idle ne q by (simp add: schedule_def set_flow_def m'_def Let_def)
  moreover have "fq_inv m'" unfolding fq_inv_def f t using core' q le f(6) by auto
  ultimately show thesis using that f t by blast
qed

lemma schedule_ok:
  assumes "fq_core m" "fq_sending_flow m = None" "fq_previous_flow m = None"
    "\<not> fq_schedule_job m" "fq_queued_tree m = q # qs"
  shows "\<exists>m'. schedule m = Some (m', [FqSend (fl_data (fq_flows m q)) (fl_data_len (fq_flows m q))]) \<and>
    fq_inv m' \<and> fq_sending_flow m' = Some q"
  using schedule_step [OF assms] by metis

lemma job_step:
  assumes inv: "fq_inv m" and job: "fq_schedule_job m"
  obtains m' cs where "schedule_job_handler m = Some (m', cs)" "fq_inv m'"
    "case fq_queued_tree m of [] \<Rightarrow> cs = [] \<and> fq_sending_flow m' = None
     | q # _ \<Rightarrow> cs = [FqSend (fl_data (fq_flows m q)) (fl_data_len (fq_flows m q))] \<and> fq_sending_flow m' = Some q"
proof -
  let ?m = "m\<lparr>fq_schedule_job := False, fq_previous_flow := None\<rparr>"
  have s: "fq_sending_flow m = None" using inv job by (cases "fq_sending_flow m") (auto simp: fq_inv_def)
  have t: "ftime ?m f = ftime m f" for f by (simp add: ftime_def)
  have c: "compare_flows ?m f g = compare_flows m f g" for f g by (rule compare_flows_cong) (rule t)+
  have core: "fq_core ?m" using inv unfolding fq_inv_def fq_core_def c by simp
  have nf: "\<not> fq_freeing m" using inv by (simp add: fq_inv_def fq_core_def)
  show thesis
  proof (cases "fq_queued_tree m")
    case Nil
    have "fq_inv ?m" unfolding fq_inv_def using core s Nil by simp
    then show thesis using that [of ?m "[]"] Nil s nf by (simp add: schedule_job_handler_def)
  next
    case (Cons q qs)
    obtain m' where "schedule ?m = Some (m', [FqSend (fl_data (fq_flows ?m q)) (fl_data_len (fq_flows ?m q))])"
      "fq_inv m'" "fq_sending_flow m' = Some q"
      using schedule_step [OF core, of q qs] s Cons by auto
    then show thesis using that [of m'] Cons s nf by (simp add: schedule_job_handler_def)
  qed
qed

text \<open>A state with one flow's entry replaced.\<close>

lemma set_flow_core:
  assumes core: "fq_core m" and f: "f \<notin> set (fq_queued_tree m)"
    and u: "fl_is_queued (u (fq_flows m f)) = fl_is_queued (fq_flows m f)"
  shows "fq_core (set_flow f u m)"
proof -
  have t: "ftime (set_flow f u m) g = ftime m g" if "g \<in> set (fq_queued_tree m)" for g
    using that f by (auto simp: ftime_set_flow)
  have "sorted_wrt (\<lambda>f g. compare_flows m f g < 0) (fq_queued_tree m)" using core by (simp add: fq_core_def)
  then have "sorted_wrt (\<lambda>g h. compare_flows (set_flow f u m) g h < 0) (fq_queued_tree m)"
    by (rule sorted_cong) (simp add: t)
  with core f u show ?thesis unfolding fq_core_def by (auto simp: set_flow_def)
qed

lemma enqueue_core:
  assumes core: "fq_core m" and f: "f \<in> set (fq_flows_list m)" "f \<notin> set (fq_queued_tree m)"
    and len: "0 \<le> fl_data_len (fq_flows m f)" "fl_data_len (fq_flows m f) \<le> fq_output_mtu m"
  obtains q where "tree_insert (compare_flows m) f (fq_queued_tree m) = Some q"
    "set q = insert f (set (fq_queued_tree m))"
    "fq_core (set_flow f (\<lambda>x. x\<lparr>fl_is_queued := True\<rparr>) (m\<lparr>fq_queued_tree := q\<rparr>))"
proof -
  have "sorted_wrt (\<lambda>f g. compare_flows m f g < 0) (fq_queued_tree m)" using core by (simp add: fq_core_def)
  from tree_insert_ok [OF this f(2)] obtain q where q: "tree_insert (compare_flows m) f (fq_queued_tree m) = Some q"
    "sorted_wrt (\<lambda>f g. compare_flows m f g < 0) q" "set q = insert f (set (fq_queued_tree m))" by blast
  let ?m = "set_flow f (\<lambda>x. x\<lparr>fl_is_queued := True\<rparr>) (m\<lparr>fq_queued_tree := q\<rparr>)"
  have t: "ftime ?m g = ftime m g" for g by (simp add: ftime_def set_flow_def)
  from q(2) have "sorted_wrt (\<lambda>f g. compare_flows ?m f g < 0) q" by (rule sorted_cong) (simp add: t)
  then have "fq_core ?m" using core f len q(3) unfolding fq_core_def by (auto simp: set_flow_def)
  with q that show thesis by blast
qed

lemma ftime_fields [simp]:
  "ftime (m\<lparr>fq_previous_flow := p\<rparr>) = ftime m" "ftime (m\<lparr>fq_sending_flow := sf\<rparr>) = ftime m"
  "ftime (m\<lparr>fq_schedule_job := j\<rparr>) = ftime m" "ftime (m\<lparr>fq_queued_tree := q\<rparr>) = ftime m"
  "ftime (m\<lparr>fq_flows_list := l\<rparr>) = ftime m"
  by (simp_all add: ftime_def fun_eq_iff)

lemma compare_flows_fields [simp]:
  "compare_flows (m\<lparr>fq_previous_flow := p\<rparr>) = compare_flows m"
  "compare_flows (m\<lparr>fq_sending_flow := sf\<rparr>) = compare_flows m"
  "compare_flows (m\<lparr>fq_schedule_job := j\<rparr>) = compare_flows m"
  "compare_flows (m\<lparr>fq_queued_tree := q\<rparr>) = compare_flows m"
  "compare_flows (m\<lparr>fq_flows_list := l\<rparr>) = compare_flows m"
  by (simp_all add: compare_flows_def fun_eq_iff)

lemma core_fields [simp]:
  "fq_core (m\<lparr>fq_previous_flow := p\<rparr>) = fq_core m"
  "fq_core (m\<lparr>fq_sending_flow := sf\<rparr>) = fq_core m"
  "fq_core (m\<lparr>fq_schedule_job := j\<rparr>) = fq_core m"
  by (simp_all add: fq_core_def)

lemma current_time_ok:
  assumes "fq_inv m"
  obtains t where "get_current_time m = Some t" "\<forall>f. fq_sending_flow m = Some f \<longrightarrow> t = ftime m f"
proof (cases "fq_sending_flow m")
  case None
  have "\<forall>f \<in> set (fq_queued_tree m). fl_is_queued (fq_flows m f)"
    using assms unfolding fq_inv_def fq_core_def by blast
  then have "(case fq_queued_tree m of [] \<Rightarrow> Some (False, 0)
      | f # _ \<Rightarrow> do { ASSERT (fl_is_queued (fq_flows m f)); Some (True, ftime m f) }) \<noteq> None"
    by (cases "fq_queued_tree m") simp_all
  then have "get_current_time m \<noteq> None"
    using None by (simp add: get_current_time_def Let_def case_prod_unfold bind_eq_None_conv)
  then obtain t where "get_current_time m = Some t" by blast
  with that None show thesis by simp
next
  case (Some f)
  show thesis by (rule that) (simp_all add: get_current_time_def Some)
qed

text \<open>The state after the time of the flow was settled, before it is queued.\<close>

lemma raise_time:
  assumes inv: "fq_inv m" and f: "f \<in> set (fq_flows_list m)" "f \<notin> set (fq_queued_tree m)"
    "fq_sending_flow m \<noteq> Some f"
  obtains m1 where
    "(if fq_previous_flow m = Some f then Some (m\<lparr>fq_previous_flow := None\<rparr>)
      else do { time \<leftarrow> get_current_time m; Some (set_flow f (\<lambda>x. x\<lparr>fl_time := bmax_uint64 (fl_time x) time\<rparr>) m) })
     = Some m1" "fq_inv m1" "fq_previous_flow m1 \<noteq> Some f"
    "\<forall>g. fq_sending_flow m = Some g \<longrightarrow> ftime m1 g \<le> ftime m1 f"
    "fq_sending_flow m1 = fq_sending_flow m" "fq_queued_tree m1 = fq_queued_tree m"
    "fq_flows_list m1 = fq_flows_list m" "fq_output_mtu m1 = fq_output_mtu m"
    "fq_schedule_job m1 = fq_schedule_job m"
proof (cases "fq_previous_flow m = Some f")
  case True
  have "fq_sending_flow m = None" using inv True by (cases "fq_sending_flow m") (auto simp: fq_inv_def)
  moreover have "fq_inv (m\<lparr>fq_previous_flow := None\<rparr>)" using inv by (auto simp: fq_inv_def)
  ultimately show thesis using that [of "m\<lparr>fq_previous_flow := None\<rparr>"] True by simp
next
  case False
  obtain t where t: "get_current_time m = Some t" "\<forall>g. fq_sending_flow m = Some g \<longrightarrow> t = ftime m g"
    using current_time_ok [OF inv] .
  let ?m = "set_flow f (\<lambda>x. x\<lparr>fl_time := bmax_uint64 (fl_time x) t\<rparr>) m"
  have tm: "ftime ?m g = ftime m g" if "g \<noteq> f" for g using that by (simp add: ftime_set_flow)
  have "fq_core ?m" using inv f(2) by (intro set_flow_core) (auto simp: fq_inv_def)
  moreover have "ftime ?m g \<le> ftime ?m h" if "fq_sending_flow m = Some g" "h \<in> set (fq_queued_tree m)" for g h
  proof -
    have "g \<noteq> f" "h \<noteq> f" "ftime m g \<le> ftime m h" using inv that f by (auto simp: fq_inv_def)
    then show ?thesis using tm by simp
  qed
  ultimately have "fq_inv ?m" using inv unfolding fq_inv_def by simp
  moreover have "ftime ?m g \<le> ftime ?m f" if "fq_sending_flow m = Some g" for g
    using t(2) that f(3) by (auto simp: ftime_set_flow bmax_uint64_def)
  ultimately show thesis using that [of ?m] False t(1) by simp
qed

lemma send_step:
  assumes inv: "fq_inv m" and f: "f \<in> set (fq_flows_list m)" "f \<notin> set (fq_queued_tree m)"
    "fq_sending_flow m \<noteq> Some f" and len: "0 \<le> n" "n \<le> fq_output_mtu m"
  shows "\<exists>m' cs. FairQueue_input_handler_send m f d n = Some (m', cs) \<and> fq_inv m'"
proof -
  obtain m1 where m1: "(if fq_previous_flow m = Some f then Some (m\<lparr>fq_previous_flow := None\<rparr>)
      else do { time \<leftarrow> get_current_time m; Some (set_flow f (\<lambda>x. x\<lparr>fl_time := bmax_uint64 (fl_time x) time\<rparr>) m) })
     = Some m1" "fq_inv m1" "fq_previous_flow m1 \<noteq> Some f"
    and le: "\<forall>g. fq_sending_flow m = Some g \<longrightarrow> ftime m1 g \<le> ftime m1 f"
    and fl: "fq_sending_flow m1 = fq_sending_flow m" "fq_queued_tree m1 = fq_queued_tree m"
    "fq_flows_list m1 = fq_flows_list m" "fq_output_mtu m1 = fq_output_mtu m"
    "fq_schedule_job m1 = fq_schedule_job m"
    using raise_time [OF inv f] .
  let ?m2 = "set_flow f (\<lambda>x. x\<lparr>fl_data := d, fl_data_len := n\<rparr>) m1"
  have t2: "ftime ?m2 = ftime m1" by (auto simp: ftime_def set_flow_def)
  have core2: "fq_core ?m2" using m1(2) f(2) fl(2) by (intro set_flow_core) (auto simp: fq_inv_def)
  obtain q where q: "tree_insert (compare_flows ?m2) f (fq_queued_tree ?m2) = Some q"
    "set q = insert f (set (fq_queued_tree ?m2))"
    "fq_core (set_flow f (\<lambda>x. x\<lparr>fl_is_queued := True\<rparr>) (?m2\<lparr>fq_queued_tree := q\<rparr>))"
    using f fl len by (rule_tac enqueue_core [OF core2, of f]) (auto simp: set_flow_def)
  let ?m3 = "set_flow f (\<lambda>x. x\<lparr>fl_is_queued := True\<rparr>) (?m2\<lparr>fq_queued_tree := q\<rparr>)"
  have t3: "ftime ?m3 = ftime m1" by (auto simp: ftime_def set_flow_def)
  have "\<not> fl_is_queued (fq_flows m f)" "\<not> fq_freeing m" using inv f by (auto simp: fq_inv_def fq_core_def)
  then have eq: "FairQueue_input_handler_send m f d n =
      (if fq_sending_flow ?m3 = None \<and> \<not> fq_schedule_job ?m3 then schedule ?m3 else Some (?m3, []))"
    using f(3) m1(1) q(1) by (simp add: FairQueue_input_handler_send_def Let_def)
  show ?thesis
  proof (cases "fq_sending_flow m = None \<and> \<not> fq_schedule_job m")
    case True
    then have "fq_previous_flow ?m3 = None" using m1(2) fl by (cases "fq_previous_flow m1") (auto simp: fq_inv_def)
    moreover obtain g gs where "fq_queued_tree ?m3 = g # gs" using q(2) by (cases q) auto
    ultimately obtain m' cs where "schedule ?m3 = Some (m', cs)" "fq_inv m'"
      using schedule_ok [OF q(3), of g gs] True fl by auto
    then show ?thesis using eq True fl by simp
  next
    case False
    have "fq_inv ?m3"
      using q(2,3) m1(2,3) f fl le False unfolding fq_inv_def t3 by auto
    then show ?thesis using eq False fl by auto
  qed
qed

lemma retimed_core:
  assumes "fq_core m" "retimed m m'" "\<forall>g \<in> set (fq_queued_tree m). uint (ftime m' g) = uint (ftime m g) - sub"
  shows "fq_core m'"
proof -
  obtain t where m': "m' = m\<lparr>fq_flows := (\<lambda>g. (fq_flows m g)\<lparr>fl_time := t g\<rparr>)\<rparr>"
    using assms(2) by (auto simp: retimed_def)
  have "sorted_wrt (\<lambda>f g. compare_flows m f g < 0) (fq_queued_tree m)" using assms(1) by (simp add: fq_core_def)
  then have "sorted_wrt (\<lambda>f g. compare_flows m' f g < 0) (fq_queued_tree m)"
    using assms(3) by (rule sorted_retime)
  with assms(1) show ?thesis unfolding fq_core_def by (simp add: m')
qed

lemma retimed_fields:
  assumes "retimed m m'"
  shows "fq_queued_tree m' = fq_queued_tree m" "fq_flows_list m' = fq_flows_list m"
    "fq_sending_flow m' = fq_sending_flow m" "fq_previous_flow m' = fq_previous_flow m"
    "fq_output_mtu m' = fq_output_mtu m" "fq_packet_weight m' = fq_packet_weight m"
    "fl_handler_busy (fq_flows m' f) = fl_handler_busy (fq_flows m f)"
  using assms by (auto simp: retimed_def)

lemma done_step:
  assumes inv: "fq_inv m" and f: "fq_sending_flow m = Some f"
  obtains m' sub where "FairQueue_output_handler_done m =
      Some (m', FqFlowDone f # (if fl_handler_busy (fq_flows m f) then [FqHandlerBusy f] else []))"
    "fq_inv m'" "shifted f (word_of_int (fq_packet_weight m) + word_of_int (fq_sending_len m)) sub m m'"
    "fq_queued_tree m' = fq_queued_tree m" "fq_schedule_job m'"
proof -
  have i: "f \<in> set (fq_flows_list m)" "f \<notin> set (fq_queued_tree m)" "fq_previous_flow m = None"
    "\<not> fq_schedule_job m" "\<forall>g \<in> set (fq_queued_tree m). ftime m f \<le> ftime m g" "fq_core m"
    using inv f unfolding fq_inv_def by blast+
  have c: "distinct (fq_flows_list m)" "set (fq_queued_tree m) \<subseteq> set (fq_flows_list m)"
    "\<forall>f \<in> set (fq_flows_list m). fl_is_queued (fq_flows m f) \<longleftrightarrow> f \<in> set (fq_queued_tree m)"
    "sorted_wrt (\<lambda>f g. compare_flows m f g < 0) (fq_queued_tree m)" "\<not> fq_freeing m"
    using i(6) unfolding fq_core_def by blast+
  let ?m = "m\<lparr>fq_sending_flow := None, fq_previous_flow := Some f\<rparr>"
  let ?a = "word_of_int (fq_packet_weight m) + word_of_int (fq_sending_len m) :: u64"
  have nq: "\<not> fl_is_queued (fq_flows m f)" using c(3) i(1,2) by blast
  obtain m1 sub where m1: "increment_sent_flow f ?a ?m = Some m1" "shifted f ?a sub ?m m1" "retimed ?m m1"
    by (rule increment_exact [of ?m f ?a]) (use i c in simp_all)
  note r = retimed_fields [OF m1(3)]
  have core1: "fq_core m1"
    by (rule retimed_core [OF _ m1(3), of sub]) (use i(6) m1(2) in \<open>simp_all add: shifted_def\<close>)
  let ?m2 = "m1\<lparr>fq_schedule_job := True\<rparr>"
  define m3 where "m3 = (if fl_handler_busy (fq_flows m f)
      then set_flow f (\<lambda>x. x\<lparr>fl_handler_busy := False\<rparr>) ?m2 else ?m2)"
  have "fq_core (set_flow f (\<lambda>x. x\<lparr>fl_handler_busy := False\<rparr>) ?m2)"
    by (rule set_flow_core) (use core1 i(2) r in simp_all)
  then have core3: "fq_core m3" using core1 by (simp add: m3_def)
  have e: "FairQueue_output_handler_done m =
      Some (m3, FqFlowDone f # (if fl_handler_busy (fq_flows m f) then [FqHandlerBusy f] else []))"
    using f i(3,4) c(5) nq m1(1) r(7) [of f] by (simp add: FairQueue_output_handler_done_def m3_def)
  have g: "fq_sending_flow m3 = None" "fq_previous_flow m3 = Some f" "fq_schedule_job m3"
    "fq_queued_tree m3 = fq_queued_tree m" "fq_flows_list m3 = fq_flows_list m"
    using r by (simp_all add: m3_def)
  have "fq_inv m3" unfolding fq_inv_def g using core3 i(1,2) g(3) by auto
  moreover have "ftime m3 = ftime m1" by (auto simp: m3_def ftime_def set_flow_def)
  then have "shifted f ?a sub m m3" using m1(2) by (simp add: shifted_def)
  ultimately show thesis using that e g by blast
qed

lemma flow_init_step:
  assumes inv: "fq_inv m" and f: "f \<notin> set (fq_flows_list m)"
  shows "\<exists>m'. PacketPassFairQueueFlow_Init f m = Some m' \<and> fq_inv m'"
proof -
  define m1 where "m1 = m\<lparr>fq_flows := (fq_flows m)(f := (fq_flows m f)\<lparr>fl_handler_busy := False, fl_time := 0,
      fl_is_queued := False\<rparr>), fq_flows_list := fq_flows_list m @ [f]\<rparr>"
  have nq: "f \<notin> set (fq_queued_tree m)" using inv f by (auto simp: fq_inv_def fq_core_def)
  have t: "ftime m1 g = ftime m g" if "g \<noteq> f" for g using that by (simp add: ftime_def m1_def)
  have "sorted_wrt (\<lambda>f g. compare_flows m f g < 0) (fq_queued_tree m)"
    using inv by (simp add: fq_inv_def fq_core_def)
  then have "sorted_wrt (\<lambda>f g. compare_flows m1 f g < 0) (fq_queued_tree m)"
    by (rule sorted_cong) (use nq t in metis)
  then have core: "fq_core m1"
    using inv f nq unfolding fq_inv_def fq_core_def by (auto simp: m1_def)
  have "ftime m1 g = ftime m g" if "g \<in> set (fq_flows_list m)" for g using that f t by metis
  then have "fq_inv m1" using core inv f unfolding fq_inv_def fq_core_def [of m]
    by (auto simp: m1_def subset_iff)
  moreover have "PacketPassFairQueueFlow_Init f m = Some m1"
    using inv by (simp add: PacketPassFairQueueFlow_Init_def set_flow_def m1_def fq_inv_def fq_core_def)
  ultimately show ?thesis by blast
qed

lemma flow_free_step:
  assumes inv: "fq_inv m" and f: "f \<in> set (fq_flows_list m)" "fq_sending_flow m \<noteq> Some f"
  shows "\<exists>m'. PacketPassFairQueueFlow_Free f m = Some m' \<and> fq_inv m'"
proof -
  define m1 where "m1 = m\<lparr>fq_previous_flow := (if fq_previous_flow m = Some f then None else fq_previous_flow m),
      fq_queued_tree := remove1 f (fq_queued_tree m), fq_flows_list := remove1 f (fq_flows_list m)\<rparr>"
  have q: "fl_is_queued (fq_flows m f) \<longleftrightarrow> f \<in> set (fq_queued_tree m)"
    using inv f(1) by (auto simp: fq_inv_def fq_core_def)
  have c: "sorted_wrt (\<lambda>f g. compare_flows m f g < 0) (fq_queued_tree m)" "distinct (fq_flows_list m)"
    using inv by (auto simp: fq_inv_def fq_core_def)
  have d: "set (remove1 f (fq_queued_tree m)) = set (fq_queued_tree m) - {f}"
    "set (remove1 f (fq_flows_list m)) = set (fq_flows_list m) - {f}"
    using sorted_distinct [OF c(1)] c(2) by simp_all
  have "sorted_wrt (\<lambda>f g. compare_flows m f g < 0) (remove1 f (fq_queued_tree m))"
    using c(1) sorted_wrt_filter [of _ "fq_queued_tree m" "(\<noteq>) f"] distinct_remove1_removeAll [OF sorted_distinct [OF c(1)]]
    by (simp add: removeAll_filter_not_eq)
  then have core: "fq_core m1"
    using inv c(2) d unfolding fq_inv_def fq_core_def by (auto simp: m1_def)
  have "fq_inv m1" using core inv f d unfolding fq_inv_def by (auto simp: m1_def)
  moreover have "PacketPassFairQueueFlow_Free f m = Some m1"
    using f(2) q by (auto simp: PacketPassFairQueueFlow_Free_def m1_def remove1_idem Let_def)
  ultimately show ?thesis by blast
qed

section \<open>Tearing the queue down\<close>

text \<open>What holds between \<^verbatim>\<open>PacketPassFairQueue_PrepareFree\<close> and \<^verbatim>\<open>PacketPassFairQueue_Free\<close>.\<close>

definition fq_closing :: "PacketPassFairQueue \<Rightarrow> bool" where
  "fq_closing m \<longleftrightarrow> fq_freeing m \<and> distinct (fq_flows_list m) \<and> distinct (fq_queued_tree m) \<and>
     set (fq_queued_tree m) \<subseteq> set (fq_flows_list m) \<and>
     (\<forall>f \<in> set (fq_flows_list m). fl_is_queued (fq_flows m f) \<longleftrightarrow> f \<in> set (fq_queued_tree m)) \<and>
     (\<forall>f. fq_sending_flow m = Some f \<longrightarrow> f \<in> set (fq_flows_list m)) \<and>
     (\<forall>f. fq_previous_flow m = Some f \<longrightarrow> f \<in> set (fq_flows_list m))"

lemma prepare_free_closing: "fq_inv m \<Longrightarrow> fq_closing (PacketPassFairQueue_PrepareFree m)"
  using sorted_distinct [of m "fq_queued_tree m"]
  by (auto simp: fq_closing_def PacketPassFairQueue_PrepareFree_def fq_inv_def fq_core_def)

lemma flow_free_closing:
  assumes "fq_closing m" "f \<in> set (fq_flows_list m)"
  shows "\<exists>m'. PacketPassFairQueueFlow_Free f m = Some m' \<and> fq_closing m' \<and>
    fq_flows_list m' = remove1 f (fq_flows_list m)"
  using assms by (auto simp: PacketPassFairQueueFlow_Free_def fq_closing_def Let_def tree_remove_def)

lemma queue_free_closing:
  assumes "fq_closing m" "fq_flows_list m = []"
  shows "\<exists>m'. PacketPassFairQueue_Free m = Some m'"
  using assms by (auto simp: PacketPassFairQueue_Free_def fq_closing_def)

text \<open>Sending and being served leaves the set of flows alone.\<close>

lemma subtract_time_fields: "subtract_time f sub gs m = Some m' \<Longrightarrow>
    fq_flows_list m' = fq_flows_list m \<and> fq_output_mtu m' = fq_output_mtu m"
  by (induction gs arbitrary: m) (auto split: if_splits)

lemma schedule_fields: "schedule m = Some (m', cs) \<Longrightarrow> fq_flows_list m' = fq_flows_list m \<and> fq_output_mtu m' = fq_output_mtu m"
  by (auto simp: schedule_def Let_def)

lemma increment_fields: "increment_sent_flow f a m = Some m' \<Longrightarrow>
    fq_flows_list m' = fq_flows_list m \<and> fq_output_mtu m' = fq_output_mtu m"
  by (auto simp: increment_sent_flow_def bind_eq_Some_conv dest: subtract_time_fields split: if_splits)

lemma serve_fields:
  "FairQueue_input_handler_send m f d n = Some (m', cs) \<Longrightarrow> fq_flows_list m' = fq_flows_list m \<and> fq_output_mtu m' = fq_output_mtu m"
  "schedule_job_handler m = Some (m', cs) \<Longrightarrow> fq_flows_list m' = fq_flows_list m \<and> fq_output_mtu m' = fq_output_mtu m"
  "FairQueue_output_handler_done m = Some (m', cs) \<Longrightarrow> fq_flows_list m' = fq_flows_list m \<and> fq_output_mtu m' = fq_output_mtu m"
  by (auto simp: FairQueue_input_handler_send_def schedule_job_handler_def FairQueue_output_handler_done_def
      Let_def bind_eq_Some_conv dest!: schedule_fields increment_fields split: if_splits)

section \<open>The queue as a machine\<close>

text \<open>
  The environment: a flow is initialised or freed (not while it sends), an idle flow sends a packet
  of at most the MTU, the output finishes the packet it was given, the schedule job runs when it is
  set, a busy handler is set for the flow that is sending. The state carries the calls made so far.
\<close>

datatype fairqueue_event =
    FqFlowInit nat | FqFlowFree nat | FqPacket nat bytes | FqOutputDone | FqJob | FqSetBusy nat | FqCancel nat

type_synonym fairqueue_state = "PacketPassFairQueue \<times> fairqueue_call list"

definition fq_log :: "fairqueue_call list \<Rightarrow> (PacketPassFairQueue \<times> fairqueue_call list) option
    \<Rightarrow> fairqueue_state option" where
  "fq_log tr r = map_option (\<lambda>(m, cs). (m, tr @ cs)) r"

fun fq_step :: "fairqueue_state \<Rightarrow> fairqueue_event \<Rightarrow> fairqueue_state option" where
  "fq_step (m, tr) (FqFlowInit f) = map_option (\<lambda>m'. (m', tr)) (PacketPassFairQueueFlow_Init f m)"
| "fq_step (m, tr) (FqFlowFree f) = map_option (\<lambda>m'. (m', tr)) (PacketPassFairQueueFlow_Free f m)"
| "fq_step (m, tr) (FqPacket f d) = fq_log tr (FairQueue_input_handler_send m f d (int (length d)))"
| "fq_step (m, tr) FqOutputDone = fq_log tr (FairQueue_output_handler_done m)"
| "fq_step (m, tr) FqJob = fq_log tr (schedule_job_handler m)"
| "fq_step (m, tr) (FqSetBusy f) = map_option (\<lambda>m'. (m', tr)) (PacketPassFairQueueFlow_SetBusyHandler f m)"
| "fq_step (m, tr) (FqCancel f) = map_option (\<lambda>cs. (m, tr @ cs)) (PacketPassFairQueueFlow_RequestCancel f m)"

fun fq_enabled :: "fairqueue_state \<Rightarrow> fairqueue_event \<Rightarrow> bool" where
  "fq_enabled (m, tr) (FqFlowInit f) \<longleftrightarrow> f \<notin> set (fq_flows_list m)"
| "fq_enabled (m, tr) (FqFlowFree f) \<longleftrightarrow> f \<in> set (fq_flows_list m) \<and> fq_sending_flow m \<noteq> Some f"
| "fq_enabled (m, tr) (FqPacket f d) \<longleftrightarrow> f \<in> set (fq_flows_list m) \<and> f \<notin> set (fq_queued_tree m) \<and>
     fq_sending_flow m \<noteq> Some f \<and> int (length d) \<le> fq_output_mtu m"
| "fq_enabled (m, tr) FqOutputDone \<longleftrightarrow> fq_sending_flow m \<noteq> None"
| "fq_enabled (m, tr) FqJob \<longleftrightarrow> fq_schedule_job m"
| "fq_enabled (m, tr) (FqSetBusy f) \<longleftrightarrow> fq_sending_flow m = Some f"
| "fq_enabled (m, tr) (FqCancel f) \<longleftrightarrow> fq_sending_flow m = Some f \<and> fq_use_cancel m"

definition fq_init :: "fairqueue_state \<Rightarrow> bool" where
  "fq_init s \<longleftrightarrow> (\<exists>mtu hc uc w mem. 0 \<le> mtu \<and> PacketPassFairQueue_Init mtu hc uc w mem = Some (1, fst s))"

lemma set_busy_inv:
  assumes inv: "fq_inv m" and f: "fq_sending_flow m = Some f"
  shows "\<exists>m'. PacketPassFairQueueFlow_SetBusyHandler f m = Some m' \<and> fq_inv m'"
proof -
  let ?m = "set_flow f (\<lambda>x. x\<lparr>fl_handler_busy := True\<rparr>) m"
  have "f \<notin> set (fq_queued_tree m)" "fq_core m" "\<not> fq_freeing m"
    using inv f unfolding fq_inv_def fq_core_def by blast+
  then have "fq_core ?m" by (intro set_flow_core) simp_all
  moreover have "ftime ?m = ftime m" by (auto simp: ftime_def set_flow_def)
  ultimately have "fq_inv ?m" using inv unfolding fq_inv_def by simp
  then show ?thesis using f \<open>\<not> fq_freeing m\<close> by (simp add: PacketPassFairQueueFlow_SetBusyHandler_def)
qed

lemma fq_step_inv:
  assumes "fq_inv (fst s)" "fq_enabled s e"
  shows "\<exists>s'. fq_step s e = Some s' \<and> fq_inv (fst s')"
proof (cases s)
  case (Pair m tr)
  have inv: "fq_inv m" using assms(1) Pair by simp
  show ?thesis
  proof (cases e)
    case (FqFlowInit f)
    then show ?thesis using flow_init_step [OF inv, of f] assms(2) Pair by auto
  next
    case (FqFlowFree f)
    then show ?thesis using flow_free_step [OF inv, of f] assms(2) Pair by auto
  next
    case (FqPacket f d)
    then show ?thesis using send_step [OF inv, of f "int (length d)" d] assms(2) Pair by (auto simp: fq_log_def)
  next
    case FqOutputDone
    then obtain f where "fq_sending_flow m = Some f" using assms(2) Pair by auto
    from done_step [OF inv this] obtain m' cs where "FairQueue_output_handler_done m = Some (m', cs)" "fq_inv m'"
      by metis
    then show ?thesis using FqOutputDone Pair by (simp add: fq_log_def)
  next
    case FqJob
    then have "fq_schedule_job m" using assms(2) Pair by simp
    from job_step [OF inv this] obtain m' cs where "schedule_job_handler m = Some (m', cs)" "fq_inv m'"
      by metis
    then show ?thesis using FqJob Pair by (simp add: fq_log_def)
  next
    case (FqSetBusy f)
    then show ?thesis using set_busy_inv [OF inv, of f] assms(2) Pair by auto
  next
    case (FqCancel f)
    then have "fq_sending_flow m = Some f" "fq_use_cancel m" using assms(2) Pair by simp_all
    moreover from this have "\<not> fq_freeing m" "\<not> fq_schedule_job m"
      using inv unfolding fq_inv_def fq_core_def by blast+
    ultimately show ?thesis using FqCancel Pair inv by (simp add: PacketPassFairQueueFlow_RequestCancel_def)
  qed
qed

lemma fq_Init_inv: "PacketPassFairQueue_Init mtu hc uc w mem = Some (1, m) \<Longrightarrow> fq_inv m"
  by (auto simp: PacketPassFairQueue_Init_def Let_def split: if_splits)
    (simp_all add: fq_inv_def fq_core_def)

lemma fq_Init_succeeds:
  assumes "0 \<le> mtu" "0 < w" "mtu + w < 2 ^ 64" "\<not> uc \<or> hc"
  shows "\<exists>m. PacketPassFairQueue_Init mtu hc uc w mem = Some (1, m) \<and> fq_flows_list m = [] \<and> fq_output_mtu m = mtu"
proof -
  have "uint (word_of_int mtu :: u64) = mtu" "uint (word_of_int w :: u64) = w" using assms by simp_all
  then have "(word_of_int w :: u64) \<le> FAIRQUEUE_MAX_TIME - word_of_int mtu"
    unfolding word_le_def uint_max_minus using assms by simp
  moreover have "(word_of_int mtu :: u64) \<le> FAIRQUEUE_MAX_TIME" using not_above_max by (metis linorder_not_le)
  ultimately show ?thesis using assms by (simp add: PacketPassFairQueue_Init_def Let_def)
qed

lemma fq_init_inv: "fq_init s \<Longrightarrow> fq_inv (fst s)"
  using fq_Init_inv by (auto simp: fq_init_def)

interpretation fair_queue: machine fq_init fq_step fq_enabled "\<lambda>s. fq_inv (fst s)"
  by unfold_locales (blast intro: fq_init_inv fq_step_inv)+

section \<open>Properties\<close>

lemma fq_inv_busy:
  assumes "fq_inv m"
  shows "sorted_wrt (\<lambda>f g. compare_flows m f g < 0) (fq_queued_tree m)"
    "fq_queued_tree m \<noteq> [] \<longrightarrow> fq_sending_flow m \<noteq> None \<or> fq_schedule_job m"
    "fq_sending_flow m \<noteq> None \<longrightarrow> 0 \<le> fq_sending_len m \<and> fq_sending_len m \<le> fq_output_mtu m"
proof -
  show "sorted_wrt (\<lambda>f g. compare_flows m f g < 0) (fq_queued_tree m)"
    using assms unfolding fq_inv_def fq_core_def by blast
  have "fq_sending_flow m = None \<and> \<not> fq_schedule_job m \<longrightarrow> fq_queued_tree m = []"
    using assms unfolding fq_inv_def by (elim conjE)
  then show "fq_queued_tree m \<noteq> [] \<longrightarrow> fq_sending_flow m \<noteq> None \<or> fq_schedule_job m" by metis
  have "0 \<le> fq_sending_len m \<and> fq_sending_len m \<le> fq_output_mtu m" if "fq_sending_flow m = Some f" for f
    using assms that unfolding fq_inv_def by blast
  then show "fq_sending_flow m \<noteq> None \<longrightarrow> 0 \<le> fq_sending_len m \<and> fq_sending_len m \<le> fq_output_mtu m"
    by (metis not_None_eq)
qed

text \<open>
  C19. The fair queue is safe and work-conserving: in every run in which flows come and go, send packets and
  are served, no assertion fails and the search tree stays ordered although the times of its entries
  are changed in place; the output is never idle while a packet waits, unless the job that serves
  the next one is already pending; and every packet passed on is within the output's MTU bounds.
\<close>

theorem fair_queue_safe:
  assumes "PacketPassFairQueue_Init mtu hc uc w mem = Some (1, m)" "0 \<le> mtu"
    and "admissible fq_enabled fq_step (m, []) es"
  shows "\<exists>m' tr. exec fq_step (m, []) es = Some (m', tr) \<and>
    sorted_wrt (\<lambda>f g. compare_flows m' f g < 0) (fq_queued_tree m') \<and>
    (fq_queued_tree m' \<noteq> [] \<longrightarrow> fq_sending_flow m' \<noteq> None \<or> fq_schedule_job m') \<and>
    (fq_sending_flow m' \<noteq> None \<longrightarrow> 0 \<le> fq_sending_len m' \<and> fq_sending_len m' \<le> fq_output_mtu m')"
proof -
  have "fq_init (m, [])" unfolding fq_init_def fst_conv using assms(1,2) by blast
  from fair_queue.run_safe [OF this assms(3)]
  obtain s' where "exec fq_step (m, []) es = Some s'" "fq_inv (fst s')" by blast
  then have r: "exec fq_step (m, []) es = Some (fst s', snd s')" "fq_inv (fst s')" by simp_all
  then show ?thesis using fq_inv_busy [OF r(2)] by blast
qed

definition no_flow :: flow where
  "no_flow = \<lparr>fl_handler_busy = False, fl_time = 7, fl_is_queued = True, fl_data = [], fl_data_len = 0\<rparr>"

definition fq0 :: PacketPassFairQueue where
  "fq0 = \<lparr>fq_output_mtu = 4, fq_use_cancel = False, fq_packet_weight = 1, fq_sending_flow = None,
    fq_sending_len = 0, fq_previous_flow = None, fq_queued_tree = [], fq_flows_list = [],
    fq_flows = (\<lambda>_. no_flow), fq_freeing = False, fq_schedule_job = False\<rparr>"

lemma fq0_Init: "PacketPassFairQueue_Init 4 False False 1 (\<lambda>_. no_flow) = Some (1, fq0)"
  by (simp add: PacketPassFairQueue_Init_def fq0_def word_le_def uint_max_minus Let_def
      unsigned_minus_1_eq_mask mask_eq_exp_minus_1)

theorem fair_queue_safe_witness:
  "\<exists>m' tr. exec fq_step (fq0, []) [FqFlowInit 1, FqFlowInit 2, FqPacket 2 [5], FqPacket 1 [6, 7], FqOutputDone, FqJob]
      = Some (m', tr) \<and>
    sorted_wrt (\<lambda>f g. compare_flows m' f g < 0) (fq_queued_tree m') \<and>
    (fq_queued_tree m' \<noteq> [] \<longrightarrow> fq_sending_flow m' \<noteq> None \<or> fq_schedule_job m') \<and>
    (fq_sending_flow m' \<noteq> None \<longrightarrow> 0 \<le> fq_sending_len m' \<and> fq_sending_len m' \<le> fq_output_mtu m')"
proof (rule fair_queue_safe [OF fq0_Init])
  show "admissible fq_enabled fq_step (fq0, [])
      [FqFlowInit 1, FqFlowInit 2, FqPacket 2 [5], FqPacket 1 [6, 7], FqOutputDone, FqJob]"
    by code_simp
qed simp

text \<open>
  C20. The arithmetic of virtual time is exact across the wrap of the 64-bit counter: when a flow finishes a packet
  its time grows by exactly the packet's length plus the weight, relative to every waiting flow; the
  common amount that is taken off when the counter would overflow never makes a waiting flow's time
  wrap, and the temporary underflow of the finished flow's time ends at the right value.
\<close>

theorem fair_queue_time_exact:
  assumes "fq_inv m" "fq_sending_flow m = Some f"
  shows "\<exists>m' sub. FairQueue_output_handler_done m =
      Some (m', FqFlowDone f # (if fl_handler_busy (fq_flows m f) then [FqHandlerBusy f] else [])) \<and>
    0 \<le> sub \<and>
    uint (ftime m' f) = uint (ftime m f) +
      uint (word_of_int (fq_packet_weight m) + word_of_int (fq_sending_len m) :: u64) - sub \<and>
    (\<forall>g \<in> set (fq_queued_tree m). uint (ftime m' g) = uint (ftime m g) - sub)"
  using done_step [OF assms] unfolding shifted_def by metis

definition fq_wrap :: PacketPassFairQueue where
  "fq_wrap = fq0\<lparr>fq_flows_list := [1, 2], fq_queued_tree := [1], fq_sending_flow := Some 2, fq_sending_len := 3,
     fq_flows := (\<lambda>f. if f = 1 then no_flow\<lparr>fl_time := -1\<rparr> else no_flow\<lparr>fl_time := -2, fl_is_queued := False\<rparr>)\<rparr>"

theorem fair_queue_time_exact_witness:
  "\<exists>m' sub. FairQueue_output_handler_done fq_wrap = Some (m', [FqFlowDone 2]) \<and> 0 \<le> sub \<and>
    uint (ftime m' 2) = uint (-2 :: u64) + 4 - sub \<and> uint (ftime m' 1) = uint (-1 :: u64) - sub"
proof -
  have "fq_inv fq_wrap" "fq_sending_flow fq_wrap = Some 2"
    by (simp_all add: fq_inv_def fq_core_def fq_wrap_def fq0_def no_flow_def ftime_def word_le_def
        unsigned_minus_1_eq_mask mask_eq_exp_minus_1)
  from fair_queue_time_exact [OF this] show ?thesis
    by (simp add: fq_wrap_def fq0_def no_flow_def ftime_def)
qed

text \<open>
  C21. The flow with the smallest virtual time is served next: when the schedule job runs, the packet
  of a waiting flow whose time no other waiting flow undercuts is passed on, with its data and length, and nothing is
  passed on only when no flow waits.
\<close>

theorem fair_queue_serves_least:
  assumes "fq_inv m" "fq_schedule_job m"
  shows "\<exists>m' cs. schedule_job_handler m = Some (m', cs) \<and>
    (if fq_queued_tree m = [] then cs = []
     else \<exists>q \<in> set (fq_queued_tree m). (\<forall>g \<in> set (fq_queued_tree m). ftime m q \<le> ftime m g) \<and>
       cs = [FqSend (fl_data (fq_flows m q)) (fl_data_len (fq_flows m q))] \<and> fq_sending_flow m' = Some q)"
proof -
  obtain m' cs where r: "schedule_job_handler m = Some (m', cs)" "fq_inv m'"
    "case fq_queued_tree m of [] \<Rightarrow> cs = [] \<and> fq_sending_flow m' = None
     | q # _ \<Rightarrow> cs = [FqSend (fl_data (fq_flows m q)) (fl_data_len (fq_flows m q))] \<and> fq_sending_flow m' = Some q"
    by (rule job_step [OF assms])
  have s: "sorted_wrt (\<lambda>f g. compare_flows m f g < 0) (fq_queued_tree m)"
    using assms(1) by (simp add: fq_inv_def fq_core_def)
  show ?thesis
  proof (cases "fq_queued_tree m")
    case Nil
    then show ?thesis using r by simp
  next
    case (Cons q qs)
    have "\<forall>g \<in> set qs. ftime m q \<le> ftime m g"
      using s unfolding Cons by (auto simp: compare_flows_less order.order_iff_strict)
    then have q: "q \<in> set (fq_queued_tree m)" "\<forall>g \<in> set (fq_queued_tree m). ftime m q \<le> ftime m g"
      "cs = [FqSend (fl_data (fq_flows m q)) (fl_data_len (fq_flows m q))]" "fq_sending_flow m' = Some q"
      "(fq_queued_tree m = []) = False"
      using r(3) Cons by simp_all
    show ?thesis unfolding q(5) if_False using r(1) q(1-4) by blast
  qed
qed

theorem fair_queue_serves_least_witness:
  "\<exists>m' cs. schedule_job_handler (fq_wrap\<lparr>fq_sending_flow := None, fq_schedule_job := True\<rparr>) = Some (m', cs) \<and>
    cs = [FqSend [] 0] \<and> fq_sending_flow m' = Some 1"
proof -
  have "fq_inv (fq_wrap\<lparr>fq_sending_flow := None, fq_schedule_job := True\<rparr>)"
    "fq_schedule_job (fq_wrap\<lparr>fq_sending_flow := None, fq_schedule_job := True\<rparr>)"
    by (simp_all add: fq_inv_def fq_core_def fq_wrap_def fq0_def no_flow_def ftime_def)
  from fair_queue_serves_least [OF this] show ?thesis
    by (simp add: fq_wrap_def fq0_def no_flow_def)
qed

declare tree_remove_def [simp del]

end
