(* ===== verification/PacketBuffer.thy ===== *)
theory PacketBuffer
  imports ChunkBuffer PacketProto
begin

text \<open>
  The buffering pieces of the send path: flow/PacketBuffer.c (a queue of packets between a
  receive and a pass interface, on a circular buffer), flow/SinglePacketBuffer.c,
  flow/BufferWriter.c and flow/PacketProtoFlow.c, which chains a writer, an encoder and a buffer.

  Handlers return the new state and the calls on the interfaces; a packet passed on is the bytes found
  at the pointer at the time of the call. \<open>alloc\<close> stands for \<^verbatim>\<open>BAllocArray\<close> and \<^verbatim>\<open>BAlloc\<close>.
\<close>

section \<open>PacketBuffer.c\<close>

record PacketBuffer =
  pb_input_mtu :: int
  pb_buf :: ChunkBuffer2

datatype buffer_call = BufRecv int | BufSend bytes

text \<open>\<^verbatim>\<open>PacketRecvInterface_Receiver_Recv(buf->input, buf->buf.input_dest)\<close> and
  \<^verbatim>\<open>PacketPassInterface_Sender_Send(buf->output, buf->buf.output_dest, buf->buf.output_avail)\<close>\<close>

definition pb_recv :: "PacketBuffer \<Rightarrow> buffer_call list option" where
  "pb_recv buf = map_option (\<lambda>d. [BufRecv d]) (cb_input_dest (pb_buf buf))"

definition pb_send :: "PacketBuffer \<Rightarrow> buffer_call list option" where
  "pb_send buf = do {
     ASSERT (cb_output_avail (pb_buf buf) \<ge> 0);
     d \<leftarrow> cb_output_dest (pb_buf buf);
     p \<leftarrow> mem_read (cb_buffer (pb_buf buf)) (nat d) (nat (cb_output_avail (pb_buf buf)));
     Some [BufSend p]
   }"

definition PacketBuffer_input_handler_done ::
  "PacketBuffer \<Rightarrow> int \<Rightarrow> (PacketBuffer \<times> buffer_call list) option" where
  "PacketBuffer_input_handler_done buf in_len = do {
     ASSERT (in_len \<ge> 0);
     ASSERT (in_len \<le> pb_input_mtu buf);
     let was_empty = (cb_output_avail (pb_buf buf) < 0);
     b \<leftarrow> ChunkBuffer2_SubmitPacket (pb_buf buf) in_len;
     let buf = buf\<lparr>pb_buf := b\<rparr>;
     cs1 \<leftarrow> (if cb_input_avail (pb_buf buf) \<ge> pb_input_mtu buf then pb_recv buf else Some []);
     cs2 \<leftarrow> (if was_empty then pb_send buf else Some []);
     Some (buf, cs1 @ cs2)
   }"

definition PacketBuffer_output_handler_done ::
  "PacketBuffer \<Rightarrow> (PacketBuffer \<times> buffer_call list) option" where
  "PacketBuffer_output_handler_done buf = do {
     let was_full = (cb_input_avail (pb_buf buf) < pb_input_mtu buf);
     b \<leftarrow> ChunkBuffer2_ConsumePacket (pb_buf buf);
     let buf = buf\<lparr>pb_buf := b\<rparr>;
     cs1 \<leftarrow> (if was_full \<and> cb_input_avail (pb_buf buf) \<ge> pb_input_mtu buf then pb_recv buf else Some []);
     cs2 \<leftarrow> (if cb_output_avail (pb_buf buf) \<ge> 0 then pb_send buf else Some []);
     Some (buf, cs1 @ cs2)
   }"

text \<open>The result is the object with the calls made, \<open>None\<close> inside for the return value 0.\<close>

definition PacketBuffer_Init ::
  "int \<Rightarrow> int \<Rightarrow> int \<Rightarrow> (int \<Rightarrow> bytes option) \<Rightarrow> (PacketBuffer \<times> buffer_call list) option option" where
  "PacketBuffer_Init input_mtu output_mtu num_packets alloc = do {
     ASSERT (output_mtu \<ge> input_mtu);
     ASSERT (num_packets > 0);
     let num_blocks = ChunkBuffer2_calc_blocks input_mtu num_packets;
     if num_blocks < 0 then Some None
     else (case alloc num_blocks of
         None \<Rightarrow> Some None
       | Some mem \<Rightarrow> do {
           b \<leftarrow> ChunkBuffer2_Init mem num_blocks input_mtu;
           let buf = \<lparr>pb_input_mtu = input_mtu, pb_buf = b\<rparr>;
           cs \<leftarrow> pb_recv buf;
           Some (Some (buf, cs))
         })
   }"

section \<open>SinglePacketBuffer.c\<close>

definition SinglePacketBuffer_input_handler_done :: "bytes \<Rightarrow> int \<Rightarrow> buffer_call list option" where
  "SinglePacketBuffer_input_handler_done buf in_len = do {
     p \<leftarrow> mem_read buf 0 (nat in_len);
     Some [BufSend p]
   }"

definition SinglePacketBuffer_output_handler_done :: "buffer_call list" where
  "SinglePacketBuffer_output_handler_done = [BufRecv 0]"

definition SinglePacketBuffer_Init ::
  "int \<Rightarrow> int \<Rightarrow> (int \<Rightarrow> bytes option) \<Rightarrow> (bytes \<times> buffer_call list) option option" where
  "SinglePacketBuffer_Init input_mtu output_mtu alloc = do {
     ASSERT (output_mtu \<ge> input_mtu);
     case alloc input_mtu of
       None \<Rightarrow> Some None
     | Some buf \<Rightarrow> Some (Some (buf, [BufRecv 0]))
   }"

section \<open>BufferWriter.c\<close>

record BufferWriter =
  bw_out_have :: bool
  bw_out :: bytes
  bw_mtu :: int
  bw_writing :: bool

definition BufferWriter_output_handler_recv :: "BufferWriter \<Rightarrow> bytes \<Rightarrow> BufferWriter option" where
  "BufferWriter_output_handler_recv w data = do {
     ASSERT (\<not> bw_out_have w);
     Some (w\<lparr>bw_out_have := True, bw_out := data\<rparr>)
   }"

text \<open>\<open>w\<close> is the uninitialised struct.\<close>

definition BufferWriter_Init :: "BufferWriter \<Rightarrow> int \<Rightarrow> BufferWriter option" where
  "BufferWriter_Init w mtu = do {
     ASSERT (mtu \<ge> 0);
     Some (w\<lparr>bw_out_have := False, bw_mtu := mtu, bw_writing := False\<rparr>)
   }"

text \<open>The result is the return value, with the buffer it points the caller to.\<close>

definition BufferWriter_StartPacket :: "BufferWriter \<Rightarrow> (bytes option \<times> BufferWriter) option" where
  "BufferWriter_StartPacket w = do {
     ASSERT (\<not> bw_writing w);
     if \<not> bw_out_have w then Some (None, w)
     else Some (Some (bw_out w), w\<lparr>bw_writing := True\<rparr>)
   }"

text \<open>The buffer with what the caller wrote into it, and the length, go to the receiver.\<close>

definition BufferWriter_EndPacket :: "BufferWriter \<Rightarrow> int \<Rightarrow> (BufferWriter \<times> bytes \<times> int) option" where
  "BufferWriter_EndPacket w len = do {
     ASSERT (len \<ge> 0);
     ASSERT (len \<le> bw_mtu w);
     ASSERT (bw_out_have w);
     ASSERT (bw_writing w);
     Some (w\<lparr>bw_out_have := False, bw_writing := False\<rparr>, bw_out w, len)
   }"

section \<open>PacketProtoFlow.c\<close>

record PacketProtoFlow =
  ppf_ainput :: BufferWriter
  ppf_encoder :: PacketProtoEncoder
  ppf_buffer :: PacketBuffer

definition PacketProtoFlow_Init ::
  "BufferWriter \<Rightarrow> int \<Rightarrow> int \<Rightarrow> int \<Rightarrow> (int \<Rightarrow> bytes option)
    \<Rightarrow> (PacketProtoFlow \<times> buffer_call list) option option" where
  "PacketProtoFlow_Init w input_mtu num_packets output_mtu alloc = do {
     ASSERT (input_mtu \<ge> 0);
     ASSERT (input_mtu \<le> PACKETPROTO_MAXPAYLOAD);
     ASSERT (num_packets > 0);
     ASSERT (output_mtu \<ge> PACKETPROTO_ENCLEN input_mtu);
     ainput \<leftarrow> BufferWriter_Init w input_mtu;
     encoder \<leftarrow> PacketProtoEncoder_Init (bw_mtu ainput);
     r \<leftarrow> PacketBuffer_Init (ppe_output_mtu encoder) output_mtu num_packets alloc;
     case r of
       None \<Rightarrow> Some None
     | Some (buffer, cs) \<Rightarrow>
         Some (Some (\<lparr>ppf_ainput = ainput, ppf_encoder = encoder, ppf_buffer = buffer\<rparr>, cs))
   }"

section \<open>The packet buffer as a machine\<close>

lemma cb_output:
  assumes "cb_invar b"
  shows "case cb_contents b of
      [] \<Rightarrow> cb_output_dest b = None \<and> cb_output_avail b = -1
    | p # _ \<Rightarrow> cb_output_avail b = int (length p) \<and>
        (\<exists>d. cb_output_dest b = Some d \<and> mem_read (cb_buffer b) (nat d) (length p) = Some p)"
proof -
  obtain ps1 ps2 where lay: "cb_layout b ps1 ps2" and out: "cb_assert_output b"
    using assms by (auto simp: cb_invar_def cb_assert_io_def)
  note o = out [unfolded assert_output_iff [OF lay]]
  show ?thesis
  proof (cases "0 < cb_used b")
    case True
    obtain p ps where "ps1 = p # ps"
      "mem_read (cb_buffer b) (nat (4 * (cb_start b + 1))) (length p) = Some p"
      using layout_first [OF lay True] by metis
    then show ?thesis using o layout_contents [OF lay] by simp
  next
    case False
    then have "ps1 @ ps2 = []"
      using layout_empty [OF lay] lay by (auto simp: cb_layout_def cb_assert_buffer_def)
    then show ?thesis using o layout_contents [OF lay] by simp
  qed
qed

text \<open>
  The environment: the input fills the place it was offered with a packet of at most its MTU, the
  output is done with the packet it was given. Ghost fields: where the input may write, whether the
  output is busy, the packets taken and the packets the output is done with.
\<close>

record buffer_state =
  bs_buf :: PacketBuffer
  bs_recv :: "int option"
  bs_sending :: "bytes option"
  bs_taken :: "bytes list"
  bs_passed :: "bytes list"

datatype buffer_event = BufPacket bytes | BufDone

fun buffer_apply :: "buffer_call list \<Rightarrow> buffer_state \<Rightarrow> buffer_state option" where
  "buffer_apply [] s = Some s"
| "buffer_apply (BufRecv d # cs) s = do {
     ASSERT (bs_recv s = None);
     buffer_apply cs (s\<lparr>bs_recv := Some d\<rparr>)
   }"
| "buffer_apply (BufSend p # cs) s = do {
     ASSERT (bs_sending s = None);
     ASSERT (int (length p) \<le> pb_input_mtu (bs_buf s));
     buffer_apply cs (s\<lparr>bs_sending := Some p\<rparr>)
   }"

fun buffer_step :: "buffer_state \<Rightarrow> buffer_event \<Rightarrow> buffer_state option" where
  "buffer_step s (BufPacket p) = do {
     d \<leftarrow> bs_recv s;
     m \<leftarrow> mem_write (cb_buffer (pb_buf (bs_buf s))) (nat d) p;
     (buf, cs) \<leftarrow> PacketBuffer_input_handler_done
        ((bs_buf s)\<lparr>pb_buf := (pb_buf (bs_buf s))\<lparr>cb_buffer := m\<rparr>\<rparr>) (int (length p));
     buffer_apply cs (s\<lparr>bs_recv := None, bs_taken := bs_taken s @ [p], bs_buf := buf\<rparr>)
   }"
| "buffer_step s BufDone = do {
     p \<leftarrow> bs_sending s;
     (buf, cs) \<leftarrow> PacketBuffer_output_handler_done (bs_buf s);
     buffer_apply cs (s\<lparr>bs_sending := None, bs_passed := bs_passed s @ [p], bs_buf := buf\<rparr>)
   }"

fun buffer_enabled :: "buffer_state \<Rightarrow> buffer_event \<Rightarrow> bool" where
  "buffer_enabled s (BufPacket p) \<longleftrightarrow> bs_recv s \<noteq> None \<and> int (length p) \<le> pb_input_mtu (bs_buf s)"
| "buffer_enabled s BufDone \<longleftrightarrow> bs_sending s \<noteq> None"

definition pb_ok :: "nat \<Rightarrow> PacketBuffer \<Rightarrow> bool" where
  "pb_ok num buf \<longleftrightarrow> cb_invar (pb_buf buf) \<and> 0 \<le> pb_input_mtu buf \<and> pb_input_mtu buf \<le> INT_MAX \<and> 0 < num \<and>
     cb_mtu (pb_buf buf) = blocks (pb_input_mtu buf) \<and>
     (1 + blocks (pb_input_mtu buf)) * (int num + 1) \<le> cb_size (pb_buf buf) \<and>
     (\<forall>p \<in> set (cb_contents (pb_buf buf)). int (length p) \<le> pb_input_mtu buf)"

definition pb_open :: "PacketBuffer \<Rightarrow> bool" where
  "pb_open buf \<longleftrightarrow> cb_input_avail (pb_buf buf) \<ge> pb_input_mtu buf"

definition buffer_inv :: "nat \<Rightarrow> buffer_state \<Rightarrow> bool" where
  "buffer_inv num s \<longleftrightarrow> pb_ok num (bs_buf s) \<and>
     bs_taken s = bs_passed s @ cb_contents (pb_buf (bs_buf s)) \<and>
     bs_sending s = (case cb_contents (pb_buf (bs_buf s)) of [] \<Rightarrow> None | p # _ \<Rightarrow> Some p) \<and>
     bs_recv s = (if pb_open (bs_buf s) then cb_input_dest (pb_buf (bs_buf s)) else None)"

lemma pb_recv_ok:
  assumes "pb_ok num buf" "pb_open buf"
  shows "cb_input_dest (pb_buf buf) \<noteq> None"
  using assms by (auto simp: pb_ok_def pb_open_def cb_invar_def cb_assert_io_def cb_assert_input_def split: if_splits)

lemma pb_send_ok:
  assumes "pb_ok num buf" "cb_contents (pb_buf buf) = p # ps"
  shows "pb_send buf = Some [BufSend p]"
  using assms cb_output [of "pb_buf buf"] by (auto simp: pb_ok_def pb_send_def)

lemma pb_room:
  assumes "pb_ok num buf" "length (cb_contents (pb_buf buf)) < num"
  shows "pb_open buf"
proof -
  have "cb_can_put (replicate (nat (pb_input_mtu buf)) 0) (pb_buf buf)"
    using assms by (intro cb_room [where mtu = "pb_input_mtu buf" and num = num]) (auto simp: pb_ok_def)
  with assms show ?thesis by (simp add: cb_can_put_def pb_ok_def pb_open_def)
qed

lemma packet_in_step:
  assumes inv: "buffer_inv num s" and en: "buffer_enabled s (BufPacket p)"
  shows "\<exists>s'. buffer_step s (BufPacket p) = Some s' \<and> buffer_inv num s'"
proof -
  let ?buf = "bs_buf s" and ?b = "pb_buf (bs_buf s)"
  have ok: "pb_ok num ?buf" and len: "int (length p) \<le> pb_input_mtu ?buf" and op: "pb_open ?buf"
    and r: "bs_recv s = cb_input_dest ?b"
    using inv en by (auto simp: buffer_inv_def split: if_splits)
  obtain d where d: "cb_input_dest ?b = Some d" using pb_recv_ok [OF ok op] by blast
  have "cb_can_put p ?b" using d len op by (simp add: cb_can_put_def pb_open_def)
  then obtain b' where b': "cb_put p ?b = Some b'" "cb_invar b'" "cb_contents b' = cb_contents ?b @ [p]"
    using chunk_buffer.put_ok ok unfolding pb_ok_def by blast
  obtain m where m: "mem_write (cb_buffer ?b) (nat d) p = Some m"
    "ChunkBuffer2_SubmitPacket (?b\<lparr>cb_buffer := m\<rparr>) (int (length p)) = Some b'"
    using b'(1) d by (auto simp: cb_put_def bind_eq_Some_conv)
  let ?buf' = "?buf\<lparr>pb_buf := b'\<rparr>"
  have ok': "pb_ok num ?buf'"
    using ok b' len cb_put_params [OF _ b'(1)] by (auto simp: pb_ok_def)
  have io: "pb_open ?buf' \<longrightarrow> cb_input_dest b' \<noteq> None" using pb_recv_ok [OF ok'] by auto
  let ?cs1 = "if pb_open ?buf' then [BufRecv (the (cb_input_dest b'))] else []"
  have cs1: "(if cb_input_avail b' \<ge> pb_input_mtu ?buf then pb_recv ?buf' else Some []) = Some ?cs1"
    using io by (auto simp: pb_open_def pb_recv_def)
  obtain e es where ne: "cb_contents b' = e # es" using b'(3) by (metis append_is_Nil_conv list.exhaust not_Cons_self2)
  have emp: "cb_output_avail ?b < 0 \<longleftrightarrow> cb_contents ?b = []"
    using cb_output [of ?b] ok by (cases "cb_contents ?b") (auto simp: pb_ok_def)
  have "PacketBuffer_input_handler_done (?buf\<lparr>pb_buf := ?b\<lparr>cb_buffer := m\<rparr>\<rparr>) (int (length p)) =
      Some (?buf', ?cs1 @ (if cb_contents ?b = [] then [BufSend e] else []))"
    using len m(2) cs1 emp pb_send_ok [OF ok', of e es] ne
    by (simp add: PacketBuffer_input_handler_done_def)
  moreover have "int (length e) \<le> pb_input_mtu ?buf" using ok' ne by (auto simp: pb_ok_def)
  moreover have "bs_sending s = (if cb_contents ?b = [] then None else Some e)"
    using inv ne b'(3) by (cases "cb_contents ?b") (auto simp: buffer_inv_def)
  moreover have "bs_taken s = bs_passed s @ cb_contents ?b" using inv by (simp add: buffer_inv_def)
  ultimately show ?thesis using m(1) r d ok' ne b'(3) io
    by (cases "pb_open ?buf'"; cases "cb_contents ?b = []") (auto simp: buffer_inv_def)
qed

lemma packet_done_step:
  assumes inv: "buffer_inv num s" and en: "buffer_enabled s BufDone"
  shows "\<exists>s'. buffer_step s BufDone = Some s' \<and> buffer_inv num s'"
proof -
  let ?buf = "bs_buf s" and ?b = "pb_buf (bs_buf s)"
  obtain p ps where p: "bs_sending s = Some p" "cb_contents ?b = p # ps"
    using inv en by (cases "cb_contents ?b") (auto simp: buffer_inv_def)
  have ok: "pb_ok num ?buf" using inv by (simp add: buffer_inv_def)
  then have ci: "cb_invar ?b" by (simp add: pb_ok_def)
  obtain b' where b': "cb_get ?b = Some (p, b')" "cb_invar b'" "cb_contents b' = ps"
    using chunk_buffer.get_ok [OF ci] p(2) by auto
  then have con: "ChunkBuffer2_ConsumePacket ?b = Some b'" by (auto simp: cb_get_def bind_eq_Some_conv)
  let ?buf' = "?buf\<lparr>pb_buf := b'\<rparr>"
  have ok': "pb_ok num ?buf'" using ok b' p(2) cb_get_params [OF ci b'(1)] by (auto simp: pb_ok_def)
  have io: "pb_open ?buf' \<longrightarrow> cb_input_dest b' \<noteq> None" using pb_recv_ok [OF ok'] by auto
  have keep: "pb_open ?buf \<longrightarrow> cb_input_dest b' = cb_input_dest ?b \<and> pb_open ?buf'"
    using cb_get_keeps_input [OF ci b'(1)] pb_recv_ok [OF ok] by (auto simp: pb_open_def)
  let ?cs1 = "if \<not> pb_open ?buf \<and> pb_open ?buf' then [BufRecv (the (cb_input_dest b'))] else []"
  let ?cs2 = "case ps of [] \<Rightarrow> [] | q # _ \<Rightarrow> [BufSend q]"
  have cs1: "(if cb_input_avail ?b < pb_input_mtu ?buf \<and> cb_input_avail b' \<ge> pb_input_mtu ?buf
      then pb_recv ?buf' else Some []) = Some ?cs1"
    using io by (auto simp: pb_open_def pb_recv_def)
  have cs2: "(if cb_output_avail b' \<ge> 0 then pb_send ?buf' else Some []) = Some ?cs2"
    using cb_output [OF b'(2)] b'(3) pb_send_ok [OF ok'] by (cases ps) auto
  have "PacketBuffer_output_handler_done ?buf = Some (?buf', ?cs1 @ ?cs2)"
    using con cs1 cs2 by (simp add: PacketBuffer_output_handler_done_def)
  moreover have "bs_recv s = (if pb_open ?buf then cb_input_dest ?b else None)"
    "bs_taken s = bs_passed s @ p # ps" using inv p by (simp_all add: buffer_inv_def)
  moreover have "\<forall>q \<in> set ps. int (length q) \<le> pb_input_mtu ?buf" using ok p(2) by (simp add: pb_ok_def)
  ultimately show ?thesis using p(1) ok' b'(3) io keep
    by (cases "pb_open ?buf"; cases "pb_open ?buf'"; cases ps) (auto simp: buffer_inv_def)
qed

lemma buffer_step_inv:
  "buffer_inv num s \<Longrightarrow> buffer_enabled s e \<Longrightarrow> \<exists>s'. buffer_step s e = Some s' \<and> buffer_inv num s'"
  using packet_in_step packet_done_step by (cases e) blast+

text \<open>
  What \<^verbatim>\<open>BAllocArray\<close> gives for \<open>n\<close> units of four bytes has their size. The size in bytes has to be an \<^verbatim>\<open>int\<close>: the code does not check
  that, and a larger buffer fails an assertion (\<^verbatim>\<open>ChunkBuffer.chunk_buffer_too_large\<close>).
\<close>

definition array_ok :: "(int \<Rightarrow> bytes option) \<Rightarrow> int \<Rightarrow> bool" where
  "array_ok alloc n \<longleftrightarrow> (case alloc n of None \<Rightarrow> True | Some b \<Rightarrow> int (length b) = 4 * n \<and> 4 * n \<le> INT_MAX)"

text \<open>A buffer just created, with the receive it has started.\<close>

definition buffer_init :: "nat \<Rightarrow> buffer_state \<Rightarrow> bool" where
  "buffer_init num s \<longleftrightarrow> (\<exists>input_mtu output_mtu alloc d.
     0 \<le> input_mtu \<and> input_mtu \<le> INT_MAX \<and> int num \<le> INT_MAX \<and>
     array_ok alloc (ChunkBuffer2_calc_blocks input_mtu (int num)) \<and>
     PacketBuffer_Init input_mtu output_mtu (int num) alloc = Some (Some (bs_buf s, [BufRecv d])) \<and>
     bs_recv s = Some d \<and> bs_sending s = None \<and> bs_taken s = [] \<and> bs_passed s = [])"

lemma PacketBuffer_Init_ok:
  assumes mtu: "0 \<le> im" "im \<le> INT_MAX" and num: "0 < num" "int num \<le> INT_MAX" and om: "im \<le> om"
    and a: "array_ok alloc (ChunkBuffer2_calc_blocks im (int num))"
  shows "\<exists>r. PacketBuffer_Init im om (int num) alloc = Some r \<and>
    (case r of
       None \<Rightarrow> ChunkBuffer2_calc_blocks im (int num) < 0 \<or> alloc (ChunkBuffer2_calc_blocks im (int num)) = None
     | Some (buf, cs) \<Rightarrow> pb_ok num buf \<and> cb_contents (pb_buf buf) = [] \<and> pb_input_mtu buf = im \<and>
         (\<exists>d. cb_input_dest (pb_buf buf) = Some d \<and> cs = [BufRecv d]))"
proof -
  let ?n = "ChunkBuffer2_calc_blocks im (int num)"
  show ?thesis
  proof (cases "?n < 0 \<or> alloc ?n = None")
    case True
    then have "PacketBuffer_Init im om (int num) alloc = Some None"
      using om num(1) by (auto simp: PacketBuffer_Init_def Let_def)
    with True show ?thesis by simp
  next
    case False
    then obtain mem where mem: "alloc ?n = Some mem" by blast
    have n: "?n = (1 + blocks im) * (int num + 1)"
      using calc_blocks_eq [OF mtu, of "int num"] num(2) False by (auto split: if_splits)
    have "1 * (1 + blocks im) \<le> (int num + 1) * (1 + blocks im)"
      using blocks_bounds(1) [OF mtu] by (intro mult_right_mono) auto
    then have "1 + blocks im \<le> ?n" by (simp add: n mult.commute)
    moreover have "int (length mem) = 4 * ?n" "4 * ?n \<le> INT_MAX" using a mem by (simp_all add: array_ok_def)
    ultimately obtain b where b: "ChunkBuffer2_Init mem ?n im = Some b" "cb_invar b"
      "cb_contents b = []" "cb_size b = ?n" "cb_mtu b = blocks im"
      using cb_init_ok [OF mtu, of ?n mem] by blast
    let ?buf = "\<lparr>pb_input_mtu = im, pb_buf = b\<rparr>"
    have ok: "pb_ok num ?buf" using b mtu num(1) n by (simp add: pb_ok_def)
    obtain d where d: "cb_input_dest b = Some d"
      using pb_recv_ok [OF ok pb_room [OF ok]] b(3) num(1) by auto
    have "PacketBuffer_Init im om (int num) alloc = Some (Some (?buf, [BufRecv d]))"
      using om num(1) False mem b(1) d by (simp add: PacketBuffer_Init_def pb_recv_def)
    with ok b(3) d show ?thesis by simp
  qed
qed

lemma buffer_init_inv:
  assumes "buffer_init num s"
  shows "buffer_inv num s"
proof -
  from assms obtain im om alloc d where mtu: "0 \<le> im" "im \<le> INT_MAX" "int num \<le> INT_MAX"
    and a: "array_ok alloc (ChunkBuffer2_calc_blocks im (int num))"
    and init: "PacketBuffer_Init im om (int num) alloc = Some (Some (bs_buf s, [BufRecv d]))"
    and g: "bs_recv s = Some d" "bs_sending s = None" "bs_taken s = []" "bs_passed s = []"
    unfolding buffer_init_def by blast
  have "im \<le> om" "0 < num" using init by (auto simp: PacketBuffer_Init_def)
  from PacketBuffer_Init_ok [OF mtu(1,2) this(2) mtu(3) this(1) a] init
  have "pb_ok num (bs_buf s)" "cb_contents (pb_buf (bs_buf s)) = []" "cb_input_dest (pb_buf (bs_buf s)) = Some d"
    by auto
  then show ?thesis using pb_room \<open>0 < num\<close> g by (simp add: buffer_inv_def)
qed

interpretation packet_buffer: machine "buffer_init num" buffer_step buffer_enabled "buffer_inv num" for num
  by unfold_locales (blast intro: buffer_init_inv buffer_step_inv)+

section \<open>Properties\<close>

text \<open>
  C22. A packet buffer of \<open>num\<close> packets never faults, delivers the packets it took complete and in
  order, sends whenever it holds one, and asks for another whenever it holds fewer than \<open>num\<close>; in
  particular it never stops doing both. The place it offered for input stays valid while packets
  are consumed underneath. The buffer is one that was created with an array of at most 2 GiB.
\<close>

theorem packet_buffer_fifo:
  assumes "buffer_init num s" "admissible buffer_enabled buffer_step s es"
  shows "\<exists>s'. exec buffer_step s es = Some s' \<and>
    (\<exists>held. bs_taken s' = bs_passed s' @ held \<and>
       bs_sending s' = (case held of [] \<Rightarrow> None | p # _ \<Rightarrow> Some p) \<and>
       (length held < num \<longrightarrow> bs_recv s' \<noteq> None)) \<and>
    (bs_sending s' \<noteq> None \<or> bs_recv s' \<noteq> None)"
proof -
  obtain s' where r: "exec buffer_step s es = Some s'" "buffer_inv num s'"
    using packet_buffer.run_safe [OF assms] by blast
  let ?h = "cb_contents (pb_buf (bs_buf s'))"
  have ok: "pb_ok num (bs_buf s')" using r(2) by (simp add: buffer_inv_def)
  have room: "length ?h < num \<longrightarrow> bs_recv s' \<noteq> None"
    using r(2) pb_room [OF ok] pb_recv_ok [OF ok] by (auto simp: buffer_inv_def)
  moreover have "bs_sending s' \<noteq> None \<or> ?h = []" using r(2) by (cases ?h) (auto simp: buffer_inv_def)
  moreover have "0 < num" using ok by (simp add: pb_ok_def)
  ultimately show ?thesis using r by (intro exI [of _ s']) (auto simp: buffer_inv_def)
qed

definition pb_blocks :: ChunkBuffer2 where
  "pb_blocks = \<lparr>cb_buffer = replicate 24 0, cb_size = 6, cb_wrap = 6, cb_start = 0, cb_used = 0, cb_mtu = 1,
    cb_input_dest = Some 4, cb_input_avail = 20, cb_output_dest = None, cb_output_avail = -1\<rparr>"

definition pb0 :: buffer_state where
  "pb0 = \<lparr>bs_buf = \<lparr>pb_input_mtu = 4, pb_buf = pb_blocks\<rparr>, bs_recv = Some 4, bs_sending = None,
    bs_taken = [], bs_passed = []\<rparr>"

lemma pb0_init: "buffer_init 2 pb0"
proof -
  let ?alloc = "\<lambda>n. if n = 6 then Some (replicate 24 0) else (None :: bytes option)"
  have "ChunkBuffer2_Init (replicate 24 0) 6 4 = Some pb_blocks"
    by (simp add: ChunkBuffer2_Init_def pb_blocks_def blocks_eq cb_assert_buffer_def cb_update_input_def
        cb_update_output_def cb_end_def cb_free_def cb_assert_io_def cb_assert_input_def cb_assert_output_def c_int_id)
  then have "PacketBuffer_Init 4 4 (int 2) ?alloc = Some (Some (bs_buf pb0, [BufRecv 4]))"
    by (simp add: PacketBuffer_Init_def ChunkBuffer2_calc_blocks_def blocks_eq pb_recv_def pb0_def)
      (simp add: pb_blocks_def)
  then show ?thesis unfolding buffer_init_def
    by (intro exI [of _ 4] exI [of _ ?alloc]) (auto simp: pb0_def array_ok_def ChunkBuffer2_calc_blocks_def blocks_eq)
qed

theorem packet_buffer_fifo_witness:
  "\<exists>s'. exec buffer_step pb0 [BufPacket [1, 2], BufPacket [3], BufDone] = Some s' \<and>
    (\<exists>held. bs_taken s' = bs_passed s' @ held \<and>
       bs_sending s' = (case held of [] \<Rightarrow> None | p # _ \<Rightarrow> Some p) \<and>
       (length held < 2 \<longrightarrow> bs_recv s' \<noteq> None)) \<and>
    (bs_sending s' \<noteq> None \<or> bs_recv s' \<noteq> None)"
proof (rule packet_buffer_fifo [OF pb0_init])
  show "admissible buffer_enabled buffer_step pb0 [BufPacket [1, 2], BufPacket [3], BufDone]"
    by code_simp
qed

text \<open>
  A packet flow is wired consistently: the writer accepts packets of up to the input MTU, the encoder's output MTU
  is that plus the header, and the buffer behind it takes encoded packets of exactly that size, so
  that the assertions of the parts hold for every admissible argument with a buffer of at most 2 GiB; initialisation fails only when the
  buffer's size overflows an \<^verbatim>\<open>int\<close> or the memory is not available.
\<close>

theorem packet_proto_flow_wiring:
  assumes "0 \<le> mtu" "mtu \<le> PACKETPROTO_MAXPAYLOAD" "0 < num" "int num \<le> INT_MAX" "2 + mtu \<le> output_mtu"
    and "array_ok alloc (ChunkBuffer2_calc_blocks (2 + mtu) (int num))"
  shows "\<exists>r. PacketProtoFlow_Init w mtu (int num) output_mtu alloc = Some r \<and>
    (case r of
       None \<Rightarrow> ChunkBuffer2_calc_blocks (2 + mtu) (int num) < 0 \<or>
         alloc (ChunkBuffer2_calc_blocks (2 + mtu) (int num)) = None
     | Some (fl, cs) \<Rightarrow> bw_mtu (ppf_ainput fl) = mtu \<and> ppe_input_mtu (ppf_encoder fl) = mtu \<and>
         ppe_output_mtu (ppf_encoder fl) = 2 + mtu \<and> pb_input_mtu (ppf_buffer fl) = 2 + mtu \<and>
         pb_ok num (ppf_buffer fl) \<and> cb_contents (pb_buf (ppf_buffer fl)) = [])"
proof -
  let ?w = "w\<lparr>bw_out_have := False, bw_mtu := mtu, bw_writing := False\<rparr>"
  let ?e = "\<lparr>ppe_input_mtu = mtu, ppe_output_mtu = 2 + mtu, ppe_output_packet = None\<rparr>"
  obtain r where r: "PacketBuffer_Init (2 + mtu) output_mtu (int num) alloc = Some r"
    "case r of
       None \<Rightarrow> ChunkBuffer2_calc_blocks (2 + mtu) (int num) < 0 \<or> alloc (ChunkBuffer2_calc_blocks (2 + mtu) (int num)) = None
     | Some (buf, cs) \<Rightarrow> pb_ok num buf \<and> cb_contents (pb_buf buf) = [] \<and> pb_input_mtu buf = 2 + mtu \<and>
         (\<exists>d. cb_input_dest (pb_buf buf) = Some d \<and> cs = [BufRecv d])"
    using PacketBuffer_Init_ok [of "2 + mtu" num output_mtu alloc] assms by auto
  have "PacketProtoFlow_Init w mtu (int num) output_mtu alloc =
      Some (map_option (\<lambda>(b, cs). (\<lparr>ppf_ainput = ?w, ppf_encoder = ?e, ppf_buffer = b\<rparr>, cs)) r)"
    using assms(1-5) r(1)
    by (cases r) (auto simp: PacketProtoFlow_Init_def BufferWriter_Init_def PacketProtoEncoder_Init_def
        PACKETPROTO_ENCLEN_def)
  with r(2) show ?thesis by (cases r) auto
qed

definition bw_blank :: BufferWriter where
  "bw_blank = \<lparr>bw_out_have = True, bw_out = [], bw_mtu = 0, bw_writing = True\<rparr>"

theorem packet_proto_flow_wiring_witness:
  "\<exists>r. PacketProtoFlow_Init bw_blank 2 (int 2) 4
      (\<lambda>n. if n = 6 then Some (replicate 24 0) else None) = Some r \<and>
    (case r of
       None \<Rightarrow> ChunkBuffer2_calc_blocks (2 + 2) (int 2) < 0 \<or>
         (if ChunkBuffer2_calc_blocks (2 + 2) (int 2) = 6 then Some (replicate 24 (0 :: u8)) else None) = None
     | Some (fl, cs) \<Rightarrow> bw_mtu (ppf_ainput fl) = 2 \<and> ppe_input_mtu (ppf_encoder fl) = 2 \<and>
         ppe_output_mtu (ppf_encoder fl) = 2 + 2 \<and> pb_input_mtu (ppf_buffer fl) = 2 + 2 \<and>
         pb_ok 2 (ppf_buffer fl) \<and> cb_contents (pb_buf (ppf_buffer fl)) = [])"
  by (rule packet_proto_flow_wiring) (auto simp: array_ok_def ChunkBuffer2_calc_blocks_def blocks_eq)

end
