(* ===== verification/Connectors.thy ===== *)
theory Connectors
  imports Prelude
begin

text \<open>
  Two pass-through elements: flow/PacketPassConnector.c, whose output can be connected and
  disconnected while a packet is in it, and flowextra/PacketPassInactivityMonitor.c, which reports
  when no packet has been in transit for some time.
\<close>

section \<open>PacketPassConnector.c\<close>

text \<open>\<open>pc_output\<close> is the MTU of the connected output, \<open>None\<close> for \<^verbatim>\<open>NULL\<close>.\<close>

record PacketPassConnector =
  pc_input_mtu :: int
  pc_in_len :: int
  pc_in :: bytes
  pc_output :: "int option"

datatype connector_call = ConSend bytes | ConInputDone

definition Connector_input_handler_send ::
  "PacketPassConnector \<Rightarrow> bytes \<Rightarrow> int \<Rightarrow> (PacketPassConnector \<times> connector_call list) option" where
  "Connector_input_handler_send c data data_len = do {
     ASSERT (data_len \<ge> 0);
     ASSERT (data_len \<le> pc_input_mtu c);
     ASSERT (pc_in_len c = -1);
     let c = c\<lparr>pc_in_len := data_len, pc_in := data\<rparr>;
     if pc_output c \<noteq> None
     then do {
       p \<leftarrow> mem_read (pc_in c) 0 (nat (pc_in_len c));
       Some (c, [ConSend p])
     }
     else Some (c, [])
   }"

definition Connector_output_handler_done ::
  "PacketPassConnector \<Rightarrow> (PacketPassConnector \<times> connector_call list) option" where
  "Connector_output_handler_done c = do {
     ASSERT (pc_in_len c \<ge> 0);
     ASSERT (pc_output c \<noteq> None);
     Some (c\<lparr>pc_in_len := -1\<rparr>, [ConInputDone])
   }"

text \<open>\<open>c\<close> is the uninitialised struct.\<close>

definition PacketPassConnector_Init :: "PacketPassConnector \<Rightarrow> int \<Rightarrow> PacketPassConnector option" where
  "PacketPassConnector_Init c mtu = do {
     ASSERT (mtu \<ge> 0);
     Some (c\<lparr>pc_input_mtu := mtu, pc_in_len := -1, pc_output := None\<rparr>)
   }"

definition PacketPassConnector_ConnectOutput ::
  "PacketPassConnector \<Rightarrow> int \<Rightarrow> (PacketPassConnector \<times> connector_call list) option" where
  "PacketPassConnector_ConnectOutput c output_mtu = do {
     ASSERT (pc_output c = None);
     ASSERT (output_mtu \<ge> pc_input_mtu c);
     let c = c\<lparr>pc_output := Some output_mtu\<rparr>;
     if pc_in_len c \<ge> 0
     then do {
       p \<leftarrow> mem_read (pc_in c) 0 (nat (pc_in_len c));
       Some (c, [ConSend p])
     }
     else Some (c, [])
   }"

definition PacketPassConnector_DisconnectOutput :: "PacketPassConnector \<Rightarrow> PacketPassConnector option" where
  "PacketPassConnector_DisconnectOutput c = do {
     ASSERT (pc_output c \<noteq> None);
     Some (c\<lparr>pc_output := None\<rparr>)
   }"

section \<open>PacketPassInactivityMonitor.c\<close>

text \<open>
  \<open>pim_timer\<close>: \<open>None\<close> when the timer is not running, else after how much time it was set to expire.
  Calls of the timer interface are part of the state; calls of the two packet interfaces and of the
  user's handler are returned.
\<close>

record PacketPassInactivityMonitor =
  pim_interval :: int
  pim_handler :: bool
  pim_timer :: "int option"
  pim_can_cancel :: bool

datatype monitor_call = MonSend bytes | MonRequestCancel | MonInputDone | MonHandler

definition Monitor_input_handler_send ::
  "PacketPassInactivityMonitor \<Rightarrow> bytes \<Rightarrow> PacketPassInactivityMonitor \<times> monitor_call list" where
  "Monitor_input_handler_send m data = (m\<lparr>pim_timer := None\<rparr>, [MonSend data])"

definition Monitor_input_handler_requestcancel :: "PacketPassInactivityMonitor \<Rightarrow> monitor_call list" where
  "Monitor_input_handler_requestcancel m = [MonRequestCancel]"

definition Monitor_output_handler_done ::
  "PacketPassInactivityMonitor \<Rightarrow> PacketPassInactivityMonitor \<times> monitor_call list" where
  "Monitor_output_handler_done m = (m\<lparr>pim_timer := Some (pim_interval m)\<rparr>, [MonInputDone])"

definition Monitor_timer_handler ::
  "PacketPassInactivityMonitor \<Rightarrow> PacketPassInactivityMonitor \<times> monitor_call list" where
  "Monitor_timer_handler m =
     (let m = m\<lparr>pim_timer := Some (pim_interval m)\<rparr> in
      (m, if pim_handler m then [MonHandler] else []))"

definition PacketPassInactivityMonitor_Init :: "bool \<Rightarrow> int \<Rightarrow> bool \<Rightarrow> PacketPassInactivityMonitor" where
  "PacketPassInactivityMonitor_Init output_has_cancel interval handler =
     \<lparr>pim_interval = interval, pim_handler = handler, pim_timer = Some interval,
      pim_can_cancel = output_has_cancel\<rparr>"

definition PacketPassInactivityMonitor_Free :: "PacketPassInactivityMonitor \<Rightarrow> PacketPassInactivityMonitor" where
  "PacketPassInactivityMonitor_Free m = m\<lparr>pim_timer := None\<rparr>"

definition PacketPassInactivityMonitor_SetHandler ::
  "PacketPassInactivityMonitor \<Rightarrow> bool \<Rightarrow> PacketPassInactivityMonitor" where
  "PacketPassInactivityMonitor_SetHandler m handler = m\<lparr>pim_handler := handler\<rparr>"

definition PacketPassInactivityMonitor_Force :: "PacketPassInactivityMonitor \<Rightarrow> PacketPassInactivityMonitor" where
  "PacketPassInactivityMonitor_Force m = m\<lparr>pim_timer := Some 0\<rparr>"

section \<open>The connector as a machine\<close>

text \<open>
  Ghost fields: the packet the output is busy with, the packets taken from the input and those
  the input was told are done. Disconnecting drops what the output was doing.
\<close>

record connector_state =
  cs_con :: PacketPassConnector
  cs_busy :: "bytes option"
  cs_taken :: "bytes list"
  cs_done :: "bytes list"

datatype connector_event = ConPacket bytes | ConDone | ConConnect int | ConDisconnect

fun connector_apply :: "connector_call list \<Rightarrow> connector_state \<Rightarrow> connector_state option" where
  "connector_apply [] s = Some s"
| "connector_apply (ConSend p # cs) s = do {
     ASSERT (cs_busy s = None);
     mtu \<leftarrow> pc_output (cs_con s);
     ASSERT (int (length p) \<le> mtu);
     connector_apply cs (s\<lparr>cs_busy := Some p\<rparr>)
   }"
| "connector_apply (ConInputDone # cs) s = connector_apply cs (s\<lparr>cs_done := cs_done s @ [pc_in (cs_con s)]\<rparr>)"

fun connector_step :: "connector_state \<Rightarrow> connector_event \<Rightarrow> connector_state option" where
  "connector_step s (ConPacket p) = do {
     (c, cs) \<leftarrow> Connector_input_handler_send (cs_con s) p (int (length p));
     connector_apply cs (s\<lparr>cs_con := c, cs_taken := cs_taken s @ [p]\<rparr>)
   }"
| "connector_step s ConDone = do {
     (c, cs) \<leftarrow> Connector_output_handler_done (cs_con s);
     connector_apply cs (s\<lparr>cs_con := c, cs_busy := None\<rparr>)
   }"
| "connector_step s (ConConnect mtu) = do {
     (c, cs) \<leftarrow> PacketPassConnector_ConnectOutput (cs_con s) mtu;
     connector_apply cs (s\<lparr>cs_con := c\<rparr>)
   }"
| "connector_step s ConDisconnect = do {
     c \<leftarrow> PacketPassConnector_DisconnectOutput (cs_con s);
     Some (s\<lparr>cs_con := c, cs_busy := None\<rparr>)
   }"

fun connector_enabled :: "connector_state \<Rightarrow> connector_event \<Rightarrow> bool" where
  "connector_enabled s (ConPacket p) \<longleftrightarrow>
     length (cs_taken s) = length (cs_done s) \<and> int (length p) \<le> pc_input_mtu (cs_con s)"
| "connector_enabled s ConDone \<longleftrightarrow> cs_busy s \<noteq> None"
| "connector_enabled s (ConConnect mtu) \<longleftrightarrow> pc_output (cs_con s) = None \<and> pc_input_mtu (cs_con s) \<le> mtu"
| "connector_enabled s ConDisconnect \<longleftrightarrow> pc_output (cs_con s) \<noteq> None"

definition connector_init :: "connector_state \<Rightarrow> bool" where
  "connector_init s \<longleftrightarrow> (\<exists>c mtu. PacketPassConnector_Init c mtu = Some (cs_con s)) \<and>
     cs_busy s = None \<and> cs_taken s = [] \<and> cs_done s = []"

definition connector_inv :: "connector_state \<Rightarrow> bool" where
  "connector_inv s \<longleftrightarrow>
     (pc_in_len (cs_con s) = -1 \<and> cs_busy s = None \<and> cs_taken s = cs_done s \<or>
      pc_in_len (cs_con s) = int (length (pc_in (cs_con s))) \<and> pc_in_len (cs_con s) \<le> pc_input_mtu (cs_con s) \<and>
      cs_taken s = cs_done s @ [pc_in (cs_con s)] \<and>
      cs_busy s = (if pc_output (cs_con s) = None then None else Some (pc_in (cs_con s)))) \<and>
     (\<forall>mtu. pc_output (cs_con s) = Some mtu \<longrightarrow> pc_input_mtu (cs_con s) \<le> mtu)"

lemmas connector_defs = Connector_input_handler_send_def Connector_output_handler_done_def
  PacketPassConnector_ConnectOutput_def PacketPassConnector_DisconnectOutput_def

lemma connector_step_inv:
  assumes "connector_inv s" "connector_enabled s e"
  shows "\<exists>s'. connector_step s e = Some s' \<and> connector_inv s'"
  using assms by (cases e) (auto simp: connector_inv_def connector_defs mem_read_def split: if_splits)

lemma connector_init_inv: "PacketPassConnector_Init c mtu = Some c' \<Longrightarrow>
    connector_inv \<lparr>cs_con = c', cs_busy = None, cs_taken = [], cs_done = []\<rparr>"
  by (auto simp: PacketPassConnector_Init_def connector_inv_def)

interpretation connector: machine connector_init connector_step connector_enabled connector_inv
proof
  show "connector_inv s" if "connector_init s" for s
    using that connector_init_inv [of _ _ "cs_con s"] by (auto simp: connector_init_def connector_inv_def)
qed (rule connector_step_inv)

section \<open>The monitor as a machine\<close>

text \<open>
  \<open>ms_busy\<close>: a packet is in transit. Ghost fields: \<^verbatim>\<open>Force\<close> was called since the transit of a packet last began or ended (and, when none is in transit,
  since the timer last expired); \<^verbatim>\<open>Force\<close> was ever called while a packet was in transit; the user's handler was ever called then; and how
  often the output was asked to cancel.
\<close>

record monitor_state =
  ms_mon :: PacketPassInactivityMonitor
  ms_busy :: bool
  ms_forced :: bool
  ms_disturbed :: bool
  ms_early :: bool
  ms_cancels :: nat

datatype monitor_event = MonPacket bytes | MonDone | MonCancel | MonTimer | MonSetHandler bool | MonForce

text \<open>The output must not be busy when it gets a packet; it must support what it is asked to cancel.\<close>

fun monitor_apply :: "monitor_call list \<Rightarrow> monitor_state \<Rightarrow> monitor_state option" where
  "monitor_apply [] s = Some s"
| "monitor_apply (MonSend p # cs) s = do { ASSERT (\<not> ms_busy s); monitor_apply cs (s\<lparr>ms_busy := True\<rparr>) }"
| "monitor_apply (MonInputDone # cs) s = monitor_apply cs (s\<lparr>ms_busy := False\<rparr>)"
| "monitor_apply (MonHandler # cs) s = monitor_apply cs (s\<lparr>ms_early := (ms_early s \<or> ms_busy s)\<rparr>)"
| "monitor_apply (MonRequestCancel # cs) s = do {
     ASSERT (ms_busy s);
     ASSERT (pim_can_cancel (ms_mon s));
     monitor_apply cs (s\<lparr>ms_cancels := ms_cancels s + 1\<rparr>)
   }"

fun monitor_step :: "monitor_state \<Rightarrow> monitor_event \<Rightarrow> monitor_state option" where
  "monitor_step s (MonPacket p) =
     (let (m, cs) = Monitor_input_handler_send (ms_mon s) p in monitor_apply cs (s\<lparr>ms_mon := m, ms_forced := False\<rparr>))"
| "monitor_step s MonDone =
     (let (m, cs) = Monitor_output_handler_done (ms_mon s) in monitor_apply cs (s\<lparr>ms_mon := m, ms_forced := False\<rparr>))"
| "monitor_step s MonCancel = monitor_apply (Monitor_input_handler_requestcancel (ms_mon s)) s"
| "monitor_step s MonTimer =
     (let (m, cs) = Monitor_timer_handler (ms_mon s) in
      monitor_apply cs (s\<lparr>ms_mon := m, ms_forced := (ms_forced s \<and> ms_busy s)\<rparr>))"
| "monitor_step s (MonSetHandler h) =
     Some (s\<lparr>ms_mon := PacketPassInactivityMonitor_SetHandler (ms_mon s) h\<rparr>)"
| "monitor_step s MonForce =
     Some (s\<lparr>ms_mon := PacketPassInactivityMonitor_Force (ms_mon s), ms_forced := True,
       ms_disturbed := (ms_disturbed s \<or> ms_busy s)\<rparr>)"

text \<open>The input may ask to cancel while its packet is in transit, if it was told that it may (\<^verbatim>\<open>PacketPassInterface_HasCancel\<close>).\<close>

fun monitor_enabled :: "monitor_state \<Rightarrow> monitor_event \<Rightarrow> bool" where
  "monitor_enabled s (MonPacket p) \<longleftrightarrow> \<not> ms_busy s"
| "monitor_enabled s MonDone \<longleftrightarrow> ms_busy s"
| "monitor_enabled s MonCancel \<longleftrightarrow> ms_busy s \<and> pim_can_cancel (ms_mon s)"
| "monitor_enabled s MonTimer \<longleftrightarrow> pim_timer (ms_mon s) \<noteq> None"
| "monitor_enabled s (MonSetHandler h) \<longleftrightarrow> True"
| "monitor_enabled s MonForce \<longleftrightarrow> True"

definition monitor_timer_ok :: "monitor_state \<Rightarrow> bool" where
  "monitor_timer_ok s \<longleftrightarrow>
     (if ms_busy s then (pim_timer (ms_mon s) \<noteq> None) = ms_forced s
      else pim_timer (ms_mon s) = Some (if ms_forced s then 0 else pim_interval (ms_mon s)))"

definition monitor_inv :: "monitor_state \<Rightarrow> bool" where
  "monitor_inv s \<longleftrightarrow> monitor_timer_ok s \<and> (ms_busy s \<and> ms_forced s \<longrightarrow> ms_disturbed s) \<and> (ms_early s \<longrightarrow> ms_disturbed s)"

definition monitor_init :: "monitor_state \<Rightarrow> bool" where
  "monitor_init s \<longleftrightarrow> (\<exists>hc iv h. ms_mon s = PacketPassInactivityMonitor_Init hc iv h) \<and> \<not> ms_busy s \<and> \<not> ms_forced s \<and>
     \<not> ms_disturbed s \<and> \<not> ms_early s \<and> ms_cancels s = 0"

lemmas monitor_defs = Monitor_input_handler_send_def Monitor_output_handler_done_def
  Monitor_input_handler_requestcancel_def Monitor_timer_handler_def PacketPassInactivityMonitor_SetHandler_def
  PacketPassInactivityMonitor_Init_def PacketPassInactivityMonitor_Force_def

interpretation monitor: machine monitor_init monitor_step monitor_enabled monitor_inv
proof
  show "\<exists>s'. monitor_step s e = Some s' \<and> monitor_inv s'" if "monitor_inv s" "monitor_enabled s e" for s e
    using that by (cases e) (auto simp: monitor_inv_def monitor_timer_ok_def monitor_defs Let_def split: if_splits)
qed (auto simp: monitor_init_def monitor_inv_def monitor_timer_ok_def monitor_defs)

lemma monitor_step_cancels:
  "monitor_step s e = Some s' \<Longrightarrow> ms_cancels s' = ms_cancels s + (if e = MonCancel then 1 else 0)"
  by (cases e) (auto simp: monitor_defs Let_def split: if_splits)

lemma monitor_cancels: "exec monitor_step s es = Some s' \<Longrightarrow> ms_cancels s' = ms_cancels s + count_list es MonCancel"
proof (induction es arbitrary: s)
  case (Cons e es)
  then obtain s1 where "monitor_step s e = Some s1" "exec monitor_step s1 es = Some s'" by (auto split: option.splits)
  with Cons.IH monitor_step_cancels show ?case by fastforce
qed simp

lemma monitor_not_forced:
  "exec monitor_step s es = Some s' \<Longrightarrow> MonForce \<notin> set es \<Longrightarrow> \<not> ms_forced s \<and> \<not> ms_disturbed s \<Longrightarrow>
    \<not> ms_forced s' \<and> \<not> ms_disturbed s'"
proof (induction es arbitrary: s)
  case (Cons e es)
  then obtain s1 where s1: "monitor_step s e = Some s1" "exec monitor_step s1 es = Some s'" by (auto split: option.splits)
  have "\<not> ms_forced s1 \<and> \<not> ms_disturbed s1"
    using s1(1) Cons.prems(2,3) by (cases e) (auto simp: monitor_defs Let_def split: if_splits)
  with Cons s1(2) show ?case by simp
qed simp

section \<open>Properties\<close>

text \<open>
  C23. No packet is lost or duplicated by connecting and disconnecting the output of a connector: at any
  moment the packets taken are those completed and at most one more, which is being sent when
  an output is connected and is sent again to the next output otherwise. No assertion fails.
\<close>

theorem connector_keeps_packet:
  assumes "connector_init s" "admissible connector_enabled connector_step s es"
  shows "\<exists>s'. exec connector_step s es = Some s' \<and>
    (cs_taken s' = cs_done s' \<and> cs_busy s' = None \<or>
     (\<exists>p. cs_taken s' = cs_done s' @ [p] \<and>
        cs_busy s' = (if pc_output (cs_con s') = None then None else Some p)))"
  using connector.run_safe [OF assms] by (auto simp: connector_inv_def)

definition con0 :: connector_state where
  "con0 = \<lparr>cs_con = \<lparr>pc_input_mtu = 5, pc_in_len = -1, pc_in = [], pc_output = None\<rparr>, cs_busy = None,
    cs_taken = [], cs_done = []\<rparr>"

theorem connector_keeps_packet_witness:
  "\<exists>s'. exec connector_step con0 [ConPacket [1], ConConnect 5, ConDisconnect, ConConnect 9, ConDone] = Some s' \<and>
    (cs_taken s' = cs_done s' \<and> cs_busy s' = None \<or>
     (\<exists>p. cs_taken s' = cs_done s' @ [p] \<and>
        cs_busy s' = (if pc_output (cs_con s') = None then None else Some p)))"
proof (rule connector_keeps_packet)
  show "connector_init con0" unfolding connector_init_def
    by (intro conjI exI [of _ "cs_con con0"] exI [of _ 5]) (simp_all add: con0_def PacketPassConnector_Init_def)
  show "admissible connector_enabled connector_step con0
      [ConPacket [1], ConConnect 5, ConDisconnect, ConConnect 9, ConDone]" by code_simp
qed

text \<open>
  C24. When the inactivity monitor's timer runs. While no packet is in transit it is always running, for the configured interval, or for no
  time after \<^verbatim>\<open>Force\<close>; while a packet is in transit it is stopped, unless \<^verbatim>\<open>Force\<close> was called meanwhile. So the user's handler is never called while
  a packet is in transit, unless \<^verbatim>\<open>Force\<close> was called while one was. Every request of the input to cancel is passed on to the output, and does not
  touch the timer. This is what the code does; the comment in the header says otherwise about packets that the output accepts and about cancelling.
\<close>

theorem monitor_only_when_idle:
  assumes "monitor_init s" "admissible monitor_enabled monitor_step s es"
  shows "\<exists>s'. exec monitor_step s es = Some s' \<and>
    (if ms_busy s' then (pim_timer (ms_mon s') \<noteq> None) = ms_forced s'
     else pim_timer (ms_mon s') = Some (if ms_forced s' then 0 else pim_interval (ms_mon s'))) \<and>
    (if ms_early s' then ms_disturbed s' else True) \<and> (if MonForce \<in> set es then True else \<not> ms_forced s' \<and> \<not> ms_disturbed s') \<and>
    ms_cancels s' = count_list es MonCancel \<and>
    (\<forall>s2. monitor_step s' MonCancel = Some s2 \<longrightarrow> pim_timer (ms_mon s2) = pim_timer (ms_mon s'))"
proof -
  from monitor.run_safe [OF assms] obtain s' where s': "exec monitor_step s es = Some s'" "monitor_inv s'" by blast
  have "ms_cancels s' = count_list es MonCancel" using monitor_cancels [OF s'(1)] assms(1) by (simp add: monitor_init_def)
  moreover have "\<not> ms_forced s' \<and> \<not> ms_disturbed s'" if "MonForce \<notin> set es"
    using monitor_not_forced [OF s'(1) that] assms(1) by (simp add: monitor_init_def)
  moreover have "pim_timer (ms_mon s2) = pim_timer (ms_mon s')" if "monitor_step s' MonCancel = Some s2" for s2
    using that by (auto simp: monitor_defs split: if_splits)
  ultimately show ?thesis using s' by (auto simp: monitor_inv_def monitor_timer_ok_def)
qed

definition mon0 :: monitor_state where
  "mon0 = \<lparr>ms_mon = PacketPassInactivityMonitor_Init True 10 True, ms_busy = False, ms_forced = False, ms_disturbed = False,
     ms_early = False, ms_cancels = 0\<rparr>"

theorem monitor_only_when_idle_witness:
  "\<exists>s'. exec monitor_step mon0 [MonTimer, MonPacket [1], MonCancel, MonDone, MonForce, MonTimer, MonPacket [2]] = Some s' \<and>
    (if ms_busy s' then (pim_timer (ms_mon s') \<noteq> None) = ms_forced s'
     else pim_timer (ms_mon s') = Some (if ms_forced s' then 0 else pim_interval (ms_mon s'))) \<and> ms_cancels s' = 1"
proof -
  have i: "monitor_init mon0" by (auto simp: monitor_init_def mon0_def)
  have "admissible monitor_enabled monitor_step mon0 [MonTimer, MonPacket [1], MonCancel, MonDone, MonForce, MonTimer, MonPacket [2]]"
    by code_simp
  from monitor_only_when_idle [OF i this] show ?thesis by fastforce
qed

text \<open>The header promises the user's handler that nothing is being sent when it is called. With \<^verbatim>\<open>Force\<close> that is not so.\<close>

theorem monitor_forced_early:
  "\<exists>s'. exec monitor_step mon0 [MonPacket [1], MonForce, MonTimer] = Some s' \<and> ms_busy s' \<and> ms_early s'"
  by (simp add: mon0_def monitor_defs)

end
