(* ===== verification/SocksClient.thy ===== *)
theory SocksClient
  imports Wire BSize
begin

text \<open>
  socksclient/BSocksClient.c: the SOCKS5 client behind every TCP connection of the tunnel.

  The state record has the fields of the struct that the code reads; \<open>sc_con\<close>, \<open>sc_control\<close> and
  \<open>sc_up\<close> say whether the connection object, the control I/O and the up I/O exist, so that freeing
  something that does not exist is a fault. Sizes are computed with \<^verbatim>\<open>bsize_t\<close> as in the code.
  \<open>fresh\<close> is what the allocator gives an operation (see \<open>BRealloc\<close>), \<open>con_ok\<close> the result of
  \<^verbatim>\<open>BConnection_Init\<close>.
\<close>

section \<open>State\<close>

abbreviation (input) SOCKS_VERSION :: u8 where "SOCKS_VERSION \<equiv> 5"
abbreviation (input) SOCKS_METHOD_NO_AUTHENTICATION_REQUIRED :: int where
  "SOCKS_METHOD_NO_AUTHENTICATION_REQUIRED \<equiv> 0"
abbreviation (input) SOCKS_METHOD_USERNAME_PASSWORD :: int where "SOCKS_METHOD_USERNAME_PASSWORD \<equiv> 2"
abbreviation (input) SOCKS_CMD_CONNECT :: u8 where "SOCKS_CMD_CONNECT \<equiv> 1"
abbreviation (input) SOCKS_ATYP_IPV4 :: u8 where "SOCKS_ATYP_IPV4 \<equiv> 1"
abbreviation (input) SOCKS_ATYP_IPV6 :: u8 where "SOCKS_ATYP_IPV6 \<equiv> 4"
abbreviation (input) SOCKS_REP_SUCCEEDED :: u8 where "SOCKS_REP_SUCCEEDED \<equiv> 0"

record BSocksClient_auth_info =
  ai_auth_type :: int
  ai_username :: bytes
  ai_password :: bytes

datatype socks_state = STATE_CONNECTING | STATE_SENDING_HELLO | STATE_SENT_HELLO
  | STATE_SENDING_PASSWORD | STATE_SENT_PASSWORD | STATE_SENDING_REQUEST | STATE_SENT_REQUEST
  | STATE_RECEIVED_REPLY_HEADER | STATE_UP

datatype socks_event = EVENT_ERROR | EVENT_UP | EVENT_ERROR_CLOSED

record BSocksClient =
  sc_auth_info :: "BSocksClient_auth_info list"
  sc_dest_addr :: BAddr
  sc_state :: socks_state
  sc_buffer :: "bytes option"
  sc_con :: bool
  sc_control :: bool
  sc_up :: bool
  sc_recv_dest :: int
  sc_recv_len :: int
  sc_recv_total :: int

text \<open>Calls: a packet for the stream sender, a receive into the buffer, the user's handler.\<close>

datatype socks_call = ScSend bytes | ScRecv int int | ScHandler socks_event

type_synonym socks_result = "(BSocksClient \<times> socks_call list) option"

section \<open>Operations\<close>

definition report_error :: "BSocksClient \<Rightarrow> socks_event \<Rightarrow> socks_result" where
  "report_error c error = Some (c, [ScHandler error])"

definition init_control_io :: "BSocksClient \<Rightarrow> BSocksClient option" where
  "init_control_io c = do { ASSERT (sc_con c \<and> \<not> sc_control c \<and> \<not> sc_up c); Some (c\<lparr>sc_control := True\<rparr>) }"

definition free_control_io :: "BSocksClient \<Rightarrow> BSocksClient option" where
  "free_control_io c = do { ASSERT (sc_con c \<and> sc_control c); Some (c\<lparr>sc_control := False\<rparr>) }"

definition init_up_io :: "BSocksClient \<Rightarrow> BSocksClient option" where
  "init_up_io c = do { ASSERT (sc_con c \<and> \<not> sc_control c \<and> \<not> sc_up c); Some (c\<lparr>sc_up := True\<rparr>) }"

definition free_up_io :: "BSocksClient \<Rightarrow> BSocksClient option" where
  "free_up_io c = do { ASSERT (sc_con c \<and> sc_up c); Some (c\<lparr>sc_up := False\<rparr>) }"

text \<open>\<^verbatim>\<open>BConnection_Free\<close>: the asynchronous I/O of the connection must have been freed.\<close>

definition connection_free :: "BSocksClient \<Rightarrow> BSocksClient option" where
  "connection_free c = do { ASSERT (sc_con c \<and> \<not> sc_control c \<and> \<not> sc_up c); Some (c\<lparr>sc_con := False\<rparr>) }"

text \<open>The result is the return value with the object.\<close>

definition reserve_buffer :: "bytes option \<Rightarrow> BSocksClient \<Rightarrow> bsize_t \<Rightarrow> bool \<times> BSocksClient" where
  "reserve_buffer fresh c sz =
     (if is_overflow sz then (False, c)
      else case BRealloc fresh (sc_buffer c) (bs_value sz) of
          None \<Rightarrow> (False, c)
        | Some buffer \<Rightarrow> (True, c\<lparr>sc_buffer := Some buffer\<rparr>))"

definition do_receive :: "BSocksClient \<Rightarrow> socks_result" where
  "do_receive c = do {
     ASSERT (sc_recv_len c < sc_recv_total c);
     Some (c, [ScRecv (sc_recv_dest c + sc_recv_len c) (sc_recv_total c - sc_recv_len c)])
   }"

definition start_receive :: "BSocksClient \<Rightarrow> int \<Rightarrow> int \<Rightarrow> socks_result" where
  "start_receive c dest tot = do {
     ASSERT (tot > 0);
     do_receive (c\<lparr>sc_recv_dest := dest, sc_recv_len := 0, sc_recv_total := tot\<rparr>)
   }"

text \<open>A \<^verbatim>\<open>memcpy\<close> into the buffer, and sending its first \<open>n\<close> bytes.\<close>

definition buf_write :: "BSocksClient \<Rightarrow> nat \<Rightarrow> bytes \<Rightarrow> BSocksClient option" where
  "buf_write c off xs = do {
     buffer \<leftarrow> sc_buffer c;
     buffer \<leftarrow> mem_write buffer off xs;
     Some (c\<lparr>sc_buffer := Some buffer\<rparr>)
   }"

definition buf_read :: "BSocksClient \<Rightarrow> nat \<Rightarrow> nat \<Rightarrow> bytes option" where
  "buf_read c off n = do { buffer \<leftarrow> sc_buffer c; mem_read buffer off n }"

definition buf_send :: "BSocksClient \<Rightarrow> size_t \<Rightarrow> socks_call list option" where
  "buf_send c n = map_option (\<lambda>d. [ScSend d]) (buf_read c 0 (unat n))"

text \<open>The loop that writes the methods of the hello, from index \<open>i\<close> on.\<close>

fun write_methods :: "nat \<Rightarrow> BSocksClient_auth_info list \<Rightarrow> BSocksClient \<Rightarrow> BSocksClient option" where
  "write_methods i [] c = Some c"
| "write_methods i (ai # ais) c = do {
     c \<leftarrow> buf_write c (2 + i) [hton8 (word_of_int (ai_auth_type ai))];
     write_methods (i + 1) ais c
   }"

definition socks_connector_handler :: "bytes option \<Rightarrow> bool \<Rightarrow> bool \<Rightarrow> BSocksClient \<Rightarrow> socks_result" where
  "socks_connector_handler fresh con_ok is_error c = do {
     ASSERT (sc_state c = STATE_CONNECTING);
     if is_error then report_error c EVENT_ERROR
     else if \<not> con_ok then report_error c EVENT_ERROR
     else do {
       ASSERT (\<not> sc_con c);
       c \<leftarrow> init_control_io (c\<lparr>sc_con := True\<rparr>);
       let n = length (sc_auth_info c);
       let sz = bsize_add (bsize_fromsize 2) (bsize_mul (bsize_fromsize (word_of_nat n)) (bsize_fromsize 1));
       let (res, c') = reserve_buffer fresh c sz;
       if (n = 0 \<or> n > 255) \<or> \<not> res
       then do {
         c \<leftarrow> free_control_io (if n = 0 \<or> n > 255 then c else c');
         c \<leftarrow> connection_free c;
         report_error c EVENT_ERROR
       }
       else do {
         c \<leftarrow> buf_write c' 0 [hton8 SOCKS_VERSION, hton8 (word_of_nat n)];
         c \<leftarrow> write_methods 0 (sc_auth_info c) c;
         cs \<leftarrow> buf_send c (bs_value sz);
         Some (c\<lparr>sc_state := STATE_SENDING_HELLO\<rparr>, cs)
       }
     }
   }"

text \<open>\<open>closed\<close>: the event is \<^verbatim>\<open>BCONNECTION_EVENT_RECVCLOSED\<close>.\<close>

definition socks_connection_handler :: "BSocksClient \<Rightarrow> bool \<Rightarrow> socks_result" where
  "socks_connection_handler c closed = do {
     ASSERT (sc_state c \<noteq> STATE_CONNECTING);
     if sc_state c = STATE_UP \<and> closed then report_error c EVENT_ERROR_CLOSED
     else report_error c EVENT_ERROR
   }"

text \<open>The struct \<^verbatim>\<open>socks_request_header\<close> with its address, for the two address types.\<close>

definition auth_finished :: "bytes option \<Rightarrow> BSocksClient \<Rightarrow> socks_result" where
  "auth_finished fresh c = (
     let sz = bsize_fromsize 4;
         sz = (case sc_dest_addr c of
             BAddr_IPV4 _ _ \<Rightarrow> bsize_add sz (bsize_fromsize 6)
           | BAddr_IPV6 _ _ \<Rightarrow> bsize_add sz (bsize_fromsize 18)
           | _ \<Rightarrow> sz);
         (res, c) = reserve_buffer fresh c sz in
     if \<not> res then report_error c EVENT_ERROR
     else do {
       (atyp, c) \<leftarrow> (case sc_dest_addr c of
           BAddr_IPV4 ip port \<Rightarrow> do {
             c \<leftarrow> buf_write c 4 (addr_ipv4_image \<lparr>a4_ip = ip, a4_port = port\<rparr>);
             Some (hton8 SOCKS_ATYP_IPV4, c)
           }
         | BAddr_IPV6 ip port \<Rightarrow> do {
             c \<leftarrow> buf_write c 4 (addr_ipv6_image \<lparr>a6_ip = ip, a6_port = port\<rparr>);
             Some (hton8 SOCKS_ATYP_IPV6, c)
           }
         | _ \<Rightarrow> None);
       c \<leftarrow> buf_write c 0 [hton8 SOCKS_VERSION, hton8 SOCKS_CMD_CONNECT, hton8 0, atyp];
       cs \<leftarrow> buf_send c (bs_value sz);
       Some (c\<lparr>sc_state := STATE_SENDING_REQUEST\<rparr>, cs)
     })"

text \<open>The case of password authentication in the server's hello.\<close>

definition send_password :: "bytes option \<Rightarrow> BSocksClient \<Rightarrow> BSocksClient_auth_info \<Rightarrow> socks_result" where
  "send_password fresh c ai = (let ulen = length (ai_username ai); plen = length (ai_password ai) in
     if ulen = 0 \<or> ulen > 255 \<or> plen = 0 \<or> plen > 255 then report_error c EVENT_ERROR
     else let sz = bsize_fromsize (1 + 1 + word_of_nat ulen + 1 + word_of_nat plen);
              (res, c) = reserve_buffer fresh c sz in
       if \<not> res then report_error c EVENT_ERROR
       else do {
         c \<leftarrow> buf_write c 0 [1];
         c \<leftarrow> buf_write c 1 [word_of_nat ulen];
         c \<leftarrow> buf_write c 2 (ai_username ai);
         c \<leftarrow> buf_write c (2 + ulen) [word_of_nat plen];
         c \<leftarrow> buf_write c (2 + ulen + 1) (ai_password ai);
         cs \<leftarrow> buf_send c (bs_value sz);
         Some (c\<lparr>sc_state := STATE_SENDING_PASSWORD\<rparr>, cs)
       })"

text \<open>The branch of \<^verbatim>\<open>recv_handler_done\<close> for the server's hello: the chosen method, and its action.\<close>

definition received_hello :: "bytes option \<Rightarrow> BSocksClient \<Rightarrow> socks_result" where
  "received_hello fresh c = do {
     imsg \<leftarrow> buf_read c 0 2;
     if ntoh8 (imsg ! 0) \<noteq> SOCKS_VERSION then report_error c EVENT_ERROR
     else (case find (\<lambda>ai. ai_auth_type ai = uint (ntoh8 (imsg ! 1))) (sc_auth_info c) of
         None \<Rightarrow> report_error c EVENT_ERROR
       | Some ai \<Rightarrow>
           if ai_auth_type ai = SOCKS_METHOD_NO_AUTHENTICATION_REQUIRED then auth_finished fresh c
           else if ai_auth_type ai = SOCKS_METHOD_USERNAME_PASSWORD
           then send_password fresh c ai
           else None)
   }"

text \<open>The switch of \<^verbatim>\<open>recv_handler_done\<close>, once everything asked for has arrived.\<close>

definition received_all :: "bytes option \<Rightarrow> BSocksClient \<Rightarrow> socks_result" where
  "received_all fresh c = (case sc_state c of
     STATE_SENT_HELLO \<Rightarrow> received_hello fresh c
   | STATE_SENT_REQUEST \<Rightarrow> do {
       imsg \<leftarrow> buf_read c 0 4;
       if ntoh8 (imsg ! 0) \<noteq> SOCKS_VERSION then report_error c EVENT_ERROR
       else if ntoh8 (imsg ! 1) \<noteq> SOCKS_REP_SUCCEEDED then report_error c EVENT_ERROR
       else if ntoh8 (imsg ! 3) = SOCKS_ATYP_IPV4 then do {
         (c, cs) \<leftarrow> start_receive c 4 6;
         Some (c\<lparr>sc_state := STATE_RECEIVED_REPLY_HEADER\<rparr>, cs)
       }
       else if ntoh8 (imsg ! 3) = SOCKS_ATYP_IPV6 then do {
         (c, cs) \<leftarrow> start_receive c 4 18;
         Some (c\<lparr>sc_state := STATE_RECEIVED_REPLY_HEADER\<rparr>, cs)
       }
       else report_error c EVENT_ERROR
     }
   | STATE_SENT_PASSWORD \<Rightarrow> do {
       b \<leftarrow> buf_read c 0 2;
       if b ! 0 \<noteq> 1 then report_error c EVENT_ERROR
       else if b ! 1 \<noteq> 0 then report_error c EVENT_ERROR
       else auth_finished fresh c
     }
   | STATE_RECEIVED_REPLY_HEADER \<Rightarrow> do {
       let c = c\<lparr>sc_buffer := None\<rparr>;
       c \<leftarrow> free_control_io c;
       c \<leftarrow> init_up_io c;
       Some (c\<lparr>sc_state := STATE_UP\<rparr>, [ScHandler EVENT_UP])
     }
   | _ \<Rightarrow> None)"

definition socks_recv_handler_done :: "bytes option \<Rightarrow> BSocksClient \<Rightarrow> int \<Rightarrow> socks_result" where
  "socks_recv_handler_done fresh c data_len = do {
     ASSERT (data_len \<ge> 0);
     ASSERT (data_len \<le> sc_recv_total c - sc_recv_len c);
     let c = c\<lparr>sc_recv_len := sc_recv_len c + data_len\<rparr>;
     if sc_recv_len c < sc_recv_total c then do_receive c
     else received_all fresh c
   }"

definition socks_send_handler_done :: "bytes option \<Rightarrow> BSocksClient \<Rightarrow> socks_result" where
  "socks_send_handler_done fresh c = do {
     ASSERT (sc_buffer c \<noteq> None);
     case sc_state c of
       STATE_SENDING_HELLO \<Rightarrow> (
         let sz = bsize_fromsize 2; (res, c) = reserve_buffer fresh c sz in
         if \<not> res then report_error c EVENT_ERROR
         else do {
           (c, cs) \<leftarrow> start_receive c 0 (c_int (uint (bs_value sz)));
           Some (c\<lparr>sc_state := STATE_SENT_HELLO\<rparr>, cs)
         })
     | STATE_SENDING_REQUEST \<Rightarrow> (
         let sz = bsize_add (bsize_fromsize 4) (bsize_max (bsize_fromsize 6) (bsize_fromsize 18));
             (res, c) = reserve_buffer fresh c sz in
         if \<not> res then report_error c EVENT_ERROR
         else do {
           (c, cs) \<leftarrow> start_receive c 0 4;
           Some (c\<lparr>sc_state := STATE_SENT_REQUEST\<rparr>, cs)
         })
     | STATE_SENDING_PASSWORD \<Rightarrow> (
         let sz = bsize_fromsize 2; (res, c) = reserve_buffer fresh c sz in
         if \<not> res then report_error c EVENT_ERROR
         else do {
           (c, cs) \<leftarrow> start_receive c 0 (c_int (uint (bs_value sz)));
           Some (c\<lparr>sc_state := STATE_SENT_PASSWORD\<rparr>, cs)
         })
     | _ \<Rightarrow> None
   }"

definition BSocksClient_auth_none :: BSocksClient_auth_info where
  "BSocksClient_auth_none =
     \<lparr>ai_auth_type = SOCKS_METHOD_NO_AUTHENTICATION_REQUIRED, ai_username = [], ai_password = []\<rparr>"

definition BSocksClient_auth_password :: "bytes \<Rightarrow> bytes \<Rightarrow> BSocksClient_auth_info" where
  "BSocksClient_auth_password username password =
     \<lparr>ai_auth_type = SOCKS_METHOD_USERNAME_PASSWORD, ai_username = username, ai_password = password\<rparr>"

text \<open>\<open>connector_ok\<close> is the result of \<^verbatim>\<open>BConnector_Init\<close>; the result is the return value with the object.\<close>

definition BSocksClient_Init ::
  "BAddr \<Rightarrow> BSocksClient_auth_info list \<Rightarrow> BAddr \<Rightarrow> bool \<Rightarrow> (int \<times> BSocksClient) option" where
  "BSocksClient_Init server_addr auth_info dest_addr connector_ok = do {
     ASSERT (\<not> BAddr_IsInvalid server_addr);
     ASSERT (BAddr_type dest_addr = BADDR_TYPE_IPV4 \<or> BAddr_type dest_addr = BADDR_TYPE_IPV6);
     ASSERT (list_all (\<lambda>ai. ai_auth_type ai = SOCKS_METHOD_NO_AUTHENTICATION_REQUIRED \<or>
       ai_auth_type ai = SOCKS_METHOD_USERNAME_PASSWORD) auth_info);
     let c = \<lparr>sc_auth_info = auth_info, sc_dest_addr = dest_addr, sc_state = STATE_CONNECTING, sc_buffer = None,
       sc_con = False, sc_control = False, sc_up = False, sc_recv_dest = 0, sc_recv_len = 0, sc_recv_total = 0\<rparr>;
     Some (if connector_ok then 1 else 0, c)
   }"

definition BSocksClient_Free :: "BSocksClient \<Rightarrow> BSocksClient option" where
  "BSocksClient_Free c = do {
     c \<leftarrow> (if sc_state c \<noteq> STATE_CONNECTING
       then do {
         c \<leftarrow> (if sc_state c = STATE_UP then free_up_io c else free_control_io c);
         connection_free c
       }
       else Some c);
     Some (c\<lparr>sc_buffer := None\<rparr>)
   }"

definition BSocksClient_GetSendInterface :: "BSocksClient \<Rightarrow> unit option" where
  "BSocksClient_GetSendInterface c = ASSERT (sc_state c = STATE_UP)"

definition BSocksClient_GetRecvInterface :: "BSocksClient \<Rightarrow> unit option" where
  "BSocksClient_GetRecvInterface c = ASSERT (sc_state c = STATE_UP)"

section \<open>The client among its environment\<close>

text \<open>
  A client with what its calls have done: packets handed to the stream sender and bytes the
  connection has delivered, the outstanding send and receive, and whether the user was told that the
  client is up or has failed. Once it failed the user has to free it, so nothing more is delivered.
\<close>

record socks_run =
  sr_c :: BSocksClient
  sr_tx :: "bytes list"
  sr_rx :: bytes
  sr_sending :: bool
  sr_recv :: "(int \<times> int) option"
  sr_up :: bool
  sr_dead :: bool

datatype socks_ev = SeConnector bool bool "bytes option" | SeConnection bool
  | SeSent "bytes option" | SeReceived bytes "bytes option"

fun socks_effect :: "socks_call \<Rightarrow> socks_run \<Rightarrow> socks_run" where
  "socks_effect (ScSend d) s = s\<lparr>sr_tx := sr_tx s @ [d], sr_sending := True\<rparr>"
| "socks_effect (ScRecv off n) s = s\<lparr>sr_recv := Some (off, n)\<rparr>"
| "socks_effect (ScHandler ev) s =
     (if ev = EVENT_UP then s\<lparr>sr_up := True\<rparr> else s\<lparr>sr_dead := True\<rparr>)"

definition socks_apply :: "socks_result \<Rightarrow> socks_run \<Rightarrow> socks_run option" where
  "socks_apply r s = map_option (\<lambda>(c, cs). fold socks_effect cs (s\<lparr>sr_c := c\<rparr>)) r"

fun socks_step :: "socks_run \<Rightarrow> socks_ev \<Rightarrow> socks_run option" where
  "socks_step s (SeConnector is_error con_ok fresh) =
     socks_apply (socks_connector_handler fresh con_ok is_error (sr_c s)) s"
| "socks_step s (SeConnection closed) = socks_apply (socks_connection_handler (sr_c s) closed) s"
| "socks_step s (SeSent fresh) =
     socks_apply (socks_send_handler_done fresh (sr_c s)) (s\<lparr>sr_sending := False\<rparr>)"
| "socks_step s (SeReceived d fresh) = do {
     (off, n) \<leftarrow> sr_recv s;
     c \<leftarrow> buf_write (sr_c s) (nat off) d;
     socks_apply (socks_recv_handler_done fresh c (int (length d)))
       (s\<lparr>sr_rx := sr_rx s @ d, sr_recv := None\<rparr>)
   }"

text \<open>
  The connector reports once; the connection reports errors while it exists; a send or a receive
  completes when one is outstanding, a receive with between one and the requested number of bytes.
\<close>

fun socks_enabled :: "socks_run \<Rightarrow> socks_ev \<Rightarrow> bool" where
  "socks_enabled s (SeConnector is_error con_ok fresh) =
     (\<not> sr_dead s \<and> sc_state (sr_c s) = STATE_CONNECTING)"
| "socks_enabled s (SeConnection closed) = (\<not> sr_dead s \<and> sc_con (sr_c s))"
| "socks_enabled s (SeSent fresh) = (\<not> sr_dead s \<and> sr_sending s)"
| "socks_enabled s (SeReceived d fresh) = (\<not> sr_dead s \<and> d \<noteq> [] \<and>
     (case sr_recv s of None \<Rightarrow> False | Some (off, n) \<Rightarrow> int (length d) \<le> n))"

definition socks_run0 :: "BSocksClient \<Rightarrow> socks_run" where
  "socks_run0 c = \<lparr>sr_c = c, sr_tx = [], sr_rx = [], sr_sending = False, sr_recv = None,
     sr_up = False, sr_dead = False\<rparr>"

subsection \<open>The protocol\<close>

text \<open>The messages of RFC 1928 and RFC 1929 that the client and its server exchange.\<close>

definition hello_msg :: "BSocksClient_auth_info list \<Rightarrow> bytes" where
  "hello_msg ais = [5, word_of_nat (length ais)] @ map (\<lambda>ai. word_of_int (ai_auth_type ai)) ais"

definition password_msg :: "BSocksClient_auth_info \<Rightarrow> bytes" where
  "password_msg ai = [1, word_of_nat (length (ai_username ai))] @ ai_username ai @
     [word_of_nat (length (ai_password ai))] @ ai_password ai"

fun request_msg :: "BAddr \<Rightarrow> bytes" where
  "request_msg (BAddr_IPV4 ip port) = [5, 1, 0, 1] @ mem32 ip @ mem16 port"
| "request_msg (BAddr_IPV6 ip port) = [5, 1, 0, 4] @ ip @ mem16 port"
| "request_msg _ = []"

text \<open>What was sent and received when the authentication is over.\<close>

definition password_ai :: "BSocksClient_auth_info list \<Rightarrow> BSocksClient_auth_info \<Rightarrow> bool" where
  "password_ai ais ai \<longleftrightarrow> ai \<in> set ais \<and> ai_auth_type ai = 2 \<and>
     length (ai_username ai) \<in> {1..255} \<and> length (ai_password ai) \<in> {1..255}"

definition authenticated :: "BSocksClient_auth_info list \<Rightarrow> bytes list \<Rightarrow> bytes \<Rightarrow> bool" where
  "authenticated ais tx rx \<longleftrightarrow>
     (tx = [hello_msg ais] \<and> rx = [5, 0] \<and> 0 \<in> ai_auth_type ` set ais) \<or>
     (\<exists>ai. password_ai ais ai \<and> tx = [hello_msg ais, password_msg ai] \<and> rx = [5, 2] @ [1, 0])"

definition reply_addr_len :: "u8 \<Rightarrow> nat" where
  "reply_addr_len atyp = (if atyp = 1 then 6 else 18)"

subsection \<open>Invariant\<close>

text \<open>A receive of \<open>tot\<close> bytes into the buffer at \<open>dest\<close> is under way; \<open>base\<close> came before it.\<close>

definition receiving :: "socks_run \<Rightarrow> bytes \<Rightarrow> int \<Rightarrow> int \<Rightarrow> bool" where
  "receiving s base dest tot \<longleftrightarrow> (\<exists>got b. sr_rx s = base @ got \<and> int (length got) < tot \<and> 0 \<le> dest \<and>
     sc_recv_dest (sr_c s) = dest \<and> sc_recv_total (sr_c s) = tot \<and> sc_recv_len (sr_c s) = int (length got) \<and>
     sr_recv s = Some (dest + int (length got), tot - int (length got)) \<and> \<not> sr_sending s \<and>
     sc_buffer (sr_c s) = Some b \<and> nat (dest + tot) \<le> length b \<and>
     take (length got) (drop (nat dest) b) = got)"

definition sending :: "socks_run \<Rightarrow> bool" where
  "sending s \<longleftrightarrow> sr_sending s \<and> sr_recv s = None \<and> sc_buffer (sr_c s) \<noteq> None"

definition socks_resources :: "BSocksClient \<Rightarrow> bool" where
  "socks_resources c \<longleftrightarrow> sc_con c = (sc_state c \<noteq> STATE_CONNECTING) \<and>
     sc_up c = (sc_state c = STATE_UP) \<and>
     sc_control c = (sc_state c \<noteq> STATE_CONNECTING \<and> sc_state c \<noteq> STATE_UP)"

definition socks_progress :: "BSocksClient_auth_info list \<Rightarrow> BAddr \<Rightarrow> socks_run \<Rightarrow> bool" where
  "socks_progress ais addr s = (let tx = sr_tx s; rx = sr_rx s in
     case sc_state (sr_c s) of
       STATE_CONNECTING \<Rightarrow> tx = [] \<and> rx = [] \<and> \<not> sr_sending s \<and> sr_recv s = None
     | STATE_SENDING_HELLO \<Rightarrow> tx = [hello_msg ais] \<and> rx = [] \<and> sending s
     | STATE_SENT_HELLO \<Rightarrow> tx = [hello_msg ais] \<and> receiving s [] 0 2
     | STATE_SENDING_PASSWORD \<Rightarrow>
         (\<exists>ai. password_ai ais ai \<and> tx = [hello_msg ais, password_msg ai]) \<and> rx = [5, 2] \<and> sending s
     | STATE_SENT_PASSWORD \<Rightarrow>
         (\<exists>ai. password_ai ais ai \<and> tx = [hello_msg ais, password_msg ai]) \<and> receiving s [5, 2] 0 2
     | STATE_SENDING_REQUEST \<Rightarrow>
         (\<exists>tx0. authenticated ais tx0 rx \<and> tx = tx0 @ [request_msg addr]) \<and> sending s
     | STATE_SENT_REQUEST \<Rightarrow>
         (\<exists>tx0 rx0. authenticated ais tx0 rx0 \<and> tx = tx0 @ [request_msg addr] \<and> receiving s rx0 0 4 \<and>
            22 \<le> length (the (sc_buffer (sr_c s))))
     | STATE_RECEIVED_REPLY_HEADER \<Rightarrow>
         (\<exists>tx0 rx0 rsv atyp. authenticated ais tx0 rx0 \<and> tx = tx0 @ [request_msg addr] \<and>
            atyp \<in> {1, 4} \<and> receiving s (rx0 @ [5, 0, rsv, atyp]) 4 (int (reply_addr_len atyp)))
     | STATE_UP \<Rightarrow>
         (\<exists>tx0 rx0 rsv atyp bound. authenticated ais tx0 rx0 \<and> tx = tx0 @ [request_msg addr] \<and>
            atyp \<in> {1, 4} \<and> length bound = reply_addr_len atyp \<and>
            rx = rx0 @ [5, 0, rsv, atyp] @ bound) \<and> sc_buffer (sr_c s) = None \<and>
            \<not> sr_sending s \<and> sr_recv s = None)"

definition socks_inv :: "BSocksClient_auth_info list \<Rightarrow> BAddr \<Rightarrow> socks_run \<Rightarrow> bool" where
  "socks_inv ais addr s \<longleftrightarrow> sc_auth_info (sr_c s) = ais \<and> sc_dest_addr (sr_c s) = addr \<and>
     ip_addr addr \<and> list_all (\<lambda>ai. ai_auth_type ai = 0 \<or> ai_auth_type ai = 2) ais \<and>
     socks_resources (sr_c s) \<and> sr_up s = (sc_state (sr_c s) = STATE_UP) \<and>
     (sr_dead s \<and> sc_state (sr_c s) \<noteq> STATE_UP \<or> socks_progress ais addr s)"

section \<open>What each handler does\<close>

lemma reserve_buffer_cases:
  assumes "\<not> is_overflow sz" "bs_value sz \<noteq> 0"
  obtains (failed) "reserve_buffer fresh c sz = (False, c)"
  | (ready) b where "reserve_buffer fresh c sz = (True, c\<lparr>sc_buffer := Some b\<rparr>)"
      "length b = unat (bs_value sz)"
  using assms by (cases "BRealloc fresh (sc_buffer c) (bs_value sz)")
    (auto simp: reserve_buffer_def dest: BRealloc_length)

lemma buf_write_Some: "off + length xs \<le> length b \<Longrightarrow> buf_write (c\<lparr>sc_buffer := Some b\<rparr>) off xs =
    Some (c\<lparr>sc_buffer := Some (take off b @ xs @ drop (off + length xs) b)\<rparr>)"
  by (simp add: buf_write_def mem_write_def)

lemma buf_send_all: "length b = unat n \<Longrightarrow> buf_send (c\<lparr>sc_buffer := Some b\<rparr>) n = Some [ScSend b]"
  by (simp add: buf_send_def buf_read_def mem_read_def)

lemma write_methods_Some: "2 + i + length ais \<le> length b \<Longrightarrow>
    write_methods i ais (c\<lparr>sc_buffer := Some b\<rparr>) = Some (c\<lparr>sc_buffer := Some
      (take (2 + i) b @ map (\<lambda>ai. word_of_int (ai_auth_type ai)) ais @ drop (2 + i + length ais) b)\<rparr>)"
proof (induction ais arbitrary: i b)
  case (Cons ai ais)
  then show ?case by (simp add: buf_write_Some hton8_def min_def add.commute)
qed simp

lemma start_receive_Some: "tot > 0 \<Longrightarrow> start_receive c dest tot =
    Some (c\<lparr>sc_recv_dest := dest, sc_recv_len := 0, sc_recv_total := tot\<rparr>, [ScRecv dest tot])"
  by (simp add: start_receive_def do_receive_def)

lemma hello_size:
  fixes n :: nat
  assumes "n \<le> 255"
  defines "sz \<equiv> bsize_add (bsize_fromsize 2) (bsize_mul (bsize_fromsize (word_of_nat n)) (bsize_fromsize 1))"
  shows "\<not> is_overflow sz" "bs_value sz \<noteq> 0" "unat (bs_value sz) = 2 + n"
proof -
  have u: "uint (word_of_nat n :: size_t) = int n" using assms(1) by (simp add: unsigned_of_nat take_bit_nat_eq_self)
  have "bsize_abs sz = Some (int n + 2)"
    using assms(1) by (simp add: sz_def bsize_abs_add bsize_abs_mul bsize_abs_fromsize fits_def u)
  then show "\<not> is_overflow sz" and v: "unat (bs_value sz) = 2 + n"
    by (auto simp: bsize_abs_def split: if_splits simp flip: nat_uint_eq)
  from v show "bs_value sz \<noteq> 0" by auto
qed

lemma connector_outcome:
  assumes "sc_state c = STATE_CONNECTING" "\<not> sc_con c" "\<not> sc_control c" "\<not> sc_up c"
  obtains (fail) b where "socks_connector_handler fresh con_ok is_error c = Some (c\<lparr>sc_buffer := b\<rparr>, [ScHandler EVENT_ERROR])"
  | (hello) b where "socks_connector_handler fresh con_ok is_error c =
      Some (c\<lparr>sc_con := True, sc_control := True, sc_buffer := Some b, sc_state := STATE_SENDING_HELLO\<rparr>,
        [ScSend (hello_msg (sc_auth_info c))])"
proof -
  let ?n = "length (sc_auth_info c)"
  let ?c1 = "c\<lparr>sc_con := True, sc_control := True\<rparr>"
  define sz where "sz = bsize_add (bsize_fromsize 2) (bsize_mul (bsize_fromsize (word_of_nat ?n)) (bsize_fromsize 1))"
  note h = socks_connector_handler_def
  show thesis
  proof (cases "is_error \<or> \<not> con_ok \<or> ?n = 0 \<or> ?n > 255")
    case True
    then have "socks_connector_handler fresh con_ok is_error c = Some (c, [ScHandler EVENT_ERROR])"
      using assms by (auto simp: h sz_def [symmetric] init_control_io_def free_control_io_def connection_free_def report_error_def
          split: prod.split)
    then show thesis using fail [of "sc_buffer c"] by simp
  next
    case False
    then have n: "?n \<le> 255" by simp
    note sz = hello_size [OF n, folded sz_def]
    from sz(1,2) show thesis
    proof (cases rule: reserve_buffer_cases [where fresh = fresh and c = "?c1"])
      case failed
      then have "socks_connector_handler fresh con_ok is_error c = Some (c, [ScHandler EVENT_ERROR])"
        using assms False by (auto simp: h sz_def [symmetric] init_control_io_def free_control_io_def connection_free_def report_error_def
          split: prod.split)
      then show thesis using fail [of "sc_buffer c"] by simp
    next
      case (ready b)
      let ?msg = "hello_msg (sc_auth_info c)"
      have len: "length b = 2 + ?n" using ready(2) sz(3) by simp
      then have w1: "buf_write (?c1\<lparr>sc_buffer := Some b\<rparr>) 0 [5, word_of_nat ?n] =
        Some (?c1\<lparr>sc_buffer := Some ([5, word_of_nat ?n] @ drop 2 b)\<rparr>)"
        by (subst buf_write_Some) (simp_all add: numeral_2_eq_2)
      have w2: "write_methods 0 (sc_auth_info c) (?c1\<lparr>sc_buffer := Some ([5, word_of_nat ?n] @ drop 2 b)\<rparr>) =
        Some (?c1\<lparr>sc_buffer := Some ?msg\<rparr>)"
        using len by (subst write_methods_Some) (simp_all add: hello_msg_def)
      have w3: "buf_send (?c1\<lparr>sc_buffer := Some ?msg\<rparr>) (bs_value sz) = Some [ScSend ?msg]"
        by (rule buf_send_all) (simp add: sz(3) hello_msg_def)
      show thesis
      proof (rule hello [of ?msg])
        show "socks_connector_handler fresh con_ok is_error c =
          Some (c\<lparr>sc_con := True, sc_control := True, sc_buffer := Some ?msg, sc_state := STATE_SENDING_HELLO\<rparr>,
            [ScSend ?msg])"
          using assms False ready(1) w1 w2 w3
          by (simp add: h sz_def [symmetric] init_control_io_def hton8_def split: prod.split)
      qed
    qed
  qed
qed

lemma auth_finished_outcome:
  assumes "ip_addr (sc_dest_addr c)"
  obtains (fail) "auth_finished fresh c = Some (c, [ScHandler EVENT_ERROR])"
  | (request) b where "auth_finished fresh c =
      Some (c\<lparr>sc_buffer := Some b, sc_state := STATE_SENDING_REQUEST\<rparr>, [ScSend (request_msg (sc_dest_addr c))])"
proof (cases "sc_dest_addr c")
  case (BAddr_IPV4 ip port)
  let ?sz = "bsize_add (bsize_fromsize 4) (bsize_fromsize 6)"
  let ?m = "5 # 1 # 0 # 1 # mem32 ip @ mem16 port"
  have sz: "\<not> is_overflow ?sz" "bs_value ?sz \<noteq> 0" "bs_value ?sz = 10"
    by (simp_all add: bsize_add_def bsize_fromsize_def)
  from sz(1,2) show thesis
  proof (cases rule: reserve_buffer_cases [where fresh = fresh and c = "c"])
    case failed
    then have "auth_finished fresh c = Some (c, [ScHandler EVENT_ERROR])"
      by (simp add: auth_finished_def BAddr_IPV4 report_error_def)
    then show thesis by (rule fail)
  next
    case (ready b)
    have len: "length b = 10" using ready(2) by (simp add: sz)
    let ?a = "mem32 ip @ mem16 port"
    have w1: "buf_write (c\<lparr>sc_buffer := Some b\<rparr>) 4 ?a = Some (c\<lparr>sc_buffer := Some (take 4 b @ ?a)\<rparr>)"
      using len by (subst buf_write_Some) simp_all
    have w2: "buf_write (c\<lparr>sc_buffer := Some (take 4 b @ ?a)\<rparr>) 0 [5, 1, 0, 1] = Some (c\<lparr>sc_buffer := Some ?m\<rparr>)"
      using len by (subst buf_write_Some) (simp_all add: BAddr_IPV4)
    have w3: "buf_send (c\<lparr>sc_buffer := Some ?m\<rparr>) 10 = Some [ScSend ?m]"
      by (rule buf_send_all) (simp add: BAddr_IPV4)
    show thesis
      by (rule request [of ?m])
        (simp add: auth_finished_def BAddr_IPV4 ready(1) [simplified] sz w1 w2 w3
          addr_ipv4_image_def hton8_def)
  qed
next
  case (BAddr_IPV6 ip port)
  let ?sz = "bsize_add (bsize_fromsize 4) (bsize_fromsize 18)"
  let ?m = "5 # 1 # 0 # 4 # ip @ mem16 port"
  have sz: "\<not> is_overflow ?sz" "bs_value ?sz \<noteq> 0" "bs_value ?sz = 22"
    by (simp_all add: bsize_add_def bsize_fromsize_def)
  have l16: "length ip = 16" using assms BAddr_IPV6 by simp
  from sz(1,2) show thesis
  proof (cases rule: reserve_buffer_cases [where fresh = fresh and c = "c"])
    case failed
    then have "auth_finished fresh c = Some (c, [ScHandler EVENT_ERROR])"
      by (simp add: auth_finished_def BAddr_IPV6 report_error_def)
    then show thesis by (rule fail)
  next
    case (ready b)
    have len: "length b = 22" using ready(2) by (simp add: sz)
    let ?a = "ip @ mem16 port"
    have w1: "buf_write (c\<lparr>sc_buffer := Some b\<rparr>) 4 ?a = Some (c\<lparr>sc_buffer := Some (take 4 b @ ?a)\<rparr>)"
      using len l16 by (subst buf_write_Some) simp_all
    have w2: "buf_write (c\<lparr>sc_buffer := Some (take 4 b @ ?a)\<rparr>) 0 [5, 1, 0, 4] = Some (c\<lparr>sc_buffer := Some ?m\<rparr>)"
      using len by (subst buf_write_Some) (simp_all add: BAddr_IPV6)
    have w3: "buf_send (c\<lparr>sc_buffer := Some ?m\<rparr>) 22 = Some [ScSend ?m]"
      by (rule buf_send_all) (simp add: BAddr_IPV6 l16)
    show thesis
      by (rule request [of ?m])
        (simp add: auth_finished_def BAddr_IPV6 ready(1) [simplified] sz w1 w2 w3
          addr_ipv6_image_def hton8_def)
  qed
qed (use assms in simp_all)

lemma send_password_outcome:
  obtains (fail) "send_password fresh c ai = Some (c, [ScHandler EVENT_ERROR])"
  | (password) b where "length (ai_username ai) \<in> {1..255}" "length (ai_password ai) \<in> {1..255}"
      "send_password fresh c ai =
        Some (c\<lparr>sc_buffer := Some b, sc_state := STATE_SENDING_PASSWORD\<rparr>, [ScSend (password_msg ai)])"
proof -
  let ?u = "ai_username ai" and ?p = "ai_password ai"
  show thesis
  proof (cases "length ?u \<in> {1..255} \<and> length ?p \<in> {1..255}")
    case False
    then have "send_password fresh c ai = Some (c, [ScHandler EVENT_ERROR])"
      by (auto simp: send_password_def report_error_def Let_def not_le)
    then show thesis by (rule fail)
  next
    case lens: True
    define w :: size_t where "w = 3 + word_of_nat (length ?u) + word_of_nat (length ?p)"
    from lens have ne: "?u \<noteq> []" "?p \<noteq> []" by auto
    have "w = word_of_nat (3 + length ?u + length ?p)" by (simp add: w_def)
    then have w: "unat w = 3 + length ?u + length ?p"
      by (simp only:) (rule unat_size_of_nat, use lens in simp)
    then have "\<not> is_overflow (bsize_fromsize w)" "bs_value (bsize_fromsize w) \<noteq> 0"
      by (auto simp: bsize_fromsize_def)
    then show thesis
    proof (cases rule: reserve_buffer_cases [where fresh = fresh and c = c])
      case failed
      then have "send_password fresh c ai = Some (c, [ScHandler EVENT_ERROR])"
        using lens ne by (simp add: send_password_def report_error_def Let_def w_def)
      then show thesis by (rule fail)
    next
      case (ready b)
      from ready(2) have len: "length b = 3 + length ?u + length ?p" by (simp add: w bsize_fromsize_def)
      have snd: "buf_send (c\<lparr>sc_buffer := Some (password_msg ai)\<rparr>) w = Some [ScSend (password_msg ai)]"
        by (rule buf_send_all) (simp add: w password_msg_def)
      have "send_password fresh c ai =
        Some (c\<lparr>sc_buffer := Some (password_msg ai), sc_state := STATE_SENDING_PASSWORD\<rparr>, [ScSend (password_msg ai)])"
        using lens ne ready(1) len snd
        by (simp add: send_password_def Let_def w_def [symmetric] buf_write_Some min_def numeral_2_eq_2 numeral_3_eq_3
            bsize_fromsize_def password_msg_def)
      then show thesis using lens by (intro password) auto
    qed
  qed
qed

lemma received_hello_outcome:
  assumes "sc_buffer c = Some b" "take 2 b = [v, m]" "ip_addr (sc_dest_addr c)"
    and types: "list_all (\<lambda>ai. ai_auth_type ai = 0 \<or> ai_auth_type ai = 2) (sc_auth_info c)"
  obtains (fail) "received_hello fresh c = Some (c, [ScHandler EVENT_ERROR])"
  | (no_auth) b' where "v = 5" "m = 0" "0 \<in> ai_auth_type ` set (sc_auth_info c)"
      "received_hello fresh c =
        Some (c\<lparr>sc_buffer := Some b', sc_state := STATE_SENDING_REQUEST\<rparr>, [ScSend (request_msg (sc_dest_addr c))])"
  | (password) b' ai where "v = 5" "m = 2" "password_ai (sc_auth_info c) ai"
      "received_hello fresh c =
        Some (c\<lparr>sc_buffer := Some b', sc_state := STATE_SENDING_PASSWORD\<rparr>, [ScSend (password_msg ai)])"
proof -
  have len: "2 \<le> length b" using arg_cong [OF assms(2), of length] by simp
  have img: "buf_read c 0 2 = Some [v, m]" using len assms(1,2) by (simp add: buf_read_def mem_read_def)
  note rh = received_hello_def img report_error_def ntoh8_def hton8_def
  show thesis
  proof (cases "v = 5 \<and> find (\<lambda>ai. ai_auth_type ai = uint m) (sc_auth_info c) \<noteq> None")
    case False
    then have "received_hello fresh c = Some (c, [ScHandler EVENT_ERROR])" by (auto simp: rh)
    then show thesis by (rule fail)
  next
    case True
    then obtain ai where v: "v = 5" and ai: "find (\<lambda>ai. ai_auth_type ai = uint m) (sc_auth_info c) = Some ai"
      by blast
    then have mem: "ai \<in> set (sc_auth_info c)" and ty: "ai_auth_type ai = uint m"
      by (auto simp: find_Some_iff)
    consider "ai_auth_type ai = 0" | "ai_auth_type ai = 2" using types mem by (auto simp: list_all_iff)
    then show thesis
    proof cases
      case 1
      then have m: "m = 0" using ty by (metis uint_0_iff)
      have r: "received_hello fresh c = auth_finished fresh c" using v ai 1 by (simp add: rh)
      have z: "0 \<in> ai_auth_type ` set (sc_auth_info c)" using mem 1 by force
      from assms(3) show thesis
        by (cases rule: auth_finished_outcome [where fresh = fresh])
          (use r fail no_auth [OF v m z] in simp_all)
    next
      case 2
      then have m: "m = 2" using ty word_of_int_uint [of m] by simp
      have r: "received_hello fresh c = send_password fresh c ai" using v ai 2 by (simp add: rh)
      show thesis
        by (cases rule: send_password_outcome [where fresh = fresh and c = c and ai = ai])
          (use r fail password [OF v m, of ai] mem 2 in \<open>simp_all add: password_ai_def\<close>)
    qed
  qed
qed

section \<open>Steps preserve the invariant\<close>

lemma socks_apply_Some [simp]: "socks_apply (Some (c, cs)) s = Some (fold socks_effect cs (s\<lparr>sr_c := c\<rparr>))"
  by (simp add: socks_apply_def)

lemma receive_step:
  assumes r: "receiving s base dest tot" and en: "socks_enabled s (SeReceived d fresh)"
  obtains (more) b n where "length b = length (the (sc_buffer (sr_c s)))"
      "socks_step s (SeReceived d fresh) =
        Some (s\<lparr>sr_rx := sr_rx s @ d, sr_recv := Some (dest + n, tot - n),
          sr_c := (sr_c s)\<lparr>sc_buffer := Some b, sc_recv_len := n\<rparr>\<rparr>)"
      "receiving (s\<lparr>sr_rx := sr_rx s @ d, sr_recv := Some (dest + n, tot - n),
          sr_c := (sr_c s)\<lparr>sc_buffer := Some b, sc_recv_len := n\<rparr>\<rparr>) base dest tot"
  | (full) b got where "length b = length (the (sc_buffer (sr_c s)))"
      "socks_step s (SeReceived d fresh) =
        socks_apply (received_all fresh ((sr_c s)\<lparr>sc_buffer := Some b, sc_recv_len := tot\<rparr>))
          (s\<lparr>sr_rx := base @ got, sr_recv := None\<rparr>)"
      "int (length got) = tot" "take (nat tot) (drop (nat dest) b) = got"
proof -
  from r obtain got b0 where rx: "sr_rx s = base @ got" and pos: "0 \<le> dest" "int (length got) < tot"
    and rd: "sc_recv_dest (sr_c s) = dest" and rt: "sc_recv_total (sr_c s) = tot"
    and rl: "sc_recv_len (sr_c s) = int (length got)" and ns: "\<not> sr_sending s"
    and rr: "sr_recv s = Some (dest + int (length got), tot - int (length got))"
    and b0: "sc_buffer (sr_c s) = Some b0" "nat (dest + tot) \<le> length b0"
    and got: "take (length got) (drop (nat dest) b0) = got"
    unfolding receiving_def by blast
  let ?n = "length got + length d"
  have d: "int ?n \<le> tot" using en rr by simp
  obtain k where k: "dest = int k" using pos(1) nonneg_int_cases by blast
  have fit: "k + length got + length d \<le> length b0" using d b0(2) k by linarith
  define b where "b = take (k + length got) b0 @ d @ drop (k + length got + length d) b0"
  have lb: "length b = length b0" using fit by (simp add: b_def)
  have tk: "take ?n (drop k b) = got @ d"
  proof -
    have "drop k b = take (length got) (drop k b0) @ d @ drop (k + length got + length d) b0"
      using fit by (simp add: b_def drop_take)
    then show ?thesis using got k fit by simp
  qed
  have w: "buf_write (sr_c s) (nat (dest + int (length got))) d = Some ((sr_c s)\<lparr>sc_buffer := Some b\<rparr>)"
    using fit b0(1) by (simp add: buf_write_def mem_write_def k b_def nat_add_distrib)
  have st: "socks_step s (SeReceived d fresh) =
    socks_apply (socks_recv_handler_done fresh ((sr_c s)\<lparr>sc_buffer := Some b\<rparr>) (int (length d)))
      (s\<lparr>sr_rx := sr_rx s @ d, sr_recv := None\<rparr>)"
    by (simp add: rr w)
  show thesis
  proof (cases "int ?n < tot")
    case True
    have "socks_step s (SeReceived d fresh) =
      Some (s\<lparr>sr_rx := sr_rx s @ d, sr_recv := Some (dest + int ?n, tot - int ?n),
        sr_c := (sr_c s)\<lparr>sc_buffer := Some b, sc_recv_len := int ?n\<rparr>\<rparr>)"
      using True by (simp only: st) (simp add: socks_recv_handler_done_def do_receive_def rl rt rd)
    moreover have "receiving (s\<lparr>sr_rx := sr_rx s @ d, sr_recv := Some (dest + int ?n, tot - int ?n),
        sr_c := (sr_c s)\<lparr>sc_buffer := Some b, sc_recv_len := int ?n\<rparr>\<rparr>) base dest tot"
      unfolding receiving_def
      by (rule exI [of _ "got @ d"], rule exI [of _ b]) (use True tk lb b0 pos in \<open>simp add: rx rd rt ns k\<close>)
    ultimately show thesis using more lb b0(1) by simp
  next
    case False
    then have n: "int ?n = tot" using d by simp
    have "socks_step s (SeReceived d fresh) =
        socks_apply (received_all fresh ((sr_c s)\<lparr>sc_buffer := Some b, sc_recv_len := tot\<rparr>))
          (s\<lparr>sr_rx := base @ (got @ d), sr_recv := None\<rparr>)"
      using n by (simp only: st) (simp add: socks_recv_handler_done_def rl rt rx)
    then show thesis by (rule full [rotated]) (use lb b0(1) n tk k in \<open>auto simp: nat_int_add\<close>)
  qed
qed

text \<open>Entering the state in which the password message is sent: which message that is.\<close>

lemma effects_client [simp]: "sr_c (fold socks_effect cs s) = sr_c s"
proof (induction cs arbitrary: s)
  case (Cons x cs)
  have "sr_c (socks_effect x s) = sr_c s" by (cases x) simp_all
  with Cons show ?case by simp
qed simp

lemma reserve_state: "reserve_buffer fresh c sz = (res, c') \<Longrightarrow> sc_state c' = sc_state c"
  by (auto simp: reserve_buffer_def split: if_splits option.splits)

lemma buf_write_state: "buf_write c n xs = Some c' \<Longrightarrow> sc_state c' = sc_state c"
  by (auto simp: buf_write_def bind_eq_Some_conv)

lemma write_methods_state: "write_methods i ais c = Some c' \<Longrightarrow> sc_state c' = sc_state c"
  by (induction ais arbitrary: i c) (auto simp: bind_eq_Some_conv dest: buf_write_state)

lemma connector_state: "socks_connector_handler fresh con_ok is_error c = Some (c', cs) \<Longrightarrow>
    sc_state c' = sc_state c \<or> sc_state c' = STATE_SENDING_HELLO"
  by (auto simp: socks_connector_handler_def Let_def bind_eq_Some_conv report_error_def init_control_io_def free_control_io_def
      connection_free_def split: if_splits prod.splits dest!: reserve_state buf_write_state write_methods_state)

lemma connection_state: "socks_connection_handler c closed = Some (c', cs) \<Longrightarrow> c' = c"
  by (auto simp: socks_connection_handler_def bind_eq_Some_conv report_error_def split: if_splits)

lemma auth_finished_state: "auth_finished fresh c = Some (c', cs) \<Longrightarrow> sc_state c' = sc_state c \<or> sc_state c' = STATE_SENDING_REQUEST"
  by (auto simp: auth_finished_def Let_def report_error_def bind_eq_Some_conv split: if_splits prod.splits dest!: reserve_state)

lemma sent_state: "socks_send_handler_done fresh c = Some (c', cs) \<Longrightarrow> sc_state c' = sc_state c \<or> sc_state c' \<noteq> STATE_SENDING_PASSWORD"
  by (auto simp: socks_send_handler_done_def Let_def report_error_def bind_eq_Some_conv split: socks_state.splits if_splits prod.splits
      dest!: reserve_state)

lemma received_hello_state:
  assumes "received_hello fresh c = Some (c', cs)" "sc_state c' = STATE_SENDING_PASSWORD" "sc_state c \<noteq> STATE_SENDING_PASSWORD"
  obtains ai where "find (\<lambda>ai. ai_auth_type ai = 2) (sc_auth_info c) = Some ai" "cs = [ScSend (password_msg ai)]"
proof -
  have rep: "c' = c" if "report_error c EVENT_ERROR = Some (c', cs)" using that by (simp add: report_error_def)
  from assms(1) obtain imsg where imsg: "buf_read c 0 2 = Some imsg" by (auto simp: received_hello_def bind_eq_Some_conv)
  let ?m = "uint (ntoh8 (imsg ! 1))"
  show thesis
  proof (cases "ntoh8 (imsg ! 0) \<noteq> SOCKS_VERSION \<or> find (\<lambda>ai. ai_auth_type ai = ?m) (sc_auth_info c) = None")
    case True
    then have "received_hello fresh c = report_error c EVENT_ERROR" by (auto simp: received_hello_def imsg)
    with assms rep show thesis by simp
  next
    case False
    then obtain ai where ai: "find (\<lambda>ai. ai_auth_type ai = ?m) (sc_auth_info c) = Some ai" by blast
    then have ty: "ai_auth_type ai = ?m" by (auto simp: find_Some_iff)
    have r: "received_hello fresh c = (if ai_auth_type ai = SOCKS_METHOD_NO_AUTHENTICATION_REQUIRED then auth_finished fresh c
        else if ai_auth_type ai = SOCKS_METHOD_USERNAME_PASSWORD then send_password fresh c ai else None)"
      using False ai by (simp add: received_hello_def imsg)
    show thesis
    proof (cases "ai_auth_type ai = 2")
      case True
      with r assms(1) have sp: "send_password fresh c ai = Some (c', cs)" by simp
      have "cs = [ScSend (password_msg ai)]"
        by (cases rule: send_password_outcome [where fresh = fresh and c = c and ai = ai]) (use sp assms(2,3) in auto)
      moreover have "find (\<lambda>ai. ai_auth_type ai = 2) (sc_auth_info c) = Some ai" using ai ty True by simp
      ultimately show thesis by (intro that)
    next
      case no: False
      with r assms(1) have "auth_finished fresh c = Some (c', cs)" by (auto split: if_splits)
      from auth_finished_state [OF this] assms(2,3) show thesis by auto
    qed
  qed
qed

lemma received_all_state:
  assumes "received_all fresh c = Some (c', cs)" "sc_state c' = STATE_SENDING_PASSWORD" "sc_state c \<noteq> STATE_SENDING_PASSWORD"
  obtains ai where "find (\<lambda>ai. ai_auth_type ai = 2) (sc_auth_info c) = Some ai" "cs = [ScSend (password_msg ai)]"
proof (cases "sc_state c = STATE_SENT_HELLO")
  case True
  with assms(1) have "received_hello fresh c = Some (c', cs)" by (simp add: received_all_def)
  from received_hello_state [OF this assms(2,3)] that show thesis by blast
next
  case False
  with assms have False
    by (auto simp: received_all_def report_error_def bind_eq_Some_conv Let_def split: socks_state.splits if_splits dest!: auth_finished_state)
  then show thesis ..
qed

lemma password_step:
  assumes "socks_step s e = Some s'" "sc_state (sr_c s) \<noteq> STATE_SENDING_PASSWORD" "sc_state (sr_c s') = STATE_SENDING_PASSWORD"
  shows "\<exists>ai. find (\<lambda>ai. ai_auth_type ai = 2) (sc_auth_info (sr_c s)) = Some ai \<and> sr_tx s' = sr_tx s @ [password_msg ai]"
proof (cases e)
  case (SeReceived d fresh)
  then obtain off n c c' cs where c: "buf_write (sr_c s) (nat off) d = Some c" "socks_recv_handler_done fresh c (int (length d)) = Some (c', cs)"
    "s' = fold socks_effect cs (s\<lparr>sr_rx := sr_rx s @ d, sr_recv := None, sr_c := c'\<rparr>)"
    using assms(1) by (auto simp: bind_eq_Some_conv socks_apply_def)
  let ?c = "c\<lparr>sc_recv_len := sc_recv_len c + int (length d)\<rparr>"
  have w: "sc_state c = sc_state (sr_c s)" "sc_auth_info c = sc_auth_info (sr_c s)" using c(1) by (auto simp: buf_write_def bind_eq_Some_conv)
  have st: "sc_state c' = STATE_SENDING_PASSWORD" using assms(3) c(3) by simp
  have "do_receive ?c \<noteq> Some (c', cs)" using st w(1) assms(2) by (auto simp: do_receive_def bind_eq_Some_conv)
  with c(2) have "received_all fresh ?c = Some (c', cs)"
    by (auto simp: socks_recv_handler_done_def bind_eq_Some_conv Let_def split: if_splits)
  from received_all_state [OF this st] w assms(2) obtain ai where
    "find (\<lambda>ai. ai_auth_type ai = 2) (sc_auth_info (sr_c s)) = Some ai" "cs = [ScSend (password_msg ai)]" by auto
  with c(3) show ?thesis by simp
qed (use assms in \<open>auto simp: socks_apply_def dest: connector_state connection_state sent_state\<close>)

lemma inv_state: "socks_inv ais addr s \<Longrightarrow> \<not> sr_dead s \<Longrightarrow> socks_progress ais addr s"
  by (simp add: socks_inv_def)

text \<open>A control state is entered with the resources as they are.\<close>

lemma control_inv:
  assumes "socks_inv ais addr s" "socks_progress ais addr s'" "sr_up s' = sr_up s"
    and "sc_auth_info (sr_c s') = sc_auth_info (sr_c s)" "sc_dest_addr (sr_c s') = sc_dest_addr (sr_c s)"
    and "sc_con (sr_c s') = sc_con (sr_c s)" "sc_control (sr_c s') = sc_control (sr_c s)"
      "sc_up (sr_c s') = sc_up (sr_c s)"
    and "sc_state (sr_c s) \<notin> {STATE_CONNECTING, STATE_UP}" "sc_state (sr_c s') \<notin> {STATE_CONNECTING, STATE_UP}"
  shows "socks_inv ais addr s'"
  using assms by (simp add: socks_inv_def socks_resources_def)

definition good :: "BSocksClient_auth_info list \<Rightarrow> BAddr \<Rightarrow> socks_run option \<Rightarrow> bool" where
  "good ais addr r = (case r of None \<Rightarrow> False | Some s \<Rightarrow> socks_inv ais addr s)"

lemma good_Some [simp]: "good ais addr (Some s) = socks_inv ais addr s"
  by (simp add: good_def)

lemma connector_step_good:
  assumes i: "socks_inv ais addr s" and en: "socks_enabled s (SeConnector is_error con_ok fresh)"
  shows "good ais addr (socks_step s (SeConnector is_error con_ok fresh))"
proof -
  let ?c = "sr_c s"
  have st: "sc_state ?c = STATE_CONNECTING" and nd: "\<not> sr_dead s" using en by simp_all
  have res: "\<not> sc_con ?c" "\<not> sc_control ?c" "\<not> sc_up ?c"
    using i st by (simp_all add: socks_inv_def socks_resources_def)
  have pr: "sr_tx s = []" "sr_rx s = []" "\<not> sr_sending s" "sr_recv s = None"
    using inv_state [OF i nd] by (simp_all add: socks_progress_def st)
  from st res show ?thesis
  proof (cases rule: connector_outcome [where fresh = fresh and con_ok = con_ok and is_error = is_error])
    case (fail b)
    then show ?thesis using i st by (simp add: socks_inv_def socks_resources_def)
  next
    case (hello b)
    then show ?thesis using i st pr nd
      by (simp add: socks_inv_def socks_resources_def socks_progress_def sending_def)
  qed
qed

lemma connection_step_good:
  assumes i: "socks_inv ais addr s" and en: "socks_enabled s (SeConnection closed)"
  shows "good ais addr (socks_step s (SeConnection closed))"
  using assms by (auto simp: socks_connection_handler_def report_error_def socks_inv_def socks_resources_def
      socks_progress_def)

text \<open>The three messages whose answer is awaited: the next state, the bytes asked for, the buffer.\<close>

definition awaits :: "socks_state \<Rightarrow> socks_state \<Rightarrow> int \<Rightarrow> nat \<Rightarrow> bool" where
  "awaits st st' tot len \<longleftrightarrow>
     (st = STATE_SENDING_HELLO \<and> st' = STATE_SENT_HELLO \<and> tot = 2 \<and> len = 2) \<or>
     (st = STATE_SENDING_PASSWORD \<and> st' = STATE_SENT_PASSWORD \<and> tot = 2 \<and> len = 2) \<or>
     (st = STATE_SENDING_REQUEST \<and> st' = STATE_SENT_REQUEST \<and> tot = 4 \<and> len = 22)"

lemma sent_outcome:
  assumes "sc_buffer c \<noteq> None" "awaits (sc_state c) st' tot len"
  obtains (fail) "socks_send_handler_done fresh c = Some (c, [ScHandler EVENT_ERROR])"
  | (wait) b where "length b = len" "socks_send_handler_done fresh c =
      Some (c\<lparr>sc_buffer := Some b, sc_recv_dest := 0, sc_recv_len := 0, sc_recv_total := tot, sc_state := st'\<rparr>,
        [ScRecv 0 tot])"
proof -
  have sz: "bsize_add (bsize_fromsize 4) (bsize_max (bsize_fromsize 6) (bsize_fromsize 18)) = bsize_fromsize 22"
    by (simp add: bsize_add_def bsize_max_def bsize_fromsize_def)
  have v2: "bs_value (bsize_fromsize 2) = 2" by (simp add: bsize_fromsize_def)
  have i2: "c_int 2 = 2" by (rule c_int_id) simp_all
  define w :: size_t where "w = (if len = 2 then 2 else 22)"
  have w: "unat w = len" "\<not> is_overflow (bsize_fromsize w)" "bs_value (bsize_fromsize w) \<noteq> 0" "bs_value (bsize_fromsize w) = w"
    using assms(2) by (auto simp: w_def bsize_fromsize_def awaits_def)
  note d = socks_send_handler_done_def Let_def sz report_error_def start_receive_Some i2
  from w(2,3) show thesis
  proof (cases rule: reserve_buffer_cases [where fresh = fresh and c = c])
    case failed
    then have "socks_send_handler_done fresh c = Some (c, [ScHandler EVENT_ERROR])"
      using assms by (auto simp: d awaits_def w_def)
    then show thesis by (rule fail)
  next
    case (ready b)
    have "socks_send_handler_done fresh c =
      Some (c\<lparr>sc_buffer := Some b, sc_recv_dest := 0, sc_recv_len := 0, sc_recv_total := tot, sc_state := st'\<rparr>,
        [ScRecv 0 tot])"
      using assms ready(1) by (auto simp: d awaits_def w_def v2)
    then show thesis using ready(2) w by (intro wait) simp_all
  qed
qed

lemma sent_step_good:
  assumes i: "socks_inv ais addr s" and en: "socks_enabled s (SeSent fresh)"
  shows "good ais addr (socks_step s (SeSent fresh))"
proof -
  let ?c = "sr_c s"
  have nd: "\<not> sr_dead s" and sn: "sr_sending s" using en by simp_all
  note pr = inv_state [OF i nd]
  obtain st' tot len where aw: "awaits (sc_state ?c) st' tot len"
    using pr sn by (cases "sc_state ?c") (auto simp: socks_progress_def receiving_def awaits_def)
  have snd: "sending s" using pr aw by (auto simp: awaits_def socks_progress_def)
  then have "sc_buffer ?c \<noteq> None" by (simp add: sending_def)
  then show ?thesis using aw
  proof (cases rule: sent_outcome [where fresh = fresh])
    case fail
    then show ?thesis using i aw by (auto simp: socks_inv_def socks_resources_def awaits_def)
  next
    case (wait b)
    define s' where "s' = s\<lparr>sr_sending := False, sr_recv := Some (0, tot), sr_c := ?c\<lparr>sc_buffer := Some b,
      sc_recv_dest := 0, sc_recv_len := 0, sc_recv_total := tot, sc_state := st'\<rparr>\<rparr>"
    have "socks_step s (SeSent fresh) = Some s'" by (simp add: wait(2) s'_def)
    moreover have "receiving s' (sr_rx s) 0 tot"
      using wait(1) aw by (auto simp: receiving_def s'_def awaits_def)
    then have "socks_progress ais addr s'"
      using pr aw wait(1) by (auto simp: socks_progress_def s'_def awaits_def) blast
    then have "socks_inv ais addr s'"
      by (rule control_inv [OF i]) (use aw in \<open>auto simp: s'_def awaits_def\<close>)
    ultimately show ?thesis by simp
  qed
qed

lemma take2_list: "length got = 2 \<Longrightarrow> \<exists>v m. got = [v, m]"
  and take4_list: "length got = 4 \<Longrightarrow> \<exists>v m x y. got = [v, m, x, y]"
  by (auto simp: numeral_eq_Suc length_Suc_conv)

text \<open>
  The four states in which a receive is outstanding. \<open>receive_step\<close> either leaves the state, with
  more of the answer in the buffer, or runs the switch on the whole answer.
\<close>

lemma full_hello_good:
  assumes i: "socks_inv ais addr s" and nd: "\<not> sr_dead s" and st: "sc_state (sr_c s) = STATE_SENT_HELLO"
    and got: "int (length got) = 2" "take (nat 2) (drop (nat 0) b) = got"
  shows "good ais addr (socks_apply (received_all fresh ((sr_c s)\<lparr>sc_buffer := Some b, sc_recv_len := 2\<rparr>))
          (s\<lparr>sr_rx := [] @ got, sr_recv := None\<rparr>))"
proof -
  let ?c = "(sr_c s)\<lparr>sc_buffer := Some b, sc_recv_len := 2\<rparr>"
  obtain v m where vm: "got = [v, m]" using take2_list [of got] got(1) by auto
  have ra: "received_all fresh ?c = received_hello fresh ?c" using st by (simp add: received_all_def)
  have pr: "sr_tx s = [hello_msg ais]" "\<not> sr_sending s"
    using inv_state [OF i nd] by (auto simp: socks_progress_def st receiving_def)
  have "sc_buffer ?c = Some b" "take 2 b = [v, m]" "ip_addr (sc_dest_addr ?c)"
    "list_all (\<lambda>ai. ai_auth_type ai = 0 \<or> ai_auth_type ai = 2) (sc_auth_info ?c)"
    using i got vm by (simp_all add: socks_inv_def)
  then show ?thesis
  proof (cases rule: received_hello_outcome [where fresh = fresh])
    case fail
    then show ?thesis using i st ra by (simp add: socks_inv_def socks_resources_def)
  next
    case (no_auth b')
    then show ?thesis using i st ra vm pr nd
      by (simp add: socks_inv_def socks_resources_def socks_progress_def sending_def authenticated_def)
  next
    case (password b' ai)
    then show ?thesis using i st ra vm pr nd
      by (auto simp: socks_inv_def socks_resources_def socks_progress_def sending_def)
  qed
qed

lemma full_password_good:
  assumes i: "socks_inv ais addr s" and nd: "\<not> sr_dead s" and st: "sc_state (sr_c s) = STATE_SENT_PASSWORD"
    and got: "int (length got) = 2" "take (nat 2) (drop (nat 0) b) = got"
  shows "good ais addr (socks_apply (received_all fresh ((sr_c s)\<lparr>sc_buffer := Some b, sc_recv_len := 2\<rparr>))
          (s\<lparr>sr_rx := [5, 2] @ got, sr_recv := None\<rparr>))"
proof -
  let ?c = "(sr_c s)\<lparr>sc_buffer := Some b, sc_recv_len := 2\<rparr>"
  obtain v m where vm: "got = [v, m]" using take2_list [of got] got(1) by auto
  have "length (take 2 b) = 2" using got by simp
  then have rd: "buf_read ?c 0 2 = Some [v, m]" using got vm by (simp add: buf_read_def mem_read_def)
  have pr: "\<exists>ai. password_ai ais ai \<and> sr_tx s = [hello_msg ais, password_msg ai]" "\<not> sr_sending s"
    using inv_state [OF i nd] by (auto simp: socks_progress_def st receiving_def)
  have ip: "ip_addr (sc_dest_addr ?c)" using i by (simp add: socks_inv_def)
  show ?thesis
  proof (cases "v = 1 \<and> m = 0")
    case False
    then have "received_all fresh ?c = Some (?c, [ScHandler EVENT_ERROR])"
      using st rd by (auto simp: received_all_def report_error_def)
    then show ?thesis using i st by (simp add: socks_inv_def socks_resources_def)
  next
    case True
    then have ra: "received_all fresh ?c = auth_finished fresh ?c"
      using st rd by (simp add: received_all_def)
    from ip show ?thesis
    proof (cases rule: auth_finished_outcome [where fresh = fresh])
      case fail
      then show ?thesis using i st ra by (simp add: socks_inv_def socks_resources_def)
    next
      case (request b')
      then show ?thesis using i st ra vm pr nd True
        by (auto simp: socks_inv_def socks_resources_def socks_progress_def sending_def authenticated_def)
    qed
  qed
qed

lemma full_reply_good:
  assumes i: "socks_inv ais addr s" and nd: "\<not> sr_dead s" and st: "sc_state (sr_c s) = STATE_SENT_REQUEST"
    and got: "int (length got) = 4" "take (nat 4) (drop (nat 0) b) = got" and lb: "22 \<le> length b"
    and au: "authenticated ais tx0 rx0" "sr_tx s = tx0 @ [request_msg addr]" and ns: "\<not> sr_sending s"
  shows "good ais addr (socks_apply (received_all fresh ((sr_c s)\<lparr>sc_buffer := Some b, sc_recv_len := 4\<rparr>))
          (s\<lparr>sr_rx := rx0 @ got, sr_recv := None\<rparr>))"
proof -
  let ?c = "(sr_c s)\<lparr>sc_buffer := Some b, sc_recv_len := 4\<rparr>"
  obtain v m x y where vm: "got = [v, m, x, y]" using take4_list [of got] got(1) by auto
  have rd: "buf_read ?c 0 4 = Some [v, m, x, y]" using got vm lb by (simp add: buf_read_def mem_read_def)
  show ?thesis
  proof (cases "v = 5 \<and> m = 0 \<and> y \<in> {1, 4}")
    case False
    then have "received_all fresh ?c = Some (?c, [ScHandler EVENT_ERROR])"
      using st rd by (auto simp: received_all_def report_error_def ntoh8_def hton8_def)
    then show ?thesis using i st by (simp add: socks_inv_def socks_resources_def)
  next
    case True
    let ?n = "int (reply_addr_len y)"
    define c' where "c' = ?c\<lparr>sc_recv_dest := 4, sc_recv_len := 0, sc_recv_total := ?n, sc_state := STATE_RECEIVED_REPLY_HEADER\<rparr>"
    define s' where "s' = s\<lparr>sr_rx := rx0 @ got, sr_recv := Some (4, ?n), sr_c := c'\<rparr>"
    have "received_all fresh ?c = Some (c', [ScRecv 4 ?n])"
      using st rd True by (auto simp: received_all_def ntoh8_def hton8_def start_receive_Some reply_addr_len_def c'_def)
    then have "socks_apply (received_all fresh ?c) (s\<lparr>sr_rx := rx0 @ got, sr_recv := None\<rparr>) = Some s'"
      by (simp add: s'_def)
    moreover have "receiving s' (rx0 @ [5, 0, x, y]) 4 ?n"
      using True vm lb ns by (auto simp: receiving_def s'_def c'_def reply_addr_len_def)
    then have "socks_progress ais addr s'"
      using au True by (auto simp: socks_progress_def s'_def c'_def)
    then have "socks_inv ais addr s'"
      by (rule control_inv [OF i]) (use st in \<open>auto simp: s'_def c'_def\<close>)
    ultimately show ?thesis by simp
  qed
qed

lemma full_address_good:
  assumes i: "socks_inv ais addr s" and nd: "\<not> sr_dead s" and st: "sc_state (sr_c s) = STATE_RECEIVED_REPLY_HEADER"
    and got: "length got = reply_addr_len atyp" and at: "atyp \<in> {1, 4}"
    and au: "authenticated ais tx0 rx0" "sr_tx s = tx0 @ [request_msg addr]" and ns: "\<not> sr_sending s"
  shows "good ais addr (socks_apply (received_all fresh ((sr_c s)\<lparr>sc_buffer := Some b, sc_recv_len := n\<rparr>))
          (s\<lparr>sr_rx := (rx0 @ [5, 0, rsv, atyp]) @ got, sr_recv := None\<rparr>))"
proof -
  have "sc_con (sr_c s)" "sc_control (sr_c s)" "\<not> sc_up (sr_c s)"
    using i st by (simp_all add: socks_inv_def socks_resources_def)
  then show ?thesis using i st got at au ns
    by (auto simp: received_all_def free_control_io_def init_up_io_def socks_inv_def socks_resources_def
        socks_progress_def)
qed

lemma more_good:
  assumes i: "socks_inv ais addr s" and nd: "\<not> sr_dead s" and lb: "length b = length (the (sc_buffer (sr_c s)))"
    and r: "\<And>base dest tot. receiving s base dest tot \<Longrightarrow> receiving (s\<lparr>sr_rx := rx, sr_recv := rq,
      sr_c := (sr_c s)\<lparr>sc_buffer := Some b, sc_recv_len := n\<rparr>\<rparr>) base dest tot"
    and st: "sr_recv s \<noteq> None"
  shows "socks_inv ais addr (s\<lparr>sr_rx := rx, sr_recv := rq, sr_c := (sr_c s)\<lparr>sc_buffer := Some b, sc_recv_len := n\<rparr>\<rparr>)"
proof -
  let ?s = "s\<lparr>sr_rx := rx, sr_recv := rq, sr_c := (sr_c s)\<lparr>sc_buffer := Some b, sc_recv_len := n\<rparr>\<rparr>"
  note pr = inv_state [OF i nd]
  consider "sc_state (sr_c s) \<in> {STATE_SENT_HELLO, STATE_SENT_PASSWORD, STATE_RECEIVED_REPLY_HEADER}"
    | "sc_state (sr_c s) = STATE_SENT_REQUEST"
    using pr st by (cases "sc_state (sr_c s)") (auto simp: socks_progress_def sending_def)
  then have "socks_progress ais addr ?s"
  proof cases
    case 1
    then show ?thesis using pr by (auto simp: socks_progress_def dest!: r) blast+
  next
    case 2
    then show ?thesis using pr lb by (auto simp: socks_progress_def dest!: r)
  qed
  then show ?thesis using i by (simp add: socks_inv_def socks_resources_def)
qed

lemma receiving_det:
  assumes "receiving s base dest tot" "receiving s base' dest' tot'"
  shows "dest' = dest \<and> tot' = tot \<and> base' = base"
  using assms by (auto simp: receiving_def)

lemma received_step_good:
  assumes i: "socks_inv ais addr s" and en: "socks_enabled s (SeReceived d fresh)"
  shows "good ais addr (socks_step s (SeReceived d fresh))"
proof -
  have nd: "\<not> sr_dead s" and rq: "sr_recv s \<noteq> None" using en by (auto split: option.splits)
  note pr = inv_state [OF i nd]
  have "\<exists>base dest tot. receiving s base dest tot \<and>
    (\<forall>b got. length b = length (the (sc_buffer (sr_c s))) \<longrightarrow> int (length got) = tot \<longrightarrow>
       take (nat tot) (drop (nat dest) b) = got \<longrightarrow>
       good ais addr (socks_apply (received_all fresh ((sr_c s)\<lparr>sc_buffer := Some b, sc_recv_len := tot\<rparr>))
          (s\<lparr>sr_rx := base @ got, sr_recv := None\<rparr>)))"
  proof (cases "sc_state (sr_c s)")
    case STATE_SENT_HELLO
    then have "receiving s [] 0 2" using pr by (simp add: socks_progress_def)
    then show ?thesis
      by (intro exI [of _ "[]"] exI [of _ 0] exI [of _ 2] conjI allI impI
          full_hello_good [OF i nd STATE_SENT_HELLO]) simp_all
  next
    case STATE_SENT_PASSWORD
    then have "receiving s [5, 2] 0 2" using pr by (simp add: socks_progress_def)
    then show ?thesis
      by (intro exI [of _ "[5, 2]"] exI [of _ 0] exI [of _ 2] conjI allI impI
          full_password_good [OF i nd STATE_SENT_PASSWORD]) simp_all
  next
    case STATE_SENT_REQUEST
    then obtain tx0 rx0 where au: "authenticated ais tx0 rx0" "sr_tx s = tx0 @ [request_msg addr]"
      and r: "receiving s rx0 0 4" and lb: "22 \<le> length (the (sc_buffer (sr_c s)))"
      using pr by (auto simp: socks_progress_def)
    from r have ns: "\<not> sr_sending s" by (auto simp: receiving_def)
    show ?thesis
      by (intro exI [of _ rx0] exI [of _ 0] exI [of _ 4] conjI allI impI r
          full_reply_good [OF i nd STATE_SENT_REQUEST _ _ _ au ns]) (use lb in simp_all)
  next
    case STATE_RECEIVED_REPLY_HEADER
    then obtain tx0 rx0 rsv atyp where au: "authenticated ais tx0 rx0" "sr_tx s = tx0 @ [request_msg addr]"
      and r: "receiving s (rx0 @ [5, 0, rsv, atyp]) 4 (int (reply_addr_len atyp))" and at: "atyp \<in> {1, 4}"
      using pr unfolding socks_progress_def Let_def by (simp only: socks_state.simps) blast
    from r have ns: "\<not> sr_sending s" by (auto simp: receiving_def)
    show ?thesis
      by (intro exI [of _ "rx0 @ [5, 0, rsv, atyp]"] exI [of _ 4] exI [of _ "int (reply_addr_len atyp)"] conjI
          allI impI r full_address_good [OF i nd STATE_RECEIVED_REPLY_HEADER _ at au ns]) simp
  qed (use pr rq in \<open>auto simp: socks_progress_def sending_def\<close>)
  then obtain base dest tot where r: "receiving s base dest tot"
    and all: "\<forall>b got. length b = length (the (sc_buffer (sr_c s))) \<longrightarrow> int (length got) = tot \<longrightarrow>
       take (nat tot) (drop (nat dest) b) = got \<longrightarrow>
       good ais addr (socks_apply (received_all fresh ((sr_c s)\<lparr>sc_buffer := Some b, sc_recv_len := tot\<rparr>))
          (s\<lparr>sr_rx := base @ got, sr_recv := None\<rparr>))"
    by blast
  from r en show ?thesis
  proof (cases rule: receive_step)
    case (more b n)
    have "socks_inv ais addr (s\<lparr>sr_rx := sr_rx s @ d, sr_recv := Some (dest + n, tot - n),
        sr_c := (sr_c s)\<lparr>sc_buffer := Some b, sc_recv_len := n\<rparr>\<rparr>)"
      by (rule more_good [OF i nd more(1) _ rq]) (use more(3) receiving_det [OF r] in blast)
    then show ?thesis by (simp only: more(2) good_Some)
  next
    case (full b got)
    then show ?thesis using all by (simp only:)
  qed
qed

definition socks_init :: "BSocksClient_auth_info list \<Rightarrow> BAddr \<Rightarrow> socks_run \<Rightarrow> bool" where
  "socks_init ais addr s \<longleftrightarrow> ip_addr addr \<and>
     (\<exists>server c. BSocksClient_Init server ais addr True = Some (1, c) \<and> s = socks_run0 c)"

lemma socks_init_inv: "socks_init ais addr s \<Longrightarrow> socks_inv ais addr s"
  by (auto simp: socks_init_def BSocksClient_Init_def socks_run0_def socks_inv_def socks_resources_def
      socks_progress_def)

lemma socks_step_good:
  assumes "socks_inv ais addr s" "socks_enabled s e"
  shows "good ais addr (socks_step s e)"
  using assms by (cases e) (metis connector_step_good connection_step_good sent_step_good received_step_good)+

interpretation socks: machine "socks_init ais addr" socks_step socks_enabled "socks_inv ais addr" for ais addr
proof
  show "\<exists>s'. socks_step s e = Some s' \<and> socks_inv ais addr s'"
    if "socks_inv ais addr s" "socks_enabled s e" for s e
    using socks_step_good [OF that] by (simp add: good_def split: option.splits)
qed (rule socks_init_inv)

lemma socks_free_inv:
  assumes "socks_inv ais addr s"
  shows "BSocksClient_Free (sr_c s) =
    Some ((sr_c s)\<lparr>sc_con := False, sc_control := False, sc_up := False, sc_buffer := None\<rparr>)"
proof -
  have "sc_con (sr_c s) = (sc_state (sr_c s) \<noteq> STATE_CONNECTING)" "sc_up (sr_c s) = (sc_state (sr_c s) = STATE_UP)"
    "sc_control (sr_c s) = (sc_state (sr_c s) \<noteq> STATE_CONNECTING \<and> sc_state (sr_c s) \<noteq> STATE_UP)"
    using assms by (simp_all add: socks_inv_def socks_resources_def)
  then show ?thesis
    by (auto simp: BSocksClient_Free_def free_up_io_def free_control_io_def connection_free_def)
qed

section \<open>Properties\<close>

text \<open>
  C18. Whatever the connector, the connection, the server and the allocator do, within the rules of
  those interfaces, the client trips no assertion and touches no memory outside its buffer; and it
  can be freed at any moment: \<^verbatim>\<open>BSocksClient_Free\<close> frees exactly the connection, the I/O and
  the buffer that exist then.
\<close>

theorem socks_client_safe:
  assumes "ip_addr addr" "BSocksClient_Init server ais addr True = Some (1, c)"
    and "admissible socks_enabled socks_step (socks_run0 c) evs"
  shows "\<exists>s. exec socks_step (socks_run0 c) evs = Some s \<and>
    BSocksClient_Free (sr_c s) =
      Some ((sr_c s)\<lparr>sc_con := False, sc_control := False, sc_up := False, sc_buffer := None\<rparr>)"
proof -
  have "socks_init ais addr (socks_run0 c)" using assms(1,2) by (auto simp: socks_init_def)
  from socks.run_safe [OF this assms(3)] show ?thesis using socks_free_inv by blast
qed

definition socks_example :: "socks_run option" where
  "socks_example = do {
     (_, c) \<leftarrow> BSocksClient_Init (BAddr_IPV4 1 2) [BSocksClient_auth_none, BSocksClient_auth_password [7] [8, 9]]
       (BAddr_IPV4 0 0) True;
     Some (socks_run0 c)
   }"

definition socks_example_events :: "socks_ev list" where
  "socks_example_events = [SeConnector False True (Some []), SeSent (Some [3]), SeReceived [5] None,
     SeReceived [2] (Some []), SeSent (Some []), SeReceived [1, 0] (Some []), SeSent (Some []),
     SeReceived [5, 0, 0] None, SeReceived [1] None, SeReceived [9, 9, 9, 9, 1, 1] None]"

lemma socks_example_init:
  "BSocksClient_Init (BAddr_IPV4 1 2) [BSocksClient_auth_none, BSocksClient_auth_password [7] [8, 9]]
     (BAddr_IPV4 0 0) True = Some (1, sr_c (the socks_example))"
  by code_simp

lemma socks_example_admissible:
  "admissible socks_enabled socks_step (socks_run0 (sr_c (the socks_example))) socks_example_events"
  by code_simp

theorem socks_client_safe_witness:
  "\<exists>s. exec socks_step (socks_run0 (sr_c (the socks_example))) socks_example_events = Some s \<and>
    BSocksClient_Free (sr_c s) =
      Some ((sr_c s)\<lparr>sc_con := False, sc_control := False, sc_up := False, sc_buffer := None\<rparr>)"
  by (rule socks_client_safe [OF _ socks_example_init socks_example_admissible]) simp

text \<open>
  C14. The client reports that it is up only after a complete and successful SOCKS5 exchange: it sent
  the hello that offers its methods, the password message when the server chose that method, and the
  request to connect to its destination; it received the choice of a method it offers, the positive
  answer to the password, a reply that reports success, and all of the reply's address and nothing
  beyond it.
\<close>

theorem socks_client_up_exchange:
  assumes "ip_addr addr" "BSocksClient_Init server ais addr True = Some (1, c)"
    and "admissible socks_enabled socks_step (socks_run0 c) evs"
    and "exec socks_step (socks_run0 c) evs = Some s" "sr_up s"
  shows "sc_state (sr_c s) = STATE_UP \<and>
    (\<exists>tx0 rx0 rsv atyp bound. authenticated ais tx0 rx0 \<and> sr_tx s = tx0 @ [request_msg addr] \<and>
      atyp \<in> {1, 4} \<and> length bound = reply_addr_len atyp \<and> sr_rx s = rx0 @ [5, 0, rsv, atyp] @ bound)"
proof -
  have "socks_init ais addr (socks_run0 c)" using assms(1,2) by (auto simp: socks_init_def)
  from socks.run_safe [OF this assms(3)] have i: "socks_inv ais addr s" using assms(4) by simp
  then have st: "sc_state (sr_c s) = STATE_UP" using assms(5) by (simp add: socks_inv_def)
  moreover have "socks_progress ais addr s" using i st by (simp add: socks_inv_def)
  ultimately show ?thesis by (simp add: socks_progress_def)
qed

theorem socks_client_up_exchange_witness:
  "let s = the (exec socks_step (socks_run0 (sr_c (the socks_example))) socks_example_events);
       ais = [BSocksClient_auth_none, BSocksClient_auth_password [7] [8, 9]] in
   sc_state (sr_c s) = STATE_UP \<and>
    (\<exists>tx0 rx0 rsv atyp bound. authenticated ais tx0 rx0 \<and> sr_tx s = tx0 @ [request_msg (BAddr_IPV4 0 0)] \<and>
      atyp \<in> {1, 4} \<and> length bound = reply_addr_len atyp \<and> sr_rx s = rx0 @ [5, 0, rsv, atyp] @ bound)"
  unfolding Let_def
proof (rule socks_client_up_exchange [OF _ socks_example_init socks_example_admissible])
  show "exec socks_step (socks_run0 (sr_c (the socks_example))) socks_example_events =
    Some (the (exec socks_step (socks_run0 (sr_c (the socks_example))) socks_example_events))" by code_simp
  show "sr_up (the (exec socks_step (socks_run0 (sr_c (the socks_example))) socks_example_events))" by code_simp
qed simp

end
