(* ===== verification/UdpGwClient.thy ===== *)
theory UdpGwClient
  imports Wire FairQueue PacketBuffer Connectors
begin

text \<open>
  udpgw_client/UdpGwClient.c: UDP over one stream to a udpgw server. A connection stands for a pair of
  local and remote address and has an identifier on the wire; when all identifiers are taken the least
  recently used connection is given the new addresses.

  Connections are addressed by numbers; \<open>ug_con\<close> is the memory they live in, \<open>con\<close> also addresses
  a connection's flow in the send queue, and 0 the flow of the keep-alive packets. The two trees and
  the list hold addresses. \<open>first_data\<close> points into the caller's packet, which stays in place until the
  connection's first job ran; the model keeps the bytes. Results of allocations are arguments.
\<close>

section \<open>State\<close>

abbreviation (input) UDPGW_CLIENT_FLAG_KEEPALIVE :: u8 where "UDPGW_CLIENT_FLAG_KEEPALIVE \<equiv> 1"
abbreviation (input) UDPGW_CLIENT_FLAG_REBIND :: u8 where "UDPGW_CLIENT_FLAG_REBIND \<equiv> 2"
abbreviation (input) UDPGW_CLIENT_FLAG_DNS :: u8 where "UDPGW_CLIENT_FLAG_DNS \<equiv> 4"
abbreviation (input) UDPGW_CLIENT_FLAG_IPV6 :: u8 where "UDPGW_CLIENT_FLAG_IPV6 \<equiv> 8"

record UdpGwClient_conaddr =
  ca_local_addr :: BAddr
  ca_remote_addr :: BAddr

record UdpGwClient_connection =
  uc_conaddr :: UdpGwClient_conaddr
  uc_first_flags :: u8
  uc_first_data :: bytes
  uc_first_data_len :: int
  uc_conid :: u16
  uc_first_job :: bool
  uc_send_ppflow :: PacketProtoFlow

record UdpGwClient =
  ug_udp_mtu :: int
  ug_max_connections :: int
  ug_send_buffer_size :: int
  ug_keepalive_time :: int
  ug_udpgw_mtu :: int
  ug_pp_mtu :: int
  ug_by_conaddr :: "nat list"
  ug_by_conid :: "nat list"
  ug_list :: "nat list"
  ug_num_connections :: int
  ug_next_conid :: int
  ug_send_queue :: PacketPassFairQueue
  ug_send_monitor :: PacketPassInactivityMonitor
  ug_send_connector :: PacketPassConnector
  ug_keepalive_packet :: bytes
  ug_keepalive_sending :: bool
  ug_have_server :: bool
  ug_send_sender :: PacketStreamSender
  ug_recv_decoder :: PacketProtoDecoder
  ug_con :: "nat \<Rightarrow> UdpGwClient_connection"

text \<open>
  Calls: the two handlers of the user, a packet completed in the writer of a connection, the
  keep-alive packet for its flow, the completion of a received packet, and what the connector sends.
\<close>

datatype udpgw_call = UgServerError | UgReceived BAddr BAddr bytes | UgPacket nat bytes
  | UgKeepalive bytes | UgRecvDone | UgConnector connector_call | UgDecoder decoder_call

type_synonym udpgw_result = "(UdpGwClient \<times> udpgw_call list) option"

definition set_con :: "nat \<Rightarrow> (UdpGwClient_connection \<Rightarrow> UdpGwClient_connection) \<Rightarrow> UdpGwClient \<Rightarrow> UdpGwClient" where
  "set_con con upd g = g\<lparr>ug_con := (ug_con g)(con := upd (ug_con g con))\<rparr>"

definition conaddr_of :: "UdpGwClient \<Rightarrow> nat \<Rightarrow> UdpGwClient_conaddr" where
  "conaddr_of g con = uc_conaddr (ug_con g con)"

definition conid_of :: "UdpGwClient \<Rightarrow> nat \<Rightarrow> u16" where
  "conid_of g con = uc_conid (ug_con g con)"

section \<open>Operations\<close>

definition uint16_comparator :: "u16 \<Rightarrow> u16 \<Rightarrow> int" where
  "uint16_comparator v1 v2 = B_COMPARE v1 v2"

definition conaddr_comparator :: "UdpGwClient_conaddr \<Rightarrow> UdpGwClient_conaddr \<Rightarrow> int" where
  "conaddr_comparator v1 v2 =
     (let r = BAddr_CompareOrder (ca_remote_addr v1) (ca_remote_addr v2) in
      if r \<noteq> 0 then r else BAddr_CompareOrder (ca_local_addr v1) (ca_local_addr v2))"

definition free_server :: "UdpGwClient \<Rightarrow> UdpGwClient option" where
  "free_server g = do {
     connector \<leftarrow> PacketPassConnector_DisconnectOutput (ug_send_connector g);
     Some (g\<lparr>ug_send_connector := connector\<rparr>)
   }"

definition decoder_handler_error :: "UdpGwClient \<Rightarrow> udpgw_result" where
  "decoder_handler_error g = do {
     ASSERT (ug_have_server g);
     Some (g, [UgServerError])
   }"

definition find_connection_by_conaddr :: "UdpGwClient \<Rightarrow> UdpGwClient_conaddr \<Rightarrow> nat option" where
  "find_connection_by_conaddr g conaddr =
     tree_lookup (\<lambda>k con. conaddr_comparator k (conaddr_of g con)) conaddr (ug_by_conaddr g)"

definition find_connection_by_conid :: "UdpGwClient \<Rightarrow> u16 \<Rightarrow> nat option" where
  "find_connection_by_conid g conid =
     tree_lookup (\<lambda>k con. uint16_comparator k (conid_of g con)) conid (ug_by_conid g)"

text \<open>\<^verbatim>\<open>LinkedList1_Remove\<close> and \<^verbatim>\<open>LinkedList1_Append\<close> of a connection's list node.\<close>

definition move_to_end :: "nat \<Rightarrow> UdpGwClient \<Rightarrow> UdpGwClient" where
  "move_to_end con g = g\<lparr>ug_list := remove1 con (ug_list g) @ [con]\<rparr>"

text \<open>The address behind the header; \<open>None\<close> inside when the packet is too short for it.\<close>

definition parse_addr :: "u8 \<Rightarrow> bytes \<Rightarrow> int \<Rightarrow> (BAddr \<times> bytes \<times> int) option option" where
  "parse_addr flags data data_len =
     (if flags AND UDPGW_CLIENT_FLAG_IPV6 \<noteq> 0
      then if data_len < 18 then Some None
        else do {
          img \<leftarrow> mem_read data 0 18;
          let addr_ipv6 = addr_ipv6_of img;
          Some (Some (BAddr_InitIPv6 (a6_ip addr_ipv6) (a6_port addr_ipv6), drop 18 data, data_len - 18))
        }
      else if data_len < 6 then Some None
        else do {
          img \<leftarrow> mem_read data 0 6;
          let addr_ipv4 = addr_ipv4_of img;
          Some (Some (BAddr_InitIPv4 (a4_ip addr_ipv4) (a4_port addr_ipv4), drop 6 data, data_len - 6))
        })"

definition recv_interface_handler_send :: "UdpGwClient \<Rightarrow> bytes \<Rightarrow> int \<Rightarrow> udpgw_result" where
  "recv_interface_handler_send g data data_len = do {
     ASSERT (ug_have_server g);
     ASSERT (data_len \<ge> 0);
     ASSERT (data_len \<le> ug_udpgw_mtu g);
     if data_len < 3 then Some (g, [UgRecvDone])
     else do {
       img \<leftarrow> mem_read data 0 3;
       let header = udpgw_header_of img;
       let flags = ltoh8 (uh_flags header);
       let conid = ltoh16 (uh_conid header);
       r \<leftarrow> parse_addr flags (drop 3 data) (data_len - 3);
       case r of
         None \<Rightarrow> Some (g, [UgRecvDone])
       | Some (remote_addr, data, data_len) \<Rightarrow>
           if data_len > ug_udp_mtu g then Some (g, [UgRecvDone])
           else (case find_connection_by_conid g conid of
               None \<Rightarrow> Some (g, [UgRecvDone])
             | Some con \<Rightarrow>
                 if BAddr_CompareOrder (ca_remote_addr (conaddr_of g con)) remote_addr \<noteq> 0
                 then Some (g, [UgRecvDone])
                 else do {
                   d \<leftarrow> mem_read data 0 (nat data_len);
                   let g = move_to_end con g;
                   Some (g, [UgRecvDone,
                     UgReceived (ca_local_addr (conaddr_of g con)) (ca_remote_addr (conaddr_of g con)) d])
                 })
     }
   }"

text \<open>\<open>psiphon\<close>: whether \<^verbatim>\<open>PSIPHON\<close> is defined, as badvpn/Android.mk does.\<close>

definition send_monitor_handler :: "bool \<Rightarrow> UdpGwClient \<Rightarrow> udpgw_result" where
  "send_monitor_handler psiphon g =
     (if psiphon then Some (g, [])
      else if ug_keepalive_sending g then Some (g, [])
      else Some (g\<lparr>ug_keepalive_sending := True\<rparr>, [UgKeepalive (ug_keepalive_packet g)]))"

definition keepalive_if_handler_done :: "UdpGwClient \<Rightarrow> UdpGwClient option" where
  "keepalive_if_handler_done g = do {
     ASSERT (ug_keepalive_sending g);
     Some (g\<lparr>ug_keepalive_sending := False\<rparr>)
   }"

text \<open>The loop: the first identifier from \<open>next_conid\<close> on that no connection has.\<close>

partial_function (option) unused_conid_loop :: "(u16 \<Rightarrow> bool) \<Rightarrow> int \<Rightarrow> int \<Rightarrow> int option" where
  "unused_conid_loop used max_connections next_conid =
     (if \<not> used (word_of_int next_conid) then Some next_conid
      else if next_conid = max_connections - 1 then unused_conid_loop used max_connections 0
      else unused_conid_loop used max_connections (next_conid + 1))"

declare unused_conid_loop.simps [code]

definition find_unused_conid :: "UdpGwClient \<Rightarrow> (u16 \<times> UdpGwClient) option" where
  "find_unused_conid g = do {
     ASSERT (ug_num_connections g < ug_max_connections g);
     n \<leftarrow> unused_conid_loop (\<lambda>i. find_connection_by_conid g i \<noteq> None) (ug_max_connections g) (ug_next_conid g);
     Some (word_of_int n, g\<lparr>ug_next_conid := n\<rparr>)
   }"

text \<open>
  \<open>new\<close> is the result of \<^verbatim>\<open>malloc\<close>, \<open>w\<close> the memory of the new writer and \<open>alloc\<close> the allocator the
  packet flow uses.
\<close>

definition connection_init ::
  "UdpGwClient \<Rightarrow> UdpGwClient_conaddr \<Rightarrow> u8 \<Rightarrow> bytes \<Rightarrow> int \<Rightarrow> nat option \<Rightarrow> BufferWriter
    \<Rightarrow> (int \<Rightarrow> bytes option) \<Rightarrow> UdpGwClient option" where
  "connection_init g conaddr flags data data_len new w alloc = do {
     ASSERT (ug_num_connections g < ug_max_connections g);
     ASSERT (find_connection_by_conaddr g conaddr = None);
     ASSERT (data_len \<ge> 0);
     ASSERT (data_len \<le> ug_udp_mtu g);
     case new of
       None \<Rightarrow> Some g
     | Some con \<Rightarrow> do {
         (conid, g) \<leftarrow> find_unused_conid g;
         send_qflow \<leftarrow> PacketPassFairQueueFlow_Init con (ug_send_queue g);
         ppflow \<leftarrow> PacketProtoFlow_Init w (ug_udpgw_mtu g) (ug_send_buffer_size g) (fq_output_mtu send_qflow) alloc;
         case ppflow of
           None \<Rightarrow> do {
             send_qflow \<leftarrow> PacketPassFairQueueFlow_Free con send_qflow;
             Some (g\<lparr>ug_send_queue := send_qflow\<rparr>)
           }
         | Some (send_ppflow, _) \<Rightarrow> do {
             let g = set_con con (\<lambda>_. \<lparr>uc_conaddr = conaddr, uc_first_flags = flags, uc_first_data = data,
               uc_first_data_len = data_len, uc_conid = conid, uc_first_job = True,
               uc_send_ppflow = send_ppflow\<rparr>) (g\<lparr>ug_send_queue := send_qflow\<rparr>);
             by_conaddr \<leftarrow> tree_insert (\<lambda>m n. conaddr_comparator (conaddr_of g m) (conaddr_of g n)) con (ug_by_conaddr g);
             by_conid \<leftarrow> tree_insert (\<lambda>m n. uint16_comparator (conid_of g m) (conid_of g n)) con (ug_by_conid g);
             Some (g\<lparr>ug_by_conaddr := by_conaddr, ug_by_conid := by_conid, ug_list := ug_list g @ [con],
               ug_num_connections := ug_num_connections g + 1\<rparr>)
           }
       }
   }"

definition udpgw_connection_free :: "nat \<Rightarrow> UdpGwClient \<Rightarrow> UdpGwClient option" where
  "udpgw_connection_free con g = do {
     PacketPassFairQueueFlow_AssertFree con (ug_send_queue g);
     let g = g\<lparr>ug_num_connections := ug_num_connections g - 1, ug_list := remove1 con (ug_list g),
       ug_by_conid := tree_remove con (ug_by_conid g), ug_by_conaddr := tree_remove con (ug_by_conaddr g)\<rparr>;
     queue \<leftarrow> PacketPassFairQueueFlow_Free con (ug_send_queue g);
     Some (set_con con (\<lambda>c. c\<lparr>uc_first_job := False\<rparr>) (g\<lparr>ug_send_queue := queue\<rparr>))
   }"

definition write_addr :: "BAddr \<Rightarrow> bytes \<Rightarrow> nat \<Rightarrow> (bytes \<times> nat) option" where
  "write_addr addr out out_pos =
     (case addr of
        BAddr_IPV4 ip port \<Rightarrow> do {
          out \<leftarrow> mem_write out out_pos (addr_ipv4_image \<lparr>a4_ip = ip, a4_port = port\<rparr>);
          Some (out, out_pos + 6)
        }
      | BAddr_IPV6 ip port \<Rightarrow> do {
          out \<leftarrow> mem_write out out_pos (addr_ipv6_image \<lparr>a6_ip = ip, a6_port = port\<rparr>);
          Some (out, out_pos + 18)
        }
      | _ \<Rightarrow> Some (out, out_pos))"

definition connection_send :: "nat \<Rightarrow> u8 \<Rightarrow> bytes \<Rightarrow> int \<Rightarrow> UdpGwClient \<Rightarrow> udpgw_result" where
  "connection_send con flags data data_len g = do {
     ASSERT (data_len \<ge> 0);
     ASSERT (data_len \<le> ug_udp_mtu g);
     let c = ug_con g con;
     let remote_addr = ca_remote_addr (uc_conaddr c);
     (r, send_if) \<leftarrow> BufferWriter_StartPacket (ppf_ainput (uc_send_ppflow c));
     case r of
       None \<Rightarrow> Some (g, [])
     | Some out \<Rightarrow> do {
         let flags = (if BAddr_type remote_addr = BADDR_TYPE_IPV6 then flags OR UDPGW_CLIENT_FLAG_IPV6 else flags);
         out \<leftarrow> mem_write out 0 (udpgw_header_image \<lparr>uh_flags = ltoh8 flags, uh_conid = ltoh16 (uc_conid c)\<rparr>);
         (out, out_pos) \<leftarrow> write_addr remote_addr out 3;
         d \<leftarrow> mem_read data 0 (nat data_len);
         out \<leftarrow> mem_write out out_pos d;
         (send_if, out, n) \<leftarrow> BufferWriter_EndPacket (send_if\<lparr>bw_out := out\<rparr>) (int out_pos + data_len);
         p \<leftarrow> mem_read out 0 (nat n);
         Some (set_con con (\<lambda>c. c\<lparr>uc_send_ppflow := (uc_send_ppflow c)\<lparr>ppf_ainput := send_if\<rparr>\<rparr>) g, [UgPacket con p])
       }
   }"

definition connection_first_job_handler :: "nat \<Rightarrow> UdpGwClient \<Rightarrow> udpgw_result" where
  "connection_first_job_handler con g = (let c = ug_con g con in
     connection_send con (UDPGW_CLIENT_FLAG_REBIND OR uc_first_flags c) (uc_first_data c) (uc_first_data_len c)
       (set_con con (\<lambda>c. c\<lparr>uc_first_job := False\<rparr>) g))"

definition reuse_connection :: "UdpGwClient \<Rightarrow> UdpGwClient_conaddr \<Rightarrow> (nat \<times> UdpGwClient) option" where
  "reuse_connection g conaddr = do {
     ASSERT (find_connection_by_conaddr g conaddr = None);
     ASSERT (ug_num_connections g > 0);
     case ug_list g of
       [] \<Rightarrow> None
     | con # _ \<Rightarrow> do {
         let g = g\<lparr>ug_by_conaddr := tree_remove con (ug_by_conaddr g)\<rparr>;
         let g = set_con con (\<lambda>c. c\<lparr>uc_conaddr := conaddr\<rparr>) g;
         by_conaddr \<leftarrow> tree_insert (\<lambda>m n. conaddr_comparator (conaddr_of g m) (conaddr_of g n)) con (ug_by_conaddr g);
         Some (con, g\<lparr>ug_by_conaddr := by_conaddr\<rparr>)
       }
   }"

text \<open>\<open>raw\<close> is the uninitialised memory of the struct. The result is the return value with the object.\<close>

definition UdpGwClient_Init :: "UdpGwClient \<Rightarrow> int \<Rightarrow> int \<Rightarrow> int \<Rightarrow> int \<Rightarrow> (int \<times> UdpGwClient) option" where
  "UdpGwClient_Init raw udp_mtu max_connections send_buffer_size keepalive_time = do {
     ASSERT (udp_mtu \<ge> 0);
     ASSERT (udpgw_compute_mtu udp_mtu \<ge> 0);
     ASSERT (udpgw_compute_mtu udp_mtu \<le> PACKETPROTO_MAXPAYLOAD);
     ASSERT (max_connections > 0);
     ASSERT (send_buffer_size > 0);
     let g = raw\<lparr>ug_udp_mtu := udp_mtu, ug_max_connections := max_connections,
       ug_send_buffer_size := send_buffer_size, ug_keepalive_time := keepalive_time\<rparr>;
     let g = (if ug_max_connections g > UINT16_MAX + 1 then g\<lparr>ug_max_connections := UINT16_MAX + 1\<rparr> else g);
     let g = g\<lparr>ug_udpgw_mtu := udpgw_compute_mtu udp_mtu, ug_pp_mtu := udpgw_compute_mtu udp_mtu + 2\<rparr>;
     let g = g\<lparr>ug_by_conaddr := [], ug_by_conid := [], ug_list := [], ug_num_connections := 0, ug_next_conid := 0\<rparr>;
     connector \<leftarrow> PacketPassConnector_Init (ug_send_connector g) (ug_pp_mtu g);
     let monitor = PacketPassInactivityMonitor_Init False keepalive_time True;
     let g = g\<lparr>ug_send_connector := connector, ug_send_monitor := monitor\<rparr>;
     (ok, queue) \<leftarrow> PacketPassFairQueue_Init (pc_input_mtu connector) False False 1 (fq_flows (ug_send_queue g));
     if ok = 0 then Some (0, g\<lparr>ug_send_monitor := PacketPassInactivityMonitor_Free monitor\<rparr>)
     else do {
       let g = g\<lparr>ug_keepalive_packet := mem16 3 @ udpgw_header_image \<lparr>uh_flags = UDPGW_CLIENT_FLAG_KEEPALIVE, uh_conid = 0\<rparr>\<rparr>;
       queue \<leftarrow> PacketPassFairQueueFlow_Init 0 queue;
       Some (1, g\<lparr>ug_send_queue := queue, ug_keepalive_sending := False, ug_have_server := False\<rparr>)
     }
   }"

partial_function (option) free_connections :: "UdpGwClient \<Rightarrow> UdpGwClient option" where
  "free_connections g =
     (case ug_list g of
        [] \<Rightarrow> Some g
      | con # _ \<Rightarrow> do {
          g \<leftarrow> udpgw_connection_free con g;
          free_connections g
        })"

declare free_connections.simps [code]

definition UdpGwClient_Free :: "UdpGwClient \<Rightarrow> UdpGwClient option" where
  "UdpGwClient_Free g = do {
     g \<leftarrow> free_connections (g\<lparr>ug_send_queue := PacketPassFairQueue_PrepareFree (ug_send_queue g)\<rparr>);
     g \<leftarrow> (if ug_have_server g then free_server g else Some g);
     queue \<leftarrow> PacketPassFairQueueFlow_Free 0 (ug_send_queue g);
     queue \<leftarrow> PacketPassFairQueue_Free queue;
     Some (g\<lparr>ug_send_queue := queue, ug_send_monitor := PacketPassInactivityMonitor_Free (ug_send_monitor g)\<rparr>)
   }"

definition UdpGwClient_SubmitPacket ::
  "UdpGwClient \<Rightarrow> BAddr \<Rightarrow> BAddr \<Rightarrow> bool \<Rightarrow> bytes \<Rightarrow> int \<Rightarrow> nat option \<Rightarrow> BufferWriter
    \<Rightarrow> (int \<Rightarrow> bytes option) \<Rightarrow> udpgw_result" where
  "UdpGwClient_SubmitPacket g local_addr remote_addr is_dns data data_len new w alloc = do {
     ASSERT (BAddr_type local_addr = BADDR_TYPE_IPV4 \<or> BAddr_type local_addr = BADDR_TYPE_IPV6);
     ASSERT (BAddr_type remote_addr = BADDR_TYPE_IPV4 \<or> BAddr_type remote_addr = BADDR_TYPE_IPV6);
     ASSERT (data_len \<ge> 0);
     ASSERT (data_len \<le> ug_udp_mtu g);
     let conaddr = \<lparr>ca_local_addr = local_addr, ca_remote_addr = remote_addr\<rparr>;
     let con = find_connection_by_conaddr g conaddr;
     let flags = 0;
     let flags = (if is_dns then flags OR UDPGW_CLIENT_FLAG_DNS else flags);
     (con, flags, g) \<leftarrow> (if con = None \<and> ug_num_connections g = ug_max_connections g
       then do {
         (con, g) \<leftarrow> reuse_connection g conaddr;
         Some (Some con, flags OR UDPGW_CLIENT_FLAG_REBIND, g)
       }
       else Some (con, flags, g));
     case con of
       None \<Rightarrow> map_option (\<lambda>g. (g, [])) (connection_init g conaddr flags data data_len new w alloc)
     | Some con \<Rightarrow> connection_send con flags data data_len (move_to_end con g)
   }"

text \<open>\<open>sender\<close> is the memory of the stream sender, \<open>alloc\<close> the decoder's allocator.\<close>

definition UdpGwClient_ConnectServer ::
  "UdpGwClient \<Rightarrow> PacketStreamSender \<Rightarrow> (int \<Rightarrow> bytes option) \<Rightarrow> (int \<times> UdpGwClient \<times> udpgw_call list) option" where
  "UdpGwClient_ConnectServer g sender alloc = do {
     ASSERT (\<not> ug_have_server g);
     (ok, decoder, cs) \<leftarrow> PacketProtoDecoder_Init (ug_udpgw_mtu g) alloc;
     if ok = 0 then Some (0, g, [])
     else do {
       sender \<leftarrow> PacketStreamSender_Init sender (ug_pp_mtu g);
       (connector, cs') \<leftarrow> PacketPassConnector_ConnectOutput (ug_send_connector g) (ug_pp_mtu g);
       Some (1, g\<lparr>ug_recv_decoder := decoder, ug_send_sender := sender, ug_send_connector := connector,
         ug_have_server := True\<rparr>, map UgDecoder cs @ map UgConnector cs')
     }
   }"

definition UdpGwClient_DisconnectServer :: "UdpGwClient \<Rightarrow> UdpGwClient option" where
  "UdpGwClient_DisconnectServer g = do {
     ASSERT (ug_have_server g);
     g \<leftarrow> free_server g;
     Some (g\<lparr>ug_have_server := False\<rparr>)
   }"

section \<open>Keys and identifiers\<close>

definition ip_conaddr :: "UdpGwClient_conaddr \<Rightarrow> bool" where
  "ip_conaddr a \<longleftrightarrow> ip_addr (ca_local_addr a) \<and> ip_addr (ca_remote_addr a)"

interpretation conaddr_order: comparator conaddr_comparator ip_conaddr
proof
  show "conaddr_comparator y x = - conaddr_comparator x y" for x y
    using compare_order_swap [of "ca_remote_addr y" "ca_remote_addr x"]
      compare_order_swap [of "ca_local_addr y" "ca_local_addr x"]
    by (simp add: conaddr_comparator_def Let_def)
  show "conaddr_comparator x y = 0 \<longleftrightarrow> x = y" if "ip_conaddr x" "ip_conaddr y" for x y
    using that by (auto simp: conaddr_comparator_def ip_conaddr_def Let_def compare_order_zero)
  show "conaddr_comparator x z < 0"
    if "ip_conaddr x" "ip_conaddr y" "ip_conaddr z" "conaddr_comparator x y < 0" "conaddr_comparator y z < 0" for x y z
    using that compare_order_trans [of "ca_remote_addr x" "ca_remote_addr y" "ca_remote_addr z"]
      compare_order_trans [of "ca_local_addr x" "ca_local_addr y" "ca_local_addr z"]
    by (auto simp: conaddr_comparator_def ip_conaddr_def Let_def compare_order_zero baddr_order.cmp_refl
        split: if_splits)
qed

interpretation conid_order: comparator uint16_comparator "\<lambda>_. True"
  by unfold_locales (auto simp: uint16_comparator_def B_COMPARE_def)

text \<open>The loop returns, with an identifier that is not in use, as soon as there is one below the limit.\<close>

lemma mod_step:
  assumes "0 \<le> (a::int)" "a < m" "0 \<le> b" "b < m" "a \<noteq> b"
  defines "a' \<equiv> if a = m - 1 then 0 else a + 1"
  shows "nat ((b - a') mod m) < nat ((b - a) mod m)" "0 \<le> a'" "a' < m"
proof -
  have e: "(b - a) mod m = (if a < b then b - a else b - a + m)" if "0 \<le> a" "a < m" "a \<noteq> b" for a
  proof (cases "a < b")
    case False
    then have "(b - a) mod m = (b - a + m) mod m" by simp
    also have "\<dots> = b - a + m" using that assms(3,4) False by (intro mod_pos_pos_trivial) auto
    finally show ?thesis using False by simp
  qed (use that assms(3,4) in \<open>simp add: mod_pos_pos_trivial\<close>)
  show a': "0 \<le> a'" "a' < m" using assms by (auto simp: a'_def)
  show "nat ((b - a') mod m) < nat ((b - a) mod m)"
  proof (cases "a' = b")
    case True
    then show ?thesis using e [of a] assms(1-5) by (simp split: if_splits)
  next
    case False
    then show ?thesis using e [of a] e [of a'] a' assms(1-5) by (auto simp: a'_def split: if_splits)
  qed
qed

lemma unused_conid_loop_returns:
  assumes "0 \<le> n" "n < m" "0 \<le> i" "i < m" "\<not> used (word_of_int i)"
  shows "\<exists>k. unused_conid_loop used m n = Some k \<and> 0 \<le> k \<and> k < m \<and> \<not> used (word_of_int k)"
  using assms(1,2)
proof (induction "nat ((i - n) mod m)" arbitrary: n rule: less_induct)
  case less
  show ?case
  proof (cases "used (word_of_int n)")
    case False
    then show ?thesis using less.prems by (subst unused_conid_loop.simps) auto
  next
    case True
    then have "n \<noteq> i" using assms(5) by auto
    note s = mod_step [OF less.prems assms(3,4) this]
    from less.hyps [OF s] show ?thesis
      using True by (subst unused_conid_loop.simps) (auto split: if_splits)
  qed
qed

section \<open>Invariant\<close>

definition writer_ok :: "int \<Rightarrow> BufferWriter \<Rightarrow> bool" where
  "writer_ok mtu w \<longleftrightarrow> bw_mtu w = mtu \<and> \<not> bw_writing w \<and> (bw_out_have w \<longrightarrow> mtu \<le> int (length (bw_out w)))"

definition con_ok :: "UdpGwClient \<Rightarrow> nat \<Rightarrow> bool" where
  "con_ok g con \<longleftrightarrow> con \<noteq> 0 \<and> ip_conaddr (conaddr_of g con) \<and> uint (conid_of g con) < ug_max_connections g \<and>
     writer_ok (ug_udpgw_mtu g) (ppf_ainput (uc_send_ppflow (ug_con g con))) \<and>
     (let c = ug_con g con in 0 \<le> uc_first_data_len c \<and> uc_first_data_len c \<le> ug_udp_mtu g \<and>
        uc_first_data_len c \<le> int (length (uc_first_data c)))"

definition udpgw_params :: "UdpGwClient \<Rightarrow> bool" where
  "udpgw_params g \<longleftrightarrow> 0 \<le> ug_udp_mtu g \<and> ug_udpgw_mtu g = ug_udp_mtu g + 21 \<and> ug_udpgw_mtu g \<le> 65535 \<and>
     ug_pp_mtu g = ug_udpgw_mtu g + 2 \<and> 0 < ug_max_connections g \<and> ug_max_connections g \<le> 65536 \<and>
     0 < ug_send_buffer_size g \<and> ug_send_buffer_size g \<le> INT_MAX"

definition udpgw_tables :: "UdpGwClient \<Rightarrow> bool" where
  "udpgw_tables g \<longleftrightarrow> distinct (ug_list g) \<and> set (ug_by_conaddr g) = set (ug_list g) \<and>
     set (ug_by_conid g) = set (ug_list g) \<and> ug_num_connections g = int (length (ug_list g)) \<and>
     ug_num_connections g \<le> ug_max_connections g \<and>
     ordered_by conaddr_comparator (conaddr_of g) (ug_by_conaddr g) \<and>
     ordered_by uint16_comparator (conid_of g) (ug_by_conid g) \<and>
     0 \<le> ug_next_conid g \<and> ug_next_conid g < ug_max_connections g"

definition udpgw_io :: "UdpGwClient \<Rightarrow> bool" where
  "udpgw_io g \<longleftrightarrow> fq_inv (ug_send_queue g) \<and> fq_output_mtu (ug_send_queue g) = ug_pp_mtu g \<and>
     set (fq_flows_list (ug_send_queue g)) = insert 0 (set (ug_list g)) \<and>
     (let c = ug_send_connector g in pc_input_mtu c = ug_pp_mtu g \<and> (pc_output c \<noteq> None) = ug_have_server g \<and>
        -1 \<le> pc_in_len c \<and> pc_in_len c \<le> int (length (pc_in c)))"

definition udpgw_inv :: "UdpGwClient \<Rightarrow> bool" where
  "udpgw_inv g \<longleftrightarrow> udpgw_params g \<and> udpgw_tables g \<and> (\<forall>con \<in> set (ug_list g). con_ok g con) \<and> udpgw_io g"

lemma udpgw_invI: "udpgw_params g \<Longrightarrow> udpgw_tables g \<Longrightarrow> \<forall>con \<in> set (ug_list g). con_ok g con \<Longrightarrow> udpgw_io g \<Longrightarrow>
    udpgw_inv g"
  by (simp add: udpgw_inv_def)

lemma udpgw_invD:
  assumes "udpgw_inv g"
  shows "udpgw_params g" "udpgw_tables g" "\<forall>con \<in> set (ug_list g). con_ok g con" "udpgw_io g"
  using assms by (simp_all add: udpgw_inv_def)

lemma lookup_conaddr:
  assumes "udpgw_inv g" "ip_conaddr a"
  shows "case find_connection_by_conaddr g a of
      None \<Rightarrow> a \<notin> conaddr_of g ` set (ug_list g)
    | Some con \<Rightarrow> con \<in> set (ug_list g) \<and> conaddr_of g con = a"
proof -
  have s: "set (ug_by_conaddr g) = set (ug_list g)" and k: "\<forall>n \<in> set (ug_by_conaddr g). ip_conaddr (conaddr_of g n)"
    using assms by (auto simp: udpgw_inv_def udpgw_tables_def con_ok_def)
  have "find_connection_by_conaddr g a = find (\<lambda>n. conaddr_of g n = a) (ug_by_conaddr g)"
    unfolding find_connection_by_conaddr_def by (rule conaddr_order.tree_lookup_eq [OF assms(2) k])
  then show ?thesis using s by (auto simp: find_None_iff find_Some_iff split: option.split)
qed

lemma lookup_conid:
  assumes "udpgw_inv g"
  shows "case find_connection_by_conid g i of
      None \<Rightarrow> i \<notin> conid_of g ` set (ug_list g)
    | Some con \<Rightarrow> con \<in> set (ug_list g) \<and> conid_of g con = i"
proof -
  have s: "set (ug_by_conid g) = set (ug_list g)" using assms by (simp add: udpgw_inv_def udpgw_tables_def)
  have "find_connection_by_conid g i = find (\<lambda>n. conid_of g n = i) (ug_by_conid g)"
    unfolding find_connection_by_conid_def by (rule conid_order.tree_lookup_eq) simp_all
  then show ?thesis using s by (auto simp: find_None_iff find_Some_iff split: option.split)
qed

lemma unused_exists:
  assumes "udpgw_inv g" "ug_num_connections g < ug_max_connections g"
  shows "\<exists>i. 0 \<le> i \<and> i < ug_max_connections g \<and> find_connection_by_conid g (word_of_int i) = None"
proof (rule ccontr)
  assume no: "\<not> ?thesis"
  have "{0..<ug_max_connections g} \<subseteq> (\<lambda>con. uint (conid_of g con)) ` set (ug_list g)"
  proof
    fix i assume i: "i \<in> {0..<ug_max_connections g}"
    then obtain con where "find_connection_by_conid g (word_of_int i) = Some con" using no by auto
    then have con: "con \<in> set (ug_list g)" "conid_of g con = word_of_int i"
      using lookup_conid [OF assms(1), of "word_of_int i"] by simp_all
    have "ug_max_connections g \<le> 65536" using assms(1) by (simp add: udpgw_inv_def udpgw_params_def)
    then have "uint (word_of_int i :: u16) = i" using i by (simp add: unsigned_of_int take_bit_int_eq_self)
    then show "i \<in> (\<lambda>con. uint (conid_of g con)) ` set (ug_list g)" using con by force
  qed
  then have "card {0..<ug_max_connections g} \<le> card (set (ug_list g))"
    by (meson card_image_le card_mono finite_imageI finite_set le_trans)
  also have "\<dots> \<le> length (ug_list g)" by (rule card_length)
  finally show False using assms by (simp add: udpgw_inv_def udpgw_tables_def)
qed

lemma find_unused_conid_ok:
  assumes "udpgw_inv g" "ug_num_connections g < ug_max_connections g"
  shows "\<exists>n. find_unused_conid g = Some (word_of_int n, g\<lparr>ug_next_conid := n\<rparr>) \<and> 0 \<le> n \<and>
    n < ug_max_connections g \<and> uint (word_of_int n :: u16) = n \<and>
    (word_of_int n) \<notin> conid_of g ` set (ug_list g)"
proof -
  obtain i where i: "0 \<le> i" "i < ug_max_connections g" "find_connection_by_conid g (word_of_int i) = None"
    using unused_exists [OF assms] by blast
  have n: "0 \<le> ug_next_conid g" "ug_next_conid g < ug_max_connections g" "ug_max_connections g \<le> 65536"
    using assms(1) by (simp_all add: udpgw_inv_def udpgw_tables_def udpgw_params_def)
  obtain k where k: "unused_conid_loop (\<lambda>i. find_connection_by_conid g i \<noteq> None) (ug_max_connections g) (ug_next_conid g) = Some k"
    "0 \<le> k" "k < ug_max_connections g" "find_connection_by_conid g (word_of_int k) = None"
    using unused_conid_loop_returns [OF n(1,2) i(1,2), of "\<lambda>i. find_connection_by_conid g i \<noteq> None"] i(3) by auto
  have "uint (word_of_int k :: u16) = k" using k n(3) by (simp add: unsigned_of_int take_bit_int_eq_self)
  moreover have "(word_of_int k) \<notin> conid_of g ` set (ug_list g)"
    using lookup_conid [OF assms(1), of "word_of_int k"] k(4) by simp
  ultimately show ?thesis using k assms(2) by (auto simp: find_unused_conid_def)
qed

section \<open>Sending on a connection\<close>

lemma set_con_fields [simp]:
  "ug_udp_mtu (set_con con u g) = ug_udp_mtu g" "ug_max_connections (set_con con u g) = ug_max_connections g"
  "ug_send_buffer_size (set_con con u g) = ug_send_buffer_size g" "ug_udpgw_mtu (set_con con u g) = ug_udpgw_mtu g"
  "ug_pp_mtu (set_con con u g) = ug_pp_mtu g" "ug_by_conaddr (set_con con u g) = ug_by_conaddr g"
  "ug_by_conid (set_con con u g) = ug_by_conid g" "ug_list (set_con con u g) = ug_list g"
  "ug_num_connections (set_con con u g) = ug_num_connections g" "ug_next_conid (set_con con u g) = ug_next_conid g"
  "ug_send_queue (set_con con u g) = ug_send_queue g" "ug_send_connector (set_con con u g) = ug_send_connector g"
  "ug_have_server (set_con con u g) = ug_have_server g" "ug_keepalive_sending (set_con con u g) = ug_keepalive_sending g"
  "ug_send_monitor (set_con con u g) = ug_send_monitor g" "ug_keepalive_packet (set_con con u g) = ug_keepalive_packet g"
  by (simp_all add: set_con_def)

lemma set_con_con: "ug_con (set_con con u g) n = (if n = con then u (ug_con g con) else ug_con g n)"
  by (simp add: set_con_def)

lemma set_con_inv:
  assumes i: "udpgw_inv g" and keep: "uc_conaddr (u (ug_con g con)) = conaddr_of g con"
      "uc_conid (u (ug_con g con)) = conid_of g con"
    and ok: "con \<in> set (ug_list g) \<longrightarrow> con_ok (set_con con u g) con"
  shows "udpgw_inv (set_con con u g)"
proof (rule udpgw_invI)
  have k: "conaddr_of (set_con con u g) = conaddr_of g" "conid_of (set_con con u g) = conid_of g"
    using keep by (auto simp: conaddr_of_def conid_of_def set_con_con)
  show "udpgw_params (set_con con u g)" using udpgw_invD(1) [OF i] by (simp add: udpgw_params_def)
  show "udpgw_tables (set_con con u g)" using udpgw_invD(2) [OF i] by (simp add: udpgw_tables_def k)
  show "udpgw_io (set_con con u g)" using udpgw_invD(4) [OF i] by (simp add: udpgw_io_def)
  show "\<forall>n \<in> set (ug_list (set_con con u g)). con_ok (set_con con u g) n"
  proof
    fix n assume n: "n \<in> set (ug_list (set_con con u g))"
    show "con_ok (set_con con u g) n"
    proof (cases "n = con")
      case False
      then show ?thesis using udpgw_invD(3) [OF i] n by (simp add: con_ok_def k set_con_con)
    qed (use ok n in simp)
  qed
qed

text \<open>The packet on the wire.\<close>

fun addr_image :: "BAddr \<Rightarrow> bytes" where
  "addr_image (BAddr_IPV4 ip port) = addr_ipv4_image \<lparr>a4_ip = ip, a4_port = port\<rparr>"
| "addr_image (BAddr_IPV6 ip port) = addr_ipv6_image \<lparr>a6_ip = ip, a6_port = port\<rparr>"
| "addr_image _ = []"

definition addr_flags :: "BAddr \<Rightarrow> u8 \<Rightarrow> u8" where
  "addr_flags addr flags = (if BAddr_type addr = BADDR_TYPE_IPV6 then flags OR UDPGW_CLIENT_FLAG_IPV6 else flags)"

definition udpgw_packet :: "u8 \<Rightarrow> u16 \<Rightarrow> BAddr \<Rightarrow> bytes \<Rightarrow> bytes" where
  "udpgw_packet flags conid addr data =
     udpgw_header_image \<lparr>uh_flags = addr_flags addr flags, uh_conid = ltoh16 conid\<rparr> @ addr_image addr @ data"

lemma addr_image_length: "ip_addr a \<Longrightarrow> length (addr_image a) \<in> {6, 18}"
  by (cases a) (simp_all add: codec_simps)

lemma write_addr_eq:
  assumes "ip_addr a" "pos + length (addr_image a) \<le> length out"
  shows "write_addr a out pos =
    Some (take pos out @ addr_image a @ drop (pos + length (addr_image a)) out, pos + length (addr_image a))"
  using assms by (cases a) (simp_all add: write_addr_def mem_write_def codec_simps)

lemma connection_send_ok:
  assumes p: "udpgw_params g" and c: "con_ok g con"
    and len: "0 \<le> len" "len \<le> ug_udp_mtu g" "len \<le> int (length data)"
  defines "w \<equiv> ppf_ainput (uc_send_ppflow (ug_con g con))"
  shows "connection_send con flags data len g = (if \<not> bw_out_have w then Some (g, [])
    else Some (set_con con (\<lambda>c. c\<lparr>uc_send_ppflow := (uc_send_ppflow c)\<lparr>ppf_ainput :=
        w\<lparr>bw_out_have := False, bw_out := udpgw_packet flags (conid_of g con) (ca_remote_addr (conaddr_of g con))
          (take (nat len) data) @ drop (length (udpgw_packet flags (conid_of g con) (ca_remote_addr (conaddr_of g con))
          (take (nat len) data))) (bw_out w)\<rparr>\<rparr>\<rparr>) g,
      [UgPacket con (udpgw_packet flags (conid_of g con) (ca_remote_addr (conaddr_of g con)) (take (nat len) data))]))"
proof (cases "bw_out_have w")
  case False
  then show ?thesis using len c
    by (simp add: connection_send_def BufferWriter_StartPacket_def con_ok_def writer_ok_def w_def)
next
  case True
  let ?a = "ca_remote_addr (conaddr_of g con)" and ?out = "bw_out w" and ?d = "take (nat len) data"
  let ?h = "udpgw_header_image \<lparr>uh_flags = addr_flags ?a flags, uh_conid = ltoh16 (conid_of g con)\<rparr>"
  let ?p = "udpgw_packet flags (conid_of g con) ?a ?d"
  have ip: "ip_addr ?a" and w: "writer_ok (ug_udpgw_mtu g) w"
    using c by (simp_all add: con_ok_def ip_conaddr_def w_def)
  have lo: "ug_udp_mtu g + 21 \<le> int (length ?out)" "bw_mtu w = ug_udp_mtu g + 21" "\<not> bw_writing w"
    using w True p by (simp_all add: writer_ok_def udpgw_params_def)
  have la: "length (addr_image ?a) \<le> 18" using addr_image_length [OF ip] by auto
  have ld: "length ?d = nat len" "nat len \<le> length data" using len by auto
  have lh: "length ?h = 3" by (simp add: codec_simps)
  have lp: "length ?p = 3 + length (addr_image ?a) + nat len" by (simp add: udpgw_packet_def lh ld codec_simps)
  have fit: "length ?p \<le> length ?out" using la lo len unfolding lp by linarith
  have h: "ltoh8 (addr_flags ?a flags) = addr_flags ?a flags" by (simp add: ltoh8_def htol8_def)
  have w1: "mem_write ?out 0 ?h = Some (?h @ drop 3 ?out)"
    using fit lp lh by (simp add: mem_write_def)
  have w2: "write_addr ?a (?h @ drop 3 ?out) 3 = Some (?h @ addr_image ?a @ drop (3 + length (addr_image ?a)) ?out,
      3 + length (addr_image ?a))"
    using write_addr_eq [OF ip, of 3 "?h @ drop 3 ?out"] fit lp lh by (simp add: add.commute)
  have w3: "mem_write (?h @ addr_image ?a @ drop (3 + length (addr_image ?a)) ?out) (3 + length (addr_image ?a)) ?d =
      Some (?p @ drop (length ?p) ?out)"
    using fit lp lh ld by (simp add: mem_write_def udpgw_packet_def ac_simps)
  have n: "nat (3 + int (length (addr_image ?a)) + len) = length ?p" using lp len by simp
  have e: "BufferWriter_EndPacket (w\<lparr>bw_writing := True, bw_out := ?p @ drop (length ?p) ?out\<rparr>) (3 + int (length (addr_image ?a)) + len) =
      Some (w\<lparr>bw_out_have := False, bw_out := ?p @ drop (length ?p) ?out\<rparr>, ?p @ drop (length ?p) ?out,
        3 + int (length (addr_image ?a)) + len)"
    using True lo la len by (simp add: BufferWriter_EndPacket_def)
  show ?thesis
    using True lo(3) len w1 w2 w3 e n ld
    by (simp add: connection_send_def BufferWriter_StartPacket_def w_def [symmetric] conaddr_of_def [symmetric]
        conid_of_def [symmetric] addr_flags_def [symmetric] h mem_read_def Let_def)
qed

lemma connection_send_inv:
  assumes i: "udpgw_inv g" and con: "con \<in> set (ug_list g)"
    and len: "0 \<le> len" "len \<le> ug_udp_mtu g" "len \<le> int (length data)"
  shows "\<exists>g' cs. connection_send con flags data len g = Some (g', cs) \<and> udpgw_inv g' \<and>
    ug_list g' = ug_list g \<and> conaddr_of g' = conaddr_of g \<and> conid_of g' = conid_of g \<and>
    ug_num_connections g' = ug_num_connections g \<and> ug_max_connections g' = ug_max_connections g \<and>
    ug_udp_mtu g' = ug_udp_mtu g \<and>
    cs = (if bw_out_have (ppf_ainput (uc_send_ppflow (ug_con g con)))
      then [UgPacket con (udpgw_packet flags (conid_of g con) (ca_remote_addr (conaddr_of g con)) (take (nat len) data))]
      else [])"
proof -
  let ?w = "ppf_ainput (uc_send_ppflow (ug_con g con))"
  have c: "con_ok g con" using udpgw_invD(3) [OF i] con by blast
  note eq = connection_send_ok [OF udpgw_invD(1) [OF i] c len, of flags]
  show ?thesis
  proof (cases "bw_out_have ?w")
    case False
    then show ?thesis using eq i by simp
  next
    case True
    define p where "p = udpgw_packet flags (conid_of g con) (ca_remote_addr (conaddr_of g con)) (take (nat len) data)"
    define u :: "UdpGwClient_connection \<Rightarrow> UdpGwClient_connection" where "u = (\<lambda>c. c\<lparr>uc_send_ppflow := (uc_send_ppflow c)\<lparr>ppf_ainput :=
        ?w\<lparr>bw_out_have := False, bw_out := p @ drop (length p) (bw_out ?w)\<rparr>\<rparr>\<rparr>)"
    have "con_ok (set_con con u g) con"
      using c by (auto simp: con_ok_def conaddr_of_def conid_of_def set_con_con u_def writer_ok_def Let_def)
    then have "udpgw_inv (set_con con u g)"
      using i by (intro set_con_inv) (simp_all add: u_def conaddr_of_def conid_of_def)
    moreover have "conaddr_of (set_con con u g) = conaddr_of g" "conid_of (set_con con u g) = conid_of g"
      by (auto simp: conaddr_of_def conid_of_def set_con_con u_def)
    ultimately show ?thesis using eq True by (simp add: p_def [symmetric] u_def [symmetric])
  qed
qed

section \<open>The table of connections\<close>

lemma move_to_end_inv:
  assumes i: "udpgw_inv g" and con: "con \<in> set (ug_list g)"
  shows "udpgw_inv (move_to_end con g)"
proof -
  have d: "distinct (ug_list g)" using i by (simp add: udpgw_inv_def udpgw_tables_def)
  have k: "conaddr_of (move_to_end con g) = conaddr_of g" "conid_of (move_to_end con g) = conid_of g"
    by (simp_all add: move_to_end_def conaddr_of_def conid_of_def fun_eq_iff)
  have set: "set (ug_list (move_to_end con g)) = set (ug_list g)" using con d by (auto simp: move_to_end_def)
  have len: "length (ug_list (move_to_end con g)) = length (ug_list g)"
    using con by (simp add: move_to_end_def length_remove1) (metis length_pos_if_in_set Suc_pred)
  have dist: "distinct (ug_list (move_to_end con g))" using d by (simp add: move_to_end_def)
  have f: "ug_max_connections (move_to_end con g) = ug_max_connections g" "ug_by_conaddr (move_to_end con g) = ug_by_conaddr g"
    "ug_by_conid (move_to_end con g) = ug_by_conid g" "ug_num_connections (move_to_end con g) = ug_num_connections g"
    "ug_next_conid (move_to_end con g) = ug_next_conid g" "ug_con (move_to_end con g) = ug_con g"
    "ug_udpgw_mtu (move_to_end con g) = ug_udpgw_mtu g" "ug_udp_mtu (move_to_end con g) = ug_udp_mtu g"
    "ug_send_buffer_size (move_to_end con g) = ug_send_buffer_size g" "ug_pp_mtu (move_to_end con g) = ug_pp_mtu g"
    "ug_send_queue (move_to_end con g) = ug_send_queue g" "ug_send_connector (move_to_end con g) = ug_send_connector g"
    "ug_have_server (move_to_end con g) = ug_have_server g"
    by (simp_all add: move_to_end_def)
  show ?thesis using i
    unfolding udpgw_inv_def udpgw_params_def udpgw_tables_def con_ok_def udpgw_io_def set len k f
    using dist by blast
qed

lemma reuse_connection_ok:
  assumes i: "udpgw_inv g" and a: "ip_conaddr a" "find_connection_by_conaddr g a = None" and l: "ug_list g = con # rest"
  shows "\<exists>g'. reuse_connection g a = Some (con, g') \<and> udpgw_inv g' \<and> ug_list g' = ug_list g \<and>
    conaddr_of g' = (conaddr_of g)(con := a) \<and> conid_of g' = conid_of g \<and>
    ug_num_connections g' = ug_num_connections g \<and> ug_max_connections g' = ug_max_connections g \<and>
    ug_udp_mtu g' = ug_udp_mtu g \<and>
    (\<forall>n. uc_send_ppflow (ug_con g' n) = uc_send_ppflow (ug_con g n))"
proof -
  let ?u = "\<lambda>c. c\<lparr>uc_conaddr := a\<rparr>"
  let ?t = "tree_remove con (ug_by_conaddr g)"
  let ?g1 = "set_con con ?u (g\<lparr>ug_by_conaddr := ?t\<rparr>)"
  note t = udpgw_invD(2) [OF i, unfolded udpgw_tables_def]
  have ca: "conaddr_of ?g1 = (conaddr_of g)(con := a)" and ci: "conid_of ?g1 = conid_of g"
    by (auto simp: conaddr_of_def conid_of_def set_con_def)
  have keys: "\<forall>n \<in> set (ug_by_conaddr g). ip_conaddr (conaddr_of g n)"
    using udpgw_invD(3) [OF i] t by (simp add: con_ok_def)
  have dist: "distinct (ug_by_conaddr g)" using t keys by (intro conaddr_order.ordered_distinct) auto
  have st: "set ?t = set (ug_list g) - {con}" using dist t by (simp add: tree_remove_def)
  have na: "a \<notin> conaddr_of g ` set (ug_list g)" using lookup_conaddr [OF i a(1)] a(2) by simp
  have "ordered_by conaddr_comparator (conaddr_of g) ?t" using t by (simp add: ordered_by_remove)
  then have o: "ordered_by conaddr_comparator (conaddr_of ?g1) ?t"
    using ordered_by_cong [of ?t "conaddr_of ?g1" "conaddr_of g"] st ca by auto
  have "\<exists>t'. tree_insert (\<lambda>m n. conaddr_comparator (conaddr_of ?g1 m) (conaddr_of ?g1 n)) con ?t = Some t' \<and>
      ordered_by conaddr_comparator (conaddr_of ?g1) t' \<and> set t' = insert con (set ?t)"
  proof (rule conaddr_order.tree_insert_spec [OF o])
    show "\<forall>n \<in> set ?t. ip_conaddr (conaddr_of ?g1 n)" using keys st t ca by auto
    show "ip_conaddr (conaddr_of ?g1 con)" using a ca by simp
    show "conaddr_of ?g1 con \<notin> conaddr_of ?g1 ` set ?t" using na st ca by auto
  qed
  then obtain t' where t': "tree_insert (\<lambda>m n. conaddr_comparator (conaddr_of ?g1 m) (conaddr_of ?g1 n)) con ?t = Some t'"
    "ordered_by conaddr_comparator (conaddr_of ?g1) t'" "set t' = set (ug_list g)"
    using st l by auto
  let ?g2 = "?g1\<lparr>ug_by_conaddr := t'\<rparr>"
  have ca2: "conaddr_of ?g2 = conaddr_of ?g1" "conid_of ?g2 = conid_of ?g1"
    by (simp_all add: conaddr_of_def conid_of_def fun_eq_iff)
  have "reuse_connection g a = Some (con, ?g2)" using a(2) l t'(1) t by (simp add: reuse_connection_def)
  moreover have "udpgw_inv ?g2"
  proof (rule udpgw_invI)
    show "udpgw_params ?g2" using udpgw_invD(1) [OF i] by (simp add: udpgw_params_def)
    show "udpgw_tables ?g2" using t t' by (simp add: udpgw_tables_def ca2 ci)
    show "udpgw_io ?g2" using udpgw_invD(4) [OF i] by (simp add: udpgw_io_def)
    show "\<forall>n \<in> set (ug_list ?g2). con_ok ?g2 n"
      using udpgw_invD(3) [OF i] a(1) by (simp add: con_ok_def ca2 ca ci set_con_con Let_def)
  qed
  ultimately show ?thesis using ca2 ca ci by (intro exI [of _ ?g2]) (simp add: set_con_def)
qed

lemma init_flow_fields:
  assumes "PacketPassFairQueueFlow_Init con q = Some q'"
  shows "fq_output_mtu q' = fq_output_mtu q \<and> fq_flows_list q' = fq_flows_list q @ [con]"
  using assms by (auto simp: PacketPassFairQueueFlow_Init_def)

text \<open>\<^verbatim>\<open>BAllocArray(num_blocks, sizeof(buf->buf_data[0]))\<close>\<close>

definition block_alloc :: "bytes option \<Rightarrow> int \<Rightarrow> bytes option" where
  "block_alloc fresh n = BAllocArray fresh (word_of_int n) 4"

text \<open>
  What the client relies on: that the memory for a connection's send buffer, if it is allocated at all, is not more than an \<^verbatim>\<open>int\<close> can
  count in bytes. The code does not check this; with more, an assertion of the buffer fails.
\<close>

definition memory_ok :: "UdpGwClient \<Rightarrow> bytes option \<Rightarrow> bool" where
  "memory_ok g fresh \<longleftrightarrow> fresh = None \<or> 4 * ChunkBuffer2_calc_blocks (ug_udpgw_mtu g + 2) (ug_send_buffer_size g) \<le> INT_MAX"

lemma block_alloc_ok: "memory_ok g fresh \<Longrightarrow> n = ChunkBuffer2_calc_blocks (ug_udpgw_mtu g + 2) (ug_send_buffer_size g) \<Longrightarrow>
  0 < n \<Longrightarrow> array_ok (block_alloc fresh) n"
proof -
  assume m: "memory_ok g fresh" and n: "n = ChunkBuffer2_calc_blocks (ug_udpgw_mtu g + 2) (ug_send_buffer_size g)" "0 < n"
  show "array_ok (block_alloc fresh) n"
  proof (cases fresh)
    case None
    then show ?thesis by (simp add: array_ok_def block_alloc_def BAllocArray_def BAlloc_def realloc_block_def)
  next
    case (Some f)
    with m n have b: "4 * n \<le> INT_MAX" by (simp add: memory_ok_def)
    with n(2) have "block_alloc fresh n = realloc_block fresh None (nat (4 * n))" by (simp add: block_alloc_def BAllocArray_4)
    with b n(2) show ?thesis by (auto simp: array_ok_def dest: realloc_block_length split: option.splits)
  qed
qed

lemma calc_blocks_cases: "ChunkBuffer2_calc_blocks m (int n) < 0 \<or> ChunkBuffer2_calc_blocks m (int n) > 0" if "0 \<le> m" "m \<le> INT_MAX"
proof -
  have "0 \<le> blocks m" using blocks_bounds(1) [OF that] .
  then have "0 < (1 + blocks m) * (int n + 1)" by simp
  then show ?thesis by (auto simp: ChunkBuffer2_calc_blocks_def Let_def)
qed

text \<open>Whether a new connection gets the memory it needs: the struct itself and its send buffer, whose size must not overflow an \<^verbatim>\<open>int\<close>.\<close>

definition memory_given :: "UdpGwClient \<Rightarrow> nat option \<Rightarrow> bytes option \<Rightarrow> bool" where
  "memory_given g new fresh \<longleftrightarrow> new \<noteq> None \<and> fresh \<noteq> None \<and>
     0 \<le> ChunkBuffer2_calc_blocks (ug_udpgw_mtu g + 2) (ug_send_buffer_size g)"

lemma block_alloc_None: "array_ok (block_alloc fresh) n \<Longrightarrow> 0 < n \<Longrightarrow> n \<le> INT_MAX \<Longrightarrow> block_alloc fresh n = None \<longleftrightarrow> fresh = None"
  by (simp add: block_alloc_def BAllocArray_4 realloc_block_def)

lemma calc_blocks_max: "ChunkBuffer2_calc_blocks m n \<le> INT_MAX" if "0 \<le> n"
proof -
  have "x * (n + 1) \<le> INT_MAX" if "x \<le> INT_MAX div (n + 1)" for x
  proof -
    have "x * (n + 1) \<le> INT_MAX div (n + 1) * (n + 1)" using that \<open>0 \<le> n\<close> by (intro mult_right_mono) auto
    also have "\<dots> \<le> INT_MAX"
      using div_mult_mod_eq [of INT_MAX "n + 1"] pos_mod_sign [of "n + 1" INT_MAX] \<open>0 \<le> n\<close> by linarith
    finally show ?thesis .
  qed
  then show ?thesis by (auto simp: ChunkBuffer2_calc_blocks_def Let_def)
qed

lemma ppflow_ok:
  assumes p: "udpgw_params g" and m: "mtu = ug_pp_mtu g" and mem: "memory_ok g fresh"
  shows "\<exists>r. PacketProtoFlow_Init w (ug_udpgw_mtu g) (ug_send_buffer_size g) mtu (block_alloc fresh) = Some r \<and>
    (case r of None \<Rightarrow> True | Some (f, _) \<Rightarrow> writer_ok (ug_udpgw_mtu g) (ppf_ainput f) \<and> \<not> bw_out_have (ppf_ainput f)) \<and>
    (r = None) = (fresh = None \<or> ChunkBuffer2_calc_blocks (ug_udpgw_mtu g + 2) (ug_send_buffer_size g) < 0)"
proof -
  let ?n = "ChunkBuffer2_calc_blocks (ug_udpgw_mtu g + 2) (ug_send_buffer_size g)"
  have b: "0 \<le> ug_udpgw_mtu g" "ug_udpgw_mtu g \<le> 65535" "0 < ug_send_buffer_size g" "ug_send_buffer_size g \<le> INT_MAX"
    "mtu = ug_udpgw_mtu g + 2"
    using p m by (simp_all add: udpgw_params_def)
  obtain num where num: "ug_send_buffer_size g = int num" "0 < num" using b(3) by (metis pos_int_cases)
  obtain r where r: "PacketBuffer_Init (ug_udpgw_mtu g + 2) mtu (int num) (block_alloc fresh) = Some r" "(r = None) = (fresh = None \<or> ?n < 0)"
  proof (cases "?n < 0")
    case True
    then have "PacketBuffer_Init (ug_udpgw_mtu g + 2) mtu (int num) (block_alloc fresh) = Some None"
      using b num by (simp add: PacketBuffer_Init_def Let_def)
    then show thesis using True by (intro that [of None]) simp_all
  next
    case False
    then have n: "0 < ?n" "?n \<le> INT_MAX" using calc_blocks_cases [of "ug_udpgw_mtu g + 2" num] b num(1) calc_blocks_max [of "int num"] by auto
    have a: "array_ok (block_alloc fresh) ?n" by (rule block_alloc_ok [OF mem refl n(1)])
    have "\<exists>r. PacketBuffer_Init (ug_udpgw_mtu g + 2) mtu (int num) (block_alloc fresh) = Some r \<and>
        (r = None \<longrightarrow> ?n < 0 \<or> block_alloc fresh ?n = None)"
    proof -
      have "0 \<le> ug_udpgw_mtu g + 2" "ug_udpgw_mtu g + 2 \<le> INT_MAX" "int num \<le> INT_MAX" "ug_udpgw_mtu g + 2 \<le> mtu"
        using b num(1) by simp_all
      from PacketBuffer_Init_ok [OF this(1,2) num(2) this(3,4) a [unfolded num(1)]] num(1)
      show ?thesis by fastforce
    qed
    then obtain r where
      r: "PacketBuffer_Init (ug_udpgw_mtu g + 2) mtu (int num) (block_alloc fresh) = Some r"
      "r = None \<Longrightarrow> ?n < 0 \<or> block_alloc fresh ?n = None" by blast
    have "r = None" if "block_alloc fresh ?n = None"
      using r(1) that b num n by (auto simp: PacketBuffer_Init_def Let_def)
    then show thesis using r n block_alloc_None [OF a n] by (intro that [OF r(1)]) auto
  qed
  show ?thesis
    using b r num by (cases r)
      (auto simp: add.commute [of 2 "ug_udpgw_mtu g"] PacketProtoFlow_Init_def BufferWriter_Init_def PacketProtoEncoder_Init_def PACKETPROTO_ENCLEN_def writer_ok_def)
qed

lemma flow_free_fields:
  assumes "PacketPassFairQueueFlow_Free f q = Some q'"
  shows "fq_output_mtu q' = fq_output_mtu q \<and> fq_flows_list q' = remove1 f (fq_flows_list q)"
  using assms by (auto simp: PacketPassFairQueueFlow_Free_def Let_def)

lemma flow_init_free:
  assumes i: "fq_inv q" and f: "f \<notin> set (fq_flows_list q)" and q1: "PacketPassFairQueueFlow_Init f q = Some q1"
  shows "\<exists>q2. PacketPassFairQueueFlow_Free f q1 = Some q2 \<and> fq_inv q2 \<and> fq_output_mtu q2 = fq_output_mtu q \<and>
    fq_flows_list q2 = fq_flows_list q"
proof -
  have i1: "fq_inv q1" using flow_init_step [OF i f] q1 by auto
  have s: "fq_sending_flow q1 = fq_sending_flow q" using q1 by (auto simp: PacketPassFairQueueFlow_Init_def)
  have "fq_sending_flow q \<noteq> Some f" using i f unfolding fq_inv_def by blast
  then obtain q2 where "PacketPassFairQueueFlow_Free f q1 = Some q2" "fq_inv q2"
    using flow_free_step [OF i1, of f] s init_flow_fields [OF q1] by auto
  then show ?thesis
    using flow_free_fields [of f q1 q2] init_flow_fields [OF q1] f by (simp add: remove1_append)
qed

text \<open>A connection that did not exist before: it is added at the end with an identifier of its own.\<close>

definition added :: "UdpGwClient \<Rightarrow> UdpGwClient \<Rightarrow> nat \<Rightarrow> UdpGwClient_conaddr \<Rightarrow> u8 \<Rightarrow> bytes \<Rightarrow> bool" where
  "added g g' con a flags data \<longleftrightarrow> ug_list g' = ug_list g @ [con] \<and> conaddr_of g' = (conaddr_of g)(con := a) \<and>
     (\<exists>i. i \<notin> conid_of g ` set (ug_list g) \<and> conid_of g' = (conid_of g)(con := i)) \<and>
     (let c = ug_con g' con in uc_first_job c \<and> uc_first_flags c = flags \<and>
        take (nat (uc_first_data_len c)) (uc_first_data c) = data)"

lemma insert_connection_inv:
  fixes flags :: u8
  assumes i: "udpgw_inv g" and con: "con \<notin> set (ug_list g)" "con \<noteq> 0" and num: "ug_num_connections g < ug_max_connections g"
    and a: "ip_conaddr a" "a \<notin> conaddr_of g ` set (ug_list g)"
    and n: "0 \<le> n" "n < ug_max_connections g" "uint (word_of_int n :: u16) = n" "word_of_int n \<notin> conid_of g ` set (ug_list g)"
    and len: "0 \<le> len" "len \<le> ug_udp_mtu g" "len \<le> int (length data)"
    and f: "writer_ok (ug_udpgw_mtu g) (ppf_ainput f)"
    and q: "fq_inv q" "fq_output_mtu q = ug_pp_mtu g" "set (fq_flows_list q) = insert con (insert 0 (set (ug_list g)))"
  defines "g1 \<equiv> set_con con (\<lambda>_. \<lparr>uc_conaddr = a, uc_first_flags = flags, uc_first_data = data,
      uc_first_data_len = len, uc_conid = word_of_int n, uc_first_job = True, uc_send_ppflow = f\<rparr>)
      (g\<lparr>ug_next_conid := n, ug_send_queue := q\<rparr>)"
  shows "\<exists>t1 t2. tree_insert (\<lambda>m k. conaddr_comparator (conaddr_of g1 m) (conaddr_of g1 k)) con (ug_by_conaddr g) = Some t1 \<and>
    tree_insert (\<lambda>m k. uint16_comparator (conid_of g1 m) (conid_of g1 k)) con (ug_by_conid g) = Some t2 \<and>
    udpgw_inv (g1\<lparr>ug_by_conaddr := t1, ug_by_conid := t2, ug_list := ug_list g @ [con],
      ug_num_connections := ug_num_connections g + 1\<rparr>)"
proof -
  note t = udpgw_invD(2) [OF i, unfolded udpgw_tables_def]
  have ca: "conaddr_of g1 = (conaddr_of g)(con := a)" and ci: "conid_of g1 = (conid_of g)(con := word_of_int n)"
    by (auto simp: conaddr_of_def conid_of_def g1_def set_con_def)
  have keys: "\<forall>n \<in> set (ug_list g). ip_conaddr (conaddr_of g n)" using udpgw_invD(3) [OF i] by (simp add: con_ok_def)
  have o1: "ordered_by conaddr_comparator (conaddr_of g1) (ug_by_conaddr g)"
    using t con(1) ordered_by_cong [of "ug_by_conaddr g" "conaddr_of g1" "conaddr_of g"] ca by auto
  have o2: "ordered_by uint16_comparator (conid_of g1) (ug_by_conid g)"
    using t con(1) ordered_by_cong [of "ug_by_conid g" "conid_of g1" "conid_of g"] ci by auto
  have "\<exists>t1. tree_insert (\<lambda>m k. conaddr_comparator (conaddr_of g1 m) (conaddr_of g1 k)) con (ug_by_conaddr g) = Some t1 \<and>
      ordered_by conaddr_comparator (conaddr_of g1) t1 \<and> set t1 = insert con (set (ug_by_conaddr g))"
    by (rule conaddr_order.tree_insert_spec [OF o1]) (use keys t con a ca in auto)
  then obtain t1 where t1: "tree_insert (\<lambda>m k. conaddr_comparator (conaddr_of g1 m) (conaddr_of g1 k)) con (ug_by_conaddr g) = Some t1"
    "ordered_by conaddr_comparator (conaddr_of g1) t1" "set t1 = insert con (set (ug_list g))" using t by metis
  have "\<exists>t2. tree_insert (\<lambda>m k. uint16_comparator (conid_of g1 m) (conid_of g1 k)) con (ug_by_conid g) = Some t2 \<and>
      ordered_by uint16_comparator (conid_of g1) t2 \<and> set t2 = insert con (set (ug_by_conid g))"
    by (rule conid_order.tree_insert_spec [OF o2]) (use t con n ci in auto)
  then obtain t2 where t2: "tree_insert (\<lambda>m k. uint16_comparator (conid_of g1 m) (conid_of g1 k)) con (ug_by_conid g) = Some t2"
    "ordered_by uint16_comparator (conid_of g1) t2" "set t2 = insert con (set (ug_list g))" using t by metis
  define g2 where "g2 = g1\<lparr>ug_by_conaddr := t1, ug_by_conid := t2, ug_list := ug_list g @ [con],
      ug_num_connections := ug_num_connections g + 1\<rparr>"
  have k2: "conaddr_of g2 = conaddr_of g1" "conid_of g2 = conid_of g1"
    by (simp_all add: conaddr_of_def conid_of_def fun_eq_iff g2_def)
  have "udpgw_inv g2"
  proof (rule udpgw_invI)
    show "udpgw_params g2" using udpgw_invD(1) [OF i] by (simp add: udpgw_params_def g2_def g1_def)
    show "udpgw_tables g2"
      using t t1 t2 con num n unfolding udpgw_tables_def k2 by (simp add: g2_def g1_def)
    show "udpgw_io g2" using udpgw_invD(4) [OF i] q by (auto simp: udpgw_io_def g2_def g1_def)
    show "\<forall>m \<in> set (ug_list g2). con_ok g2 m"
    proof
      fix m assume "m \<in> set (ug_list g2)"
      then consider "m = con" | "m \<in> set (ug_list g)" "m \<noteq> con" using con by (auto simp: g2_def)
      then show "con_ok g2 m"
      proof cases
        case 1
        then show ?thesis using con a n len f unfolding con_ok_def k2 ca ci
          by (simp add: g2_def g1_def set_con_con)
      next
        case 2
        then show ?thesis using udpgw_invD(3) [OF i] unfolding con_ok_def k2 ca ci
          by (simp add: g2_def g1_def set_con_con)
      qed
    qed
  qed
  then show ?thesis using t1(1) t2(1) unfolding g2_def by blast
qed

lemma connection_init_ok:
  assumes i: "udpgw_inv g" and num: "ug_num_connections g < ug_max_connections g"
    and a: "ip_conaddr a" "find_connection_by_conaddr g a = None"
    and new: "\<forall>con. new = Some con \<longrightarrow> con \<noteq> 0 \<and> con \<notin> set (ug_list g)"
    and len: "0 \<le> len" "len \<le> ug_udp_mtu g" "len \<le> int (length data)" and mem: "memory_ok g fresh"
  shows "\<exists>g'. connection_init g a flags data len new w (block_alloc fresh) = Some g' \<and> udpgw_inv g' \<and>
    (if memory_given g new fresh then \<exists>con. new = Some con \<and> added g g' con a flags (take (nat len) data)
     else ug_list g' = ug_list g \<and> conaddr_of g' = conaddr_of g \<and> conid_of g' = conid_of g)"
proof (cases new)
  case None
  then have "connection_init g a flags data len new w (block_alloc fresh) = Some g"
    using num a len by (simp add: connection_init_def)
  then show ?thesis using i None by (simp add: memory_given_def)
next
  case (Some con)
  have con: "con \<noteq> 0" "con \<notin> set (ug_list g)" using new Some by auto
  obtain n where n: "find_unused_conid g = Some (word_of_int n, g\<lparr>ug_next_conid := n\<rparr>)" "0 \<le> n"
    "n < ug_max_connections g" "uint (word_of_int n :: u16) = n" "(word_of_int n) \<notin> conid_of g ` set (ug_list g)"
    using find_unused_conid_ok [OF i num] by blast
  have q: "fq_inv (ug_send_queue g)" "fq_output_mtu (ug_send_queue g) = ug_pp_mtu g"
    "set (fq_flows_list (ug_send_queue g)) = insert 0 (set (ug_list g))"
    using udpgw_invD(4) [OF i] by (simp_all add: udpgw_io_def)
  have fresh: "con \<notin> set (fq_flows_list (ug_send_queue g))" using q(3) con by simp
  obtain q1 where q1: "PacketPassFairQueueFlow_Init con (ug_send_queue g) = Some q1" "fq_inv q1"
    using flow_init_step [OF q(1) fresh] by blast
  note f1 = init_flow_fields [OF q1(1)]
  have "fq_output_mtu q1 = ug_pp_mtu g" using f1 q(2) by simp
  from ppflow_ok [OF udpgw_invD(1) [OF i] this mem, of w] obtain r where
    r: "PacketProtoFlow_Init w (ug_udpgw_mtu g) (ug_send_buffer_size g) (fq_output_mtu q1) (block_alloc fresh) = Some r"
    "case r of None \<Rightarrow> True | Some (f, _) \<Rightarrow> writer_ok (ug_udpgw_mtu g) (ppf_ainput f) \<and> \<not> bw_out_have (ppf_ainput f)"
    and r0: "(r = None) = (fresh = None \<or> ChunkBuffer2_calc_blocks (ug_udpgw_mtu g + 2) (ug_send_buffer_size g) < 0)"
    by blast
  have r3: "memory_given g new fresh = (r \<noteq> None)" unfolding memory_given_def r0 Some by (simp add: not_less)
  note r = r r3
  show ?thesis
  proof (cases r)
    case None
    obtain q2 where q2: "PacketPassFairQueueFlow_Free con q1 = Some q2" "fq_inv q2"
      "fq_output_mtu q2 = fq_output_mtu (ug_send_queue g)" "fq_flows_list q2 = fq_flows_list (ug_send_queue g)"
      using flow_init_free [OF q(1) fresh q1(1)] by blast
    let ?g = "g\<lparr>ug_next_conid := n, ug_send_queue := q2\<rparr>"
    have k: "conaddr_of ?g = conaddr_of g" "conid_of ?g = conid_of g"
      by (simp_all add: conaddr_of_def conid_of_def fun_eq_iff)
    have "connection_init g a flags data len new w (block_alloc fresh) = Some ?g"
      using num a len Some n(1) q1(1) r(1) None q2(1) by (simp add: connection_init_def)
    moreover have "udpgw_inv ?g"
    proof (rule udpgw_invI)
      show "udpgw_params ?g" using udpgw_invD(1) [OF i] by (simp add: udpgw_params_def)
      show "udpgw_tables ?g" using udpgw_invD(2) [OF i] n by (simp add: udpgw_tables_def k)
      show "\<forall>m \<in> set (ug_list ?g). con_ok ?g m" using udpgw_invD(3) [OF i] by (simp add: con_ok_def k)
      show "udpgw_io ?g" using udpgw_invD(4) [OF i] q2 by (simp add: udpgw_io_def)
    qed
    ultimately show ?thesis using k r(3) None by simp
  next
    case r': (Some x)
    then obtain f cs where x: "r = Some (f, cs)" by (cases x) auto
    have f: "writer_ok (ug_udpgw_mtu g) (ppf_ainput f)" using r(2) x by simp
    define g1 where "g1 = set_con con (\<lambda>_. \<lparr>uc_conaddr = a, uc_first_flags = flags, uc_first_data = data,
      uc_first_data_len = len, uc_conid = word_of_int n, uc_first_job = True, uc_send_ppflow = f\<rparr>)
      (g\<lparr>ug_next_conid := n, ug_send_queue := q1\<rparr>)"
    have na: "a \<notin> conaddr_of g ` set (ug_list g)" using lookup_conaddr [OF i a(1)] a(2) by simp
    have fl: "set (fq_flows_list q1) = insert con (insert 0 (set (ug_list g)))" using f1 q(3) by auto
    have "fq_output_mtu q1 = ug_pp_mtu g" using f1 q(2) by simp
    note ins = insert_connection_inv [OF i con(2,1) num a(1) na n(2-5) len f q1(2) this fl, of flags, folded g1_def]
    from ins obtain t1 t2 where t: "tree_insert (\<lambda>m k. conaddr_comparator (conaddr_of g1 m) (conaddr_of g1 k)) con (ug_by_conaddr g) = Some t1"
      "tree_insert (\<lambda>m k. uint16_comparator (conid_of g1 m) (conid_of g1 k)) con (ug_by_conid g) = Some t2"
      "udpgw_inv (g1\<lparr>ug_by_conaddr := t1, ug_by_conid := t2, ug_list := ug_list g @ [con],
        ug_num_connections := ug_num_connections g + 1\<rparr>)" by blast
    define g2 where "g2 = g1\<lparr>ug_by_conaddr := t1, ug_by_conid := t2, ug_list := ug_list g @ [con],
      ug_num_connections := ug_num_connections g + 1\<rparr>"
    have g1f: "ug_by_conaddr g1 = ug_by_conaddr g" "ug_by_conid g1 = ug_by_conid g" "ug_list g1 = ug_list g"
      "ug_num_connections g1 = ug_num_connections g" by (simp_all add: g1_def)
    have "connection_init g a flags data len new w (block_alloc fresh) = Some g2"
      using num a len Some n(1) q1(1) r(1) x
      by (simp add: connection_init_def Let_def g1_def [symmetric] t(1,2) g1f g2_def)
    moreover have "conaddr_of g2 = (conaddr_of g)(con := a)" "conid_of g2 = (conid_of g)(con := word_of_int n)"
      by (auto simp: conaddr_of_def conid_of_def g2_def g1_def set_con_def)
    then have "added g g2 con a flags (take (nat len) data)"
      using n(5) unfolding added_def by (auto simp: g2_def g1_def set_con_con Let_def)
    ultimately show ?thesis using t(3) Some r(3) r' unfolding g2_def by simp
  qed
qed

lemma ip_addr_type: "ip_addr a \<Longrightarrow> BAddr_type a = 1 \<or> BAddr_type a = 2"
  by (cases a) auto

text \<open>What \<^verbatim>\<open>UdpGwClient_SubmitPacket\<close> does in its three cases: connection found, table full, new connection.\<close>

definition sent_on :: "UdpGwClient \<Rightarrow> nat \<Rightarrow> bytes \<Rightarrow> udpgw_call list" where
  "sent_on g con p = (if bw_out_have (ppf_ainput (uc_send_ppflow (ug_con g con))) then [UgPacket con p] else [])"

definition submitted :: "UdpGwClient \<Rightarrow> UdpGwClient_conaddr \<Rightarrow> BAddr \<Rightarrow> u8 \<Rightarrow> bytes \<Rightarrow> nat option \<Rightarrow> bytes option \<Rightarrow> UdpGwClient
    \<Rightarrow> udpgw_call list \<Rightarrow> bool" where
  "submitted g a r fl d new fresh g' cs \<longleftrightarrow>
     (case find_connection_by_conaddr g a of
        Some con \<Rightarrow> ug_list g' = remove1 con (ug_list g) @ [con] \<and> conaddr_of g' = conaddr_of g \<and>
          conid_of g' = conid_of g \<and> cs = sent_on g con (udpgw_packet fl (conid_of g con) r d)
      | None \<Rightarrow>
          if ug_num_connections g = ug_max_connections g
          then \<exists>con rest. ug_list g = con # rest \<and> ug_list g' = rest @ [con] \<and> conaddr_of g' = (conaddr_of g)(con := a) \<and>
            conid_of g' = conid_of g \<and> cs = sent_on g con (udpgw_packet (fl OR 2) (conid_of g con) r d)
          else if memory_given g new fresh then cs = [] \<and> (\<exists>con. new = Some con \<and> added g g' con a fl d)
          else cs = [] \<and> ug_list g' = ug_list g \<and> conaddr_of g' = conaddr_of g \<and> conid_of g' = conid_of g)"

lemma submit_ok:
  fixes dns :: bool
  assumes i: "udpgw_inv g" and ip: "ip_addr l" "ip_addr r"
    and new: "\<forall>con. new = Some con \<longrightarrow> con \<noteq> 0 \<and> con \<notin> set (ug_list g)"
    and len: "0 \<le> len" "len \<le> ug_udp_mtu g" "len \<le> int (length data)" and mem: "memory_ok g fresh"
  defines "a \<equiv> \<lparr>ca_local_addr = l, ca_remote_addr = r\<rparr>"
    and "fl \<equiv> (if dns then 4 else 0 :: u8)"
  shows "\<exists>g' cs. UdpGwClient_SubmitPacket g l r dns data len new w (block_alloc fresh) = Some (g', cs) \<and> udpgw_inv g' \<and>
    submitted g a r fl (take (nat len) data) new fresh g' cs"
proof -
  have ty: "BAddr_type l = 1 \<or> BAddr_type l = 2" "BAddr_type r = 1 \<or> BAddr_type r = 2"
    using ip ip_addr_type by auto
  have ia: "ip_conaddr a" using ip by (simp add: ip_conaddr_def a_def)
  note D = UdpGwClient_SubmitPacket_def
  show ?thesis
  proof (cases "find_connection_by_conaddr g a")
    case (Some con)
    then have con: "con \<in> set (ug_list g)" "conaddr_of g con = a" using lookup_conaddr [OF i ia] by simp_all
    let ?g = "move_to_end con g"
    have k: "conaddr_of ?g = conaddr_of g" "conid_of ?g = conid_of g" "ug_con ?g = ug_con g" "ug_udp_mtu ?g = ug_udp_mtu g"
      "con \<in> set (ug_list ?g)" "ug_list ?g = remove1 con (ug_list g) @ [con]"
      by (simp_all add: move_to_end_def conaddr_of_def conid_of_def fun_eq_iff)
    have e: "UdpGwClient_SubmitPacket g l r dns data len new w (block_alloc fresh) = connection_send con fl data len ?g"
      using ty len Some by (simp add: D a_def [symmetric] fl_def)
    from connection_send_inv [OF move_to_end_inv [OF i con(1)] k(5) len(1) _ len(3), of fl] len(2)
    obtain g' cs where c: "connection_send con fl data len ?g = Some (g', cs)" "udpgw_inv g'" "ug_list g' = ug_list ?g"
      "conaddr_of g' = conaddr_of ?g" "conid_of g' = conid_of ?g"
      "cs = (if bw_out_have (ppf_ainput (uc_send_ppflow (ug_con ?g con)))
        then [UgPacket con (udpgw_packet fl (conid_of ?g con) (ca_remote_addr (conaddr_of ?g con)) (take (nat len) data))]
        else [])"
      unfolding k by blast
    have "ca_remote_addr a = r" by (simp add: a_def)
    then show ?thesis using e c Some con(2) k by (simp add: submitted_def sent_on_def)
  next
    case None
    show ?thesis
    proof (cases "ug_num_connections g = ug_max_connections g")
      case True
      have "ug_list g \<noteq> []" using True udpgw_invD(1,2) [OF i] by (auto simp: udpgw_params_def udpgw_tables_def)
      then obtain con rest where l: "ug_list g = con # rest" by (cases "ug_list g") auto
      obtain g1 where g1: "reuse_connection g a = Some (con, g1)" "udpgw_inv g1" "ug_list g1 = ug_list g"
        "conaddr_of g1 = (conaddr_of g)(con := a)" "conid_of g1 = conid_of g" "ug_udp_mtu g1 = ug_udp_mtu g"
        "\<forall>n. uc_send_ppflow (ug_con g1 n) = uc_send_ppflow (ug_con g n)"
        using reuse_connection_ok [OF i ia None l] by blast
      let ?g = "move_to_end con g1"
      have k: "conaddr_of ?g = conaddr_of g1" "conid_of ?g = conid_of g1" "ug_con ?g = ug_con g1" "ug_udp_mtu ?g = ug_udp_mtu g1"
        "con \<in> set (ug_list ?g)" "ug_list ?g = rest @ [con]" "con \<in> set (ug_list g1)"
        using l g1(3) by (simp_all add: move_to_end_def conaddr_of_def conid_of_def fun_eq_iff)
      have e: "UdpGwClient_SubmitPacket g l r dns data len new w (block_alloc fresh) =
        connection_send con (fl OR 2) data len ?g"
        using ty len None True g1(1) by (simp add: D a_def [symmetric] fl_def)
      from connection_send_inv [OF move_to_end_inv [OF g1(2) k(7)] k(5) len(1) _ len(3), of "fl OR 2"] len(2) g1(6)
      obtain g' cs where c: "connection_send con (fl OR 2) data len ?g = Some (g', cs)" "udpgw_inv g'" "ug_list g' = ug_list ?g"
        "conaddr_of g' = conaddr_of ?g" "conid_of g' = conid_of ?g"
        "cs = (if bw_out_have (ppf_ainput (uc_send_ppflow (ug_con ?g con)))
          then [UgPacket con (udpgw_packet (fl OR 2) (conid_of ?g con) (ca_remote_addr (conaddr_of ?g con)) (take (nat len) data))]
          else [])"
        unfolding k by auto
      have "ca_remote_addr a = r" by (simp add: a_def)
      then show ?thesis using e c None True l k g1 by (simp add: submitted_def sent_on_def)
    next
      case False
      have num: "ug_num_connections g < ug_max_connections g" using False udpgw_invD(2) [OF i] by (simp add: udpgw_tables_def)
      have e: "UdpGwClient_SubmitPacket g l r dns data len new w (block_alloc fresh) =
        map_option (\<lambda>g. (g, [])) (connection_init g a fl data len new w (block_alloc fresh))"
        using ty len None False by (simp add: D a_def [symmetric] fl_def)
      show ?thesis using connection_init_ok [OF i num ia None new len mem, of fl w] e None False by (auto simp: submitted_def)
    qed
  qed
qed

section \<open>Receiving\<close>

text \<open>A packet of the server as the client reads it: the remote address and the payload.\<close>

lemma parse_addr_image:
  assumes "ip_addr a" "length (addr_image a) \<le> nat n" "int (length d) = n"
    and "(flags AND 8 \<noteq> 0) = (BAddr_type a = 2)" "take (length (addr_image a)) d = addr_image a"
  shows "parse_addr flags d n = Some (Some (a, drop (length (addr_image a)) d, n - int (length (addr_image a))))"
proof (cases a)
  case (BAddr_IPV4 ip port)
  then have "take 6 d = addr_ipv4_image \<lparr>a4_ip = ip, a4_port = port\<rparr>" "6 \<le> length d" "flags AND 8 = 0"
    using assms by (simp_all add: codec_simps)
  then show ?thesis using assms BAddr_IPV4 udpgw_addr4.dec_enc
    by (simp add: parse_addr_def mem_read_def udpgw_addr4.length_enc BAddr_InitIPv4_def)
next
  case (BAddr_IPV6 ip port)
  then have l: "length ip = 16" using assms(1) by simp
  then have "take 18 d = addr_ipv6_image \<lparr>a6_ip = ip, a6_port = port\<rparr>" "18 \<le> length d" "flags AND 8 \<noteq> 0"
    using assms BAddr_IPV6 by (simp_all add: codec_simps)
  then show ?thesis using assms BAddr_IPV6 l udpgw_addr6.dec_enc [of "\<lparr>a6_ip = ip, a6_port = port\<rparr>"]
    by (simp add: parse_addr_def mem_read_def udpgw_addr6.length_enc BAddr_InitIPv6_def)
qed (use assms in simp_all)

lemma parse_addr_ok:
  assumes "int (length d) = n"
  shows "\<exists>r. parse_addr flags d n = Some r \<and>
    (case r of None \<Rightarrow> True | Some (a, d', n') \<Rightarrow> ip_addr a \<and> int (length d') = n' \<and> 0 \<le> n')"
  using assms by (auto simp: parse_addr_def mem_read_def BAddr_InitIPv6_def BAddr_InitIPv4_def codec_simps Let_def)

lemma move_to_end_server [simp]: "ug_have_server (move_to_end con g) = ug_have_server g"
  by (simp add: move_to_end_def)

lemma receive_ok:
  assumes i: "udpgw_inv g" and en: "ug_have_server g" "int (length d) \<le> ug_udpgw_mtu g"
  shows "\<exists>g' cs. recv_interface_handler_send g d (int (length d)) = Some (g', cs) \<and> udpgw_inv g' \<and>
    conaddr_of g' = conaddr_of g \<and> conid_of g' = conid_of g \<and> set (ug_list g') = set (ug_list g) \<and>
    ug_have_server g' = ug_have_server g \<and> ug_udp_mtu g' = ug_udp_mtu g \<and>
    (cs = [UgRecvDone] \<or> (\<exists>con \<in> set (ug_list g). \<exists>p. int (length p) \<le> ug_udp_mtu g \<and>
       cs = [UgRecvDone, UgReceived (ca_local_addr (conaddr_of g con)) (ca_remote_addr (conaddr_of g con)) p]))"
proof (cases "length d < 3")
  case True
  then show ?thesis using en i by (auto simp: recv_interface_handler_send_def)
next
  case False
  let ?h = "udpgw_header_of (take 3 d)"
  obtain r where r: "parse_addr (ltoh8 (uh_flags ?h)) (drop 3 d) (int (length d) - 3) = Some r"
    "case r of None \<Rightarrow> True | Some (a, d', n') \<Rightarrow> ip_addr a \<and> int (length d') = n' \<and> 0 \<le> n'"
    using parse_addr_ok [of "drop 3 d" "int (length d) - 3" "ltoh8 (uh_flags ?h)"] False by auto
  note D = recv_interface_handler_send_def mem_read_def Let_def
  show ?thesis
  proof (cases r)
    case None
    then show ?thesis using en i False r by (auto simp: D)
  next
    case (Some x)
    obtain a d' n' where x: "r = Some (a, d', n')" using Some by (cases x) auto
    let ?find = "find_connection_by_conid g (ltoh16 (uh_conid ?h))"
    show ?thesis
    proof (cases "n' > ug_udp_mtu g \<or> ?find = None \<or>
        (\<exists>con. ?find = Some con \<and> BAddr_CompareOrder (ca_remote_addr (conaddr_of g con)) a \<noteq> 0)")
      case True
      then have "recv_interface_handler_send g d (int (length d)) = Some (g, [UgRecvDone])"
        using en False r(1) x by (auto simp: D split: option.split)
      then show ?thesis using i by auto
    next
      case ok: False
      then obtain con where con: "?find = Some con" "BAddr_CompareOrder (ca_remote_addr (conaddr_of g con)) a = 0"
        "n' \<le> ug_udp_mtu g" by auto
      have mem: "con \<in> set (ug_list g)" using lookup_conid [OF i, of "ltoh16 (uh_conid ?h)"] con(1) by simp
      have k: "conaddr_of (move_to_end con g) = conaddr_of g" "conid_of (move_to_end con g) = conid_of g"
        "set (ug_list (move_to_end con g)) = set (ug_list g)"
        using mem udpgw_invD(2) [OF i]
        by (auto simp: move_to_end_def conaddr_of_def conid_of_def fun_eq_iff udpgw_tables_def)
      have len: "int (length d') = n'" "0 \<le> n'" using r(2) x by auto
      have "recv_interface_handler_send g d (int (length d)) = Some (move_to_end con g,
          [UgRecvDone, UgReceived (ca_local_addr (conaddr_of g con)) (ca_remote_addr (conaddr_of g con)) d'])"
        using en False r x con len by (auto simp: D k)
      then show ?thesis using move_to_end_inv [OF i mem] k mem con(3) len by (auto simp: move_to_end_def)
    qed
  qed
qed

section \<open>The client as a machine\<close>

text \<open>
  The user submits packets and connects or disconnects the server; the first job of a connection runs
  while it is pending; the encoder of a connection asks its writer for a packet; the decoder passes a
  packet or reports an error; the monitor fires, the keep-alive packet is done; the queue and the
  connector behind it serve their flows in any order their interfaces allow. The trace collects the
  calls.
\<close>

datatype udpgw_event =
    UeSubmit BAddr BAddr bool bytes "nat option" BufferWriter "bytes option"
  | UeFirstJob nat | UeRefill nat bytes | UeReceive bytes | UeDecoderError | UeMonitor bool | UeKeepaliveDone
  | UeConnect PacketStreamSender "bytes option" | UeDisconnect
  | UeQueuePacket nat bytes | UeQueueDone | UeQueueJob | UeConnectorIn bytes | UeConnectorDone

definition refill :: "nat \<Rightarrow> bytes \<Rightarrow> UdpGwClient \<Rightarrow> UdpGwClient option" where
  "refill con d g = do {
     w \<leftarrow> BufferWriter_output_handler_recv (ppf_ainput (uc_send_ppflow (ug_con g con))) d;
     Some (set_con con (\<lambda>c. c\<lparr>uc_send_ppflow := (uc_send_ppflow c)\<lparr>ppf_ainput := w\<rparr>\<rparr>) g)
   }"

definition on_queue :: "(PacketPassFairQueue \<times> fairqueue_call list) option \<Rightarrow> UdpGwClient \<Rightarrow> udpgw_result" where
  "on_queue r g = map_option (\<lambda>(q, _). (g\<lparr>ug_send_queue := q\<rparr>, [])) r"

definition on_connector :: "(PacketPassConnector \<times> connector_call list) option \<Rightarrow> UdpGwClient \<Rightarrow> udpgw_result" where
  "on_connector r g = map_option (\<lambda>(c, cs). (g\<lparr>ug_send_connector := c\<rparr>, map UgConnector cs)) r"

definition quiet :: "UdpGwClient option \<Rightarrow> udpgw_result" where
  "quiet r = map_option (\<lambda>g. (g, [])) r"

fun udpgw_react :: "UdpGwClient \<Rightarrow> udpgw_event \<Rightarrow> udpgw_result" where
  "udpgw_react g (UeSubmit l r dns d new w fresh) =
     UdpGwClient_SubmitPacket g l r dns d (int (length d)) new w (block_alloc fresh)"
| "udpgw_react g (UeFirstJob con) = connection_first_job_handler con g"
| "udpgw_react g (UeRefill con d) = quiet (refill con d g)"
| "udpgw_react g (UeReceive d) = recv_interface_handler_send g d (int (length d))"
| "udpgw_react g UeDecoderError = decoder_handler_error g"
| "udpgw_react g (UeMonitor psiphon) = send_monitor_handler psiphon g"
| "udpgw_react g UeKeepaliveDone = quiet (keepalive_if_handler_done g)"
| "udpgw_react g (UeConnect sender fresh) =
     map_option (\<lambda>(_, g, cs). (g, cs)) (UdpGwClient_ConnectServer g sender (\<lambda>n. realloc_block fresh None (nat n)))"
| "udpgw_react g UeDisconnect = quiet (UdpGwClient_DisconnectServer g)"
| "udpgw_react g (UeQueuePacket f d) = on_queue (FairQueue_input_handler_send (ug_send_queue g) f d (int (length d))) g"
| "udpgw_react g UeQueueDone = on_queue (FairQueue_output_handler_done (ug_send_queue g)) g"
| "udpgw_react g UeQueueJob = on_queue (schedule_job_handler (ug_send_queue g)) g"
| "udpgw_react g (UeConnectorIn d) = on_connector (Connector_input_handler_send (ug_send_connector g) d (int (length d))) g"
| "udpgw_react g UeConnectorDone = on_connector (Connector_output_handler_done (ug_send_connector g)) g"

fun udpgw_allowed :: "UdpGwClient \<Rightarrow> udpgw_event \<Rightarrow> bool" where
  "udpgw_allowed g (UeSubmit l r dns d new w fresh) \<longleftrightarrow> ip_addr l \<and> ip_addr r \<and> int (length d) \<le> ug_udp_mtu g \<and>
     (case new of None \<Rightarrow> True | Some con \<Rightarrow> con \<noteq> 0 \<and> con \<notin> set (ug_list g)) \<and> memory_ok g fresh"
| "udpgw_allowed g (UeFirstJob con) \<longleftrightarrow> con \<in> set (ug_list g) \<and> uc_first_job (ug_con g con)"
| "udpgw_allowed g (UeRefill con d) \<longleftrightarrow> con \<in> set (ug_list g) \<and> ug_udpgw_mtu g \<le> int (length d) \<and>
     \<not> bw_out_have (ppf_ainput (uc_send_ppflow (ug_con g con)))"
| "udpgw_allowed g (UeReceive d) \<longleftrightarrow> ug_have_server g \<and> int (length d) \<le> ug_udpgw_mtu g"
| "udpgw_allowed g UeDecoderError \<longleftrightarrow> ug_have_server g"
| "udpgw_allowed g (UeMonitor psiphon) \<longleftrightarrow> True"
| "udpgw_allowed g UeKeepaliveDone \<longleftrightarrow> ug_keepalive_sending g"
| "udpgw_allowed g (UeConnect sender fresh) \<longleftrightarrow> \<not> ug_have_server g"
| "udpgw_allowed g UeDisconnect \<longleftrightarrow> ug_have_server g"
| "udpgw_allowed g (UeQueuePacket f d) \<longleftrightarrow> fq_enabled (ug_send_queue g, []) (FqPacket f d)"
| "udpgw_allowed g UeQueueDone \<longleftrightarrow> fq_enabled (ug_send_queue g, []) FqOutputDone"
| "udpgw_allowed g UeQueueJob \<longleftrightarrow> fq_enabled (ug_send_queue g, []) FqJob"
| "udpgw_allowed g (UeConnectorIn d) \<longleftrightarrow> pc_in_len (ug_send_connector g) = -1 \<and> int (length d) \<le> ug_pp_mtu g"
| "udpgw_allowed g UeConnectorDone \<longleftrightarrow> 0 \<le> pc_in_len (ug_send_connector g) \<and> ug_have_server g"

type_synonym udpgw_run = "UdpGwClient \<times> udpgw_call list"

definition udpgw_step :: "udpgw_run \<Rightarrow> udpgw_event \<Rightarrow> udpgw_run option" where
  "udpgw_step s e = map_option (\<lambda>(g, cs). (g, snd s @ cs)) (udpgw_react (fst s) e)"

definition udpgw_enabled :: "udpgw_run \<Rightarrow> udpgw_event \<Rightarrow> bool" where
  "udpgw_enabled s e = udpgw_allowed (fst s) e"

definition reacts :: "UdpGwClient \<Rightarrow> udpgw_event \<Rightarrow> bool" where
  "reacts g e \<longleftrightarrow> (\<exists>g' cs. udpgw_react g e = Some (g', cs) \<and> udpgw_inv g')"

lemma queue_replaced:
  assumes i: "udpgw_inv g" and q: "fq_inv q" "fq_output_mtu q = fq_output_mtu (ug_send_queue g)"
    "fq_flows_list q = fq_flows_list (ug_send_queue g)"
  shows "udpgw_inv (g\<lparr>ug_send_queue := q\<rparr>)"
proof -
  let ?g = "g\<lparr>ug_send_queue := q\<rparr>"
  have k: "conaddr_of ?g = conaddr_of g" "conid_of ?g = conid_of g" by (simp_all add: conaddr_of_def conid_of_def fun_eq_iff)
  show ?thesis
  proof (rule udpgw_invI)
    show "udpgw_params ?g" using udpgw_invD(1) [OF i] by (simp add: udpgw_params_def)
    show "udpgw_tables ?g" using udpgw_invD(2) [OF i] by (simp add: udpgw_tables_def k)
    show "\<forall>m \<in> set (ug_list ?g). con_ok ?g m" using udpgw_invD(3) [OF i] by (simp add: con_ok_def k)
    show "udpgw_io ?g" using udpgw_invD(4) [OF i] q by (simp add: udpgw_io_def)
  qed
qed

lemma io_replaced:
  assumes i: "udpgw_inv g" and io: "udpgw_io g'" and eq: "g' = g\<lparr>ug_send_connector := c, ug_have_server := h,
    ug_recv_decoder := d, ug_send_sender := sn, ug_keepalive_sending := k\<rparr>"
  shows "udpgw_inv g'"
proof -
  have k: "conaddr_of g' = conaddr_of g" "conid_of g' = conid_of g"
    by (simp_all add: conaddr_of_def conid_of_def fun_eq_iff eq)
  show ?thesis
  proof (rule udpgw_invI [OF _ _ _ io])
    show "udpgw_params g'" using udpgw_invD(1) [OF i] by (simp add: udpgw_params_def eq)
    show "udpgw_tables g'" using udpgw_invD(2) [OF i] unfolding udpgw_tables_def k by (simp add: eq)
    show "\<forall>m \<in> set (ug_list g'). con_ok g' m" using udpgw_invD(3) [OF i] unfolding con_ok_def k by (simp add: eq)
  qed
qed

lemma queue_reacts:
  assumes i: "udpgw_inv g" and en: "fq_enabled (ug_send_queue g, []) e"
    and r: "fq_step (ug_send_queue g, []) e = fq_log [] r"
    and f: "\<forall>q cs. r = Some (q, cs) \<longrightarrow> fq_flows_list q = fq_flows_list (ug_send_queue g) \<and>
      fq_output_mtu q = fq_output_mtu (ug_send_queue g)"
  shows "\<exists>g' cs. on_queue r g = Some (g', cs) \<and> udpgw_inv g'"
proof -
  have "fq_inv (ug_send_queue g)" using udpgw_invD(4) [OF i] by (simp add: udpgw_io_def)
  then obtain s' where s: "fq_log [] r = Some s'" "fq_inv (fst s')"
    using fq_step_inv [of "(ug_send_queue g, [])" e] en r by (metis fst_conv)
  then obtain q cs where q: "r = Some (q, cs)" "fq_inv q" by (auto simp: fq_log_def)
  then have "fq_flows_list q = fq_flows_list (ug_send_queue g)" "fq_output_mtu q = fq_output_mtu (ug_send_queue g)"
    using f by blast+
  then show ?thesis using queue_replaced [OF i q(2)] q(1) by (simp add: on_queue_def)
qed

lemma refill_reacts:
  assumes i: "udpgw_inv g" and en: "udpgw_allowed g (UeRefill con d)"
  shows "reacts g (UeRefill con d)"
proof -
  let ?w = "ppf_ainput (uc_send_ppflow (ug_con g con))"
  define u :: "UdpGwClient_connection \<Rightarrow> UdpGwClient_connection"
    where "u = (\<lambda>c. c\<lparr>uc_send_ppflow := (uc_send_ppflow c)\<lparr>ppf_ainput := ?w\<lparr>bw_out_have := True, bw_out := d\<rparr>\<rparr>\<rparr>)"
  have con: "con \<in> set (ug_list g)" "\<not> bw_out_have ?w" "ug_udpgw_mtu g \<le> int (length d)" using en by simp_all
  have "con_ok g con" using udpgw_invD(3) [OF i] con by blast
  then have "con_ok (set_con con u g) con"
    using con by (auto simp: con_ok_def conaddr_of_def conid_of_def set_con_con u_def writer_ok_def Let_def)
  then have "udpgw_inv (set_con con u g)"
    using i by (intro set_con_inv) (simp_all add: u_def conaddr_of_def conid_of_def)
  moreover have "refill con d g = Some (set_con con u g)"
    using con by (simp add: refill_def BufferWriter_output_handler_recv_def u_def)
  ultimately show ?thesis by (simp add: reacts_def quiet_def)
qed

lemma first_job_reacts:
  assumes i: "udpgw_inv g" and en: "udpgw_allowed g (UeFirstJob con)"
  shows "reacts g (UeFirstJob con)"
proof -
  let ?u = "\<lambda>c. c\<lparr>uc_first_job := False\<rparr>"
  let ?g = "set_con con ?u g" and ?c = "ug_con g con"
  have con: "con \<in> set (ug_list g)" using en by simp
  then have ok: "con_ok g con" using udpgw_invD(3) [OF i] by blast
  then have "con_ok ?g con" by (simp add: con_ok_def conaddr_of_def conid_of_def set_con_con Let_def)
  then have i': "udpgw_inv ?g" using i by (intro set_con_inv) (simp_all add: conaddr_of_def conid_of_def)
  have len: "0 \<le> uc_first_data_len ?c" "uc_first_data_len ?c \<le> ug_udp_mtu ?g" "uc_first_data_len ?c \<le> int (length (uc_first_data ?c))"
    using ok by (simp_all add: con_ok_def Let_def)
  have m: "con \<in> set (ug_list ?g)" using con by simp
  from connection_send_inv [OF i' m len, of "2 OR uc_first_flags ?c"]
  show ?thesis by (auto simp: reacts_def connection_first_job_handler_def Let_def)
qed

lemma decoder_init_returns: "\<exists>r. PacketProtoDecoder_Init mtu alloc = Some r"
  by (simp add: PacketProtoDecoder_Init_def Let_def split: option.split)

lemma udpgw_reacts:
  assumes i: "udpgw_inv g" and en: "udpgw_allowed g e"
  shows "reacts g e"
proof -
  note io = udpgw_invD(4) [OF i, unfolded udpgw_io_def Let_def]
  note p = udpgw_invD(1) [OF i, unfolded udpgw_params_def]
  show ?thesis
  proof (cases e)
    case (UeSubmit l r dns d new w fresh)
    then have "\<forall>con. new = Some con \<longrightarrow> con \<noteq> 0 \<and> con \<notin> set (ug_list g)" "ip_addr l" "ip_addr r" "int (length d) \<le> ug_udp_mtu g"
      "memory_ok g fresh" using en by (auto split: option.splits)
    then show ?thesis using submit_ok [OF i, of l r new "int (length d)" d fresh dns w] UeSubmit
      by (auto simp: reacts_def)
  next
    case (UeReceive d)
    then show ?thesis using receive_ok [OF i, of d] en by (auto simp: reacts_def)
  next
    case (UeMonitor psiphon)
    have "udpgw_inv (g\<lparr>ug_keepalive_sending := True\<rparr>)"
      by (rule io_replaced [OF i, where c = "ug_send_connector g" and h = "ug_have_server g" and d = "ug_recv_decoder g"
          and sn = "ug_send_sender g" and k = True]) (use io in \<open>simp_all add: udpgw_io_def\<close>)
    then show ?thesis using UeMonitor i by (simp add: reacts_def send_monitor_handler_def)
  next
    case UeKeepaliveDone
    have "udpgw_inv (g\<lparr>ug_keepalive_sending := False\<rparr>)"
      by (rule io_replaced [OF i, where c = "ug_send_connector g" and h = "ug_have_server g" and d = "ug_recv_decoder g"
          and sn = "ug_send_sender g" and k = False]) (use io in \<open>simp_all add: udpgw_io_def\<close>)
    then show ?thesis using UeKeepaliveDone en by (simp add: reacts_def keepalive_if_handler_done_def quiet_def)
  next
    case (UeConnect sender fresh)
    let ?dec = "PacketProtoDecoder_Init (ug_udpgw_mtu g) (\<lambda>n. realloc_block fresh None (nat n))"
    obtain ok dec cs where dec: "?dec = Some (ok, dec, cs)"
      using decoder_init_returns [of "ug_udpgw_mtu g"] by (metis prod_cases3)
    define c' where "c' = (ug_send_connector g)\<lparr>pc_output := Some (ug_pp_mtu g)\<rparr>"
    have "\<exists>cs'. PacketPassConnector_ConnectOutput (ug_send_connector g) (ug_pp_mtu g) = Some (c', cs')"
      using io UeConnect en by (auto simp: PacketPassConnector_ConnectOutput_def mem_read_def c'_def Let_def)
    then obtain cs' where con: "PacketPassConnector_ConnectOutput (ug_send_connector g) (ug_pp_mtu g) = Some (c', cs')" by blast
    let ?g = "g\<lparr>ug_recv_decoder := dec, ug_send_sender := sender\<lparr>pss_in_len := -1\<rparr>, ug_send_connector := c', ug_have_server := True\<rparr>"
    have "udpgw_inv ?g"
      by (rule io_replaced [OF i, where c = c' and h = True and d = dec and sn = "sender\<lparr>pss_in_len := -1\<rparr>"
          and k = "ug_keepalive_sending g"]) (use io in \<open>simp_all add: udpgw_io_def c'_def\<close>)
    then show ?thesis using UeConnect en dec con p i
      by (auto simp: reacts_def UdpGwClient_ConnectServer_def PacketStreamSender_Init_def)
  next
    case UeDisconnect
    let ?c = "(ug_send_connector g)\<lparr>pc_output := None\<rparr>"
    have "udpgw_inv (g\<lparr>ug_send_connector := ?c, ug_have_server := False\<rparr>)"
      by (rule io_replaced [OF i, where c = ?c and h = False and d = "ug_recv_decoder g"
          and sn = "ug_send_sender g" and k = "ug_keepalive_sending g"]) (use io in \<open>simp_all add: udpgw_io_def\<close>)
    then show ?thesis using UeDisconnect en io
      by (simp add: reacts_def UdpGwClient_DisconnectServer_def free_server_def PacketPassConnector_DisconnectOutput_def quiet_def)
  next
    case (UeQueuePacket f d)
    then show ?thesis
      using queue_reacts [OF i, of "FqPacket f d"] serve_fields(1) en by (simp add: reacts_def) blast
  next
    case UeQueueDone
    then show ?thesis
      using queue_reacts [OF i, of FqOutputDone] serve_fields(3) en by (simp add: reacts_def) blast
  next
    case UeQueueJob
    then show ?thesis
      using queue_reacts [OF i, of FqJob] serve_fields(2) en by (simp add: reacts_def) blast
  next
    case (UeConnectorIn d)
    let ?c = "(ug_send_connector g)\<lparr>pc_in_len := int (length d), pc_in := d\<rparr>"
    have "udpgw_inv (g\<lparr>ug_send_connector := ?c\<rparr>)"
      by (rule io_replaced [OF i, where c = ?c and h = "ug_have_server g" and d = "ug_recv_decoder g"
          and sn = "ug_send_sender g" and k = "ug_keepalive_sending g"]) (use io in \<open>simp_all add: udpgw_io_def\<close>)
    then show ?thesis using UeConnectorIn en io
      by (auto simp: reacts_def on_connector_def Connector_input_handler_send_def mem_read_def)
  next
    case UeConnectorDone
    let ?c = "(ug_send_connector g)\<lparr>pc_in_len := -1\<rparr>"
    have "udpgw_inv (g\<lparr>ug_send_connector := ?c\<rparr>)"
      by (rule io_replaced [OF i, where c = ?c and h = "ug_have_server g" and d = "ug_recv_decoder g"
          and sn = "ug_send_sender g" and k = "ug_keepalive_sending g"]) (use io in \<open>simp_all add: udpgw_io_def\<close>)
    then show ?thesis using UeConnectorDone en io
      by (auto simp: reacts_def on_connector_def Connector_output_handler_done_def)
  qed (use i en first_job_reacts refill_reacts in \<open>auto simp: reacts_def decoder_handler_error_def\<close>)
qed

definition udpgw_start :: "udpgw_run \<Rightarrow> bool" where
  "udpgw_start s \<longleftrightarrow> snd s = [] \<and> (\<exists>raw udp_mtu maxc sbs ka. sbs \<le> INT_MAX \<and> udp_mtu \<le> INT_MAX \<and>
     UdpGwClient_Init raw udp_mtu maxc sbs ka = Some (1, fst s))"

lemma udpgw_Init_inv:
  assumes init: "UdpGwClient_Init raw m maxc sz ka = Some (1, g)" and b: "sz \<le> INT_MAX" "m \<le> INT_MAX"
  shows "udpgw_inv g"
proof -
  have m: "0 \<le> m" "udpgw_compute_mtu m \<ge> 0" "udpgw_compute_mtu m \<le> 65535" "0 < maxc" "0 < sz"
    using init by (auto simp: UdpGwClient_Init_def)
  then have u: "udpgw_compute_mtu m = m + 21" using udpgw_compute_mtu_eq [OF b(2)] by (simp split: if_splits)
  obtain q0 where q0: "PacketPassFairQueue_Init (23 + m) False False 1 (fq_flows (ug_send_queue raw)) = Some (1, q0)"
    and f0: "fq_flows_list q0 = []" "fq_output_mtu q0 = 23 + m"
    using fq_Init_succeeds [of "23 + m" 1 False False "fq_flows (ug_send_queue raw)"] m u by auto
  have i0: "fq_inv q0" using fq_Init_inv [OF q0] .
  obtain q1 where q1: "PacketPassFairQueueFlow_Init 0 q0 = Some q1" "fq_inv q1"
    using flow_init_step [OF i0, of 0] f0 by auto
  note f1 = init_flow_fields [OF q1(1)]
  have g: "g = raw\<lparr>ug_udp_mtu := m, ug_max_connections := min maxc 65536, ug_send_buffer_size := sz, ug_keepalive_time := ka,
      ug_udpgw_mtu := m + 21, ug_pp_mtu := 23 + m, ug_by_conaddr := [], ug_by_conid := [], ug_list := [],
      ug_num_connections := 0, ug_next_conid := 0,
      ug_send_connector := (ug_send_connector raw)\<lparr>pc_input_mtu := 23 + m, pc_in_len := -1, pc_output := None\<rparr>,
      ug_send_monitor := PacketPassInactivityMonitor_Init False ka True,
      ug_keepalive_packet := mem16 3 @ udpgw_header_image \<lparr>uh_flags = 1, uh_conid = 0\<rparr>,
      ug_send_queue := q1, ug_keepalive_sending := False, ug_have_server := False\<rparr>"
    using init m u q0 q1(1)
    by (cases "maxc > 65536") (auto simp: UdpGwClient_Init_def PacketPassConnector_Init_def Let_def)
  show ?thesis
  proof (rule udpgw_invI)
    show "udpgw_params g" using m u b by (simp add: g udpgw_params_def)
    show "udpgw_tables g" using m by (simp add: g udpgw_tables_def ordered_by_def)
    show "\<forall>con \<in> set (ug_list g). con_ok g con" by (simp add: g)
    show "udpgw_io g" using q1(2) f1 f0 by (simp add: g udpgw_io_def)
  qed
qed

interpretation udpgw: machine udpgw_start udpgw_step udpgw_enabled "\<lambda>s. udpgw_inv (fst s)"
proof
  show "udpgw_inv (fst s)" if "udpgw_start s" for s
    using that udpgw_Init_inv by (auto simp: udpgw_start_def)
  show "\<exists>s'. udpgw_step s e = Some s' \<and> udpgw_inv (fst s')" if "udpgw_inv (fst s)" "udpgw_enabled s e" for s e
    using udpgw_reacts [of "fst s" e] that by (auto simp: udpgw_step_def udpgw_enabled_def reacts_def)
qed

section \<open>Freeing the client\<close>

definition closing :: "UdpGwClient \<Rightarrow> bool" where
  "closing g \<longleftrightarrow> fq_closing (ug_send_queue g) \<and> distinct (ug_list g) \<and> 0 \<notin> set (ug_list g) \<and>
     set (fq_flows_list (ug_send_queue g)) = insert 0 (set (ug_list g)) \<and>
     ug_num_connections g = int (length (ug_list g)) \<and>
     (pc_output (ug_send_connector g) \<noteq> None) = ug_have_server g"

lemma connection_free_closing:
  assumes c: "closing g" and l: "ug_list g = con # rest"
  shows "\<exists>g'. udpgw_connection_free con g = Some g' \<and> closing g' \<and> ug_list g' = rest"
proof -
  have cl: "fq_closing (ug_send_queue g)" and mem: "con \<in> set (fq_flows_list (ug_send_queue g))"
    and d: "distinct (con # rest)" and f: "set (fq_flows_list (ug_send_queue g)) = insert 0 (set (con # rest))"
    using c l by (simp_all add: closing_def)
  obtain q where q: "PacketPassFairQueueFlow_Free con (ug_send_queue g) = Some q" "fq_closing q"
    "fq_flows_list q = remove1 con (fq_flows_list (ug_send_queue g))"
    using flow_free_closing [OF cl mem] by blast
  have "fq_freeing (ug_send_queue g)" "distinct (fq_flows_list (ug_send_queue g))" using cl by (simp_all add: fq_closing_def)
  then have "set (fq_flows_list q) = insert 0 (set rest)"
    using q(3) f d c l by (auto simp: closing_def)
  then show ?thesis
    using q c l d \<open>fq_freeing (ug_send_queue g)\<close>
    by (auto simp: udpgw_connection_free_def PacketPassFairQueueFlow_AssertFree_def closing_def set_con_def)
qed

lemma free_connections_returns:
  assumes "closing g"
  shows "\<exists>g'. free_connections g = Some g' \<and> closing g' \<and> ug_list g' = []"
  using assms
proof (induction "ug_list g" arbitrary: g)
  case Nil
  then show ?case by (subst free_connections.simps) auto
next
  case (Cons con rest)
  from connection_free_closing [OF Cons.prems, of con rest] Cons.hyps(2)
  obtain g1 where g1: "udpgw_connection_free con g = Some g1" "closing g1" "ug_list g1 = rest" by auto
  then show ?case using Cons.hyps(1) [of g1] Cons.hyps(2) [symmetric]
    by (subst free_connections.simps) simp
qed

lemma distinct_single: "distinct xs \<Longrightarrow> set xs = {x} \<Longrightarrow> xs = [x]"
  by (cases xs; cases "tl xs") auto

lemma udpgw_Free_returns:
  assumes i: "udpgw_inv g"
  shows "\<exists>g'. UdpGwClient_Free g = Some g' \<and> ug_list g' = [] \<and> ug_num_connections g' = 0"
proof -
  note io = udpgw_invD(4) [OF i, unfolded udpgw_io_def Let_def]
  let ?g = "g\<lparr>ug_send_queue := PacketPassFairQueue_PrepareFree (ug_send_queue g)\<rparr>"
  have "0 \<notin> set (ug_list g)" using udpgw_invD(3) [OF i] by (auto simp: con_ok_def)
  then have "closing ?g"
    using io prepare_free_closing udpgw_invD(2) [OF i]
    by (simp add: closing_def udpgw_tables_def PacketPassFairQueue_PrepareFree_def)
  from free_connections_returns [OF this]
  obtain g1 where g1: "free_connections ?g = Some g1" "closing g1" "ug_list g1 = []" by blast
  let ?g2 = "if ug_have_server g1 then g1\<lparr>ug_send_connector := (ug_send_connector g1)\<lparr>pc_output := None\<rparr>\<rparr> else g1"
  have g2: "(if ug_have_server g1 then free_server g1 else Some g1) = Some ?g2"
    using g1(2) by (auto simp: free_server_def PacketPassConnector_DisconnectOutput_def closing_def)
  have q: "fq_closing (ug_send_queue g1)" "set (fq_flows_list (ug_send_queue g1)) = {0}"
    using g1 by (simp_all add: closing_def)
  then have "distinct (fq_flows_list (ug_send_queue g1))" by (simp add: fq_closing_def)
  with q(2) have fl: "fq_flows_list (ug_send_queue g1) = [0]"
    by (intro distinct_single)
  obtain q1 where q1: "PacketPassFairQueueFlow_Free 0 (ug_send_queue g1) = Some q1" "fq_closing q1" "fq_flows_list q1 = []"
    using flow_free_closing [OF q(1), of 0] fl by auto
  obtain q2 where "PacketPassFairQueue_Free q1 = Some q2" using queue_free_closing [OF q1(2,3)] by blast
  moreover have "ug_send_queue ?g2 = ug_send_queue g1" "ug_list ?g2 = []" "ug_num_connections ?g2 = 0"
    using g1(2,3) by (simp_all add: closing_def)
  moreover have "ug_num_connections g1 = 0" using g1(2,3) by (simp add: closing_def)
  ultimately show ?thesis using g1(1,3) g2 q1(1) by (simp add: UdpGwClient_Free_def)
qed

section \<open>Properties\<close>

text \<open>
  C25. The udpgw client never trips an assertion and never touches memory outside its packets, whatever
  the user, the server and the allocators do, as long as no send buffer of more than 2 GiB is allocated: its two trees and the list always describe the same
  connections, never more than the limit, with pairwise different addresses and pairwise different
  identifiers; and at any moment \<^verbatim>\<open>UdpGwClient_Free\<close> returns with every connection gone.
\<close>

theorem udpgw_client_safe:
  assumes "UdpGwClient_Init raw udp_mtu max_connections send_buffer_size ka = Some (1, g)"
    and "udp_mtu \<le> INT_MAX" "send_buffer_size \<le> INT_MAX"
    and "admissible udpgw_enabled udpgw_step (g, []) es"
  shows "\<exists>g' tr. exec udpgw_step (g, []) es = Some (g', tr) \<and>
    distinct (ug_list g') \<and> int (length (ug_list g')) \<le> ug_max_connections g' \<and>
    set (ug_by_conaddr g') = set (ug_list g') \<and> set (ug_by_conid g') = set (ug_list g') \<and>
    inj_on (conaddr_of g') (set (ug_list g')) \<and> inj_on (conid_of g') (set (ug_list g')) \<and>
    (\<exists>h. UdpGwClient_Free g' = Some h \<and> ug_list h = [] \<and> ug_num_connections h = 0)"
proof -
  have "udpgw_start (g, [])" unfolding udpgw_start_def fst_conv snd_conv using assms(1-3) by blast
  from udpgw.run_safe [OF this assms(4)]
  obtain g' tr where r: "exec udpgw_step (g, []) es = Some (g', tr)" and i: "udpgw_inv g'" by auto
  note t = udpgw_invD(2) [OF i, unfolded udpgw_tables_def]
  have "inj_on (conaddr_of g') (set (ug_by_conaddr g'))"
    by (rule conaddr_order.ordered_distinct) (use t udpgw_invD(3) [OF i] in \<open>auto simp: con_ok_def\<close>)
  moreover have "inj_on (conid_of g') (set (ug_by_conid g'))"
    by (rule conid_order.ordered_distinct) (use t in auto)
  ultimately show ?thesis using r t udpgw_Free_returns [OF i] by auto
qed

text \<open>
  The run on which the witnesses evaluate: at most one connection; the second packet, from another local
  port, reuses it, and the server answers.
\<close>

definition writer0 :: BufferWriter where
  "writer0 = \<lparr>bw_out_have = False, bw_out = [], bw_mtu = 0, bw_writing = False\<rparr>"

definition con0 :: UdpGwClient_connection where
  "con0 = \<lparr>uc_conaddr = \<lparr>ca_local_addr = BAddr_NONE, ca_remote_addr = BAddr_NONE\<rparr>, uc_first_flags = 0, uc_first_data = [],
    uc_first_data_len = 0, uc_conid = 9, uc_first_job = False,
    uc_send_ppflow = \<lparr>ppf_ainput = writer0,
      ppf_encoder = \<lparr>ppe_input_mtu = 0, ppe_output_mtu = 0, ppe_output_packet = None\<rparr>,
      ppf_buffer = bs_buf pb0\<rparr>\<rparr>"

definition sender0 :: PacketStreamSender where
  "sender0 = \<lparr>pss_in_len = 0, pss_in = [], pss_in_used = 0\<rparr>"

definition gw0 :: UdpGwClient where
  "gw0 = \<lparr>ug_udp_mtu = 0, ug_max_connections = 0, ug_send_buffer_size = 0, ug_keepalive_time = 0, ug_udpgw_mtu = 0,
    ug_pp_mtu = 0, ug_by_conaddr = [], ug_by_conid = [], ug_list = [], ug_num_connections = 0, ug_next_conid = 0,
    ug_send_queue = fq0, ug_send_monitor = PacketPassInactivityMonitor_Init False 1 True,
    ug_send_connector = \<lparr>pc_input_mtu = 0, pc_in_len = 0, pc_in = [], pc_output = None\<rparr>,
    ug_keepalive_packet = [], ug_keepalive_sending = True, ug_have_server = True, ug_send_sender = sender0,
    ug_recv_decoder = \<lparr>ppd_output_mtu = 0, ppd_buf_size = 0, ppd_buf_start = 0, ppd_buf_used = 0, ppd_buf = []\<rparr>,
    ug_con = (\<lambda>_. con0)\<rparr>"

definition gw1 :: UdpGwClient where
  "gw1 = snd (the (UdpGwClient_Init gw0 2 1 1 1000))"

definition gw_events :: "udpgw_event list" where
  "gw_events = [UeSubmit (BAddr_IPV4 1 1) (BAddr_IPV4 2 2) False [1] (Some 5) writer0 (Some []), UeRefill 5 (replicate 23 0),
    UeFirstJob 5, UeRefill 5 (replicate 23 0), UeConnect sender0 (Some []),
    UeSubmit (BAddr_IPV4 1 7) (BAddr_IPV4 2 2) True [3, 4] None writer0 None,
    UeReceive (udpgw_packet 0 0 (BAddr_IPV4 2 2) [8])]"

lemma gw1_Init: "UdpGwClient_Init gw0 2 1 1 1000 = Some (1, gw1)"
proof -
  have "map_option fst (UdpGwClient_Init gw0 2 1 1 1000) = Some 1" by code_simp
  then show ?thesis by (cases "UdpGwClient_Init gw0 2 1 1 1000") (auto simp: gw1_def)
qed

lemma gw_events_admissible: "admissible udpgw_enabled udpgw_step (gw1, []) gw_events"
  by code_simp

theorem udpgw_client_safe_witness:
  "\<exists>g' tr. exec udpgw_step (gw1, []) gw_events = Some (g', tr) \<and>
    distinct (ug_list g') \<and> int (length (ug_list g')) \<le> ug_max_connections g' \<and>
    set (ug_by_conaddr g') = set (ug_list g') \<and> set (ug_by_conid g') = set (ug_list g') \<and>
    inj_on (conaddr_of g') (set (ug_list g')) \<and> inj_on (conid_of g') (set (ug_list g')) \<and>
    (\<exists>h. UdpGwClient_Free g' = Some h \<and> ug_list h = [] \<and> ug_num_connections h = 0)"
  by (rule udpgw_client_safe [OF gw1_Init _ _ gw_events_admissible]) simp_all

text \<open>The states a client can be in.\<close>

definition udpgw_reachable :: "UdpGwClient \<Rightarrow> bool" where
  "udpgw_reachable g \<longleftrightarrow> (\<exists>g0 es tr. udpgw_start (g0, []) \<and> admissible udpgw_enabled udpgw_step (g0, []) es \<and>
     exec udpgw_step (g0, []) es = Some (g, tr))"

lemma reachable_inv: "udpgw_reachable g \<Longrightarrow> udpgw_inv g"
  using udpgw.run_safe unfolding udpgw_reachable_def by fastforce

lemma reachable_run:
  "UdpGwClient_Init raw m maxc sz ka = Some (1, g0) \<Longrightarrow> m \<le> INT_MAX \<Longrightarrow> sz \<le> INT_MAX \<Longrightarrow>
   admissible udpgw_enabled udpgw_step (g0, []) es \<Longrightarrow> exec udpgw_step (g0, []) es = Some (g, tr) \<Longrightarrow> udpgw_reachable g"
  unfolding udpgw_reachable_def udpgw_start_def fst_conv snd_conv by blast

definition gw2 :: UdpGwClient where
  "gw2 = fst (the (exec udpgw_step (gw1, []) gw_events))"

lemma gw2_reachable: "udpgw_reachable gw2"
proof -
  have "exec udpgw_step (gw1, []) gw_events \<noteq> None" by code_simp
  then have "exec udpgw_step (gw1, []) gw_events = Some (gw2, snd (the (exec udpgw_step (gw1, []) gw_events)))"
    by (auto simp: gw2_def)
  then show ?thesis by (rule reachable_run [OF gw1_Init _ _ gw_events_admissible, rotated 2]) simp_all
qed

text \<open>
  The abstract table: identifiers and addresses, the least recently used first. \<open>new\<close> is the identifier of
  a connection that could be created.
\<close>

type_synonym lru = "(u16 \<times> UdpGwClient_conaddr) list"

definition lru_of :: "UdpGwClient \<Rightarrow> lru" where
  "lru_of g = map (\<lambda>con. (conid_of g con, conaddr_of g con)) (ug_list g)"

definition lru_touch :: "u16 \<times> UdpGwClient_conaddr \<Rightarrow> lru \<Rightarrow> lru" where
  "lru_touch e t = filter (\<lambda>x. x \<noteq> e) t @ [e]"

definition lru_submit :: "int \<Rightarrow> UdpGwClient_conaddr \<Rightarrow> u16 option \<Rightarrow> lru \<Rightarrow> lru" where
  "lru_submit m a new t =
     (case find (\<lambda>e. snd e = a) t of
        Some e \<Rightarrow> lru_touch e t
      | None \<Rightarrow>
          if int (length t) = m then tl t @ [(fst (hd t), a)]
          else (case new of None \<Rightarrow> t | Some i \<Rightarrow> t @ [(i, a)]))"

lemma find_map_snd: "find (\<lambda>e. snd e = a) (map (\<lambda>n. (f n, h n)) l) = map_option (\<lambda>n. (f n, h n)) (find (\<lambda>n. h n = a) l)"
  by (induction l) auto

lemma inv_injective:
  assumes "udpgw_inv g"
  shows "inj_on (conaddr_of g) (set (ug_list g))" "distinct (ug_list g)" "int (length (ug_list g)) = ug_num_connections g"
proof -
  note t = udpgw_invD(2) [OF assms, unfolded udpgw_tables_def]
  have "inj_on (conaddr_of g) (set (ug_by_conaddr g))"
    by (rule conaddr_order.ordered_distinct) (use t udpgw_invD(3) [OF assms] in \<open>auto simp: con_ok_def\<close>)
  then show "inj_on (conaddr_of g) (set (ug_list g))" "distinct (ug_list g)"
    "int (length (ug_list g)) = ug_num_connections g" using t by auto
qed

lemma lru_find:
  assumes i: "udpgw_inv g" and a: "ip_conaddr a"
  shows "find (\<lambda>e. snd e = a) (lru_of g) =
    map_option (\<lambda>con. (conid_of g con, conaddr_of g con)) (find_connection_by_conaddr g a)"
proof -
  have "find (\<lambda>n. conaddr_of g n = a) (ug_list g) = find_connection_by_conaddr g a"
  proof (cases "find_connection_by_conaddr g a")
    case None
    then show ?thesis using lookup_conaddr [OF i a] by (auto simp: find_None_iff)
  next
    case (Some con)
    then have con: "con \<in> set (ug_list g)" "conaddr_of g con = a" using lookup_conaddr [OF i a] by simp_all
    have "\<forall>n \<in> set (ug_list g). conaddr_of g n = a \<longrightarrow> n = con"
      using inv_injective(1) [OF i] con by (auto dest: inj_onD)
    moreover obtain n where "find (\<lambda>n. conaddr_of g n = a) (ug_list g) = Some n"
      using con by (cases "find (\<lambda>n. conaddr_of g n = a) (ug_list g)") (auto simp: find_None_iff)
    moreover from this have "n \<in> set (ug_list g)" "conaddr_of g n = a" by (auto simp: find_Some_iff)
    ultimately show ?thesis using Some by simp
  qed
  then show ?thesis by (simp add: lru_of_def find_map_snd)
qed

lemma lru_touch_map:
  assumes "inj_on (conaddr_of g) (set l)" "distinct l" "con \<in> set l"
  shows "lru_touch (conid_of g con, conaddr_of g con) (map (\<lambda>n. (conid_of g n, conaddr_of g n)) l) =
    map (\<lambda>n. (conid_of g n, conaddr_of g n)) (remove1 con l @ [con])"
proof -
  have "filter (\<lambda>x. x \<noteq> (conid_of g con, conaddr_of g con)) (map (\<lambda>n. (conid_of g n, conaddr_of g n)) l) =
      map (\<lambda>n. (conid_of g n, conaddr_of g n)) (filter (\<lambda>n. (conid_of g n, conaddr_of g n) \<noteq> (conid_of g con, conaddr_of g con)) l)"
    by (simp add: filter_map comp_def)
  also have "filter (\<lambda>n. (conid_of g n, conaddr_of g n) \<noteq> (conid_of g con, conaddr_of g con)) l = filter (\<lambda>n. n \<noteq> con) l"
    using assms(1,3) by (intro filter_cong) (auto dest: inj_onD)
  also have "\<dots> = remove1 con l" using assms(2) by (simp add: distinct_remove1_removeAll removeAll_filter_not_eq eq_commute)
  finally show ?thesis by (simp add: lru_touch_def)
qed

lemma upd_map: "con \<notin> set l \<Longrightarrow> map (\<lambda>n. (f n, (h(con := a)) n)) l = map (\<lambda>n. (f n, h n)) l"
  by (induction l) auto

text \<open>
  The three cases of \<^verbatim>\<open>UdpGwClient_SubmitPacket\<close> on the abstract table: the pair has a connection or gets the one not used for
  longest, there is memory for a new one, and there is not. \<open>con\<close> is the connection that was used.
\<close>

definition lru_step :: "UdpGwClient \<Rightarrow> UdpGwClient_conaddr \<Rightarrow> BAddr \<Rightarrow> u8 \<Rightarrow> bytes \<Rightarrow> nat option \<Rightarrow> bytes option \<Rightarrow> UdpGwClient
    \<Rightarrow> udpgw_call list \<Rightarrow> bool" where
  "lru_step g a r fl d new fresh g' cs \<longleftrightarrow> (let con = last (ug_list g'); found = (a \<in> snd ` set (lru_of g)) in
     if found \<or> int (length (lru_of g)) = ug_max_connections g
     then lru_of g' = lru_submit (ug_max_connections g) a None (lru_of g) \<and>
       cs = sent_on g con (udpgw_packet (if found then fl else fl OR 2) (fst (last (lru_of g'))) r d)
     else if memory_given g new fresh
     then new = Some con \<and> cs = [] \<and> (\<exists>i. i \<notin> fst ` set (lru_of g) \<and> lru_of g' = lru_submit (ug_max_connections g) a (Some i) (lru_of g)) \<and>
       uc_first_job (ug_con g' con) \<and> uc_first_flags (ug_con g' con) = fl \<and>
       take (nat (uc_first_data_len (ug_con g' con))) (uc_first_data (ug_con g' con)) = d
     else lru_of g' = lru_of g \<and> cs = [])"

lemma lru_length: "udpgw_inv g \<Longrightarrow> int (length (lru_of g)) = ug_num_connections g"
  using inv_injective(3) [of g] by (simp add: lru_of_def)

lemma lru_member:
  assumes "udpgw_inv g" "ip_conaddr a"
  shows "a \<in> snd ` set (lru_of g) \<longleftrightarrow> find_connection_by_conaddr g a \<noteq> None"
  using lookup_conaddr [OF assms] by (force simp: lru_of_def split: option.splits)

lemma lru_found:
  assumes i: "udpgw_inv g" "ip_conaddr a" and c: "submitted g a r fl d new fresh g' cs"
    and f: "find_connection_by_conaddr g a = Some con"
  shows "lru_step g a r fl d new fresh g' cs"
proof -
  have con: "con \<in> set (ug_list g)" using lookup_conaddr [OF i] f by simp
  have c': "ug_list g' = remove1 con (ug_list g) @ [con]" "conaddr_of g' = conaddr_of g" "conid_of g' = conid_of g"
    "cs = sent_on g con (udpgw_packet fl (conid_of g con) r d)"
    using c f by (simp_all add: submitted_def)
  have "lru_of g' = lru_submit (ug_max_connections g) a None (lru_of g)"
    using lru_touch_map [OF inv_injective(1,2) [OF i(1)] con] lru_find [OF i] f c' by (simp add: lru_submit_def lru_of_def)
  moreover have "fst (last (lru_of g')) = conid_of g con" using c' by (simp add: lru_of_def)
  ultimately show ?thesis using c'(1,4) lru_member [OF i] f by (simp add: lru_step_def)
qed

lemma lru_full:
  assumes i: "udpgw_inv g" "ip_conaddr a" and c: "submitted g a r fl d new fresh g' cs"
    and f: "find_connection_by_conaddr g a = None" "ug_num_connections g = ug_max_connections g"
  shows "lru_step g a r fl d new fresh g' cs"
proof -
  obtain con rest where c': "ug_list g = con # rest" "ug_list g' = rest @ [con]" "conaddr_of g' = (conaddr_of g)(con := a)"
    "conid_of g' = conid_of g" "cs = sent_on g con (udpgw_packet (fl OR 2) (conid_of g con) r d)"
    using c f by (auto simp: submitted_def)
  have "con \<notin> set rest" using inv_injective(2) [OF i(1)] c'(1) by simp
  then have "lru_of g' = lru_submit (ug_max_connections g) a None (lru_of g)"
    using lru_find [OF i] f lru_length [OF i(1)] c' upd_map [of con rest "conid_of g" "conaddr_of g" a]
    by (simp add: lru_submit_def lru_of_def)
  moreover have "fst (last (lru_of g')) = conid_of g con" using c' by (simp add: lru_of_def)
  ultimately show ?thesis using c'(2,5) lru_member [OF i] lru_length [OF i(1)] f by (simp add: lru_step_def)
qed

lemma lru_new:
  assumes i: "udpgw_inv g" "ip_conaddr a" and c: "submitted g a r fl d new fresh g' cs"
    and new: "\<forall>con. new = Some con \<longrightarrow> con \<notin> set (ug_list g)"
    and f: "find_connection_by_conaddr g a = None" "ug_num_connections g \<noteq> ug_max_connections g"
  shows "lru_step g a r fl d new fresh g' cs"
proof -
  note none = lru_find [OF i] f lru_length [OF i(1)] lru_member [OF i]
  show ?thesis
  proof (cases "memory_given g new fresh")
    case False
    then have "cs = []" "ug_list g' = ug_list g" "conaddr_of g' = conaddr_of g" "conid_of g' = conid_of g"
      using c f by (simp_all add: submitted_def)
    then show ?thesis using none False by (simp add: lru_step_def Let_def) (simp add: lru_of_def)
  next
    case True
    then obtain con cid where ad: "cs = []" "new = Some con" "ug_list g' = ug_list g @ [con]" "conaddr_of g' = (conaddr_of g)(con := a)"
      "cid \<notin> conid_of g ` set (ug_list g)" "conid_of g' = (conid_of g)(con := cid)" "uc_first_job (ug_con g' con)"
      "uc_first_flags (ug_con g' con) = fl" "take (nat (uc_first_data_len (ug_con g' con))) (uc_first_data (ug_con g' con)) = d"
      using c f by (auto simp: submitted_def added_def Let_def)
    have "map (\<lambda>n. (conid_of g' n, conaddr_of g' n)) (ug_list g) = lru_of g"
      using new ad(2) by (auto simp: lru_of_def ad(4,6))
    then have "lru_of g' = lru_of g @ [(cid, a)]" by (simp add: lru_of_def ad(3)) (simp add: ad(4,6))
    then have "lru_of g' = lru_submit (ug_max_connections g) a (Some cid) (lru_of g)" using none by (simp add: lru_submit_def)
    moreover have "cid \<notin> fst ` set (lru_of g)" using ad(5) by (auto simp: lru_of_def)
    ultimately show ?thesis using none ad(1-3,7-9) True unfolding lru_step_def Let_def by auto
  qed
qed

text \<open>
  C13. Submitting a packet implements a table with least-recently-used replacement. An address pair that has a
  connection keeps its identifier and becomes the most recently used; when the table is full the identifier that
  was not used for longest is given to the new pair; otherwise a new identifier, one not in use, is taken, exactly when there is memory
  for a new connection, and the packet is dropped when there is none. A packet for an existing connection is handed to its send flow at once, if that
  has room for one and it is dropped otherwise, and is marked for rebinding exactly when the connection changed its addresses. A new
  connection's packet is kept for its first job, which is set. No send buffer of more than 2 GiB is allocated.
\<close>

theorem udpgw_submit_lru:
  assumes "udpgw_reachable g" "udpgw_allowed g (UeSubmit l r dns d new w fresh)"
  defines "a \<equiv> \<lparr>ca_local_addr = l, ca_remote_addr = r\<rparr>" and "fl \<equiv> (if dns then 4 else 0 :: u8)"
  shows "\<exists>g' cs. UdpGwClient_SubmitPacket g l r dns d (int (length d)) new w (block_alloc fresh) = Some (g', cs) \<and>
    (let con = last (ug_list g'); found = (a \<in> snd ` set (lru_of g)) in
     if found \<or> int (length (lru_of g)) = ug_max_connections g
     then lru_of g' = lru_submit (ug_max_connections g) a None (lru_of g) \<and>
       cs = (if bw_out_have (ppf_ainput (uc_send_ppflow (ug_con g con)))
         then [UgPacket con (udpgw_packet (if found then fl else fl OR 2) (fst (last (lru_of g'))) r d)] else [])
     else if memory_given g new fresh
     then new = Some con \<and> cs = [] \<and> (\<exists>i. i \<notin> fst ` set (lru_of g) \<and> lru_of g' = lru_submit (ug_max_connections g) a (Some i) (lru_of g)) \<and>
       uc_first_job (ug_con g' con) \<and> uc_first_flags (ug_con g' con) = fl \<and>
       take (nat (uc_first_data_len (ug_con g' con))) (uc_first_data (ug_con g' con)) = d
     else lru_of g' = lru_of g \<and> cs = [])"
proof -
  have i: "udpgw_inv g" using assms(1) by (rule reachable_inv)
  have ip: "ip_addr l" "ip_addr r" and len: "int (length d) \<le> ug_udp_mtu g"
    and new: "\<forall>con. new = Some con \<longrightarrow> con \<noteq> 0 \<and> con \<notin> set (ug_list g)" and mem: "memory_ok g fresh"
    using assms(2) by (auto split: option.splits)
  have ia: "ip_conaddr a" using ip by (simp add: ip_conaddr_def a_def)
  from submit_ok [OF i ip new _ len _ mem, of d dns w, folded a_def fl_def]
  obtain g' cs where run: "UdpGwClient_SubmitPacket g l r dns d (int (length d)) new w (block_alloc fresh) = Some (g', cs)"
    and c: "submitted g a r fl d new fresh g' cs" by auto
  have "lru_step g a r fl d new fresh g' cs"
    using lru_found [OF i ia c] lru_full [OF i ia c] lru_new [OF i ia c] new by (cases "find_connection_by_conaddr g a") blast+
  then show ?thesis using run unfolding lru_step_def sent_on_def by blast
qed

theorem udpgw_submit_lru_witness:
  "\<exists>g' cs. UdpGwClient_SubmitPacket gw2 (BAddr_IPV4 9 9) (BAddr_IPV4 2 3) True [1, 2] 2 None writer0 (block_alloc None)
      = Some (g', cs) \<and>
    lru_of g' = lru_submit (ug_max_connections gw2) \<lparr>ca_local_addr = BAddr_IPV4 9 9, ca_remote_addr = BAddr_IPV4 2 3\<rparr> None (lru_of gw2)"
proof -
  have "udpgw_allowed gw2 (UeSubmit (BAddr_IPV4 9 9) (BAddr_IPV4 2 3) True [1, 2] None writer0 None)" by code_simp
  moreover have "int (length (lru_of gw2)) = ug_max_connections gw2" by code_simp
  ultimately show ?thesis using udpgw_submit_lru [OF gw2_reachable] by (fastforce simp: Let_def)
qed

text \<open>
  C27. The search for an unused identifier ends: whenever a connection may be created, the loop of \<^verbatim>\<open>find_unused_conid\<close>
  returns an identifier below the limit that no connection has.
\<close>

theorem udpgw_unused_conid_found:
  assumes "udpgw_reachable g" "ug_num_connections g < ug_max_connections g"
  shows "\<exists>i n. find_unused_conid g = Some (i, g\<lparr>ug_next_conid := n\<rparr>) \<and> uint i = n \<and> n < ug_max_connections g \<and>
    i \<notin> conid_of g ` set (ug_list g)"
  using find_unused_conid_ok [OF reachable_inv [OF assms(1)] assms(2)] by blast

lemma gw1_reachable: "udpgw_reachable gw1"
  by (rule reachable_run [OF gw1_Init, where es = "[]"]) simp_all

theorem udpgw_unused_conid_found_witness:
  "\<exists>i n. find_unused_conid gw1 = Some (i, gw1\<lparr>ug_next_conid := n\<rparr>) \<and> uint i = n \<and> n < ug_max_connections gw1 \<and>
    i \<notin> conid_of gw1 ` set (ug_list gw1)"
proof (rule udpgw_unused_conid_found [OF gw1_reachable])
  show "ug_num_connections gw1 < ug_max_connections gw1" by code_simp
qed

text \<open>
  C26. Only genuine answers reach the user: a packet of the server is delivered, complete and with the connection's own
  addresses, exactly when its identifier belongs to a connection and its address is that connection's remote address
  (and its payload fits the MTU); every other packet is dropped and changes nothing.
\<close>

theorem udpgw_answer_delivered:
  assumes "udpgw_reachable g" "ug_have_server g" "ip_addr r" "flags AND 8 = 0"
    and len: "int (length (udpgw_packet flags i r d)) \<le> ug_udpgw_mtu g" "int (length d) \<le> ug_udp_mtu g"
  shows "recv_interface_handler_send g (udpgw_packet flags i r d) (int (length (udpgw_packet flags i r d))) =
    (case find_connection_by_conid g i of
       None \<Rightarrow> Some (g, [UgRecvDone])
     | Some con \<Rightarrow>
         if ca_remote_addr (conaddr_of g con) = r
         then Some (move_to_end con g, [UgRecvDone, UgReceived (ca_local_addr (conaddr_of g con)) r d])
         else Some (g, [UgRecvDone]))"
proof -
  let ?p = "udpgw_packet flags i r d"
  let ?h = "\<lparr>uh_flags = addr_flags r flags, uh_conid = ltoh16 i\<rparr>"
  have i: "udpgw_inv g" using assms(1) by (rule reachable_inv)
  have l3: "length (udpgw_header_image ?h) = 3" by (simp add: udpgw_header.length_enc)
  have hd: "udpgw_header_of (take 3 ?p) = ?h"
    using udpgw_header.dec_enc [of ?h] by (simp add: udpgw_packet_def l3)
  have dr: "drop 3 ?p = addr_image r @ d" by (simp add: udpgw_packet_def l3)
  have f8: "(addr_flags r flags AND 8 \<noteq> 0) = (BAddr_type r = 2)"
    using assms(4) by (simp add: addr_flags_def bit.conj_disj_distrib2)
  have pa: "parse_addr (addr_flags r flags) (addr_image r @ d) (int (length (addr_image r @ d))) =
      Some (Some (r, d, int (length d)))"
    using parse_addr_image [OF assms(3), of _ "addr_image r @ d" "addr_flags r flags"] f8 by simp
  have n: "int (length ?p) - 3 = int (length (addr_image r @ d))" "3 \<le> length ?p" by (simp_all add: udpgw_packet_def l3)
  have cmp: "BAddr_CompareOrder (ca_remote_addr (conaddr_of g con)) r \<noteq> 0 \<longleftrightarrow> ca_remote_addr (conaddr_of g con) \<noteq> r"
    if "find_connection_by_conid g i = Some con" for con
    using lookup_conid [OF i, of i] that udpgw_invD(3) [OF i] assms(3)
    by (simp add: con_ok_def ip_conaddr_def compare_order_zero)
  have le: "ltoh8 x = x" "ltoh16 (ltoh16 y) = y" for x y by (simp_all add: ltoh8_def htol8_def ltoh16_def htol16_def)
  have mv: "conaddr_of (move_to_end con g) = conaddr_of g" for con by (simp add: move_to_end_def conaddr_of_def fun_eq_iff)
  have "3 \<le> int (length ?p)" using n(2) by simp
  then show ?thesis
    using assms(2) len n hd dr pa cmp
    by (cases "find_connection_by_conid g i")
      (auto simp: recv_interface_handler_send_def mem_read_def Let_def le mv)
qed

theorem udpgw_answer_delivered_witness:
  "recv_interface_handler_send gw2 (udpgw_packet 0 0 (BAddr_IPV4 2 2) [8]) (int (length (udpgw_packet 0 0 (BAddr_IPV4 2 2) [8]))) =
    (case find_connection_by_conid gw2 0 of
       None \<Rightarrow> Some (gw2, [UgRecvDone])
     | Some con \<Rightarrow>
         if ca_remote_addr (conaddr_of gw2 con) = BAddr_IPV4 2 2
         then Some (move_to_end con gw2, [UgRecvDone, UgReceived (ca_local_addr (conaddr_of gw2 con)) (BAddr_IPV4 2 2) [8]])
         else Some (gw2, [UgRecvDone]))"
proof (rule udpgw_answer_delivered [OF gw2_reachable])
  show "ug_have_server gw2" by code_simp
  show "int (length (udpgw_packet 0 0 (BAddr_IPV4 2 2) [8])) \<le> ug_udpgw_mtu gw2" by code_simp
  show "int (length [8 :: u8]) \<le> ug_udp_mtu gw2" by code_simp
qed simp_all

end
