(* ===== verification/SocksUdpGw.thy ===== *)
theory SocksUdpGw
  imports SocksClient UdpGwClient
begin

text \<open>
  tun2socks/SocksUdpGwClient.c: keeps a udpgw client connected to its server through a SOCKS client,
  and tries again after a while when the connection cannot be made or breaks.

  \<open>su_timer\<close> says whether the reconnect timer is running. \<open>connector_ok\<close>, \<open>sender\<close> and \<open>alloc\<close> are the
  results of \<^verbatim>\<open>BConnector_Init\<close> and the memory that connecting a server needs.
\<close>

section \<open>State and operations\<close>

record SocksUdpGwClient =
  su_udp_mtu :: int
  su_socks_server_addr :: BAddr
  su_auth_info :: "BSocksClient_auth_info list"
  su_remote_udpgw_addr :: BAddr
  su_udpgw_client :: UdpGwClient
  su_timer :: bool
  su_have_socks :: bool
  su_socks_client :: BSocksClient
  su_socks_up :: bool

definition free_socks :: "SocksUdpGwClient \<Rightarrow> SocksUdpGwClient option" where
  "free_socks u = do {
     ASSERT (su_have_socks u);
     u \<leftarrow> (if su_socks_up u
       then do {
         g \<leftarrow> UdpGwClient_DisconnectServer (su_udpgw_client u);
         Some (u\<lparr>su_udpgw_client := g\<rparr>)
       }
       else Some u);
     c \<leftarrow> BSocksClient_Free (su_socks_client u);
     Some (u\<lparr>su_socks_client := c, su_have_socks := False\<rparr>)
   }"

definition try_connect :: "bool \<Rightarrow> SocksUdpGwClient \<Rightarrow> SocksUdpGwClient option" where
  "try_connect connector_ok u = do {
     ASSERT (\<not> su_have_socks u);
     ASSERT (\<not> su_timer u);
     (ok, c) \<leftarrow> BSocksClient_Init (su_socks_server_addr u) (su_auth_info u) (su_remote_udpgw_addr u) connector_ok;
     let u = u\<lparr>su_socks_client := c\<rparr>;
     if ok = 0 then Some (u\<lparr>su_timer := True\<rparr>)
     else Some (u\<lparr>su_have_socks := True, su_socks_up := False\<rparr>)
   }"

text \<open>The timer has expired: it is not running any more.\<close>

definition reconnect_timer_handler :: "bool \<Rightarrow> SocksUdpGwClient \<Rightarrow> SocksUdpGwClient option" where
  "reconnect_timer_handler connector_ok u = do {
     let u = u\<lparr>su_timer := False\<rparr>;
     ASSERT (\<not> su_have_socks u);
     try_connect connector_ok u
   }"

definition socks_client_handler ::
  "PacketStreamSender \<Rightarrow> (int \<Rightarrow> bytes option) \<Rightarrow> socks_event \<Rightarrow> SocksUdpGwClient
    \<Rightarrow> (SocksUdpGwClient \<times> udpgw_call list) option" where
  "socks_client_handler sender alloc event u = do {
     ASSERT (su_have_socks u);
     case event of
       EVENT_UP \<Rightarrow> do {
         ASSERT (\<not> su_socks_up u);
         BSocksClient_GetSendInterface (su_socks_client u);
         BSocksClient_GetRecvInterface (su_socks_client u);
         (ok, g, cs) \<leftarrow> UdpGwClient_ConnectServer (su_udpgw_client u) sender alloc;
         let u = u\<lparr>su_udpgw_client := g\<rparr>;
         if ok = 0
         then do {
           u \<leftarrow> free_socks u;
           Some (u\<lparr>su_timer := True\<rparr>, [])
         }
         else Some (u\<lparr>su_socks_up := True\<rparr>, cs)
       }
     | _ \<Rightarrow> do {
         u \<leftarrow> free_socks u;
         Some (u\<lparr>su_timer := True\<rparr>, [])
       }
   }"

definition udpgw_handler_servererror :: "SocksUdpGwClient \<Rightarrow> SocksUdpGwClient option" where
  "udpgw_handler_servererror u = do {
     ASSERT (su_have_socks u);
     ASSERT (su_socks_up u);
     u \<leftarrow> free_socks u;
     Some (u\<lparr>su_timer := True\<rparr>)
   }"

text \<open>The call passes the packet on to the user.\<close>

definition udpgw_handler_received :: "BAddr \<Rightarrow> BAddr \<Rightarrow> bytes \<Rightarrow> udpgw_call list" where
  "udpgw_handler_received local_addr remote_addr data = [UgReceived local_addr remote_addr data]"

text \<open>\<open>raw\<close> is the uninitialised struct; the result is the return value with the object.\<close>

definition SocksUdpGwClient_Init ::
  "SocksUdpGwClient \<Rightarrow> int \<Rightarrow> int \<Rightarrow> int \<Rightarrow> int \<Rightarrow> BAddr \<Rightarrow> BSocksClient_auth_info list \<Rightarrow> BAddr \<Rightarrow> bool
    \<Rightarrow> (int \<times> SocksUdpGwClient) option" where
  "SocksUdpGwClient_Init raw udp_mtu max_connections send_buffer_size keepalive_time socks_server_addr auth_info
      remote_udpgw_addr connector_ok = do {
     ASSERT (\<not> BAddr_IsInvalid socks_server_addr);
     ASSERT (BAddr_type remote_udpgw_addr = BADDR_TYPE_IPV4 \<or> BAddr_type remote_udpgw_addr = BADDR_TYPE_IPV6);
     let u = raw\<lparr>su_udp_mtu := udp_mtu, su_socks_server_addr := socks_server_addr, su_auth_info := auth_info,
       su_remote_udpgw_addr := remote_udpgw_addr\<rparr>;
     (ok, g) \<leftarrow> UdpGwClient_Init (su_udpgw_client u) udp_mtu max_connections send_buffer_size keepalive_time;
     let u = u\<lparr>su_udpgw_client := g\<rparr>;
     if ok = 0 then Some (0, u)
     else do {
       u \<leftarrow> try_connect connector_ok (u\<lparr>su_timer := False, su_have_socks := False\<rparr>);
       Some (1, u)
     }
   }"

definition SocksUdpGwClient_Free :: "SocksUdpGwClient \<Rightarrow> SocksUdpGwClient option" where
  "SocksUdpGwClient_Free u = do {
     u \<leftarrow> (if su_have_socks u then free_socks u else Some u);
     let u = u\<lparr>su_timer := False\<rparr>;
     g \<leftarrow> UdpGwClient_Free (su_udpgw_client u);
     Some (u\<lparr>su_udpgw_client := g\<rparr>)
   }"

definition SocksUdpGwClient_SubmitPacket ::
  "SocksUdpGwClient \<Rightarrow> BAddr \<Rightarrow> BAddr \<Rightarrow> bool \<Rightarrow> bytes \<Rightarrow> int \<Rightarrow> nat option \<Rightarrow> BufferWriter
    \<Rightarrow> (int \<Rightarrow> bytes option) \<Rightarrow> (SocksUdpGwClient \<times> udpgw_call list) option" where
  "SocksUdpGwClient_SubmitPacket u local_addr remote_addr is_dns data data_len new w alloc = do {
     (g, cs) \<leftarrow> UdpGwClient_SubmitPacket (su_udpgw_client u) local_addr remote_addr is_dns data data_len new w alloc;
     Some (u\<lparr>su_udpgw_client := g\<rparr>, cs)
   }"

section \<open>The three machines together\<close>

text \<open>
  The state: the object, the run of its SOCKS client, and the packets handed to the user. An event is one
  of the SOCKS client, one of the udpgw client (except that connecting and disconnecting its server is up to this
  component) or the expiry of the timer; the handlers run when the clients call them.
\<close>

record sug_state =
  sg_u :: SocksUdpGwClient
  sg_run :: socks_run
  sg_user :: "udpgw_call list"

datatype sug_event =
    SgTimer bool
  | SgSocks socks_ev PacketStreamSender "bytes option"
  | SgUdpGw udpgw_event
  | SgSubmit BAddr BAddr bool bytes "nat option" BufferWriter "bytes option"

fun sug_calls :: "udpgw_call list \<Rightarrow> SocksUdpGwClient \<Rightarrow> (SocksUdpGwClient \<times> udpgw_call list) option" where
  "sug_calls [] u = Some (u, [])"
| "sug_calls (c # cs) u = do {
     (u, now) \<leftarrow> (case c of
         UgServerError \<Rightarrow> map_option (\<lambda>u. (u, [])) (udpgw_handler_servererror u)
       | UgReceived l r d \<Rightarrow> Some (u, udpgw_handler_received l r d)
       | _ \<Rightarrow> Some (u, []));
     (u, later) \<leftarrow> sug_calls cs u;
     Some (u, now @ later)
   }"

definition connected :: "SocksUdpGwClient \<Rightarrow> socks_run \<Rightarrow> sug_state \<Rightarrow> sug_state" where
  "connected u run s = s\<lparr>sg_u := u, sg_run := if su_have_socks u then socks_run0 (su_socks_client u) else run\<rparr>"

fun sug_step :: "sug_state \<Rightarrow> sug_event \<Rightarrow> sug_state option" where
  "sug_step s (SgTimer connector_ok) =
     map_option (\<lambda>u. connected u (sg_run s) s) (reconnect_timer_handler connector_ok (sg_u s))"
| "sug_step s (SgSocks e sender fresh) = do {
     run \<leftarrow> socks_step (sg_run s) e;
     let u = (sg_u s)\<lparr>su_socks_client := sr_c run\<rparr>;
     if sr_dead run
     then map_option (\<lambda>(u, _). s\<lparr>sg_u := u, sg_run := run\<rparr>) (socks_client_handler sender (\<lambda>n. realloc_block fresh None (nat n)) EVENT_ERROR u)
     else if sr_up run \<and> \<not> su_socks_up u
     then map_option (\<lambda>(u, _). s\<lparr>sg_u := u, sg_run := run\<rparr>) (socks_client_handler sender (\<lambda>n. realloc_block fresh None (nat n)) EVENT_UP u)
     else Some (s\<lparr>sg_u := u, sg_run := run\<rparr>)
   }"
| "sug_step s (SgUdpGw e) = do {
     (g, cs) \<leftarrow> udpgw_react (su_udpgw_client (sg_u s)) e;
     (u, out) \<leftarrow> sug_calls cs ((sg_u s)\<lparr>su_udpgw_client := g\<rparr>);
     Some (s\<lparr>sg_u := u, sg_user := sg_user s @ out\<rparr>)
   }"
| "sug_step s (SgSubmit l r dns d new w fresh) = do {
     (u, cs) \<leftarrow> SocksUdpGwClient_SubmitPacket (sg_u s) l r dns d (int (length d)) new w (block_alloc fresh);
     (u, out) \<leftarrow> sug_calls cs u;
     Some (s\<lparr>sg_u := u, sg_user := sg_user s @ out\<rparr>)
   }"

fun sug_enabled :: "sug_state \<Rightarrow> sug_event \<Rightarrow> bool" where
  "sug_enabled s (SgTimer connector_ok) \<longleftrightarrow> su_timer (sg_u s)"
| "sug_enabled s (SgSocks e sender fresh) \<longleftrightarrow> su_have_socks (sg_u s) \<and> socks_enabled (sg_run s) e"
| "sug_enabled s (SgUdpGw e) \<longleftrightarrow> udpgw_allowed (su_udpgw_client (sg_u s)) e \<and>
     (case e of UeConnect _ _ \<Rightarrow> False | UeDisconnect \<Rightarrow> False | UeSubmit _ _ _ _ _ _ _ \<Rightarrow> False | _ \<Rightarrow> True)"
| "sug_enabled s (SgSubmit l r dns d new w fresh) \<longleftrightarrow>
     udpgw_allowed (su_udpgw_client (sg_u s)) (UeSubmit l r dns d new w fresh)"

section \<open>Invariant\<close>

definition sug_inv :: "BSocksClient_auth_info list \<Rightarrow> BAddr \<Rightarrow> sug_state \<Rightarrow> bool" where
  "sug_inv ais addr s \<longleftrightarrow> (let u = sg_u s in
     su_auth_info u = ais \<and> su_remote_udpgw_addr u = addr \<and> \<not> BAddr_IsInvalid (su_socks_server_addr u) \<and> ip_addr addr \<and>
     list_all (\<lambda>ai. ai_auth_type ai = 0 \<or> ai_auth_type ai = 2) ais \<and>
     udpgw_inv (su_udpgw_client u) \<and> su_timer u = (\<not> su_have_socks u) \<and>
     ug_have_server (su_udpgw_client u) = (su_have_socks u \<and> su_socks_up u) \<and>
     (su_have_socks u \<longrightarrow> socks_inv ais addr (sg_run s) \<and> \<not> sr_dead (sg_run s) \<and> sr_c (sg_run s) = su_socks_client u \<and>
        su_socks_up u = sr_up (sg_run s)))"

text \<open>The udpgw client changes its server only when it is told to, and reports an error only from its decoder.\<close>

lemma connection_send_server: "connection_send con fl d n g = Some (g', cs) \<Longrightarrow>
    ug_have_server g' = ug_have_server g \<and> UgServerError \<notin> set cs"
  by (auto simp: connection_send_def Let_def bind_eq_Some_conv split: option.splits)

lemma connection_init_server: "connection_init g a fl d n new w alloc = Some g' \<Longrightarrow> ug_have_server g' = ug_have_server g"
  by (auto simp: connection_init_def find_unused_conid_def Let_def bind_eq_Some_conv split: option.splits)

lemma reuse_connection_server: "reuse_connection g a = Some (con, g') \<Longrightarrow> ug_have_server g' = ug_have_server g"
  by (auto simp: reuse_connection_def Let_def bind_eq_Some_conv split: list.splits)

lemma submit_server: "UdpGwClient_SubmitPacket g l r dns d n new w alloc = Some (g', cs) \<Longrightarrow>
    ug_have_server g' = ug_have_server g \<and> UgServerError \<notin> set cs"
  by (auto simp: UdpGwClient_SubmitPacket_def Let_def bind_eq_Some_conv
      dest!: connection_send_server connection_init_server reuse_connection_server split: option.splits if_splits)

lemma receive_server:
  assumes "udpgw_inv g" "udpgw_allowed g (UeReceive d)" "recv_interface_handler_send g d (int (length d)) = Some (g', cs)"
  shows "ug_have_server g' = ug_have_server g \<and> UgServerError \<notin> set cs"
  using receive_ok [OF assms(1), of d] assms(2,3) by auto

lemma react_server:
  assumes i: "udpgw_inv g" and en: "udpgw_allowed g e" and r: "udpgw_react g e = Some (g', cs)"
    and ne: "case e of UeConnect _ _ \<Rightarrow> False | UeDisconnect \<Rightarrow> False | _ \<Rightarrow> True"
  shows "ug_have_server g' = ug_have_server g \<and> (e \<noteq> UeDecoderError \<longrightarrow> UgServerError \<notin> set cs)"
proof (cases e)
  case (UeReceive d)
  then show ?thesis using receive_server [OF i, of d] en r by simp
qed (use r ne in \<open>auto simp: connection_first_job_handler_def decoder_handler_error_def send_monitor_handler_def
      keepalive_if_handler_done_def quiet_def on_queue_def on_connector_def refill_def Let_def bind_eq_Some_conv
      dest!: submit_server connection_send_server split: if_splits\<close>)

lemma sug_calls_ok: "UgServerError \<notin> set cs \<Longrightarrow> \<exists>out. sug_calls cs u = Some (u, out)"
  by (induction cs) (auto split: udpgw_call.split)

lemma disconnect_ok:
  assumes "udpgw_inv g" "ug_have_server g"
  shows "\<exists>g'. UdpGwClient_DisconnectServer g = Some g' \<and> udpgw_inv g' \<and> \<not> ug_have_server g'"
proof -
  obtain g' cs where r: "quiet (UdpGwClient_DisconnectServer g) = Some (g', cs)" "udpgw_inv g'"
    using udpgw_reacts [OF assms(1), of UeDisconnect] assms(2) by (auto simp: reacts_def)
  then have "UdpGwClient_DisconnectServer g = Some g'" by (auto simp: quiet_def)
  moreover from this have "\<not> ug_have_server g'" by (auto simp: UdpGwClient_DisconnectServer_def bind_eq_Some_conv)
  ultimately show ?thesis using r(2) by blast
qed

lemma connect_ok:
  assumes "udpgw_inv g" "\<not> ug_have_server g"
  obtains (failed) "UdpGwClient_ConnectServer g sender (\<lambda>n. realloc_block fresh None (nat n)) = Some (0, g, [])"
  | (ready) ok g' cs where "UdpGwClient_ConnectServer g sender (\<lambda>n. realloc_block fresh None (nat n)) = Some (ok, g', cs)"
      "ok \<noteq> 0" "udpgw_inv g'" "ug_have_server g'"
proof -
  obtain ok g' cs where r: "UdpGwClient_ConnectServer g sender (\<lambda>n. realloc_block fresh None (nat n)) = Some (ok, g', cs)" "udpgw_inv g'"
    using udpgw_reacts [OF assms(1), of "UeConnect sender fresh"] assms(2) by (auto simp: reacts_def)
  show thesis
  proof (cases "ok = 0")
    case True
    then have "UdpGwClient_ConnectServer g sender (\<lambda>n. realloc_block fresh None (nat n)) = Some (0, g, [])"
      using r(1) by (auto simp: UdpGwClient_ConnectServer_def bind_eq_Some_conv split: if_splits)
    then show thesis by (rule failed)
  next
    case False
    then have "ug_have_server g'"
      using r(1) by (auto simp: UdpGwClient_ConnectServer_def bind_eq_Some_conv split: if_splits)
    with False r show thesis by (intro ready)
  qed
qed

lemma free_socks_ok:
  assumes g: "udpgw_inv (su_udpgw_client u)" "ug_have_server (su_udpgw_client u) = su_socks_up u"
    and c: "su_have_socks u" "socks_inv ais addr run" "sr_c run = su_socks_client u"
  shows "\<exists>g' c'. free_socks u = Some (u\<lparr>su_udpgw_client := g', su_socks_client := c', su_have_socks := False\<rparr>) \<and>
    udpgw_inv g' \<and> \<not> ug_have_server g'"
proof (cases "su_socks_up u")
  case True
  then obtain g' where "UdpGwClient_DisconnectServer (su_udpgw_client u) = Some g'" "udpgw_inv g'" "\<not> ug_have_server g'"
    using disconnect_ok g by blast
  then show ?thesis using True c socks_free_inv [OF c(2)] by (auto simp: free_socks_def)
next
  case False
  then show ?thesis using g c socks_free_inv [OF c(2)]
    by (intro exI [of _ "su_udpgw_client u"]) (auto simp: free_socks_def)
qed

lemma sug_invD:
  assumes "sug_inv ais addr s"
  shows "udpgw_inv (su_udpgw_client (sg_u s))" "su_timer (sg_u s) = (\<not> su_have_socks (sg_u s))"
    "ug_have_server (su_udpgw_client (sg_u s)) = (su_have_socks (sg_u s) \<and> su_socks_up (sg_u s))"
    "su_have_socks (sg_u s) \<Longrightarrow> socks_inv ais addr (sg_run s)" "su_have_socks (sg_u s) \<Longrightarrow> \<not> sr_dead (sg_run s)"
    "su_have_socks (sg_u s) \<Longrightarrow> sr_c (sg_run s) = su_socks_client (sg_u s)"
    "su_have_socks (sg_u s) \<Longrightarrow> su_socks_up (sg_u s) = sr_up (sg_run s)"
  using assms by (simp_all add: sug_inv_def Let_def)

text \<open>The parameters do not change; the rest of the invariant is about these.\<close>

lemma sug_invI:
  assumes "sug_inv ais addr s" "u = (sg_u s)\<lparr>su_udpgw_client := g, su_timer := t, su_have_socks := h,
      su_socks_client := c, su_socks_up := up\<rparr>"
    and "udpgw_inv g" "t = (\<not> h)" "ug_have_server g = (h \<and> up)"
    and "h \<longrightarrow> socks_inv ais addr run \<and> \<not> sr_dead run \<and> sr_c run = c \<and> up = sr_up run"
    and "sg_u s' = u" "sg_run s' = run"
  shows "sug_inv ais addr s'"
  using assms by (simp add: sug_inv_def Let_def)

text \<open>Whatever made the connection fail: it is freed and the timer runs.\<close>

lemma dropped_ok:
  assumes i: "sug_inv ais addr s" and h: "su_have_socks (sg_u s)"
    and run: "socks_inv ais addr run" "sr_c run = c"
  shows "\<exists>u. free_socks ((sg_u s)\<lparr>su_socks_client := c\<rparr>) = Some u \<and>
    sug_inv ais addr (s\<lparr>sg_u := u\<lparr>su_timer := True\<rparr>, sg_run := run'\<rparr>)"
proof -
  let ?u = "(sg_u s)\<lparr>su_socks_client := c\<rparr>"
  obtain g' c' where f: "free_socks ?u = Some (?u\<lparr>su_udpgw_client := g', su_socks_client := c', su_have_socks := False\<rparr>)"
    "udpgw_inv g'" "\<not> ug_have_server g'"
    using free_socks_ok [of ?u, OF _ _ _ run(1)] sug_invD(1,3) [OF i] h run(2) by auto
  have "sug_inv ais addr (s\<lparr>sg_u := ?u\<lparr>su_udpgw_client := g', su_socks_client := c', su_have_socks := False, su_timer := True\<rparr>,
      sg_run := run'\<rparr>)"
    by (rule sug_invI [OF i, where g = g' and t = True and h = False and c = c' and up = "su_socks_up (sg_u s)" and run = run'])
      (use f in simp_all)
  then show ?thesis using f(1) by auto
qed

lemma timer_step:
  assumes i: "sug_inv ais addr s" and en: "sug_enabled s (SgTimer ok)"
  shows "\<exists>s'. sug_step s (SgTimer ok) = Some s' \<and> sug_inv ais addr s'"
proof -
  have nh: "\<not> su_have_socks (sg_u s)" using sug_invD(2) [OF i] en by simp
  have p: "\<not> BAddr_IsInvalid (su_socks_server_addr (sg_u s))" "su_remote_udpgw_addr (sg_u s) = addr" "ip_addr addr"
    "su_auth_info (sg_u s) = ais" "list_all (\<lambda>ai. ai_auth_type ai = 0 \<or> ai_auth_type ai = 2) ais"
    using i by (simp_all add: sug_inv_def Let_def)
  obtain c where c: "BSocksClient_Init (su_socks_server_addr (sg_u s)) ais addr ok = Some (if ok then 1 else 0, c)"
    using p ip_addr_type [OF p(3)] by (simp add: BSocksClient_Init_def Let_def)
  let ?u = "if ok then (sg_u s)\<lparr>su_timer := False, su_socks_client := c, su_have_socks := True, su_socks_up := False\<rparr>
    else (sg_u s)\<lparr>su_timer := True, su_socks_client := c\<rparr>"
  have r: "reconnect_timer_handler ok (sg_u s) = Some ?u"
    using nh p c by (simp add: reconnect_timer_handler_def try_connect_def Let_def)
  show ?thesis
  proof (cases ok)
    case True
    have "socks_init ais addr (socks_run0 c)" using c p True by (auto simp: socks_init_def)
    then have "socks_inv ais addr (socks_run0 c)" by (rule socks_init_inv)
    moreover have "sr_dead (socks_run0 c) = False" "sr_up (socks_run0 c) = False" "sr_c (socks_run0 c) = c"
      by (simp_all add: socks_run0_def)
    ultimately have "sug_inv ais addr (connected ?u (sg_run s) s)"
      using True sug_invD(1,3) [OF i] nh
      by (intro sug_invI [OF i, where g = "su_udpgw_client (sg_u s)" and t = False and h = True and c = c and up = False
            and run = "socks_run0 c" and u = ?u]) (simp_all add: connected_def)
    then show ?thesis using r by simp
  next
    case False
    have "sug_inv ais addr (connected ?u (sg_run s) s)"
      using False sug_invD(1,3) [OF i] nh
      by (intro sug_invI [OF i, where g = "su_udpgw_client (sg_u s)" and t = True and h = False and c = c
            and up = "su_socks_up (sg_u s)" and run = "sg_run s" and u = ?u]) (simp_all add: connected_def)
    then show ?thesis using r by simp
  qed
qed

lemma udpgw_step_ok:
  assumes i: "sug_inv ais addr s" and en: "udpgw_allowed (su_udpgw_client (sg_u s)) e"
    and ne: "case e of UeConnect _ _ \<Rightarrow> False | UeDisconnect \<Rightarrow> False | _ \<Rightarrow> True"
  shows "\<exists>g cs u out. udpgw_react (su_udpgw_client (sg_u s)) e = Some (g, cs) \<and>
    sug_calls cs ((sg_u s)\<lparr>su_udpgw_client := g\<rparr>) = Some (u, out) \<and>
    sug_inv ais addr (s\<lparr>sg_u := u, sg_user := sg_user s @ out\<rparr>)"
proof -
  let ?g = "su_udpgw_client (sg_u s)"
  obtain g cs where g: "udpgw_react ?g e = Some (g, cs)" "udpgw_inv g"
    using udpgw_reacts [OF sug_invD(1) [OF i] en] by (auto simp: reacts_def)
  note sv = react_server [OF sug_invD(1) [OF i] en g(1) ne]
  have keep: "sug_inv ais addr (s\<lparr>sg_u := (sg_u s)\<lparr>su_udpgw_client := g\<rparr>, sg_user := out\<rparr>)" for out
    by (rule sug_invI [OF i, where g = g and t = "su_timer (sg_u s)" and h = "su_have_socks (sg_u s)"
          and c = "su_socks_client (sg_u s)" and up = "su_socks_up (sg_u s)" and run = "sg_run s"])
      (use g sv sug_invD [OF i] in auto)
  show ?thesis
  proof (cases "e = UeDecoderError")
    case False
    then obtain out where "sug_calls cs ((sg_u s)\<lparr>su_udpgw_client := g\<rparr>) = Some ((sg_u s)\<lparr>su_udpgw_client := g\<rparr>, out)"
      using sug_calls_ok sv by blast
    then show ?thesis using g keep by blast
  next
    case True
    then have hs: "ug_have_server ?g" using en by simp
    then have up: "su_have_socks (sg_u s)" "su_socks_up (sg_u s)" using sug_invD(3) [OF i] by simp_all
    have e: "cs = [UgServerError]" "g = ?g" using g(1) True hs by (simp_all add: decoder_handler_error_def)
    obtain u where u: "free_socks ((sg_u s)\<lparr>su_socks_client := su_socks_client (sg_u s)\<rparr>) = Some u"
      "sug_inv ais addr (s\<lparr>sg_u := u\<lparr>su_timer := True\<rparr>, sg_run := sg_run s\<rparr>)"
      using dropped_ok [OF i up(1) sug_invD(4) [OF i up(1)] sug_invD(6) [OF i up(1)], of "sg_run s"] by blast
    have "(sg_u s)\<lparr>su_udpgw_client := g\<rparr> = sg_u s" using e by simp
    then have "sug_calls cs ((sg_u s)\<lparr>su_udpgw_client := g\<rparr>) = Some (u\<lparr>su_timer := True\<rparr>, [])"
      using u(1) up e(1) by (simp add: udpgw_handler_servererror_def)
    then show ?thesis using g(1) u(2) by (intro exI conjI) (assumption | simp)+
  qed
qed

lemma effects_keep_up: "sr_up s \<Longrightarrow> sr_up (fold socks_effect cs s)"
proof (induction cs arbitrary: s)
  case (Cons c cs)
  then show ?case by (cases c) auto
qed simp

lemma socks_step_up: "socks_step s e = Some s' \<Longrightarrow> sr_up s \<Longrightarrow> sr_up s'"
  by (cases e) (auto simp: socks_apply_def bind_eq_Some_conv intro!: effects_keep_up)

lemma up_handler_ok:
  assumes i: "sug_inv ais addr s" and h: "su_have_socks (sg_u s)" "\<not> su_socks_up (sg_u s)"
    and run: "socks_inv ais addr run" "\<not> sr_dead run" "sr_up run"
  shows "\<exists>u cs. socks_client_handler sender (\<lambda>n. realloc_block fresh None (nat n)) EVENT_UP
      ((sg_u s)\<lparr>su_socks_client := sr_c run\<rparr>) = Some (u, cs) \<and> sug_inv ais addr (s\<lparr>sg_u := u, sg_run := run\<rparr>)"
proof -
  let ?u = "(sg_u s)\<lparr>su_socks_client := sr_c run\<rparr>" and ?g = "su_udpgw_client (sg_u s)"
  have st: "sc_state (sr_c run) = STATE_UP" using run(1,3) by (simp add: socks_inv_def)
  note D = socks_client_handler_def BSocksClient_GetSendInterface_def BSocksClient_GetRecvInterface_def
  have "\<not> ug_have_server ?g" using sug_invD(3) [OF i] h by simp
  with sug_invD(1) [OF i] show ?thesis
  proof (cases rule: connect_ok [where sender = sender and fresh = fresh])
    case failed
    obtain u where u: "free_socks ?u = Some u" "sug_inv ais addr (s\<lparr>sg_u := u\<lparr>su_timer := True\<rparr>, sg_run := run\<rparr>)"
      using dropped_ok [OF i h(1) run(1) refl, of run] by blast
    have "?u\<lparr>su_udpgw_client := ?g\<rparr> = ?u" by simp
    then have "socks_client_handler sender (\<lambda>n. realloc_block fresh None (nat n)) EVENT_UP ?u = Some (u\<lparr>su_timer := True\<rparr>, [])"
      using failed u(1) h st by (simp add: D)
    then show ?thesis using u(2) by blast
  next
    case (ready ok g' cs)
    have "socks_client_handler sender (\<lambda>n. realloc_block fresh None (nat n)) EVENT_UP ?u =
        Some (?u\<lparr>su_udpgw_client := g', su_socks_up := True\<rparr>, cs)"
      using ready h st by (simp add: D)
    moreover have "sug_inv ais addr (s\<lparr>sg_u := ?u\<lparr>su_udpgw_client := g', su_socks_up := True\<rparr>, sg_run := run\<rparr>)"
      by (rule sug_invI [OF i, where g = g' and t = False and h = True and c = "sr_c run" and up = True and run = run])
        (use ready run h sug_invD(2) [OF i] in simp_all)
    ultimately show ?thesis by blast
  qed
qed

lemma socks_event_step:
  assumes i: "sug_inv ais addr s" and en: "sug_enabled s (SgSocks e sender fresh)"
  shows "\<exists>s'. sug_step s (SgSocks e sender fresh) = Some s' \<and> sug_inv ais addr s'"
proof -
  have h: "su_have_socks (sg_u s)" "socks_enabled (sg_run s) e" using en by simp_all
  obtain run where run: "socks_step (sg_run s) e = Some run" "socks_inv ais addr run"
    using socks.step_inv [OF sug_invD(4) [OF i h(1)] h(2)] by blast
  let ?u = "(sg_u s)\<lparr>su_socks_client := sr_c run\<rparr>"
  consider (dead) "sr_dead run" | (up) "\<not> sr_dead run" "sr_up run" "\<not> su_socks_up (sg_u s)"
    | (same) "\<not> sr_dead run" "\<not> (sr_up run \<and> \<not> su_socks_up (sg_u s))" by blast
  then show ?thesis
  proof cases
    case dead
    obtain u where u: "free_socks ?u = Some u" "sug_inv ais addr (s\<lparr>sg_u := u\<lparr>su_timer := True\<rparr>, sg_run := run\<rparr>)"
      using dropped_ok [OF i h(1) run(2) refl, of run] by blast
    then show ?thesis using run dead h(1) by (simp add: socks_client_handler_def)
  next
    case up
    obtain u cs where u: "socks_client_handler sender (\<lambda>n. realloc_block fresh None (nat n)) EVENT_UP ?u = Some (u, cs)"
      "sug_inv ais addr (s\<lparr>sg_u := u, sg_run := run\<rparr>)"
      using up_handler_ok [OF i h(1) up(3) run(2) up(1,2)] by blast
    then show ?thesis using run up by simp
  next
    case same
    have "su_socks_up (sg_u s) = sr_up run"
      using same socks_step_up [OF run(1)] sug_invD(7) [OF i h(1)] by blast
    then have "sug_inv ais addr (s\<lparr>sg_u := ?u, sg_run := run\<rparr>)"
      using same run h sug_invD(1-3) [OF i]
      by (intro sug_invI [OF i, where g = "su_udpgw_client (sg_u s)" and t = False and h = True and c = "sr_c run"
            and up = "su_socks_up (sg_u s)" and run = run and u = ?u]) simp_all
    then show ?thesis using run same by (auto simp: Let_def)
  qed
qed

lemma sug_step_inv:
  assumes i: "sug_inv ais addr s" and en: "sug_enabled s e"
  shows "\<exists>s'. sug_step s e = Some s' \<and> sug_inv ais addr s'"
proof (cases e)
  case (SgTimer ok)
  then show ?thesis using timer_step [OF i, of ok] en by simp
next
  case (SgSocks x sender fresh)
  then show ?thesis using socks_event_step [OF i, of x sender fresh] en by simp
next
  case (SgUdpGw x)
  have ne: "case x of UeConnect _ _ \<Rightarrow> False | UeDisconnect \<Rightarrow> False | _ \<Rightarrow> True"
    using SgUdpGw en by (simp split: udpgw_event.splits)
  obtain g cs u out where "udpgw_react (su_udpgw_client (sg_u s)) x = Some (g, cs)"
    "sug_calls cs ((sg_u s)\<lparr>su_udpgw_client := g\<rparr>) = Some (u, out)" "sug_inv ais addr (s\<lparr>sg_u := u, sg_user := sg_user s @ out\<rparr>)"
    using udpgw_step_ok [OF i _ ne] SgUdpGw en by auto
  then show ?thesis using SgUdpGw by simp
next
  case (SgSubmit l r dns d new w fresh)
  let ?e = "UeSubmit l r dns d new w fresh"
  obtain g cs u out where "udpgw_react (su_udpgw_client (sg_u s)) ?e = Some (g, cs)"
    "sug_calls cs ((sg_u s)\<lparr>su_udpgw_client := g\<rparr>) = Some (u, out)" "sug_inv ais addr (s\<lparr>sg_u := u, sg_user := sg_user s @ out\<rparr>)"
    using udpgw_step_ok [OF i, of ?e] SgSubmit en by auto
  then show ?thesis using SgSubmit by (simp add: SocksUdpGwClient_SubmitPacket_def)
qed

definition sug_init :: "BSocksClient_auth_info list \<Rightarrow> BAddr \<Rightarrow> sug_state \<Rightarrow> bool" where
  "sug_init ais addr s \<longleftrightarrow> (\<exists>raw udp_mtu maxc sbs ka server ok run u. sbs \<le> INT_MAX \<and> udp_mtu \<le> INT_MAX \<and> ip_addr addr \<and>
     list_all (\<lambda>ai. ai_auth_type ai = 0 \<or> ai_auth_type ai = 2) ais \<and>
     SocksUdpGwClient_Init raw udp_mtu maxc sbs ka server ais addr ok = Some (1, u) \<and>
     s = connected u run \<lparr>sg_u = u, sg_run = run, sg_user = []\<rparr>)"

lemma sug_init_inv:
  assumes "sug_init ais addr s"
  shows "sug_inv ais addr s"
proof -
  obtain raw udp_mtu maxc sbs ka server ok run u where b: "sbs \<le> INT_MAX" "udp_mtu \<le> INT_MAX" and ip: "ip_addr addr"
    and ty: "list_all (\<lambda>ai. ai_auth_type ai = 0 \<or> ai_auth_type ai = 2) ais"
    and init: "SocksUdpGwClient_Init raw udp_mtu maxc sbs ka server ais addr ok = Some (1, u)"
    and s: "s = connected u run \<lparr>sg_u = u, sg_run = run, sg_user = []\<rparr>"
    using assms unfolding sug_init_def by blast
  have sv: "\<not> BAddr_IsInvalid server" using init by (simp add: SocksUdpGwClient_Init_def)
  obtain k g where g: "UdpGwClient_Init (su_udpgw_client raw) udp_mtu maxc sbs ka = Some (k, g)" "k \<noteq> 0"
    using init by (auto simp: SocksUdpGwClient_Init_def Let_def bind_eq_Some_conv split: if_splits)
  have k1: "k = 1" "\<not> ug_have_server g"
    using g by (auto simp: UdpGwClient_Init_def Let_def bind_eq_Some_conv split: if_splits)
  have gi: "udpgw_inv g" using udpgw_Init_inv [OF _ b] g(1) k1(1) by blast
  obtain c where c: "BSocksClient_Init server ais addr ok = Some (if ok then 1 else 0, c)"
    using sv ty ip_addr_type [OF ip] by (simp add: BSocksClient_Init_def Let_def)
  have u: "u = raw\<lparr>su_udp_mtu := udp_mtu, su_socks_server_addr := server, su_auth_info := ais,
      su_remote_udpgw_addr := addr, su_udpgw_client := g, su_timer := \<not> ok, su_have_socks := ok, su_socks_client := c,
      su_socks_up := (if ok then False else su_socks_up raw)\<rparr>"
    using init g k1 c by (cases ok) (auto simp: SocksUdpGwClient_Init_def try_connect_def Let_def)
  have r: "socks_inv ais addr (socks_run0 c)" if ok
    using c ip that by (intro socks_init_inv) (auto simp: socks_init_def)
  show ?thesis using gi k1 ip ty sv r
    by (cases ok) (simp_all add: s u connected_def sug_inv_def Let_def socks_run0_def)
qed

interpretation sug: machine "sug_init ais addr" sug_step sug_enabled "sug_inv ais addr" for ais addr
  by unfold_locales (blast intro: sug_init_inv sug_step_inv)+

lemma sug_free_ok:
  assumes i: "sug_inv ais addr s"
  shows "\<exists>u. SocksUdpGwClient_Free (sg_u s) = Some u \<and> \<not> su_have_socks u \<and> \<not> su_timer u \<and> ug_list (su_udpgw_client u) = []"
proof (cases "su_have_socks (sg_u s)")
  case True
  obtain g' c' where f: "free_socks (sg_u s) = Some ((sg_u s)\<lparr>su_udpgw_client := g', su_socks_client := c', su_have_socks := False\<rparr>)"
    "udpgw_inv g'"
    using free_socks_ok [OF sug_invD(1) [OF i] _ True sug_invD(4) [OF i True] sug_invD(6) [OF i True]] sug_invD(3) [OF i] True by auto
  from udpgw_Free_returns [OF f(2)] f(1) True show ?thesis by (auto simp: SocksUdpGwClient_Free_def)
next
  case False
  then show ?thesis using udpgw_Free_returns [OF sug_invD(1) [OF i]] by (auto simp: SocksUdpGwClient_Free_def)
qed

section \<open>Property\<close>

text \<open>
  C28. The tunnel's udpgw connection is always up, being set up or waiting to be set up again: in every run, whatever the SOCKS server, the udpgw
  server, the network and the allocators do, as long as no send buffer of more than 2 GiB is allocated, no assertion fails, and at every moment either a SOCKS client exists or
  the reconnect timer is running, and not both; the udpgw client has a server exactly while the SOCKS client is up, and
  the object can be freed at any time, leaving no client, no timer and no connection.
\<close>

theorem socks_udpgw_keeps_trying:
  assumes "SocksUdpGwClient_Init raw udp_mtu max_connections send_buffer_size ka server ais addr ok = Some (1, u)"
    and "udp_mtu \<le> INT_MAX" "send_buffer_size \<le> INT_MAX" "ip_addr addr"
    and "list_all (\<lambda>ai. ai_auth_type ai = 0 \<or> ai_auth_type ai = 2) ais"
    and "s = connected u run \<lparr>sg_u = u, sg_run = run, sg_user = []\<rparr>"
    and "admissible sug_enabled sug_step s es"
  shows "\<exists>s'. exec sug_step s es = Some s' \<and>
    su_timer (sg_u s') = (\<not> su_have_socks (sg_u s')) \<and>
    ug_have_server (su_udpgw_client (sg_u s')) = (su_have_socks (sg_u s') \<and> sc_state (su_socks_client (sg_u s')) = STATE_UP) \<and>
    (\<exists>v. SocksUdpGwClient_Free (sg_u s') = Some v \<and> \<not> su_have_socks v \<and> \<not> su_timer v \<and> ug_list (su_udpgw_client v) = [])"
proof -
  have "sug_init ais addr s" unfolding sug_init_def using assms(1-6) by blast
  from sug.run_safe [OF this assms(7)] obtain s' where r: "exec sug_step s es = Some s'" and i: "sug_inv ais addr s'" by blast
  have "ug_have_server (su_udpgw_client (sg_u s')) = (su_have_socks (sg_u s') \<and> sc_state (su_socks_client (sg_u s')) = STATE_UP)"
    using sug_invD(3,4,6,7) [OF i] by (auto simp: socks_inv_def)
  then show ?thesis using r sug_invD(2) [OF i] sug_free_ok [OF i] by blast
qed

definition sug_raw :: SocksUdpGwClient where
  "sug_raw = \<lparr>su_udp_mtu = 0, su_socks_server_addr = BAddr_NONE, su_auth_info = [], su_remote_udpgw_addr = BAddr_NONE,
    su_udpgw_client = gw0, su_timer = True, su_have_socks = False, su_socks_client = sr_c (the socks_example), su_socks_up = True\<rparr>"

definition sug0 :: SocksUdpGwClient where
  "sug0 = snd (the (SocksUdpGwClient_Init sug_raw 2 1 1 1000 (BAddr_IPV4 1 2) [BSocksClient_auth_none] (BAddr_IPV4 3 4) False))"

definition sug_s0 :: sug_state where
  "sug_s0 = connected sug0 (the socks_example) \<lparr>sg_u = sug0, sg_run = the socks_example, sg_user = []\<rparr>"

definition sug_events :: "sug_event list" where
  "sug_events = [SgTimer True, SgSubmit (BAddr_IPV4 1 1) (BAddr_IPV4 2 2) False [1] (Some 5) writer0 (Some []),
    SgSocks (SeConnector False True (Some [])) sender0 None, SgSocks (SeSent (Some [])) sender0 None,
    SgSocks (SeReceived [5, 0] (Some [])) sender0 None, SgSocks (SeSent (Some [])) sender0 None,
    SgSocks (SeReceived [5, 0, 0, 1] None) sender0 None, SgSocks (SeReceived [0, 0, 0, 0, 0, 0] None) sender0 (Some []),
    SgUdpGw (UeReceive (udpgw_packet 0 0 (BAddr_IPV4 2 2) [8])), SgUdpGw UeDecoderError, SgTimer False]"

lemma sug0_Init: "SocksUdpGwClient_Init sug_raw 2 1 1 1000 (BAddr_IPV4 1 2) [BSocksClient_auth_none] (BAddr_IPV4 3 4) False =
    Some (1, sug0)"
proof -
  have "map_option fst (SocksUdpGwClient_Init sug_raw 2 1 1 1000 (BAddr_IPV4 1 2) [BSocksClient_auth_none] (BAddr_IPV4 3 4) False) = Some 1"
    by code_simp
  then show ?thesis unfolding sug0_def by auto
qed

theorem socks_udpgw_keeps_trying_witness:
  "\<exists>s'. exec sug_step sug_s0 sug_events = Some s' \<and>
    su_timer (sg_u s') = (\<not> su_have_socks (sg_u s')) \<and>
    ug_have_server (su_udpgw_client (sg_u s')) = (su_have_socks (sg_u s') \<and> sc_state (su_socks_client (sg_u s')) = STATE_UP) \<and>
    (\<exists>v. SocksUdpGwClient_Free (sg_u s') = Some v \<and> \<not> su_have_socks v \<and> \<not> su_timer v \<and> ug_list (su_udpgw_client v) = [])"
proof (rule socks_udpgw_keeps_trying [OF sug0_Init, where run = "the socks_example"])
  show "admissible sug_enabled sug_step sug_s0 sug_events" by code_simp
qed (simp_all add: BSocksClient_auth_none_def sug_s0_def)

end
