(* ===== verification/IPProto.thy ===== *)
theory IPProto
  imports Byteorder
begin

text \<open>
  misc/ipv4_proto.h, misc/ipv6_proto.h and misc/udp_proto.h: the headers, their checks and the
  Internet checksums. A packed header is a record with its memory image; fields hold the bytes in
  network order, as in the code. A check returns the header with the payload, or \<open>None\<close> inside when the
  packet is rejected.
\<close>

section \<open>Headers\<close>

abbreviation (input) IPV4_PROTOCOL_UDP :: u8 where "IPV4_PROTOCOL_UDP \<equiv> 17"
abbreviation (input) IPV6_NEXT_UDP :: u8 where "IPV6_NEXT_UDP \<equiv> 17"

record ipv4_header =
  ip4_version4_ihl4 :: u8
  ip4_ds :: u8
  ip4_total_length :: u16
  ip4_identification :: u16
  ip4_flags3_fragmentoffset13 :: u16
  ip4_ttl :: u8
  ip4_protocol :: u8
  ip4_checksum :: u16
  ip4_source_address :: u32
  ip4_destination_address :: u32

definition ipv4_header_image :: "ipv4_header \<Rightarrow> bytes" where
  [codec_simps]: "ipv4_header_image h = [ip4_version4_ihl4 h, ip4_ds h] @ mem16 (ip4_total_length h) @
     mem16 (ip4_identification h) @ mem16 (ip4_flags3_fragmentoffset13 h) @ [ip4_ttl h, ip4_protocol h] @
     mem16 (ip4_checksum h) @ mem32 (ip4_source_address h) @ mem32 (ip4_destination_address h)"

definition ipv4_header_of :: "bytes \<Rightarrow> ipv4_header" where
  [codec_simps]: "ipv4_header_of b = \<lparr>ip4_version4_ihl4 = b ! 0, ip4_ds = b ! 1,
     ip4_total_length = of_mem16 (take 2 (drop 2 b)), ip4_identification = of_mem16 (take 2 (drop 4 b)),
     ip4_flags3_fragmentoffset13 = of_mem16 (take 2 (drop 6 b)), ip4_ttl = b ! 8, ip4_protocol = b ! 9,
     ip4_checksum = of_mem16 (take 2 (drop 10 b)), ip4_source_address = of_mem32 (take 4 (drop 12 b)),
     ip4_destination_address = of_mem32 (drop 16 b)\<rparr>"

record ipv6_header =
  ip6_version4_tc4 :: u8
  ip6_tc4_fl4 :: u8
  ip6_fl :: u16
  ip6_payload_length :: u16
  ip6_next_header :: u8
  ip6_hop_limit :: u8
  ip6_source_address :: bytes
  ip6_destination_address :: bytes

definition ipv6_header_image :: "ipv6_header \<Rightarrow> bytes" where
  [codec_simps]: "ipv6_header_image h = [ip6_version4_tc4 h, ip6_tc4_fl4 h] @ mem16 (ip6_fl h) @
     mem16 (ip6_payload_length h) @ [ip6_next_header h, ip6_hop_limit h] @ ip6_source_address h @ ip6_destination_address h"

definition ipv6_header_of :: "bytes \<Rightarrow> ipv6_header" where
  [codec_simps]: "ipv6_header_of b = \<lparr>ip6_version4_tc4 = b ! 0, ip6_tc4_fl4 = b ! 1, ip6_fl = of_mem16 (take 2 (drop 2 b)),
     ip6_payload_length = of_mem16 (take 2 (drop 4 b)), ip6_next_header = b ! 6, ip6_hop_limit = b ! 7,
     ip6_source_address = take 16 (drop 8 b), ip6_destination_address = drop 24 b\<rparr>"

record udp_header =
  udp_source_port :: u16
  udp_dest_port :: u16
  udp_length :: u16
  udp_checksum_field :: u16

definition udp_header_image :: "udp_header \<Rightarrow> bytes" where
  [codec_simps]: "udp_header_image h =
     mem16 (udp_source_port h) @ mem16 (udp_dest_port h) @ mem16 (udp_length h) @ mem16 (udp_checksum_field h)"

definition udp_header_of :: "bytes \<Rightarrow> udp_header" where
  [codec_simps]: "udp_header_of b = \<lparr>udp_source_port = of_mem16 (take 2 b), udp_dest_port = of_mem16 (take 2 (drop 2 b)),
     udp_length = of_mem16 (take 2 (drop 4 b)), udp_checksum_field = of_mem16 (drop 6 b)\<rparr>"

section \<open>Checksums\<close>

text \<open>The loops: adding up the big-endian 16-bit words, and folding the carries of a 32-bit sum.\<close>

fun sum_be16 :: "u32 \<Rightarrow> bytes \<Rightarrow> u32" where
  "sum_be16 t (a # b # rest) = sum_be16 (t + ucast (badvpn_read_be16 [a, b])) rest"
| "sum_be16 t _ = t"

lemma unat_high16: "unat (drop_bit 16 t) = unat (t :: u32) div 65536"
  by (simp only: unat_drop_bit_eq) (simp add: drop_bit_eq_div)

lemma unat_low16: "unat (t AND 0xFFFF) = unat (t :: u32) mod 65536"
proof -
  have "t AND 0xFFFF = take_bit 16 t" by (simp add: take_bit_eq_mask mask_eq_exp_minus_1)
  then have "unat (t AND 0xFFFF) = take_bit 16 (unat t)" by (simp only: unsigned_take_bit_eq)
  then show ?thesis by (simp add: take_bit_eq_mod)
qed

lemma unat_fold:
  fixes t :: u32
  shows "unat ((t AND 0xFFFF) + drop_bit 16 t) = unat t mod 65536 + unat t div 65536"
proof -
  have "unat t < 4294967296" using unsigned_less [of t, where 'a = nat] by simp
  then have "unat t mod 65536 + unat t div 65536 < 4294967296" by linarith
  then show ?thesis by (simp only: unat_word_ariths unat_low16 unat_high16) simp
qed

lemma fold_decreases:
  fixes t :: u32
  assumes "drop_bit 16 t \<noteq> 0"
  shows "unat ((t AND 0xFFFF) + drop_bit 16 t) < unat t"
proof -
  have "0 < unat t div 65536" using assms unat_high16 [of t] by (metis gr0I unat_eq_zero)
  moreover have "unat t = 65536 * (unat t div 65536) + unat t mod 65536" by simp
  ultimately show ?thesis unfolding unat_fold by linarith
qed

function fold_carry :: "u32 \<Rightarrow> u32" where
  "fold_carry t = (if drop_bit 16 t \<noteq> 0 then fold_carry ((t AND 0xFFFF) + drop_bit 16 t) else t)"
  by auto
termination
  by (relation "measure unat") (simp_all add: fold_decreases)

declare fold_carry.simps [simp del]

text \<open>\<open>extra\<close> are the bytes the pointer refers to; \<open>extra_len\<close> of them are used.\<close>

definition ipv4_checksum :: "ipv4_header \<Rightarrow> bytes \<Rightarrow> u16 \<Rightarrow> u16 option" where
  "ipv4_checksum header extra extra_len = do {
     ASSERT (extra_len mod 2 = 0);
     let t = sum_be16 0 (ipv4_header_image header);
     e \<leftarrow> mem_read extra 0 (unat extra_len);
     let t = sum_be16 t e;
     let t = fold_carry t;
     Some (hton16 (ucast (NOT t)))
   }"

definition udp_checksum_summer :: "bytes \<Rightarrow> u16 \<Rightarrow> u32 option" where
  "udp_checksum_summer data len = do {
     ASSERT (len mod 2 = 0);
     d \<leftarrow> mem_read data 0 (unat len);
     Some (sum_be16 0 d)
   }"

text \<open>The part that the two UDP checksums share: header, payload, folding.\<close>

definition udp_checksum_rest :: "u32 \<Rightarrow> udp_header \<Rightarrow> bytes \<Rightarrow> u16 \<Rightarrow> u16 option" where
  "udp_checksum_rest t header payload payload_len = do {
     s \<leftarrow> udp_checksum_summer (udp_header_image header) 8;
     let t = t + s;
     t \<leftarrow> (if payload_len mod 2 = 0
       then do {
         s \<leftarrow> udp_checksum_summer payload payload_len;
         Some (t + s)
       }
       else do {
         s \<leftarrow> udp_checksum_summer payload (payload_len - 1);
         b \<leftarrow> mem_read payload (unat (payload_len - 1)) 1;
         s' \<leftarrow> udp_checksum_summer (mem16 (hton16 (push_bit 8 (ucast (b ! 0))))) 2;
         Some (t + s + s')
       });
     let t = fold_carry t;
     let t = (if t = 0 then 0xFFFF else t);
     Some (hton16 (ucast (NOT t)))
   }"

definition udp_checksum :: "udp_header \<Rightarrow> bytes \<Rightarrow> u16 \<Rightarrow> u32 \<Rightarrow> u32 \<Rightarrow> u16 option" where
  "udp_checksum header payload payload_len source_addr dest_addr = do {
     s1 \<leftarrow> udp_checksum_summer (mem32 source_addr) 4;
     s2 \<leftarrow> udp_checksum_summer (mem32 dest_addr) 4;
     s3 \<leftarrow> udp_checksum_summer (mem16 (hton16 17)) 2;
     s4 \<leftarrow> udp_checksum_summer (mem16 (hton16 (8 + payload_len))) 2;
     udp_checksum_rest (0 + s1 + s2 + s3 + s4) header payload payload_len
   }"

definition udp_ip6_checksum :: "udp_header \<Rightarrow> bytes \<Rightarrow> u16 \<Rightarrow> bytes \<Rightarrow> bytes \<Rightarrow> u16 option" where
  "udp_ip6_checksum header payload payload_len source_addr dest_addr = do {
     s1 \<leftarrow> udp_checksum_summer source_addr 16;
     s2 \<leftarrow> udp_checksum_summer dest_addr 16;
     s3 \<leftarrow> udp_checksum_summer (mem32 (hton32 (8 + ucast payload_len))) 4;
     s4 \<leftarrow> udp_checksum_summer (mem32 (hton32 17)) 4;
     udp_checksum_rest (0 + s1 + s2 + s3 + s4) header payload payload_len
   }"

section \<open>Checks\<close>

definition ipv4_check :: "bytes \<Rightarrow> int \<Rightarrow> (ipv4_header \<times> bytes \<times> int) option option" where
  "ipv4_check data data_len = do {
     ASSERT (data_len \<ge> 0);
     if data_len < 20 then Some None
     else do {
       img \<leftarrow> mem_read data 0 20;
       let out_header = ipv4_header_of img;
       if drop_bit 4 (ip4_version4_ihl4 out_header AND 0xF0) \<noteq> 4 then Some None
       else do {
         let header_len = (ucast (ip4_version4_ihl4 out_header AND 0x0F) :: u16) * 4;
         if uint header_len < 20 then Some None
         else if uint header_len > data_len then Some None
         else do {
           let total_length = ntoh16 (ip4_total_length out_header);
           if total_length < header_len then Some None
           else if uint total_length > data_len then Some None
           else do {
             let checksum_in_packet = ip4_checksum out_header;
             checksum_computed \<leftarrow>
               ipv4_checksum (out_header\<lparr>ip4_checksum := hton16 0\<rparr>) (drop 20 data) (header_len - 20);
             if checksum_in_packet \<noteq> checksum_computed then Some None
             else Some (Some (out_header, drop (unat header_len) data, uint total_length - uint header_len))
           }
         }
       }
     }
   }"

definition ipv6_check :: "bytes \<Rightarrow> int \<Rightarrow> (ipv6_header \<times> bytes \<times> int) option option" where
  "ipv6_check data data_len = do {
     ASSERT (data_len \<ge> 0);
     if data_len < 40 then Some None
     else do {
       img \<leftarrow> mem_read data 0 40;
       let out_header = ipv6_header_of img;
       if drop_bit 4 (ntoh8 (ip6_version4_tc4 out_header)) \<noteq> 6 then Some None
       else do {
         let payload_length = ntoh16 (ip6_payload_length out_header);
         if uint payload_length > data_len - 40 then Some None
         else Some (Some (out_header, drop 40 data, uint payload_length))
       }
     }
   }"

definition udp_check :: "bytes \<Rightarrow> int \<Rightarrow> (udp_header \<times> bytes \<times> int) option option" where
  "udp_check data data_len = do {
     ASSERT (data_len \<ge> 0);
     if data_len < 8 then Some None
     else do {
       img \<leftarrow> mem_read data 0 8;
       let out_header = udp_header_of img;
       let data = drop 8 data;
       let data_len = data_len - 8;
       let udp_len = uint (ntoh16 (udp_length out_header));
       if udp_len < 8 then Some None
       else if udp_len > 8 + data_len then Some None
       else Some (Some (out_header, data, udp_len - 8))
     }
   }"

section \<open>Codecs\<close>

lemma glue: "n + k = m \<Longrightarrow> take k (drop n b) @ drop m b = drop n b"
  by (metis append_take_drop_id drop_drop add.commute)

lemma glue1: "Suc n = m \<Longrightarrow> n < length b \<Longrightarrow> b ! n # drop m b = drop n b"
  by (metis Cons_nth_drop_Suc)

interpretation udp_hdr: codec udp_header_image udp_header_of 8 "\<lambda>_. True"
proof (unfold_locales, goal_cases)
  case (3 b)
  then show ?case
    by (simp add: codec_simps mem16_of_mem16 glue [of 0 2 2 b, simplified] glue [of 2 2 4 b] glue [of 4 2 6 b])
qed (simp_all add: codec_simps)

interpretation ipv4_hdr: codec ipv4_header_image ipv4_header_of 20 "\<lambda>_. True"
proof (unfold_locales, goal_cases)
  case (3 b)
  then show ?case
    by (simp add: codec_simps mem16_of_mem16 mem32_of_mem32 glue [of 2 2 4 b] glue [of 4 2 6 b] glue [of 6 2 8 b]
        glue [of 10 2 12 b] glue [of 12 4 16 b] glue1 [of 9 10] glue1 [of 8 9] glue1 [of "Suc 0" 2 b] glue1 [of 0 "Suc 0" b])
qed (simp_all add: codec_simps nth_append)

interpretation ipv6_hdr: codec ipv6_header_image ipv6_header_of 40
  "\<lambda>h. length (ip6_source_address h) = 16 \<and> length (ip6_destination_address h) = 16"
proof (unfold_locales, goal_cases)
  case (3 b)
  then show ?case
    by (simp add: codec_simps mem16_of_mem16 glue [of 2 2 4 b] glue [of 4 2 6 b] glue [of 8 16 24 b]
        glue1 [of 7 8] glue1 [of 6 7] glue1 [of "Suc 0" 2 b] glue1 [of 0 "Suc 0" b])
qed (simp_all add: codec_simps nth_append)

section \<open>Checksum arithmetic\<close>

text \<open>
  The specification of RFC 1071: the sum of the 16-bit big-endian words of a byte sequence, an odd last byte
  padded with zero; a sequence verifies when that sum is zero in one's complement arithmetic.
\<close>

fun words_sum :: "bytes \<Rightarrow> nat" where
  "words_sum (a # b # rest) = 256 * unat a + unat b + words_sum rest"
| "words_sum [a] = 256 * unat a"
| "words_sum [] = 0"

definition verifies :: "bytes \<Rightarrow> bool" where
  "verifies bs \<longleftrightarrow> words_sum bs mod 65535 = 0"

lemma read_be16_val: "unat (badvpn_read_be16 [a, b]) = 256 * unat a + unat b"
proof -
  have "badvpn_read_be16 [a, b] = of_nat (256 * unat a + unat b)"
  proof -
    have "push_bit 8 (ucast a) OR ucast b = (push_bit 8 (ucast a) + ucast b :: u16)"
      by (rule disjunctive_add [symmetric]) (auto simp: bit_simps)
    also have "\<dots> = of_nat (256 * unat a + unat b)" by (simp add: push_bit_eq_mult of_nat_unat)
    finally show ?thesis by (simp add: badvpn_read_be16_def)
  qed
  moreover have "256 * unat a + unat b < 65536"
    using unsigned_less [of a, where 'a = nat] unsigned_less [of b, where 'a = nat] by simp
  ultimately show ?thesis by (simp only: unat_of_nat) simp
qed

lemma words_sum_append: "even (length xs) \<Longrightarrow> words_sum (xs @ ys) = words_sum xs + words_sum ys"
  by (induction xs rule: words_sum.induct) simp_all

lemma words_sum_bound: "words_sum bs \<le> 65535 * ((length bs + 1) div 2)"
proof (induction bs rule: words_sum.induct)
  case (1 a b rest)
  have "256 * unat a + unat b \<le> 65535"
    using unsigned_less [of a, where 'a = nat] unsigned_less [of b, where 'a = nat] by simp
  with 1 show ?case by simp
next
  case (2 a)
  then show ?case using unsigned_less [of a, where 'a = nat] by simp
qed simp

lemma words_sum_odd: "odd (length bs) \<Longrightarrow> words_sum bs = words_sum (butlast bs) + 256 * unat (last bs)"
  by (induction bs rule: words_sum.induct) auto

lemma words_sum_be16: "words_sum (badvpn_write_be16 x) = unat x"
  using read_be16_val [of "ucast (drop_bit 8 x)" "ucast x"] badvpn_read_write_be16 [of x]
  by (simp add: badvpn_write_be16_def)

lemma words_sum_mem16: "words_sum (mem16 x) = unat (ntoh16 x)"
  using words_sum_be16 [of "ntoh16 x"] by (simp add: mem16_hton16 [symmetric])

lemma sum_be16_exact:
  "even (length bs) \<Longrightarrow> unat t + words_sum bs < 4294967296 \<Longrightarrow> unat (sum_be16 t bs) = unat t + words_sum bs"
proof (induction t bs rule: sum_be16.induct)
  case (1 t a b rest)
  let ?v = "badvpn_read_be16 [a, b]"
  have "256 * unat a + unat b < 4294967296"
    using unsigned_less [of a, where 'a = nat] unsigned_less [of b, where 'a = nat] by simp
  then have "unat (ucast ?v :: u32) = 256 * unat a + unat b"
    by (simp add: read_be16_val unsigned_ucast_eq take_bit_nat_eq_self)
  moreover have "unat (t + ucast ?v) = unat t + unat (ucast ?v :: u32)"
    using 1 calculation by (simp add: unat_word_ariths)
  ultimately show ?case using 1 by simp
qed simp_all

lemma fold_carry_small: "drop_bit 16 t = 0 \<Longrightarrow> fold_carry t = t"
  by (subst fold_carry.simps) simp

lemma fold_carry_step: "drop_bit 16 t \<noteq> 0 \<Longrightarrow> fold_carry t = fold_carry ((t AND 0xFFFF) + drop_bit 16 t)"
  by (subst fold_carry.simps) simp

lemma fold_carry_spec:
  "unat (fold_carry t) \<le> 65535 \<and> unat (fold_carry t) mod 65535 = unat t mod 65535 \<and> (fold_carry t = 0 \<longleftrightarrow> t = 0)"
proof (induction t rule: fold_carry.induct)
  case (1 t)
  show ?case
  proof (cases "drop_bit 16 t = 0")
    case True
    then have "unat t div 65536 = 0" using unat_high16 [of t] by simp
    then have "unat t \<le> 65535" by simp
    with fold_carry_small [OF True] show ?thesis by simp
  next
    case False
    let ?u = "(t AND 0xFFFF) + drop_bit 16 t"
    have "unat t = 65535 * (unat t div 65536) + unat ?u"
      unfolding unat_fold by simp
    then have "unat ?u mod 65535 = unat t mod 65535" by (metis mod_mult_self4)
    moreover have "?u \<noteq> 0"
    proof
      assume "?u = 0"
      then have "unat t div 65536 = 0" using unat_fold [of t] by simp
      with False unat_high16 [of t] show False by (metis unat_eq_zero)
    qed
    moreover have "t \<noteq> 0" using False by auto
    moreover have "fold_carry t = fold_carry ?u" using False by (rule fold_carry_step)
    ultimately show ?thesis using 1 False by simp
  qed
qed

lemma complement16:
  assumes "unat (t :: u32) \<le> 65535"
  shows "unat (ucast (NOT t) :: u16) = 65535 - unat t"
proof -
  have "ucast (NOT t) = NOT (ucast t :: u16)" by (auto intro!: bit_word_eqI simp: bit_simps)
  also have "\<dots> = - 1 - ucast t" by (simp add: not_eq_complement)
  finally have "unat (ucast (NOT t) :: u16) = unat (- 1 - ucast t :: u16)" by simp
  also have "\<dots> = unat (- 1 :: u16) - unat (ucast t :: u16)" by (simp add: unat_sub)
  also have "unat (ucast t :: u16) = unat t"
    using assms by (simp add: unsigned_ucast_eq take_bit_nat_eq_self)
  finally show ?thesis by (simp add: unsigned_minus_1_eq_mask mask_eq_exp_minus_1)
qed

lemma complement_sum:
  fixes t :: u32
  defines "c \<equiv> ucast (NOT (fold_carry t)) :: u16"
  shows "(unat t + unat c) mod 65535 = 0"
    and "t \<noteq> 0 \<Longrightarrow> unat c < 65535 \<and> (c = 0 \<longleftrightarrow> unat t mod 65535 = 0)"
proof -
  let ?f = "unat (fold_carry t)"
  have f: "?f \<le> 65535" "?f mod 65535 = unat t mod 65535" "fold_carry t = 0 \<longleftrightarrow> t = 0"
    using fold_carry_spec [of t] by auto
  have c: "unat c = 65535 - ?f" unfolding c_def using f(1) by (rule complement16)
  have "(unat t + unat c) mod 65535 = (?f + unat c) mod 65535" using f(2) by (metis mod_add_left_eq)
  then show "(unat t + unat c) mod 65535 = 0" using c f(1) by simp
  assume "t \<noteq> 0"
  then have "0 < ?f" using f(3) by (metis gr0I unat_eq_zero)
  moreover from this f(1) have "?f mod 65535 = 0 \<longleftrightarrow> ?f = 65535"
    by (cases "?f = 65535") simp_all
  moreover have "c = 0 \<longleftrightarrow> ?f = 65535" using c f(1) by (metis diff_is_0_eq le_antisym unat_eq_zero diff_self_eq_0)
  ultimately show "unat c < 65535 \<and> (c = 0 \<longleftrightarrow> unat t mod 65535 = 0)" using c f by simp
qed

lemma even_length_mem [simp]: "even (length (mem16 x))" "even (length (mem32 y))"
  by simp_all

lemma hton16_0 [simp]: "hton16 0 = 0" "ntoh16 0 = 0"
  by code_simp+

lemma words_sum_ipv4_checksum:
  "words_sum (ipv4_header_image (h\<lparr>ip4_checksum := c\<rparr>)) =
   words_sum (ipv4_header_image (h\<lparr>ip4_checksum := 0\<rparr>)) + unat (ntoh16 c)"
  by (simp add: ipv4_header_image_def words_sum_append words_sum_mem16)

lemma words_sum_udp_checksum:
  "words_sum (udp_header_image (h\<lparr>udp_checksum_field := c\<rparr>)) =
   words_sum (udp_header_image (h\<lparr>udp_checksum_field := 0\<rparr>)) + unat (ntoh16 c)"
  by (simp add: udp_header_image_def words_sum_append words_sum_mem16)

lemma word_even: "(n :: u16) mod 2 = 0 \<longleftrightarrow> even (unat n)"
proof -
  have "unat (n mod 2) = unat n mod 2" by (simp add: unat_mod_distrib)
  then show ?thesis by (metis even_iff_mod_2_eq_zero unat_eq_zero)
qed

lemma sum_image_bound: "words_sum bs < 4294967296 - 2000000" if "length bs \<le> 66000"
  using words_sum_bound [of bs] that by linarith

lemma udp_summer_eq:
  assumes "even (unat n)" "unat n \<le> length d"
  shows "\<exists>s. udp_checksum_summer d n = Some s \<and> unat s = words_sum (take (unat n) d)"
proof -
  have "length (take (unat n) d) \<le> 66000" using unsigned_less [of n, where 'a = nat] by simp
  then have "unat (sum_be16 0 (take (unat n) d)) = words_sum (take (unat n) d)"
    using sum_image_bound [of "take (unat n) d"] assms sum_be16_exact [of "take (unat n) d" 0] by simp
  with assms show ?thesis by (simp add: udp_checksum_summer_def word_even mem_read_def)
qed

lemma udp_summer_full:
  assumes "length d = unat n" "even (unat n)"
  obtains s where "udp_checksum_summer d n = Some s" "unat s = words_sum d"
  using udp_summer_eq [of n d] assms by auto

lemma unat_add3:
  fixes a b :: u32
  assumes "unat a + unat b < 4294967296"
  shows "unat (a + b) = unat a + unat b"
  using assms by (simp add: unat_word_ariths)

text \<open>The last byte of a payload of odd length is summed as the high byte of a word.\<close>

lemma words_sum_high: "words_sum (mem16 (hton16 (push_bit 8 (ucast b)))) = 256 * unat (b :: u8)"
proof -
  have "mem16 (hton16 (push_bit 8 (ucast b))) = [b, 0]"
    by (simp add: mem16_hton16 badvpn_write_be16_def) (auto intro!: bit_word_eqI simp: bit_simps)
  then show ?thesis by simp
qed

lemma udp_payload_sum:
  assumes "unat n \<le> length payload" "unat t + words_sum (take (unat n) payload) < 4294967296"
  shows "\<exists>t'. (if n mod 2 = 0
       then do {
         s \<leftarrow> udp_checksum_summer payload n;
         Some (t + s)
       }
       else do {
         s \<leftarrow> udp_checksum_summer payload (n - 1);
         b \<leftarrow> mem_read payload (unat (n - 1)) 1;
         s' \<leftarrow> udp_checksum_summer (mem16 (hton16 (push_bit 8 (ucast (b ! 0))))) 2;
         Some (t + s + s')
       }) = Some t' \<and> unat t' = unat t + words_sum (take (unat n) payload)"
proof (cases "even (unat n)")
  case True
  with assms udp_summer_eq [of n payload] show ?thesis by (auto simp: word_even unat_add3)
next
  case False
  then obtain k where k: "unat n = Suc k" by (metis even_zero not0_implies_Suc)
  have n1: "unat (n - 1) = k" using k by (metis One_nat_def diff_Suc_1 unat_minus_one unat_0 nat.distinct(1))
  have take: "take (Suc k) payload = take k payload @ [payload ! k]"
    using assms(1) k by (simp add: take_Suc_conv_app_nth)
  have even: "even k" using False k by simp
  obtain s where s: "udp_checksum_summer payload (n - 1) = Some s" "unat s = words_sum (take k payload)"
    using udp_summer_eq [of "n - 1" payload] n1 even assms(1) k by auto
  obtain s' where s': "udp_checksum_summer (mem16 (hton16 (push_bit 8 (ucast (payload ! k))))) 2 = Some s'"
    "unat s' = 256 * unat (payload ! k)"
    by (rule udp_summer_full [of "mem16 (hton16 (push_bit 8 (ucast (payload ! k))))" 2]) (simp_all add: words_sum_high)
  have r: "mem_read payload k 1 = Some [payload ! k]"
    using assms(1) k by (simp add: mem_read_def take_Suc hd_drop_conv_nth)
  have w: "words_sum (take (unat n) payload) = unat s + unat s'"
    using s(2) s'(2) take k even assms(1) by (simp add: words_sum_append min_def)
  have "unat (t + s + s') = unat t + words_sum (take (unat n) payload)"
    using assms(2) w by (simp add: unat_add3)
  with s(1) s'(1) r n1 False show ?thesis by (simp add: word_even)
qed

definition udp_pseudo4 :: "u32 \<Rightarrow> u32 \<Rightarrow> u16 \<Rightarrow> bytes" where
  "udp_pseudo4 source dest n = mem32 source @ mem32 dest @ badvpn_write_be16 17 @ badvpn_write_be16 (8 + n)"

definition udp_pseudo6 :: "bytes \<Rightarrow> bytes \<Rightarrow> u16 \<Rightarrow> bytes" where
  "udp_pseudo6 source dest n = source @ dest @ badvpn_write_be32 (8 + ucast n) @ badvpn_write_be32 17"

lemma udp_rest_sum:
  fixes h :: udp_header
  assumes t: "0 < unat t" "unat t \<le> 2000000" and n: "unat n \<le> length payload"
  defines "S \<equiv> unat t + words_sum (udp_header_image h) + words_sum (take (unat n) payload)"
  shows "\<exists>c. udp_checksum_rest t h payload n = Some c \<and> (S + unat (ntoh16 c)) mod 65535 = 0 \<and>
    (c = 0 \<longleftrightarrow> S mod 65535 = 0)"
proof -
  have img: "length (udp_header_image h) = 8" by (simp add: udp_hdr.length_enc)
  have "words_sum (udp_header_image h) \<le> 300000" using words_sum_bound [of "udp_header_image h"] img by simp
  moreover have "words_sum (take (unat n) payload) < 4294967296 - 2000000 - 1000000"
    using words_sum_bound [of "take (unat n) payload"] unsigned_less [of n, where 'a = nat] by simp
  moreover obtain s where s: "udp_checksum_summer (udp_header_image h) 8 = Some s" "unat s = words_sum (udp_header_image h)"
    by (rule udp_summer_full [of "udp_header_image h" 8]) (simp_all add: img)
  ultimately have ts: "unat (t + s) = unat t + unat s" and lt: "unat (t + s) + words_sum (take (unat n) payload) < 4294967296"
    using t by (simp_all add: unat_add3)
  note sum = udp_payload_sum [OF n lt]
  from sum obtain t'' where body: "udp_checksum_rest t h payload n =
      Some (hton16 (ucast (NOT (if fold_carry t'' = 0 then 0xFFFF else fold_carry t''))))"
    and S: "unat t'' = S"
    unfolding udp_checksum_rest_def S_def using s ts by (auto simp: Let_def)
  have "t'' \<noteq> 0" using S t(1) unfolding S_def by auto
  then have nz: "fold_carry t'' \<noteq> 0" using fold_carry_spec [of t''] by blast
  have z: "hton16 x = 0 \<longleftrightarrow> x = 0" for x by (metis hton16_0(1) hton16_eq_iff)
  show ?thesis
    using body nz complement_sum [of t''] \<open>t'' \<noteq> 0\<close> unfolding S [symmetric] by (simp add: z)
qed

lemma be_lengths [simp]: "length (badvpn_write_be16 x) = 2" "length (badvpn_write_be32 y) = 4"
  by (simp_all add: badvpn_write_be16_def badvpn_write_be32_def)

lemma udp4_pseudo_sum:
  obtains s1 s2 s3 s4 where
    "udp_checksum_summer (mem32 source) 4 = Some s1" "udp_checksum_summer (mem32 dest) 4 = Some s2"
    "udp_checksum_summer (mem16 (hton16 17)) 2 = Some s3" "udp_checksum_summer (mem16 (hton16 (8 + n))) 2 = Some s4"
    "unat (0 + s1 + s2 + s3 + s4) = words_sum (udp_pseudo4 source dest n)"
    "0 < words_sum (udp_pseudo4 source dest n)" "words_sum (udp_pseudo4 source dest n) \<le> 2000000"
proof -
  obtain s1 where s1: "udp_checksum_summer (mem32 source) 4 = Some s1" "unat s1 = words_sum (mem32 source)"
    by (rule udp_summer_full [of "mem32 source" 4]) simp_all
  obtain s2 where s2: "udp_checksum_summer (mem32 dest) 4 = Some s2" "unat s2 = words_sum (mem32 dest)"
    by (rule udp_summer_full [of "mem32 dest" 4]) simp_all
  obtain s3 where s3: "udp_checksum_summer (mem16 (hton16 17)) 2 = Some s3" "unat s3 = words_sum (badvpn_write_be16 17)"
    by (rule udp_summer_full [of "mem16 (hton16 17)" 2]) (simp_all add: mem16_hton16)
  obtain s4 where s4: "udp_checksum_summer (mem16 (hton16 (8 + n))) 2 = Some s4"
    "unat s4 = words_sum (badvpn_write_be16 (8 + n))"
    by (rule udp_summer_full [of "mem16 (hton16 (8 + n))" 2]) (simp_all add: mem16_hton16)
  let ?W = "words_sum (udp_pseudo4 source dest n)"
  have W: "?W = unat s1 + unat s2 + unat s3 + unat s4"
    by (simp add: udp_pseudo4_def words_sum_append s1 s2 s3 s4)
  have le: "?W \<le> 2000000"
    using words_sum_bound [of "udp_pseudo4 source dest n"] by (simp add: udp_pseudo4_def)
  have "unat s3 = 17" using s3(2) by (simp add: words_sum_be16)
  then have "0 < ?W" using W by simp
  moreover have "unat (0 + s1 + s2 + s3 + s4) = ?W" using W le by (simp add: unat_add3)
  ultimately show ?thesis using that s1(1) s2(1) s3(1) s4(1) le by blast
qed

text \<open>What both UDP checksums achieve, for the pseudo-header \<open>ps\<close> whose sum the code starts from.\<close>

lemma udp_rest_verifies:
  assumes W: "unat t = words_sum ps" "0 < words_sum ps" "words_sum ps \<le> 2000000" "even (length ps)"
    and n: "unat n \<le> length payload" and h: "udp_checksum_field h = 0"
  shows "\<exists>c. udp_checksum_rest t h payload n = Some c \<and>
    verifies (ps @ udp_header_image (h\<lparr>udp_checksum_field := c\<rparr>) @ take (unat n) payload) \<and>
    (c = 0 \<longleftrightarrow> verifies (ps @ udp_header_image h @ take (unat n) payload))"
proof -
  have h: "h\<lparr>udp_checksum_field := 0\<rparr> = h" using h by (cases h) simp
  have ev: "even (length (udp_header_image g))" for g by (simp add: udp_header_image_def)
  show ?thesis
    using udp_rest_sum [of t n payload h] n W
    by (auto simp: verifies_def words_sum_append ev words_sum_udp_checksum h ac_simps)
qed

lemma udp_checksum_spec:
  assumes "unat n \<le> length payload" "udp_checksum_field h = 0"
  shows "\<exists>c. udp_checksum h payload n source dest = Some c \<and>
    verifies (udp_pseudo4 source dest n @ udp_header_image (h\<lparr>udp_checksum_field := c\<rparr>) @ take (unat n) payload) \<and>
    (c = 0 \<longleftrightarrow> verifies (udp_pseudo4 source dest n @ udp_header_image h @ take (unat n) payload))"
proof -
  obtain s1 s2 s3 s4 where s: "udp_checksum_summer (mem32 source) 4 = Some s1" "udp_checksum_summer (mem32 dest) 4 = Some s2"
    "udp_checksum_summer (mem16 (hton16 17)) 2 = Some s3" "udp_checksum_summer (mem16 (hton16 (8 + n))) 2 = Some s4"
    and W: "unat (0 + s1 + s2 + s3 + s4) = words_sum (udp_pseudo4 source dest n)"
    and b: "0 < words_sum (udp_pseudo4 source dest n)" "words_sum (udp_pseudo4 source dest n) \<le> 2000000"
    by (rule udp4_pseudo_sum)
  have "udp_checksum h payload n source dest = udp_checksum_rest (0 + s1 + s2 + s3 + s4) h payload n"
    by (simp add: udp_checksum_def s)
  with udp_rest_verifies [OF W b _ assms] show ?thesis by (simp add: udp_pseudo4_def)
qed

lemma udp6_pseudo_sum:
  assumes "length source = 16" "length dest = 16"
  obtains s1 s2 s3 s4 where
    "udp_checksum_summer source 16 = Some s1" "udp_checksum_summer dest 16 = Some s2"
    "udp_checksum_summer (mem32 (hton32 (8 + ucast n))) 4 = Some s3" "udp_checksum_summer (mem32 (hton32 17)) 4 = Some s4"
    "unat (0 + s1 + s2 + s3 + s4) = words_sum (udp_pseudo6 source dest n)"
    "0 < words_sum (udp_pseudo6 source dest n)" "words_sum (udp_pseudo6 source dest n) \<le> 2000000"
proof -
  obtain s1 where s1: "udp_checksum_summer source 16 = Some s1" "unat s1 = words_sum source"
    by (rule udp_summer_full [of source 16]) (simp_all add: assms)
  obtain s2 where s2: "udp_checksum_summer dest 16 = Some s2" "unat s2 = words_sum dest"
    by (rule udp_summer_full [of dest 16]) (simp_all add: assms)
  obtain s3 where s3: "udp_checksum_summer (mem32 (hton32 (8 + ucast n))) 4 = Some s3"
    "unat s3 = words_sum (badvpn_write_be32 (8 + ucast n))"
    by (rule udp_summer_full [of "mem32 (hton32 (8 + ucast n))" 4]) (simp_all add: mem32_hton32)
  obtain s4 where s4: "udp_checksum_summer (mem32 (hton32 17)) 4 = Some s4" "unat s4 = words_sum (badvpn_write_be32 17)"
    by (rule udp_summer_full [of "mem32 (hton32 17)" 4]) (simp_all add: mem32_hton32)
  let ?W = "words_sum (udp_pseudo6 source dest n)"
  have W: "?W = unat s1 + unat s2 + unat s3 + unat s4"
    by (simp add: udp_pseudo6_def words_sum_append assms s1 s2 s3 s4)
  have le: "?W \<le> 2000000"
    using words_sum_bound [of "udp_pseudo6 source dest n"] by (simp add: udp_pseudo6_def assms)
  have "unat s4 = 17" unfolding s4(2) by code_simp
  then have "0 < ?W" using W by simp
  moreover have "unat (0 + s1 + s2 + s3 + s4) = ?W" using W le by (simp add: unat_add3)
  ultimately show ?thesis using that s1(1) s2(1) s3(1) s4(1) le by blast
qed

lemma udp_ip6_checksum_spec:
  assumes "unat n \<le> length payload" "udp_checksum_field h = 0" and len: "length source = 16" "length dest = 16"
  shows "\<exists>c. udp_ip6_checksum h payload n source dest = Some c \<and>
    verifies (udp_pseudo6 source dest n @ udp_header_image (h\<lparr>udp_checksum_field := c\<rparr>) @ take (unat n) payload) \<and>
    (c = 0 \<longleftrightarrow> verifies (udp_pseudo6 source dest n @ udp_header_image h @ take (unat n) payload))"
proof -
  obtain s1 s2 s3 s4 where s: "udp_checksum_summer source 16 = Some s1" "udp_checksum_summer dest 16 = Some s2"
    "udp_checksum_summer (mem32 (hton32 (8 + ucast n))) 4 = Some s3" "udp_checksum_summer (mem32 (hton32 17)) 4 = Some s4"
    and W: "unat (0 + s1 + s2 + s3 + s4) = words_sum (udp_pseudo6 source dest n)"
    and b: "0 < words_sum (udp_pseudo6 source dest n)" "words_sum (udp_pseudo6 source dest n) \<le> 2000000"
    using len by (rule udp6_pseudo_sum)
  have "udp_ip6_checksum h payload n source dest = udp_checksum_rest (0 + s1 + s2 + s3 + s4) h payload n"
    by (simp add: udp_ip6_checksum_def s)
  with udp_rest_verifies [OF W b _ assms(1,2)] show ?thesis by (simp add: udp_pseudo6_def len)
qed

lemma ipv4_checksum_value:
  assumes "even (unat n)" "unat n \<le> length extra"
  shows "\<exists>t. ipv4_checksum h extra n = Some (hton16 (ucast (NOT (fold_carry t)))) \<and>
    unat t = words_sum (ipv4_header_image h) + words_sum (take (unat n) extra)"
proof -
  let ?i = "ipv4_header_image h" and ?e = "take (unat n) extra"
  have len: "length (ipv4_header_image g) = 20" for g by (simp add: ipv4_hdr.length_enc)
  have e: "words_sum ?e < 4294967296 - 1000000"
    using words_sum_bound [of ?e] unsigned_less [of n, where 'a = nat] by simp
  have i: "words_sum ?i \<le> 800000" using words_sum_bound [of ?i] len by simp
  have s: "unat (sum_be16 0 ?i) = words_sum ?i" using sum_be16_exact [of ?i 0] i len by simp
  have "unat (sum_be16 (sum_be16 0 ?i) ?e) = words_sum ?i + words_sum ?e"
    using sum_be16_exact [of ?e "sum_be16 0 ?i"] s i e assms by simp
  then show ?thesis
    using assms by (intro exI [of _ "sum_be16 (sum_be16 0 ?i) ?e"]) (simp add: ipv4_checksum_def word_even mem_read_def Let_def)
qed

lemma ipv4_checksum_spec:
  assumes "even (unat n)" "unat n \<le> length extra" "ip4_checksum h = 0"
  shows "\<exists>c. ipv4_checksum h extra n = Some c \<and>
    verifies (ipv4_header_image (h\<lparr>ip4_checksum := c\<rparr>) @ take (unat n) extra)"
proof -
  have h: "h\<lparr>ip4_checksum := 0\<rparr> = h" using assms(3) by (cases h) simp
  have len: "length (ipv4_header_image g) = 20" for g by (simp add: ipv4_hdr.length_enc)
  obtain t where t: "ipv4_checksum h extra n = Some (hton16 (ucast (NOT (fold_carry t))))"
    "unat t = words_sum (ipv4_header_image h) + words_sum (take (unat n) extra)" using ipv4_checksum_value [OF assms(1,2)] by blast
  with complement_sum(1) [of t] show ?thesis
    using words_sum_ipv4_checksum [where h = h, unfolded h]
    by (auto simp: verifies_def words_sum_append len h ac_simps)
qed

lemma ipv4_words_positive: "ip4_version4_ihl4 h \<noteq> 0 \<Longrightarrow> 0 < words_sum (ipv4_header_image h)"
  by (auto simp: ipv4_header_image_def unat_eq_zero)

lemma ipv4_checksum_not_ones:
  assumes "even (unat n)" "unat n \<le> length extra" "ip4_version4_ihl4 h \<noteq> 0" "ipv4_checksum h extra n = Some c"
  shows "unat (ntoh16 c) < 65535"
proof -
  obtain t where t: "c = hton16 (ucast (NOT (fold_carry t)))" "unat t = words_sum (ipv4_header_image h) + words_sum (take (unat n) extra)"
    using ipv4_checksum_value [OF assms(1,2), of h] assms(4) by auto
  have "t \<noteq> 0" using t(2) ipv4_words_positive [OF assms(3)] by auto
  with complement_sum(2) [of t] t(1) show ?thesis by simp
qed

section \<open>What the checks guarantee\<close>

lemma header_len_bounds:
  fixes v :: u8
  defines "l \<equiv> (ucast (v AND 0x0F) :: u16) * 4"
  shows "unat l = 4 * unat (v AND 0x0F)" "unat l \<le> 60" "even (unat l)"
proof -
  have "unat (v AND 15) \<le> unat (15 :: u8)" by (rule word_and_le1 [THEN word_le_nat_alt [THEN iffD1]])
  then have le: "unat (v AND 15) \<le> 15" by simp
  then have "unat (ucast (v AND 15) :: u16) = unat (v AND 15)"
    by (simp add: unsigned_ucast_eq take_bit_nat_eq_self)
  with le show "unat l = 4 * unat (v AND 0x0F)" by (simp add: l_def unat_word_ariths)
  with le show "unat l \<le> 60" "even (unat l)" by simp_all
qed

lemma ipv4_verifies_split:
  assumes "length data \<ge> 20" "ipv4_header_of (take 20 data) = h" "20 \<le> k"
  shows "ipv4_header_image h @ take (k - 20) (drop 20 data) = take k data"
proof -
  have "ipv4_header_image h = take 20 data" using assms ipv4_hdr.enc_dec [of "take 20 data"] by auto
  then show ?thesis using assms(3) by (metis le_add_diff_inverse take_add)
qed

text \<open>
  A packet of \<open>n\<close> bytes is accepted or rejected without reading past its end; an accepted one has a header
  that verifies and a payload that lies inside the packet.
\<close>

lemma ipv4_check_ok:
  assumes n: "0 \<le> n" "nat n \<le> length data"
  obtains "ipv4_check data n = Some None"
  | h k m where "ipv4_check data n = Some (Some (h, drop k data, m))" "h = ipv4_header_of (take 20 data)"
    "20 \<le> k" "k = 4 * unat (ip4_version4_ihl4 h AND 0x0F)" "0 \<le> m" "int k + m = uint (ntoh16 (ip4_total_length h))"
    "int k + m \<le> n" "verifies (take k data)"
proof (cases "ipv4_check data n = Some None")
  case True
  then show ?thesis by (rule that(1))
next
  case False
  define h where "h = ipv4_header_of (take 20 data)"
  define hl where "hl = (ucast (ip4_version4_ihl4 h AND 0x0F) :: u16) * 4"
  define tl where "tl = ntoh16 (ip4_total_length h)"
  note hl = header_len_bounds [of "ip4_version4_ihl4 h", folded hl_def]
  have n20: "\<not> n < 20" using False n by (auto simp: ipv4_check_def)
  then have rd: "mem_read data 0 20 = Some (take 20 data)" and ld: "length data \<ge> 20" using n by (auto simp: mem_read_def)
  have b0: "20 \<le> uint hl" "uint hl \<le> n" "unat hl \<le> unat tl" "uint tl \<le> n"
    using False n20 n rd
    by (auto simp: ipv4_check_def Let_def h_def [symmetric] hl_def [symmetric] tl_def [symmetric] word_le_nat_alt
        word_less_nat_alt split: if_splits)
  have i: "int (unat hl) = uint hl" "int (unat tl) = uint tl" by simp_all
  with b0 have b: "20 \<le> unat hl" "unat hl \<le> nat n" "unat hl \<le> unat tl" "unat tl \<le> nat n" by linarith+
  have sub: "unat (hl - 20) = unat hl - 20" using b(1) by (simp add: unat_sub word_le_nat_alt)
  have le: "unat hl - 20 \<le> length data - 20" using b n by linarith
  obtain c where c: "ipv4_checksum (h\<lparr>ip4_checksum := hton16 0\<rparr>) (drop 20 data) (hl - 20) = Some c"
    and v: "verifies (ipv4_header_image (h\<lparr>ip4_checksum := c\<rparr>) @ take (unat hl - 20) (drop 20 data))"
    using ipv4_checksum_spec [of "hl - 20" "drop 20 data" "h\<lparr>ip4_checksum := hton16 0\<rparr>"] sub hl(3) b(1) le by auto
  have eq: "ip4_checksum h = c" and
    res: "ipv4_check data n = Some (Some (h, drop (unat hl) data, uint tl - uint hl))"
    using False n20 n rd b0 c
    by (auto simp: ipv4_check_def Let_def h_def [symmetric] hl_def [symmetric] tl_def [symmetric] word_le_nat_alt
        word_less_nat_alt split: if_splits)
  have "h\<lparr>ip4_checksum := c\<rparr> = h" using eq by (cases h) simp
  then have "verifies (take (unat hl) data)"
    using v ipv4_verifies_split [OF ld h_def [symmetric] b(1)] by simp
  then show ?thesis
    using that(2) [OF res h_def b(1) hl(1)] b0 b(3) i by (simp add: tl_def [symmetric])
qed

lemma ipv6_check_ok:
  assumes n: "0 \<le> n" "nat n \<le> length data"
  obtains "ipv6_check data n = Some None"
  | h m where "ipv6_check data n = Some (Some (h, drop 40 data, m))" "h = ipv6_header_of (take 40 data)"
    "0 \<le> m" "m = uint (ntoh16 (ip6_payload_length h))" "40 + m \<le> n"
    "length (ip6_source_address h) = 16" "length (ip6_destination_address h) = 16"
proof (cases "ipv6_check data n = Some None")
  case True
  then show ?thesis by (rule that(1))
next
  case False
  define h where "h = ipv6_header_of (take 40 data)"
  define m where "m = uint (ntoh16 (ip6_payload_length h))"
  have n40: "\<not> n < 40" using False n by (auto simp: ipv6_check_def)
  with n have rd: "mem_read data 0 40 = Some (take 40 data)" by (simp add: mem_read_def)
  have "length (ip6_source_address h) = 16 \<and> length (ip6_destination_address h) = 16"
    using ipv6_hdr.ok_dec [of "take 40 data"] mem_read_length [OF rd] by (simp add: h_def)
  moreover have "ipv6_check data n = Some (Some (h, drop 40 data, m))" "40 + m \<le> n"
    using False n40 n rd
    by (auto simp: ipv6_check_def Let_def h_def [symmetric] m_def split: if_splits)
  ultimately show ?thesis using that(2) [of h m] h_def m_def by simp
qed

lemma udp_check_ok:
  assumes n: "0 \<le> n" "nat n \<le> length data"
  obtains "udp_check data n = Some None"
  | h m where "udp_check data n = Some (Some (h, drop 8 data, m))" "h = udp_header_of (take 8 data)"
    "0 \<le> m" "8 + m = uint (ntoh16 (udp_length h))" "8 + m \<le> n"
proof (cases "udp_check data n = Some None")
  case True
  then show ?thesis by (rule that(1))
next
  case False
  define h where "h = udp_header_of (take 8 data)"
  define m where "m = uint (ntoh16 (udp_length h)) - 8"
  have n8: "\<not> n < 8" using False n by (auto simp: udp_check_def)
  with n have rd: "mem_read data 0 8 = Some (take 8 data)" by (simp add: mem_read_def)
  have "udp_check data n = Some (Some (h, drop 8 data, m))" "8 + m \<le> n" "0 \<le> m"
    using False n8 n rd
    by (auto simp: udp_check_def Let_def h_def [symmetric] m_def split: if_splits)
  then show ?thesis using that(2) [of h m] h_def m_def by simp
qed

text \<open>
  Conversely: which packets are accepted. A checksum field of 0xFFFF is never what the code computes, for the sum of a header is not zero;
  so it is rejected, although it verifies whenever 0 does.
\<close>

lemma ntoh16_ones: "unat (ntoh16 x) = 65535 \<longleftrightarrow> x = 0xFFFF"
proof -
  have f: "ntoh16 0xFFFF = (0xFFFF :: u16)" by code_simp
  have "unat (ntoh16 x) = 65535 \<longleftrightarrow> ntoh16 x = ntoh16 0xFFFF" unfolding f by (auto simp: word_unat_eq_iff)
  then show ?thesis by simp
qed

lemma mod_unique_le:
  assumes "(s + x) mod m = (0 :: nat)" "(s + y) mod m = 0" "y < m" "x \<le> y"
  shows "x = y"
proof -
  have "m dvd (s + y) - (s + x)" using assms(1,2) by (intro dvd_diff_nat) (simp_all add: mod_eq_0_iff_dvd)
  then have "m dvd y - x" by simp
  then have "y - x = 0" using assms(3) by (meson dvd_imp_le gr0I le_less_trans diff_le_self not_le)
  with assms(4) show ?thesis by simp
qed

lemma mod_unique: "(s + x) mod m = (0 :: nat) \<Longrightarrow> (s + y) mod m = 0 \<Longrightarrow> x < m \<Longrightarrow> y < m \<Longrightarrow> x = y"
  by (metis mod_unique_le nat_le_linear)

lemma ipv4_checksum_unique:
  assumes n: "even (unat n)" "unat n \<le> length extra" and v: "verifies (ipv4_header_image h @ take (unat n) extra)"
    and h: "ip4_version4_ihl4 h \<noteq> 0" "ip4_checksum h \<noteq> 0xFFFF"
  shows "ipv4_checksum (h\<lparr>ip4_checksum := hton16 0\<rparr>) extra n = Some (ip4_checksum h)"
proof -
  let ?h = "h\<lparr>ip4_checksum := hton16 0\<rparr>"
  let ?s = "words_sum (ipv4_header_image ?h) + words_sum (take (unat n) extra)"
  have len: "length (ipv4_header_image g) = 20" for g by (simp add: ipv4_hdr.length_enc)
  obtain c where c: "ipv4_checksum ?h extra n = Some c" "verifies (ipv4_header_image (?h\<lparr>ip4_checksum := c\<rparr>) @ take (unat n) extra)"
    using ipv4_checksum_spec [OF n, of ?h] by auto
  have "unat (ntoh16 c) < 65535" using ipv4_checksum_not_ones [OF n _ c(1)] h(1) by simp
  moreover have "unat (ntoh16 (ip4_checksum h)) < 65535"
    using ntoh16_ones [of "ip4_checksum h"] h(2) unsigned_less [of "ntoh16 (ip4_checksum h)", where 'a = nat] by simp
  moreover have "(?s + unat (ntoh16 c)) mod 65535 = 0" "(?s + unat (ntoh16 (ip4_checksum h))) mod 65535 = 0"
    using c(2) v words_sum_ipv4_checksum [where h = h and c = c] words_sum_ipv4_checksum [where h = h and c = "ip4_checksum h"]
    by (simp_all add: verifies_def words_sum_append len ac_simps)
  ultimately have "unat (ntoh16 c) = unat (ntoh16 (ip4_checksum h))" by (metis mod_unique)
  then have "ntoh16 c = ntoh16 (ip4_checksum h)" by (simp only: word_unat_eq_iff)
  with c(1) show ?thesis by simp
qed

definition ipv4_acceptable :: "bytes \<Rightarrow> int \<Rightarrow> bool" where
  "ipv4_acceptable data n \<longleftrightarrow> 20 \<le> n \<and>
     (let h = ipv4_header_of (take 20 data); v = unat (ip4_version4_ihl4 h); k = 4 * (v mod 16); tot = unat (ntoh16 (ip4_total_length h))
      in v div 16 = 4 \<and> 20 \<le> k \<and> k \<le> tot \<and> int tot \<le> n \<and> verifies (take k data) \<and> ip4_checksum h \<noteq> 0xFFFF)"

lemma low4: "unat (v AND 0x0F) = unat (v :: u8) mod 16"
proof -
  have "v AND 0x0F = take_bit 4 v" by (simp add: take_bit_eq_mask mask_eq_exp_minus_1)
  then have "unat (v AND 0x0F) = take_bit 4 (unat v)" by (simp only: unsigned_take_bit_eq)
  then show ?thesis by (simp add: take_bit_eq_mod)
qed

lemma version_ihl:
  fixes v :: u8
  shows "drop_bit 4 (v AND 0xF0) = 4 \<longleftrightarrow> unat v div 16 = 4"
proof -
  have "drop_bit 4 (v AND 0xF0) = drop_bit 4 v AND 0x0F" by simp
  then have "unat (drop_bit 4 (v AND 0xF0)) = unat (drop_bit 4 v) mod 16" by (simp only: low4)
  also have "\<dots> = unat v div 16" using unsigned_less [of v, where 'a = nat] by (simp add: drop_bit_eq_div unat_div)
  finally show "drop_bit 4 (v AND 0xF0) = 4 \<longleftrightarrow> unat v div 16 = 4" by (auto simp: word_unat_eq_iff)
qed

lemma if_chain:
  "(if \<not> a then x else if \<not> b then x else if \<not> c then x else if \<not> d then x else if \<not> e then x else y) =
    (if a \<and> b \<and> c \<and> d \<and> e then y else x)"
  by simp

lemma ipv4_check_iff:
  assumes n: "0 \<le> n" "nat n \<le> length data"
  shows "ipv4_check data n = Some None \<longleftrightarrow> \<not> ipv4_acceptable data n"
proof (cases "20 \<le> n")
  case False
  with n show ?thesis by (simp add: ipv4_check_def ipv4_acceptable_def)
next
  case True
  define h where "h = ipv4_header_of (take 20 data)"
  define hl where "hl = (ucast (ip4_version4_ihl4 h AND 0x0F) :: u16) * 4"
  define tl where "tl = ntoh16 (ip4_total_length h)"
  note hl = header_len_bounds [of "ip4_version4_ihl4 h", folded hl_def]
  have k: "unat hl = 4 * (unat (ip4_version4_ihl4 h) mod 16)" using hl(1) low4 by simp
  have rd: "mem_read data 0 20 = Some (take 20 data)" and ld: "length data \<ge> 20" using True n by (auto simp: mem_read_def)
  have n20: "\<not> n < 20" and n0: "0 \<le> n" using True by simp_all
  have acc: "ipv4_acceptable data n \<longleftrightarrow> unat (ip4_version4_ihl4 h) div 16 = 4 \<and> 20 \<le> unat hl \<and> unat hl \<le> unat tl \<and>
      int (unat tl) \<le> n \<and> verifies (take (unat hl) data) \<and> ip4_checksum h \<noteq> 0xFFFF"
    using True by (simp add: ipv4_acceptable_def Let_def h_def [symmetric] k tl_def)
  have i: "uint hl < 20 \<longleftrightarrow> unat hl < 20" "uint hl \<le> n \<longleftrightarrow> int (unat hl) \<le> n" "uint tl \<le> n \<longleftrightarrow> int (unat tl) \<le> n"
  proof -
    have "uint hl = int (unat hl)" "uint tl = int (unat tl)" by simp_all
    then show "uint hl < 20 \<longleftrightarrow> unat hl < 20" "uint hl \<le> n \<longleftrightarrow> int (unat hl) \<le> n" "uint tl \<le> n \<longleftrightarrow> int (unat tl) \<le> n" by linarith+
  qed
  have chk: "ipv4_check data n = (if unat (ip4_version4_ihl4 h) div 16 = 4 \<and> 20 \<le> unat hl \<and> int (unat hl) \<le> n \<and> unat hl \<le> unat tl \<and>
        int (unat tl) \<le> n
      then do {
        c \<leftarrow> ipv4_checksum (h\<lparr>ip4_checksum := hton16 0\<rparr>) (drop 20 data) (hl - 20);
        if ip4_checksum h \<noteq> c then Some None else Some (Some (h, drop (unat hl) data, uint tl - uint hl))
      } else Some None)"
  proof -
    have "ipv4_check data n = (if \<not> unat (ip4_version4_ihl4 h) div 16 = 4 then Some None else if \<not> 20 \<le> unat hl then Some None
      else if \<not> int (unat hl) \<le> n then Some None else if \<not> unat hl \<le> unat tl then Some None else if \<not> int (unat tl) \<le> n then Some None else
        ipv4_checksum (h\<lparr>ip4_checksum := hton16 0\<rparr>) (drop 20 data) (hl - 20) \<bind>
        (\<lambda>c. if ip4_checksum h \<noteq> c then Some None else Some (Some (h, drop (unat hl) data, uint tl - uint hl))))"
      unfolding ipv4_check_def Let_def rd bind.bind_lunit h_def [symmetric] hl_def [symmetric] tl_def [symmetric] version_ihl [of "ip4_version4_ihl4 h"]
        not_le i [symmetric] word_less_nat_alt [symmetric] if_not_P [OF n20]
      using n0 by simp
    then show ?thesis by (simp only: if_chain)
  qed
  show ?thesis
  proof (cases "unat (ip4_version4_ihl4 h) div 16 = 4 \<and> 20 \<le> unat hl \<and> unat hl \<le> unat tl \<and> int (unat tl) \<le> n")
    case False
    then show ?thesis using acc chk by auto
  next
    case c: True
    have sub: "unat (hl - 20) = unat hl - 20" using c by (simp add: unat_sub word_le_nat_alt)
    have v0: "ip4_version4_ihl4 h \<noteq> 0" using c by auto
    have le: "unat hl - 20 \<le> length data - 20" using c n by linarith
    have e: "even (unat (hl - 20))" "unat (hl - 20) \<le> length (drop 20 data)" using sub hl(3) le by auto
    have split: "ipv4_header_image h @ take (unat (hl - 20)) (drop 20 data) = take (unat hl) data"
      using ipv4_verifies_split [OF ld h_def [symmetric], of "unat hl"] c sub by simp
    obtain x where x: "ipv4_checksum (h\<lparr>ip4_checksum := hton16 0\<rparr>) (drop 20 data) (hl - 20) = Some x"
      and vx: "verifies (ipv4_header_image (h\<lparr>ip4_checksum := x\<rparr>) @ take (unat (hl - 20)) (drop 20 data))"
      using ipv4_checksum_spec [OF e, of "h\<lparr>ip4_checksum := hton16 0\<rparr>"] by auto
    have "ip4_checksum h = x \<longleftrightarrow> verifies (take (unat hl) data) \<and> ip4_checksum h \<noteq> 0xFFFF"
    proof
      assume eq: "ip4_checksum h = x"
      then have "h\<lparr>ip4_checksum := x\<rparr> = h" by (cases h) simp
      moreover have "unat (ntoh16 x) < 65535" using ipv4_checksum_not_ones [OF e _ x] v0 by simp
      ultimately show "verifies (take (unat hl) data) \<and> ip4_checksum h \<noteq> 0xFFFF"
        using vx split eq ntoh16_ones [of x] by auto
    next
      assume "verifies (take (unat hl) data) \<and> ip4_checksum h \<noteq> 0xFFFF"
      with ipv4_checksum_unique [OF e, of h] split v0 x show "ip4_checksum h = x" by simp
    qed
    moreover have "uint hl \<le> n" unfolding i using c by linarith
    ultimately show ?thesis using acc chk x c by simp
  qed
qed

text \<open>Packets that are accepted: a header followed by exactly the payload its length fields announce.\<close>

lemma ipv4_check_accepts:
  assumes h: "ip4_version4_ihl4 h = 0x45" "ip4_total_length h = hton16 tot"
    and len: "unat tot = 20 + length rest"
    and c: "ipv4_checksum (h\<lparr>ip4_checksum := hton16 0\<rparr>) [] 0 = Some (ip4_checksum h)"
  shows "ipv4_check (ipv4_header_image h @ rest) (20 + int (length rest)) = Some (Some (h, rest, int (length rest)))"
proof -
  have l: "length (ipv4_header_image h) = 20" by (simp add: ipv4_hdr.length_enc)
  have i: "uint tot = 20 + int (length rest)" using len by (metis of_nat_unat int_ops(7) of_nat_add of_nat_numeral)
  have c': "ipv4_checksum (h\<lparr>ip4_checksum := hton16 0\<rparr>) rest 0 = Some (ip4_checksum h)"
    using c by (simp add: ipv4_checksum_def mem_read_def)
  show ?thesis
    using l i c' len h
    by (simp add: ipv4_check_def ipv4_hdr.read_back Let_def ipv4_hdr.dec_enc word_less_nat_alt)
qed

lemma ipv6_check_accepts:
  assumes h: "ip6_version4_tc4 h = 0x60" "ip6_payload_length h = hton16 pl"
    and len: "unat pl = length rest" and a: "length (ip6_source_address h) = 16" "length (ip6_destination_address h) = 16"
  shows "ipv6_check (ipv6_header_image h @ rest) (40 + int (length rest)) = Some (Some (h, rest, int (length rest)))"
proof -
  have l: "length (ipv6_header_image h) = 40" by (simp add: ipv6_hdr.length_enc a)
  have i: "uint pl = int (length rest)" using len by (metis of_nat_unat)
  show ?thesis
    using l i h a
    by (simp add: ipv6_check_def ipv6_hdr.read_back Let_def ipv6_hdr.dec_enc ntoh8_def hton8_def)
qed

lemma udp_check_accepts:
  assumes "udp_length h = hton16 ul" "unat ul = 8 + length rest"
  shows "udp_check (udp_header_image h @ rest) (8 + int (length rest)) = Some (Some (h, rest, int (length rest)))"
proof -
  have l: "length (udp_header_image h) = 8" by (simp add: udp_hdr.length_enc)
  have i: "uint ul = 8 + int (length rest)" using assms(2) by (metis of_nat_unat of_nat_add of_nat_numeral)
  show ?thesis
    using l i assms
    by (simp add: udp_check_def udp_hdr.read_back Let_def udp_hdr.dec_enc)
qed

section \<open>Properties\<close>

text \<open>
  C29. The Internet checksums are right. For every header and payload the loops end without wrapping, and the header with
  the returned value in its checksum field verifies as RFC 1071 demands: for IPv4 the header with its options, for UDP
  the pseudo-header, header and payload, over IPv4 and over IPv6, whatever the parity of the payload's length. The UDP
  checksum is zero exactly when the words without it already sum up to zero: this value, which is reserved for an absent checksum,
  is not replaced by 0xFFFF.
\<close>

theorem internet_checksums_verify:
  assumes "even (unat k)" "unat k \<le> length options" "ip4_checksum ih = 0"
    and "unat n \<le> length payload" "udp_checksum_field uh = 0" "length source6 = 16" "length dest6 = 16"
  shows "(\<exists>c. ipv4_checksum ih options k = Some c \<and>
      verifies (ipv4_header_image (ih\<lparr>ip4_checksum := c\<rparr>) @ take (unat k) options)) \<and>
    (\<exists>c. udp_checksum uh payload n source4 dest4 = Some c \<and>
      verifies (udp_pseudo4 source4 dest4 n @ udp_header_image (uh\<lparr>udp_checksum_field := c\<rparr>) @ take (unat n) payload) \<and>
      (c = 0 \<longleftrightarrow> verifies (udp_pseudo4 source4 dest4 n @ udp_header_image uh @ take (unat n) payload))) \<and>
    (\<exists>c. udp_ip6_checksum uh payload n source6 dest6 = Some c \<and>
      verifies (udp_pseudo6 source6 dest6 n @ udp_header_image (uh\<lparr>udp_checksum_field := c\<rparr>) @ take (unat n) payload) \<and>
      (c = 0 \<longleftrightarrow> verifies (udp_pseudo6 source6 dest6 n @ udp_header_image uh @ take (unat n) payload)))"
  using assms by (intro conjI ipv4_checksum_spec udp_checksum_spec udp_ip6_checksum_spec)

definition udp_zero_header :: udp_header where
  "udp_zero_header = \<lparr>udp_source_port = 0, udp_dest_port = hton16 65502, udp_length = hton16 8, udp_checksum_field = 0\<rparr>"

definition ipv4_example :: ipv4_header where
  "ipv4_example = \<lparr>ip4_version4_ihl4 = 0x46, ip4_ds = 0, ip4_total_length = hton16 24, ip4_identification = 0,
     ip4_flags3_fragmentoffset13 = 0, ip4_ttl = 64, ip4_protocol = 17, ip4_checksum = 0, ip4_source_address = 1,
     ip4_destination_address = 2\<rparr>"

theorem internet_checksums_verify_witness:
  "(\<exists>c. ipv4_checksum ipv4_example [1, 2, 3, 4] 4 = Some c \<and>
      verifies (ipv4_header_image (ipv4_example\<lparr>ip4_checksum := c\<rparr>) @ take 4 [1, 2, 3, 4])) \<and>
    (\<exists>c. udp_checksum udp_zero_header [7, 8, 9] 3 1 2 = Some c \<and>
      verifies (udp_pseudo4 1 2 3 @ udp_header_image (udp_zero_header\<lparr>udp_checksum_field := c\<rparr>) @ [7, 8, 9]) \<and>
      (c = 0 \<longleftrightarrow> verifies (udp_pseudo4 1 2 3 @ udp_header_image udp_zero_header @ [7, 8, 9])))"
  using internet_checksums_verify [of 4 "[1, 2, 3, 4]" ipv4_example 3 "[7, 8, 9]" udp_zero_header
      "replicate 16 1" "replicate 16 2" 1 2]
  by (simp add: ipv4_example_def udp_zero_header_def)

text \<open>
  The value zero does occur: the headers of an empty datagram from port 0 to port 65502 between the zero addresses.
\<close>

lemma udp_checksum_can_be_zero:
  "udp_checksum udp_zero_header [] 0 0 0 = Some 0"
  by code_simp

text \<open>
  C30. \<^verbatim>\<open>ipv4_check\<close> accepts exactly the packets it should, and never reads outside one. It accepts a packet of \<open>n\<close> bytes if and only if it holds
  a header of version 4 whose length field says at least 20 bytes, whose total length is at least that and at most \<open>n\<close>, and which verifies with its
  options; except that a checksum field of 0xFFFF is refused. What it returns is then the header in the packet, the rest of
  the packet behind the options, and the total length without the header.
\<close>

theorem ipv4_check_sound:
  assumes "0 \<le> n" "nat n \<le> length data"
  shows "\<exists>r. ipv4_check data n = Some r \<and> (r \<noteq> None) = ipv4_acceptable data n \<and>
    (case r of None \<Rightarrow> True | Some (h, p, m) \<Rightarrow> ipv4_header_image h = take 20 data \<and>
      (let k = 4 * (unat (ip4_version4_ihl4 h) mod 16) in p = drop k data \<and> m = int (unat (ntoh16 (ip4_total_length h))) - int k))"
proof -
  note iff = ipv4_check_iff [OF assms]
  from assms show ?thesis
  proof (cases rule: ipv4_check_ok)
    case 1
    with iff show ?thesis by simp
  next
    case (2 h k m)
    then have "20 \<le> length data" using assms by linarith
    then have "ipv4_header_image h = take 20 data" using 2(2) ipv4_hdr.enc_dec [of "take 20 data"] by simp
    moreover have "k = 4 * (unat (ip4_version4_ihl4 h) mod 16)" using 2(4) low4 by simp
    moreover have "m = int (unat (ntoh16 (ip4_total_length h))) - int k" using 2(6) by simp
    moreover have "ipv4_acceptable data n" using iff 2(1) by simp
    ultimately show ?thesis using 2(1) by (simp add: Let_def)
  qed
qed

definition ipv4_packet :: bytes where
  "ipv4_packet = ipv4_header_image (ipv4_example\<lparr>ip4_checksum := the (ipv4_checksum ipv4_example [1, 2, 3, 4] 4)\<rparr>) @ [1, 2, 3, 4]"

theorem ipv4_check_sound_witness:
  "ipv4_check ipv4_packet 24 \<noteq> Some None \<and> ipv4_acceptable ipv4_packet 24 \<and>
   (\<exists>r. ipv4_check ipv4_packet 24 = Some r \<and> (r \<noteq> None) = ipv4_acceptable ipv4_packet 24)"
proof -
  have acc: "ipv4_check ipv4_packet 24 \<noteq> Some None" by code_simp
  have "length ipv4_packet = 24" by code_simp
  then obtain r where "ipv4_check ipv4_packet 24 = Some r" "(r \<noteq> None) = ipv4_acceptable ipv4_packet 24"
    using ipv4_check_sound [of 24 ipv4_packet] by auto
  with acc show ?thesis by auto
qed

end
