(* ===== verification/DeviceUdp.thy ===== *)
theory DeviceUdp
  imports IPProto SocksUdpGw
begin

text \<open>
  The packet path of tun2socks/tun2socks.c between the TUN device, lwIP and the udpgw client: packets read from
  the device are UDP for udpgw or go to lwIP; packets of lwIP and answers of udpgw are written to the device.

  lwIP is not part of the model: \<open>alloc_ok\<close> is whether \<^verbatim>\<open>pbuf_alloc\<close> returns a buffer, \<open>lwip_ok\<close> whether the
  input function of lwIP returns \<^verbatim>\<open>ERR_OK\<close>, a pbuf chain is the list of the contents of its buffers. A packet
  written to the device is a result.
\<close>

section \<open>The globals this path reads\<close>

text \<open>\<open>tg_udpgw\<close> and \<open>tg_ip6\<close> say whether the options \<^verbatim>\<open>udpgw_remote_server_addr\<close> and \<^verbatim>\<open>netif_ip6addr\<close> are set.\<close>

record tun_globals =
  tg_quitting :: bool
  tg_udpgw :: bool
  tg_transparent_dns :: bool
  tg_ip6 :: bool
  tg_netif_ipv4 :: u32
  tg_udp_mtu :: int
  tg_device_mtu :: int

text \<open>The largest UDP payload, computed in \<^verbatim>\<open>run\<close> before the udpgw client is created.\<close>

definition run_udp_mtu :: "int \<Rightarrow> bool \<Rightarrow> int" where
  "run_udp_mtu device_mtu ip6 =
     (let udp_mtu = device_mtu - (20 + 8);
          udp_mtu = (if ip6
            then (let udp_ip6_mtu = device_mtu - (40 + 8) in if udp_mtu < udp_ip6_mtu then udp_ip6_mtu else udp_mtu)
            else udp_mtu)
      in if udp_mtu < 0 then 0 else udp_mtu)"

text \<open>tuntap/BTap.c: the bytes that are written to the file descriptor.\<close>

definition BTap_Send :: "int \<Rightarrow> bytes \<Rightarrow> int \<Rightarrow> bytes option" where
  "BTap_Send frame_mtu data data_len = do {
     ASSERT (data_len \<ge> 0);
     ASSERT (data_len \<le> frame_mtu);
     mem_read data 0 (nat data_len)
   }"

section \<open>From the device to udpgw\<close>

text \<open>
  \<^verbatim>\<open>process_device_udp_packet\<close> up to the call of the udpgw client: \<open>Some None\<close> is \<^verbatim>\<open>goto fail\<close>, otherwise the
  arguments of that call.
\<close>

definition parse_device_udp4 :: "tun_globals \<Rightarrow> bytes \<Rightarrow> int \<Rightarrow> (BAddr \<times> BAddr \<times> bool \<times> bytes \<times> int) option option" where
  "parse_device_udp4 g data data_len =
     (if data_len < 20 then Some None
      else do {
        p \<leftarrow> mem_read data 9 1;
        if p ! 0 \<noteq> IPV4_PROTOCOL_UDP then Some None
        else do {
          ip \<leftarrow> ipv4_check data data_len;
          case ip of
            None \<Rightarrow> Some None
          | Some (ipv4_header, data, data_len) \<Rightarrow> do {
              udp \<leftarrow> udp_check data data_len;
              case udp of
                None \<Rightarrow> Some None
              | Some (udp_header, data, data_len) \<Rightarrow> do {
                  let checksum_in_packet = udp_checksum_field udp_header;
                  let udp_header = udp_header\<lparr>udp_checksum_field := 0\<rparr>;
                  checksum_computed \<leftarrow> udp_checksum udp_header data (of_int data_len)
                    (ip4_source_address ipv4_header) (ip4_destination_address ipv4_header);
                  if checksum_in_packet \<noteq> checksum_computed then Some None
                  else Some (Some
                    (BAddr_InitIPv4 (ip4_source_address ipv4_header) (udp_source_port udp_header),
                     BAddr_InitIPv4 (ip4_destination_address ipv4_header) (udp_dest_port udp_header),
                     tg_transparent_dns g \<and> ip4_destination_address ipv4_header = tg_netif_ipv4 g \<and>
                       udp_dest_port udp_header = hton16 53,
                     data, data_len))
                }
            }
        }
      })"

definition parse_device_udp6 :: "tun_globals \<Rightarrow> bytes \<Rightarrow> int \<Rightarrow> (BAddr \<times> BAddr \<times> bool \<times> bytes \<times> int) option option" where
  "parse_device_udp6 g data data_len =
     (if \<not> tg_ip6 g then Some None
      else if data_len < 40 then Some None
      else do {
        p \<leftarrow> mem_read data 6 1;
        if p ! 0 \<noteq> IPV6_NEXT_UDP then Some None
        else do {
          ip \<leftarrow> ipv6_check data data_len;
          case ip of
            None \<Rightarrow> Some None
          | Some (ipv6_header, data, data_len) \<Rightarrow> do {
              udp \<leftarrow> udp_check data data_len;
              case udp of
                None \<Rightarrow> Some None
              | Some (udp_header, data, data_len) \<Rightarrow> do {
                  let checksum_in_packet = udp_checksum_field udp_header;
                  let udp_header = udp_header\<lparr>udp_checksum_field := 0\<rparr>;
                  checksum_computed \<leftarrow> udp_ip6_checksum udp_header data (of_int data_len)
                    (ip6_source_address ipv6_header) (ip6_destination_address ipv6_header);
                  if checksum_in_packet \<noteq> checksum_computed then Some None
                  else Some (Some
                    (BAddr_InitIPv6 (ip6_source_address ipv6_header) (udp_source_port udp_header),
                     BAddr_InitIPv6 (ip6_destination_address ipv6_header) (udp_dest_port udp_header),
                     False, data, data_len))
                }
            }
        }
      })"

definition parse_device_udp :: "tun_globals \<Rightarrow> bytes \<Rightarrow> int \<Rightarrow> (BAddr \<times> BAddr \<times> bool \<times> bytes \<times> int) option option" where
  "parse_device_udp g data data_len = do {
     ASSERT (data_len \<ge> 0);
     if \<not> tg_udpgw g then Some None
     else do {
       ip_version \<leftarrow> (if data_len > 0 then map_option (\<lambda>b. drop_bit 4 (b ! 0)) (mem_read data 0 1) else Some 0);
       parsed \<leftarrow> (if ip_version = 4 then parse_device_udp4 g data data_len
         else if ip_version = 6 then parse_device_udp6 g data data_len
         else Some None);
       case parsed of
         None \<Rightarrow> Some None
       | Some (local_addr, remote_addr, is_dns, data, data_len) \<Rightarrow>
           if data_len > tg_udp_mtu g then Some None
           else Some (Some (local_addr, remote_addr, is_dns, data, data_len))
     }
   }"

definition process_device_udp_packet ::
  "tun_globals \<Rightarrow> bytes \<Rightarrow> int \<Rightarrow> nat option \<Rightarrow> BufferWriter \<Rightarrow> (int \<Rightarrow> bytes option) \<Rightarrow> SocksUdpGwClient
    \<Rightarrow> (int \<times> SocksUdpGwClient \<times> udpgw_call list) option" where
  "process_device_udp_packet g data data_len new w alloc u = do {
     parsed \<leftarrow> parse_device_udp g data data_len;
     case parsed of
       None \<Rightarrow> Some (0, u, [])
     | Some (local_addr, remote_addr, is_dns, data, data_len) \<Rightarrow> do {
         (u, cs) \<leftarrow> SocksUdpGwClient_SubmitPacket u local_addr remote_addr is_dns data data_len new w alloc;
         Some (1, u, cs)
       }
   }"

section \<open>From the device to lwIP\<close>

datatype lwip_call = IpInput bytes | Ip6Input bytes | PbufFree

definition netif_input_func :: "tun_globals \<Rightarrow> bytes \<Rightarrow> bool \<Rightarrow> lwip_call list \<times> bool" where
  "netif_input_func g payload lwip_ok =
     (let ip_version = (if length payload > 0 then drop_bit 4 (payload ! 0) else 0)
      in if ip_version = 4 then ([IpInput payload], lwip_ok)
         else if ip_version = 6 \<and> tg_ip6 g then ([Ip6Input payload], lwip_ok)
         else ([PbufFree], True))"

definition device_read_handler_send ::
  "tun_globals \<Rightarrow> bytes \<Rightarrow> int \<Rightarrow> nat option \<Rightarrow> BufferWriter \<Rightarrow> (int \<Rightarrow> bytes option) \<Rightarrow> bool \<Rightarrow> bool \<Rightarrow> SocksUdpGwClient
    \<Rightarrow> (SocksUdpGwClient \<times> udpgw_call list \<times> lwip_call list) option" where
  "device_read_handler_send g data data_len new w alloc alloc_ok lwip_ok u = do {
     ASSERT (\<not> tg_quitting g);
     ASSERT (data_len \<ge> 0);
     (taken, u, cs) \<leftarrow> process_device_udp_packet g data data_len new w alloc u;
     if taken \<noteq> 0 then Some (u, cs, [])
     else if data_len > UINT16_MAX then Some (u, cs, [])
     else if \<not> alloc_ok then Some (u, cs, [])
     else do {
       p \<leftarrow> mem_read data 0 (nat data_len);
       let (calls, ok) = netif_input_func g p lwip_ok;
       Some (u, cs, if \<not> ok then calls @ [PbufFree] else calls)
     }
   }"

section \<open>To the device\<close>

text \<open>The loop over a chain: \<open>None\<close> inside when the packet does not fit.\<close>

fun netif_gather :: "int \<Rightarrow> bytes \<Rightarrow> int \<Rightarrow> bytes list \<Rightarrow> (bytes \<times> int option) option" where
  "netif_gather mtu buf len [] = Some (buf, Some len)"
| "netif_gather mtu buf len (p # ps) =
     (if int (length p) > mtu - len then Some (buf, None)
      else do {
        buf \<leftarrow> mem_write buf (nat len) p;
        netif_gather mtu buf (len + int (length p)) ps
      })"

text \<open>The result: the device write buffer and the packet that is written.\<close>

definition common_netif_output :: "tun_globals \<Rightarrow> bytes \<Rightarrow> bytes list \<Rightarrow> (bytes \<times> bytes option) option" where
  "common_netif_output g buf chain =
     (if tg_quitting g then Some (buf, None)
      else case chain of
        [p] \<Rightarrow>
          if int (length p) > tg_device_mtu g then Some (buf, None)
          else do {
            sent \<leftarrow> BTap_Send (tg_device_mtu g) p (int (length p));
            Some (buf, Some sent)
          }
      | _ \<Rightarrow> do {
          (buf, len) \<leftarrow> netif_gather (tg_device_mtu g) buf 0 chain;
          case len of
            None \<Rightarrow> Some (buf, None)
          | Some len \<Rightarrow> do {
              sent \<leftarrow> BTap_Send (tg_device_mtu g) buf len;
              Some (buf, Some sent)
            }
        })"

definition netif_output_func :: "tun_globals \<Rightarrow> bytes \<Rightarrow> bytes list \<Rightarrow> (bytes \<times> bytes option) option" where
  "netif_output_func g buf chain = common_netif_output g buf chain"

definition netif_output_ip6_func :: "tun_globals \<Rightarrow> bytes \<Rightarrow> bytes list \<Rightarrow> (bytes \<times> bytes option) option" where
  "netif_output_ip6_func g buf chain = common_netif_output g buf chain"

text \<open>The headers that the answer of a udpgw server gets.\<close>

definition udpgw_ipv4_header :: "u32 \<Rightarrow> u32 \<Rightarrow> int \<Rightarrow> ipv4_header option" where
  "udpgw_ipv4_header source dest data_len = do {
     let iph = \<lparr>ip4_version4_ihl4 = 20 div 4 + push_bit 4 4, ip4_ds = hton8 0,
       ip4_total_length = hton16 (of_int (20 + 8 + data_len)), ip4_identification = hton16 0,
       ip4_flags3_fragmentoffset13 = hton16 0, ip4_ttl = hton8 64, ip4_protocol = hton8 IPV4_PROTOCOL_UDP,
       ip4_checksum = hton16 0, ip4_source_address = source, ip4_destination_address = dest\<rparr>;
     c \<leftarrow> ipv4_checksum iph [] 0;
     Some (iph\<lparr>ip4_checksum := c\<rparr>)
   }"

definition udpgw_ipv6_header :: "bytes \<Rightarrow> bytes \<Rightarrow> int \<Rightarrow> ipv6_header option" where
  "udpgw_ipv6_header source dest data_len = do {
     s \<leftarrow> mem_read source 0 16;
     d \<leftarrow> mem_read dest 0 16;
     Some \<lparr>ip6_version4_tc4 = hton8 (push_bit 4 6), ip6_tc4_fl4 = hton8 0, ip6_fl = hton16 0,
       ip6_payload_length = hton16 (of_int (8 + data_len)), ip6_next_header = hton8 IPV6_NEXT_UDP,
       ip6_hop_limit = hton8 64, ip6_source_address = s, ip6_destination_address = d\<rparr>
   }"

definition udpgw_udp_header :: "u16 \<Rightarrow> u16 \<Rightarrow> int \<Rightarrow> udp_header" where
  "udpgw_udp_header source dest data_len = \<lparr>udp_source_port = source, udp_dest_port = dest,
     udp_length = hton16 (of_int (8 + data_len)), udp_checksum_field = hton16 0\<rparr>"

definition udpgw_client_handler_received ::
  "tun_globals \<Rightarrow> bytes \<Rightarrow> BAddr \<Rightarrow> BAddr \<Rightarrow> bytes \<Rightarrow> int \<Rightarrow> (bytes \<times> bytes option) option" where
  "udpgw_client_handler_received g buf local_addr remote_addr data data_len = do {
     ASSERT (tg_udpgw g);
     ASSERT (BAddr_type local_addr = BADDR_TYPE_IPV4 \<or> BAddr_type local_addr = BADDR_TYPE_IPV6);
     ASSERT (BAddr_type local_addr = BAddr_type remote_addr);
     ASSERT (data_len \<ge> 0);
     case (local_addr, remote_addr) of
       (BAddr_IPV4 local_ip local_port, BAddr_IPV4 remote_ip remote_port) \<Rightarrow>
         if data_len > UINT16_MAX - (20 + 8) \<or> data_len > tg_device_mtu g - (20 + 8) then Some (buf, None)
         else do {
           iph \<leftarrow> udpgw_ipv4_header remote_ip local_ip data_len;
           let udph = udpgw_udp_header remote_port local_port data_len;
           c \<leftarrow> udp_checksum udph data (of_int data_len) (ip4_source_address iph) (ip4_destination_address iph);
           let udph = udph\<lparr>udp_checksum_field := c\<rparr>;
           buf \<leftarrow> mem_write buf 0 (ipv4_header_image iph);
           buf \<leftarrow> mem_write buf 20 (udp_header_image udph);
           d \<leftarrow> mem_read data 0 (nat data_len);
           buf \<leftarrow> mem_write buf 28 d;
           sent \<leftarrow> BTap_Send (tg_device_mtu g) buf (20 + 8 + data_len);
           Some (buf, Some sent)
         }
     | (BAddr_IPV6 local_ip local_port, BAddr_IPV6 remote_ip remote_port) \<Rightarrow>
         if \<not> tg_ip6 g then Some (buf, None)
         else if data_len > UINT16_MAX - 8 \<or> data_len > tg_device_mtu g - (40 + 8) then Some (buf, None)
         else do {
           iph \<leftarrow> udpgw_ipv6_header remote_ip local_ip data_len;
           let udph = udpgw_udp_header remote_port local_port data_len;
           c \<leftarrow> udp_ip6_checksum udph data (of_int data_len) (ip6_source_address iph) (ip6_destination_address iph);
           let udph = udph\<lparr>udp_checksum_field := c\<rparr>;
           buf \<leftarrow> mem_write buf 0 (ipv6_header_image iph);
           buf \<leftarrow> mem_write buf 40 (udp_header_image udph);
           d \<leftarrow> mem_read data 0 (nat data_len);
           buf \<leftarrow> mem_write buf 48 d;
           sent \<leftarrow> BTap_Send (tg_device_mtu g) buf (40 + 8 + data_len);
           Some (buf, Some sent)
         }
     | _ \<Rightarrow> None
   }"

section \<open>Parsing\<close>

lemma of_int_len: "0 \<le> m \<Longrightarrow> m \<le> 65535 \<Longrightarrow> unat (of_int m :: u16) = nat m"
  by (simp add: unat_eq_nat_uint take_bit_int_eq_self uint_word_of_int_eq)

text \<open>What an accepted packet looks like to the udpgw client.\<close>

definition submittable :: "bytes \<Rightarrow> int \<Rightarrow> (BAddr \<times> BAddr \<times> bool \<times> bytes \<times> int) option \<Rightarrow> bool" where
  "submittable data n r \<longleftrightarrow> (\<forall>l rem dns p m. r = Some (l, rem, dns, p, m) \<longrightarrow> ip_addr l \<and> ip_addr rem \<and>
     BAddr_type l = BAddr_type rem \<and> 0 \<le> m \<and> m \<le> n \<and> nat m \<le> length p \<and> (\<exists>k. p = drop k data))"

lemma parse_device_udp4_ok:
  assumes n: "0 \<le> n" "nat n \<le> length data"
  shows "\<exists>r. parse_device_udp4 g data n = Some r \<and> submittable data n r"
proof (cases "n < 20 \<or> data ! 9 \<noteq> 17 \<or> ipv4_check data n = Some None")
  case True
  then show ?thesis using n
    by (auto simp: parse_device_udp4_def mem_read_def submittable_def take_Suc hd_drop_conv_nth)
next
  case False
  then have p: "mem_read data 9 1 = Some [17]" "\<not> n < 20"
    using n by (auto simp: mem_read_def take_Suc hd_drop_conv_nth)
  from n False obtain h k m where ip: "ipv4_check data n = Some (Some (h, drop k data, m))" "0 \<le> m" "int k + m \<le> n"
    by (metis ipv4_check_ok)
  have m: "nat m \<le> length (drop k data)" using ip n by simp
  from ip(2) m show ?thesis
  proof (cases rule: udp_check_ok)
    case 1
    then show ?thesis using p ip by (auto simp: parse_device_udp4_def submittable_def)
  next
    case (2 uh m')
    have "m' \<le> 65535" using 2(4) uint_lt2p [of "ntoh16 (udp_length uh)"] by simp
    then have u: "unat (of_int m' :: u16) \<le> length (drop 8 (drop k data))"
      using 2 m by (subst of_int_len) simp_all
    obtain c where "udp_checksum (uh\<lparr>udp_checksum_field := 0\<rparr>) (drop 8 (drop k data)) (of_int m')
        (ip4_source_address h) (ip4_destination_address h) = Some c"
      using udp_checksum_spec [OF u, of "uh\<lparr>udp_checksum_field := 0\<rparr>" "ip4_source_address h" "ip4_destination_address h"]
      by auto
    moreover have "m' \<le> n" "nat m' \<le> length (drop 8 (drop k data))" using 2 ip m by simp_all
    ultimately show ?thesis using p ip 2(1,3)
      by (cases "udp_checksum_field uh = c") (auto simp: parse_device_udp4_def Let_def submittable_def BAddr_InitIPv4_def)
  qed
qed

lemma parse_device_udp6_ok:
  assumes n: "0 \<le> n" "nat n \<le> length data"
  shows "\<exists>r. parse_device_udp6 g data n = Some r \<and> submittable data n r"
proof (cases "\<not> tg_ip6 g \<or> n < 40 \<or> data ! 6 \<noteq> 17 \<or> ipv6_check data n = Some None")
  case True
  then show ?thesis using n
    by (auto simp: parse_device_udp6_def mem_read_def submittable_def take_Suc hd_drop_conv_nth)
next
  case False
  then have p: "mem_read data 6 1 = Some [17]" "\<not> n < 40" "tg_ip6 g"
    using n by (auto simp: mem_read_def take_Suc hd_drop_conv_nth)
  from n False obtain h m where ip: "ipv6_check data n = Some (Some (h, drop 40 data, m))" "0 \<le> m" "40 + m \<le> n"
    and a: "length (ip6_source_address h) = 16" "length (ip6_destination_address h) = 16"
    by (metis ipv6_check_ok)
  have m: "nat m \<le> length (drop 40 data)" using ip n by simp
  from ip(2) m show ?thesis
  proof (cases rule: udp_check_ok)
    case 1
    then show ?thesis using p ip by (auto simp: parse_device_udp6_def submittable_def)
  next
    case (2 uh m')
    have "m' \<le> 65535" using 2(4) uint_lt2p [of "ntoh16 (udp_length uh)"] by simp
    then have u: "unat (of_int m' :: u16) \<le> length (drop 8 (drop 40 data))"
      using 2 m by (subst of_int_len) simp_all
    obtain c where "udp_ip6_checksum (uh\<lparr>udp_checksum_field := 0\<rparr>) (drop 8 (drop 40 data)) (of_int m')
        (ip6_source_address h) (ip6_destination_address h) = Some c"
      using udp_ip6_checksum_spec [OF u _ a, of "uh\<lparr>udp_checksum_field := 0\<rparr>"] by auto
    moreover have "m' \<le> n" "nat m' \<le> length (drop 8 (drop 40 data))" using 2 ip m by simp_all
    ultimately show ?thesis using p ip 2(1,3) a
      by (cases "udp_checksum_field uh = c") (auto simp: parse_device_udp6_def Let_def submittable_def BAddr_InitIPv6_def)
  qed
qed

lemma parse_device_udp_ok:
  assumes n: "0 \<le> n" "nat n \<le> length data"
  shows "\<exists>r. parse_device_udp g data n = Some r \<and> submittable data n r \<and>
    (\<forall>l rem dns p m. r = Some (l, rem, dns, p, m) \<longrightarrow> tg_udpgw g \<and> m \<le> tg_udp_mtu g \<and> (BAddr_type l = 2 \<longrightarrow> tg_ip6 g))"
proof -
  have v: "\<exists>v. (if n > 0 then map_option (\<lambda>b. drop_bit 4 (b ! 0)) (mem_read data 0 1) else Some 0) = Some v"
    using n by (auto simp: mem_read_def)
  obtain r4 where r4: "parse_device_udp4 g data n = Some r4" "submittable data n r4" using parse_device_udp4_ok [OF n] by blast
  obtain r6 where r6: "parse_device_udp6 g data n = Some r6" "submittable data n r6" using parse_device_udp6_ok [OF n] by blast
  have t4: "BAddr_type l \<noteq> 2" if "r4 = Some (l, rem, dns, p, m)" for l rem dns p m
    using r4(1) that by (auto simp: parse_device_udp4_def BAddr_InitIPv4_def bind_eq_Some_conv Let_def split: if_splits option.splits)
  have t6: "tg_ip6 g" if "r6 = Some x" for x
    using r6(1) that by (auto simp: parse_device_udp6_def split: if_splits)
  have s0: "submittable data n None" by (simp add: submittable_def)
  show ?thesis
    using v n r4 r6 s0 t6
    by (auto simp: parse_device_udp_def split: option.splits dest: t4) (auto simp: submittable_def dest: t4)
qed

section \<open>Writing\<close>

lemma netif_gather_ok:
  assumes "take (nat len) buf = xs" "int (length xs) = len" "mtu = int (length buf)"
  shows "\<exists>buf' r. netif_gather mtu buf len ps = Some (buf', r) \<and> length buf' = length buf \<and>
    (if len + int (length (concat ps)) \<le> mtu
     then r = Some (len + int (length (concat ps))) \<and> take (nat (len + int (length (concat ps)))) buf' = xs @ concat ps
     else r = None)"
  using assms
proof (induction ps arbitrary: buf len xs)
  case Nil
  then have "len \<le> mtu" by (metis length_take min.cobounded1 of_nat_mono)
  with Nil show ?case by auto
next
  case (Cons p ps)
  show ?case
  proof (cases "int (length p) > mtu - len")
    case True
    then show ?thesis by auto
  next
    case False
    then obtain buf' where b: "mem_write buf (nat len) p = Some buf'" "take (nat len + length p) buf' = xs @ p"
      "length buf' = length buf"
      using write_next [of "nat len" buf xs p] Cons.prems by auto
    have "nat (len + int (length p)) = nat len + length p" using Cons.prems(2) by (simp add: nat_add_distrib)
    then obtain b2 r where "netif_gather mtu buf' (len + int (length p)) ps = Some (b2, r)" "length b2 = length buf"
      "if len + int (length p) + int (length (concat ps)) \<le> mtu
       then r = Some (len + int (length p) + int (length (concat ps))) \<and>
         take (nat (len + int (length p) + int (length (concat ps)))) b2 = (xs @ p) @ concat ps
       else r = None"
      using Cons.IH [of "len + int (length p)" buf' "xs @ p"] b Cons.prems by auto
    then show ?thesis using b False by (simp add: add.assoc split: if_splits)
  qed
qed

lemma common_netif_output_ok:
  assumes "\<not> tg_quitting g" "tg_device_mtu g = int (length buf)" "chain \<noteq> []"
  shows "\<exists>buf'. common_netif_output g buf chain =
      Some (buf', if int (length (concat chain)) \<le> tg_device_mtu g then Some (concat chain) else None) \<and>
    length buf' = length buf"
proof (cases "length chain = 1")
  case True
  then obtain p where "chain = [p]" by (metis One_nat_def length_0_conv length_Suc_conv)
  then show ?thesis using assms by (simp add: common_netif_output_def BTap_Send_def mem_read_def)
next
  case False
  then have ne: "\<forall>p. chain \<noteq> [p]" by auto
  have "common_netif_output g buf chain = do {
          (buf, len) \<leftarrow> netif_gather (tg_device_mtu g) buf 0 chain;
          case len of
            None \<Rightarrow> Some (buf, None)
          | Some len \<Rightarrow> do {
              sent \<leftarrow> BTap_Send (tg_device_mtu g) buf len;
              Some (buf, Some sent)
            }
        }" using ne assms by (auto simp: common_netif_output_def split: list.split)
  with netif_gather_ok [of 0 buf "[]" "tg_device_mtu g" chain] assms show ?thesis
    by (auto simp: BTap_Send_def mem_read_def split: if_splits)
qed

lemma write_packet:
  assumes "length a = n" "n + length b + length c \<le> length buf" "n' = n + length b"
  obtains buf1 buf2 buf3 where "mem_write buf 0 a = Some buf1" "mem_write buf1 n b = Some buf2"
    "mem_write buf2 n' c = Some buf3" "take (n' + length c) buf3 = a @ b @ c" "length buf3 = length buf"
proof -
  obtain b1 where b1: "mem_write buf 0 a = Some b1" "take n b1 = a" "length b1 = length buf"
    using write_next [of 0 buf "[]" a] assms by auto
  obtain b2 where b2: "mem_write b1 n b = Some b2" "take (n + length b) b2 = a @ b" "length b2 = length buf"
    using write_next [of n b1 a b] assms b1 by auto
  obtain b3 where "mem_write b2 n' c = Some b3" "take (n' + length c) b3 = (a @ b) @ c" "length b3 = length buf"
    using write_next [of n' b2 "a @ b" c] assms b2 by auto
  with that b1(1) b2(1) show ?thesis by simp
qed

lemma udpgw_ipv4_header_ok:
  assumes "0 \<le> n" "n \<le> 65507"
  obtains h where "udpgw_ipv4_header s d n = Some h" "ip4_version4_ihl4 h = 0x45"
    "ip4_total_length h = hton16 (of_int (28 + n))" "ip4_protocol h = 17" "ip4_source_address h = s" "ip4_destination_address h = d"
    "ipv4_checksum (h\<lparr>ip4_checksum := hton16 0\<rparr>) [] 0 = Some (ip4_checksum h)"
proof -
  define i where "i = \<lparr>ip4_version4_ihl4 = 20 div 4 + push_bit 4 4, ip4_ds = hton8 0,
       ip4_total_length = hton16 (of_int (20 + 8 + n)), ip4_identification = hton16 0,
       ip4_flags3_fragmentoffset13 = hton16 0, ip4_ttl = hton8 64, ip4_protocol = hton8 17,
       ip4_checksum = hton16 0, ip4_source_address = s, ip4_destination_address = d\<rparr>"
  obtain c where c: "ipv4_checksum i [] 0 = Some c"
    using ipv4_checksum_spec [of 0 "[]" i] by (auto simp: i_def)
  have i0: "(i\<lparr>ip4_checksum := c\<rparr>)\<lparr>ip4_checksum := hton16 0\<rparr> = i" by (simp add: i_def)
  have "udpgw_ipv4_header s d n = Some (i\<lparr>ip4_checksum := c\<rparr>)"
    unfolding udpgw_ipv4_header_def Let_def i_def [symmetric] using c by simp
  moreover have "ip4_version4_ihl4 i = 0x45" unfolding i_def by simp
  moreover have "ipv4_checksum ((i\<lparr>ip4_checksum := c\<rparr>)\<lparr>ip4_checksum := hton16 0\<rparr>) [] 0 = Some (ip4_checksum (i\<lparr>ip4_checksum := c\<rparr>))"
    unfolding i0 using c by simp
  ultimately show ?thesis
    by (intro that [of "i\<lparr>ip4_checksum := c\<rparr>"]) (simp_all only: i_def ipv4_header.simps ipv4_header.update_convs, simp_all add: hton8_def)
qed

section \<open>What udpgw's answers become\<close>

lemma udp_checksum_prefix:
  assumes "unat n \<le> length data"
  shows "udp_checksum h data n s d = udp_checksum h (take (unat n) data) n s d"
    and "udp_ip6_checksum h data n s' d' = udp_ip6_checksum h (take (unat n) data) n s' d'"
proof -
  have "udp_checksum_rest t h data n = udp_checksum_rest t h (take (unat n) data) n" for t
  proof (cases "n mod 2 = 0")
    case True
    then show ?thesis using assms by (simp add: udp_checksum_rest_def udp_checksum_summer_def mem_read_def)
  next
    case False
    then have "n \<noteq> 0" by auto
    then have "unat (n - 1) < unat n" by (metis diff_less gr0I less_numeral_extra(1) unat_eq_zero unat_minus_one)
    with assms False show ?thesis
      by (simp add: udp_checksum_rest_def udp_checksum_summer_def mem_read_def min_def drop_take)
  qed
  then show "udp_checksum h data n s d = udp_checksum h (take (unat n) data) n s d"
    "udp_ip6_checksum h data n s' d' = udp_ip6_checksum h (take (unat n) data) n s' d'"
    by (simp_all add: udp_checksum_def udp_ip6_checksum_def)
qed

lemma packet4_parsed:
  fixes c :: u16
  assumes h: "ip4_version4_ihl4 h = 0x45" "ip4_total_length h = hton16 (of_int (28 + n))" "ip4_protocol h = 17"
      "ipv4_checksum (h\<lparr>ip4_checksum := hton16 0\<rparr>) [] 0 = Some (ip4_checksum h)"
    and n: "n = int (length d)" "n \<le> 65507"
    and c: "udp_checksum (udpgw_udp_header sp dp n) d (of_int n) (ip4_source_address h) (ip4_destination_address h) = Some c"
  defines "uh \<equiv> (udpgw_udp_header sp dp n)\<lparr>udp_checksum_field := c\<rparr>"
  shows "parse_device_udp4 g (ipv4_header_image h @ udp_header_image uh @ d) (28 + n) =
    Some (Some (BAddr_IPV4 (ip4_source_address h) sp, BAddr_IPV4 (ip4_destination_address h) dp,
      tg_transparent_dns g \<and> ip4_destination_address h = tg_netif_ipv4 g \<and> dp = hton16 53, d, n))"
proof -
  let ?rest = "udp_header_image uh @ d"
  have l: "length (ipv4_header_image h) = 20" "length (udp_header_image uh) = 8"
    by (simp_all add: ipv4_hdr.length_enc udp_hdr.length_enc)
  have p9: "mem_read (ipv4_header_image h @ ?rest) 9 1 = Some [17]"
    using l h(3) by (simp add: mem_read_def ipv4_header_image_def)
  have "unat (of_int (28 + n) :: u16) = 20 + length ?rest" using n l by (subst of_int_len) simp_all
  from ipv4_check_accepts [OF h(1,2) this h(4)]
  have ip: "ipv4_check (ipv4_header_image h @ ?rest) (28 + n) = Some (Some (h, ?rest, 8 + n))" using l n by simp
  have "unat (of_int (8 + n) :: u16) = 8 + length d" using n by (subst of_int_len) simp_all
  from udp_check_accepts [OF _ this, of uh]
  have ud: "udp_check ?rest (8 + n) = Some (Some (uh, d, n))" using n by (simp add: uh_def udpgw_udp_header_def)
  have "uh\<lparr>udp_checksum_field := 0\<rparr> = udpgw_udp_header sp dp n" by (simp add: uh_def udpgw_udp_header_def)
  with p9 ip ud n c show ?thesis
    by (simp add: parse_device_udp4_def Let_def BAddr_InitIPv4_def) (simp add: uh_def udpgw_udp_header_def)
qed

lemma received4_ok:
  assumes g: "tg_udpgw g" "tg_device_mtu g = int (length buf)"
    and n: "0 \<le> n" "nat n \<le> length data" "n \<le> 65507" "n \<le> tg_device_mtu g - 28"
  shows "\<exists>buf' pkt. udpgw_client_handler_received g buf (BAddr_IPV4 li lp) (BAddr_IPV4 ri rp) data n = Some (buf', Some pkt) \<and>
    length buf' = length buf \<and> int (length pkt) = 28 + n \<and> drop_bit 4 (pkt ! 0) = 4 \<and>
    parse_device_udp4 g' pkt (28 + n) = Some (Some (BAddr_IPV4 ri rp, BAddr_IPV4 li lp,
      tg_transparent_dns g' \<and> li = tg_netif_ipv4 g' \<and> lp = hton16 53, take (nat n) data, n))"
proof -
  let ?d = "take (nat n) data" and ?uh = "udpgw_udp_header rp lp n"
  have len: "length ?d = nat n" "n = int (length ?d)" and fit: "20 + 8 + length ?d \<le> length buf" using n g by simp_all
  obtain h where h: "udpgw_ipv4_header ri li n = Some h" "ip4_version4_ihl4 h = 0x45"
    "ip4_total_length h = hton16 (of_int (28 + n))" "ip4_protocol h = 17" "ip4_source_address h = ri" "ip4_destination_address h = li"
    "ipv4_checksum (h\<lparr>ip4_checksum := hton16 0\<rparr>) [] 0 = Some (ip4_checksum h)"
    using n(1,3) by (rule udpgw_ipv4_header_ok)
  have un: "unat (of_int n :: u16) = nat n" using n by (intro of_int_len) simp_all
  obtain c where c: "udp_checksum ?uh data (of_int n) ri li = Some c"
    using udp_checksum_spec [of "of_int n" data ?uh] un n by (auto simp: udpgw_udp_header_def)
  then have c': "udp_checksum ?uh ?d (of_int n) ri li = Some c" using udp_checksum_prefix(1) [of "of_int n" data] un n by simp
  let ?uhc = "?uh\<lparr>udp_checksum_field := c\<rparr>"
  let ?pkt = "ipv4_header_image h @ udp_header_image ?uhc @ ?d"
  have l: "length (ipv4_header_image h) = 20" "length (udp_header_image ?uhc) = 8"
    by (simp_all add: ipv4_hdr.length_enc udp_hdr.length_enc)
  obtain b1 b2 b3 where w: "mem_write buf 0 (ipv4_header_image h) = Some b1" "mem_write b1 20 (udp_header_image ?uhc) = Some b2"
    "mem_write b2 28 ?d = Some b3" "take (28 + length ?d) b3 = ?pkt" "length b3 = length buf"
    by (rule write_packet [of "ipv4_header_image h" 20 "udp_header_image ?uhc" ?d buf 28]) (use fit l in simp_all)
  have s: "BTap_Send (tg_device_mtu g) b3 (20 + 8 + n) = Some ?pkt"
    using n fit g w(4,5) len(1) by (simp add: BTap_Send_def mem_read_def nat_add_distrib)
  have "udpgw_client_handler_received g buf (BAddr_IPV4 li lp) (BAddr_IPV4 ri rp) data n = Some (b3, Some ?pkt)"
    using g n h c w(1-3) s by (simp add: udpgw_client_handler_received_def Let_def mem_read_def)
  moreover have "?pkt ! 0 = 0x45" using h(2) by (simp add: ipv4_header_image_def)
  moreover have "int (length ?pkt) = 28 + n" using l len n by simp
  ultimately show ?thesis
    using w(5) packet4_parsed [of h n ?d rp lp c g'] h len(2) n(3) c' by (intro exI [of _ b3] exI [of _ ?pkt]) simp
qed

lemma packet6_parsed:
  fixes c :: u16
  assumes h: "ip6_version4_tc4 h = 0x60" "ip6_payload_length h = hton16 (of_int (8 + n))" "ip6_next_header h = 17"
    and a: "length (ip6_source_address h) = 16" "length (ip6_destination_address h) = 16"
    and n: "n = int (length d)" "n \<le> 65527" and g: "tg_ip6 g"
    and c: "udp_ip6_checksum (udpgw_udp_header sp dp n) d (of_int n) (ip6_source_address h) (ip6_destination_address h) = Some c"
  defines "uh \<equiv> (udpgw_udp_header sp dp n)\<lparr>udp_checksum_field := c\<rparr>"
  shows "parse_device_udp6 g (ipv6_header_image h @ udp_header_image uh @ d) (48 + n) =
    Some (Some (BAddr_IPV6 (ip6_source_address h) sp, BAddr_IPV6 (ip6_destination_address h) dp, False, d, n))"
proof -
  let ?rest = "udp_header_image uh @ d"
  have l: "length (ipv6_header_image h) = 40" "length (udp_header_image uh) = 8"
    by (simp_all add: ipv6_hdr.length_enc a udp_hdr.length_enc)
  have p6: "mem_read (ipv6_header_image h @ ?rest) 6 1 = Some [17]"
    using l h(3) by (simp add: mem_read_def ipv6_header_image_def)
  have un: "unat (of_int (8 + n) :: u16) = 8 + length d" using n by (subst of_int_len) simp_all
  then have "unat (of_int (8 + n) :: u16) = length ?rest" using l by simp
  from ipv6_check_accepts [OF h(1,2) this a]
  have ip: "ipv6_check (ipv6_header_image h @ ?rest) (48 + n) = Some (Some (h, ?rest, 8 + n))" using l n by simp
  from udp_check_accepts [OF _ un, of uh]
  have ud: "udp_check ?rest (8 + n) = Some (Some (uh, d, n))" using n by (simp add: uh_def udpgw_udp_header_def)
  have "uh\<lparr>udp_checksum_field := 0\<rparr> = udpgw_udp_header sp dp n" by (simp add: uh_def udpgw_udp_header_def)
  with p6 ip ud n c g a show ?thesis
    by (simp add: parse_device_udp6_def Let_def BAddr_InitIPv6_def) (simp add: uh_def udpgw_udp_header_def)
qed

lemma received6_ok:
  assumes g: "tg_udpgw g" "tg_ip6 g" "tg_device_mtu g = int (length buf)"
    and n: "0 \<le> n" "nat n \<le> length data" "n \<le> 65527" "n \<le> tg_device_mtu g - 48"
    and a: "length ri = 16" "length li = 16" and g': "tg_ip6 g'"
  shows "\<exists>buf' pkt. udpgw_client_handler_received g buf (BAddr_IPV6 li lp) (BAddr_IPV6 ri rp) data n = Some (buf', Some pkt) \<and>
    length buf' = length buf \<and> int (length pkt) = 48 + n \<and> drop_bit 4 (pkt ! 0) = 6 \<and>
    parse_device_udp6 g' pkt (48 + n) = Some (Some (BAddr_IPV6 ri rp, BAddr_IPV6 li lp, False, take (nat n) data, n))"
proof -
  let ?d = "take (nat n) data" and ?uh = "udpgw_udp_header rp lp n"
  have len: "length ?d = nat n" "n = int (length ?d)" and fit: "40 + 8 + length ?d \<le> length buf" using n g by simp_all
  obtain h where h: "udpgw_ipv6_header ri li n = Some h" "ip6_version4_tc4 h = 0x60"
    "ip6_payload_length h = hton16 (of_int (8 + n))" "ip6_next_header h = 17" "ip6_source_address h = ri" "ip6_destination_address h = li"
    using a by (simp add: udpgw_ipv6_header_def mem_read_def hton8_def)
  have un: "unat (of_int n :: u16) = nat n" using n by (intro of_int_len) simp_all
  obtain c where c: "udp_ip6_checksum ?uh data (of_int n) ri li = Some c"
    using udp_ip6_checksum_spec [of "of_int n" data ?uh ri li] un n a by (auto simp: udpgw_udp_header_def)
  then have c': "udp_ip6_checksum ?uh ?d (of_int n) ri li = Some c" using udp_checksum_prefix(2) [of "of_int n" data] un n by simp
  let ?uhc = "?uh\<lparr>udp_checksum_field := c\<rparr>"
  let ?pkt = "ipv6_header_image h @ udp_header_image ?uhc @ ?d"
  have l: "length (ipv6_header_image h) = 40" "length (udp_header_image ?uhc) = 8"
    using h a by (simp_all add: ipv6_hdr.length_enc udp_hdr.length_enc)
  obtain b1 b2 b3 where w: "mem_write buf 0 (ipv6_header_image h) = Some b1" "mem_write b1 40 (udp_header_image ?uhc) = Some b2"
    "mem_write b2 48 ?d = Some b3" "take (48 + length ?d) b3 = ?pkt" "length b3 = length buf"
    by (rule write_packet [of "ipv6_header_image h" 40 "udp_header_image ?uhc" ?d buf 48]) (use fit l in simp_all)
  have s: "BTap_Send (tg_device_mtu g) b3 (40 + 8 + n) = Some ?pkt"
    using n fit g w(4,5) len(1) by (simp add: BTap_Send_def mem_read_def nat_add_distrib)
  have "udpgw_client_handler_received g buf (BAddr_IPV6 li lp) (BAddr_IPV6 ri rp) data n = Some (b3, Some ?pkt)"
    using g n h c w(1-3) s by (simp add: udpgw_client_handler_received_def Let_def mem_read_def)
  moreover have "?pkt ! 0 = 0x60" using h(2) by (simp add: ipv6_header_image_def)
  moreover have "int (length ?pkt) = 48 + n" using l len n by simp
  ultimately show ?thesis
    using w(5) packet6_parsed [of h n ?d g' rp lp c] h a g' len(2) n(3) c' by (intro exI [of _ b3] exI [of _ ?pkt]) simp
qed

text \<open>The packet for the device that an answer becomes, when it fits.\<close>

definition answer_fits :: "tun_globals \<Rightarrow> BAddr \<Rightarrow> int \<Rightarrow> bool" where
  "answer_fits g local_addr n \<longleftrightarrow>
     (if BAddr_type local_addr = BADDR_TYPE_IPV4 then n \<le> 65507 \<and> n \<le> tg_device_mtu g - 28
      else tg_ip6 g \<and> n \<le> 65527 \<and> n \<le> tg_device_mtu g - 48)"

definition swapped_submission :: "tun_globals \<Rightarrow> BAddr \<Rightarrow> BAddr \<Rightarrow> bytes \<Rightarrow> BAddr \<times> BAddr \<times> bool \<times> bytes \<times> int" where
  "swapped_submission g l r d = (r, l,
     (case l of BAddr_IPV4 ip port \<Rightarrow> tg_transparent_dns g \<and> ip = tg_netif_ipv4 g \<and> port = hton16 53 | _ \<Rightarrow> False), d, int (length d))"

lemma answer_ok:
  assumes g: "tg_udpgw g" "tg_device_mtu g = int (length buf)" and n: "0 \<le> n" "nat n \<le> length data"
    and a: "ip_addr l" "ip_addr r" "BAddr_type l = BAddr_type r"
  shows "if answer_fits g l n
    then \<exists>buf' pkt. udpgw_client_handler_received g buf l r data n = Some (buf', Some pkt) \<and>
      length buf' = length buf \<and> int (length pkt) \<le> tg_device_mtu g \<and>
      (\<forall>g'. tg_udpgw g' \<longrightarrow> tg_ip6 g' = tg_ip6 g \<longrightarrow> n \<le> tg_udp_mtu g' \<longrightarrow>
         parse_device_udp g' pkt (int (length pkt)) = Some (Some (swapped_submission g' l r (take (nat n) data))))
    else udpgw_client_handler_received g buf l r data n = Some (buf, None)"
proof (cases "answer_fits g l n")
  case False
  then show ?thesis using g n a
    by (cases l; cases r) (auto simp: answer_fits_def udpgw_client_handler_received_def)
next
  case fits: True
  show ?thesis
  proof (cases l)
    case (BAddr_IPV4 li lp)
    then obtain ri rp where r: "r = BAddr_IPV4 ri rp" using a by (cases r) auto
    have f: "n \<le> 65507" "n \<le> tg_device_mtu g - 28" using fits BAddr_IPV4 by (simp_all add: answer_fits_def)
    have read: "mem_read pkt 0 1 = Some [pkt ! 0]" if "int (length pkt) = 28 + n" for pkt :: bytes
      using that n by (simp add: mem_read_def take_Suc) (cases pkt; simp)
    obtain buf' pkt where p: "udpgw_client_handler_received g buf l r data n = Some (buf', Some pkt)" "length buf' = length buf"
      "int (length pkt) = 28 + n" "drop_bit 4 (pkt ! 0) = 4"
      using received4_ok [OF g n f] BAddr_IPV4 r by blast
    have "parse_device_udp4 g' pkt (28 + n) = Some (Some (swapped_submission g' l r (take (nat n) data)))" for g'
      using received4_ok [OF g n f, of li lp ri rp g'] p(1) BAddr_IPV4 r n by (auto simp: swapped_submission_def)
    then show ?thesis using fits p f n read [OF p(3)]
      by (auto simp: parse_device_udp_def swapped_submission_def)
  next
    case (BAddr_IPV6 li lp)
    then obtain ri rp where r: "r = BAddr_IPV6 ri rp" using a by (cases r) auto
    have f: "tg_ip6 g" "n \<le> 65527" "n \<le> tg_device_mtu g - 48" using fits BAddr_IPV6 by (simp_all add: answer_fits_def)
    have l16: "length ri = 16" "length li = 16" using a BAddr_IPV6 r by simp_all
    have read: "mem_read pkt 0 1 = Some [pkt ! 0]" if "int (length pkt) = 48 + n" for pkt :: bytes
      using that n by (simp add: mem_read_def take_Suc) (cases pkt; simp)
    obtain buf' pkt where p: "udpgw_client_handler_received g buf l r data n = Some (buf', Some pkt)" "length buf' = length buf"
      "int (length pkt) = 48 + n" "drop_bit 4 (pkt ! 0) = 6"
      using received6_ok [OF g(1) f(1) g(2) n f(2,3) l16 f(1)] BAddr_IPV6 r by blast
    have "parse_device_udp6 g' pkt (48 + n) = Some (Some (swapped_submission g' l r (take (nat n) data)))" if "tg_ip6 g'" for g'
      using received6_ok [OF g(1) f(1) g(2) n f(2,3) l16 that, of lp rp] p(1) BAddr_IPV6 r n by (auto simp: swapped_submission_def)
    then show ?thesis using fits p f n read [OF p(3)]
      by (auto simp: parse_device_udp_def swapped_submission_def)
  qed (use a in simp_all)
qed

section \<open>Properties\<close>

text \<open>
  C31. Answers survive the trip to the device: an answer of the udpgw server, for any pair of addresses of one family and any data,
  is dropped when it is too large for IP or the device (or IPv6 is off), and otherwise becomes one packet no larger than the
  device MTU which the tunnel's own parser accepts, checksums included, as the same data with the two addresses
  exchanged. Nothing is written outside the device write buffer.
\<close>

theorem udpgw_answer_round_trip:
  assumes "tg_udpgw g" "tg_device_mtu g = int (length buf)" "0 \<le> n" "nat n \<le> length data"
    and "ip_addr l" "ip_addr r" "BAddr_type l = BAddr_type r"
  shows "if answer_fits g l n
    then \<exists>buf' pkt. udpgw_client_handler_received g buf l r data n = Some (buf', Some pkt) \<and>
      length buf' = length buf \<and> int (length pkt) \<le> tg_device_mtu g \<and>
      (\<forall>g'. tg_udpgw g' \<longrightarrow> tg_ip6 g' = tg_ip6 g \<longrightarrow> n \<le> tg_udp_mtu g' \<longrightarrow>
         parse_device_udp g' pkt (int (length pkt)) = Some (Some (swapped_submission g' l r (take (nat n) data))))
    else udpgw_client_handler_received g buf l r data n = Some (buf, None)"
  using assms by (rule answer_ok)

definition tun_example :: tun_globals where
  "tun_example = \<lparr>tg_quitting = False, tg_udpgw = True, tg_transparent_dns = True, tg_ip6 = True, tg_netif_ipv4 = 5,
     tg_udp_mtu = run_udp_mtu 60 True, tg_device_mtu = 60\<rparr>"

theorem udpgw_answer_round_trip_witness:
  "\<exists>buf' pkt. udpgw_client_handler_received tun_example (replicate 60 0) (BAddr_IPV4 5 (hton16 53)) (BAddr_IPV4 6 7) [1, 2, 3] 3 =
      Some (buf', Some pkt) \<and> length buf' = 60 \<and> int (length pkt) \<le> 60 \<and>
    parse_device_udp tun_example pkt (int (length pkt)) =
      Some (Some (BAddr_IPV4 6 7, BAddr_IPV4 5 (hton16 53), True, [1, 2, 3], 3))"
proof -
  have "answer_fits tun_example (BAddr_IPV4 5 (hton16 53)) 3" by code_simp
  with udpgw_answer_round_trip [of tun_example "replicate 60 0" 3 "[1, 2, 3]" "BAddr_IPV4 5 (hton16 53)" "BAddr_IPV4 6 7"]
  obtain buf' pkt where p: "udpgw_client_handler_received tun_example (replicate 60 0) (BAddr_IPV4 5 (hton16 53)) (BAddr_IPV4 6 7)
      [1, 2, 3] 3 = Some (buf', Some pkt)" "length buf' = 60" "int (length pkt) \<le> tg_device_mtu tun_example"
    "\<forall>g'. tg_udpgw g' \<longrightarrow> tg_ip6 g' = tg_ip6 tun_example \<longrightarrow> 3 \<le> tg_udp_mtu g' \<longrightarrow> parse_device_udp g' pkt (int (length pkt)) =
      Some (Some (swapped_submission g' (BAddr_IPV4 5 (hton16 53)) (BAddr_IPV4 6 7) (take (nat 3) [1, 2, 3])))"
    by (auto simp: tun_example_def)
  have "tg_udpgw tun_example" "3 \<le> tg_udp_mtu tun_example" "tg_device_mtu tun_example = 60"
    "swapped_submission tun_example (BAddr_IPV4 5 (hton16 53)) (BAddr_IPV4 6 7) (take (nat 3) [1, 2, 3]) =
      (BAddr_IPV4 6 7, BAddr_IPV4 5 (hton16 53), True, [1, 2, 3], 3)"
    by (simp_all add: tun_example_def run_udp_mtu_def swapped_submission_def)
  with p show ?thesis by auto
qed

text \<open>
  C32. Any packet from the device can be parsed: whatever its bytes, no assertion fails and nothing outside the packet is read, and
  what is handed to the udpgw client are two addresses of the same family and a piece of the packet no larger
  than the client's MTU.
\<close>

theorem device_packet_parsed:
  assumes "0 \<le> n" "nat n \<le> length data"
  shows "\<exists>r. parse_device_udp g data n = Some r \<and> (\<forall>l rem dns p m. r = Some (l, rem, dns, p, m) \<longrightarrow>
    ip_addr l \<and> ip_addr rem \<and> BAddr_type l = BAddr_type rem \<and> 0 \<le> m \<and> m \<le> n \<and> m \<le> tg_udp_mtu g \<and>
    nat m \<le> length p \<and> (\<exists>k. p = drop k data))"
proof -
  obtain r where "parse_device_udp g data n = Some r" "submittable data n r"
    "\<forall>l rem dns p m. r = Some (l, rem, dns, p, m) \<longrightarrow> tg_udpgw g \<and> m \<le> tg_udp_mtu g \<and> (BAddr_type l = 2 \<longrightarrow> tg_ip6 g)"
    using parse_device_udp_ok [OF assms, of g] by (elim exE conjE) (rule that)
  then show ?thesis by (cases r) (auto simp: submittable_def)
qed

definition udp_packet_example :: bytes where
  "udp_packet_example = the (snd (the (udpgw_client_handler_received tun_example (replicate 60 0) (BAddr_IPV4 5 6) (BAddr_IPV4 7 8) [1] 1)))"

theorem device_packet_parsed_witness:
  "\<exists>r. parse_device_udp tun_example udp_packet_example 29 = Some r \<and> r \<noteq> None \<and> (\<forall>l rem dns p m. r = Some (l, rem, dns, p, m) \<longrightarrow>
    ip_addr l \<and> ip_addr rem \<and> BAddr_type l = BAddr_type rem \<and> 0 \<le> m \<and> m \<le> 29 \<and> m \<le> tg_udp_mtu tun_example \<and>
    nat m \<le> length p \<and> (\<exists>k. p = drop k udp_packet_example))"
proof -
  have "length udp_packet_example = 29" "parse_device_udp tun_example udp_packet_example 29 \<noteq> Some None" by code_simp+
  then show ?thesis using device_packet_parsed [of 29 udp_packet_example tun_example] by auto
qed

text \<open>
  C33. lwIP's packets reach the device whole: a chain of buffers is written as one packet, the concatenation of the
  buffers in their order, exactly when that fits the device MTU, and otherwise nothing is written; the device write buffer, of the
  size of the MTU, is never overrun.
\<close>

theorem netif_output_writes_chain:
  assumes "\<not> tg_quitting g" "tg_device_mtu g = int (length buf)" "chain \<noteq> []"
  shows "\<exists>buf'. common_netif_output g buf chain =
      Some (buf', if int (length (concat chain)) \<le> tg_device_mtu g then Some (concat chain) else None) \<and>
    length buf' = length buf"
  using assms by (rule common_netif_output_ok)

theorem netif_output_writes_chain_witness:
  "\<exists>buf'. common_netif_output tun_example (replicate 60 0) [[1, 2], [3]] = Some (buf', Some [1, 2, 3]) \<and> length buf' = 60"
  using netif_output_writes_chain [of tun_example "replicate 60 0" "[[1, 2], [3]]"] by (simp add: tun_example_def)

end
