(* ===== verification/TunUdp.thy ===== *)
theory TunUdp
  imports DeviceUdp
begin

text \<open>
  The UDP side of tun2socks put together: the handlers of tun2socks/tun2socks.c on top of the SOCKS client, the udpgw
  client and the component that keeps them connected, as one machine. Its events are the packets read from
  the device, the packets lwIP sends, and the events of the components below; packets that
  the udpgw client delivers are passed to \<^verbatim>\<open>udpgw_client_handler_received\<close> at once, as the code does.
\<close>

section \<open>The machine\<close>

record tun_state =
  tu_s :: sug_state
  tu_buf :: bytes
  tu_written :: "bytes list"
  tu_lwip :: "lwip_call list"

datatype tun_event =
    TuDevice bytes "nat option" BufferWriter "bytes option" bool bool
  | TuBelow sug_event
  | TuOutput "bytes list"

fun tun_deliver :: "tun_globals \<Rightarrow> udpgw_call list \<Rightarrow> bytes \<Rightarrow> (bytes \<times> bytes list) option" where
  "tun_deliver g [] buf = Some (buf, [])"
| "tun_deliver g (UgReceived l r d # cs) buf = do {
     (buf, p) \<leftarrow> udpgw_client_handler_received g buf l r d (int (length d));
     (buf, ps) \<leftarrow> tun_deliver g cs buf;
     Some (buf, (case p of None \<Rightarrow> ps | Some x \<Rightarrow> x # ps))
   }"
| "tun_deliver g (_ # cs) buf = tun_deliver g cs buf"

fun tun_step :: "tun_globals \<Rightarrow> tun_state \<Rightarrow> tun_event \<Rightarrow> tun_state option" where
  "tun_step g t (TuDevice data new w fresh alloc_ok lwip_ok) = do {
     (u, cs, lw) \<leftarrow> device_read_handler_send g data (int (length data)) new w (block_alloc fresh) alloc_ok lwip_ok (sg_u (tu_s t));
     (u, out) \<leftarrow> sug_calls cs u;
     (buf, ps) \<leftarrow> tun_deliver g out (tu_buf t);
     Some (t\<lparr>tu_s := (tu_s t)\<lparr>sg_u := u\<rparr>, tu_buf := buf, tu_written := tu_written t @ ps, tu_lwip := tu_lwip t @ lw\<rparr>)
   }"
| "tun_step g t (TuBelow e) = do {
     s \<leftarrow> sug_step ((tu_s t)\<lparr>sg_user := []\<rparr>) e;
     (buf, ps) \<leftarrow> tun_deliver g (sg_user s) (tu_buf t);
     Some (t\<lparr>tu_s := s, tu_buf := buf, tu_written := tu_written t @ ps\<rparr>)
   }"
| "tun_step g t (TuOutput chain) = do {
     (buf, p) \<leftarrow> common_netif_output g (tu_buf t) chain;
     Some (t\<lparr>tu_buf := buf, tu_written := tu_written t @ (case p of None \<Rightarrow> [] | Some x \<Rightarrow> [x])\<rparr>)
   }"

text \<open>
  \<open>new\<close> is the memory of a new connection: not one in use; a send buffer of more than 2 GiB is not allocated. A chain of lwIP is not empty. Only the device submits packets.
\<close>

fun tun_enabled :: "tun_state \<Rightarrow> tun_event \<Rightarrow> bool" where
  "tun_enabled t (TuDevice data new w fresh alloc_ok lwip_ok) \<longleftrightarrow>
     (case new of None \<Rightarrow> True | Some con \<Rightarrow> con \<noteq> 0 \<and> con \<notin> set (ug_list (su_udpgw_client (sg_u (tu_s t))))) \<and>
     memory_ok (su_udpgw_client (sg_u (tu_s t))) fresh"
| "tun_enabled t (TuBelow e) \<longleftrightarrow> sug_enabled (tu_s t) e \<and> (case e of SgSubmit _ _ _ _ _ _ _ \<Rightarrow> False | _ \<Rightarrow> True)"
| "tun_enabled t (TuOutput chain) \<longleftrightarrow> chain \<noteq> []"

section \<open>The addresses in the table\<close>

definition addrs :: "UdpGwClient \<Rightarrow> UdpGwClient_conaddr set" where
  "addrs g = conaddr_of g ` set (ug_list g)"

definition paired :: "UdpGwClient \<Rightarrow> bool" where
  "paired g \<longleftrightarrow> (\<forall>a \<in> addrs g. BAddr_type (ca_local_addr a) = BAddr_type (ca_remote_addr a))"

lemma submitted_addrs:
  assumes "submitted g a r fl d new fresh g' cs" "udpgw_inv g" "ip_conaddr a"
  shows "addrs g' \<subseteq> insert a (addrs g)"
proof (cases "find_connection_by_conaddr g a")
  case (Some con)
  then have "con \<in> set (ug_list g)" using lookup_conaddr [OF assms(2,3)] by simp
  moreover have "set (ug_list g') \<subseteq> insert con (set (ug_list g))"
    using assms(1) Some set_remove1_subset [of con "ug_list g"] by (auto simp: submitted_def)
  ultimately show ?thesis using assms(1) Some by (auto simp: submitted_def addrs_def)
next
  case None
  then show ?thesis using assms(1) by (auto simp: submitted_def addrs_def added_def split: if_splits)
qed

lemma set_con_frame:
  "(\<And>c. uc_conaddr (f c) = uc_conaddr c) \<Longrightarrow> addrs (set_con con f g) = addrs g"
  "ug_udp_mtu (set_con con f g) = ug_udp_mtu g"
proof -
  assume "\<And>c. uc_conaddr (f c) = uc_conaddr c"
  then have "conaddr_of (set_con con f g) = conaddr_of g" by (auto simp: conaddr_of_def set_con_def)
  then show "addrs (set_con con f g) = addrs g" by (simp add: addrs_def set_con_def)
qed (simp add: set_con_def)

lemma connection_send_frame:
  assumes "connection_send con fl d n g = Some (g', cs)"
  shows "addrs g' = addrs g \<and> ug_udp_mtu g' = ug_udp_mtu g \<and> (\<forall>l r p. UgReceived l r p \<notin> set cs)"
  using assms by (auto simp: connection_send_def Let_def bind_eq_Some_conv set_con_frame split: option.splits)

lemma connection_init_mtu: "connection_init g a fl d n new w alloc = Some g' \<Longrightarrow> ug_udp_mtu g' = ug_udp_mtu g"
  by (auto simp: connection_init_def find_unused_conid_def set_con_frame Let_def bind_eq_Some_conv split: option.splits)

lemma reuse_connection_mtu: "reuse_connection g a = Some (con, g') \<Longrightarrow> ug_udp_mtu g' = ug_udp_mtu g"
  by (auto simp: reuse_connection_def set_con_frame Let_def bind_eq_Some_conv split: list.splits)

lemma submit_frame:
  "UdpGwClient_SubmitPacket g l r dns d n new w alloc = Some (g', cs) \<Longrightarrow>
   ug_udp_mtu g' = ug_udp_mtu g \<and> (\<forall>l r p. UgReceived l r p \<notin> set cs)"
  by (auto simp: UdpGwClient_SubmitPacket_def move_to_end_def Let_def bind_eq_Some_conv
      dest!: connection_send_frame connection_init_mtu reuse_connection_mtu split: option.splits if_splits)

text \<open>An event other than a submission leaves the addresses as they are; only a packet of the server is delivered.\<close>

definition deliverable :: "UdpGwClient \<Rightarrow> udpgw_call list \<Rightarrow> bool" where
  "deliverable g cs \<longleftrightarrow> (\<forall>l r p. UgReceived l r p \<in> set cs \<longrightarrow>
     \<lparr>ca_local_addr = l, ca_remote_addr = r\<rparr> \<in> addrs g \<and> int (length p) \<le> ug_udp_mtu g)"

lemma receive_frame:
  assumes i: "udpgw_inv g" and en: "udpgw_allowed g (UeReceive d)"
    and r: "recv_interface_handler_send g d (int (length d)) = Some (g', cs)"
  shows "addrs g' = addrs g \<and> ug_udp_mtu g' = ug_udp_mtu g \<and> deliverable g cs"
proof -
  from receive_ok [OF i, of d] en r have k: "conaddr_of g' = conaddr_of g" "set (ug_list g') = set (ug_list g)"
      "ug_udp_mtu g' = ug_udp_mtu g"
    and c: "cs = [UgRecvDone] \<or> (\<exists>con \<in> set (ug_list g). \<exists>p. int (length p) \<le> ug_udp_mtu g \<and>
       cs = [UgRecvDone, UgReceived (ca_local_addr (conaddr_of g con)) (ca_remote_addr (conaddr_of g con)) p])" by auto
  from k have "addrs g' = addrs g" by (simp add: addrs_def)
  moreover have eta: "\<lparr>ca_local_addr = ca_local_addr a, ca_remote_addr = ca_remote_addr a\<rparr> = a" for a :: UdpGwClient_conaddr by simp
  from c have "deliverable g cs" unfolding deliverable_def by (elim disjE bexE exE conjE) (simp_all add: eta addrs_def)
  ultimately show ?thesis using k(3) by simp
qed

lemma react_frame:
  assumes i: "udpgw_inv g" and en: "udpgw_allowed g e" and r: "udpgw_react g e = Some (g', cs)"
    and ne: "case e of UeConnect _ _ \<Rightarrow> False | UeDisconnect \<Rightarrow> False | UeSubmit _ _ _ _ _ _ _ \<Rightarrow> False | _ \<Rightarrow> True"
  shows "addrs g' = addrs g \<and> ug_udp_mtu g' = ug_udp_mtu g \<and> deliverable g cs"
proof (cases e)
  case (UeReceive d)
  then show ?thesis using receive_frame [OF i, of d] en r by simp
next
  case (UeFirstJob con)
  then show ?thesis using r connection_send_frame
    by (fastforce simp: connection_first_job_handler_def Let_def set_con_frame deliverable_def)
next
  case (UeRefill con d)
  then show ?thesis using r by (auto simp: quiet_def refill_def bind_eq_Some_conv set_con_frame deliverable_def)
qed (use r ne in \<open>auto simp: decoder_handler_error_def send_monitor_handler_def deliverable_def
      keepalive_if_handler_done_def quiet_def on_queue_def on_connector_def Let_def bind_eq_Some_conv addrs_def
      conaddr_of_def split: if_splits\<close>)

lemma free_server_frame: "free_server g = Some g' \<Longrightarrow> addrs g' = addrs g \<and> ug_udp_mtu g' = ug_udp_mtu g"
  by (auto simp: free_server_def addrs_def conaddr_of_def fun_eq_iff Let_def bind_eq_Some_conv)

lemma disconnect_frame: "UdpGwClient_DisconnectServer g = Some g' \<Longrightarrow> addrs g' = addrs g \<and> ug_udp_mtu g' = ug_udp_mtu g"
  by (auto simp: UdpGwClient_DisconnectServer_def bind_eq_Some_conv addrs_def conaddr_of_def dest!: free_server_frame)

lemma connect_frame: "UdpGwClient_ConnectServer g sender alloc = Some (ok, g', cs) \<Longrightarrow>
    addrs g' = addrs g \<and> ug_udp_mtu g' = ug_udp_mtu g"
  by (auto simp: UdpGwClient_ConnectServer_def bind_eq_Some_conv addrs_def conaddr_of_def split: if_splits)

lemma free_socks_frame:
  assumes "free_socks u = Some u'"
  shows "addrs (su_udpgw_client u') = addrs (su_udpgw_client u) \<and> ug_udp_mtu (su_udpgw_client u') = ug_udp_mtu (su_udpgw_client u)"
proof (cases "su_socks_up u")
  case True
  with assms have "UdpGwClient_DisconnectServer (su_udpgw_client u) = Some (su_udpgw_client u')"
    by (auto simp: free_socks_def bind_eq_Some_conv)
  then show ?thesis by (rule disconnect_frame)
next
  case False
  with assms have "su_udpgw_client u' = su_udpgw_client u" by (auto simp: free_socks_def bind_eq_Some_conv)
  then show ?thesis by simp
qed

text \<open>The state below: its addresses, and the MTU it was created with.\<close>

definition below :: "SocksUdpGwClient \<Rightarrow> UdpGwClient_conaddr set \<times> int" where
  "below u = (addrs (su_udpgw_client u), ug_udp_mtu (su_udpgw_client u))"

lemma free_socks_below: "free_socks u = Some u' \<Longrightarrow> below u' = below u"
  using free_socks_frame [of u u'] by (simp add: below_def)

lemma try_connect_below: "try_connect ok u = Some u' \<Longrightarrow> below u' = below u"
  by (auto simp: try_connect_def below_def Let_def bind_eq_Some_conv split: if_splits)

lemma timer_below: "reconnect_timer_handler ok u = Some u' \<Longrightarrow> below u' = below u"
  using try_connect_below [of ok "u\<lparr>su_timer := False\<rparr>" u']
  by (simp add: reconnect_timer_handler_def below_def)

lemma socks_handler_below:
  assumes "socks_client_handler sender alloc e u = Some (u', cs)"
  shows "below u' = below u"
proof (cases e)
  case EVENT_UP
  obtain ok g c where g: "UdpGwClient_ConnectServer (su_udpgw_client u) sender alloc = Some (ok, g, c)"
    and u': "if ok = 0 then \<exists>v. free_socks (u\<lparr>su_udpgw_client := g\<rparr>) = Some v \<and> u' = v\<lparr>su_timer := True\<rparr>
      else u' = u\<lparr>su_udpgw_client := g, su_socks_up := True\<rparr>"
    using assms EVENT_UP by (auto simp: socks_client_handler_def Let_def bind_eq_Some_conv split: if_splits)
  have "below (u\<lparr>su_udpgw_client := g\<rparr>) = below u" using connect_frame [OF g] by (simp add: below_def)
  moreover have "below u' = below (u\<lparr>su_udpgw_client := g\<rparr>)"
    using u' free_socks_below [of "u\<lparr>su_udpgw_client := g\<rparr>"] by (auto simp: below_def split: if_splits)
  ultimately show ?thesis by simp
next
  case EVENT_ERROR
  then show ?thesis using assms free_socks_below [of u]
    by (auto simp: socks_client_handler_def bind_eq_Some_conv) (simp add: below_def)
next
  case EVENT_ERROR_CLOSED
  then show ?thesis using assms free_socks_below [of u]
    by (auto simp: socks_client_handler_def bind_eq_Some_conv) (simp add: below_def)
qed

lemma servererror_below: "udpgw_handler_servererror u = Some u' \<Longrightarrow> below u' = below u"
  using free_socks_below [of u] by (auto simp: udpgw_handler_servererror_def bind_eq_Some_conv) (simp add: below_def)

lemma sug_calls_below:
  "sug_calls cs u = Some (u', out) \<Longrightarrow> below u' = below u \<and> (\<forall>l r d. UgReceived l r d \<in> set out \<longrightarrow> UgReceived l r d \<in> set cs)"
proof (induction cs arbitrary: u out)
  case (Cons c cs)
  then obtain u1 now later where s: "(case c of
         UgServerError \<Rightarrow> map_option (\<lambda>u. (u, [])) (udpgw_handler_servererror u)
       | UgReceived l r d \<Rightarrow> Some (u, udpgw_handler_received l r d)
       | _ \<Rightarrow> Some (u, [])) = Some (u1, now)" "sug_calls cs u1 = Some (u', later)" "out = now @ later"
    by (auto simp: bind_eq_Some_conv)
  have "below u1 = below u" "\<forall>l r d. UgReceived l r d \<in> set now \<longrightarrow> UgReceived l r d = c"
    using s(1) by (cases c; auto simp: udpgw_handler_received_def dest: servererror_below)+
  then show ?case using Cons.IH [OF s(2)] s(3) by auto
qed simp

lemma deliverable_sub:
  assumes "deliverable g cs" "\<forall>l r d. UgReceived l r d \<in> set out \<longrightarrow> UgReceived l r d \<in> set cs"
  shows "deliverable g out"
  using assms unfolding deliverable_def by blast

lemma sug_step_below:
  assumes i: "sug_inv ais addr s" and en: "sug_enabled s e" and ne: "case e of SgSubmit _ _ _ _ _ _ _ \<Rightarrow> False | _ \<Rightarrow> True"
    and st: "sug_step s e = Some s'" and e: "sg_user s = []"
  shows "below (sg_u s') = below (sg_u s) \<and> deliverable (su_udpgw_client (sg_u s)) (sg_user s')"
proof (cases e)
  case (SgTimer ok)
  then show ?thesis using st e timer_below by (auto simp: connected_def deliverable_def)
next
  case (SgSocks x sender fresh)
  obtain run where run: "socks_step (sg_run s) x = Some run" using st SgSocks by (auto simp: bind_eq_Some_conv)
  let ?u = "(sg_u s)\<lparr>su_socks_client := sr_c run\<rparr>"
  have "below ?u = below (sg_u s)" by (simp add: below_def)
  then show ?thesis using st SgSocks run e socks_handler_below [where u = ?u]
    by (auto simp: deliverable_def Let_def split: if_splits)
next
  case (SgUdpGw x)
  obtain g cs u out where r: "udpgw_react (su_udpgw_client (sg_u s)) x = Some (g, cs)"
    "sug_calls cs ((sg_u s)\<lparr>su_udpgw_client := g\<rparr>) = Some (u, out)" "s' = s\<lparr>sg_u := u, sg_user := sg_user s @ out\<rparr>"
    using st SgUdpGw by (auto simp: bind_eq_Some_conv)
  have "case x of UeConnect _ _ \<Rightarrow> False | UeDisconnect \<Rightarrow> False | UeSubmit _ _ _ _ _ _ _ \<Rightarrow> False | _ \<Rightarrow> True"
    using SgUdpGw en by simp
  from react_frame [OF sug_invD(1) [OF i] _ r(1) this] SgUdpGw en
  have f: "addrs g = addrs (su_udpgw_client (sg_u s))" "ug_udp_mtu g = ug_udp_mtu (su_udpgw_client (sg_u s))"
    "deliverable (su_udpgw_client (sg_u s)) cs" by simp_all
  have "below u = below ((sg_u s)\<lparr>su_udpgw_client := g\<rparr>)" using sug_calls_below [OF r(2)] by simp
  also have "\<dots> = below (sg_u s)" using f by (simp add: below_def)
  moreover have "deliverable (su_udpgw_client (sg_u s)) out"
    by (rule deliverable_sub [OF f(3)]) (use sug_calls_below [OF r(2)] in blast)
  ultimately show ?thesis using r(3) e by simp
qed (use ne in simp)

section \<open>Invariant\<close>

definition tun_inv :: "BSocksClient_auth_info list \<Rightarrow> BAddr \<Rightarrow> tun_globals \<Rightarrow> tun_state \<Rightarrow> bool" where
  "tun_inv ais addr g t \<longleftrightarrow> sug_inv ais addr (tu_s t) \<and> paired (su_udpgw_client (sg_u (tu_s t))) \<and>
     ug_udp_mtu (su_udpgw_client (sg_u (tu_s t))) = tg_udp_mtu g \<and> tg_udpgw g \<and> \<not> tg_quitting g \<and>
     tg_device_mtu g = int (length (tu_buf t)) \<and> (\<forall>p \<in> set (tu_written t). int (length p) \<le> tg_device_mtu g)"

lemma tun_invD:
  assumes "tun_inv ais addr g t"
  shows "sug_inv ais addr (tu_s t)" "paired (su_udpgw_client (sg_u (tu_s t)))"
    "ug_udp_mtu (su_udpgw_client (sg_u (tu_s t))) = tg_udp_mtu g" "tg_udpgw g" "\<not> tg_quitting g"
    "tg_device_mtu g = int (length (tu_buf t))" "\<forall>p \<in> set (tu_written t). int (length p) \<le> tg_device_mtu g"
  using assms unfolding tun_inv_def by blast+

lemma deliver_ok:
  assumes "tg_udpgw g" "tg_device_mtu g = int (length buf)"
    and "\<forall>l r d. UgReceived l r d \<in> set cs \<longrightarrow> ip_addr l \<and> ip_addr r \<and> BAddr_type l = BAddr_type r"
  shows "\<exists>buf' ps. tun_deliver g cs buf = Some (buf', ps) \<and> length buf' = length buf \<and>
    (\<forall>p \<in> set ps. int (length p) \<le> tg_device_mtu g)"
  using assms
proof (induction cs arbitrary: buf)
  case (Cons c cs)
  show ?case
  proof (cases c)
    case (UgReceived l r d)
    with Cons.prems(3) have a: "ip_addr l" "ip_addr r" "BAddr_type l = BAddr_type r" by auto
    obtain buf1 p where h: "udpgw_client_handler_received g buf l r d (int (length d)) = Some (buf1, p)"
      "length buf1 = length buf" "\<forall>x. p = Some x \<longrightarrow> int (length x) \<le> tg_device_mtu g"
      using answer_ok [OF Cons.prems(1,2) _ _ a, of "int (length d)" d] by (auto split: if_splits)
    have rest: "\<forall>l r d. UgReceived l r d \<in> set cs \<longrightarrow> ip_addr l \<and> ip_addr r \<and> BAddr_type l = BAddr_type r"
      using Cons.prems(3) by (metis list.set_intros(2))
    from Cons.IH [OF Cons.prems(1) _ rest, of buf1] Cons.prems(2) h(2) obtain buf' ps where "tun_deliver g cs buf1 = Some (buf', ps)"
      "length buf' = length buf" "\<forall>p \<in> set ps. int (length p) \<le> tg_device_mtu g" by (auto simp only:)
    with h UgReceived show ?thesis by (cases p) auto
  qed (use Cons in \<open>auto\<close>)
qed simp

text \<open>Whatever happened below: the new state keeps the invariant if the table does.\<close>

lemma tun_inv_next:
  assumes i: "tun_inv ais addr g t" and s: "sug_inv ais addr s'" "paired (su_udpgw_client (sg_u s'))"
      "ug_udp_mtu (su_udpgw_client (sg_u s')) = tg_udp_mtu g"
    and b: "length buf = length (tu_buf t)" "\<forall>p \<in> set ps. int (length p) \<le> tg_device_mtu g"
    and t': "tu_s t' = s'" "tu_buf t' = buf" "tu_written t' = tu_written t @ ps"
  shows "tun_inv ais addr g t'"
  using tun_invD [OF i] s b by (auto simp: tun_inv_def t')

lemma deliverable_addrs:
  assumes i: "udpgw_inv g" and p: "paired g" and d: "deliverable g cs" and m: "UgReceived l r x \<in> set cs"
  shows "ip_addr l \<and> ip_addr r \<and> BAddr_type l = BAddr_type r"
proof -
  have a: "\<lparr>ca_local_addr = l, ca_remote_addr = r\<rparr> \<in> addrs g" using d m by (auto simp: deliverable_def)
  then obtain con where "con \<in> set (ug_list g)" "conaddr_of g con = \<lparr>ca_local_addr = l, ca_remote_addr = r\<rparr>"
    by (auto simp: addrs_def)
  then have "ip_conaddr \<lparr>ca_local_addr = l, ca_remote_addr = r\<rparr>"
    using udpgw_invD(3) [OF i] by (auto simp: con_ok_def)
  then show ?thesis using p a by (auto simp: ip_conaddr_def paired_def)
qed

lemma tun_below_step:
  assumes i: "tun_inv ais addr g t" and en: "tun_enabled t (TuBelow e)"
  shows "\<exists>t'. tun_step g t (TuBelow e) = Some t' \<and> tun_inv ais addr g t'"
proof -
  let ?s = "(tu_s t)\<lparr>sg_user := []\<rparr>"
  have s: "sug_inv ais addr ?s" using tun_invD(1) [OF i] by (simp add: sug_inv_def Let_def)
  have en': "sug_enabled ?s e" "case e of SgSubmit _ _ _ _ _ _ _ \<Rightarrow> False | _ \<Rightarrow> True"
    using en by (cases e; simp)+
  obtain s' where s': "sug_step ?s e = Some s'" "sug_inv ais addr s'" using sug_step_inv [OF s en'(1)] by blast
  have b: "below (sg_u s') = below (sg_u ?s)" "deliverable (su_udpgw_client (sg_u ?s)) (sg_user s')"
    using sug_step_below [OF s en' s'(1)] by simp_all
  have "\<forall>l r d. UgReceived l r d \<in> set (sg_user s') \<longrightarrow> ip_addr l \<and> ip_addr r \<and> BAddr_type l = BAddr_type r"
    using deliverable_addrs [OF sug_invD(1) [OF s] _ b(2)] tun_invD(2) [OF i] by simp
  from deliver_ok [OF tun_invD(4,6) [OF i] this] obtain buf ps where d: "tun_deliver g (sg_user s') (tu_buf t) = Some (buf, ps)"
    "length buf = length (tu_buf t)" "\<forall>p \<in> set ps. int (length p) \<le> tg_device_mtu g" by blast
  have "paired (su_udpgw_client (sg_u s'))" "ug_udp_mtu (su_udpgw_client (sg_u s')) = tg_udp_mtu g"
    using b(1) tun_invD(2,3) [OF i] by (simp_all add: below_def paired_def)
  from tun_inv_next [OF i s'(2) this d(2,3)] s'(1) d(1) show ?thesis by simp
qed

lemma tun_output_step:
  assumes i: "tun_inv ais addr g t" and en: "tun_enabled t (TuOutput chain)"
  shows "\<exists>t'. tun_step g t (TuOutput chain) = Some t' \<and> tun_inv ais addr g t'"
proof -
  obtain buf where w: "common_netif_output g (tu_buf t) chain =
      Some (buf, if int (length (concat chain)) \<le> tg_device_mtu g then Some (concat chain) else None)"
    "length buf = length (tu_buf t)"
    using common_netif_output_ok [OF tun_invD(5,6) [OF i]] en by auto
  show ?thesis
  proof (cases "int (length (concat chain)) \<le> tg_device_mtu g")
    case True
    have "tun_inv ais addr g (t\<lparr>tu_buf := buf, tu_written := tu_written t @ [concat chain]\<rparr>)"
      by (rule tun_inv_next [OF i, where ps = "[concat chain]"]) (use tun_invD [OF i] w True in simp_all)
    with w True show ?thesis by simp
  next
    case False
    have "tun_inv ais addr g (t\<lparr>tu_buf := buf\<rparr>)"
      by (rule tun_inv_next [OF i, where ps = "[]"]) (use tun_invD [OF i] w in simp_all)
    with w False show ?thesis by simp
  qed
qed

text \<open>A packet from the device: the udpgw client takes it, or lwIP gets it.\<close>

lemma no_received: "\<forall>l r p. UgReceived l r p \<notin> set cs \<Longrightarrow> sug_calls cs u = Some (u', out) \<Longrightarrow> \<forall>l r p. UgReceived l r p \<notin> set out"
  using sug_calls_below [of cs u u' out] by blast

lemma tun_submit:
  assumes i: "tun_inv ais addr g t" and ip: "ip_addr l" "ip_addr r" "BAddr_type l = BAddr_type r"
    and m: "0 \<le> m" "m \<le> tg_udp_mtu g" "nat m \<le> length p"
    and new: "case new of None \<Rightarrow> True | Some con \<Rightarrow> con \<noteq> 0 \<and> con \<notin> set (ug_list (su_udpgw_client (sg_u (tu_s t))))"
    and mem: "memory_ok (su_udpgw_client (sg_u (tu_s t))) fresh"
  shows "\<exists>u cs out. SocksUdpGwClient_SubmitPacket (sg_u (tu_s t)) l r dns p m new w (block_alloc fresh) = Some (u, cs) \<and>
    sug_calls cs u = Some (u, out) \<and> (\<forall>l r p. UgReceived l r p \<notin> set out) \<and>
    sug_inv ais addr ((tu_s t)\<lparr>sg_u := u\<rparr>) \<and> paired (su_udpgw_client u) \<and> ug_udp_mtu (su_udpgw_client u) = tg_udp_mtu g"
proof -
  let ?u = "sg_u (tu_s t)" and ?a = "\<lparr>ca_local_addr = l, ca_remote_addr = r\<rparr>"
  let ?g = "su_udpgw_client ?u"
  note s = tun_invD(1) [OF i]
  have gi: "udpgw_inv ?g" by (rule sug_invD(1) [OF s])
  have new': "\<forall>con. new = Some con \<longrightarrow> con \<noteq> 0 \<and> con \<notin> set (ug_list ?g)" using new by (cases new) auto
  have m': "m \<le> ug_udp_mtu ?g" "m \<le> int (length p)" using m tun_invD(3) [OF i] by simp_all
  obtain g' cs where c: "UdpGwClient_SubmitPacket ?g l r dns p m new w (block_alloc fresh) = Some (g', cs)"
    and g': "udpgw_inv g'" and sub: "submitted ?g ?a r (if dns then 4 else 0) (take (nat m) p) new fresh g' cs"
    using submit_ok [OF gi ip(1,2) new' m(1) m' mem] by blast
  note fr = submit_frame [OF c] and sv = submit_server [OF c]
  let ?v = "?u\<lparr>su_udpgw_client := g'\<rparr>"
  obtain out where out: "sug_calls cs ?v = Some (?v, out)" using sug_calls_ok sv by blast
  have "sug_inv ais addr ((tu_s t)\<lparr>sg_u := ?v\<rparr>)"
    by (rule sug_invI [OF s, where g = g' and t = "su_timer ?u" and h = "su_have_socks ?u" and c = "su_socks_client ?u"
          and up = "su_socks_up ?u" and run = "sg_run (tu_s t)"]) (use g' sv sug_invD [OF s] in auto)
  moreover have "paired g'"
    using submitted_addrs [OF sub gi] ip tun_invD(2) [OF i] by (auto simp: paired_def ip_conaddr_def)
  ultimately show ?thesis using c out fr no_received [OF _ out] tun_invD(3) [OF i]
    by (intro exI [of _ ?v] exI [of _ cs] exI [of _ out]) (simp add: SocksUdpGwClient_SubmitPacket_def)
qed

lemma tun_device_step:
  assumes i: "tun_inv ais addr g t" and en: "tun_enabled t (TuDevice data new w fresh alloc_ok lwip_ok)"
  shows "\<exists>t'. tun_step g t (TuDevice data new w fresh alloc_ok lwip_ok) = Some t' \<and> tun_inv ais addr g t'"
proof -
  let ?n = "int (length data)" and ?u = "sg_u (tu_s t)"
  have n: "0 \<le> ?n" "nat ?n \<le> length data" by simp_all
  obtain r where r: "parse_device_udp g data ?n = Some r" "submittable data ?n r"
    "\<forall>l rem dns p m. r = Some (l, rem, dns, p, m) \<longrightarrow> tg_udpgw g \<and> m \<le> tg_udp_mtu g \<and> (BAddr_type l = 2 \<longrightarrow> tg_ip6 g)"
    using parse_device_udp_ok [OF n, of g] by (elim exE conjE) (rule that)
  have q: "\<not> tg_quitting g" by (rule tun_invD(5) [OF i])
  show ?thesis
  proof (cases r)
    case None
    then have p: "process_device_udp_packet g data ?n new w (block_alloc fresh) ?u = Some (0, ?u, [])"
      using r(1) by (simp add: process_device_udp_packet_def)
    have "\<exists>lw. device_read_handler_send g data ?n new w (block_alloc fresh) alloc_ok lwip_ok ?u = Some (?u, [], lw)"
      using q p by (cases "netif_input_func g data lwip_ok") (simp add: device_read_handler_send_def mem_read_def)
    moreover have "tun_inv ais addr g (t\<lparr>tu_s := (tu_s t)\<lparr>sg_u := ?u\<rparr>, tu_buf := tu_buf t, tu_written := tu_written t @ [], tu_lwip := l\<rparr>)" for l
      by (rule tun_inv_next [OF i, where ps = "[]"]) (use tun_invD [OF i] in simp_all)
    ultimately show ?thesis by auto
  next
    case (Some x)
    then obtain l rem dns p m where x: "r = Some (l, rem, dns, p, m)" by (cases x) auto
    then have ip: "ip_addr l" "ip_addr rem" "BAddr_type l = BAddr_type rem" and m: "0 \<le> m" "m \<le> tg_udp_mtu g" "nat m \<le> length p"
      using r(2,3) by (auto simp: submittable_def)
    obtain u cs out where c: "SocksUdpGwClient_SubmitPacket ?u l rem dns p m new w (block_alloc fresh) = Some (u, cs)"
      "sug_calls cs u = Some (u, out)" "\<forall>l r p. UgReceived l r p \<notin> set out"
      and s: "sug_inv ais addr ((tu_s t)\<lparr>sg_u := u\<rparr>)" "paired (su_udpgw_client u)" "ug_udp_mtu (su_udpgw_client u) = tg_udp_mtu g"
      using tun_submit [OF i ip m] en by (simp only: tun_enabled.simps) blast
    have "device_read_handler_send g data ?n new w (block_alloc fresh) alloc_ok lwip_ok ?u = Some (u, cs, [])"
      using q c(1) r(1) x by (simp add: device_read_handler_send_def process_device_udp_packet_def)
    moreover obtain buf ps where d: "tun_deliver g out (tu_buf t) = Some (buf, ps)" "length buf = length (tu_buf t)"
      "\<forall>p \<in> set ps. int (length p) \<le> tg_device_mtu g"
      using deliver_ok [OF tun_invD(4,6) [OF i], of out] c(3) by blast
    moreover have "tun_inv ais addr g (t\<lparr>tu_s := (tu_s t)\<lparr>sg_u := u\<rparr>, tu_buf := buf, tu_written := tu_written t @ ps\<rparr>)"
      by (rule tun_inv_next [OF i, where s' = "(tu_s t)\<lparr>sg_u := u\<rparr>" and buf = buf and ps = ps]) (use s d in simp_all)
    ultimately show ?thesis using c(2) by simp
  qed
qed

text \<open>The start: \<^verbatim>\<open>run\<close> has created the client with the MTU it computed and the device write buffer.\<close>

definition tun_init :: "BSocksClient_auth_info list \<Rightarrow> BAddr \<Rightarrow> tun_globals \<Rightarrow> tun_state \<Rightarrow> bool" where
  "tun_init ais addr g t \<longleftrightarrow> (\<exists>raw maxc sbs ka server ok run u. sbs \<le> INT_MAX \<and> ip_addr addr \<and>
     list_all (\<lambda>ai. ai_auth_type ai = 0 \<or> ai_auth_type ai = 2) ais \<and> tg_udpgw g \<and> \<not> tg_quitting g \<and>
     tg_device_mtu g = int (length (tu_buf t)) \<and> tg_udp_mtu g \<le> INT_MAX \<and>
     SocksUdpGwClient_Init raw (tg_udp_mtu g) maxc sbs ka server ais addr ok = Some (1, u) \<and>
     tu_s t = connected u run \<lparr>sg_u = u, sg_run = run, sg_user = []\<rparr> \<and> tu_written t = [])"

lemma tun_init_inv:
  assumes "tun_init ais addr g t"
  shows "tun_inv ais addr g t"
proof -
  obtain raw maxc sbs ka server ok run u where a: "sbs \<le> INT_MAX" "ip_addr addr"
    "list_all (\<lambda>ai. ai_auth_type ai = 0 \<or> ai_auth_type ai = 2) ais" "tg_udpgw g" "\<not> tg_quitting g"
    "tg_device_mtu g = int (length (tu_buf t))" "tg_udp_mtu g \<le> INT_MAX"
    and n: "SocksUdpGwClient_Init raw (tg_udp_mtu g) maxc sbs ka server ais addr ok = Some (1, u)"
    and t: "tu_s t = connected u run \<lparr>sg_u = u, sg_run = run, sg_user = []\<rparr>" "tu_written t = []"
    using assms unfolding tun_init_def by blast
  have "sug_init ais addr (tu_s t)" unfolding sug_init_def using a n t by blast
  then have s: "sug_inv ais addr (tu_s t)" by (rule sug_init_inv)
  obtain k w v where k: "UdpGwClient_Init (su_udpgw_client raw) (tg_udp_mtu g) maxc sbs ka = Some (k, w)"
      "try_connect ok v = Some u" "su_udpgw_client v = w" "k \<noteq> 0"
    using n by (auto simp: SocksUdpGwClient_Init_def Let_def bind_eq_Some_conv split: if_splits)
  have "ug_list w = [] \<and> ug_udp_mtu w = tg_udp_mtu g"
    using k(1,4) by (auto simp: UdpGwClient_Init_def Let_def bind_eq_Some_conv split: if_splits)
  moreover have "su_udpgw_client (sg_u (tu_s t)) = su_udpgw_client u" using t by (simp add: connected_def)
  ultimately show ?thesis using s a t(2) try_connect_below [OF k(2)] k(3)
    by (auto simp: tun_inv_def paired_def below_def addrs_def)
qed

interpretation tun: machine "tun_init ais addr g" "tun_step g" tun_enabled "tun_inv ais addr g" for ais addr g
proof
  show "tun_inv ais addr g t" if "tun_init ais addr g t" for t using that by (rule tun_init_inv)
  show "\<exists>t'. tun_step g t e = Some t' \<and> tun_inv ais addr g t'" if "tun_inv ais addr g t" "tun_enabled t e" for t e
  proof (cases e)
    case (TuDevice data new w fresh alloc_ok lwip_ok)
    with that tun_device_step show ?thesis by blast
  next
    case (TuBelow x)
    with that tun_below_step show ?thesis by blast
  next
    case (TuOutput chain)
    with that tun_output_step show ?thesis by blast
  qed
qed

section \<open>Property\<close>

text \<open>
  C9. The UDP side as a whole is safe against its environment: from the start, whatever packets the device and lwIP produce and
  whatever the SOCKS server, the udpgw server, the network and the allocators do, as long as no send buffer of more than 2 GiB is allocated, no assertion of any of its components
  fails and no memory outside a packet or buffer is touched; every packet written to the device fits its MTU; the reconnect logic
  stays consistent and the connections of the udpgw client join addresses of one family.
\<close>

theorem tun_udp_path_safe:
  assumes "SocksUdpGwClient_Init raw (tg_udp_mtu g) max_connections send_buffer_size ka server ais addr ok = Some (1, u)"
    and "tg_udp_mtu g \<le> INT_MAX" "send_buffer_size \<le> INT_MAX" "ip_addr addr"
    and "list_all (\<lambda>ai. ai_auth_type ai = 0 \<or> ai_auth_type ai = 2) ais"
    and "tg_udpgw g" "\<not> tg_quitting g" "tg_device_mtu g = int (length buf)"
    and "t = \<lparr>tu_s = connected u run \<lparr>sg_u = u, sg_run = run, sg_user = []\<rparr>, tu_buf = buf, tu_written = [], tu_lwip = []\<rparr>"
    and "admissible tun_enabled (tun_step g) t es"
  shows "\<exists>t'. exec (tun_step g) t es = Some t' \<and>
    (\<forall>p \<in> set (tu_written t'). int (length p) \<le> tg_device_mtu g) \<and>
    su_timer (sg_u (tu_s t')) = (\<not> su_have_socks (sg_u (tu_s t'))) \<and>
    (\<forall>a \<in> addrs (su_udpgw_client (sg_u (tu_s t'))). BAddr_type (ca_local_addr a) = BAddr_type (ca_remote_addr a))"
proof -
  have "tun_init ais addr g t" unfolding tun_init_def using assms(1-8) assms(9)
    by (intro exI [of _ raw] exI [of _ max_connections] exI [of _ send_buffer_size] exI [of _ ka] exI [of _ server] exI [of _ ok]
        exI [of _ run] exI [of _ u]) simp
  from tun.run_safe [OF this assms(10)] obtain t' where "exec (tun_step g) t es = Some t'" and i: "tun_inv ais addr g t'" by blast
  then show ?thesis using tun_invD [OF i] sug_invD(2) [OF tun_invD(1) [OF i]] unfolding paired_def by blast
qed

text \<open>
  The run of the witness: a packet for lwIP, a packet for udpgw that opens a connection, the SOCKS client comes up, an answer
  becomes a packet for the device, lwIP sends a packet, the server breaks the protocol, and the timer fires.
\<close>

definition tun_g0 :: tun_globals where
  "tun_g0 = tun_example\<lparr>tg_udp_mtu := 2, tg_device_mtu := 40\<rparr>"

definition tun_packet :: bytes where
  "tun_packet = the (snd (the (udpgw_client_handler_received tun_example (replicate 60 0) (BAddr_IPV4 2 2) (BAddr_IPV4 1 1) [1] 1)))"

definition tun_s0 :: tun_state where
  "tun_s0 = \<lparr>tu_s = sug_s0, tu_buf = replicate 40 0, tu_written = [], tu_lwip = []\<rparr>"

definition tun_events :: "tun_event list" where
  "tun_events = [TuDevice [0x45, 1, 2] None writer0 None True True, TuBelow (SgTimer True), TuDevice tun_packet (Some 5) writer0 (Some []) True True,
    TuBelow (SgSocks (SeConnector False True (Some [])) sender0 None), TuBelow (SgSocks (SeSent (Some [])) sender0 None),
    TuBelow (SgSocks (SeReceived [5, 0] (Some [])) sender0 None), TuBelow (SgSocks (SeSent (Some [])) sender0 None),
    TuBelow (SgSocks (SeReceived [5, 0, 0, 1] None) sender0 None),
    TuBelow (SgSocks (SeReceived [0, 0, 0, 0, 0, 0] None) sender0 (Some [])),
    TuBelow (SgUdpGw (UeReceive (udpgw_packet 0 0 (BAddr_IPV4 2 2) [8]))), TuOutput [[1], [2, 3]],
    TuBelow (SgUdpGw UeDecoderError), TuBelow (SgTimer False)]"

theorem tun_udp_path_safe_witness:
  "\<exists>t'. exec (tun_step tun_g0) tun_s0 tun_events = Some t' \<and>
    (\<forall>p \<in> set (tu_written t'). int (length p) \<le> tg_device_mtu tun_g0) \<and>
    su_timer (sg_u (tu_s t')) = (\<not> su_have_socks (sg_u (tu_s t'))) \<and>
    (\<forall>a \<in> addrs (su_udpgw_client (sg_u (tu_s t'))). BAddr_type (ca_local_addr a) = BAddr_type (ca_remote_addr a))"
proof (rule tun_udp_path_safe [where buf = "replicate 40 0" and u = sug0 and run = "the socks_example"])
  show "admissible tun_enabled (tun_step tun_g0) tun_s0 tun_events" by code_simp
  show "SocksUdpGwClient_Init sug_raw (tg_udp_mtu tun_g0) 1 1 1000 (BAddr_IPV4 1 2) [BSocksClient_auth_none] (BAddr_IPV4 3 4) False = Some (1, sug0)"
    using sug0_Init by (simp add: tun_g0_def)
qed (simp_all add: tun_g0_def tun_example_def tun_s0_def sug_s0_def BSocksClient_auth_none_def)

end
