(* ===== verification/TcpClient.thy ===== *)
theory TcpClient
  imports SocksClient
begin

text \<open>
  The TCP relay of tun2socks/tun2socks.c: one \<^verbatim>\<open>struct tcp_client\<close> joins a TCP connection that lwIP accepted with a
  SOCKS client. What the connection sends waits in \<open>ct_buf\<close> for the SOCKS server; what the SOCKS server sends waits
  in \<open>ct_recv_buf\<close> for the connection. Either side may go away first; what is buffered for the other is still
  delivered.

  A function returns \<open>None\<close> for the client when it has freed it, so nothing can be read from a freed client.
  \<open>ct_send_op\<close> is the length of the operation outstanding at the stream interface to the SOCKS server, and
  \<open>ct_recv_op\<close> whether one is outstanding in the other direction. lwIP is not part of the model: its answers are
  parameters (\<open>tcp_env\<close>), the calls to it are results.
\<close>

section \<open>State\<close>

abbreviation (input) TCP_WND :: nat where "TCP_WND \<equiv> 5840"
abbreviation (input) CLIENT_SOCKS_RECV_BUF_SIZE :: nat where "CLIENT_SOCKS_RECV_BUF_SIZE \<equiv> 8192"

datatype err_t = ERR_OK | ERR_MEM | ERR_ABRT | ERR_OTHER

record tcp_client =
  ct_local_addr :: BAddr
  ct_remote_addr :: BAddr
  ct_client_closed :: bool
  ct_buf :: bytes
  ct_buf_used :: int
  ct_socks_username :: "bytes option"
  ct_socks_client :: BSocksClient
  ct_socks_up :: bool
  ct_socks_closed :: bool
  ct_recv_buf :: bytes
  ct_recv_used :: int
  ct_recv_sent :: int
  ct_recv_waiting :: bool
  ct_tcp_pending :: int
  ct_send_op :: "int option"
  ct_recv_op :: bool

text \<open>
  The answers of lwIP during one callback: what \<^verbatim>\<open>tcp_close\<close> and \<^verbatim>\<open>tcp_output\<close> return, and for each round
  of the write loop the free send buffer and what \<^verbatim>\<open>tcp_write\<close> returns.
\<close>

record tcp_env =
  te_close :: err_t
  te_output :: err_t
  te_sndbuf :: "nat \<Rightarrow> u16"
  te_write :: "nat \<Rightarrow> err_t"

text \<open>
  The calls: callbacks removed or installed, the connection closed, aborted, written to, the data that is acknowledged to it,
  operations of the stream interfaces, the SOCKS client freed, a pbuf freed, the client freed.
\<close>

datatype client_call =
    CcCallbacksOff | CcRecvOff | CcSentOn | CcClose err_t | CcAbort | CcRecved int | CcWrite bytes | CcOutput
  | CcSend bytes | CcReceive int | CcSocksFree | CcPbufFree | CcFree

type_synonym client_result = "(tcp_client option \<times> client_call list) option"

definition before :: "client_call list \<Rightarrow> client_result \<Rightarrow> client_result" where
  "before cs r = map_option (\<lambda>(c, cs'). (c, cs @ cs')) r"

section \<open>Taking a client down\<close>

text \<open>The effect on the list of clients is in the theory of that list.\<close>

definition client_dealloc :: "tcp_client \<Rightarrow> client_result" where
  "client_dealloc c = do {
     ASSERT (ct_client_closed c);
     ASSERT (ct_socks_closed c);
     Some (None, [CcFree])
   }"

text \<open>
  The two sides free each other. An assertion that fails is the branch \<open>None\<close>.
\<close>

function client_handle_freed_client :: "tcp_env \<Rightarrow> tcp_client \<Rightarrow> client_result"
  and client_free_client :: "tcp_env \<Rightarrow> tcp_client \<Rightarrow> client_result"
  and client_free_socks :: "tcp_env \<Rightarrow> tcp_client \<Rightarrow> client_result" where
  "client_handle_freed_client env c =
     (if ct_client_closed c then None
      else if ct_buf_used c > 0 \<and> \<not> ct_socks_closed c then Some (Some (c\<lparr>ct_client_closed := True\<rparr>), [])
      else if \<not> ct_socks_closed c then client_free_socks env (c\<lparr>ct_client_closed := True\<rparr>)
      else client_dealloc (c\<lparr>ct_client_closed := True\<rparr>))"
| "client_free_client env c =
     (if ct_client_closed c then None
      else before ([CcCallbacksOff, CcClose (te_close env)] @ (if te_close env \<noteq> ERR_OK then [CcAbort] else []))
        (client_handle_freed_client env c))"
| "client_free_socks env c =
     (if ct_socks_closed c then None
      else before ((if ct_socks_up c \<and> \<not> ct_client_closed c then [CcRecvOff] else []) @ [CcSocksFree])
        (case BSocksClient_Free (ct_socks_client c) of
           None \<Rightarrow> None
         | Some sc \<Rightarrow>
             if ct_socks_up c \<and> (ct_recv_used c \<ge> 0 \<or> ct_tcp_pending c > 0) \<and> \<not> ct_client_closed c
             then Some (Some (c\<lparr>ct_socks_client := sc, ct_send_op := None, ct_recv_op := False, ct_socks_closed := True\<rparr>), [])
             else if \<not> ct_client_closed c
             then client_free_client env (c\<lparr>ct_socks_client := sc, ct_send_op := None, ct_recv_op := False, ct_socks_closed := True\<rparr>)
             else client_dealloc (c\<lparr>ct_socks_client := sc, ct_send_op := None, ct_recv_op := False, ct_socks_closed := True\<rparr>)))"
  by pat_completeness auto
termination
  by (relation "measure (\<lambda>x. case x of
        Inl (_, c) \<Rightarrow> 3 * (of_bool (\<not> ct_client_closed c) + of_bool (\<not> ct_socks_closed c))
      | Inr (Inl (_, c)) \<Rightarrow> 3 * (of_bool (\<not> ct_client_closed c) + of_bool (\<not> ct_socks_closed c)) + 1
      | Inr (Inr (_, c)) \<Rightarrow> 3 * (of_bool (\<not> ct_client_closed c) + of_bool (\<not> ct_socks_closed c)))") auto

declare client_handle_freed_client.simps [simp del] client_free_client.simps [simp del] client_free_socks.simps [simp del]

definition client_abort_client :: "tcp_env \<Rightarrow> tcp_client \<Rightarrow> client_result" where
  "client_abort_client env c = do {
     ASSERT (\<not> ct_client_closed c);
     before [CcCallbacksOff, CcAbort] (client_handle_freed_client env c)
   }"

definition client_murder :: "tcp_client \<Rightarrow> client_result" where
  "client_murder c = do {
     let (c, cs) = (if \<not> ct_client_closed c then (c\<lparr>ct_client_closed := True\<rparr>, [CcCallbacksOff, CcAbort]) else (c, []));
     (c, cs) \<leftarrow> (if \<not> ct_socks_closed c
       then do {
         sc \<leftarrow> BSocksClient_Free (ct_socks_client c);
         Some (c\<lparr>ct_socks_client := sc, ct_send_op := None, ct_recv_op := False, ct_socks_closed := True\<rparr>, cs @ [CcSocksFree])
       }
       else Some (c, cs));
     before cs (client_dealloc c)
   }"

section \<open>From the connection to the SOCKS server\<close>

text \<open>\<^verbatim>\<open>StreamPassInterface_Sender_Send\<close> and \<^verbatim>\<open>StreamRecvInterface_Receiver_Recv\<close> of the SOCKS connection.\<close>

definition sender_send :: "int \<Rightarrow> tcp_client \<Rightarrow> (tcp_client \<times> client_call list) option" where
  "sender_send n c = do {
     ASSERT (n > 0);
     ASSERT (ct_send_op c = None);
     d \<leftarrow> mem_read (ct_buf c) 0 (nat n);
     Some (c\<lparr>ct_send_op := Some n\<rparr>, [CcSend d])
   }"

definition client_send_to_socks :: "tcp_client \<Rightarrow> (tcp_client \<times> client_call list) option" where
  "client_send_to_socks c = do {
     ASSERT (\<not> ct_socks_closed c);
     ASSERT (ct_socks_up c);
     ASSERT (ct_buf_used c > 0);
     sender_send (ct_buf_used c) c
   }"

definition client_err_func :: "tcp_env \<Rightarrow> tcp_client \<Rightarrow> client_result" where
  "client_err_func env c = do {
     ASSERT (\<not> ct_client_closed c);
     client_handle_freed_client env c
   }"

text \<open>
  \<open>p\<close> is the data of the pbuf, \<open>None\<close> when the connection was closed by its other end. \<open>killed\<close> says whether
  the jobs that \<^verbatim>\<open>SYNC_COMMIT\<close> runs kill the client's \<^verbatim>\<open>dead_client\<close>; they are events of their own.
\<close>

definition client_recv_func :: "tcp_env \<Rightarrow> bytes option \<Rightarrow> bool \<Rightarrow> tcp_client \<Rightarrow> (err_t \<times> tcp_client option \<times> client_call list) option" where
  "client_recv_func env p killed c = do {
     ASSERT (\<not> ct_client_closed c);
     case p of
       None \<Rightarrow> do {
         (r, cs) \<leftarrow> client_free_client env c;
         Some (ERR_ABRT, r, cs)
       }
     | Some d \<Rightarrow> do {
         ASSERT (length d > 0);
         if int (length d) > int TCP_WND - ct_buf_used c then Some (ERR_MEM, Some c, [])
         else do {
           buf \<leftarrow> mem_write (ct_buf c) (nat (ct_buf_used c)) d;
           let c = c\<lparr>ct_buf := buf, ct_buf_used := ct_buf_used c + int (length d)\<rparr>;
           if ct_buf_used c = int (length d) \<and> ct_socks_up c
           then do {
             ASSERT (\<not> ct_socks_closed c);
             (c, cs) \<leftarrow> client_send_to_socks c;
             if killed then Some (ERR_ABRT, Some c, cs) else Some (ERR_OK, Some c, cs @ [CcPbufFree])
           }
           else Some (ERR_OK, Some c, [CcPbufFree])
         }
       }
   }"

definition client_socks_send_handler_done :: "tcp_env \<Rightarrow> int \<Rightarrow> tcp_client \<Rightarrow> client_result" where
  "client_socks_send_handler_done env data_len c = do {
     ASSERT (\<not> ct_socks_closed c);
     ASSERT (ct_socks_up c);
     ASSERT (ct_buf_used c > 0);
     ASSERT (data_len > 0);
     ASSERT (data_len \<le> ct_buf_used c);
     rest \<leftarrow> mem_read (ct_buf c) (nat data_len) (nat (ct_buf_used c - data_len));
     buf \<leftarrow> mem_write (ct_buf c) 0 rest;
     let c = c\<lparr>ct_buf := buf, ct_buf_used := ct_buf_used c - data_len\<rparr>;
     let cs = (if \<not> ct_client_closed c then [CcRecved data_len] else []);
     if ct_buf_used c > 0
     then do {
       (c, cs') \<leftarrow> sender_send (ct_buf_used c) c;
       Some (Some c, cs @ cs')
     }
     else if ct_client_closed c then before cs (client_free_socks env c)
     else Some (Some c, cs)
   }"

section \<open>From the SOCKS server to the connection\<close>

definition client_socks_recv_initiate :: "tcp_client \<Rightarrow> (tcp_client \<times> client_call list) option" where
  "client_socks_recv_initiate c = do {
     ASSERT (\<not> ct_client_closed c);
     ASSERT (\<not> ct_socks_closed c);
     ASSERT (ct_socks_up c);
     ASSERT (ct_recv_used c = -1);
     ASSERT (\<not> ct_recv_op c);
     Some (c\<lparr>ct_recv_op := True\<rparr>, [CcReceive (int CLIENT_SOCKS_RECV_BUF_SIZE)])
   }"

lemma uint_nonzero: "uint x \<noteq> 0 \<longleftrightarrow> 0 < uint x"
  by (simp add: order_less_le)

text \<open>
  The write loop, from its round \<open>k\<close> on. The result says whether \<^verbatim>\<open>tcp_write\<close> failed for another reason than missing memory.
\<close>

function send_out_loop :: "tcp_env \<Rightarrow> nat \<Rightarrow> tcp_client \<Rightarrow> (bool \<times> tcp_client \<times> client_call list) option" where
  "send_out_loop env k c =
     (let to_write = bmin_int (ct_recv_used c - ct_recv_sent c) (uint (te_sndbuf env k)) in
      if to_write = 0 then Some (False, c, [])
      else case mem_read (ct_recv_buf c) (nat (ct_recv_sent c)) (nat to_write) of
          None \<Rightarrow> None
        | Some d \<Rightarrow>
            if te_write env k \<noteq> ERR_OK then Some (te_write env k \<noteq> ERR_MEM, c, [])
            else if ct_recv_sent c + to_write < ct_recv_used c
            then map_option (\<lambda>(failed, c, cs). (failed, c, CcWrite d # cs))
              (send_out_loop env (k + 1)
                (c\<lparr>ct_recv_sent := ct_recv_sent c + to_write, ct_tcp_pending := ct_tcp_pending c + to_write\<rparr>))
            else Some (False, c\<lparr>ct_recv_sent := ct_recv_sent c + to_write, ct_tcp_pending := ct_tcp_pending c + to_write\<rparr>, [CcWrite d]))"
  by pat_completeness auto
termination
  by (relation "measure (\<lambda>(env, k, c). nat (ct_recv_used c - ct_recv_sent c))") (auto simp: bmin_int_def uint_nonzero split: if_splits)

declare send_out_loop.simps [simp del]

text \<open>The first result is the return value.\<close>

definition client_socks_recv_send_out :: "tcp_env \<Rightarrow> tcp_client \<Rightarrow> (int \<times> tcp_client option \<times> client_call list) option" where
  "client_socks_recv_send_out env c = do {
     ASSERT (\<not> ct_client_closed c);
     ASSERT (ct_socks_up c);
     ASSERT (ct_recv_used c > 0);
     ASSERT (ct_recv_sent c < ct_recv_used c);
     ASSERT (\<not> ct_recv_waiting c);
     (failed, c, cs) \<leftarrow> send_out_loop env 0 c;
     if failed
     then do {
       (r, cs') \<leftarrow> client_abort_client env c;
       Some (-1, r, cs @ cs')
     }
     else if te_output env \<noteq> ERR_OK
     then do {
       (r, cs') \<leftarrow> client_abort_client env c;
       Some (-1, r, cs @ CcOutput # cs')
     }
     else if ct_recv_sent c < ct_recv_used c
     then
       if ct_tcp_pending c = 0
       then do {
         (r, cs') \<leftarrow> client_abort_client env c;
         Some (-1, r, cs @ CcOutput # cs')
       }
       else Some (0, Some (c\<lparr>ct_recv_waiting := True\<rparr>), cs @ [CcOutput])
     else Some (0, Some (c\<lparr>ct_recv_used := -1\<rparr>), cs @ [CcOutput])
   }"

definition client_socks_recv_handler_done :: "tcp_env \<Rightarrow> int \<Rightarrow> tcp_client \<Rightarrow> client_result" where
  "client_socks_recv_handler_done env data_len c = do {
     ASSERT (data_len > 0);
     ASSERT (data_len \<le> int CLIENT_SOCKS_RECV_BUF_SIZE);
     ASSERT (\<not> ct_socks_closed c);
     ASSERT (ct_socks_up c);
     ASSERT (ct_recv_used c = -1);
     if ct_client_closed c then Some (Some c, [])
     else do {
       (ret, r, cs) \<leftarrow> client_socks_recv_send_out env (c\<lparr>ct_recv_used := data_len, ct_recv_sent := 0, ct_recv_waiting := False\<rparr>);
       if ret < 0 then Some (r, cs)
       else do {
         c \<leftarrow> r;
         if ct_recv_used c = -1
         then do {
           (c, cs') \<leftarrow> client_socks_recv_initiate c;
           Some (Some c, cs @ cs')
         }
         else Some (Some c, cs)
       }
     }
   }"

definition client_sent_func :: "tcp_env \<Rightarrow> int \<Rightarrow> bool \<Rightarrow> tcp_client \<Rightarrow> (err_t \<times> tcp_client option \<times> client_call list) option" where
  "client_sent_func env len killed c = do {
     ASSERT (\<not> ct_client_closed c);
     ASSERT (ct_socks_up c);
     ASSERT (len > 0);
     ASSERT (len \<le> ct_tcp_pending c);
     let c = c\<lparr>ct_tcp_pending := ct_tcp_pending c - len\<rparr>;
     if ct_recv_used c > 0
     then do {
       ASSERT (ct_recv_waiting c);
       ASSERT (ct_recv_sent c < ct_recv_used c);
       (ret, r, cs) \<leftarrow> client_socks_recv_send_out env (c\<lparr>ct_recv_waiting := False\<rparr>);
       if ret < 0 then Some (ERR_ABRT, r, cs)
       else do {
         c \<leftarrow> r;
         ASSERT (ct_tcp_pending c > 0);
         if ct_recv_used c = -1 \<and> \<not> ct_socks_closed c
         then do {
           (c, cs') \<leftarrow> client_socks_recv_initiate c;
           Some (if killed then ERR_ABRT else ERR_OK, Some c, cs @ cs')
         }
         else Some (ERR_OK, Some c, cs)
       }
     }
     else if ct_socks_closed c \<and> ct_tcp_pending c = 0
     then do {
       (r, cs) \<leftarrow> client_free_client env c;
       Some (ERR_ABRT, r, cs)
     }
     else Some (ERR_OK, Some c, [])
   }"

section \<open>The events of the SOCKS client\<close>

definition client_socks_handler :: "tcp_env \<Rightarrow> socks_event \<Rightarrow> tcp_client \<Rightarrow> client_result" where
  "client_socks_handler env event c = do {
     ASSERT (\<not> ct_socks_closed c);
     case event of
       EVENT_ERROR \<Rightarrow> client_free_socks env c
     | EVENT_UP \<Rightarrow> do {
         ASSERT (\<not> ct_socks_up c);
         BSocksClient_GetSendInterface (ct_socks_client c);
         BSocksClient_GetRecvInterface (ct_socks_client c);
         let c = c\<lparr>ct_send_op := None, ct_recv_op := False, ct_recv_used := -1, ct_tcp_pending := 0\<rparr>;
         let cs = (if \<not> ct_client_closed c then [CcSentOn] else []);
         let c = c\<lparr>ct_socks_up := True\<rparr>;
         (c, cs') \<leftarrow> (if ct_buf_used c > 0 then client_send_to_socks c else Some (c, []));
         (c, cs'') \<leftarrow> (if \<not> ct_client_closed c then client_socks_recv_initiate c else Some (c, []));
         Some (Some c, cs @ cs' @ cs'')
       }
     | EVENT_ERROR_CLOSED \<Rightarrow> do {
         ASSERT (ct_socks_up c);
         client_free_socks env c
       }
   }"

section \<open>A new client\<close>

text \<open>
  What \<^verbatim>\<open>listener_accept_func\<close> sets in the memory \<open>mem\<close> it got for a client. There are no stream interfaces yet, so no
  operation is outstanding.
\<close>

definition client_init :: "tcp_client \<Rightarrow> BAddr \<Rightarrow> BAddr \<Rightarrow> bytes option \<Rightarrow> BSocksClient \<Rightarrow> tcp_client" where
  "client_init mem local remote username sc =
     mem\<lparr>ct_socks_username := username, ct_local_addr := local, ct_remote_addr := remote, ct_socks_client := sc,
       ct_client_closed := False, ct_buf_used := 0, ct_socks_up := False, ct_socks_closed := False,
       ct_send_op := None, ct_recv_op := False\<rparr>"

section \<open>What taking down amounts to\<close>

definition freeable :: "tcp_client \<Rightarrow> bool" where
  "freeable c \<longleftrightarrow> ct_socks_closed c \<or> BSocksClient_Free (ct_socks_client c) \<noteq> None"

definition socks_gone :: "tcp_client \<Rightarrow> tcp_client" where
  "socks_gone c = c\<lparr>ct_socks_client := the (BSocksClient_Free (ct_socks_client c)), ct_send_op := None, ct_recv_op := False,
     ct_socks_closed := True\<rparr>"

definition closing_calls :: "tcp_env \<Rightarrow> client_call list" where
  "closing_calls env = [CcCallbacksOff, CcClose (te_close env)] @ (if te_close env \<noteq> ERR_OK then [CcAbort] else [])"

lemma handle_freed_eq:
  assumes "\<not> ct_client_closed c" "freeable c"
  shows "client_handle_freed_client env c = Some (
    if ct_buf_used c > 0 \<and> \<not> ct_socks_closed c then (Some (c\<lparr>ct_client_closed := True\<rparr>), [])
    else (None, (if ct_socks_closed c then [] else [CcSocksFree]) @ [CcFree]))"
  using assms
  by (auto simp: client_handle_freed_client.simps client_free_socks.simps client_dealloc_def before_def freeable_def)

lemma free_client_eq:
  assumes "\<not> ct_client_closed c" "freeable c"
  shows "client_free_client env c = Some (
    if ct_buf_used c > 0 \<and> \<not> ct_socks_closed c then (Some (c\<lparr>ct_client_closed := True\<rparr>), closing_calls env)
    else (None, closing_calls env @ (if ct_socks_closed c then [] else [CcSocksFree]) @ [CcFree]))"
  using assms by (simp add: client_free_client.simps handle_freed_eq before_def closing_calls_def)

lemma abort_client_eq:
  assumes "\<not> ct_client_closed c" "freeable c"
  shows "client_abort_client env c = Some (
    if ct_buf_used c > 0 \<and> \<not> ct_socks_closed c then (Some (c\<lparr>ct_client_closed := True\<rparr>), [CcCallbacksOff, CcAbort])
    else (None, [CcCallbacksOff, CcAbort] @ (if ct_socks_closed c then [] else [CcSocksFree]) @ [CcFree]))"
  using assms by (simp add: client_abort_client_def handle_freed_eq before_def)

lemma free_socks_eq:
  assumes "\<not> ct_socks_closed c" "freeable c"
  shows "client_free_socks env c = Some (
    if ct_client_closed c then (None, [CcSocksFree, CcFree])
    else if ct_socks_up c \<and> (ct_recv_used c \<ge> 0 \<or> ct_tcp_pending c > 0) then (Some (socks_gone c), [CcRecvOff, CcSocksFree])
    else (None, (if ct_socks_up c then [CcRecvOff] else []) @ CcSocksFree # closing_calls env @ [CcFree]))"
proof -
  obtain sc where "BSocksClient_Free (ct_socks_client c) = Some sc" using assms by (auto simp: freeable_def)
  moreover from this have "freeable (c\<lparr>ct_socks_client := sc, ct_send_op := None, ct_recv_op := False, ct_socks_closed := True\<rparr>)"
    by (simp add: freeable_def)
  ultimately show ?thesis using assms
    by (auto simp: client_free_socks.simps free_client_eq client_dealloc_def before_def socks_gone_def)
qed

lemma murder_eq:
  assumes "freeable c"
  shows "client_murder c = Some (None, (if ct_client_closed c then [] else [CcCallbacksOff, CcAbort]) @
    (if ct_socks_closed c then [] else [CcSocksFree]) @ [CcFree])"
  using assms by (auto simp: client_murder_def freeable_def client_dealloc_def before_def)

end
