(* ===== verification/TcpRelay.thy ===== *)
theory TcpRelay
  imports TcpClient "HOL-Library.Sublist"
begin

text \<open>
  The TCP relay of TcpClient.thy as a machine: the client, the SOCKS client under it and the bytes that enter and leave, driven by
  the callbacks of lwIP, the stream operations that complete and the events of the SOCKS connection. What it shows: no
  assertion fails and no operation is issued twice, bytes are relayed in order in both directions, nothing is freed twice or used after it.
\<close>

section \<open>The relay as a machine\<close>

text \<open>
  A client with its SOCKS client, what the connection and the SOCKS server have sent (\<open>rr_up_in\<close>, \<open>rr_dn_in\<close>), what the
  SOCKS connection has taken (\<open>rr_up_out\<close>), how often lwIP reported that the connection is gone, and the calls so far.
  The events: the callbacks of lwIP, the stream operations that complete, the events below the SOCKS
  client, and \<^verbatim>\<open>client_murder\<close>, which the program does when it ends.
\<close>

record relay_run =
  rr_c :: "tcp_client option"
  rr_run :: socks_run
  rr_up_in :: bytes
  rr_up_out :: bytes
  rr_dn_in :: bytes
  rr_errs :: nat
  rr_calls :: "client_call list"

datatype relay_ev =
    RvRecv tcp_env "bytes option" bool | RvErr tcp_env | RvSent tcp_env int bool
  | RvSendDone tcp_env int | RvRecvDone tcp_env bytes | RvSocks tcp_env socks_ev | RvMurder

text \<open>The event that the SOCKS client reports when it fails.\<close>

definition socks_failure :: "socks_run \<Rightarrow> socks_ev \<Rightarrow> socks_event" where
  "socks_failure run e = (if e = SeConnection True \<and> sr_up run then EVENT_ERROR_CLOSED else EVENT_ERROR)"

definition relay_next :: "relay_run \<Rightarrow> (tcp_client option \<times> client_call list) \<Rightarrow> relay_run" where
  "relay_next s x = s\<lparr>rr_c := fst x, rr_calls := rr_calls s @ snd x\<rparr>"

fun relay_step :: "relay_run \<Rightarrow> relay_ev \<Rightarrow> relay_run option" where
  "relay_step s (RvRecv env p killed) = do {
     c \<leftarrow> rr_c s;
     (err, x) \<leftarrow> client_recv_func env p killed c;
     Some ((relay_next s x)\<lparr>rr_up_in := rr_up_in s @ (case p of None \<Rightarrow> [] | Some d \<Rightarrow> if err = ERR_MEM then [] else d)\<rparr>)
   }"
| "relay_step s (RvErr env) = do {
     c \<leftarrow> rr_c s;
     x \<leftarrow> client_err_func env c;
     Some ((relay_next s x)\<lparr>rr_errs := rr_errs s + 1\<rparr>)
   }"
| "relay_step s (RvSent env len killed) = do {
     c \<leftarrow> rr_c s;
     (err, x) \<leftarrow> client_sent_func env len killed c;
     Some (relay_next s x)
   }"
| "relay_step s (RvSendDone env n) = do {
     c \<leftarrow> rr_c s;
     d \<leftarrow> mem_read (ct_buf c) 0 (nat n);
     x \<leftarrow> client_socks_send_handler_done env n (c\<lparr>ct_send_op := None\<rparr>);
     Some ((relay_next s x)\<lparr>rr_up_out := rr_up_out s @ d\<rparr>)
   }"
| "relay_step s (RvRecvDone env d) = do {
     c \<leftarrow> rr_c s;
     b \<leftarrow> mem_write (ct_recv_buf c) 0 d;
     x \<leftarrow> client_socks_recv_handler_done env (int (length d)) (c\<lparr>ct_recv_buf := b, ct_recv_op := False\<rparr>);
     Some ((relay_next s x)\<lparr>rr_dn_in := rr_dn_in s @ d\<rparr>)
   }"
| "relay_step s (RvSocks env e) = do {
     c \<leftarrow> rr_c s;
     run \<leftarrow> socks_step (rr_run s) e;
     let c = c\<lparr>ct_socks_client := sr_c run\<rparr>;
     x \<leftarrow> (if sr_dead run then client_socks_handler env (socks_failure (rr_run s) e) c
       else if sr_up run \<and> \<not> ct_socks_up c then client_socks_handler env EVENT_UP c
       else Some (Some c, []));
     Some ((relay_next s x)\<lparr>rr_run := run\<rparr>)
   }"
| "relay_step s RvMurder = do {
     c \<leftarrow> rr_c s;
     x \<leftarrow> client_murder c;
     Some (relay_next s x)
   }"

text \<open>
  A callback of lwIP comes only while it is installed; lwIP confirms no more than what was written to it. A stream operation that
  completes is one that is outstanding.
\<close>

fun relay_enabled :: "relay_run \<Rightarrow> relay_ev \<Rightarrow> bool" where
  "relay_enabled s (RvRecv env p killed) \<longleftrightarrow> (case rr_c s of None \<Rightarrow> False | Some c \<Rightarrow>
     \<not> ct_client_closed c \<and> \<not> ct_socks_closed c \<and> p \<noteq> Some [])"
| "relay_enabled s (RvErr env) \<longleftrightarrow> (case rr_c s of None \<Rightarrow> False | Some c \<Rightarrow> \<not> ct_client_closed c)"
| "relay_enabled s (RvSent env len killed) \<longleftrightarrow> (case rr_c s of None \<Rightarrow> False | Some c \<Rightarrow>
     \<not> ct_client_closed c \<and> ct_socks_up c \<and> 0 < len \<and> len \<le> ct_tcp_pending c)"
| "relay_enabled s (RvSendDone env n) \<longleftrightarrow> (case rr_c s of None \<Rightarrow> False | Some c \<Rightarrow>
     (case ct_send_op c of None \<Rightarrow> False | Some m \<Rightarrow> 0 < n \<and> n \<le> m))"
| "relay_enabled s (RvRecvDone env d) \<longleftrightarrow> (case rr_c s of None \<Rightarrow> False | Some c \<Rightarrow>
     ct_recv_op c \<and> d \<noteq> [] \<and> length d \<le> CLIENT_SOCKS_RECV_BUF_SIZE)"
| "relay_enabled s (RvSocks env e) \<longleftrightarrow> (case rr_c s of None \<Rightarrow> False | Some c \<Rightarrow>
     \<not> ct_socks_closed c \<and> socks_enabled (rr_run s) e)"
| "relay_enabled s RvMurder \<longleftrightarrow> rr_c s \<noteq> None"

section \<open>Invariant\<close>

definition bufs_ok :: "tcp_client \<Rightarrow> bool" where
  "bufs_ok c \<longleftrightarrow> length (ct_buf c) = TCP_WND \<and> 0 \<le> ct_buf_used c \<and> ct_buf_used c \<le> int TCP_WND \<and>
     length (ct_recv_buf c) = CLIENT_SOCKS_RECV_BUF_SIZE"

definition sides_ok :: "tcp_client \<Rightarrow> bool" where
  "sides_ok c \<longleftrightarrow> freeable c \<and> (ct_client_closed c \<longrightarrow> \<not> ct_socks_closed c \<and> 0 < ct_buf_used c) \<and>
     (ct_socks_closed c \<longrightarrow> ct_socks_up c \<and> (0 < ct_recv_used c \<or> 0 < ct_tcp_pending c))"

definition send_ok :: "tcp_client \<Rightarrow> bool" where
  "send_ok c \<longleftrightarrow> (if ct_socks_up c \<and> \<not> ct_socks_closed c \<and> 0 < ct_buf_used c
      then \<exists>n. ct_send_op c = Some n \<and> 0 < n \<and> n \<le> ct_buf_used c else ct_send_op c = None)"

definition recv_ok :: "tcp_client \<Rightarrow> bool" where
  "recv_ok c \<longleftrightarrow>
     (ct_socks_up c \<and> \<not> ct_client_closed c \<longrightarrow> 0 \<le> ct_tcp_pending c \<and> (ct_recv_used c = -1 \<or>
        0 < ct_recv_used c \<and> ct_recv_used c \<le> int CLIENT_SOCKS_RECV_BUF_SIZE \<and> 0 \<le> ct_recv_sent c \<and>
        ct_recv_sent c < ct_recv_used c \<and> ct_recv_waiting c \<and> 0 < ct_tcp_pending c)) \<and>
     (ct_recv_op c \<longrightarrow> ct_socks_up c \<and> \<not> ct_socks_closed c \<and> ct_recv_used c = -1) \<and>
     (ct_socks_up c \<and> \<not> ct_socks_closed c \<and> \<not> ct_client_closed c \<longrightarrow> ct_recv_op c = (ct_recv_used c = -1))"

definition client_inv :: "tcp_client \<Rightarrow> bool" where
  "client_inv c \<longleftrightarrow> bufs_ok c \<and> sides_ok c \<and> send_ok c \<and> recv_ok c"

lemmas client_parts = bufs_ok_def sides_ok_def send_ok_def recv_ok_def

definition written :: "client_call list \<Rightarrow> bytes" where
  "written cs = concat (map (\<lambda>x. case x of CcWrite d \<Rightarrow> d | _ \<Rightarrow> []) cs)"

text \<open>What was received from the SOCKS server and not written to the connection yet.\<close>

definition unsent :: "tcp_client \<Rightarrow> bytes" where
  "unsent c = (if ct_socks_up c \<and> ct_recv_used c \<noteq> -1
     then drop (nat (ct_recv_sent c)) (take (nat (ct_recv_used c)) (ct_recv_buf c)) else [])"

definition alive :: "relay_run \<Rightarrow> tcp_client \<Rightarrow> bool" where
  "alive s c \<longleftrightarrow> rr_up_in s = rr_up_out s @ take (nat (ct_buf_used c)) (ct_buf c) \<and>
     (if ct_client_closed c then prefix (written (rr_calls s)) (rr_dn_in s) else rr_dn_in s = written (rr_calls s) @ unsent c) \<and>
     count_list (rr_calls s) CcCallbacksOff + rr_errs s = of_bool (ct_client_closed c) \<and>
     count_list (rr_calls s) CcSocksFree = of_bool (ct_socks_closed c) \<and> count_list (rr_calls s) CcFree = 0"

definition gone :: "relay_run \<Rightarrow> bool" where
  "gone s \<longleftrightarrow> prefix (rr_up_out s) (rr_up_in s) \<and> prefix (written (rr_calls s)) (rr_dn_in s) \<and>
     count_list (rr_calls s) CcCallbacksOff + rr_errs s = 1 \<and> count_list (rr_calls s) CcSocksFree = 1 \<and>
     count_list (rr_calls s) CcFree = 1"

definition linked :: "BSocksClient_auth_info list \<Rightarrow> BAddr \<Rightarrow> tcp_client \<Rightarrow> socks_run \<Rightarrow> bool" where
  "linked ais addr c run \<longleftrightarrow> (\<not> ct_socks_closed c \<longrightarrow> socks_inv ais addr run \<and> \<not> sr_dead run \<and>
     sr_c run = ct_socks_client c \<and> ct_socks_up c = sr_up run)"

definition relay_inv :: "BSocksClient_auth_info list \<Rightarrow> BAddr \<Rightarrow> relay_run \<Rightarrow> bool" where
  "relay_inv ais addr s \<longleftrightarrow> (case rr_c s of None \<Rightarrow> gone s
     | Some c \<Rightarrow> client_inv c \<and> linked ais addr c (rr_run s) \<and> alive s c)"

lemma written_append [simp]: "written (xs @ ys) = written xs @ written ys"
  by (simp add: written_def)

lemma written_simps [simp]: "written [] = []" "written (CcWrite d # cs) = d @ written cs"
  "written (CcCallbacksOff # cs) = written cs" "written (CcRecvOff # cs) = written cs" "written (CcSentOn # cs) = written cs"
  "written (CcClose e # cs) = written cs" "written (CcAbort # cs) = written cs" "written (CcRecved n # cs) = written cs"
  "written (CcOutput # cs) = written cs" "written (CcSend x # cs) = written cs" "written (CcReceive m # cs) = written cs"
  "written (CcSocksFree # cs) = written cs" "written (CcPbufFree # cs) = written cs" "written (CcFree # cs) = written cs"
  by (simp_all add: written_def)

lemma alive_prefix:
  assumes "alive s c"
  shows "prefix (rr_up_out s) (rr_up_in s)" "prefix (written (rr_calls s)) (rr_dn_in s)"
  using assms by (auto simp: alive_def split: if_splits)

text \<open>The two ways a step can end: the client is gone, or it is still there.\<close>

lemma relay_gone:
  assumes a: "alive s c" and s': "rr_c s' = None" "rr_calls s' = rr_calls s @ cs" "rr_errs s' = rr_errs s + e"
    and up: "prefix (rr_up_out s') (rr_up_in s')" and dn: "prefix (written (rr_calls s')) (rr_dn_in s')"
    and n: "count_list cs CcCallbacksOff + e = of_bool (\<not> ct_client_closed c)"
      "count_list cs CcSocksFree = of_bool (\<not> ct_socks_closed c)" "count_list cs CcFree = 1"
  shows "relay_inv ais addr s'"
  using assms by (cases "ct_client_closed c"; cases "ct_socks_closed c") (auto simp: relay_inv_def gone_def alive_def)

lemma relay_alive:
  assumes a: "alive s c" and s': "rr_c s' = Some c'" "rr_calls s' = rr_calls s @ cs" "rr_errs s' = rr_errs s + e"
    and c': "client_inv c'" "linked ais addr c' (rr_run s')"
    and up: "rr_up_in s' = rr_up_out s' @ take (nat (ct_buf_used c')) (ct_buf c')"
    and dn: "if ct_client_closed c' then prefix (written (rr_calls s')) (rr_dn_in s') else rr_dn_in s' = written (rr_calls s') @ unsent c'"
    and n: "of_bool (ct_client_closed c') = of_bool (ct_client_closed c) + (count_list cs CcCallbacksOff + e)"
      "of_bool (ct_socks_closed c') = of_bool (ct_socks_closed c) + count_list cs CcSocksFree" "count_list cs CcFree = 0"
  shows "relay_inv ais addr s'"
  using assms by (simp add: relay_inv_def alive_def)

lemma relay_invD:
  assumes "relay_inv ais addr s" "rr_c s = Some c"
  shows "client_inv c" "linked ais addr c (rr_run s)" "alive s c"
  using assms by (simp_all add: relay_inv_def)

lemma client_invD:
  assumes "client_inv c"
  shows "length (ct_buf c) = TCP_WND" "0 \<le> ct_buf_used c" "ct_buf_used c \<le> int TCP_WND"
    "length (ct_recv_buf c) = CLIENT_SOCKS_RECV_BUF_SIZE" "freeable c"
    "ct_client_closed c \<Longrightarrow> \<not> ct_socks_closed c \<and> 0 < ct_buf_used c"
    "ct_socks_closed c \<Longrightarrow> ct_socks_up c \<and> (0 < ct_recv_used c \<or> 0 < ct_tcp_pending c)"
  using assms unfolding client_inv_def bufs_ok_def sides_ok_def by blast+

lemma client_invI: "bufs_ok c \<Longrightarrow> sides_ok c \<Longrightarrow> send_ok c \<Longrightarrow> recv_ok c \<Longrightarrow> client_inv c"
  by (simp add: client_inv_def)

lemma client_inv_partsD: "client_inv c \<Longrightarrow> bufs_ok c" "client_inv c \<Longrightarrow> sides_ok c" "client_inv c \<Longrightarrow> send_ok c"
  "client_inv c \<Longrightarrow> recv_ok c"
  by (simp_all add: client_inv_def)

text \<open>The connection is gone; what is buffered for the SOCKS server is still sent.\<close>

lemma client_closed_inv:
  assumes i: "client_inv c" and c: "0 < ct_buf_used c" "\<not> ct_socks_closed c"
  shows "client_inv (c\<lparr>ct_client_closed := True\<rparr>)"
  using i c by (simp add: client_inv_def client_parts freeable_def)

lemma linked_same [simp]:
  "linked ais addr (c\<lparr>ct_client_closed := b\<rparr>) run = linked ais addr c run"
  by (simp add: linked_def)

lemma unsent_same [simp]: "unsent (c\<lparr>ct_client_closed := b\<rparr>) = unsent c"
  by (simp add: unsent_def)

lemma closing_calls_simps [simp]: "written (closing_calls env) = []" "count_list (closing_calls env) CcCallbacksOff = 1"
  "count_list (closing_calls env) CcSocksFree = 0" "count_list (closing_calls env) CcFree = 0"
  by (simp_all add: closing_calls_def)

lemma err_step:
  assumes i: "relay_inv ais addr s" and en: "relay_enabled s (RvErr env)"
  shows "\<exists>s'. relay_step s (RvErr env) = Some s' \<and> relay_inv ais addr s'"
proof -
  obtain c where c: "rr_c s = Some c" "\<not> ct_client_closed c" using en by (auto split: option.splits)
  note D = relay_invD [OF i c(1)]
  let ?x = "if ct_buf_used c > 0 \<and> \<not> ct_socks_closed c then (Some (c\<lparr>ct_client_closed := True\<rparr>), [])
    else (None, (if ct_socks_closed c then [] else [CcSocksFree]) @ [CcFree])"
  let ?s = "(relay_next s ?x)\<lparr>rr_errs := rr_errs s + 1\<rparr>"
  have "client_err_func env c = Some ?x"
    using c(2) handle_freed_eq [OF c(2) client_invD(5) [OF D(1)]] by (simp add: client_err_func_def)
  then have st: "relay_step s (RvErr env) = Some ?s" using c(1) by (simp only: relay_step.simps) simp
  have "relay_inv ais addr ?s"
  proof (cases "ct_buf_used c > 0 \<and> \<not> ct_socks_closed c")
    case True
    with D(3) c(2) client_closed_inv [OF D(1)] D(2) show ?thesis
      by (intro relay_alive [OF D(3), where cs = "[]" and e = 1 and c' = "c\<lparr>ct_client_closed := True\<rparr>"])
        (auto simp: relay_next_def alive_def)
  next
    case False
    with c(2) alive_prefix [OF D(3)] show ?thesis
      by (intro relay_gone [OF D(3), where cs = "(if ct_socks_closed c then [] else [CcSocksFree]) @ [CcFree]" and e = 1])
        (auto simp: relay_next_def)
  qed
  with st show ?thesis by blast
qed

lemma murder_step:
  assumes i: "relay_inv ais addr s" and en: "relay_enabled s RvMurder"
  shows "\<exists>s'. relay_step s RvMurder = Some s' \<and> relay_inv ais addr s' \<and> rr_c s' = None"
proof -
  obtain c where c: "rr_c s = Some c" using en by auto
  note D = relay_invD [OF i c]
  let ?cs = "(if ct_client_closed c then [] else [CcCallbacksOff, CcAbort]) @ (if ct_socks_closed c then [] else [CcSocksFree]) @ [CcFree]"
  have "relay_step s RvMurder = Some (relay_next s (None, ?cs))"
    using murder_eq [OF client_invD(5) [OF D(1)]] c by simp
  moreover have "relay_inv ais addr (relay_next s (None, ?cs))"
    using alive_prefix [OF D(3)] by (intro relay_gone [OF D(3), where cs = ?cs and e = 0]) (auto simp: relay_next_def)
  ultimately show ?thesis by (simp add: relay_next_def)
qed

text \<open>Closing the connection, and losing the SOCKS server, as a step.\<close>

lemma free_client_ends:
  assumes D: "client_inv c" "linked ais addr c (rr_run s)" "alive s c" and o: "\<not> ct_client_closed c"
  shows "\<exists>x. client_free_client env c = Some x \<and> relay_inv ais addr (relay_next s x)"
proof (cases "ct_buf_used c > 0 \<and> \<not> ct_socks_closed c")
  case True
  have "relay_inv ais addr (relay_next s (Some (c\<lparr>ct_client_closed := True\<rparr>), closing_calls env))"
    using D o True client_closed_inv [OF D(1)]
    by (intro relay_alive [OF D(3), where cs = "closing_calls env" and e = 0 and c' = "c\<lparr>ct_client_closed := True\<rparr>"])
      (auto simp: relay_next_def alive_def)
  with True show ?thesis by (simp add: free_client_eq [OF o client_invD(5) [OF D(1)]])
next
  case False
  let ?cs = "closing_calls env @ (if ct_socks_closed c then [] else [CcSocksFree]) @ [CcFree]"
  have "relay_inv ais addr (relay_next s (None, ?cs))"
    using o alive_prefix [OF D(3)] by (intro relay_gone [OF D(3), where cs = ?cs and e = 0]) (auto simp: relay_next_def)
  then show ?thesis by (simp only: free_client_eq [OF o client_invD(5) [OF D(1)]] if_not_P [OF False]) blast
qed

lemma socks_gone_simps [simp]: "ct_client_closed (socks_gone c) = ct_client_closed c" "ct_socks_closed (socks_gone c)"
  "ct_buf (socks_gone c) = ct_buf c" "ct_buf_used (socks_gone c) = ct_buf_used c" "unsent (socks_gone c) = unsent c"
  "linked ais addr (socks_gone c) run"
  by (simp_all add: socks_gone_def unsent_def linked_def)

text \<open>
  The stream interfaces vanish with the SOCKS client, so this needs of the client only what is left over: the operation being completed may still be
  noted as outstanding or not.
\<close>

lemma socks_gone_inv:
  assumes i: "client_inv c" and c: "\<not> ct_client_closed c" "ct_socks_up c" "ct_recv_used c \<ge> 0 \<or> ct_tcp_pending c > 0"
  shows "client_inv (socks_gone c)"
  using assms by (auto simp: client_inv_def client_parts socks_gone_def freeable_def)

lemma free_socks_ends:
  assumes D: "client_inv c" "alive s c" and o: "\<not> ct_socks_closed c"
  shows "\<exists>x. client_free_socks env c = Some x \<and> relay_inv ais addr (relay_next s x)"
proof -
  note eq = free_socks_eq [OF o client_invD(5) [OF D(1)], of env]
  consider (closed) "ct_client_closed c"
    | (wait) "\<not> ct_client_closed c" "ct_socks_up c \<and> (ct_recv_used c \<ge> 0 \<or> ct_tcp_pending c > 0)"
    | (done') "\<not> ct_client_closed c" "\<not> (ct_socks_up c \<and> (ct_recv_used c \<ge> 0 \<or> ct_tcp_pending c > 0))" by blast
  then show ?thesis
  proof cases
    case closed
    have "relay_inv ais addr (relay_next s (None, [CcSocksFree, CcFree]))"
      using o closed alive_prefix [OF D(2)]
      by (intro relay_gone [OF D(2), where cs = "[CcSocksFree, CcFree]" and e = 0]) (auto simp: relay_next_def)
    with closed eq show ?thesis by simp
  next
    case wait
    have "relay_inv ais addr (relay_next s (Some (socks_gone c), [CcRecvOff, CcSocksFree]))"
      using o wait D socks_gone_inv [OF D(1)]
      by (intro relay_alive [OF D(2), where cs = "[CcRecvOff, CcSocksFree]" and e = 0 and c' = "socks_gone c"])
        (auto simp: relay_next_def alive_def)
    with wait eq show ?thesis by simp
  next
    case done'
    let ?cs = "(if ct_socks_up c then [CcRecvOff] else []) @ CcSocksFree # closing_calls env @ [CcFree]"
    have "relay_inv ais addr (relay_next s (None, ?cs))"
      using o done' alive_prefix [OF D(2)] by (intro relay_gone [OF D(2), where cs = ?cs and e = 0]) (auto simp: relay_next_def)
    with done' eq show ?thesis by auto
  qed
qed

text \<open>New data from the connection is appended to the buffer.\<close>

lemma append_buf:
  assumes i: "client_inv c" and d: "int (length d) \<le> int TCP_WND - ct_buf_used c"
  obtains buf where "mem_write (ct_buf c) (nat (ct_buf_used c)) d = Some buf" "length buf = TCP_WND"
    "take (nat (ct_buf_used c + int (length d))) buf = take (nat (ct_buf_used c)) (ct_buf c) @ d"
proof -
  have b: "length (ct_buf c) = TCP_WND" "0 \<le> ct_buf_used c" "nat (ct_buf_used c) + length d \<le> length (ct_buf c)"
    using client_invD [OF i] d by linarith+
  then have "length (take (nat (ct_buf_used c)) (ct_buf c)) = nat (ct_buf_used c)" by simp
  from write_next [OF refl this b(3)] that b show ?thesis by (auto simp: nat_add_distrib)
qed

text \<open>Each part of the invariant is about a few fields.\<close>

lemma bufs_ok_frame [simp]: "bufs_ok (c\<lparr>ct_send_op := x\<rparr>) = bufs_ok c" "bufs_ok (c\<lparr>ct_recv_op := b\<rparr>) = bufs_ok c"
  "bufs_ok (c\<lparr>ct_recv_used := n\<rparr>) = bufs_ok c" "bufs_ok (c\<lparr>ct_recv_sent := n\<rparr>) = bufs_ok c"
  "bufs_ok (c\<lparr>ct_recv_waiting := b\<rparr>) = bufs_ok c" "bufs_ok (c\<lparr>ct_tcp_pending := n\<rparr>) = bufs_ok c"
  "bufs_ok (c\<lparr>ct_socks_up := b\<rparr>) = bufs_ok c" "bufs_ok (c\<lparr>ct_socks_client := sc\<rparr>) = bufs_ok c"
  by (simp_all add: bufs_ok_def)

lemma freeable_frame [simp]: "freeable (c\<lparr>ct_buf := bs\<rparr>) = freeable c" "freeable (c\<lparr>ct_buf_used := n\<rparr>) = freeable c"
  "freeable (c\<lparr>ct_send_op := x\<rparr>) = freeable c" "freeable (c\<lparr>ct_recv_op := b\<rparr>) = freeable c"
  "freeable (c\<lparr>ct_recv_buf := bs\<rparr>) = freeable c" "freeable (c\<lparr>ct_recv_used := n\<rparr>) = freeable c"
  "freeable (c\<lparr>ct_recv_sent := n\<rparr>) = freeable c" "freeable (c\<lparr>ct_recv_waiting := b\<rparr>) = freeable c"
  "freeable (c\<lparr>ct_tcp_pending := n\<rparr>) = freeable c" "freeable (c\<lparr>ct_socks_up := b\<rparr>) = freeable c"
  "freeable (c\<lparr>ct_client_closed := b\<rparr>) = freeable c"
  by (simp_all add: freeable_def)

lemma send_ok_frame [simp]: "send_ok (c\<lparr>ct_buf := bs\<rparr>) = send_ok c" "send_ok (c\<lparr>ct_recv_op := b\<rparr>) = send_ok c"
  "send_ok (c\<lparr>ct_recv_buf := bs\<rparr>) = send_ok c" "send_ok (c\<lparr>ct_recv_used := n\<rparr>) = send_ok c"
  "send_ok (c\<lparr>ct_recv_sent := n\<rparr>) = send_ok c" "send_ok (c\<lparr>ct_recv_waiting := b\<rparr>) = send_ok c"
  "send_ok (c\<lparr>ct_tcp_pending := n\<rparr>) = send_ok c" "send_ok (c\<lparr>ct_client_closed := b\<rparr>) = send_ok c"
  "send_ok (c\<lparr>ct_socks_client := sc\<rparr>) = send_ok c"
  by (simp_all add: send_ok_def)

lemma recv_ok_frame [simp]: "recv_ok (c\<lparr>ct_buf := bs\<rparr>) = recv_ok c" "recv_ok (c\<lparr>ct_buf_used := n\<rparr>) = recv_ok c"
  "recv_ok (c\<lparr>ct_send_op := x\<rparr>) = recv_ok c" "recv_ok (c\<lparr>ct_recv_buf := bs\<rparr>) = recv_ok c"
  "recv_ok (c\<lparr>ct_socks_client := sc\<rparr>) = recv_ok c"
  by (simp_all add: recv_ok_def)

text \<open>The client with more in its buffer, and the operation that was started if it was empty.\<close>

lemma append_inv:
  assumes i: "client_inv c" and w: "\<not> ct_client_closed c" "\<not> ct_socks_closed c"
    and n: "0 < n" "ct_buf_used c + n \<le> int TCP_WND" "length buf = TCP_WND"
    and op: "op = (if ct_buf_used c = 0 \<and> ct_socks_up c then Some n else ct_send_op c)"
  shows "client_inv (c\<lparr>ct_buf := buf, ct_buf_used := ct_buf_used c + n, ct_send_op := op\<rparr>)"
proof (rule client_invI)
  note used = client_invD(2) [OF i]
  let ?c = "c\<lparr>ct_buf := buf, ct_buf_used := ct_buf_used c + n, ct_send_op := op\<rparr>"
  show "bufs_ok ?c" using client_inv_partsD(1) [OF i] n by (simp add: bufs_ok_def)
  show "sides_ok ?c" using client_inv_partsD(2) [OF i] w unfolding sides_ok_def freeable_def by simp
  show "recv_ok ?c" using client_inv_partsD(4) [OF i] by simp
  have s: "send_ok c" by (rule client_inv_partsD(3) [OF i])
  show "send_ok ?c"
  proof (cases "ct_socks_up c")
    case False
    then show ?thesis using s by (simp add: send_ok_def op)
  next
    case up: True
    show ?thesis
    proof (cases "ct_buf_used c = 0")
      case True
      with up n(1) w(2) show ?thesis by (simp add: send_ok_def op)
    next
      case False
      then have p: "0 < ct_buf_used c" using used by simp
      with s up w(2) obtain m where m: "ct_send_op c = Some m" "0 < m" "m \<le> ct_buf_used c" by (auto simp: send_ok_def)
      have "op = Some m" using False m(1) by (simp add: op)
      moreover have "m \<le> ct_buf_used c + n" "0 < ct_buf_used c + n" using m(3) n(1) p by linarith+
      ultimately show ?thesis using up w(2) m(2) by (simp add: send_ok_def)
    qed
  qed
qed

lemma recv_step:
  assumes i: "relay_inv ais addr s" and en: "relay_enabled s (RvRecv env p killed)"
  shows "\<exists>s'. relay_step s (RvRecv env p killed) = Some s' \<and> relay_inv ais addr s'"
proof -
  obtain c where c: "rr_c s = Some c" "\<not> ct_client_closed c" "\<not> ct_socks_closed c" "p \<noteq> Some []"
    using en by (auto split: option.splits)
  note D = relay_invD [OF i c(1)]
  show ?thesis
  proof (cases p)
    case None
    obtain x where "client_free_client env c = Some x" "relay_inv ais addr (relay_next s x)"
      using free_client_ends [OF D c(2)] by blast
    with c None show ?thesis by (cases x) (simp add: client_recv_func_def relay_next_def)
  next
    case (Some d)
    show ?thesis
    proof (cases "int (length d) > int TCP_WND - ct_buf_used c")
      case True
      have "relay_next s (Some c, []) = s" using c(1) by (simp add: relay_next_def)
      with True Some c i show ?thesis by (simp add: client_recv_func_def)
    next
      case False
      then obtain buf where b: "mem_write (ct_buf c) (nat (ct_buf_used c)) d = Some buf" "length buf = TCP_WND"
        "take (nat (ct_buf_used c + int (length d))) buf = take (nat (ct_buf_used c)) (ct_buf c) @ d"
        using append_buf [OF D(1)] by (metis linorder_not_less)
      let ?u = "ct_buf_used c + int (length d)"
      let ?c1 = "c\<lparr>ct_buf := buf, ct_buf_used := ?u\<rparr>"
      have l: "0 < length d" "?u \<le> int TCP_WND" "0 \<le> ct_buf_used c" using Some c(4) False client_invD(2) [OF D(1)] by auto
      show ?thesis
      proof (cases "ct_buf_used c = 0 \<and> ct_socks_up c")
        case True
        let ?c2 = "?c1\<lparr>ct_send_op := Some (int (length d))\<rparr>" and ?cs = "CcSend (take (length d) buf) # (if killed then [] else [CcPbufFree])"
        have so: "ct_send_op c = None" using client_inv_partsD(3) [OF D(1)] True by (simp add: send_ok_def)
        have "client_recv_func env p killed c = Some (if killed then ERR_ABRT else ERR_OK, Some ?c2, ?cs)"
          using Some c(2,3) False True b l so
          by (simp add: client_recv_func_def client_send_to_socks_def sender_send_def mem_read_def)
        then have st: "relay_step s (RvRecv env p killed) = Some ((relay_next s (Some ?c2, ?cs))\<lparr>rr_up_in := rr_up_in s @ d\<rparr>)"
          using c(1) Some by simp
        have "client_inv ?c2"
          by (rule append_inv [OF D(1) c(2,3) _ l(2) b(2)]) (use l True in simp_all)
        moreover have "linked ais addr ?c2 (rr_run s)" using D(2) by (simp add: linked_def)
        ultimately have "relay_inv ais addr ((relay_next s (Some ?c2, ?cs))\<lparr>rr_up_in := rr_up_in s @ d\<rparr>)"
          using D(3) b(3) c(2,3) True
          by (intro relay_alive [OF D(3), where cs = ?cs and e = 0 and c' = ?c2]) (auto simp: relay_next_def alive_def unsent_def)
        with st show ?thesis by blast
      next
        case nosend: False
        have "client_recv_func env p killed c = Some (ERR_OK, Some ?c1, [CcPbufFree])"
          using Some c(2,3) False nosend b l by (auto simp: client_recv_func_def)
        then have st: "relay_step s (RvRecv env p killed) = Some ((relay_next s (Some ?c1, [CcPbufFree]))\<lparr>rr_up_in := rr_up_in s @ d\<rparr>)"
          using c(1) Some by simp
        have "client_inv (?c1\<lparr>ct_send_op := ct_send_op c\<rparr>)"
          by (rule append_inv [OF D(1) c(2,3) _ l(2) b(2)]) (use l nosend in auto)
        then have "client_inv ?c1" by simp
        moreover have "linked ais addr ?c1 (rr_run s)" using D(2) by (simp add: linked_def)
        ultimately have "relay_inv ais addr ((relay_next s (Some ?c1, [CcPbufFree]))\<lparr>rr_up_in := rr_up_in s @ d\<rparr>)"
          using D(3) b(3) c(2,3)
          by (intro relay_alive [OF D(3), where cs = "[CcPbufFree]" and e = 0 and c' = ?c1]) (auto simp: relay_next_def alive_def unsent_def)
        with st show ?thesis by blast
      qed
    qed
  qed
qed

text \<open>The SOCKS connection has taken the first \<open>n\<close> bytes of what was offered to it.\<close>

lemma shift_buf:
  assumes i: "client_inv c" and n: "0 < n" "n \<le> ct_buf_used c"
  obtains rest buf where "mem_read (ct_buf c) (nat n) (nat (ct_buf_used c - n)) = Some rest" "mem_write (ct_buf c) 0 rest = Some buf"
    "length buf = TCP_WND" "take (nat n) (ct_buf c) @ take (nat (ct_buf_used c - n)) buf = take (nat (ct_buf_used c)) (ct_buf c)"
proof -
  have b: "length (ct_buf c) = TCP_WND" "ct_buf_used c \<le> int TCP_WND" using client_invD [OF i] by blast+
  obtain u k where u: "ct_buf_used c = int u" "n = int k" "k \<le> u" using n by (metis int_nat_eq nat_le_iff nle_le order_less_imp_le order_trans)
  define r where "r = take (u - k) (drop k (ct_buf c))"
  have rd: "mem_read (ct_buf c) k (u - k) = Some r" using u b by (simp add: mem_read_def r_def)
  have l: "length r = u - k" using u b by (simp add: r_def)
  then have w: "mem_write (ct_buf c) 0 r = Some (r @ drop (u - k) (ct_buf c))" using u b by (simp add: mem_write_def)
  have "take k (ct_buf c) @ take (u - k) (r @ drop (u - k) (ct_buf c)) = take u (ct_buf c)"
    using l u(3) by (simp add: r_def flip: take_add)
  moreover have "length (r @ drop (u - k) (ct_buf c)) = TCP_WND" using l u b by simp
  moreover have "nat n = k" "nat (ct_buf_used c - n) = u - k" "nat (ct_buf_used c) = u" using u by (simp_all flip: of_nat_diff)
  ultimately show ?thesis using that [of r "r @ drop (u - k) (ct_buf c)"] rd w by simp
qed

text \<open>The client with less in its buffer, and the operation for the rest if there is any.\<close>

lemma shift_inv:
  assumes i: "client_inv c" and u: "ct_socks_up c" "\<not> ct_socks_closed c"
    and n: "0 \<le> m" "m \<le> int TCP_WND" "length buf = TCP_WND" "ct_client_closed c \<longrightarrow> 0 < m"
  shows "client_inv (c\<lparr>ct_buf := buf, ct_buf_used := m, ct_send_op := (if 0 < m then Some m else None)\<rparr>)"
proof (rule client_invI)
  let ?c = "c\<lparr>ct_buf := buf, ct_buf_used := m, ct_send_op := (if 0 < m then Some m else None)\<rparr>"
  show "bufs_ok ?c" using client_inv_partsD(1) [OF i] n by (simp add: bufs_ok_def)
  show "sides_ok ?c" using client_inv_partsD(2) [OF i] u n(4) by (simp add: sides_ok_def)
  show "recv_ok ?c" using client_inv_partsD(4) [OF i] by simp
  show "send_ok ?c" using u by (simp add: send_ok_def)
qed

lemma send_op_on:
  assumes "client_inv c" "ct_send_op c = Some m"
  shows "ct_socks_up c" "\<not> ct_socks_closed c" "0 < ct_buf_used c" "m \<le> ct_buf_used c"
  using client_inv_partsD(3) [OF assms(1)] assms(2) by (auto simp: send_ok_def split: if_splits)

lemma send_done_step:
  assumes i: "relay_inv ais addr s" and en: "relay_enabled s (RvSendDone env n)"
  shows "\<exists>s'. relay_step s (RvSendDone env n) = Some s' \<and> relay_inv ais addr s'"
proof -
  obtain c m where c: "rr_c s = Some c" "ct_send_op c = Some m" "0 < n" "n \<le> m" using en by (auto split: option.splits)
  note D = relay_invD [OF i c(1)]
  note on = send_op_on [OF D(1) c(2)]
  have n: "n \<le> ct_buf_used c" using c(4) on(4) by simp
  from shift_buf [OF D(1) c(3) n] obtain rest buf where
    b: "mem_read (ct_buf c) (nat n) (nat (ct_buf_used c - n)) = Some rest" "mem_write (ct_buf c) 0 rest = Some buf" "length buf = TCP_WND"
      "take (nat n) (ct_buf c) @ take (nat (ct_buf_used c - n)) buf = take (nat (ct_buf_used c)) (ct_buf c)" by blast
  let ?m = "ct_buf_used c - n" and ?d = "take (nat n) (ct_buf c)"
  let ?cs = "if \<not> ct_client_closed c then [CcRecved n] else []"
  let ?c1 = "c\<lparr>ct_buf := buf, ct_buf_used := ?m, ct_send_op := None\<rparr>"
  have c1: "c\<lparr>ct_send_op := None, ct_buf := buf, ct_buf_used := ?m\<rparr> = ?c1" by simp
  have m: "0 \<le> ?m" "?m \<le> int TCP_WND" using n c(3) client_invD(3) [OF D(1)] by linarith+
  have rd: "mem_read (ct_buf c) 0 (nat n) = Some ?d" using n client_invD(1,3) [OF D(1)] by (simp add: mem_read_def)
  have eq: "client_socks_send_handler_done env n (c\<lparr>ct_send_op := None\<rparr>) = (if 0 < ?m
      then do { (c, cs') \<leftarrow> sender_send ?m ?c1; Some (Some c, ?cs @ cs') }
      else if ct_client_closed c then before ?cs (client_free_socks env ?c1) else Some (Some ?c1, ?cs))"
    using on c n b by (simp add: client_socks_send_handler_done_def c1)
  have st: "client_socks_send_handler_done env n (c\<lparr>ct_send_op := None\<rparr>) = Some x \<Longrightarrow>
      relay_step s (RvSendDone env n) = Some ((relay_next s x)\<lparr>rr_up_out := rr_up_out s @ ?d\<rparr>)" for x
    using c(1) rd by simp
  consider (rest) "0 < ?m" | (over) "?m = 0" "ct_client_closed c" | (empty) "?m = 0" "\<not> ct_client_closed c" using m by linarith
  then show ?thesis
  proof cases
    case rest
    let ?c2 = "c\<lparr>ct_buf := buf, ct_buf_used := ?m, ct_send_op := Some ?m\<rparr>" and ?cs2 = "?cs @ [CcSend (take (nat ?m) buf)]"
    have "sender_send ?m ?c1 = Some (?c2, [CcSend (take (nat ?m) buf)])" using rest b(3) m(2) by (simp add: sender_send_def mem_read_def)
    with eq rest have "client_socks_send_handler_done env n (c\<lparr>ct_send_op := None\<rparr>) = Some (Some ?c2, ?cs2)" by simp
    note st = st [OF this]
    have "client_inv ?c2" using shift_inv [OF D(1) on(1,2) m b(3)] rest by simp
    moreover have "linked ais addr ?c2 (rr_run s)" using D(2) by (simp add: linked_def)
    ultimately have "relay_inv ais addr ((relay_next s (Some ?c2, ?cs2))\<lparr>rr_up_out := rr_up_out s @ ?d\<rparr>)"
      using D(3) b(4)
      by (intro relay_alive [OF D(3), where cs = ?cs2 and e = 0 and c' = ?c2]) (auto simp: relay_next_def alive_def unsent_def)
    with st show ?thesis by blast
  next
    case over
    have fr: "freeable ?c1" using client_invD(5) [OF D(1)] by simp
    have "client_free_socks env ?c1 = Some (None, [CcSocksFree, CcFree])"
      using free_socks_eq [OF _ fr, of env] on(2) over(2) by simp
    with eq over have "client_socks_send_handler_done env n (c\<lparr>ct_send_op := None\<rparr>) = Some (None, [CcSocksFree, CcFree])"
      by (simp add: before_def)
    note st = st [OF this]
    have "relay_inv ais addr ((relay_next s (None, [CcSocksFree, CcFree]))\<lparr>rr_up_out := rr_up_out s @ ?d\<rparr>)"
      using D(3) alive_prefix [OF D(3)] on(2) over b(4)
      by (intro relay_gone [OF D(3), where cs = "[CcSocksFree, CcFree]" and e = 0]) (auto simp: relay_next_def alive_def)
    with st show ?thesis by blast
  next
    case empty
    with eq have "client_socks_send_handler_done env n (c\<lparr>ct_send_op := None\<rparr>) = Some (Some ?c1, [CcRecved n])" by simp
    note st = st [OF this]
    have "?d = take (nat (ct_buf_used c)) (ct_buf c)" using b(4) unfolding empty(1) by simp
    then have up: "rr_up_in s = rr_up_out s @ ?d" using D(3) unfolding alive_def by simp
    have "client_inv ?c1" unfolding empty(1) using shift_inv [OF D(1) on(1,2) order_refl _ b(3)] empty(2) by simp
    moreover have "linked ais addr ?c1 (rr_run s)" using D(2) by (simp add: linked_def)
    ultimately have "relay_inv ais addr ((relay_next s (Some ?c1, [CcRecved n]))\<lparr>rr_up_out := rr_up_out s @ ?d\<rparr>)"
      using up empty(2) D(3)
      by (intro relay_alive [OF D(3), where cs = "[CcRecved n]" and e = 0 and c' = ?c1])
        (simp_all add: relay_next_def empty(1) alive_def unsent_def)
    with st show ?thesis by blast
  qed
qed

section \<open>Queuing what came from the SOCKS server\<close>

definition queueing :: "tcp_client \<Rightarrow> bool" where
  "queueing c \<longleftrightarrow> bufs_ok c \<and> send_ok c \<and> freeable c \<and> \<not> ct_client_closed c \<and> ct_socks_up c \<and> \<not> ct_recv_waiting c \<and>
     \<not> ct_recv_op c \<and> 0 \<le> ct_tcp_pending c \<and> 0 \<le> ct_recv_sent c \<and> ct_recv_sent c \<le> ct_recv_used c \<and> 0 < ct_recv_used c \<and>
     ct_recv_used c \<le> int CLIENT_SOCKS_RECV_BUF_SIZE"

text \<open>\<open>c'\<close> is \<open>c\<close> after the calls \<open>cs\<close> have queued some more.\<close>

definition queued :: "tcp_client \<Rightarrow> tcp_client \<Rightarrow> client_call list \<Rightarrow> bool" where
  "queued c c' cs \<longleftrightarrow> set cs \<subseteq> insert CcOutput (range CcWrite) \<and> (\<exists>m. 0 \<le> m \<and> m \<le> ct_recv_used c - ct_recv_sent c \<and>
     c' = c\<lparr>ct_recv_sent := ct_recv_sent c + m, ct_tcp_pending := ct_tcp_pending c + m\<rparr> \<and>
     written cs = take (nat m) (drop (nat (ct_recv_sent c)) (ct_recv_buf c)))"

lemma queued_refl: "ct_recv_sent c \<le> ct_recv_used c \<Longrightarrow> queued c c []"
  by (auto simp: queued_def intro: exI [of _ 0])

lemma queued_output: "queued c c' cs \<Longrightarrow> queued c c' (cs @ [CcOutput])"
  by (auto simp: queued_def)

lemma queued_write:
  assumes "queued (c\<lparr>ct_recv_sent := ct_recv_sent c + n, ct_tcp_pending := ct_tcp_pending c + n\<rparr>) c' cs"
    and "0 \<le> ct_recv_sent c" "0 \<le> n" "ct_recv_sent c + n \<le> ct_recv_used c"
  shows "queued c c' (CcWrite (take (nat n) (drop (nat (ct_recv_sent c)) (ct_recv_buf c))) # cs)"
proof -
  obtain m where m: "0 \<le> m" "m \<le> ct_recv_used c - (ct_recv_sent c + n)" "set cs \<subseteq> insert CcOutput (range CcWrite)"
    "c' = c\<lparr>ct_recv_sent := ct_recv_sent c + n + m, ct_tcp_pending := ct_tcp_pending c + n + m\<rparr>"
    "written cs = take (nat m) (drop (nat (ct_recv_sent c + n)) (ct_recv_buf c))"
    using assms(1) unfolding queued_def by auto
  have e: "nat (n + m) = nat n + nat m" "nat (ct_recv_sent c + n) = nat n + nat (ct_recv_sent c)"
    using m(1) assms(2,3) by (simp_all add: nat_add_distrib)
  have "take (nat (n + m)) (drop (nat (ct_recv_sent c)) (ct_recv_buf c)) =
      take (nat n) (drop (nat (ct_recv_sent c)) (ct_recv_buf c)) @ written cs"
    by (simp only: m(5) e take_add drop_drop)
  moreover have "0 \<le> n + m" "n + m \<le> ct_recv_used c - ct_recv_sent c" using m(1,2) assms(3) by linarith+
  moreover have "c' = c\<lparr>ct_recv_sent := ct_recv_sent c + (n + m), ct_tcp_pending := ct_tcp_pending c + (n + m)\<rparr>"
    by (simp only: m(4) add.assoc)
  ultimately show ?thesis using m(3) unfolding queued_def by (intro conjI exI [of _ "n + m"]) (assumption | simp)+
qed

lemma queueing_frame: "queueing c \<Longrightarrow> queued c c' cs \<Longrightarrow> queueing c'"
  by (auto simp: queueing_def queued_def)

lemma queued_calls:
  assumes "queued c c' cs"
  shows "count_list cs CcCallbacksOff = 0" "count_list cs CcSocksFree = 0" "count_list cs CcFree = 0"
proof -
  have "CcCallbacksOff \<notin> set cs" "CcSocksFree \<notin> set cs" "CcFree \<notin> set cs" using assms by (auto simp: queued_def)
  then show "count_list cs CcCallbacksOff = 0" "count_list cs CcSocksFree = 0" "count_list cs CcFree = 0"
    by (simp_all add: count_list_0_iff)
qed

lemma queued_same:
  assumes "queued c c' cs"
  shows "ct_buf c' = ct_buf c" "ct_buf_used c' = ct_buf_used c" "ct_socks_closed c' = ct_socks_closed c"
    "ct_client_closed c' = ct_client_closed c" "ct_recv_used c' = ct_recv_used c" "ct_socks_up c' = ct_socks_up c"
    "linked ais addr c' run = linked ais addr c run"
  using assms by (auto simp: queued_def linked_def)

lemma take_drop_split:
  assumes "a + k \<le> u"
  shows "take k (drop a xs) @ drop (a + k) (take u xs) = drop a (take u xs)"
proof -
  have "drop (a + k) (take u xs) = take (u - (a + k)) (drop k (drop a xs))" by (simp add: drop_take add.commute)
  moreover have "u - a = k + (u - (a + k))" using assms by simp
  then have "drop a (take u xs) = take k (drop a xs) @ take (u - (a + k)) (drop k (drop a xs))"
    by (simp only: drop_take take_add)
  ultimately show ?thesis by simp
qed

text \<open>What was written and what is left are what was there.\<close>

lemma queued_unsent:
  assumes "queueing c" "queued c c' cs"
  shows "written cs @ unsent c' = unsent c"
proof -
  obtain m where m: "0 \<le> m" "m \<le> ct_recv_used c - ct_recv_sent c"
    "c' = c\<lparr>ct_recv_sent := ct_recv_sent c + m, ct_tcp_pending := ct_tcp_pending c + m\<rparr>"
    "written cs = take (nat m) (drop (nat (ct_recv_sent c)) (ct_recv_buf c))" using assms(2) unfolding queued_def by blast
  have q: "0 \<le> ct_recv_sent c" "0 < ct_recv_used c" "ct_socks_up c" using assms(1) unfolding queueing_def by blast+
  define a where "a = nat (ct_recv_sent c)"
  define k where "k = nat m"
  define u where "u = nat (ct_recv_used c)"
  have n: "ct_recv_sent c = int a" "m = int k" "ct_recv_used c = int u" "a + k \<le> u"
    using m(1,2) q by (simp_all add: a_def k_def u_def)
  have up: "ct_socks_up c" "int u \<noteq> -1" using q(3) by simp_all
  have "unsent c = drop a (take u (ct_recv_buf c))" using up n(1,3) by (simp add: unsent_def)
  moreover have "unsent c' = drop (a + k) (take u (ct_recv_buf c))"
    using up n(1-3) by (simp add: unsent_def m(3) nat_int_add)
  moreover have "written cs = take k (drop a (ct_recv_buf c))" by (simp add: m(4) n(1,2))
  ultimately show ?thesis using take_drop_split [OF n(4)] by simp
qed

lemma send_out_loop_queues:
  assumes "queueing c" "ct_recv_sent c < ct_recv_used c"
  shows "\<exists>failed c' cs. send_out_loop env k c = Some (failed, c', cs) \<and> queued c c' cs"
  using assms
proof (induction env k c rule: send_out_loop.induct)
  case (1 env k c)
  define n where "n = bmin_int (ct_recv_used c - ct_recv_sent c) (uint (te_sndbuf env k))"
  let ?c = "c\<lparr>ct_recv_sent := ct_recv_sent c + n, ct_tcp_pending := ct_tcp_pending c + n\<rparr>"
  let ?d = "take (nat n) (drop (nat (ct_recv_sent c)) (ct_recv_buf c))"
  have q: "0 \<le> ct_recv_sent c" "ct_recv_used c \<le> int CLIENT_SOCKS_RECV_BUF_SIZE" "length (ct_recv_buf c) = CLIENT_SOCKS_RECV_BUF_SIZE"
    using 1(2) unfolding queueing_def bufs_ok_def by blast+
  have n: "0 \<le> n" "n \<le> ct_recv_used c - ct_recv_sent c"
    using 1(3) uint_nonnegative [of "te_sndbuf env k"] by (auto simp: n_def bmin_int_def)
  have rd: "mem_read (ct_recv_buf c) (nat (ct_recv_sent c)) (nat n) = Some ?d" using q n by (simp add: mem_read_def)
  have n': "bmin_int (ct_recv_used c - ct_recv_sent c) (uint (te_sndbuf env k)) = n" by (simp add: n_def)
  note eq = send_out_loop.simps [of env k c, unfolded Let_def n' rd option.case]
  consider (none) "n = 0" | (fails) "n \<noteq> 0" "te_write env k \<noteq> ERR_OK"
    | (more) "n \<noteq> 0" "te_write env k = ERR_OK" "ct_recv_sent c + n < ct_recv_used c"
    | (all) "n \<noteq> 0" "te_write env k = ERR_OK" "\<not> ct_recv_sent c + n < ct_recv_used c" by blast
  then show ?case
  proof cases
    case none
    then show ?thesis using queued_refl 1(3) eq by auto
  next
    case fails
    then show ?thesis using queued_refl 1(3) eq by simp
  next
    case more
    have "queueing ?c" "ct_recv_sent ?c < ct_recv_used ?c" using 1(2) n more(3) by (simp_all add: queueing_def)
    from 1(1) [OF n_def more(1) rd _ more(3) this] more(2) obtain failed c' cs where
      "send_out_loop env (k + 1) ?c = Some (failed, c', cs)" "queued ?c c' cs" by blast
    moreover from this(2) have "queued c c' (CcWrite ?d # cs)" using q(1) n by (intro queued_write) simp_all
    ultimately show ?thesis using eq more by simp
  next
    case all
    have "queued ?c ?c []" using n by (intro queued_refl) simp
    then have "queued c ?c [CcWrite ?d]" using q(1) n by (intro queued_write) simp_all
    then show ?thesis using eq all by auto
  qed
qed

text \<open>The three ways the sending ends.\<close>

lemma send_out_cases:
  assumes q: "queueing c" "ct_recv_sent c < ct_recv_used c"
  obtains (aborted) c' cs where "queued c c' cs" "client_socks_recv_send_out env c = Some (-1,
      if ct_buf_used c > 0 \<and> \<not> ct_socks_closed c then (Some (c'\<lparr>ct_client_closed := True\<rparr>), cs @ [CcCallbacksOff, CcAbort])
      else (None, cs @ [CcCallbacksOff, CcAbort] @ (if ct_socks_closed c then [] else [CcSocksFree]) @ [CcFree]))"
  | (waiting) c' cs where "queued c c' cs" "ct_recv_sent c' < ct_recv_used c" "0 < ct_tcp_pending c'"
      "client_socks_recv_send_out env c = Some (0, Some (c'\<lparr>ct_recv_waiting := True\<rparr>), cs)"
  | (all_queued) c' cs where "queued c c' cs" "ct_recv_sent c' = ct_recv_used c" "0 < ct_tcp_pending c'"
      "client_socks_recv_send_out env c = Some (0, Some (c'\<lparr>ct_recv_used := -1\<rparr>), cs)"
proof -
  from send_out_loop_queues [OF q] obtain failed c' cs where
    l: "send_out_loop env 0 c = Some (failed, c', cs)" "queued c c' cs" by blast
  have o': "queued c c' (cs @ [CcOutput])" by (rule queued_output [OF l(2)])
  note same = queued_same [OF l(2)]
  have q': "queueing c'" by (rule queueing_frame [OF q(1) l(2)])
  then have c': "\<not> ct_client_closed c'" "freeable c'" "0 \<le> ct_tcp_pending c'" "ct_recv_sent c' \<le> ct_recv_used c'"
    unfolding queueing_def by blast+
  have a: "ASSERT (\<not> ct_client_closed c) = Some ()" "ASSERT (ct_socks_up c) = Some ()" "ASSERT (ct_recv_used c > 0) = Some ()"
    "ASSERT (ct_recv_sent c < ct_recv_used c) = Some ()" "ASSERT (\<not> ct_recv_waiting c) = Some ()"
    using q unfolding queueing_def by simp_all
  note eq = client_socks_recv_send_out_def [of env c, unfolded a l(1)]
  note ab = abort_client_eq [OF c'(1,2), of env, unfolded same]
  have pend: "ct_tcp_pending c' \<noteq> 0" if "ct_recv_sent c' = ct_recv_used c"
    using l(2) q that unfolding queued_def queueing_def by auto
  consider (f) "failed" | (out) "\<not> failed" "te_output env \<noteq> ERR_OK"
    | (stuck) "\<not> failed" "te_output env = ERR_OK" "ct_recv_sent c' < ct_recv_used c" "ct_tcp_pending c' = 0"
    | (w) "\<not> failed" "te_output env = ERR_OK" "ct_recv_sent c' < ct_recv_used c" "ct_tcp_pending c' \<noteq> 0"
    | (full) "\<not> failed" "te_output env = ERR_OK" "\<not> ct_recv_sent c' < ct_recv_used c" by blast
  then show thesis
  proof cases
    case f
    show thesis by (rule aborted [OF l(2)]) (simp add: eq f ab)
  next
    case out
    show thesis by (rule aborted [OF o']) (simp add: eq out ab)
  next
    case stuck
    show thesis by (rule aborted [OF o']) (simp add: eq stuck ab same)
  next
    case w
    show thesis by (rule waiting [OF o' w(3)]) (use w c'(3) in \<open>simp_all add: eq same\<close>)
  next
    case full
    then have e: "ct_recv_sent c' = ct_recv_used c" using c'(4) same by simp
    show thesis by (rule all_queued [OF o' e]) (use full c'(3) pend [OF e] in \<open>simp_all add: eq same\<close>)
  qed
qed

lemma queueingD:
  assumes "queueing c"
  shows "bufs_ok c" "send_ok c" "freeable c" "\<not> ct_client_closed c" "ct_socks_up c" "\<not> ct_recv_op c" "0 \<le> ct_tcp_pending c"
    "0 \<le> ct_recv_sent c" "0 < ct_recv_used c" "ct_recv_used c \<le> int CLIENT_SOCKS_RECV_BUF_SIZE"
  using assms unfolding queueing_def by blast+

lemma queueing_aborted_inv:
  assumes "queueing c" "0 < ct_buf_used c" "\<not> ct_socks_closed c"
  shows "client_inv (c\<lparr>ct_client_closed := True\<rparr>)"
  using queueingD [OF assms(1)] assms(2,3) by (intro client_invI) (simp_all add: bufs_ok_def sides_ok_def recv_ok_def)

lemma queueing_waiting_inv:
  assumes "queueing c" "ct_recv_sent c < ct_recv_used c" "0 < ct_tcp_pending c"
  shows "client_inv (c\<lparr>ct_recv_waiting := True\<rparr>)"
  using queueingD [OF assms(1)] assms(2,3) by (intro client_invI) (simp_all add: sides_ok_def recv_ok_def)

lemma queueing_done_inv:
  assumes "queueing c" "0 < ct_tcp_pending c"
  shows "client_inv (c\<lparr>ct_recv_used := -1, ct_recv_op := (\<not> ct_socks_closed c)\<rparr>)"
  using queueingD [OF assms(1)] assms(2) by (intro client_invI) (simp_all add: sides_ok_def recv_ok_def)

lemma linked_frame [simp]: "linked ais addr (c\<lparr>ct_recv_waiting := b\<rparr>) run = linked ais addr c run"
  "linked ais addr (c\<lparr>ct_recv_used := n\<rparr>) run = linked ais addr c run"
  "linked ais addr (c\<lparr>ct_recv_op := b\<rparr>) run = linked ais addr c run"
  "linked ais addr (c\<lparr>ct_recv_sent := n\<rparr>) run = linked ais addr c run"
  "linked ais addr (c\<lparr>ct_tcp_pending := n\<rparr>) run = linked ais addr c run"
  "linked ais addr (c\<lparr>ct_recv_buf := bs\<rparr>) run = linked ais addr c run"
  by (simp_all add: linked_def)

lemma unsent_frame [simp]: "unsent (c\<lparr>ct_recv_waiting := b\<rparr>) = unsent c" "unsent (c\<lparr>ct_recv_op := b\<rparr>) = unsent c"
  "unsent (c\<lparr>ct_tcp_pending := n\<rparr>) = unsent c" "unsent (c\<lparr>ct_recv_used := -1\<rparr>) = []"
  by (simp_all add: unsent_def)

lemma send_out_ends:
  assumes a: "alive s c" and li: "linked ais addr c (rr_run s)" and q: "queueing c" "ct_recv_sent c < ct_recv_used c"
  obtains (aborted) x where "client_socks_recv_send_out env c = Some (-1, x)" "relay_inv ais addr (relay_next s x)"
  | (waiting) c' cs where "client_socks_recv_send_out env c = Some (0, Some c', cs)" "0 < ct_tcp_pending c'" "ct_recv_used c' \<noteq> -1"
      "relay_inv ais addr (relay_next s (Some c', cs))"
  | (all_queued) c' cs where "client_socks_recv_send_out env c = Some (0, Some c', cs)" "0 < ct_tcp_pending c'" "ct_recv_used c' = -1"
      "\<not> ct_client_closed c'" "ct_socks_up c'" "ct_socks_closed c' = ct_socks_closed c" "\<not> ct_recv_op c'"
      "ct_socks_closed c \<Longrightarrow> relay_inv ais addr (relay_next s (Some c', cs))"
      "\<not> ct_socks_closed c \<Longrightarrow> relay_inv ais addr
        (relay_next s (Some (c'\<lparr>ct_recv_op := True\<rparr>), cs @ [CcReceive (int CLIENT_SOCKS_RECV_BUF_SIZE)]))"
proof -
  have nc: "\<not> ct_client_closed c" by (rule queueingD(4) [OF q(1)])
  have al: "rr_up_in s = rr_up_out s @ take (nat (ct_buf_used c)) (ct_buf c)" "rr_dn_in s = written (rr_calls s) @ unsent c"
    using a nc unfolding alive_def by simp_all
  from q show thesis
  proof (cases rule: send_out_cases [where env = env])
    case (aborted c' cs)
    note Q = queueing_frame [OF q(1) aborted(1)] and n = queued_calls [OF aborted(1)] and same = queued_same [OF aborted(1)]
      and un = queued_unsent [OF q(1) aborted(1)]
    show thesis
    proof (cases "ct_buf_used c > 0 \<and> \<not> ct_socks_closed c")
      case True
      let ?c = "c'\<lparr>ct_client_closed := True\<rparr>" and ?cs = "cs @ [CcCallbacksOff, CcAbort]"
      have "client_inv ?c" using True same by (intro queueing_aborted_inv [OF Q]) simp_all
      then have "relay_inv ais addr (relay_next s (Some ?c, ?cs))"
        using li al nc True n un [symmetric]
        by (intro relay_alive [OF a, where cs = ?cs and e = 0 and c' = ?c]) (simp_all add: relay_next_def same)
      moreover have "client_socks_recv_send_out env c = Some (-1, Some ?c, ?cs)" using aborted(2) True by simp
      ultimately show thesis by (rule that(1) [rotated])
    next
      case False
      let ?cs = "cs @ [CcCallbacksOff, CcAbort] @ (if ct_socks_closed c then [] else [CcSocksFree]) @ [CcFree]"
      have "relay_inv ais addr (relay_next s (None, ?cs))"
        using al nc n un [symmetric] alive_prefix [OF a]
        by (intro relay_gone [OF a, where cs = ?cs and e = 0]) (simp_all add: relay_next_def)
      moreover have "client_socks_recv_send_out env c = Some (-1, None, ?cs)" using aborted(2) by (simp only: if_not_P [OF False])
      ultimately show thesis by (rule that(1) [rotated])
    qed
  next
    case (waiting c' cs)
    note Q = queueing_frame [OF q(1) waiting(1)] and n = queued_calls [OF waiting(1)] and same = queued_same [OF waiting(1)]
      and un = queued_unsent [OF q(1) waiting(1)]
    let ?c = "c'\<lparr>ct_recv_waiting := True\<rparr>"
    have "client_inv ?c" using waiting same by (intro queueing_waiting_inv [OF Q]) simp_all
    then have "relay_inv ais addr (relay_next s (Some ?c, cs))"
      using li al nc n un [symmetric]
      by (intro relay_alive [OF a, where cs = cs and e = 0 and c' = ?c]) (simp_all add: relay_next_def same)
    then show thesis using waiting queueingD(9) [OF q(1)] same by (intro that(2) [of ?c cs]) simp_all
  next
    case (all_queued c' cs)
    note Q = queueing_frame [OF q(1) all_queued(1)] and n = queued_calls [OF all_queued(1)] and same = queued_same [OF all_queued(1)]
      and un = queued_unsent [OF q(1) all_queued(1)]
    let ?c = "c'\<lparr>ct_recv_used := -1\<rparr>"
    have "unsent c' = []" using all_queued(2) same by (simp add: unsent_def)
    then have w: "rr_dn_in s = written (rr_calls s) @ written cs" using un al by simp
    have i: "client_inv (?c\<lparr>ct_recv_op := (\<not> ct_socks_closed c)\<rparr>)"
      using queueing_done_inv [OF Q all_queued(3)] same by simp
    have "relay_inv ais addr (relay_next s (Some ?c, cs))" if "ct_socks_closed c"
    proof -
      have e: "?c\<lparr>ct_recv_op := (\<not> ct_socks_closed c)\<rparr> = ?c" using that queueingD(6) [OF Q] by simp
      show ?thesis using li al w nc n i [unfolded e] that
        by (intro relay_alive [OF a, where cs = cs and e = 0 and c' = ?c]) (simp_all add: relay_next_def same)
    qed
    moreover have "relay_inv ais addr (relay_next s (Some (?c\<lparr>ct_recv_op := True\<rparr>), cs @ [CcReceive (int CLIENT_SOCKS_RECV_BUF_SIZE)]))"
      if "\<not> ct_socks_closed c"
      using li al w nc n i that
      by (intro relay_alive [OF a, where cs = "cs @ [CcReceive (int CLIENT_SOCKS_RECV_BUF_SIZE)]" and e = 0 and c' = "?c\<lparr>ct_recv_op := True\<rparr>"])
        (simp_all add: relay_next_def same)
    ultimately show thesis using all_queued queueingD [OF Q] same by (intro that(3) [of ?c cs]) simp_all
  qed
qed

lemma recv_initiate_eq:
  assumes "\<not> ct_client_closed c" "\<not> ct_socks_closed c" "ct_socks_up c" "ct_recv_used c = -1" "\<not> ct_recv_op c"
  shows "client_socks_recv_initiate c = Some (c\<lparr>ct_recv_op := True\<rparr>, [CcReceive (int CLIENT_SOCKS_RECV_BUF_SIZE)])"
  using assms by (simp add: client_socks_recv_initiate_def)

lemma recv_op_on:
  assumes "client_inv c" "ct_recv_op c"
  shows "ct_socks_up c" "\<not> ct_socks_closed c" "ct_recv_used c = -1"
  using client_inv_partsD(4) [OF assms(1)] assms(2) unfolding recv_ok_def by blast+

lemma recv_done_step:
  assumes i: "relay_inv ais addr s" and en: "relay_enabled s (RvRecvDone env d)"
  shows "\<exists>s'. relay_step s (RvRecvDone env d) = Some s' \<and> relay_inv ais addr s'"
proof -
  obtain c where c: "rr_c s = Some c" "ct_recv_op c" "d \<noteq> []" "length d \<le> CLIENT_SOCKS_RECV_BUF_SIZE"
    using en by (auto split: option.splits)
  note D = relay_invD [OF i c(1)]
  note on = recv_op_on [OF D(1) c(2)]
  let ?n = "int (length d)"
  have n: "0 < ?n" "?n \<le> int CLIENT_SOCKS_RECV_BUF_SIZE" using c(3,4) by simp_all
  obtain b where b: "mem_write (ct_recv_buf c) 0 d = Some b" "take (length d) b = d" "length b = CLIENT_SOCKS_RECV_BUF_SIZE"
    using c(4) client_invD(4) [OF D(1)] by (auto simp: mem_write_def)
  let ?c1 = "c\<lparr>ct_recv_buf := b, ct_recv_op := False\<rparr>"
  let ?s = "s\<lparr>rr_dn_in := rr_dn_in s @ d\<rparr>"
  have st: "client_socks_recv_handler_done env ?n ?c1 = Some x \<Longrightarrow> relay_step s (RvRecvDone env d) = Some (relay_next ?s x)" for x
    using c(1) b(1) by (simp add: relay_next_def)
  show ?thesis
  proof (cases "ct_client_closed c")
    case True
    then have "client_socks_recv_handler_done env ?n ?c1 = Some (Some ?c1, [])"
      using on n by (simp add: client_socks_recv_handler_done_def)
    note st = st [OF this]
    have "recv_ok ?c1" using True by (simp add: recv_ok_def)
    moreover have "bufs_ok ?c1" using client_inv_partsD(1) [OF D(1)] b(3) by (simp add: bufs_ok_def)
    moreover have "sides_ok ?c1" using client_inv_partsD(2) [OF D(1)] on(2) by (simp add: sides_ok_def)
    ultimately have "client_inv ?c1" using client_inv_partsD(3) [OF D(1)] by (simp add: client_inv_def)
    then have "relay_inv ais addr (relay_next ?s (Some ?c1, []))"
      using D(2,3) True alive_prefix [OF D(3)]
      by (intro relay_alive [OF D(3), where cs = "[]" and e = 0 and c' = ?c1]) (simp_all add: relay_next_def alive_def)
    with st show ?thesis by blast
  next
    case False
    let ?c2 = "?c1\<lparr>ct_recv_used := ?n, ct_recv_sent := 0, ct_recv_waiting := False\<rparr>"
    have "bufs_ok ?c2" using client_inv_partsD(1) [OF D(1)] b(3) by (simp add: bufs_ok_def)
    moreover have "freeable ?c2" using client_invD(5) [OF D(1)] by simp
    moreover have "0 \<le> ct_tcp_pending c" using client_inv_partsD(4) [OF D(1)] on False unfolding recv_ok_def by blast
    ultimately have q: "queueing ?c2" "ct_recv_sent ?c2 < ct_recv_used ?c2"
      using client_inv_partsD(3) [OF D(1)] False on n by (simp_all add: queueing_def)
    have u: "unsent ?c2 = d" using on(1) b(2) by (simp add: unsent_def)
    have "unsent c = []" using on(3) by (simp add: unsent_def)
    then have a: "alive ?s ?c2" using D(3) False u unfolding alive_def by simp
    have li: "linked ais addr ?c2 (rr_run ?s)" using D(2) by simp
    have hd: "client_socks_recv_handler_done env ?n ?c1 = do {
        (ret, r, cs) \<leftarrow> client_socks_recv_send_out env ?c2;
        if ret < 0 then Some (r, cs)
        else do {
          c \<leftarrow> r;
          if ct_recv_used c = -1 then do { (c, cs') \<leftarrow> client_socks_recv_initiate c; Some (Some c, cs @ cs') } else Some (Some c, cs)
        }
      }" using on n False by (simp add: client_socks_recv_handler_done_def)
    from a li q show ?thesis
    proof (cases rule: send_out_ends [where env = env])
      case (aborted x)
      with hd have "client_socks_recv_handler_done env ?n ?c1 = Some x" by (cases x) simp
      with aborted(2) st show ?thesis by blast
    next
      case (waiting c' cs)
      with hd have "client_socks_recv_handler_done env ?n ?c1 = Some (Some c', cs)" by simp
      with waiting(4) st show ?thesis by blast
    next
      case (all_queued c' cs)
      have o': "\<not> ct_socks_closed ?c2" using on(2) by simp
      with all_queued(6) have "\<not> ct_socks_closed c'" by simp
      from recv_initiate_eq [OF all_queued(4) this all_queued(5,3,7)] hd all_queued(1,3) have
        "client_socks_recv_handler_done env ?n ?c1 =
          Some (Some (c'\<lparr>ct_recv_op := True\<rparr>), cs @ [CcReceive (int CLIENT_SOCKS_RECV_BUF_SIZE)])" by simp
      with all_queued(9) [OF o'] st show ?thesis by blast
    qed
  qed
qed

lemma sent_step:
  assumes i: "relay_inv ais addr s" and en: "relay_enabled s (RvSent env len killed)"
  shows "\<exists>s'. relay_step s (RvSent env len killed) = Some s' \<and> relay_inv ais addr s'"
proof -
  obtain c where c: "rr_c s = Some c" "\<not> ct_client_closed c" "ct_socks_up c" "0 < len" "len \<le> ct_tcp_pending c"
    using en by (auto split: option.splits)
  note D = relay_invD [OF i c(1)]
  let ?c1 = "c\<lparr>ct_tcp_pending := ct_tcp_pending c - len\<rparr>"
  have r: "ct_recv_used c = -1 \<or> 0 < ct_recv_used c \<and> ct_recv_used c \<le> int CLIENT_SOCKS_RECV_BUF_SIZE \<and> 0 \<le> ct_recv_sent c \<and>
        ct_recv_sent c < ct_recv_used c \<and> ct_recv_waiting c" "ct_recv_op c \<longrightarrow> ct_recv_used c = -1"
    using client_inv_partsD(4) [OF D(1)] c(2,3) unfolding recv_ok_def by blast+
  have st: "client_sent_func env len killed c = Some (e, x) \<Longrightarrow> relay_step s (RvSent env len killed) = Some (relay_next s x)" for e x
    using c(1) by simp
  have a1: "alive s ?c1" "linked ais addr ?c1 (rr_run s)" using D(2,3) by (simp_all add: alive_def)
  show ?thesis
  proof (cases "ct_recv_used c = -1")
    case False
    let ?c2 = "?c1\<lparr>ct_recv_waiting := False\<rparr>"
    have w: "0 < ct_recv_used c" "ct_recv_waiting c" "ct_recv_sent c < ct_recv_used c" "\<not> ct_recv_op c" using r False by blast+
    have q: "queueing ?c2" "ct_recv_sent ?c2 < ct_recv_used ?c2"
      using client_inv_partsD(1,3) [OF D(1)] client_invD(5) [OF D(1)] c r False by (simp_all add: queueing_def)
    have a: "alive s ?c2" "linked ais addr ?c2 (rr_run s)" using a1 by (simp_all add: alive_def)
    have hd: "client_sent_func env len killed c = do {
        (ret, r, cs) \<leftarrow> client_socks_recv_send_out env ?c2;
        if ret < 0 then Some (ERR_ABRT, r, cs)
        else do {
          c \<leftarrow> r;
          ASSERT (ct_tcp_pending c > 0);
          if ct_recv_used c = -1 \<and> \<not> ct_socks_closed c
          then do { (c, cs') \<leftarrow> client_socks_recv_initiate c; Some (if killed then ERR_ABRT else ERR_OK, Some c, cs @ cs') }
          else Some (ERR_OK, Some c, cs)
        }
      }" using c w by (simp add: client_sent_func_def)
    from a q show ?thesis
    proof (cases rule: send_out_ends [where env = env])
      case (aborted x)
      with hd have "client_sent_func env len killed c = Some (ERR_ABRT, x)" by (cases x) simp
      with aborted(2) st show ?thesis by blast
    next
      case (waiting c' cs)
      with hd have "client_sent_func env len killed c = Some (ERR_OK, Some c', cs)" by simp
      with waiting(4) st show ?thesis by blast
    next
      case (all_queued c' cs)
      show ?thesis
      proof (cases "ct_socks_closed c")
        case True
        with hd all_queued(1-6) have "client_sent_func env len killed c = Some (ERR_OK, Some c', cs)" by simp
        with all_queued(8) True st show ?thesis by fastforce
      next
        case open': False
        then have o': "\<not> ct_socks_closed ?c2" "\<not> ct_socks_closed c'" using all_queued(6) by simp_all
        from recv_initiate_eq [OF all_queued(4) o'(2) all_queued(5,3,7)] hd all_queued(1-3) o'(2) have
          "client_sent_func env len killed c = Some (if killed then ERR_ABRT else ERR_OK,
            Some (c'\<lparr>ct_recv_op := True\<rparr>), cs @ [CcReceive (int CLIENT_SOCKS_RECV_BUF_SIZE)])" by simp
        with all_queued(9) [OF o'(1)] st show ?thesis by blast
      qed
    qed
  next
    case True
    show ?thesis
    proof (cases "ct_socks_closed c \<and> ct_tcp_pending c - len = 0")
      case True': True
      have f: "freeable ?c1" using client_invD(5) [OF D(1)] by simp
      have nc: "\<not> ct_client_closed ?c1" using c(2) by simp
      from free_client_eq [OF nc f, of env] True' have e: "client_free_client env ?c1 = Some (None, closing_calls env @ [CcFree])"
        by simp
      have "client_sent_func env len killed c = Some (ERR_ABRT, None, closing_calls env @ [CcFree])"
        using c True True' e by (simp add: client_sent_func_def)
      note st = st [OF this]
      have "relay_inv ais addr (relay_next s (None, closing_calls env @ [CcFree]))"
        using c True' alive_prefix [OF D(3)]
        by (intro relay_gone [OF D(3), where cs = "closing_calls env @ [CcFree]" and e = 0]) (simp_all add: relay_next_def)
      with st show ?thesis by blast
    next
      case False
      then have "client_sent_func env len killed c = Some (ERR_OK, Some ?c1, [])"
        using c True by (auto simp: client_sent_func_def)
      note st = st [OF this]
      have p: "0 \<le> ct_tcp_pending c - len" "ct_socks_closed c \<Longrightarrow> 0 < ct_tcp_pending c - len" using c False by auto
      have "recv_ok ?c1" using client_inv_partsD(4) [OF D(1)] True p c unfolding recv_ok_def by simp
      moreover have "sides_ok ?c1" using client_inv_partsD(2) [OF D(1)] c p unfolding sides_ok_def by simp
      ultimately have "client_inv ?c1" using client_inv_partsD(1,3) [OF D(1)] by (simp add: client_inv_def)
      then have "relay_inv ais addr (relay_next s (Some ?c1, []))"
        using a1 c by (intro relay_alive [OF D(3), where cs = "[]" and e = 0 and c' = ?c1]) (simp_all add: relay_next_def alive_def)
      with st show ?thesis by blast
    qed
  qed
qed

section \<open>The events of the SOCKS client\<close>

lemma effects_up: "sr_up s \<Longrightarrow> sr_up (fold socks_effect cs s)"
proof (induction cs arbitrary: s)
  case (Cons x cs)
  have "sr_up (socks_effect x s)" using Cons.prems by (cases x) simp_all
  then show ?case using Cons.IH by simp
qed simp

lemma socks_up_stays: "socks_step s e = Some s' \<Longrightarrow> sr_up s \<Longrightarrow> sr_up s'"
  by (cases e) (auto simp: socks_apply_def effects_up bind_eq_Some_conv split: prod.splits)

text \<open>The event of \<open>socks_failure\<close> is the one that the connection's handler reports.\<close>

lemma socks_failure_reported:
  "socks_connection_handler c closed = Some (c', cs) \<Longrightarrow> sr_c run = c \<Longrightarrow> sr_up run = (sc_state c = STATE_UP) \<Longrightarrow>
    cs = [ScHandler (socks_failure run (SeConnection closed))]"
  by (auto simp: socks_connection_handler_def report_error_def socks_failure_def split: if_splits)

lemma socks_freeable: "socks_inv ais addr run \<Longrightarrow> ct_socks_client c = sr_c run \<Longrightarrow> freeable c"
  using socks_free_inv by (auto simp: freeable_def)

lemma up_client_inv:
  assumes i: "client_inv c" and u: "\<not> ct_socks_up c" "freeable c'"
    and c': "c' = c\<lparr>ct_socks_client := sc, ct_recv_used := -1, ct_tcp_pending := 0, ct_socks_up := True,
      ct_send_op := (if 0 < ct_buf_used c then Some (ct_buf_used c) else None), ct_recv_op := (\<not> ct_client_closed c)\<rparr>"
  shows "client_inv c'"
proof (rule client_invI)
  have o': "\<not> ct_socks_closed c" using client_invD(7) [OF i] u(1) by blast
  show "bufs_ok c'" using client_inv_partsD(1) [OF i] by (simp add: c')
  show "sides_ok c'" using client_inv_partsD(2) [OF i] o' u(2) unfolding sides_ok_def by (simp add: c')
  show "send_ok c'" using o' by (simp add: c' send_ok_def)
  show "recv_ok c'" using o' by (simp add: c' recv_ok_def)
qed

lemma event_up_eq:
  assumes i: "client_inv c" and u: "\<not> ct_socks_up c" "sc_state (ct_socks_client c) = STATE_UP"
  shows "client_socks_handler env EVENT_UP c = Some (Some (c\<lparr>ct_socks_client := ct_socks_client c, ct_recv_used := -1,
      ct_tcp_pending := 0, ct_socks_up := True,
      ct_send_op := (if 0 < ct_buf_used c then Some (ct_buf_used c) else None), ct_recv_op := (\<not> ct_client_closed c)\<rparr>),
    (if ct_client_closed c then [] else [CcSentOn]) @
    (if 0 < ct_buf_used c then [CcSend (take (nat (ct_buf_used c)) (ct_buf c))] else []) @
    (if ct_client_closed c then [] else [CcReceive (int CLIENT_SOCKS_RECV_BUF_SIZE)]))"
proof -
  have "\<not> ct_socks_closed c" using client_invD(7) [OF i] u(1) by blast
  moreover have "ct_client_closed c \<Longrightarrow> 0 < ct_buf_used c" using client_invD(6) [OF i] by blast
  moreover have "mem_read (ct_buf c) 0 (nat (ct_buf_used c)) = Some (take (nat (ct_buf_used c)) (ct_buf c))"
    using client_invD(1,3) [OF i] by (simp add: mem_read_def)
  ultimately show ?thesis using u
    by (cases "ct_client_closed c"; cases "0 < ct_buf_used c")
      (simp_all add: client_socks_handler_def client_send_to_socks_def sender_send_def client_socks_recv_initiate_def
        BSocksClient_GetSendInterface_def BSocksClient_GetRecvInterface_def)
qed

lemma relay_inv_run: "relay_inv ais addr s \<Longrightarrow> rr_c s = None \<Longrightarrow> relay_inv ais addr (s\<lparr>rr_run := run\<rparr>)"
  by (simp add: relay_inv_def gone_def)

lemma alive_frame [simp]: "alive (s\<lparr>rr_run := run\<rparr>) c = alive s c" "alive s (c\<lparr>ct_socks_client := sc\<rparr>) = alive s c"
  by (simp_all add: alive_def unsent_def)

lemma socks_client_inv:
  assumes "client_inv c" "freeable (c\<lparr>ct_socks_client := sc\<rparr>)"
  shows "client_inv (c\<lparr>ct_socks_client := sc\<rparr>)"
  using assms(2) client_inv_partsD [OF assms(1)] by (simp add: client_inv_def sides_ok_def)

lemma socks_ev_step:
  assumes i: "relay_inv ais addr s" and en: "relay_enabled s (RvSocks env e)"
  shows "\<exists>s'. relay_step s (RvSocks env e) = Some s' \<and> relay_inv ais addr s'"
proof -
  obtain c where c: "rr_c s = Some c" "\<not> ct_socks_closed c" "socks_enabled (rr_run s) e" using en by (auto split: option.splits)
  note D = relay_invD [OF i c(1)]
  have li: "socks_inv ais addr (rr_run s)" "\<not> sr_dead (rr_run s)" "sr_c (rr_run s) = ct_socks_client c" "ct_socks_up c = sr_up (rr_run s)"
    using D(2) c(2) unfolding linked_def by blast+
  obtain run where run: "socks_step (rr_run s) e = Some run" "socks_inv ais addr run" using socks.step_inv [OF li(1) c(3)] by blast
  let ?c = "c\<lparr>ct_socks_client := sr_c run\<rparr>" and ?s = "s\<lparr>rr_run := run\<rparr>"
  have fr: "freeable ?c" by (rule socks_freeable [OF run(2)]) simp
  have ci: "client_inv ?c" by (rule socks_client_inv [OF D(1) fr])
  have al: "alive ?s ?c" using D(3) by simp
  have st: "relay_step s (RvSocks env e) = map_option (relay_next ?s)
      (if sr_dead run then client_socks_handler env (socks_failure (rr_run s) e) ?c
       else if sr_up run \<and> \<not> ct_socks_up c then client_socks_handler env EVENT_UP ?c else Some (Some ?c, []))"
    using c(1) run(1) by (auto simp: relay_next_def map_option_case split: option.splits)
  consider (dead) "sr_dead run" | (up) "\<not> sr_dead run" "sr_up run" "\<not> ct_socks_up c" | (on) "\<not> sr_dead run" "sr_up run = ct_socks_up c"
    | (down) "\<not> sr_dead run" "\<not> sr_up run" "ct_socks_up c" by blast
  then show ?thesis
  proof cases
    case dead
    have oc: "\<not> ct_socks_closed ?c" using c(2) by simp
    from free_socks_ends [OF ci al oc] obtain x where
      x: "client_free_socks env ?c = Some x" "relay_inv ais addr (relay_next ?s x)" by blast
    have "client_socks_handler env (socks_failure (rr_run s) e) ?c = client_free_socks env ?c"
      using c(2) li(4) by (simp add: client_socks_handler_def socks_failure_def)
    with st dead x show ?thesis by simp
  next
    case up
    have sc: "sc_state (sr_c run) = STATE_UP" using run(2) up(2) unfolding socks_inv_def by blast
    let ?c' = "?c\<lparr>ct_socks_client := ct_socks_client ?c, ct_recv_used := -1, ct_tcp_pending := 0, ct_socks_up := True,
      ct_send_op := (if 0 < ct_buf_used ?c then Some (ct_buf_used ?c) else None), ct_recv_op := (\<not> ct_client_closed ?c)\<rparr>"
    let ?cs = "(if ct_client_closed ?c then [] else [CcSentOn]) @
      (if 0 < ct_buf_used ?c then [CcSend (take (nat (ct_buf_used ?c)) (ct_buf ?c))] else []) @
      (if ct_client_closed ?c then [] else [CcReceive (int CLIENT_SOCKS_RECV_BUF_SIZE)])"
    have ev: "client_socks_handler env EVENT_UP ?c = Some (Some ?c', ?cs)" using up(3) sc by (intro event_up_eq [OF ci]) simp_all
    have ci': "client_inv ?c'" using up(3) fr by (intro up_client_inv [OF ci _ _ refl]) simp_all
    have li': "linked ais addr ?c' run" using c(2) run(2) up unfolding linked_def by simp
    have un: "unsent c = []" "unsent ?c' = []" using up(3) by (simp_all add: unsent_def)
    have w: "written ?cs = []" "count_list ?cs CcCallbacksOff = 0" "count_list ?cs CcSocksFree = 0" "count_list ?cs CcFree = 0" by simp_all
    have "relay_inv ais addr (relay_next ?s (Some ?c', ?cs))"
      using D(3) un w li' ci'
      by (intro relay_alive [OF al, where cs = ?cs and e = 0 and c' = ?c']) (simp_all add: relay_next_def alive_def)
    with st up ev show ?thesis by simp
  next
    case on
    have "linked ais addr ?c run" using li run(2) on unfolding linked_def by simp
    then have "relay_inv ais addr (relay_next ?s (Some ?c, []))"
      using ci al unfolding alive_def
      by (intro relay_alive [OF al, where cs = "[]" and e = 0 and c' = ?c]) (simp_all add: relay_next_def split: if_splits)
    with st on show ?thesis by simp
  next
    case down
    then show ?thesis using socks_up_stays [OF run(1)] li(4) by blast
  qed
qed

section \<open>The machine\<close>

definition relay_run0 :: "tcp_client \<Rightarrow> relay_run" where
  "relay_run0 c = \<lparr>rr_c = Some c, rr_run = socks_run0 (ct_socks_client c), rr_up_in = [], rr_up_out = [], rr_dn_in = [],
     rr_errs = 0, rr_calls = []\<rparr>"

text \<open>The memory of a client, before anything is set in it.\<close>

definition client_mem :: "tcp_client \<Rightarrow> bool" where
  "client_mem mem \<longleftrightarrow> length (ct_buf mem) = TCP_WND \<and> length (ct_recv_buf mem) = CLIENT_SOCKS_RECV_BUF_SIZE"

definition relay_init :: "BSocksClient_auth_info list \<Rightarrow> BAddr \<Rightarrow> relay_run \<Rightarrow> bool" where
  "relay_init ais addr s \<longleftrightarrow> (\<exists>mem local remote username sc server. client_mem mem \<and> ip_addr addr \<and>
     BSocksClient_Init server ais addr True = Some (1, sc) \<and> s = relay_run0 (client_init mem local remote username sc))"

lemma relay_init_inv:
  assumes "relay_init ais addr s"
  shows "relay_inv ais addr s"
proof -
  obtain mem local remote username sc server where
    m: "client_mem mem" "ip_addr addr" "BSocksClient_Init server ais addr True = Some (1, sc)"
    and s: "s = relay_run0 (client_init mem local remote username sc)"
    using assms unfolding relay_init_def by blast
  let ?c = "client_init mem local remote username sc"
  have "socks_init ais addr (socks_run0 sc)" using m(2,3) unfolding socks_init_def by blast
  then have so: "socks_inv ais addr (socks_run0 sc)" by (rule socks_init_inv)
  then have fr: "freeable ?c" by (rule socks_freeable) (simp add: client_init_def socks_run0_def)
  have "bufs_ok ?c" using m(1) by (simp add: bufs_ok_def client_init_def client_mem_def)
  moreover have "sides_ok ?c" using fr by (simp add: sides_ok_def client_init_def)
  moreover have "send_ok ?c" "recv_ok ?c" by (simp_all add: send_ok_def recv_ok_def client_init_def)
  moreover have "linked ais addr ?c (socks_run0 sc)" using so by (simp add: linked_def client_init_def socks_run0_def)
  ultimately show ?thesis
    by (simp add: relay_inv_def s relay_run0_def client_inv_def alive_def unsent_def client_init_def)
qed

interpretation relay: machine "relay_init ais addr" relay_step relay_enabled "relay_inv ais addr" for ais addr
proof
  show "\<exists>s'. relay_step s e = Some s' \<and> relay_inv ais addr s'" if "relay_inv ais addr s" "relay_enabled s e" for s e
    using that
    by (cases e) (metis recv_step err_step sent_step send_done_step recv_done_step socks_ev_step murder_step)+
qed (rule relay_init_inv)

section \<open>Giving the connection up\<close>

text \<open>The calls that give the connection up: its callbacks are removed, and it is closed or aborted.\<close>

fun conn_call :: "client_call \<Rightarrow> bool" where
  "conn_call CcCallbacksOff = True"
| "conn_call (CcClose e) = True"
| "conn_call CcAbort = True"
| "conn_call _ = False"

abbreviation conn_calls :: "client_call list \<Rightarrow> client_call list" where
  "conn_calls \<equiv> filter conn_call"

text \<open>The connection was given up properly, once: it was aborted, or closed and then aborted if it could not be closed.\<close>

definition gave_up :: "client_call list \<Rightarrow> bool" where
  "gave_up cs \<longleftrightarrow> conn_calls cs = [CcCallbacksOff, CcAbort] \<or>
     (\<exists>e. conn_calls cs = [CcCallbacksOff, CcClose e] @ (if e = ERR_OK then [] else [CcAbort]))"

definition at_once :: "client_call list \<Rightarrow> bool" where
  "at_once cs \<longleftrightarrow> conn_calls cs = [] \<or> gave_up cs"

lemma at_once_append: "conn_calls cs = [] \<Longrightarrow> at_once (cs @ cs') = at_once cs'" "conn_calls cs' = [] \<Longrightarrow> at_once (cs @ cs') = at_once cs"
  by (simp_all add: at_once_def gave_up_def)

lemma at_once_Cons: "\<not> conn_call x \<Longrightarrow> at_once (x # cs) = at_once cs"
  by (simp add: at_once_def gave_up_def)

lemma at_once_none: "conn_calls cs = [] \<Longrightarrow> at_once cs"
  by (simp add: at_once_def)

lemma gave_up_append: "conn_calls cs' = [] \<Longrightarrow> gave_up (cs @ cs') = gave_up cs"
  by (simp add: gave_up_def)

lemma gave_up_off: "gave_up cs \<Longrightarrow> count_list cs CcCallbacksOff = 1"
proof -
  have "count_list cs CcCallbacksOff = count_list (conn_calls cs) CcCallbacksOff" by (induction cs) auto
  then show "gave_up cs \<Longrightarrow> ?thesis" by (auto simp: gave_up_def)
qed

lemma gave_up_closing: "conn_calls cs = [] \<Longrightarrow> gave_up (closing_calls env @ cs)"
proof -
  assume "conn_calls cs = []"
  then have "conn_calls (closing_calls env @ cs) = [CcCallbacksOff, CcClose (te_close env)] @ (if te_close env = ERR_OK then [] else [CcAbort])"
    by (simp add: closing_calls_def)
  then show ?thesis unfolding gave_up_def by blast
qed

lemma gave_up_aborting: "conn_calls cs = [] \<Longrightarrow> gave_up (CcCallbacksOff # CcAbort # cs)"
  by (simp add: gave_up_def)

lemma before_Some: "before xs r = Some (c, cs) \<longleftrightarrow> (\<exists>cs'. r = Some (c, cs') \<and> cs = xs @ cs')"
  by (cases r) (auto simp: before_def)

lemma dealloc_calls: "client_dealloc c = Some (r, cs) \<Longrightarrow> conn_calls cs = []"
  by (auto simp: client_dealloc_def bind_eq_Some_conv)

lemma free_socks_closed_calls:
  "client_free_socks env c = Some (r, cs) \<Longrightarrow> ct_client_closed c \<Longrightarrow> conn_calls cs = []"
  by (auto simp: client_free_socks.simps before_Some split: if_splits option.splits dest: dealloc_calls)

lemma handle_freed_calls: "client_handle_freed_client env c = Some (r, cs) \<Longrightarrow> conn_calls cs = []"
  by (auto simp: client_handle_freed_client.simps split: if_splits dest: free_socks_closed_calls dealloc_calls)

lemma free_client_calls:
  assumes "client_free_client env c = Some (r, cs)"
  shows "gave_up cs"
proof -
  from assms have "before (closing_calls env) (client_handle_freed_client env c) = Some (r, cs)"
    by (cases "ct_client_closed c") (simp_all add: client_free_client.simps closing_calls_def)
  then obtain cs' where "client_handle_freed_client env c = Some (r, cs')" "cs = closing_calls env @ cs'" unfolding before_Some by blast
  then show ?thesis using handle_freed_calls gave_up_closing by blast
qed

lemma gave_up_at_once: "gave_up cs \<Longrightarrow> at_once cs"
  by (simp add: at_once_def)

lemma at_once_aborting: "conn_calls cs = [] \<Longrightarrow> at_once (CcCallbacksOff # CcAbort # cs)"
  by (intro gave_up_at_once gave_up_aborting)

lemma free_socks_calls: "client_free_socks env c = Some (r, cs) \<Longrightarrow> at_once cs"
  by (auto simp: client_free_socks.simps before_Some at_once_Cons at_once_none split: if_splits option.splits
      dest!: free_client_calls [THEN gave_up_at_once] dealloc_calls)

lemma abort_client_calls:
  assumes "client_abort_client env c = Some (r, cs)"
  shows "gave_up cs"
proof -
  from assms have "before [CcCallbacksOff, CcAbort] (client_handle_freed_client env c) = Some (r, cs)"
    by (simp add: client_abort_client_def bind_eq_Some_conv)
  then obtain cs' where "client_handle_freed_client env c = Some (r, cs')" "cs = CcCallbacksOff # CcAbort # cs'" unfolding before_Some by auto
  then show ?thesis using handle_freed_calls gave_up_aborting by blast
qed

lemma murder_calls: "client_murder c = Some (r, cs) \<Longrightarrow> at_once cs"
  by (auto simp: client_murder_def before_Some bind_eq_Some_conv Let_def at_once_Cons at_once_none at_once_aborting split: if_splits
      dest!: dealloc_calls)

lemma send_out_loop_calls: "send_out_loop env k c = Some (failed, c', cs) \<Longrightarrow> conn_calls cs = []"
proof (induction env k c arbitrary: failed c' cs rule: send_out_loop.induct)
  case (1 env k c)
  then show ?case by (subst (asm) (2) send_out_loop.simps) (auto simp: Let_def split: if_splits option.splits)
qed

lemma send_out_calls: "client_socks_recv_send_out env c = Some (ret, r, cs) \<Longrightarrow> at_once cs"
  by (auto simp: client_socks_recv_send_out_def bind_eq_Some_conv at_once_append at_once_Cons split: if_splits
      dest!: send_out_loop_calls abort_client_calls intro: at_once_none) (auto simp: at_once_def gave_up_def)

lemma stream_calls: "sender_send n c = Some (c', cs) \<Longrightarrow> conn_calls cs = []" "client_send_to_socks c = Some (c', cs) \<Longrightarrow> conn_calls cs = []"
  "client_socks_recv_initiate c = Some (c', cs) \<Longrightarrow> conn_calls cs = []"
  by (auto simp: sender_send_def client_send_to_socks_def client_socks_recv_initiate_def bind_eq_Some_conv)

lemma recv_func_calls: "client_recv_func env p killed c = Some (e, r, cs) \<Longrightarrow> at_once cs"
  by (auto simp: client_recv_func_def bind_eq_Some_conv Let_def at_once_append at_once_Cons at_once_none split: if_splits option.splits
      dest!: free_client_calls [THEN gave_up_at_once] stream_calls)

lemma sent_func_calls: "client_sent_func env len killed c = Some (e, r, cs) \<Longrightarrow> at_once cs"
  by (auto simp: client_sent_func_def bind_eq_Some_conv Let_def at_once_append at_once_none split: if_splits
      dest!: free_client_calls [THEN gave_up_at_once] send_out_calls stream_calls)

lemma send_done_calls: "client_socks_send_handler_done env n c = Some (r, cs) \<Longrightarrow> at_once cs"
  by (auto simp: client_socks_send_handler_done_def bind_eq_Some_conv Let_def before_Some at_once_append at_once_Cons at_once_none
      split: if_splits dest!: free_socks_calls stream_calls)

lemma recv_done_calls: "client_socks_recv_handler_done env n c = Some (r, cs) \<Longrightarrow> at_once cs"
  by (auto simp: client_socks_recv_handler_done_def bind_eq_Some_conv at_once_append at_once_none split: if_splits
      dest!: send_out_calls stream_calls)

lemma socks_handler_calls: "client_socks_handler env e c = Some (r, cs) \<Longrightarrow> at_once cs"
  by (cases e) (auto simp: client_socks_handler_def bind_eq_Some_conv Let_def at_once_append at_once_Cons at_once_none split: if_splits
      dest!: free_socks_calls stream_calls)

lemma relay_next_calls: "at_once cs \<Longrightarrow> rr_calls (relay_next s (r, cs)) = rr_calls s @ cs \<and> at_once cs"
  by (simp add: relay_next_def)

lemma relay_step_calls:
  assumes "relay_step s e = Some s'"
  shows "\<exists>cs. rr_calls s' = rr_calls s @ cs \<and> at_once cs"
proof (cases e)
  case (RvSocks env ev)
  obtain c run r cs where "(if sr_dead run then client_socks_handler env (socks_failure (rr_run s) ev) c
       else if sr_up run \<and> \<not> ct_socks_up c then client_socks_handler env EVENT_UP c else Some (Some c, [])) = Some (r, cs)"
    "s' = (relay_next s (r, cs))\<lparr>rr_run := run\<rparr>"
    using assms RvSocks by (auto simp: bind_eq_Some_conv Let_def)
  then show ?thesis by (auto simp: relay_next_def at_once_none split: if_splits dest: socks_handler_calls)
next
  case (RvErr env)
  with assms show ?thesis
    by (auto simp: bind_eq_Some_conv relay_next_def client_err_func_def at_once_none dest!: handle_freed_calls)
qed (use assms in \<open>auto simp: bind_eq_Some_conv relay_next_def
    dest: recv_func_calls sent_func_calls send_done_calls recv_done_calls murder_calls\<close>)

text \<open>Over a run: as long as the callbacks are there nothing was done to the connection, and afterwards exactly what gives it up.\<close>

definition given_up :: "relay_run \<Rightarrow> bool" where
  "given_up s \<longleftrightarrow> (if CcCallbacksOff \<in> set (rr_calls s) then gave_up (rr_calls s) else conn_calls (rr_calls s) = [])"

lemma relay_off_once: "relay_inv ais addr s \<Longrightarrow> count_list (rr_calls s) CcCallbacksOff \<le> 1"
  by (cases "rr_c s") (auto simp: relay_inv_def gone_def alive_def of_bool_def split: if_splits)

lemma given_up_step:
  assumes "given_up s" "relay_step s e = Some s'" "relay_inv ais addr s'"
  shows "given_up s'"
proof -
  obtain cs where cs: "rr_calls s' = rr_calls s @ cs" "at_once cs" using relay_step_calls [OF assms(2)] by blast
  show ?thesis
  proof (cases "conn_calls cs = []")
    case True
    then have "CcCallbacksOff \<notin> set cs" by (auto simp: filter_empty_conv)
    with True assms(1) cs(1) show ?thesis by (auto simp: given_up_def gave_up_append)
  next
    case False
    with cs(2) have g: "gave_up cs" by (simp add: at_once_def)
    from gave_up_off [OF this] relay_off_once [OF assms(3)] cs(1) have "count_list (rr_calls s) CcCallbacksOff = 0" by simp
    then have "conn_calls (rr_calls s) = []" using assms(1) by (simp add: given_up_def count_list_0_iff)
    then have "gave_up (rr_calls s')" using g cs(1) by (simp add: gave_up_def)
    moreover have "CcCallbacksOff \<in> set cs" using gave_up_off [OF g] count_list_0_iff [of cs CcCallbacksOff] by force
    ultimately show ?thesis using cs(1) by (simp add: given_up_def)
  qed
qed

lemma given_up_run:
  assumes "relay_inv ais addr s" "admissible relay_enabled relay_step s evs" "exec relay_step s evs = Some s'" "given_up s"
  shows "given_up s'"
  using assms
proof (induction evs arbitrary: s)
  case (Cons e evs)
  then obtain s1 where "relay_step s e = Some s1" "exec relay_step s1 evs = Some s'" "admissible relay_enabled relay_step s1 evs"
    "relay_enabled s e" by (auto split: option.splits)
  moreover from this relay.step_inv [OF Cons.prems(1)] have "relay_inv ais addr s1" by fastforce
  ultimately show ?case using Cons given_up_step by blast
qed simp

end
