(* ===== verification/TcpRelayRun.thy ===== *)
theory TcpRelayRun
  imports TcpRelay
begin

text \<open>
  What the machine of TcpRelay.thy shows of the relay of a TCP connection, for every order of the callbacks, the completions and the SOCKS
  events; and a run of it: data arrives before the SOCKS client is up, is sent on in two pieces, an answer is written in two pieces, and
  the connection breaks while data is still buffered.
\<close>

section \<open>A run\<close>

text \<open>A SOCKS client on its way up, one state per event of its exchange.\<close>

definition socks_at :: "nat \<Rightarrow> socks_run" where
  "socks_at n = the (exec socks_step (socks_run0 (sr_c (the socks_example))) (take n socks_example_events))"

lemma socks_at_steps:
  "socks_step (socks_at 0) (SeConnector False True (Some [])) = Some (socks_at 1)"
  "socks_step (socks_at 1) (SeSent (Some [3])) = Some (socks_at 2)"
  "socks_step (socks_at 2) (SeReceived [5] None) = Some (socks_at 3)"
  "socks_step (socks_at 3) (SeReceived [2] (Some [])) = Some (socks_at 4)"
  "socks_step (socks_at 4) (SeSent (Some [])) = Some (socks_at 5)"
  "socks_step (socks_at 5) (SeReceived [1, 0] (Some [])) = Some (socks_at 6)"
  "socks_step (socks_at 6) (SeSent (Some [])) = Some (socks_at 7)"
  "socks_step (socks_at 7) (SeReceived [5, 0, 0] None) = Some (socks_at 8)"
  "socks_step (socks_at 8) (SeReceived [1] None) = Some (socks_at 9)"
  "socks_step (socks_at 9) (SeReceived [9, 9, 9, 9, 1, 1] None) = Some (socks_at 10)"
  by code_simp+

lemma socks_at_enabled:
  "socks_enabled (socks_at 0) (SeConnector False True (Some []))"
  "socks_enabled (socks_at 1) (SeSent (Some [3]))"
  "socks_enabled (socks_at 2) (SeReceived [5] None)"
  "socks_enabled (socks_at 3) (SeReceived [2] (Some []))"
  "socks_enabled (socks_at 4) (SeSent (Some []))"
  "socks_enabled (socks_at 5) (SeReceived [1, 0] (Some []))"
  "socks_enabled (socks_at 6) (SeSent (Some []))"
  "socks_enabled (socks_at 7) (SeReceived [5, 0, 0] None)"
  "socks_enabled (socks_at 8) (SeReceived [1] None)"
  "socks_enabled (socks_at 9) (SeReceived [9, 9, 9, 9, 1, 1] None)"
  by code_simp+

lemma socks_at_flags: "\<not> sr_dead (socks_at 1)" "\<not> sr_dead (socks_at 2)" "\<not> sr_dead (socks_at 3)" "\<not> sr_dead (socks_at 4)"
  "\<not> sr_dead (socks_at 5)" "\<not> sr_dead (socks_at 6)" "\<not> sr_dead (socks_at 7)" "\<not> sr_dead (socks_at 8)" "\<not> sr_dead (socks_at 9)"
  "\<not> sr_dead (socks_at 10)" "\<not> sr_up (socks_at 1)" "\<not> sr_up (socks_at 2)" "\<not> sr_up (socks_at 3)" "\<not> sr_up (socks_at 4)"
  "\<not> sr_up (socks_at 5)" "\<not> sr_up (socks_at 6)" "\<not> sr_up (socks_at 7)" "\<not> sr_up (socks_at 8)" "\<not> sr_up (socks_at 9)"
  "sr_up (socks_at 10)" "sc_state (sr_c (socks_at 10)) = STATE_UP"
  "BSocksClient_Free (sr_c (socks_at 10)) = Some ((sr_c (socks_at 10))\<lparr>sc_con := False, sc_control := False, sc_up := False, sc_buffer := None\<rparr>)"
  by code_simp+

definition relay_env :: "nat \<Rightarrow> tcp_env" where
  "relay_env n = \<lparr>te_close = ERR_OK, te_output = ERR_OK, te_sndbuf = (\<lambda>k. if k = 0 then word_of_nat n else 0), te_write = (\<lambda>_. ERR_OK)\<rparr>"

definition relay_example_mem :: "bytes \<Rightarrow> bytes \<Rightarrow> tcp_client" where
  "relay_example_mem buf rbuf = \<lparr>ct_local_addr = BAddr_IPV4 9 9, ct_remote_addr = BAddr_IPV4 9 9, ct_client_closed = True, ct_buf = buf,
     ct_buf_used = 9, ct_socks_username = None, ct_socks_client = sr_c (socks_at 0), ct_socks_up = True, ct_socks_closed = True,
     ct_recv_buf = rbuf, ct_recv_used = 9, ct_recv_sent = 9, ct_recv_waiting = True, ct_tcp_pending = 9,
     ct_send_op = None, ct_recv_op = True\<rparr>"

definition relay_example :: "bytes \<Rightarrow> bytes \<Rightarrow> relay_run" where
  "relay_example buf rbuf =
     relay_run0 (client_init (relay_example_mem buf rbuf) (BAddr_IPV4 0 0) (BAddr_IPV4 1 2) None (sr_c (socks_at 0)))"

definition relay_open_events :: "relay_ev list" where
  "relay_open_events = RvRecv (relay_env 9) (Some [1, 2, 3]) False # map (RvSocks (relay_env 9)) socks_example_events @
     [RvSendDone (relay_env 9) 2, RvRecvDone (relay_env 2) [4, 5, 6]]"

definition relay_example_events :: "relay_ev list" where
  "relay_example_events = relay_open_events @ [RvSent (relay_env 9) 2 False, RvErr (relay_env 9), RvSendDone (relay_env 9) 1]"

lemmas relay_eval = relay_next_def client_recv_func_def client_err_func_def client_sent_func_def client_socks_send_handler_done_def
  client_socks_recv_handler_done_def client_socks_handler_def client_send_to_socks_def sender_send_def client_socks_recv_initiate_def
  client_socks_recv_send_out_def send_out_loop.simps client_handle_freed_client.simps client_free_socks.simps client_dealloc_def before_def
  BSocksClient_GetSendInterface_def BSocksClient_GetRecvInterface_def mem_read_def mem_write_def bmin_int_def relay_env_def
  socks_at_steps [simplified] socks_at_enabled [simplified] socks_at_flags [simplified]

lemma relay_example0: "relay_example buf rbuf = \<lparr>rr_c = Some
    \<lparr>ct_local_addr = BAddr_IPV4 0 0, ct_remote_addr = BAddr_IPV4 1 2, ct_client_closed = False, ct_buf = buf,
     ct_buf_used = 0, ct_socks_username = None, ct_socks_client = sr_c (socks_at 0), ct_socks_up = False, ct_socks_closed = False,
     ct_recv_buf = rbuf, ct_recv_used = 9, ct_recv_sent = 9, ct_recv_waiting = True, ct_tcp_pending = 9,
     ct_send_op = None, ct_recv_op = False\<rparr>, rr_run = socks_at 0, rr_up_in = [], rr_up_out = [], rr_dn_in = [],
     rr_errs = 0, rr_calls = []\<rparr>"
  by (simp add: relay_example_def relay_run0_def client_init_def relay_example_mem_def socks_at_def socks_run0_def)

lemma relay_example_admissible:
  assumes "length buf = TCP_WND" "length rbuf = CLIENT_SOCKS_RECV_BUF_SIZE"
  shows "admissible relay_enabled relay_step (relay_example buf rbuf) relay_example_events"
  unfolding relay_example0 relay_example_events_def relay_open_events_def socks_example_events_def
  using assms by (simp add: relay_eval)

lemma relay_example_ends:
  assumes "length buf = TCP_WND" "length rbuf = CLIENT_SOCKS_RECV_BUF_SIZE"
  shows "\<exists>s. exec relay_step (relay_example buf rbuf) relay_example_events = Some s \<and> rr_c s = None \<and> rr_up_out s = [1, 2, 3] \<and>
    rr_dn_in s = [4, 5, 6] \<and> written (rr_calls s) = [4, 5, 6]"
  unfolding relay_example0 relay_example_events_def relay_open_events_def socks_example_events_def
  using assms by (simp add: relay_eval)

lemma relay_open_ends:
  assumes "length buf = TCP_WND" "length rbuf = CLIENT_SOCKS_RECV_BUF_SIZE"
  shows "admissible relay_enabled relay_step (relay_example buf rbuf) relay_open_events"
    "\<exists>s c. exec relay_step (relay_example buf rbuf) relay_open_events = Some s \<and> rr_c s = Some c \<and> ct_socks_up c \<and>
      \<not> ct_socks_closed c \<and> \<not> ct_client_closed c \<and> ct_buf_used c = 1 \<and> unsent c = [6] \<and> ct_tcp_pending c = 2"
  unfolding relay_example0 relay_open_events_def socks_example_events_def
  using assms by (simp_all add: relay_eval unsent_def)

text \<open>The same run, from the memory that a client gets.\<close>

abbreviation relay_example_client :: tcp_client where
  "relay_example_client \<equiv> relay_example_mem (replicate TCP_WND 0) (replicate CLIENT_SOCKS_RECV_BUF_SIZE 0)"

abbreviation relay_example_run :: relay_run where
  "relay_example_run \<equiv>
     relay_run0 (client_init relay_example_client (BAddr_IPV4 0 0) (BAddr_IPV4 1 2) None (sr_c (the socks_example)))"

lemma relay_example_init:
  "relay_example_run = relay_example (replicate TCP_WND 0) (replicate CLIENT_SOCKS_RECV_BUF_SIZE 0)"
  by (simp add: relay_example_def socks_at_def socks_run0_def)

lemma relay_example_given: "client_mem relay_example_client" "ip_addr (BAddr_IPV4 0 0)"
  by (simp_all add: client_mem_def relay_example_mem_def)

lemma relay_example_run_admissible: "admissible relay_enabled relay_step relay_example_run relay_example_events"
  "admissible relay_enabled relay_step relay_example_run relay_open_events"
  unfolding relay_example_init by (simp_all add: relay_example_admissible relay_open_ends(1))

lemma relay_example_exec:
  "exec relay_step relay_example_run relay_example_events = Some (the (exec relay_step relay_example_run relay_example_events))"
  "exec relay_step relay_example_run relay_open_events = Some (the (exec relay_step relay_example_run relay_open_events))"
  "rr_c (the (exec relay_step relay_example_run relay_open_events)) = Some (the (rr_c (the (exec relay_step relay_example_run relay_open_events))))"
  unfolding relay_example_init
  using relay_example_ends [of "replicate TCP_WND 0" "replicate CLIENT_SOCKS_RECV_BUF_SIZE 0"]
    relay_open_ends(2) [of "replicate TCP_WND 0" "replicate CLIENT_SOCKS_RECV_BUF_SIZE 0"] by auto

lemma relay_open_enabled:
  "relay_enabled (the (exec relay_step relay_example_run relay_open_events)) (RvRecv (relay_env 1) None False)"
  "relay_enabled (the (exec relay_step relay_example_run relay_open_events)) (RvSent (relay_env 1) 2 False)"
  unfolding relay_example_init
  using relay_open_ends(2) [of "replicate TCP_WND 0" "replicate CLIENT_SOCKS_RECV_BUF_SIZE 0"] by auto

section \<open>Properties\<close>

lemma relay_reached:
  assumes "client_mem mem" "ip_addr local" "BSocksClient_Init server ais local True = Some (1, sc)"
    and "admissible relay_enabled relay_step (relay_run0 (client_init mem local remote username sc)) evs"
  shows "\<exists>s. exec relay_step (relay_run0 (client_init mem local remote username sc)) evs = Some s \<and> relay_inv ais local s"
proof (rule relay.run_safe [OF _ assms(4)])
  show "relay_init ais local (relay_run0 (client_init mem local remote username sc))"
    using assms(1-3) unfolding relay_init_def by blast
qed

lemma unsent_nonempty:
  assumes "client_inv c" "ct_socks_up c" "0 \<le> ct_recv_sent c" "ct_recv_sent c < ct_recv_used c"
    "ct_recv_used c \<le> int CLIENT_SOCKS_RECV_BUF_SIZE"
  shows "unsent c \<noteq> []"
proof -
  have "length (unsent c) = nat (ct_recv_used c) - nat (ct_recv_sent c)"
    using assms(2-5) client_invD(4) [OF assms(1)] by (simp add: unsent_def)
  then show ?thesis using assms(3,4) by auto
qed

text \<open>
  C10. Whatever lwIP, the SOCKS server and the user of the connection do, within the rules of their interfaces, the relay of a TCP connection
  trips no assertion, starts no operation while one is outstanding and touches no memory outside its two buffers. While the client exists at most one of
  its sides is gone, and a client whose connection is gone still has data for the SOCKS server.
\<close>

theorem tcp_relay_safe:
  assumes "client_mem mem" "ip_addr local" "BSocksClient_Init server ais local True = Some (1, sc)"
    and "admissible relay_enabled relay_step (relay_run0 (client_init mem local remote username sc)) evs"
  shows "\<exists>s. exec relay_step (relay_run0 (client_init mem local remote username sc)) evs = Some s \<and>
    (case rr_c s of None \<Rightarrow> True | Some c \<Rightarrow> client_mem c \<and> 0 \<le> ct_buf_used c \<and> ct_buf_used c \<le> int TCP_WND \<and>
      (if ct_client_closed c then \<not> ct_socks_closed c \<and> 0 < ct_buf_used c
       else if ct_socks_closed c then 0 < ct_recv_used c \<or> 0 < ct_tcp_pending c else True))"
proof -
  from relay_reached [OF assms] obtain s where
    s: "exec relay_step (relay_run0 (client_init mem local remote username sc)) evs = Some s" "relay_inv ais local s" by blast
  have "case rr_c s of None \<Rightarrow> True | Some c \<Rightarrow> client_mem c \<and> 0 \<le> ct_buf_used c \<and> ct_buf_used c \<le> int TCP_WND \<and>
      (if ct_client_closed c then \<not> ct_socks_closed c \<and> 0 < ct_buf_used c
       else if ct_socks_closed c then 0 < ct_recv_used c \<or> 0 < ct_tcp_pending c else True)"
  proof (cases "rr_c s")
    case (Some c)
    note D = client_invD [OF relay_invD(1) [OF s(2) Some]]
    show ?thesis unfolding Some option.case client_mem_def using D(1-4,6,7) by presburger
  qed simp
  with s(1) show ?thesis by blast
qed

theorem tcp_relay_safe_witness:
  "\<exists>s. exec relay_step relay_example_run relay_example_events = Some s \<and>
    (case rr_c s of None \<Rightarrow> True | Some c \<Rightarrow> client_mem c \<and> 0 \<le> ct_buf_used c \<and> ct_buf_used c \<le> int TCP_WND \<and>
      (if ct_client_closed c then \<not> ct_socks_closed c \<and> 0 < ct_buf_used c
       else if ct_socks_closed c then 0 < ct_recv_used c \<or> 0 < ct_tcp_pending c else True))"
  by (rule tcp_relay_safe [OF relay_example_given socks_example_init relay_example_run_admissible(1)])

text \<open>
  C2. The relay passes bytes on in order and loses none of them: what the SOCKS connection has taken is a prefix of what the connection has
  sent, and what was written to the connection is a prefix of what the SOCKS server has sent. While the client exists, the rest is
  in its buffers, up to what was left for a connection that is gone.
\<close>

theorem tcp_relay_in_order:
  assumes "client_mem mem" "ip_addr local" "BSocksClient_Init server ais local True = Some (1, sc)"
    and "admissible relay_enabled relay_step (relay_run0 (client_init mem local remote username sc)) evs"
    and "exec relay_step (relay_run0 (client_init mem local remote username sc)) evs = Some s"
  shows "prefix (rr_up_out s) (rr_up_in s) \<and> prefix (written (rr_calls s)) (rr_dn_in s) \<and>
    (case rr_c s of None \<Rightarrow> True | Some c \<Rightarrow>
      rr_up_in s = rr_up_out s @ take (nat (ct_buf_used c)) (ct_buf c) \<and>
      (if ct_client_closed c then True else rr_dn_in s = written (rr_calls s) @ unsent c))"
proof -
  have i: "relay_inv ais local s" using relay_reached [OF assms(1-4)] assms(5) by simp
  show ?thesis
  proof (cases "rr_c s")
    case None
    with i show ?thesis by (simp add: relay_inv_def gone_def)
  next
    case (Some c)
    have "alive s c" by (rule relay_invD(3) [OF i Some])
    with alive_prefix [OF this] Some show ?thesis by (simp add: alive_def)
  qed
qed

theorem tcp_relay_in_order_witness:
  "let s = the (exec relay_step relay_example_run relay_example_events) in
  prefix (rr_up_out s) (rr_up_in s) \<and> prefix (written (rr_calls s)) (rr_dn_in s) \<and>
    (case rr_c s of None \<Rightarrow> True | Some c \<Rightarrow>
      rr_up_in s = rr_up_out s @ take (nat (ct_buf_used c)) (ct_buf c) \<and>
      (if ct_client_closed c then True else rr_dn_in s = written (rr_calls s) @ unsent c))"
  unfolding Let_def
  by (rule tcp_relay_in_order [OF relay_example_given socks_example_init relay_example_run_admissible(1) relay_example_exec(1)])






text \<open>
  C11. The relay never stalls: as long as the client exists something is outstanding that will call it again. Until the SOCKS client
  is up it is the SOCKS client. After that, data for the SOCKS server is being sent; data from it that does not fit in the connection's send buffer waits for data
  that lwIP has yet to confirm; and an empty buffer is being filled.
\<close>

theorem tcp_relay_never_stalls:
  assumes "client_mem mem" "ip_addr local" "BSocksClient_Init server ais local True = Some (1, sc)"
    and "admissible relay_enabled relay_step (relay_run0 (client_init mem local remote username sc)) evs"
    and "exec relay_step (relay_run0 (client_init mem local remote username sc)) evs = Some s" "rr_c s = Some c"
  shows "if \<not> ct_socks_up c then \<not> ct_socks_closed c \<and> sr_c (rr_run s) = ct_socks_client c \<and> \<not> sr_dead (rr_run s)
    else (if 0 < ct_buf_used c \<and> \<not> ct_socks_closed c then ct_send_op c \<noteq> None else True) \<and>
      (if ct_client_closed c then ct_send_op c \<noteq> None
       else if unsent c \<noteq> [] then ct_recv_waiting c \<and> 0 < ct_tcp_pending c
       else if ct_socks_closed c then 0 < ct_tcp_pending c else ct_recv_op c)"
proof -
  have i: "relay_inv ais local s" using relay_reached [OF assms(1-4)] assms(5) by simp
  note D = relay_invD [OF i assms(6)]
  note P = client_inv_partsD [OF D(1)] and F = client_invD(6,7) [OF D(1)]
  show ?thesis
  proof (cases "ct_socks_up c")
    case False
    with F(2) D(2) show ?thesis unfolding linked_def by auto
  next
    case up: True
    have send: "ct_send_op c \<noteq> None" if "0 < ct_buf_used c" "\<not> ct_socks_closed c" using P(3) up that by (auto simp: send_ok_def)
    have recv: "if unsent c \<noteq> [] then ct_recv_waiting c \<and> 0 < ct_tcp_pending c
      else if ct_socks_closed c then 0 < ct_tcp_pending c else ct_recv_op c" if o': "\<not> ct_client_closed c"
    proof (cases "ct_recv_used c = -1")
      case True
      then have "unsent c = []" by (simp add: unsent_def)
      moreover have "0 < ct_tcp_pending c" if "ct_socks_closed c" using F(2) [OF that] True by simp
      moreover have "ct_recv_op c" if "\<not> ct_socks_closed c" using P(4) up o' that True unfolding recv_ok_def by blast
      ultimately show ?thesis by simp
    next
      case False
      then have r: "0 \<le> ct_recv_sent c" "ct_recv_sent c < ct_recv_used c" "ct_recv_used c \<le> int CLIENT_SOCKS_RECV_BUF_SIZE"
        "ct_recv_waiting c" "0 < ct_tcp_pending c" using P(4) up o' unfolding recv_ok_def by blast+
      then have "unsent c \<noteq> []" by (intro unsent_nonempty [OF D(1) up])
      with r show ?thesis by simp
    qed
    from up send recv F(1) show ?thesis by auto
  qed
qed

theorem tcp_relay_never_stalls_witness:
  "let s = the (exec relay_step relay_example_run relay_open_events); c = the (rr_c s) in
    if \<not> ct_socks_up c then \<not> ct_socks_closed c \<and> sr_c (rr_run s) = ct_socks_client c \<and> \<not> sr_dead (rr_run s)
    else (if 0 < ct_buf_used c \<and> \<not> ct_socks_closed c then ct_send_op c \<noteq> None else True) \<and>
      (if ct_client_closed c then ct_send_op c \<noteq> None
       else if unsent c \<noteq> [] then ct_recv_waiting c \<and> 0 < ct_tcp_pending c
       else if ct_socks_closed c then 0 < ct_tcp_pending c else ct_recv_op c)"
  unfolding Let_def
  by (rule tcp_relay_never_stalls [OF relay_example_given socks_example_init relay_example_run_admissible(2) relay_example_exec(2,3)])

lemma not_gave_up: "conn_calls cs = [] \<Longrightarrow> \<not> gave_up cs"
  by (simp add: gave_up_def)

lemma queued_conn: "queued c c' cs \<Longrightarrow> conn_calls cs = []" "queued c c' cs \<Longrightarrow> CcReceive n \<notin> set cs"
  by (auto simp: queued_def filter_empty_conv)

lemma aborted_calls: "conn_calls cs = [] \<Longrightarrow> conn_calls cs' = [] \<Longrightarrow> gave_up (cs @ CcCallbacksOff # CcAbort # cs')"
  by (simp add: gave_up_def)

text \<open>
  C35. What \<^verbatim>\<open>client_recv_func\<close> tells lwIP. When the other end has closed the connection, it gives the connection up properly and returns
  \<^verbatim>\<open>ERR_ABRT\<close>, whether it has closed or aborted it; in no other case does it close or abort. It also returns \<^verbatim>\<open>ERR_ABRT\<close>, without freeing the pbuf, when it
  has started to send the data and the jobs it then runs kill the client. Otherwise \<^verbatim>\<open>ERR_MEM\<close> means that the data exceeds the free buffer, and then nothing has
  changed and lwIP keeps the data; \<^verbatim>\<open>ERR_OK\<close> means that the data was taken. The pbuf is freed exactly with \<^verbatim>\<open>ERR_OK\<close>, once.
\<close>

theorem tcp_recv_reports:
  assumes "client_mem mem" "ip_addr local" "BSocksClient_Init server ais local True = Some (1, sc)"
    and "admissible relay_enabled relay_step (relay_run0 (client_init mem local remote username sc)) evs"
    and "exec relay_step (relay_run0 (client_init mem local remote username sc)) evs = Some s" "rr_c s = Some c"
    and "relay_enabled s (RvRecv env p killed)"
  shows "\<exists>e r cs. client_recv_func env p killed c = Some (e, r, cs) \<and>
    (if p = None then gave_up cs \<and> e = ERR_ABRT else conn_calls cs = [] \<and> r \<noteq> None) \<and>
    (e = ERR_MEM) = (case p of None \<Rightarrow> False | Some d \<Rightarrow> int (length d) > int TCP_WND - ct_buf_used c) \<and>
    (e = ERR_ABRT) = (p = None \<or> killed \<and> e \<noteq> ERR_MEM \<and> ct_buf_used c = 0 \<and> ct_socks_up c) \<and>
    (if e = ERR_MEM then r = Some c \<and> cs = [] else True) \<and>
    count_list cs CcPbufFree = (if e = ERR_OK then 1 else 0) \<and> e \<noteq> ERR_OTHER"
proof -
  have i: "relay_inv ais local s" using relay_reached [OF assms(1-4)] assms(5) by simp
  note D = relay_invD [OF i assms(6)]
  have c: "\<not> ct_client_closed c" "\<not> ct_socks_closed c" "p \<noteq> Some []" using assms(6,7) by simp_all
  show ?thesis
  proof (cases p)
    case None
    obtain r cs where f: "client_free_client env c = Some (r, cs)" "CcPbufFree \<notin> set cs"
      using free_client_eq [OF c(1) client_invD(5) [OF D(1)], of env]
      by (cases "ct_buf_used c > 0 \<and> \<not> ct_socks_closed c") (auto simp: closing_calls_def)
    with None c free_client_calls [OF f(1)] show ?thesis by (simp add: client_recv_func_def count_list_0_iff)
  next
    case (Some d)
    show ?thesis
    proof (cases "int (length d) > int TCP_WND - ct_buf_used c")
      case True
      with Some c show ?thesis by (simp add: client_recv_func_def)
    next
      case False
      then obtain buf where b: "mem_write (ct_buf c) (nat (ct_buf_used c)) d = Some buf" "length buf = TCP_WND"
        using append_buf [OF D(1)] by (metis linorder_not_less)
      have so: "ct_send_op c = None" if "ct_buf_used c = 0" using client_inv_partsD(3) [OF D(1)] that by (simp add: send_ok_def)
      have l: "0 < length d" "0 \<le> ct_buf_used c" using Some c(3) client_invD(2) [OF D(1)] by auto
      show ?thesis
      proof (cases "ct_buf_used c = 0 \<and> ct_socks_up c")
        case True
        obtain c' x where "client_recv_func env p killed c =
            (if killed then Some (ERR_ABRT, Some c', [CcSend x]) else Some (ERR_OK, Some c', [CcSend x, CcPbufFree]))"
          using Some c False b so l True
          by (simp add: client_recv_func_def client_send_to_socks_def sender_send_def mem_read_def)
        with Some False True show ?thesis by simp
      next
        case nosend: False
        have "client_recv_func env p killed c =
            Some (ERR_OK, Some (c\<lparr>ct_buf := buf, ct_buf_used := ct_buf_used c + int (length d)\<rparr>), [CcPbufFree])"
          using Some c(1,2) False nosend b l by (auto simp: client_recv_func_def)
        with Some False nosend show ?thesis by auto
      qed
    qed
  qed
qed

theorem tcp_recv_reports_witness:
  "let s = the (exec relay_step relay_example_run relay_open_events); c = the (rr_c s) in
    \<exists>e r cs. client_recv_func (relay_env 1) None False c = Some (e, r, cs) \<and> gave_up cs \<and> e = ERR_ABRT \<and>
    count_list cs CcPbufFree = 0"
  unfolding Let_def
  using tcp_recv_reports [OF relay_example_given socks_example_init relay_example_run_admissible(2) relay_example_exec(2,3) relay_open_enabled(1)]
  by auto

text \<open>
  C36. What \<^verbatim>\<open>client_sent_func\<close> tells lwIP. It returns \<^verbatim>\<open>ERR_ABRT\<close> exactly when it gave the connection up, by closing or aborting it, or when it
  started to receive again and the jobs it then runs kill the client; otherwise \<^verbatim>\<open>ERR_OK\<close> with the client still there. Without data that waited for this
  call, it writes nothing, and gives the connection up exactly when the SOCKS server is gone and its last byte was confirmed. Otherwise it writes a part of
  what waits.
\<close>

theorem tcp_sent_reports:
  assumes "client_mem mem" "ip_addr local" "BSocksClient_Init server ais local True = Some (1, sc)"
    and "admissible relay_enabled relay_step (relay_run0 (client_init mem local remote username sc)) evs"
    and "exec relay_step (relay_run0 (client_init mem local remote username sc)) evs = Some s" "rr_c s = Some c"
    and "relay_enabled s (RvSent env len killed)"
  shows "\<exists>e r cs. client_sent_func env len killed c = Some (e, r, cs) \<and> (e = ERR_OK \<or> e = ERR_ABRT) \<and>
    (gave_up cs \<or> conn_calls cs = []) \<and>
    (e = ERR_ABRT) = (gave_up cs \<or> killed \<and> CcReceive (int CLIENT_SOCKS_RECV_BUF_SIZE) \<in> set cs) \<and>
    (if gave_up cs then True else r \<noteq> None) \<and>
    (if unsent c = [] then gave_up cs = (ct_socks_closed c \<and> ct_tcp_pending c = len) \<and> written cs = []
     else \<exists>n. written cs = take n (unsent c))"
proof -
  have i: "relay_inv ais local s" using relay_reached [OF assms(1-4)] assms(5) by simp
  note D = relay_invD [OF i assms(6)]
  have c: "\<not> ct_client_closed c" "ct_socks_up c" "0 < len" "len \<le> ct_tcp_pending c" using assms(6,7) by simp_all
  let ?c1 = "c\<lparr>ct_tcp_pending := ct_tcp_pending c - len\<rparr>"
  have r: "ct_recv_used c = -1 \<or> 0 < ct_recv_used c \<and> ct_recv_used c \<le> int CLIENT_SOCKS_RECV_BUF_SIZE \<and> 0 \<le> ct_recv_sent c \<and>
        ct_recv_sent c < ct_recv_used c \<and> ct_recv_waiting c" "ct_recv_op c \<longrightarrow> ct_recv_used c = -1"
    using client_inv_partsD(4) [OF D(1)] c(1,2) unfolding recv_ok_def by blast+
  show ?thesis
  proof (cases "ct_recv_used c = -1")
    case False
    let ?c2 = "?c1\<lparr>ct_recv_waiting := False\<rparr>"
    have w: "0 < ct_recv_used c" "ct_recv_waiting c" "ct_recv_sent c < ct_recv_used c" "\<not> ct_recv_op c" using r False by blast+
    have q: "queueing ?c2" "ct_recv_sent ?c2 < ct_recv_used ?c2"
      using client_inv_partsD(1,3) [OF D(1)] client_invD(5) [OF D(1)] c r False by (simp_all add: queueing_def)
    have u: "unsent c \<noteq> []" using r False by (intro unsent_nonempty [OF D(1) c(2)]) blast+
    have hd: "client_sent_func env len killed c = do {
        (ret, r, cs) \<leftarrow> client_socks_recv_send_out env ?c2;
        if ret < 0 then Some (ERR_ABRT, r, cs)
        else do {
          c \<leftarrow> r;
          ASSERT (ct_tcp_pending c > 0);
          if ct_recv_used c = -1 \<and> \<not> ct_socks_closed c
          then do { (c, cs') \<leftarrow> client_socks_recv_initiate c; Some (if killed then ERR_ABRT else ERR_OK, Some c, cs @ cs') }
          else Some (ERR_OK, Some c, cs)
        }
      }" using c w by (simp add: client_sent_func_def)
    have wr: "\<exists>n. written cs = take n (unsent c)" if "queued ?c2 c' cs" for c' cs
      using queued_unsent [OF q(1) that] by (metis append_eq_conv_conj unsent_frame(1,3))
    from q show ?thesis
    proof (cases rule: send_out_cases [where env = env])
      case (aborted c' cs)
      have "gave_up (cs @ CcCallbacksOff # CcAbort # cs')" if "conn_calls cs' = []" for cs'
        using aborted_calls queued_conn [OF aborted(1)] that by blast
      then show ?thesis using hd u wr [OF aborted(1)] aborted(2)
        by (cases "ct_buf_used c > 0 \<and> \<not> ct_socks_closed c"; cases "ct_socks_closed c") simp_all
    next
      case (waiting c' cs)
      then show ?thesis using hd u wr [OF waiting(1)] queued_conn [OF waiting(1)] not_gave_up queued_same [OF waiting(1)] w(1) by auto
    next
      case (all_queued c' cs)
      note Q = queueingD [OF queueing_frame [OF q(1) all_queued(1)]] and same = queued_same [OF all_queued(1)]
      let ?c = "c'\<lparr>ct_recv_used := -1\<rparr>"
      have ri: "client_socks_recv_initiate ?c = Some (?c\<lparr>ct_recv_op := True\<rparr>, [CcReceive (int CLIENT_SOCKS_RECV_BUF_SIZE)])"
        if "\<not> ct_socks_closed c" using Q that same by (intro recv_initiate_eq) simp_all
      show ?thesis
      proof (cases "ct_socks_closed c")
        case True
        then show ?thesis using hd u all_queued wr [OF all_queued(1)] queued_conn [OF all_queued(1)] not_gave_up same by auto
      next
        case False
        then show ?thesis using hd u all_queued wr [OF all_queued(1)] queued_conn [OF all_queued(1)] not_gave_up same ri by auto
      qed
    qed
  next
    case True
    then have u: "unsent c = []" by (simp add: unsent_def)
    show ?thesis
    proof (cases "ct_socks_closed c \<and> ct_tcp_pending c - len = 0")
      case True': True
      have f: "freeable ?c1" "\<not> ct_client_closed ?c1" using client_invD(5) [OF D(1)] c(1) by simp_all
      from free_client_eq [OF f(2,1), of env] True' have "client_free_client env ?c1 = Some (None, closing_calls env @ [CcFree])"
        by simp
      moreover have "gave_up (closing_calls env @ [CcFree])" by (rule gave_up_closing) simp
      ultimately show ?thesis using c True True' u by (auto simp: client_sent_func_def)
    next
      case False
      then have "client_sent_func env len killed c = Some (ERR_OK, Some ?c1, [])" using c True by (auto simp: client_sent_func_def)
      with u False not_gave_up [of "[]"] show ?thesis
        by (intro exI [of _ ERR_OK] exI [of _ "Some ?c1"] exI [of _ "[]"]) auto
    qed
  qed
qed

theorem tcp_sent_reports_witness:
  "let s = the (exec relay_step relay_example_run relay_open_events); c = the (rr_c s) in
    \<exists>e r cs. client_sent_func (relay_env 1) 2 False c = Some (e, r, cs) \<and> (e = ERR_OK \<or> e = ERR_ABRT) \<and>
    (e = ERR_ABRT) = gave_up cs \<and> (if gave_up cs then True else r \<noteq> None)"
proof -
  define c where "c = the (rr_c (the (exec relay_step relay_example_run relay_open_events)))"
  from tcp_sent_reports [OF relay_example_given socks_example_init relay_example_run_admissible(2) relay_example_exec(2,3) relay_open_enabled(2)]
  obtain e r cs where "client_sent_func (relay_env 1) 2 False c = Some (e, r, cs)" "e = ERR_OK \<or> e = ERR_ABRT"
    "(e = ERR_ABRT) = gave_up cs" "if gave_up cs then True else r \<noteq> None"
    unfolding c_def by blast
  then have "\<exists>e r cs. client_sent_func (relay_env 1) 2 False c = Some (e, r, cs) \<and> (e = ERR_OK \<or> e = ERR_ABRT) \<and>
      (e = ERR_ABRT) = gave_up cs \<and> (if gave_up cs then True else r \<noteq> None)" by blast
  then show ?thesis unfolding Let_def c_def .
qed

end
