(* ===== verification/TcpListener.thy ===== *)
theory TcpListener
  imports TcpRelayRun BSize
begin

text \<open>
  The TCP clients of tun2socks/tun2socks.c as a whole: \<^verbatim>\<open>listener_accept_func\<close> makes one for every connection that lwIP
  accepts, \<^verbatim>\<open>client_dealloc\<close> takes it off the list again, and \<^verbatim>\<open>run\<close> frees those that are left when the program ends.

  The authentication information is one global array to which every SOCKS client keeps a pointer (\<^verbatim>\<open>BSocksClient_Init\<close> does not copy it), and
  \<^verbatim>\<open>append_source_to_username\<close> makes its second entry point to a string of the client accepted last. \<open>tl_auth\<close> is the array
  and \<open>tl_user\<close> says whose string that is. Before every step a SOCKS client sees the array as it is then; and a step that copies the
  username into a message is a fault when the client which the string belonged to, and with it the string, was freed.
\<close>

section \<open>State\<close>

datatype username_ref = UsOption | UsClient nat

record tcp_clients =
  tl_username :: "bytes option"
  tl_append :: bool
  tl_auth :: "BSocksClient_auth_info list"
  tl_user :: username_ref
  tl_clients :: "(nat \<times> relay_run) list"
  tl_num :: int
  tl_next :: nat

text \<open>
  What a call of \<^verbatim>\<open>listener_accept_func\<close> meets: the memory it gets for the client, the addresses of the connection and the second
  one printed, the results of the other allocations and of \<^verbatim>\<open>BConnector_Init\<close>, and whether the jobs it runs kill the client's \<^verbatim>\<open>dead_client\<close>.
\<close>

record tcp_accept =
  ac_mem :: "tcp_client option"
  ac_local :: BAddr
  ac_remote :: BAddr
  ac_addr_str :: bytes
  ac_string :: bool
  ac_connector :: bool
  ac_killed :: bool

section \<open>Accepting\<close>

fun concat_length :: "size_t \<Rightarrow> bytes list \<Rightarrow> size_t option" where
  "concat_length n [] = Some n"
| "concat_length n (s # ss) =
     (if word_of_nat (length s) > -1 - 1 - n then None else concat_length (n + word_of_nat (length s)) ss)"

definition concat_strings :: "bool \<Rightarrow> bytes list \<Rightarrow> bytes option" where
  "concat_strings malloc_ok strs =
     (case concat_length 0 strs of None \<Rightarrow> None | Some _ \<Rightarrow> if malloc_ok then Some (concat strs) else None)"

definition set_username :: "bytes \<Rightarrow> tcp_clients \<Rightarrow> tcp_clients" where
  "set_username u t = t\<lparr>tl_auth := (tl_auth t)[1 := (tl_auth t ! 1)\<lparr>ai_username := u\<rparr>], tl_user := UsClient (tl_next t)\<rparr>"

text \<open>The username of a new client, if it gets one of its own; \<open>None\<close> when there is no memory for it.\<close>

definition accept_username :: "tcp_accept \<Rightarrow> tcp_clients \<Rightarrow> (bytes option \<times> tcp_clients) option" where
  "accept_username a t = (case tl_username t of
       Some u \<Rightarrow>
         if tl_append t
         then map_option (\<lambda>s. (Some s, set_username s t)) (concat_strings (ac_string a) [u, [64], ac_addr_str a])
         else Some (None, t)
     | None \<Rightarrow> Some (None, t))"

definition listener_accept_func :: "BAddr \<Rightarrow> tcp_accept \<Rightarrow> tcp_clients \<Rightarrow> (err_t \<times> tcp_clients) option" where
  "listener_accept_func server a t = (case ac_mem a of
       None \<Rightarrow> Some (ERR_MEM, t)
     | Some mem \<Rightarrow>
         (case accept_username a t of
           None \<Rightarrow> Some (ERR_MEM, t)
         | Some (username, t) \<Rightarrow> do {
             (res, sc) \<leftarrow> BSocksClient_Init server (tl_auth t) (ac_local a) (ac_connector a);
             if res = 0 then Some (ERR_MEM, t\<lparr>tl_next := tl_next t + 1\<rparr>)
             else do {
               ASSERT (tl_num t \<ge> 0);
               let c = client_init mem (ac_local a) (ac_remote a) username sc;
               let t = t\<lparr>tl_clients := tl_clients t @ [(tl_next t, relay_run0 c)], tl_num := tl_num t + 1, tl_next := tl_next t + 1\<rparr>;
               Some (if ac_killed a then ERR_ABRT else ERR_OK, t)
             }
           }))"

section \<open>The list of clients\<close>

text \<open>What a SOCKS client reads through its pointer to the array.\<close>

definition with_auth :: "BSocksClient_auth_info list \<Rightarrow> relay_run \<Rightarrow> relay_run" where
  "with_auth ais s = s\<lparr>rr_run := (rr_run s)\<lparr>sr_c := (sr_c (rr_run s))\<lparr>sc_auth_info := ais\<rparr>\<rparr>,
     rr_c := map_option (\<lambda>c. c\<lparr>ct_socks_client := (ct_socks_client c)\<lparr>sc_auth_info := ais\<rparr>\<rparr>) (rr_c s)\<rparr>"

text \<open>The string that the array points to was freed: by \<^verbatim>\<open>client_dealloc\<close>, or where \<^verbatim>\<open>listener_accept_func\<close> fails.\<close>

definition username_freed :: "tcp_clients \<Rightarrow> bool" where
  "username_freed t \<longleftrightarrow> (case tl_user t of UsOption \<Rightarrow> False | UsClient i \<Rightarrow> i \<notin> fst ` set (tl_clients t))"

text \<open>The step in which the message with the username is composed: the only one that reads the string.\<close>

definition sends_username :: "relay_run \<Rightarrow> relay_run \<Rightarrow> bool" where
  "sends_username s s' \<longleftrightarrow> sc_state (sr_c (rr_run s)) \<noteq> STATE_SENDING_PASSWORD \<and> sc_state (sr_c (rr_run s')) = STATE_SENDING_PASSWORD"

text \<open>A step of one client, with what \<^verbatim>\<open>client_dealloc\<close> does to the list.\<close>

definition clients_dealloc :: "nat \<Rightarrow> tcp_clients \<Rightarrow> tcp_clients option" where
  "clients_dealloc i t = do {
     ASSERT (tl_num t > 0);
     Some (t\<lparr>tl_num := tl_num t - 1, tl_clients := filter (\<lambda>(j, _). j \<noteq> i) (tl_clients t)\<rparr>)
   }"

definition clients_step :: "nat \<Rightarrow> relay_ev \<Rightarrow> tcp_clients \<Rightarrow> tcp_clients option" where
  "clients_step i e t = do {
     r \<leftarrow> map_of (tl_clients t) i;
     let r = with_auth (tl_auth t) r;
     s \<leftarrow> relay_step r e;
     ASSERT (\<not> (sends_username r s \<and> username_freed t));
     if rr_c s = None then clients_dealloc i t
     else Some (t\<lparr>tl_clients := map (\<lambda>(j, r). (j, if j = i then s else r)) (tl_clients t)\<rparr>)
   }"

text \<open>The loop of \<^verbatim>\<open>run\<close> that frees the clients which are left.\<close>

partial_function (option) free_clients :: "tcp_clients \<Rightarrow> tcp_clients option" where
  "free_clients t = (case tl_clients t of
       [] \<Rightarrow> Some t
     | (i, s) # rest \<Rightarrow> do { t \<leftarrow> clients_step i RvMurder t; free_clients t })"

declare free_clients.simps [code]

definition clients_init :: "bytes option \<Rightarrow> bool \<Rightarrow> BSocksClient_auth_info list \<Rightarrow> tcp_clients" where
  "clients_init username app auth = \<lparr>tl_username = username, tl_append = app, tl_auth = auth, tl_user = UsOption,
     tl_clients = [], tl_num = 0, tl_next = 0\<rparr>"

section \<open>The machine\<close>

datatype clients_ev = TeAccept tcp_accept | TeClient nat relay_ev

fun tcp_step :: "BAddr \<Rightarrow> tcp_clients \<Rightarrow> clients_ev \<Rightarrow> tcp_clients option" where
  "tcp_step server t (TeAccept a) = map_option (\<lambda>(_, t). t) (listener_accept_func server a t)"
| "tcp_step server t (TeClient i e) = clients_step i e t"

fun tcp_enabled :: "tcp_clients \<Rightarrow> clients_ev \<Rightarrow> bool" where
  "tcp_enabled t (TeAccept a) \<longleftrightarrow> ip_addr (ac_local a) \<and> (case ac_mem a of None \<Rightarrow> True | Some mem \<Rightarrow> client_mem mem)"
| "tcp_enabled t (TeClient i e) \<longleftrightarrow> (case map_of (tl_clients t) i of None \<Rightarrow> False | Some s \<Rightarrow> relay_enabled s e)"

definition auth_ok :: "BSocksClient_auth_info list \<Rightarrow> bool" where
  "auth_ok ais \<longleftrightarrow> list_all (\<lambda>ai. ai_auth_type ai = SOCKS_METHOD_NO_AUTHENTICATION_REQUIRED \<or>
     ai_auth_type ai = SOCKS_METHOD_USERNAME_PASSWORD) ais"

definition relay_ok :: "BSocksClient_auth_info list \<Rightarrow> relay_run \<Rightarrow> bool" where
  "relay_ok ais s \<longleftrightarrow> rr_c s \<noteq> None \<and> (\<exists>addr. relay_inv ais addr s)"

definition tcp_inv :: "BAddr \<Rightarrow> tcp_clients \<Rightarrow> bool" where
  "tcp_inv server t \<longleftrightarrow> \<not> tl_append t \<and> tl_user t = UsOption \<and> auth_ok (tl_auth t) \<and> \<not> BAddr_IsInvalid server \<and>
     tl_num t = int (length (tl_clients t)) \<and> distinct (map fst (tl_clients t)) \<and>
     (\<forall>x\<in>set (tl_clients t). fst x < tl_next t \<and> relay_ok (tl_auth t) (snd x))"

definition tcp_init :: "BAddr \<Rightarrow> tcp_clients \<Rightarrow> bool" where
  "tcp_init server t \<longleftrightarrow> (\<exists>username auth. \<not> BAddr_IsInvalid server \<and> auth_ok auth \<and> t = clients_init username False auth)"

lemma tcp_init_inv: "tcp_init server t \<Longrightarrow> tcp_inv server t"
  by (auto simp: tcp_init_def tcp_inv_def clients_init_def)

lemma socks_init_ok:
  assumes "\<not> BAddr_IsInvalid server" "auth_ok ais" "ip_addr addr"
  shows "\<exists>sc. BSocksClient_Init server ais addr ok = Some (if ok then 1 else 0, sc)"
proof -
  have "BAddr_type addr = BADDR_TYPE_IPV4 \<or> BAddr_type addr = BADDR_TYPE_IPV6" using assms(3) by (cases addr) auto
  with assms(1,2) show ?thesis by (simp add: BSocksClient_Init_def auth_ok_def)
qed

lemma relay_start_ok:
  assumes "client_mem mem" "ip_addr addr" "BSocksClient_Init server ais addr True = Some (1, sc)"
  shows "relay_ok ais (relay_run0 (client_init mem local remote username sc))"
proof -
  have "relay_init ais addr (relay_run0 (client_init mem local remote username sc))" using assms unfolding relay_init_def by blast
  from relay_init_inv [OF this] show ?thesis by (auto simp: relay_ok_def relay_run0_def)
qed

lemma murder_frees: "client_murder c = Some (r, cs) \<Longrightarrow> r = None"
  by (auto simp: client_murder_def client_dealloc_def before_def bind_eq_Some_conv split: if_splits)

lemma accept_step:
  assumes i: "tcp_inv server t" and en: "tcp_enabled t (TeAccept a)"
  shows "\<exists>t'. tcp_step server t (TeAccept a) = Some t' \<and> tcp_inv server t'"
proof (cases "ac_mem a")
  case None
  with i show ?thesis by (simp add: listener_accept_func_def)
next
  case (Some mem)
  have m: "client_mem mem" "ip_addr (ac_local a)" using en Some by simp_all
  have au: "accept_username a t = Some (None, t)" using i by (simp add: accept_username_def tcp_inv_def split: option.splits)
  have ok: "\<not> BAddr_IsInvalid server" "auth_ok (tl_auth t)" using i unfolding tcp_inv_def by blast+
  show ?thesis
  proof (cases "ac_connector a")
    case False
    with socks_init_ok [OF ok m(2), of False] obtain sc where "BSocksClient_Init server (tl_auth t) (ac_local a) False = Some (0, sc)"
      by auto
    with Some au False have "tcp_step server t (TeAccept a) = Some (t\<lparr>tl_next := tl_next t + 1\<rparr>)" by (simp add: listener_accept_func_def)
    moreover have "tcp_inv server (t\<lparr>tl_next := tl_next t + 1\<rparr>)" using i by (auto simp: tcp_inv_def less_Suc_eq)
    ultimately show ?thesis by blast
  next
    case True
    with socks_init_ok [OF ok m(2), of True] obtain sc where
      sc: "BSocksClient_Init server (tl_auth t) (ac_local a) True = Some (1, sc)" by auto
    let ?t = "t\<lparr>tl_clients := tl_clients t @ [(tl_next t, relay_run0 (client_init mem (ac_local a) (ac_remote a) None sc))],
      tl_num := tl_num t + 1, tl_next := tl_next t + 1\<rparr>"
    have "tcp_step server t (TeAccept a) = Some ?t" using Some au True sc i by (simp add: listener_accept_func_def tcp_inv_def)
    moreover have "tcp_inv server ?t" using i relay_start_ok [OF m sc] by (auto simp: tcp_inv_def less_Suc_eq)
    ultimately show ?thesis by blast
  qed
qed

text \<open>As long as the array does not change, reading through the pointer is reading what the client was given.\<close>

lemma with_auth_inv:
  assumes "relay_inv ais addr s"
  shows "relay_inv ais addr (with_auth ais s)"
proof (cases "rr_c s")
  case None
  with assms show ?thesis by (simp add: relay_inv_def gone_def with_auth_def)
next
  case (Some c)
  note D = relay_invD [OF assms Some]
  show ?thesis
  proof (cases "ct_socks_closed c")
    case False
    then have l: "socks_inv ais addr (rr_run s)" "sr_c (rr_run s) = ct_socks_client c" using D(2) unfolding linked_def by blast+
    then have "sc_auth_info (sr_c (rr_run s)) = ais" by (simp add: socks_inv_def)
    with l(2) Some have "with_auth ais s = s" by (simp add: with_auth_def)
    with assms show ?thesis by simp
  next
    case True
    let ?c = "c\<lparr>ct_socks_client := (ct_socks_client c)\<lparr>sc_auth_info := ais\<rparr>\<rparr>"
    have "freeable ?c" using True by (simp add: freeable_def)
    then have "client_inv ?c" by (rule socks_client_inv [OF D(1)])
    moreover have "linked ais addr ?c run" for run using True by (simp add: linked_def)
    moreover have "alive (with_auth ais s) ?c" using D(3) by (simp add: alive_def with_auth_def unsent_def)
    ultimately show ?thesis by (simp add: relay_inv_def with_auth_def Some)
  qed
qed

lemma with_auth_enabled: "relay_enabled (with_auth ais s) e = relay_enabled s e"
proof (cases e)
  case (RvSocks env ev)
  then show ?thesis by (cases ev; cases "rr_c s") (simp_all add: with_auth_def)
qed (auto simp: with_auth_def split: option.splits)

lemma clients_step_ok:
  assumes i: "tcp_inv server t" and s: "map_of (tl_clients t) k = Some s" and en: "relay_enabled s e"
  shows "\<exists>s'. relay_step (with_auth (tl_auth t) s) e = Some s' \<and> (if rr_c s' = None
      then clients_step k e t = Some (t\<lparr>tl_num := tl_num t - 1, tl_clients := filter (\<lambda>(j, _). j \<noteq> k) (tl_clients t)\<rparr>)
      else clients_step k e t = Some (t\<lparr>tl_clients := map (\<lambda>(j, r). (j, if j = k then s' else r)) (tl_clients t)\<rparr>) \<and> relay_ok (tl_auth t) s')"
proof -
  have mem: "(k, s) \<in> set (tl_clients t)" using s by (rule map_of_SomeD)
  then obtain addr where "relay_inv (tl_auth t) addr s" using i unfolding tcp_inv_def relay_ok_def by force
  then have r: "relay_inv (tl_auth t) addr (with_auth (tl_auth t) s)" by (rule with_auth_inv)
  obtain s' where s': "relay_step (with_auth (tl_auth t) s) e = Some s'" "relay_inv (tl_auth t) addr s'"
    using relay.step_inv [OF r] en by (auto simp: with_auth_enabled)
  have n: "0 < tl_num t" using i mem unfolding tcp_inv_def by (metis length_pos_if_in_set of_nat_0_less_iff)
  have u: "\<not> username_freed t" using i by (simp add: tcp_inv_def username_freed_def)
  then show ?thesis using s s' n by (intro exI [of _ s']) (auto simp: clients_step_def clients_dealloc_def relay_ok_def)
qed

lemma filter_key_length:
  assumes "distinct (map fst xs)" "map_of xs k = Some s"
  shows "length xs = Suc (length (filter (\<lambda>(j, _). j \<noteq> k) xs))"
  using assms
proof (induction xs)
  case (Cons x xs)
  show ?case
  proof (cases "fst x = k")
    case True
    then have "k \<notin> fst ` set xs" using Cons.prems(1) by auto
    then have "filter (\<lambda>(j, _). j \<noteq> k) xs = xs" by (intro filter_True) force
    with True show ?thesis by (cases x) simp
  next
    case False
    with Cons show ?thesis by (cases x) simp
  qed
qed simp

lemma client_step:
  assumes i: "tcp_inv server t" and en: "tcp_enabled t (TeClient k e)"
  shows "\<exists>t'. tcp_step server t (TeClient k e) = Some t' \<and> tcp_inv server t'"
proof -
  obtain s where s: "map_of (tl_clients t) k = Some s" "relay_enabled s e" using en by (auto split: option.splits)
  from clients_step_ok [OF i s] obtain s' where s': "if rr_c s' = None
      then clients_step k e t = Some (t\<lparr>tl_num := tl_num t - 1, tl_clients := filter (\<lambda>(j, _). j \<noteq> k) (tl_clients t)\<rparr>)
      else clients_step k e t = Some (t\<lparr>tl_clients := map (\<lambda>(j, r). (j, if j = k then s' else r)) (tl_clients t)\<rparr>) \<and> relay_ok (tl_auth t) s'"
    by blast
  have d: "distinct (map fst (tl_clients t))" "tl_num t = int (length (tl_clients t))" using i unfolding tcp_inv_def by blast+
  show ?thesis
  proof (cases "rr_c s' = None")
    case True
    have "tcp_inv server (t\<lparr>tl_num := tl_num t - 1, tl_clients := filter (\<lambda>(j, _). j \<noteq> k) (tl_clients t)\<rparr>)"
      using i filter_key_length [OF d(1) s(1)] by (auto simp: tcp_inv_def distinct_map_filter)
    with s' True show ?thesis by simp
  next
    case False
    let ?xs = "map (\<lambda>(j, r). (j, if j = k then s' else r)) (tl_clients t)"
    have "map fst ?xs = map fst (tl_clients t)" by auto
    then have "distinct (map fst ?xs)" using d(1) by (simp only:)
    moreover have "\<forall>x\<in>set ?xs. fst x < tl_next t \<and> relay_ok (tl_auth t) (snd x)" using i s' False unfolding tcp_inv_def by auto
    ultimately have "tcp_inv server (t\<lparr>tl_clients := ?xs\<rparr>)" using i d(2) unfolding tcp_inv_def by (simp del: map_map)
    with s' False show ?thesis by simp
  qed
qed

interpretation tcp: machine "tcp_init server" "tcp_step server" tcp_enabled "tcp_inv server" for server
proof
  show "\<exists>t'. tcp_step server t e = Some t' \<and> tcp_inv server t'" if "tcp_inv server t" "tcp_enabled t e" for t e
    using that by (cases e) (metis accept_step client_step)+
qed (rule tcp_init_inv)

lemma free_clients_ends:
  assumes "tcp_inv server t"
  shows "\<exists>t'. free_clients t = Some t' \<and> tl_clients t' = [] \<and> tl_num t' = 0"
  using assms
proof (induction "length (tl_clients t)" arbitrary: t)
  case 0
  then show ?case by (subst free_clients.simps) (simp add: tcp_inv_def)
next
  case (Suc n)
  then obtain k s rest where t: "tl_clients t = (k, s) # rest" by (metis length_Suc_conv surj_pair)
  have s: "map_of (tl_clients t) k = Some s" by (simp add: t)
  obtain c addr where r: "rr_c s = Some c" "relay_inv (tl_auth t) addr s"
    using Suc.prems t unfolding tcp_inv_def relay_ok_def by auto
  have en: "relay_enabled s RvMurder" using r(1) by simp
  have "relay_enabled (with_auth (tl_auth t) s) RvMurder" using en by (simp only: with_auth_enabled)
  then obtain s' where "relay_step (with_auth (tl_auth t) s) RvMurder = Some s'" "rr_c s' = None"
    using murder_step [OF with_auth_inv [OF r(2)]] by blast
  then have st: "clients_step k RvMurder t = Some (t\<lparr>tl_num := tl_num t - 1, tl_clients := filter (\<lambda>(j, _). j \<noteq> k) (tl_clients t)\<rparr>)"
    (is "_ = Some ?t") using clients_step_ok [OF Suc.prems s en] by auto
  have "tcp_enabled t (TeClient k RvMurder)" using s en by simp
  then have i: "tcp_inv server ?t" using client_step [OF Suc.prems] st by fastforce
  have "distinct (map fst (tl_clients t))" using Suc.prems unfolding tcp_inv_def by blast
  from filter_key_length [OF this s] Suc.hyps(2) have "n = length (tl_clients ?t)" by simp
  from Suc.hyps(1) [OF this i] st t show ?case by (subst free_clients.simps) simp
qed

section \<open>Properties\<close>

text \<open>
  C37. For a program that runs without \<^verbatim>\<open>append_source_to_username\<close> (with it, a freed string can be read: C39): however connections are accepted and
  end, \<^verbatim>\<open>num_clients\<close> is the number of clients in the list, no client is in it twice, and no assertion of a client or of the list
  fails. When the program ends, the loop that frees the clients which are left terminates, whatever state they are in, with an empty list.
\<close>

theorem tcp_clients_all_freed:
  assumes "\<not> BAddr_IsInvalid server" "auth_ok auth"
    and "admissible tcp_enabled (tcp_step server) (clients_init username False auth) evs"
  shows "\<exists>t t'. exec (tcp_step server) (clients_init username False auth) evs = Some t \<and>
    tl_num t = int (length (tl_clients t)) \<and> distinct (map fst (tl_clients t)) \<and>
    free_clients t = Some t' \<and> tl_clients t' = [] \<and> tl_num t' = 0"
proof -
  have "tcp_init server (clients_init username False auth)" using assms(1,2) unfolding tcp_init_def by blast
  from tcp.run_safe [OF this assms(3)] obtain t where
    t: "exec (tcp_step server) (clients_init username False auth) evs = Some t" "tcp_inv server t" by blast
  moreover have "tl_num t = int (length (tl_clients t))" "distinct (map fst (tl_clients t))" using t(2) unfolding tcp_inv_def by blast+
  ultimately show ?thesis using free_clients_ends [OF t(2)] by blast
qed

definition accept_example :: "bytes \<Rightarrow> tcp_accept" where
  "accept_example str = \<lparr>ac_mem = Some relay_example_client, ac_local = BAddr_IPV4 0 0, ac_remote = BAddr_IPV4 1 2, ac_addr_str = str,
     ac_string = True, ac_connector = True, ac_killed = False\<rparr>"

definition auth_example :: "BSocksClient_auth_info list" where
  "auth_example = [BSocksClient_auth_none, BSocksClient_auth_password [7] [8, 9]]"

lemma auth_example_ok: "auth_ok auth_example"
  by (simp add: auth_ok_def auth_example_def BSocksClient_auth_none_def BSocksClient_auth_password_def)

lemma accept_example_eq:
  assumes "auth_ok (tl_auth t)" "0 \<le> tl_num t" "accept_username (accept_example str) t = Some (u, t1)" "tl_num t1 = tl_num t" "auth_ok (tl_auth t1)"
  shows "\<exists>sc. BSocksClient_Init (BAddr_IPV4 1 2) (tl_auth t1) (BAddr_IPV4 0 0) True = Some (1, sc) \<and>
    listener_accept_func (BAddr_IPV4 1 2) (accept_example str) t = Some (ERR_OK,
      t1\<lparr>tl_clients := tl_clients t1 @ [(tl_next t1, relay_run0 (client_init relay_example_client (BAddr_IPV4 0 0) (BAddr_IPV4 1 2) u sc))],
        tl_num := tl_num t1 + 1, tl_next := tl_next t1 + 1\<rparr>)"
proof -
  have "\<not> BAddr_IsInvalid (BAddr_IPV4 1 2)" by (simp add: BAddr_IsInvalid_def)
  from socks_init_ok [OF this assms(5), of "BAddr_IPV4 0 0" True] obtain sc where
    "BSocksClient_Init (BAddr_IPV4 1 2) (tl_auth t1) (BAddr_IPV4 0 0) True = Some (1, sc)" by auto
  with assms(2-4) show ?thesis by (simp add: listener_accept_func_def accept_example_def)
qed

lemma accept_example_clients:
  "\<exists>t sc. tcp_step (BAddr_IPV4 1 2) (clients_init None False auth_example) (TeAccept (accept_example [])) = Some t \<and>
    tl_clients t = [(0, relay_run0 (client_init relay_example_client (BAddr_IPV4 0 0) (BAddr_IPV4 1 2) None sc))]"
proof -
  let ?t = "clients_init None False auth_example"
  have u: "accept_username (accept_example []) ?t = Some (None, ?t)" by (simp add: accept_username_def clients_init_def)
  have "auth_ok (tl_auth ?t)" "0 \<le> tl_num ?t" using auth_example_ok by (simp_all add: clients_init_def)
  from accept_example_eq [OF this u _ this(1)] show ?thesis by (auto simp: clients_init_def)
qed

theorem tcp_clients_all_freed_witness:
  "\<exists>t t'. exec (tcp_step (BAddr_IPV4 1 2)) (clients_init None False auth_example)
      [TeAccept (accept_example []), TeClient 0 (RvErr (relay_env 1))] = Some t \<and>
    tl_num t = int (length (tl_clients t)) \<and> distinct (map fst (tl_clients t)) \<and>
    free_clients t = Some t' \<and> tl_clients t' = [] \<and> tl_num t' = 0"
proof (rule tcp_clients_all_freed [OF _ auth_example_ok])
  show "\<not> BAddr_IsInvalid (BAddr_IPV4 1 2)" by (simp add: BAddr_IsInvalid_def)
  have "tcp_enabled (clients_init None False auth_example) (TeAccept (accept_example []))"
    using relay_example_given by (simp add: accept_example_def)
  with accept_example_clients show "admissible tcp_enabled (tcp_step (BAddr_IPV4 1 2)) (clients_init None False auth_example)
      [TeAccept (accept_example []), TeClient 0 (RvErr (relay_env 1))]"
    by (auto simp: relay_run0_def client_init_def split: option.splits)
qed

text \<open>
  C38. \<^verbatim>\<open>listener_accept_func\<close> refuses a connection with \<^verbatim>\<open>ERR_MEM\<close> exactly when one of its allocations or the connector fails, and then leaves the list as
  it was. Otherwise the list ends with a new client, whose SOCKS client is to connect to the very address that the accepted connection was made to.
\<close>

theorem tcp_accept_reports:
  assumes "listener_accept_func server a t = Some (e, t')"
  shows "(e = ERR_MEM) = (ac_mem a = None \<or> \<not> ac_connector a \<or> accept_username a t = None) \<and>
    (if e = ERR_MEM then tl_clients t' = tl_clients t \<and> tl_num t' = tl_num t
     else \<exists>s c. tl_clients t' = tl_clients t @ [(tl_next t, s)] \<and> tl_num t' = tl_num t + 1 \<and> rr_c s = Some c \<and>
       rr_run s = socks_run0 (ct_socks_client c) \<and> sc_dest_addr (ct_socks_client c) = ac_local a \<and>
       sc_state (ct_socks_client c) = STATE_CONNECTING)"
proof (cases "ac_mem a = None \<or> accept_username a t = None")
  case True
  with assms show ?thesis by (auto simp: listener_accept_func_def split: option.splits)
next
  case False
  then obtain mem u t1 where m: "ac_mem a = Some mem" "accept_username a t = Some (u, t1)" by auto
  have t1: "tl_clients t1 = tl_clients t" "tl_num t1 = tl_num t" "tl_next t1 = tl_next t"
    using m(2) by (auto simp: accept_username_def set_username_def split: option.splits if_splits)
  obtain r sc where sc: "BSocksClient_Init server (tl_auth t1) (ac_local a) (ac_connector a) = Some (r, sc)"
    using assms m by (cases "BSocksClient_Init server (tl_auth t1) (ac_local a) (ac_connector a)") (auto simp: listener_accept_func_def)
  then have "r = (if ac_connector a then 1 else 0)" "sc_dest_addr sc = ac_local a" "sc_state sc = STATE_CONNECTING"
    by (auto simp: BSocksClient_Init_def Let_def)
  with assms m t1 sc show ?thesis
    by (cases "ac_connector a") (auto simp: listener_accept_func_def relay_run0_def client_init_def Let_def split: if_splits)
qed

theorem tcp_accept_reports_witness:
  "\<exists>e t'. listener_accept_func (BAddr_IPV4 1 2) (accept_example [])  (clients_init None False auth_example) = Some (e, t') \<and>
    (e = ERR_MEM) = (ac_mem (accept_example []) = None \<or> \<not> ac_connector (accept_example []) \<or>
      accept_username (accept_example []) (clients_init None False auth_example) = None)"
proof -
  obtain t where "tcp_step (BAddr_IPV4 1 2) (clients_init None False auth_example) (TeAccept (accept_example [])) = Some t"
    using accept_example_clients by blast
  then obtain e where e: "listener_accept_func (BAddr_IPV4 1 2) (accept_example []) (clients_init None False auth_example) = Some (e, t)"
    by auto
  show ?thesis by (intro exI conjI, rule e, rule tcp_accept_reports [OF e, THEN conjunct1])
qed






text \<open>The same array is left with a freed string when the SOCKS client of a connection cannot be made (\<^verbatim>\<open>fail1\<close>).\<close>

lemma tcp_failed_accept_frees:
  assumes "tl_username t = Some u" "tl_append t" "length (tl_auth t) = 2" "\<forall>z\<in>set (tl_clients t). fst z < tl_next t"
    and "listener_accept_func server a t = Some (ERR_MEM, t')" "ac_mem a \<noteq> None" "accept_username a t \<noteq> None"
  shows "username_freed t'"
proof -
  obtain s where s: "accept_username a t = Some (Some s, set_username s t)"
    using assms(1,2,7) by (auto simp: accept_username_def)
  obtain sc where "BSocksClient_Init server (tl_auth (set_username s t)) (ac_local a) (ac_connector a) = Some (0, sc)"
    "t' = (set_username s t)\<lparr>tl_next := tl_next (set_username s t) + 1\<rparr>"
    using assms(5,6) s by (auto simp: listener_accept_func_def bind_eq_Some_conv Let_def split: if_splits)
  then show ?thesis using assms(4) by (auto simp: username_freed_def set_username_def)
qed







end
