(* ===== verification/AvlTree.thy ===== *)
theory AvlTree
  imports SearchTree
begin

text \<open>
  AVL trees with balance factors, as the trees that structure/BAVL.h keeps in memory: nodes are identified by their address, a place in a
  tree is a subtree with the path above it. The rebalancing of \<^verbatim>\<open>_BAVL_rebalance\<close> on them, with what it does to heights and to the
  order of the nodes. Theory BAVL relates the memory to these trees.
\<close>

section \<open>Trees and paths\<close>

datatype avl = Lf | Nd avl nat int avl

fun inord :: "avl \<Rightarrow> nat list" where
  "inord Lf = []"
| "inord (Nd l n b r) = inord l @ n # inord r"

fun ht :: "avl \<Rightarrow> int" where
  "ht Lf = 0"
| "ht (Nd l n b r) = max (ht l) (ht r) + 1"

fun avl_ok :: "avl \<Rightarrow> bool" where
  "avl_ok Lf = True"
| "avl_ok (Nd l n b r) \<longleftrightarrow> b = ht r - ht l \<and> -1 \<le> b \<and> b \<le> 1 \<and> avl_ok l \<and> avl_ok r"

text \<open>A node whose subtree on the side \<open>sd\<close> is \<open>t\<close> and on the other side \<open>u\<close>; \<open>True\<close> is the right side.\<close>

definition nd :: "bool \<Rightarrow> avl \<Rightarrow> nat \<Rightarrow> int \<Rightarrow> avl \<Rightarrow> avl" where
  "nd sd t n b u = (if sd then Nd u n b t else Nd t n b u)"

lemma nd_simps [simp]: "nd False t n b u = Nd t n b u" "nd True t n b u = Nd u n b t"
  by (simp_all add: nd_def)

type_synonym path = "(bool \<times> nat \<times> int \<times> avl) list"

fun plug :: "path \<Rightarrow> avl \<Rightarrow> avl" where
  "plug [] t = t"
| "plug ((sd, x, b, u) # ps) t = plug ps (nd sd t x b u)"

fun before_hole :: "path \<Rightarrow> nat list" where
  "before_hole [] = []"
| "before_hole ((sd, x, b, u) # ps) = before_hole ps @ (if sd then inord u @ [x] else [])"

fun after_hole :: "path \<Rightarrow> nat list" where
  "after_hole [] = []"
| "after_hole ((sd, x, b, u) # ps) = (if sd then [] else x # inord u) @ after_hole ps"

lemma inord_plug: "inord (plug ps t) = before_hole ps @ inord t @ after_hole ps"
  by (induction ps t rule: plug.induct) (auto simp: nd_def)

text \<open>The path is balanced for a subtree of height \<open>h\<close> at its end.\<close>

fun path_ok :: "path \<Rightarrow> int \<Rightarrow> bool" where
  "path_ok [] h = True"
| "path_ok ((sd, x, b, u) # ps) h \<longleftrightarrow> b = (if sd then h - ht u else ht u - h) \<and> -1 \<le> b \<and> b \<le> 1 \<and> avl_ok u \<and>
     path_ok ps (max h (ht u) + 1)"

lemma avl_ok_plug: "avl_ok (plug ps t) \<longleftrightarrow> avl_ok t \<and> path_ok ps (ht t)"
  by (induction ps t rule: plug.induct) (auto simp: nd_def max.commute)

lemma ht_nonneg [simp]: "0 \<le> ht t"
  by (induction t) auto

section \<open>Rebalancing\<close>

text \<open>The change of height of a node, and its new balance, when its subtree on the side \<open>sd\<close> has changed its height by \<open>d\<close>.\<close>

definition opt_neg :: "int \<Rightarrow> bool \<Rightarrow> int" where
  "opt_neg a neg = (if neg then - a else a)"

definition height_change :: "int \<Rightarrow> bool \<Rightarrow> int \<Rightarrow> int" where
  "height_change b sd d = max d (opt_neg b sd) - max 0 (opt_neg b sd)"

text \<open>
  The transformations for a node \<open>x\<close> that is too heavy on the side \<open>sd\<close> with the sign \<open>f\<close>: the resulting subtree and whether its height is
  one less.
\<close>

fun rotated :: "bool \<Rightarrow> int \<Rightarrow> nat \<Rightarrow> avl \<Rightarrow> avl \<Rightarrow> (avl \<times> int) option" where
  "rotated sd f x (Nd cl c cb cr) u = (let inner = (if sd then cl else cr); outer = (if sd then cr else cl) in
     if cb * f = 1 then Some (nd sd outer c 0 (nd sd inner x 0 u), 1)
     else if cb * f = 0 then Some (nd sd outer c (-1 * f) (nd sd inner x (1 * f) u), 0)
     else if cb * f = -1 then
       (case inner of
         Lf \<Rightarrow> None
       | Nd gl g gb gr \<Rightarrow>
           Some (nd sd (nd sd outer c (max 0 (- (gb * f)) * f) (if sd then gr else gl)) g 0
             (nd sd (if sd then gl else gr) x (- max 0 (gb * f) * f) u), 1))
     else None)"
| "rotated sd f x Lf u = None"

lemma rotated_right:
  assumes "avl_ok t" "avl_ok u" "ht t = ht u + 2"
  shows "\<exists>t' k. rotated True 1 x t u = Some (t', k) \<and> avl_ok t' \<and> inord t' = inord u @ x # inord t \<and>
    ht t' = ht t + 1 - k \<and> 0 \<le> k \<and> k \<le> 1"
proof (cases t)
  case Lf
  then show ?thesis using assms(3) ht_nonneg [of u] by simp
next
  case (Nd cl c cb cr)
  consider "cb = 1" | "cb = 0" | "cb = -1" using assms(1) Nd by (auto simp: le_less)
  then show ?thesis
  proof cases
    case 3
    then obtain gl g gb gr where "cl = avl.Nd gl g gb gr" using assms(1) Nd ht_nonneg [of cr] by (cases cl) auto
    with 3 Nd assms show ?thesis by (auto simp: max_def split: if_splits)
  qed (use Nd assms in \<open>auto simp: max_def split: if_splits\<close>)
qed

lemma rotated_left:
  assumes "avl_ok t" "avl_ok u" "ht t = ht u + 2"
  shows "\<exists>t' k. rotated False (-1) x t u = Some (t', k) \<and> avl_ok t' \<and> inord t' = inord t @ x # inord u \<and>
    ht t' = ht t + 1 - k \<and> 0 \<le> k \<and> k \<le> 1"
proof (cases t)
  case Lf
  then show ?thesis using assms(3) ht_nonneg [of u] by simp
next
  case (Nd cl c cb cr)
  consider "cb = 1" | "cb = 0" | "cb = -1" using assms(1) Nd by (auto simp: le_less)
  then show ?thesis
  proof cases
    case 1
    then obtain gl g gb gr where "cr = avl.Nd gl g gb gr" using assms(1) Nd ht_nonneg [of cl] by (cases cr) auto
    with 1 Nd assms show ?thesis by (auto simp: max_def split: if_splits)
  qed (use Nd assms in \<open>auto simp: max_def split: if_splits\<close>)
qed

lemma height_change_range:
  assumes "-1 \<le> d" "d \<le> 1"
  shows "-1 \<le> height_change b sd d" "height_change b sd d \<le> 1"
  using assms by (auto simp: height_change_def)

text \<open>One step of the rebalancing, for a node \<open>x\<close> whose subtree \<open>t\<close> on the side \<open>sd\<close> is now higher by \<open>d\<close>.\<close>

lemma rebalance_step:
  fixes sd :: bool and t u :: avl and b d :: int
  defines "b' \<equiv> b - opt_neg d sd" and "h \<equiv> height_change b sd d" and "l \<equiv> if sd then u else t" and "r \<equiv> if sd then t else u"
  assumes t: "avl_ok t" and ps: "path_ok ((sd, x, b, u) # ps) (ht t - d)" and d: "-1 \<le> d" "d \<le> 1"
  obtains (heavy_right) t' k where "b' = 2" "rotated True 1 x r l = Some (t', k)" "avl_ok t'" "inord t' = inord l @ x # inord r"
      "path_ok ps (ht t' - (h - k))" "-1 \<le> h - k" "h - k \<le> 1"
  | (heavy_left) t' k where "b' = -2" "rotated False (-1) x l r = Some (t', k)" "avl_ok t'" "inord t' = inord l @ x # inord r"
      "path_ok ps (ht t' - (h - k))" "-1 \<le> h - k" "h - k \<le> 1"
  | (fine) "-1 \<le> b'" "b' \<le> 1" "avl_ok (Nd l x b' r)" "path_ok ps (ht (Nd l x b' r) - h)" "-1 \<le> h" "h \<le> 1"
proof -
  have p: "b = (if sd then ht t - d - ht u else ht u - (ht t - d))" "-1 \<le> b" "b \<le> 1" "avl_ok u" "path_ok ps (max (ht t - d) (ht u) + 1)"
    using ps by simp_all
  have ok2: "avl_ok l" "avl_ok r" using t p(4) by (simp_all add: l_def r_def)
  have b': "b' = ht r - ht l" using p(1) by (auto simp: b'_def opt_neg_def l_def r_def)
  have h: "h = max (ht t) (ht u) - max (ht t - d) (ht u)" using p(1) by (auto simp: h_def height_change_def opt_neg_def max_def)
  consider "b' = 2" | "b' = -2" | "-1 \<le> b'" "b' \<le> 1"
    using p(2,3) d unfolding b'_def opt_neg_def by (cases sd) (simp_all, linarith+)
  then show thesis
  proof cases
    case 1
    then have e: "ht r = ht l + 2" using b' by simp
    from rotated_right [OF ok2(2,1) this, of x] obtain t' k where
      t': "rotated True 1 x r l = Some (t', k)" "avl_ok t'" "inord t' = inord l @ x # inord r" "ht t' = ht r + 1 - k" "0 \<le> k" "k \<le> 1"
      by blast
    have mx: "ht r = max (ht t) (ht u)" using e by (auto simp: max_def l_def r_def split: if_splits)
    have "ht t' - (h - k) = max (ht t - d) (ht u) + 1" using t'(4) h mx by linarith
    then have ho: "path_ok ps (ht t' - (h - k))" using p(5) by (simp only:)
    have hk: "-1 \<le> h - k" "h - k \<le> 1"
      using p(1-3) e h t'(5,6) d by (auto simp: max_def l_def r_def split: if_splits)
    show thesis by (rule heavy_right [OF 1 t'(1-3) ho hk])
  next
    case 2
    then have e: "ht l = ht r + 2" using b' by simp
    from rotated_left [OF ok2 this, of x] obtain t' k where
      t': "rotated False (-1) x l r = Some (t', k)" "avl_ok t'" "inord t' = inord l @ x # inord r" "ht t' = ht l + 1 - k" "0 \<le> k" "k \<le> 1"
      by blast
    have mx: "ht l = max (ht t) (ht u)" using e by (auto simp: max_def l_def r_def split: if_splits)
    have "ht t' - (h - k) = max (ht t - d) (ht u) + 1" using t'(4) h mx by linarith
    then have ho: "path_ok ps (ht t' - (h - k))" using p(5) by (simp only:)
    have hk: "-1 \<le> h - k" "h - k \<le> 1"
      using p(1-3) e h t'(5,6) d by (auto simp: max_def l_def r_def split: if_splits)
    show thesis by (rule heavy_left [OF 2 t'(1-3) ho hk])
  next
    case 3
    have "avl_ok (Nd l x b' r)" using 3 b' ok2 by simp
    moreover have "ht (Nd l x b' r) - h = max (ht t - d) (ht u) + 1" using h by (simp add: max.commute l_def r_def)
    with p(5) have "path_ok ps (ht (Nd l x b' r) - h)" by (simp only:)
    moreover have "-1 \<le> h" "h \<le> 1" using height_change_range [OF d] by (simp_all add: h_def)
    ultimately show thesis using 3 by (intro fine)
  qed
qed

text \<open>The height is logarithmic in the number of nodes.\<close>

lemma avl_height:
  "avl_ok t \<Longrightarrow> 2 ^ (nat (ht t) div 2) \<le> length (inord t) + 1"
proof (induction t rule: measure_induct_rule [of "\<lambda>t. length (inord t)"])
  case (less t)
  show ?case
  proof (cases t)
    case (Nd l n b r)
    have ok: "avl_ok l" "avl_ok r" "-1 \<le> ht r - ht l" "ht r - ht l \<le> 1" using less.prems by (simp_all add: Nd)
    have ge: "nat (ht t) - 2 \<le> nat (ht l)" "nat (ht t) - 2 \<le> nat (ht r)" using ok(3,4) by (auto simp: Nd max_def)
    have "2 ^ (nat (ht l) div 2) \<le> length (inord l) + 1" "2 ^ (nat (ht r) div 2) \<le> length (inord r) + 1"
      using less.IH ok by (simp_all add: Nd)
    moreover have "(2::nat) ^ ((nat (ht t) - 2) div 2) \<le> 2 ^ (nat (ht l) div 2)" "(2::nat) ^ ((nat (ht t) - 2) div 2) \<le> 2 ^ (nat (ht r) div 2)"
      using ge by (simp_all add: div_le_mono)
    moreover have "length (inord t) + 1 = (length (inord l) + 1) + (length (inord r) + 1)" by (simp add: Nd)
    ultimately have s: "2 ^ ((nat (ht t) - 2) div 2) + 2 ^ ((nat (ht t) - 2) div 2) \<le> length (inord t) + 1" by linarith
    show ?thesis
    proof (cases "nat (ht t) < 2")
      case False
      then have "nat (ht t) div 2 = Suc ((nat (ht t) - 2) div 2)" by linarith
      with s show ?thesis by simp
    qed simp
  qed simp
qed

end
