(* ===== verification/BAVL.thy ===== *)
theory BAVL
  imports AvlTree
begin

text \<open>
  structure/BAVL.h in memory: nodes with a parent, two links and a balance factor, found by their address. A node that is not in
  \<open>av_nodes\<close> cannot be read (\<open>None\<close> is the fault). The comparator is a parameter: it may read memory that the tree does not own. The
  option \<^verbatim>\<open>BAVL_COUNT\<close> is off, as in the program.
\<close>

section \<open>Nodes\<close>

record BAVLNode =
  nd_parent :: "nat option"
  nd_left :: "nat option"
  nd_right :: "nat option"
  nd_balance :: int

record BAVL =
  av_root :: "nat option"
  av_nodes :: "nat \<rightharpoonup> BAVLNode"

text \<open>\<^verbatim>\<open>n->link[side]\<close> and the other fields, read and written.\<close>

definition link :: "bool \<Rightarrow> BAVLNode \<Rightarrow> nat option" where
  "link side x = (if side then nd_right x else nd_left x)"

definition with_link :: "bool \<Rightarrow> nat option \<Rightarrow> BAVLNode \<Rightarrow> BAVLNode" where
  "with_link side v x = (if side then x\<lparr>nd_right := v\<rparr> else x\<lparr>nd_left := v\<rparr>)"

definition get_link :: "nat \<Rightarrow> bool \<Rightarrow> BAVL \<Rightarrow> nat option option" where
  "get_link n side s = map_option (link side) (av_nodes s n)"

definition get_parent :: "nat \<Rightarrow> BAVL \<Rightarrow> nat option option" where
  "get_parent n s = map_option nd_parent (av_nodes s n)"

definition get_balance :: "nat \<Rightarrow> BAVL \<Rightarrow> int option" where
  "get_balance n s = map_option nd_balance (av_nodes s n)"

definition upd_node :: "nat \<Rightarrow> (BAVLNode \<Rightarrow> BAVLNode) \<Rightarrow> BAVL \<Rightarrow> BAVL option" where
  "upd_node n f s = map_option (\<lambda>x. s\<lparr>av_nodes := (av_nodes s)(n \<mapsto> f x)\<rparr>) (av_nodes s n)"

definition set_link :: "nat \<Rightarrow> bool \<Rightarrow> nat option \<Rightarrow> BAVL \<Rightarrow> BAVL option" where
  "set_link n side v = upd_node n (with_link side v)"

definition set_parent :: "nat \<Rightarrow> nat option \<Rightarrow> BAVL \<Rightarrow> BAVL option" where
  "set_parent n v = upd_node n (nd_parent_update (\<lambda>_. v))"

definition set_balance :: "nat \<Rightarrow> int \<Rightarrow> BAVL \<Rightarrow> BAVL option" where
  "set_balance n v = upd_node n (nd_balance_update (\<lambda>_. v))"

text \<open>\<^verbatim>\<open>if (x) x->parent = p\<close>, and putting \<open>new\<close> where \<open>old\<close> hangs below its parent \<open>p\<close> or is the root.\<close>

definition set_child_parent :: "nat option \<Rightarrow> nat option \<Rightarrow> BAVL \<Rightarrow> BAVL option" where
  "set_child_parent x p s = (case x of None \<Rightarrow> Some s | Some n \<Rightarrow> set_parent n p s)"

definition put_below :: "nat option \<Rightarrow> nat \<Rightarrow> nat option \<Rightarrow> BAVL \<Rightarrow> BAVL option" where
  "put_below p old new s = (case p of
       None \<Rightarrow> Some (s\<lparr>av_root := new\<rparr>)
     | Some q \<Rightarrow> do { l \<leftarrow> get_link q True s; set_link q (l = Some old) new s })"

definition BAVL_compare :: "('k \<Rightarrow> nat \<Rightarrow> int) \<Rightarrow> 'k \<Rightarrow> nat \<Rightarrow> int option" where
  "BAVL_compare cmp k n = do {
     let res = cmp k n;
     ASSERT (res = -1 \<or> res = 0 \<or> res = 1);
     Some res
   }"

section \<open>Operations\<close>

definition BAVL_Init :: "(nat \<rightharpoonup> BAVLNode) \<Rightarrow> BAVL" where
  "BAVL_Init mem = \<lparr>av_root = None, av_nodes = mem\<rparr>"

definition BAVL_rotate :: "nat \<Rightarrow> bool \<Rightarrow> BAVL \<Rightarrow> BAVL option" where
  "BAVL_rotate r dir s = do {
     x \<leftarrow> get_link r (\<not> dir) s;
     nr \<leftarrow> x;
     x \<leftarrow> get_link nr dir s;
     s \<leftarrow> set_link r (\<not> dir) x s;
     s \<leftarrow> set_child_parent x (Some r) s;
     s \<leftarrow> set_link nr dir (Some r) s;
     p \<leftarrow> get_parent r s;
     s \<leftarrow> set_parent nr p s;
     s \<leftarrow> put_below p r (Some nr) s;
     set_parent r (Some nr) s
   }"

partial_function (option) BAVL_subtree_max :: "BAVL \<Rightarrow> nat \<Rightarrow> nat option" where
  "BAVL_subtree_max s n = do {
     r \<leftarrow> get_link n True s;
     (case r of None \<Rightarrow> Some n | Some m \<Rightarrow> BAVL_subtree_max s m)
   }"

definition BAVL_replace_subtree :: "nat \<Rightarrow> nat option \<Rightarrow> BAVL \<Rightarrow> BAVL option" where
  "BAVL_replace_subtree dest n s = do {
     p \<leftarrow> get_parent dest s;
     s \<leftarrow> put_below p dest n s;
     set_child_parent n p s
   }"

definition swap_adjacent :: "nat \<Rightarrow> nat \<Rightarrow> BAVL \<Rightarrow> BAVL option" where
  "swap_adjacent n1 n2 s = do {
     r \<leftarrow> get_link n1 True s;
     let side = (r = Some n2);
     c \<leftarrow> get_link n1 (\<not> side) s;
     x \<leftarrow> get_link n2 False s;
     s \<leftarrow> set_link n1 False x s;
     s \<leftarrow> set_child_parent x (Some n1) s;
     x \<leftarrow> get_link n2 True s;
     s \<leftarrow> set_link n1 True x s;
     s \<leftarrow> set_child_parent x (Some n1) s;
     p \<leftarrow> get_parent n1 s;
     s \<leftarrow> set_parent n2 p s;
     s \<leftarrow> put_below p n1 (Some n2) s;
     s \<leftarrow> set_link n2 side (Some n1) s;
     s \<leftarrow> set_parent n1 (Some n2) s;
     s \<leftarrow> set_link n2 (\<not> side) c s;
     set_child_parent c (Some n2) s
   }"

definition swap_links :: "nat \<Rightarrow> nat \<Rightarrow> bool \<Rightarrow> BAVL \<Rightarrow> BAVL option" where
  "swap_links n1 n2 side s = do {
     temp \<leftarrow> get_link n1 side s;
     x \<leftarrow> get_link n2 side s;
     s \<leftarrow> set_link n1 side x s;
     s \<leftarrow> set_child_parent x (Some n1) s;
     s \<leftarrow> set_link n2 side temp s;
     set_child_parent temp (Some n2) s
   }"

definition swap_apart :: "nat \<Rightarrow> nat \<Rightarrow> BAVL \<Rightarrow> BAVL option" where
  "swap_apart n1 n2 s = do {
     temp \<leftarrow> get_parent n1 s;
     p2 \<leftarrow> get_parent n2 s;
     s \<leftarrow> set_parent n1 p2 s;
     s \<leftarrow> put_below p2 n2 (Some n1) s;
     s \<leftarrow> set_parent n2 temp s;
     s \<leftarrow> put_below temp n1 (Some n2) s;
     s \<leftarrow> swap_links n1 n2 False s;
     swap_links n1 n2 True s
   }"

definition BAVL_swap_nodes :: "nat \<Rightarrow> nat \<Rightarrow> BAVL \<Rightarrow> BAVL option" where
  "BAVL_swap_nodes n1 n2 s = do {
     p1 \<leftarrow> get_parent n1 s;
     p2 \<leftarrow> get_parent n2 s;
     s \<leftarrow> (if p2 = Some n1 \<or> p1 = Some n2
       then if p1 = Some n2 then swap_adjacent n2 n1 s else swap_adjacent n1 n2 s
       else swap_apart n1 n2 s);
     b1 \<leftarrow> get_balance n1 s;
     b2 \<leftarrow> get_balance n2 s;
     s \<leftarrow> set_balance n1 b2 s;
     set_balance n2 b1 s
   }"

text \<open>
  The transformations of \<^verbatim>\<open>_BAVL_rebalance\<close> for a node that is too heavy on \<open>bside\<close>; the result is the node that takes its place and the change
  of height.
\<close>

definition BAVL_transform :: "nat \<Rightarrow> bool \<Rightarrow> int \<Rightarrow> BAVL \<Rightarrow> (nat \<times> int \<times> BAVL) option" where
  "BAVL_transform node bside delta s = do {
     let bsidef = (if bside then 1 else -1);
     x \<leftarrow> get_link node bside s;
     child \<leftarrow> x;
     cb \<leftarrow> get_balance child s;
     if cb * bsidef = 1 then do {
       s \<leftarrow> BAVL_rotate node (\<not> bside) s;
       s \<leftarrow> set_balance node 0 s;
       s \<leftarrow> set_balance child 0 s;
       Some (child, delta - 1, s)
     }
     else if cb * bsidef = 0 then do {
       s \<leftarrow> BAVL_rotate node (\<not> bside) s;
       s \<leftarrow> set_balance node (1 * bsidef) s;
       s \<leftarrow> set_balance child (-1 * bsidef) s;
       Some (child, delta, s)
     }
     else if cb * bsidef = -1 then do {
       x \<leftarrow> get_link child (\<not> bside) s;
       gchild \<leftarrow> x;
       s \<leftarrow> BAVL_rotate child bside s;
       s \<leftarrow> BAVL_rotate node (\<not> bside) s;
       gb \<leftarrow> get_balance gchild s;
       s \<leftarrow> set_balance node (- max 0 (gb * bsidef) * bsidef) s;
       s \<leftarrow> set_balance child (max 0 (- (gb * bsidef)) * bsidef) s;
       s \<leftarrow> set_balance gchild 0 s;
       Some (gchild, delta - 1, s)
     }
     else None
   }"

partial_function (option) BAVL_rebalance :: "nat \<Rightarrow> bool \<Rightarrow> int \<Rightarrow> BAVL \<Rightarrow> BAVL option" where
  "BAVL_rebalance node side deltac s = do {
     ASSERT (-1 \<le> deltac \<and> deltac \<le> 1);
     b \<leftarrow> get_balance node s;
     ASSERT (-1 \<le> b \<and> b \<le> 1);
     if deltac = 0 then Some s
     else do {
       ASSERT (-1 \<le> height_change b side deltac \<and> height_change b side deltac \<le> 1);
       s \<leftarrow> set_balance node (b - opt_neg deltac side) s;
       (node, delta, s) \<leftarrow> (if b - opt_neg deltac side = 2 then BAVL_transform node True (height_change b side deltac) s
         else if b - opt_neg deltac side = -2 then BAVL_transform node False (height_change b side deltac) s
         else Some (node, height_change b side deltac, s));
       ASSERT (-1 \<le> delta \<and> delta \<le> 1);
       p \<leftarrow> get_parent node s;
       (case p of
         None \<Rightarrow> Some s
       | Some q \<Rightarrow> do {
           l \<leftarrow> get_link q True s;
           BAVL_rebalance q (l = Some node) delta s
         })
     }
   }"

text \<open>
  The loop that goes down for a value, shared by insertion and the lookups: it ends at the node that compares equal, or where the link on the
  side of the value is empty.
\<close>

partial_function (option) BAVL_descend :: "(nat \<Rightarrow> int option) \<Rightarrow> BAVL \<Rightarrow> nat \<Rightarrow> (nat \<times> bool option) option" where
  "BAVL_descend compare s c = do {
     res \<leftarrow> compare c;
     if res = 0 then Some (c, None)
     else do {
       l \<leftarrow> get_link c (res = 1) s;
       (case l of None \<Rightarrow> Some (c, Some (res = 1)) | Some d \<Rightarrow> BAVL_descend compare s d)
     }
   }"

text \<open>The results of an insertion: the return value and \<^verbatim>\<open>*ref\<close>.\<close>

definition BAVL_Insert :: "(nat \<Rightarrow> nat \<Rightarrow> int) \<Rightarrow> nat \<Rightarrow> BAVL \<Rightarrow> (int \<times> nat option \<times> BAVL) option" where
  "BAVL_Insert cmp node s = (let new = \<lparr>nd_parent = None, nd_left = None, nd_right = None, nd_balance = 0\<rparr> in
     case av_root s of
       None \<Rightarrow> Some (1, None, s\<lparr>av_root := Some node, av_nodes := (av_nodes s)(node \<mapsto> new)\<rparr>)
     | Some root \<Rightarrow> do {
         (c, stop) \<leftarrow> BAVL_descend (BAVL_compare cmp node) s root;
         (case stop of
           None \<Rightarrow> Some (0, Some c, s)
         | Some side \<Rightarrow> do {
             s \<leftarrow> set_link c side (Some node) s;
             let s = s\<lparr>av_nodes := (av_nodes s)(node \<mapsto> new\<lparr>nd_parent := Some c\<rparr>)\<rparr>;
             s \<leftarrow> BAVL_rebalance c side 1 s;
             Some (1, Some c, s)
           })
       })"

text \<open>The part of \<^verbatim>\<open>BAVL_Remove\<close> for a node with at most one child.\<close>

definition remove_tail :: "nat \<Rightarrow> BAVL \<Rightarrow> BAVL option" where
  "remove_tail node s = do {
     l \<leftarrow> get_link node False s;
     r \<leftarrow> get_link node True s;
     ASSERT (\<not> (l \<noteq> None \<and> r \<noteq> None));
     parent \<leftarrow> get_parent node s;
     let child = (if l \<noteq> None then l else r);
     (case parent of
       Some p \<Rightarrow> do {
         x \<leftarrow> get_link p True s;
         s \<leftarrow> BAVL_replace_subtree node child s;
         BAVL_rebalance p (x = Some node) (-1) s
       }
     | None \<Rightarrow> BAVL_replace_subtree node child s)
   }"

definition BAVL_Remove :: "nat \<Rightarrow> BAVL \<Rightarrow> BAVL option" where
  "BAVL_Remove node s = do {
     l \<leftarrow> get_link node False s;
     r \<leftarrow> get_link node True s;
     s \<leftarrow> (case (l, r) of
         (Some l, Some r) \<Rightarrow> do {
           m \<leftarrow> BAVL_subtree_max s l;
           BAVL_swap_nodes node m s
         }
       | _ \<Rightarrow> Some s);
     remove_tail node s
   }"

definition BAVL_IsEmpty :: "BAVL \<Rightarrow> bool" where
  "BAVL_IsEmpty s \<longleftrightarrow> av_root s = None"

text \<open>The outer \<open>None\<close> is the fault, the inner one the null pointer that the lookups return.\<close>

definition BAVL_Lookup :: "('k \<Rightarrow> nat \<Rightarrow> int) \<Rightarrow> 'k \<Rightarrow> BAVL \<Rightarrow> nat option option" where
  "BAVL_Lookup cmp k s = (case av_root s of
       None \<Rightarrow> Some None
     | Some root \<Rightarrow> do { (c, stop) \<leftarrow> BAVL_descend (BAVL_compare cmp k) s root; Some (Some c) })"

definition BAVL_LookupExact :: "('k \<Rightarrow> nat \<Rightarrow> int) \<Rightarrow> 'k \<Rightarrow> BAVL \<Rightarrow> nat option option" where
  "BAVL_LookupExact cmp k s = (case av_root s of
       None \<Rightarrow> Some None
     | Some root \<Rightarrow> do {
         (c, stop) \<leftarrow> BAVL_descend (BAVL_compare cmp k) s root;
         Some (case stop of None \<Rightarrow> Some c | Some _ \<Rightarrow> None)
       })"

text \<open>Following the links of one side to the end, and the links to the parent while coming from that side.\<close>

partial_function (option) follow_links :: "bool \<Rightarrow> BAVL \<Rightarrow> nat \<Rightarrow> nat option" where
  "follow_links side s n = do {
     x \<leftarrow> get_link n side s;
     (case x of None \<Rightarrow> Some n | Some m \<Rightarrow> follow_links side s m)
   }"

partial_function (option) climb_links :: "bool \<Rightarrow> BAVL \<Rightarrow> nat \<Rightarrow> nat option option" where
  "climb_links side s n = do {
     p \<leftarrow> get_parent n s;
     (case p of
       None \<Rightarrow> Some None
     | Some q \<Rightarrow> do {
         x \<leftarrow> get_link q side s;
         if x = Some n then climb_links side s q else Some (Some q)
       })
   }"

definition BAVL_GetFirst :: "BAVL \<Rightarrow> nat option option" where
  "BAVL_GetFirst s = (case av_root s of None \<Rightarrow> Some None | Some n \<Rightarrow> map_option Some (follow_links False s n))"

definition BAVL_GetLast :: "BAVL \<Rightarrow> nat option option" where
  "BAVL_GetLast s = (case av_root s of None \<Rightarrow> Some None | Some n \<Rightarrow> map_option Some (follow_links True s n))"

definition BAVL_GetNext :: "nat \<Rightarrow> BAVL \<Rightarrow> nat option option" where
  "BAVL_GetNext n s = do {
     r \<leftarrow> get_link n True s;
     (case r of Some m \<Rightarrow> map_option Some (follow_links False s m) | None \<Rightarrow> climb_links True s n)
   }"

definition BAVL_GetPrev :: "nat \<Rightarrow> BAVL \<Rightarrow> nat option option" where
  "BAVL_GetPrev n s = do {
     l \<leftarrow> get_link n False s;
     (case l of Some m \<Rightarrow> map_option Some (follow_links True s m) | None \<Rightarrow> climb_links False s n)
   }"

text \<open>\<^verbatim>\<open>BAVL_Verify\<close> as a check: the height of the subtree, \<open>None\<close> where the code stops the program.\<close>

partial_function (option) assert_recurser :: "(nat \<Rightarrow> nat \<Rightarrow> int) \<Rightarrow> BAVL \<Rightarrow> nat \<Rightarrow> int option" where
  "assert_recurser cmp s n = do {
     x \<leftarrow> av_nodes s n;
     ASSERT (-1 \<le> nd_balance x \<and> nd_balance x \<le> 1);
     hl \<leftarrow> (case nd_left x of None \<Rightarrow> Some 0 | Some m \<Rightarrow> do {
       p \<leftarrow> get_parent m s;
       ASSERT (p = Some n);
       c \<leftarrow> BAVL_compare cmp m n;
       ASSERT (c = -1);
       assert_recurser cmp s m
     });
     hr \<leftarrow> (case nd_right x of None \<Rightarrow> Some 0 | Some m \<Rightarrow> do {
       p \<leftarrow> get_parent m s;
       ASSERT (p = Some n);
       c \<leftarrow> BAVL_compare cmp m n;
       ASSERT (c = 1);
       assert_recurser cmp s m
     });
     ASSERT (nd_balance x = hr - hl);
     Some (max hl hr + 1)
   }"

definition BAVL_Verify :: "(nat \<Rightarrow> nat \<Rightarrow> int) \<Rightarrow> BAVL \<Rightarrow> unit option" where
  "BAVL_Verify cmp s = (case av_root s of
       None \<Rightarrow> Some ()
     | Some n \<Rightarrow> do {
         p \<leftarrow> get_parent n s;
         ASSERT (p = None);
         assert_recurser cmp s n;
         Some ()
       })"

end
