(* ===== verification/BavlRep.thy ===== *)
theory BavlRep
  imports BAVL
begin

text \<open>
  Which tree the memory of structure/BAVL.h holds: \<open>rep\<close> for a subtree, \<open>prep\<close> for the path above a place, and \<open>srep\<close> for a
  whole tree seen from one of its places. The nodes of a tree are different, so a write to one node leaves the other parts of the tree
  as they are; each of the small operations is described by what it does to the parts.
\<close>

section \<open>Trees in memory\<close>

fun rootid :: "avl \<Rightarrow> nat option" where
  "rootid Lf = None"
| "rootid (Nd l n b r) = Some n"

fun rep :: "(nat \<rightharpoonup> BAVLNode) \<Rightarrow> nat option \<Rightarrow> avl \<Rightarrow> bool" where
  "rep h p Lf = True"
| "rep h p (Nd l n b r) \<longleftrightarrow>
     h n = Some \<lparr>nd_parent = p, nd_left = rootid l, nd_right = rootid r, nd_balance = b\<rparr> \<and> rep h (Some n) l \<and> rep h (Some n) r"

text \<open>Above the path is \<open>tp\<close>, at its end hangs \<open>q\<close>.\<close>

fun ppar :: "path \<Rightarrow> nat option \<Rightarrow> nat option" where
  "ppar [] tp = tp"
| "ppar ((sd, x, b, u) # ps) tp = Some x"

fun proot :: "path \<Rightarrow> nat option \<Rightarrow> nat option" where
  "proot [] q = q"
| "proot ((sd, x, b, u) # ps) q = proot ps (Some x)"

fun prep :: "(nat \<rightharpoonup> BAVLNode) \<Rightarrow> path \<Rightarrow> nat option \<Rightarrow> nat option \<Rightarrow> bool" where
  "prep h [] q tp = True"
| "prep h ((sd, x, b, u) # ps) q tp \<longleftrightarrow>
     h x = Some \<lparr>nd_parent = ppar ps tp, nd_left = (if sd then rootid u else q), nd_right = (if sd then q else rootid u), nd_balance = b\<rparr> \<and>
     rep h (Some x) u \<and> prep h ps (Some x) tp"

fun pids :: "path \<Rightarrow> nat list" where
  "pids [] = []"
| "pids ((sd, x, b, u) # ps) = x # inord u @ pids ps"

definition srep :: "BAVL \<Rightarrow> path \<Rightarrow> avl \<Rightarrow> bool" where
  "srep s ps t \<longleftrightarrow> av_root s = proot ps (rootid t) \<and> prep (av_nodes s) ps (rootid t) None \<and> rep (av_nodes s) (ppar ps None) t \<and>
     distinct (pids ps @ inord t)"

lemma rootid_in: "rootid t = Some n \<Longrightarrow> n \<in> set (inord t)"
  by (cases t) auto

lemma rep_upd [simp]: "n \<notin> set (inord t) \<Longrightarrow> rep (h(n := v)) p t = rep h p t"
  by (induction h p t rule: rep.induct) auto

lemma prep_upd [simp]: "n \<notin> set (pids ps) \<Longrightarrow> prep (h(n := v)) ps q tp = prep h ps q tp"
  by (induction h ps q tp rule: prep.induct) auto

lemma set_pids: "set (pids ps) = set (before_hole ps) \<union> set (after_hole ps)"
  by (induction ps rule: pids.induct) auto

lemma distinct_pids: "distinct (pids ps @ inord t) \<longleftrightarrow> distinct (inord (plug ps t))"
proof -
  have "distinct (pids ps) \<longleftrightarrow> distinct (before_hole ps @ after_hole ps)"
    by (induction ps rule: pids.induct) (auto simp: set_pids)
  then show ?thesis by (auto simp: inord_plug set_pids)
qed

text \<open>Moving the place up and down.\<close>

lemma srep_up: "srep s ((sd, x, b, u) # ps) t \<longleftrightarrow> srep s ps (nd sd t x b u)"
  by (cases sd) (auto simp: srep_def)

lemma srep_plug: "srep s ps t \<longleftrightarrow> srep s [] (plug ps t)"
  by (induction ps arbitrary: t rule: pids.induct) (simp_all add: srep_up)

lemma prep_append: "prep h (qs @ ps) q tp \<longleftrightarrow> prep h qs q (ppar ps tp) \<and> prep h ps (proot qs q) tp"
  and ppar_append: "ppar (qs @ ps) tp = ppar qs (ppar ps tp)"
  and proot_append: "proot (qs @ ps) q = proot ps (proot qs q)"
  and pids_append: "pids (qs @ ps) = pids qs @ pids ps"
proof -
  show "ppar (qs @ ps) tp = ppar qs (ppar ps tp)" for qs by (induction qs rule: pids.induct) simp_all
  then show "prep h (qs @ ps) q tp \<longleftrightarrow> prep h qs q (ppar ps tp) \<and> prep h ps (proot qs q) tp"
    by (induction qs arbitrary: q rule: pids.induct) auto
  show "proot (qs @ ps) q = proot ps (proot qs q)" by (induction qs arbitrary: q rule: pids.induct) auto
  show "pids (qs @ ps) = pids qs @ pids ps" by (induction qs rule: pids.induct) auto
qed

section \<open>The small operations\<close>

lemma get_simps [simp]:
  "av_nodes s n = Some x \<Longrightarrow> get_link n side s = Some (if side then nd_right x else nd_left x)"
  "av_nodes s n = Some x \<Longrightarrow> get_parent n s = Some (nd_parent x)"
  "av_nodes s n = Some x \<Longrightarrow> get_balance n s = Some (nd_balance x)"
  by (simp_all add: get_link_def get_parent_def get_balance_def link_def)

lemma set_simps [simp]:
  "av_nodes s n = Some x \<Longrightarrow> set_link n side v s = Some (s\<lparr>av_nodes := (av_nodes s)(n \<mapsto> with_link side v x)\<rparr>)"
  "av_nodes s n = Some x \<Longrightarrow> set_parent n v s = Some (s\<lparr>av_nodes := (av_nodes s)(n \<mapsto> x\<lparr>nd_parent := v\<rparr>)\<rparr>)"
  "av_nodes s n = Some x \<Longrightarrow> set_balance n c s = Some (s\<lparr>av_nodes := (av_nodes s)(n \<mapsto> x\<lparr>nd_balance := c\<rparr>)\<rparr>)"
  by (simp_all add: set_link_def set_parent_def set_balance_def upd_node_def)

lemma with_link_simps [simp]:
  "with_link side v \<lparr>nd_parent = p, nd_left = l, nd_right = r, nd_balance = b\<rparr> =
    \<lparr>nd_parent = p, nd_left = (if side then l else v), nd_right = (if side then v else r), nd_balance = b\<rparr>"
  by (simp add: with_link_def)

text \<open>A subtree gets another parent.\<close>

definition reparent :: "avl \<Rightarrow> nat option \<Rightarrow> (nat \<rightharpoonup> BAVLNode) \<Rightarrow> (nat \<rightharpoonup> BAVLNode)" where
  "reparent t p h = (case rootid t of None \<Rightarrow> h | Some n \<Rightarrow> h(n := map_option (\<lambda>x. x\<lparr>nd_parent := p\<rparr>) (h n)))"

lemma set_child_parent_rep:
  "rep (av_nodes s) p t \<Longrightarrow> set_child_parent (rootid t) p' s = Some (s\<lparr>av_nodes := reparent t p' (av_nodes s)\<rparr>)"
  by (cases t) (auto simp: set_child_parent_def reparent_def)

lemma reparent_rep: "rep h p t \<Longrightarrow> distinct (inord t) \<Longrightarrow> rep (reparent t p' h) p' t"
  by (cases t) (auto simp: reparent_def)

lemma reparent_other [simp]:
  "n \<notin> set (inord t) \<Longrightarrow> reparent t p h n = h n"
  "set (inord t) \<inter> set (inord u) = {} \<Longrightarrow> rep (reparent t p h) q u = rep h q u"
  "set (inord t) \<inter> set (pids ps) = {} \<Longrightarrow> prep (reparent t p h) ps q' tp = prep h ps q' tp"
  by (cases t; auto simp: reparent_def)+

lemma reparent_upd: "n \<notin> set (inord t) \<Longrightarrow> reparent t p (h(n := v)) = (reparent t p h)(n := v)"
  by (cases t) (auto simp: reparent_def fun_upd_twist)

text \<open>Another node is hung at the end of a path.\<close>

definition relink :: "path \<Rightarrow> nat option \<Rightarrow> (nat \<rightharpoonup> BAVLNode) \<Rightarrow> (nat \<rightharpoonup> BAVLNode)" where
  "relink ps q h = (case ps of [] \<Rightarrow> h | (sd, x, b, u) # _ \<Rightarrow> h(x := map_option (with_link sd q) (h x)))"

lemma put_below_rep:
  assumes "prep (av_nodes s) ps (Some old) tp" "old \<notin> set (pids ps)" "ps = [] \<Longrightarrow> tp = None"
  shows "put_below (ppar ps tp) old new s =
    Some (s\<lparr>av_root := (if ps = [] then new else av_root s), av_nodes := relink ps new (av_nodes s)\<rparr>)"
  using assms
proof (cases ps)
  case (Cons f ps')
  obtain sd x b u where f: "f = (sd, x, b, u)" by (cases f)
  have "rootid u \<noteq> Some old" using assms(2) rootid_in [of u old] by (auto simp: Cons f)
  with assms(1) show ?thesis by (auto simp: Cons f put_below_def relink_def)
next
  case Nil
  with assms(3) show ?thesis by (simp add: put_below_def relink_def)
qed

lemma relink_prep: "prep h ps q tp \<Longrightarrow> distinct (pids ps) \<Longrightarrow> prep (relink ps q' h) ps q' tp"
  by (cases ps) (auto simp: relink_def)

lemma relink_other [simp]:
  "n \<notin> set (pids ps) \<Longrightarrow> relink ps q h n = h n"
  "set (pids ps) \<inter> set (inord t) = {} \<Longrightarrow> rep (relink ps q h) p t = rep h p t"
  "set (pids ps) \<inter> set (pids qs) = {} \<Longrightarrow> prep (relink ps q h) qs q' tp = prep h qs q' tp"
  by (cases ps; auto simp: relink_def)+

lemma relink_upd: "n \<notin> set (pids ps) \<Longrightarrow> relink ps q (h(n := v)) = (relink ps q h)(n := v)"
  by (cases ps) (auto simp: relink_def fun_upd_twist)

text \<open>The subtree that a path is in gets another parent.\<close>

fun reparent_top :: "path \<Rightarrow> nat option \<Rightarrow> (nat \<rightharpoonup> BAVLNode) \<Rightarrow> (nat \<rightharpoonup> BAVLNode)" where
  "reparent_top [] p h = h"
| "reparent_top [(sd, x, b, u)] p h = h(x := map_option (\<lambda>y. y\<lparr>nd_parent := p\<rparr>) (h x))"
| "reparent_top (_ # f # ps) p h = reparent_top (f # ps) p h"

lemma reparent_top_last:
  "ps \<noteq> [] \<Longrightarrow> \<exists>x. x \<in> set (pids ps) \<and> (\<forall>p h. reparent_top ps p h = h(x := map_option (\<lambda>y. y\<lparr>nd_parent := p\<rparr>) (h x)))"
proof (induction ps)
  case (Cons f ps)
  obtain sd x b u where f: "f = (sd, x, b, u)" by (cases f)
  show ?case
  proof (cases "ps = []")
    case True
    show ?thesis unfolding True f by (intro exI [of _ x]) simp
  next
    case False
    from Cons.IH [OF this] obtain y where y: "y \<in> set (pids ps)"
      "\<forall>p h. reparent_top ps p h = h(y := map_option (\<lambda>z. z\<lparr>nd_parent := p\<rparr>) (h y))" by blast
    obtain g qs where "ps = g # qs" using False by (cases ps) auto
    then have "reparent_top (f # ps) p h = reparent_top ps p h" for p h by simp
    with y f show ?thesis by (intro exI [of _ y]) simp
  qed
qed simp

lemma reparent_top_other [simp]:
  "n \<notin> set (pids ps) \<Longrightarrow> reparent_top ps p h n = h n"
  "set (pids ps) \<inter> set (inord t) = {} \<Longrightarrow> rep (reparent_top ps p h) q t = rep h q t"
  "set (pids ps) \<inter> set (pids qs) = {} \<Longrightarrow> prep (reparent_top ps p h) qs q' tp = prep h qs q' tp"
proof (atomize (full), cases "ps = []")
  case False
  from reparent_top_last [OF this] obtain x where x: "x \<in> set (pids ps)"
    "\<And>p h. reparent_top ps p h = h(x := map_option (\<lambda>y. y\<lparr>nd_parent := p\<rparr>) (h x))" by blast
  then have "x \<notin> set (inord t)" if "set (pids ps) \<inter> set (inord t) = {}" using that by blast
  moreover have "x \<notin> set (pids qs)" if "set (pids ps) \<inter> set (pids qs) = {}" using x(1) that by blast
  ultimately show "(n \<notin> set (pids ps) \<longrightarrow> reparent_top ps p h n = h n) \<and>
    (set (pids ps) \<inter> set (inord t) = {} \<longrightarrow> rep (reparent_top ps p h) q t = rep h q t) \<and>
    (set (pids ps) \<inter> set (pids qs) = {} \<longrightarrow> prep (reparent_top ps p h) qs q' tp = prep h qs q' tp)"
    using x(1) unfolding x(2) by auto
qed simp

lemma reparent_top_prep:
  "prep h ps q tp \<Longrightarrow> distinct (pids ps) \<Longrightarrow> prep (reparent_top ps p h) ps q p"
proof (induction ps p h arbitrary: q rule: reparent_top.induct)
  case (3 g f ps p h)
  obtain sd x b u where g: "g = (sd, x, b, u)" by (cases g)
  have i: "set (pids (f # ps)) \<inter> set (inord u) = {}" "x \<notin> set (pids (f # ps))" using 3(3) by (auto simp: g)
  have "prep (reparent_top (f # ps) p h) (f # ps) (Some x) p" using 3 by (simp add: g)
  moreover have "ppar (f # ps) p = ppar (f # ps) tp" by (cases f) simp
  moreover have "reparent_top (f # ps) p h x = h x" by (rule reparent_top_other(1) [OF i(2)])
  moreover have "rep (reparent_top (f # ps) p h) (Some x) u = rep h (Some x) u" by (rule reparent_top_other(2) [OF i(1)])
  ultimately show ?case using 3(2) by (simp only: g prep.simps reparent_top.simps)
qed auto

lemma set_child_parent_top:
  assumes "prep (av_nodes s) ps q tp" "ps \<noteq> []"
  shows "set_child_parent (proot ps q) p s = Some (s\<lparr>av_nodes := reparent_top ps p (av_nodes s)\<rparr>)"
  using assms
proof (induction ps arbitrary: q rule: pids.induct)
  case (2 sd x b u ps)
  show ?case
  proof (cases ps)
    case Nil
    with 2 show ?thesis by (simp add: set_child_parent_def fun_upd_def)
  next
    case (Cons f ps')
    with 2 show ?thesis by simp
  qed
qed simp

lemma rep_root: "rootid t = Some n \<Longrightarrow> rep h p t \<Longrightarrow> h n \<noteq> None"
  by (cases t) auto

section \<open>Rotation\<close>

lemma rotate_rep:
  assumes "srep s ps (nd sd (nd sd outer nr b2 inner) r b1 a)"
  shows "\<exists>s'. BAVL_rotate r (\<not> sd) s = Some s' \<and> srep s' ps (nd sd outer nr b2 (nd sd inner r b1 a))"
proof -
  let ?t = "nd sd (nd sd outer nr b2 inner) r b1 a"
  define h where "h = av_nodes s"
  define q where "q = ppar ps None"
  have root: "av_root s = proot ps (Some r)" and pr: "prep h ps (Some r) None" and di: "distinct (pids ps @ inord ?t)"
    and re: "rep h q ?t" using assms by (cases sd; simp add: srep_def h_def q_def)+
  have ir: "rep h (Some nr) inner" and ou: "rep h (Some nr) outer" and ra: "rep h (Some r) a"
    and hr: "h r = Some \<lparr>nd_parent = q, nd_left = (if sd then rootid a else Some nr), nd_right = (if sd then Some nr else rootid a), nd_balance = b1\<rparr>"
    and hnr: "h nr = Some \<lparr>nd_parent = Some r, nd_left = (if sd then rootid inner else rootid outer),
      nd_right = (if sd then rootid outer else rootid inner), nd_balance = b2\<rparr>"
    using re by (cases sd; simp)+
  have d: "r \<noteq> nr" "r \<notin> set (inord inner)" "nr \<notin> set (inord inner)" "r \<notin> set (inord outer)" "nr \<notin> set (inord outer)"
    "r \<notin> set (inord a)" "nr \<notin> set (inord a)" "r \<notin> set (pids ps)" "nr \<notin> set (pids ps)"
    "set (inord inner) \<inter> set (inord outer) = {}" "set (inord inner) \<inter> set (inord a) = {}" "set (inord inner) \<inter> set (pids ps) = {}"
    "set (pids ps) \<inter> set (inord outer) = {}" "set (pids ps) \<inter> set (inord a) = {}" "set (pids ps) \<inter> set (inord inner) = {}"
    "distinct (inord inner)" "distinct (pids ps)"
    using di by (cases sd; auto)+
  define h1 where "h1 = h(r \<mapsto> \<lparr>nd_parent = q, nd_left = (if sd then rootid a else rootid inner),
    nd_right = (if sd then rootid inner else rootid a), nd_balance = b1\<rparr>)"
  define h2 where "h2 = reparent inner (Some r) h1"
  define h3 where "h3 = h2(nr \<mapsto> \<lparr>nd_parent = Some r, nd_left = (if sd then Some r else rootid outer),
      nd_right = (if sd then rootid outer else Some r), nd_balance = b2\<rparr>)"
  define h4 where "h4 = h3(nr \<mapsto> \<lparr>nd_parent = q, nd_left = (if sd then Some r else rootid outer),
      nd_right = (if sd then rootid outer else Some r), nd_balance = b2\<rparr>)"
  define h5 where "h5 = relink ps (Some nr) h4"
  define h6 where "h6 = h5(r \<mapsto> \<lparr>nd_parent = Some nr, nd_left = (if sd then rootid a else rootid inner),
    nd_right = (if sd then rootid inner else rootid a), nd_balance = b1\<rparr>)"
  define rt where "rt = (if ps = [] then Some nr else av_root s)"
  have h1r: "h1 r = Some \<lparr>nd_parent = q, nd_left = (if sd then rootid a else rootid inner),
    nd_right = (if sd then rootid inner else rootid a), nd_balance = b1\<rparr>" by (simp add: h1_def)
  have "rep h1 (Some nr) inner" using ir d by (simp add: h1_def)
  note cp = set_child_parent_rep [of "s\<lparr>av_nodes := h1\<rparr>", simplified, OF this, of "Some r", folded h2_def]
  have h2: "h2 nr = h nr" "h2 r = h1 r" using d by (simp_all add: h2_def h1_def)
  have h4: "h4 r = h1 r" "h4 nr = Some \<lparr>nd_parent = q, nd_left = (if sd then Some r else rootid outer),
      nd_right = (if sd then rootid outer else Some r), nd_balance = b2\<rparr>" using d h2 by (simp_all add: h4_def h3_def)
  have "prep h4 ps (Some r) None" using pr d by (simp add: h4_def h3_def h2_def h1_def)
  then have pb: "put_below q r (Some nr) (s\<lparr>av_nodes := h4\<rparr>) = Some (s\<lparr>av_root := rt, av_nodes := h5\<rparr>)"
    using put_below_rep [of "s\<lparr>av_nodes := h4\<rparr>" ps r None "Some nr"] d(8) by (simp add: h5_def q_def rt_def)
  have h5r: "h5 r = h1 r" using h4 d by (simp add: h5_def)
  have lr: "get_link r sd s = Some (Some nr)" using hr by (simp add: h_def)
  have lnr: "get_link nr (\<not> sd) s = Some (rootid inner)" using hnr by (simp add: h_def)
  have s1: "set_link r sd (rootid inner) s = Some (s\<lparr>av_nodes := h1\<rparr>)"
    using hr by (simp add: h1_def h_def)
  have s3: "set_link nr (\<not> sd) (Some r) (s\<lparr>av_nodes := h2\<rparr>) = Some (s\<lparr>av_nodes := h3\<rparr>)"
    using hnr h2 by (simp add: h3_def)
  have s3': "get_parent r (s\<lparr>av_nodes := h3\<rparr>) = Some q" using h2 h1r d by (simp add: h3_def)
  have s4: "set_parent nr q (s\<lparr>av_nodes := h3\<rparr>) = Some (s\<lparr>av_nodes := h4\<rparr>)" by (simp add: h4_def h3_def)
  have s6: "set_parent r (Some nr) (s\<lparr>av_root := rt, av_nodes := h5\<rparr>) = Some (s\<lparr>av_root := rt, av_nodes := h6\<rparr>)"
    using h5r h1r by (simp add: h6_def)
  have "BAVL_rotate r (\<not> sd) s = Some (s\<lparr>av_root := rt, av_nodes := h6\<rparr>)"
    by (simp add: BAVL_rotate_def lr lnr s1 cp s3 s3' s4 pb s6)
  moreover have "srep (s\<lparr>av_root := rt, av_nodes := h6\<rparr>) ps (nd sd outer nr b2 (nd sd inner r b1 a))"
  proof -
    have "rep h2 (Some r) inner" unfolding h2_def by (rule reparent_rep [of _ "Some nr"]) (use ir d in \<open>simp_all add: h1_def\<close>)
    then have "rep h6 (Some r) inner" using d by (simp add: h6_def h5_def h4_def h3_def)
    moreover have "rep h6 (Some nr) outer" "rep h6 (Some r) a"
      using ou ra d by (simp_all add: h6_def h5_def h4_def h3_def h2_def h1_def Int_commute)
    moreover have "prep h5 ps (Some nr) None" unfolding h5_def
      by (rule relink_prep [of _ _ "Some r"]) (use \<open>prep h4 ps (Some r) None\<close> d in simp_all)
    then have "prep h6 ps (Some nr) None" using d by (simp add: h6_def)
    moreover have "h6 nr = h4 nr" using d by (simp add: h6_def h5_def)
    moreover have "proot ps (Some nr) = rt" using root by (cases ps) (auto simp: rt_def)
    moreover have "distinct (pids ps @ inord (nd sd outer nr b2 (nd sd inner r b1 a)))" using di by (cases sd) auto
    ultimately show ?thesis using h4 by (cases sd) (auto simp: srep_def h6_def q_def)
  qed
  ultimately show ?thesis by blast
qed

lemma balance_rep:
  assumes "srep s ps (Nd l x b r)"
  shows "get_balance x s = Some b" "get_link x False s = Some (rootid l)" "get_link x True s = Some (rootid r)"
    "get_parent x s = Some (ppar ps None)"
    "\<exists>s'. set_balance x b' s = Some s' \<and> srep s' ps (Nd l x b' r)"
  using assms by (auto simp: srep_def)

lemmas node_rep = balance_rep(1-4)

lemma set_balance_at:
  assumes "srep s [] (plug ps (Nd l x b r))"
  shows "\<exists>s'. set_balance x b' s = Some s' \<and> srep s' [] (plug ps (Nd l x b' r))"
  using balance_rep(5) [of s ps l x b r b'] assms by (simp flip: srep_plug)

section \<open>Rebalancing\<close>

lemma nd_flip: "nd (\<not> sd) a n b c = nd sd c n b a"
  by (cases sd) simp_all

lemma rootid_nd [simp]: "rootid (nd sd a n b c) = Some n"
  by (cases sd) simp_all

lemma nd_node:
  assumes "srep s ps (nd sd a x b c)"
  shows "get_balance x s = Some b" "get_link x sd s = Some (rootid a)" "get_link x (\<not> sd) s = Some (rootid c)"
    "get_parent x s = Some (ppar ps None)"
  using assms node_rep by (cases sd; simp)+

lemma set_nd:
  assumes "srep s ps (nd sd a x b c)"
  obtains s' where "set_balance x b' s = Some s'" "srep s' ps (nd sd a x b' c)"
  using balance_rep(5) [of s ps _ x b _ b'] assms by (cases sd) (metis nd_simps)+

lemma set_nd_other:
  assumes "srep s ps (nd sd a c cb (nd sd' i x b u))"
  obtains s' where "set_balance x b' s = Some s'" "srep s' ps (nd sd a c cb (nd sd' i x b' u))"
proof -
  have "srep s ((\<not> sd, c, cb, a) # ps) (nd sd' i x b u)" using assms by (simp add: srep_up nd_flip)
  then obtain s' where "set_balance x b' s = Some s'" "srep s' ((\<not> sd, c, cb, a) # ps) (nd sd' i x b' u)" by (rule set_nd)
  with that show thesis by (simp add: srep_up nd_flip)
qed

lemma set_nd_side:
  assumes "srep s ps (nd sd (nd sd' i x b u) c cb a)"
  obtains s' where "set_balance x b' s = Some s'" "srep s' ps (nd sd (nd sd' i x b' u) c cb a)"
proof -
  have "srep s ((sd, c, cb, a) # ps) (nd sd' i x b u)" using assms by (simp add: srep_up)
  then obtain s' where "set_balance x b' s = Some s'" "srep s' ((sd, c, cb, a) # ps) (nd sd' i x b' u)" by (rule set_nd)
  with that show thesis by (simp add: srep_up)
qed

lemma rotate_single:
  assumes "srep s ps (nd sd (nd sd outer c cb inner) x b u)"
  obtains s' where "BAVL_rotate x (\<not> sd) s = Some s'" "srep s' ps (nd sd outer c cb (nd sd inner x b u))"
  using rotate_rep [OF assms] by blast

text \<open>The inner grandchild is rotated above the child and then above the node.\<close>

lemma rotate_double:
  assumes "srep s ps (nd sd (nd sd outer c cb (nd sd y g gb z)) x b u)"
  obtains s1 s2 where "BAVL_rotate c sd s = Some s1" "BAVL_rotate x (\<not> sd) s1 = Some s2"
    "srep s2 ps (nd sd (nd sd outer c cb y) g gb (nd sd z x b u))"
proof -
  have "srep s ((sd, x, b, u) # ps) (nd (\<not> sd) (nd (\<not> sd) z g gb y) c cb outer)"
    using assms by (simp add: srep_up nd_flip)
  from rotate_rep [OF this] obtain s1 where
    s1: "BAVL_rotate c sd s = Some s1" "srep s1 ((sd, x, b, u) # ps) (nd (\<not> sd) z g gb (nd (\<not> sd) y c cb outer))" by auto
  then have "srep s1 ps (nd sd (nd sd (nd sd outer c cb y) g gb z) x b u)" by (simp add: srep_up nd_flip)
  then obtain s2 where "BAVL_rotate x (\<not> sd) s1 = Some s2" "srep s2 ps (nd sd (nd sd outer c cb y) g gb (nd sd z x b u))"
    by (rule rotate_single)
  with s1(1) that show thesis by blast
qed

lemma transform_rep:
  assumes s: "srep s ps (nd sd t x b u)" and r: "rotated sd f x t u = Some (t', k)" and f: "f = (if sd then 1 else -1)"
  shows "\<exists>n s'. BAVL_transform x sd delta s = Some (n, delta - k, s') \<and> srep s' ps t' \<and> rootid t' = Some n"
proof (cases t)
  case Lf
  with r show ?thesis by simp
next
  case (Nd cl c cb cr)
  define out where "out = (if sd then cr else cl)"
  define inn where "inn = (if sd then cl else cr)"
  have t: "t = nd sd out c cb inn" by (cases sd) (simp_all add: Nd out_def inn_def)
  note r = r [unfolded Nd rotated.simps Let_def, folded out_def inn_def]
  have ch: "get_link x sd s = Some (Some c)" using nd_node(2) [OF s] by (simp add: Nd)
  have "srep s ((sd, x, b, u) # ps) (nd sd out c cb inn)" using s t by (simp add: srep_up)
  note cn = nd_node [OF this]
  note df = BAVL_transform_def [of x sd delta s, unfolded Let_def f [symmetric] ch]
  consider (one) "cb * f = 1" | (zero) "cb * f = 0" | (minus) "cb * f = -1"
    using r by (auto split: if_splits)
  then show ?thesis
  proof cases
    case one
    obtain s1 where s1: "BAVL_rotate x (\<not> sd) s = Some s1" "srep s1 ps (nd sd out c cb (nd sd inn x b u))"
      using rotate_single s t by metis
    from s1(2) obtain s2 where s2: "set_balance x 0 s1 = Some s2" "srep s2 ps (nd sd out c cb (nd sd inn x 0 u))" by (rule set_nd_other)
    from s2(2) obtain s3 where s3: "set_balance c 0 s2 = Some s3" "srep s3 ps (nd sd out c 0 (nd sd inn x 0 u))" by (rule set_nd)
    have t': "t' = nd sd out c 0 (nd sd inn x 0 u)" "k = 1" using r one by simp_all
    show ?thesis unfolding df using cn(1) one s1(1) s2(1) s3 t' by simp
  next
    case zero
    obtain s1 where s1: "BAVL_rotate x (\<not> sd) s = Some s1" "srep s1 ps (nd sd out c cb (nd sd inn x b u))"
      using rotate_single s t by metis
    from s1(2) obtain s2 where s2: "set_balance x (1 * f) s1 = Some s2" "srep s2 ps (nd sd out c cb (nd sd inn x (1 * f) u))"
      by (rule set_nd_other)
    from s2(2) obtain s3 where s3: "set_balance c (-1 * f) s2 = Some s3" "srep s3 ps (nd sd out c (-1 * f) (nd sd inn x (1 * f) u))"
      by (rule set_nd)
    have t': "t' = nd sd out c (-1 * f) (nd sd inn x (1 * f) u)" "k = 0" using r zero by simp_all
    have "cb = 0" using zero f by (cases sd) simp_all
    then show ?thesis unfolding df using cn(1) s1(1) s2(1) s3 t' by simp
  next
    case minus
    then obtain gl g gb gr where g: "inn = avl.Nd gl g gb gr" using r by (cases inn) auto
    define y where "y = (if sd then gr else gl)"
    define z where "z = (if sd then gl else gr)"
    have i: "inn = nd sd y g gb z" by (cases sd) (use g in \<open>simp_all add: y_def z_def\<close>)
    note r = r [unfolded g avl.case, folded y_def z_def]
    have gc: "get_link c (\<not> sd) s = Some (Some g)" using cn(3) g by simp
    have s': "srep s ps (nd sd (nd sd out c cb (nd sd y g gb z)) x b u)" using s t i by simp
    obtain s1 s2 where s2: "BAVL_rotate c sd s = Some s1" "BAVL_rotate x (\<not> sd) s1 = Some s2"
      "srep s2 ps (nd sd (nd sd out c cb y) g gb (nd sd z x b u))" using s' by (rule rotate_double)
    have gb: "get_balance g s2 = Some gb" by (rule nd_node(1) [OF s2(3)])
    let ?bx = "- max 0 (gb * f) * f" and ?bc = "max 0 (- (gb * f)) * f"
    from s2(3) obtain s3 where s3: "set_balance x ?bx s2 = Some s3" "srep s3 ps (nd sd (nd sd out c cb y) g gb (nd sd z x ?bx u))"
      by (rule set_nd_other)
    from s3(2) obtain s4 where s4: "set_balance c ?bc s3 = Some s4" "srep s4 ps (nd sd (nd sd out c ?bc y) g gb (nd sd z x ?bx u))"
      by (rule set_nd_side)
    from s4(2) obtain s5 where s5: "set_balance g 0 s4 = Some s5" "srep s5 ps (nd sd (nd sd out c ?bc y) g 0 (nd sd z x ?bx u))"
      by (rule set_nd)
    have t': "t' = nd sd (nd sd out c ?bc y) g 0 (nd sd z x ?bx u)" "k = 1"
      using r minus by simp_all
    show ?thesis unfolding df using cn(1) minus gc s2(1,2) gb s3(1) s4(1) s5 t' by simp
  qed
qed

lemma parent_side:
  assumes "srep s ((sd, y, b, u) # ps) t" "rootid t = Some n"
  shows "get_parent n s = Some (Some y)" "get_link y True s = Some (if sd then Some n else rootid u)"
    "((if sd then Some n else rootid u) = Some n) = sd"
proof -
  show "get_parent n s = Some (Some y)" using assms by (cases t) (auto simp: srep_def)
  show "get_link y True s = Some (if sd then Some n else rootid u)" using assms by (auto simp: srep_def)
  have "n \<notin> set (inord u)" using assms(1) rootid_in [OF assms(2)] by (auto simp: srep_def)
  then show "((if sd then Some n else rootid u) = Some n) = sd" using rootid_in [of u n] by auto
qed

lemma rebalance_rep:
  assumes "srep s ((sd, x, b, u) # ps) t" "avl_ok t" "path_ok ((sd, x, b, u) # ps) (ht t - d)" "-1 \<le> d" "d \<le> 1"
  shows "\<exists>s' t'. BAVL_rebalance x sd d s = Some s' \<and> srep s' [] t' \<and> avl_ok t' \<and> inord t' = inord (plug ((sd, x, b, u) # ps) t)"
  using assms
proof (induction "length ps" arbitrary: s sd x b u ps t d rule: less_induct)
  case less
  let ?b = "b - opt_neg d sd" and ?h = "height_change b sd d" and ?l = "if sd then u else t" and ?r = "if sd then t else u"
  have s: "srep s ps (nd sd t x b u)" using less.prems(1) by (simp add: srep_up)
  have bb: "-1 \<le> b" "b \<le> 1" using less.prems(3) by simp_all
  have bal: "get_balance x s = Some b" by (rule nd_node(1) [OF s])
  have hr: "-1 \<le> ?h \<and> ?h \<le> 1" using height_change_range [OF less.prems(4,5)] by blast
  have cont: "\<exists>s' t'. do {
      ASSERT (-1 \<le> delta \<and> delta \<le> 1);
      p \<leftarrow> get_parent n s2;
      (case p of None \<Rightarrow> Some s2 | Some q \<Rightarrow> do { l \<leftarrow> get_link q True s2; BAVL_rebalance q (l = Some n) delta s2 })
    } = Some s' \<and> srep s' [] t' \<and> avl_ok t' \<and> inord t' = inord (plug ps t1)"
    if "srep s2 ps t1" "rootid t1 = Some n" "avl_ok t1" "path_ok ps (ht t1 - delta)" "-1 \<le> delta" "delta \<le> 1" for s2 t1 n delta
  proof (cases ps)
    case Nil
    have "get_parent n s2 = Some None" using that(1,2) Nil by (cases t1) (auto simp: srep_def)
    with that Nil show ?thesis by auto
  next
    case (Cons f ps2)
    obtain sd2 y b2 u2 where f: "f = (sd2, y, b2, u2)" by (cases f)
    have s2: "srep s2 ((sd2, y, b2, u2) # ps2) t1" using that(1) by (simp add: Cons f)
    note pa = parent_side [OF s2 that(2)]
    have "length ps2 < length ps" by (simp add: Cons)
    from less.hyps [OF this s2 that(3) _ that(5,6)] that(4) show ?thesis
      unfolding pa(1) using that(5,6) pa(2,3) by (simp add: Cons f)
  qed
  show ?case
  proof (cases "d = 0")
    case True
    have "srep s [] (plug ((sd, x, b, u) # ps) t)" using less.prems(1) srep_plug by blast
    moreover have "avl_ok (plug ((sd, x, b, u) # ps) t)" using less.prems(2,3) True by (simp only: avl_ok_plug) simp
    moreover have "BAVL_rebalance x sd d s = Some s" using bal bb True by (subst BAVL_rebalance.simps) simp
    ultimately show ?thesis by blast
  next
    case d: False
    obtain s1 where s1: "set_balance x ?b s = Some s1" "srep s1 ps (nd sd t x ?b u)" using s by (rule set_nd)
    note eq = BAVL_rebalance.simps [of x sd d s]
    have df: "BAVL_rebalance x sd d s = do {
        (node, delta, s) \<leftarrow> (if ?b = 2 then BAVL_transform x True ?h s1 else if ?b = -2 then BAVL_transform x False ?h s1 else Some (x, ?h, s1));
        ASSERT (-1 \<le> delta \<and> delta \<le> 1);
        p \<leftarrow> get_parent node s;
        (case p of None \<Rightarrow> Some s | Some q \<Rightarrow> do { l \<leftarrow> get_link q True s; BAVL_rebalance q (l = Some node) delta s })
      }" using less.prems(4,5) bal bb d hr s1(1) by (subst BAVL_rebalance.simps) simp
    have in_t: "inord (plug ((sd, x, b, u) # ps) t) = inord (plug ps t1)" if "inord t1 = inord ?l @ x # inord ?r" for t1
      using that by (cases sd) (simp_all add: inord_plug)
    from less.prems(2-5) show ?thesis
    proof (cases rule: rebalance_step)
      case (heavy_right t' k)
      have "nd sd t x ?b u = nd True ?r x ?b ?l" by (cases sd) simp_all
      then have "srep s1 ps (nd True ?r x ?b ?l)" using s1(2) by simp
      from transform_rep [OF this heavy_right(2), of ?h] obtain n s2 where
        s2: "BAVL_transform x True ?h s1 = Some (n, ?h - k, s2)" "srep s2 ps t'" "rootid t' = Some n" by auto
      show ?thesis unfolding df in_t [OF heavy_right(4)]
        using cont [OF s2(2,3) heavy_right(3,5-7)] heavy_right(1) s2(1) by simp
    next
      case (heavy_left t' k)
      have "nd sd t x ?b u = nd False ?l x ?b ?r" by (cases sd) simp_all
      then have "srep s1 ps (nd False ?l x ?b ?r)" using s1(2) by simp
      from transform_rep [OF this heavy_left(2), of ?h] obtain n s2 where
        s2: "BAVL_transform x False ?h s1 = Some (n, ?h - k, s2)" "srep s2 ps t'" "rootid t' = Some n" by auto
      show ?thesis unfolding df in_t [OF heavy_left(4)]
        using cont [OF s2(2,3) heavy_left(3,5-7)] heavy_left(1) s2(1) by simp
    next
      case fine
      have e: "nd sd t x ?b u = Nd ?l x ?b ?r" by (cases sd) simp_all
      have "inord (Nd ?l x ?b ?r) = inord ?l @ x # inord ?r" by simp
      note it = in_t [OF this]
      have "srep s1 ps (Nd ?l x ?b ?r)" using s1(2) e by simp
      from cont [OF this _ fine(3-6), of x] show ?thesis unfolding df it using fine(1,2) by simp
    qed
  qed
qed

end
