(* ===== verification/BavlOps.thy ===== *)
theory BavlOps
  imports BavlRep
begin

text \<open>
  What insertion, removal, lookup and the walks of structure/BAVL.h do to the tree in memory, in terms of its sequence of nodes.
\<close>

section \<open>Replacing a subtree\<close>

lemma ppar_not_nil: "ps \<noteq> [] \<Longrightarrow> ppar ps a = ppar ps b"
  by (cases "(ps, a)" rule: ppar.cases) auto

lemma proot_not_nil: "ps \<noteq> [] \<Longrightarrow> proot ps a = proot ps b"
  by (cases "(ps, a)" rule: proot.cases) auto

lemma replace_rep:
  assumes "srep s ps (Nd l n b r)" "l = Lf \<or> r = Lf"
  defines "c \<equiv> if l \<noteq> Lf then l else r"
  shows "\<exists>s'. BAVL_replace_subtree n (rootid c) s = Some s' \<and> srep s' ps c"
proof -
  let ?h = "av_nodes s"
  define rt where "rt = (if ps = [] then rootid c else av_root s)"
  define h1 where "h1 = relink ps (rootid c) ?h"
  have s: "av_root s = proot ps (Some n)" "prep ?h ps (Some n) None" "?h n = Some \<lparr>nd_parent = ppar ps None, nd_left = rootid l, nd_right = rootid r, nd_balance = b\<rparr>"
    "rep ?h (Some n) c" "distinct (pids ps @ inord (Nd l n b r))"
    using assms(1) by (auto simp: srep_def c_def)
  have d: "n \<notin> set (pids ps)" "distinct (pids ps)" "distinct (inord c)" "set (pids ps) \<inter> set (inord c) = {}" "set (inord c) \<inter> set (pids ps) = {}"
    "distinct (pids ps @ inord c)"
    using s(5) by (auto simp: c_def)
  have pb: "put_below (ppar ps None) n (rootid c) s = Some (s\<lparr>av_root := rt, av_nodes := h1\<rparr>)"
    using put_below_rep [OF s(2) d(1)] by (simp add: rt_def h1_def)
  have c1: "rep h1 (Some n) c" using s(4) d by (simp add: h1_def)
  have cp: "set_child_parent (rootid c) (ppar ps None) (s\<lparr>av_root := rt, av_nodes := h1\<rparr>) =
      Some (s\<lparr>av_root := rt, av_nodes := reparent c (ppar ps None) h1\<rparr>)"
    using set_child_parent_rep [of "s\<lparr>av_root := rt, av_nodes := h1\<rparr>" "Some n" c "ppar ps None"] c1 by simp
  have "BAVL_replace_subtree n (rootid c) s = Some (s\<lparr>av_root := rt, av_nodes := reparent c (ppar ps None) h1\<rparr>)"
    using s(3) pb cp by (simp add: BAVL_replace_subtree_def)
  moreover have "prep h1 ps (rootid c) None" unfolding h1_def by (rule relink_prep [OF s(2) d(2)])
  then have "srep (s\<lparr>av_root := rt, av_nodes := reparent c (ppar ps None) h1\<rparr>) ps c"
    using d s(1) reparent_rep [OF c1 d(3)] by (auto simp: srep_def rt_def proot_not_nil)
  ultimately show ?thesis by blast
qed

section \<open>Swapping a node with the last one of its left subtree\<close>

lemma swap_adjacent_rep:
  assumes "srep s ((False, n, b, r) # ps) (Nd ml m mb Lf)"
  obtains s' where "swap_adjacent n m s = Some s'" "srep s' ((False, m, mb, r) # ps) (Nd ml n b Lf)"
proof -
  define h where "h = av_nodes s"
  define q where "q = ppar ps None"
  have s: "av_root s = proot ps (Some n)" "prep h ps (Some n) None" "rep h (Some n) r" "rep h (Some m) ml"
    and hn: "h n = Some \<lparr>nd_parent = q, nd_left = Some m, nd_right = rootid r, nd_balance = b\<rparr>"
    and hm: "h m = Some \<lparr>nd_parent = Some n, nd_left = rootid ml, nd_right = None, nd_balance = mb\<rparr>"
    and di: "distinct (n # inord r @ pids ps @ inord ml @ [m])"
    using assms by (auto simp: srep_def h_def q_def)
  have d: "n \<noteq> m" "m \<noteq> n" "n \<notin> set (inord r)" "m \<notin> set (inord r)" "n \<notin> set (inord ml)" "m \<notin> set (inord ml)" "n \<notin> set (pids ps)" "m \<notin> set (pids ps)"
    "set (inord ml) \<inter> set (inord r) = {}" "set (inord ml) \<inter> set (pids ps) = {}" "set (pids ps) \<inter> set (inord ml) = {}"
    "set (pids ps) \<inter> set (inord r) = {}" "set (inord r) \<inter> set (inord ml) = {}" "set (inord r) \<inter> set (pids ps) = {}"
    "distinct (inord r)" "distinct (inord ml)" "distinct (pids ps)" "rootid r \<noteq> Some m"
    using di rootid_in [of r m] by auto
  define h1 where "h1 = h(n \<mapsto> \<lparr>nd_parent = q, nd_left = rootid ml, nd_right = rootid r, nd_balance = b\<rparr>)"
  define h2 where "h2 = reparent ml (Some n) h1"
  define h3 where "h3 = h2(n \<mapsto> \<lparr>nd_parent = q, nd_left = rootid ml, nd_right = None, nd_balance = b\<rparr>)"
  define h4 where "h4 = h3(m \<mapsto> \<lparr>nd_parent = q, nd_left = rootid ml, nd_right = None, nd_balance = mb\<rparr>)"
  define rt where "rt = (if ps = [] then Some m else av_root s)"
  define h5 where "h5 = relink ps (Some m) h4"
  define h6 where "h6 = h5(m \<mapsto> \<lparr>nd_parent = q, nd_left = Some n, nd_right = None, nd_balance = mb\<rparr>)"
  define h7 where "h7 = h6(n \<mapsto> \<lparr>nd_parent = Some m, nd_left = rootid ml, nd_right = None, nd_balance = b\<rparr>)"
  define h8 where "h8 = h7(m \<mapsto> \<lparr>nd_parent = q, nd_left = Some n, nd_right = rootid r, nd_balance = mb\<rparr>)"
  define h9 where "h9 = reparent r (Some m) h8"
  note hs = h8_def h7_def h6_def h5_def h4_def h3_def h2_def h1_def
  have ml1: "rep h1 (Some m) ml" using s(4) d by (simp add: h1_def)
  have a1: "set_child_parent (rootid ml) (Some n) (s\<lparr>av_nodes := h1\<rparr>) = Some (s\<lparr>av_nodes := h2\<rparr>)"
    using set_child_parent_rep [of "s\<lparr>av_nodes := h1\<rparr>" "Some m" ml "Some n"] ml1 by (simp add: h2_def)
  have p4: "prep h4 ps (Some n) None" using s(2) d by (simp add: hs)
  have a5: "put_below q n (Some m) (s\<lparr>av_nodes := h4\<rparr>) = Some (s\<lparr>av_root := rt, av_nodes := h5\<rparr>)"
    using put_below_rep [of "s\<lparr>av_nodes := h4\<rparr>" ps n None "Some m"] p4 d by (simp add: q_def rt_def h5_def)
  have r8: "rep h8 (Some n) r" using s(3) d by (simp add: hs)
  have a9: "set_child_parent (rootid r) (Some m) (s\<lparr>av_root := rt, av_nodes := h8\<rparr>) = Some (s\<lparr>av_root := rt, av_nodes := h9\<rparr>)"
    using set_child_parent_rep [of "s\<lparr>av_root := rt, av_nodes := h8\<rparr>" "Some n" r "Some m"] r8 by (simp add: h9_def)
  have n2: "h2 n = Some \<lparr>nd_parent = q, nd_left = rootid ml, nd_right = rootid r, nd_balance = b\<rparr>" "h2 m = h m"
    using d by (simp_all add: h2_def h1_def)
  have s1: "set_link n False (rootid ml) s = Some (s\<lparr>av_nodes := h1\<rparr>)" using hn by (simp add: h1_def h_def)
  have s3: "set_link n True None (s\<lparr>av_nodes := h2\<rparr>) = Some (s\<lparr>av_nodes := h3\<rparr>)" using n2 by (simp add: h3_def)
  have s4: "set_parent m q (s\<lparr>av_nodes := h3\<rparr>) = Some (s\<lparr>av_nodes := h4\<rparr>)" using n2 hm d by (simp add: h3_def h4_def)
  have s5: "h5 m = h4 m" "h5 n = h3 n" using d by (simp_all add: h5_def h4_def)
  have s6: "set_link m False (Some n) (s\<lparr>av_root := rt, av_nodes := h5\<rparr>) = Some (s\<lparr>av_root := rt, av_nodes := h6\<rparr>)"
    using s5 by (simp add: h6_def h4_def)
  have s7: "set_parent n (Some m) (s\<lparr>av_root := rt, av_nodes := h6\<rparr>) = Some (s\<lparr>av_root := rt, av_nodes := h7\<rparr>)"
    using s5 d by (simp add: h7_def h6_def h3_def)
  have s8: "set_link m True (rootid r) (s\<lparr>av_root := rt, av_nodes := h7\<rparr>) = Some (s\<lparr>av_root := rt, av_nodes := h8\<rparr>)"
    using d by (simp add: h8_def h7_def h6_def)
  have g: "get_link n True s = Some (rootid r)" "get_link m False s = Some (rootid ml)" "get_link m True (s\<lparr>av_nodes := h2\<rparr>) = Some None"
    "get_parent n (s\<lparr>av_nodes := h3\<rparr>) = Some q"
    using hn hm n2 d by (simp_all add: h_def h3_def)
  have c0: "set_child_parent None (Some n) x = Some x" for x by (simp add: set_child_parent_def)
  have "swap_adjacent n m s = Some (s\<lparr>av_root := rt, av_nodes := h9\<rparr>)"
    using d(18) by (simp add: swap_adjacent_def g s1 a1 s3 c0 s4 a5 s6 s7 s8 a9)
  moreover have "srep (s\<lparr>av_root := rt, av_nodes := h9\<rparr>) ((False, m, mb, r) # ps) (Nd ml n b Lf)"
  proof -
    have "rep h2 (Some n) ml" unfolding h2_def by (rule reparent_rep [OF ml1 d(16)])
    then have "rep h9 (Some n) ml" using d by (simp add: h9_def h8_def h7_def h6_def h5_def h4_def h3_def)
    moreover have "rep h9 (Some m) r" unfolding h9_def by (rule reparent_rep [OF r8 d(15)])
    moreover have "prep h5 ps (Some m) None" unfolding h5_def by (rule relink_prep [OF p4 d(17)])
    then have "prep h9 ps (Some m) None" using d by (simp add: h9_def h8_def h7_def h6_def)
    moreover have "h9 m = h8 m" "h9 n = h7 n" using d by (simp_all add: h9_def h8_def)
    moreover have "proot ps (Some m) = rt" using s(1) by (auto simp: rt_def proot_not_nil)
    ultimately show ?thesis using di d by (auto simp: srep_def q_def h8_def h7_def)
  qed
  ultimately show thesis by (rule that)
qed

lemma swap_apart_rep:
  assumes "srep s (qs @ (False, n, b, r) # ps) (Nd ml m mb Lf)" "qs \<noteq> []"
  obtains s' where "swap_apart n m s = Some s'" "srep s' (qs @ (False, m, mb, r) # ps) (Nd ml n b Lf)"
proof -
  define h where "h = av_nodes s"
  define p where "p = ppar ps None"
  define q where "q = ppar qs (Some n)"
  define y where "y = proot qs (Some m)"
  have q: "ppar qs a = q" and y: "proot qs a = y" for a
    unfolding q_def y_def by (rule ppar_not_nil [OF assms(2)], rule proot_not_nil [OF assms(2)])
  have s: "av_root s = proot ps (Some n)" "prep h ps (Some n) None" "rep h (Some n) r" "rep h (Some m) ml" "prep h qs (Some m) (Some n)"
    and hn: "h n = Some \<lparr>nd_parent = p, nd_left = y, nd_right = rootid r, nd_balance = b\<rparr>"
    and hm: "h m = Some \<lparr>nd_parent = q, nd_left = rootid ml, nd_right = None, nd_balance = mb\<rparr>"
    and di: "distinct ((pids qs @ n # inord r @ pids ps) @ inord ml @ [m])"
    using assms(1) unfolding srep_def prep_append ppar_append proot_append pids_append q y h_def [symmetric]
    by (simp_all add: q p_def)
  have d: "n \<noteq> m" "m \<noteq> n" "n \<notin> set (inord r)" "m \<notin> set (inord r)" "n \<notin> set (inord ml)" "m \<notin> set (inord ml)" "n \<notin> set (pids ps)" "m \<notin> set (pids ps)"
    "n \<notin> set (pids qs)" "m \<notin> set (pids qs)" "distinct (inord r)" "distinct (inord ml)" "distinct (pids ps)" "distinct (pids qs)"
    using di by auto
  have e: "set (inord ml) \<inter> set (inord r) = {}" "set (inord r) \<inter> set (inord ml) = {}"
    "set (inord ml) \<inter> set (pids ps) = {}" "set (pids ps) \<inter> set (inord ml) = {}"
    "set (pids ps) \<inter> set (inord r) = {}" "set (inord r) \<inter> set (pids ps) = {}"
    "set (pids qs) \<inter> set (inord ml) = {}" "set (inord ml) \<inter> set (pids qs) = {}"
    "set (pids qs) \<inter> set (inord r) = {}" "set (inord r) \<inter> set (pids qs) = {}"
    "set (pids qs) \<inter> set (pids ps) = {}" "set (pids ps) \<inter> set (pids qs) = {}"
    using di by auto
  define h1 where "h1 = h(n \<mapsto> \<lparr>nd_parent = q, nd_left = y, nd_right = rootid r, nd_balance = b\<rparr>)"
  define h2 where "h2 = relink qs (Some n) h1"
  define h3 where "h3 = h2(m \<mapsto> \<lparr>nd_parent = p, nd_left = rootid ml, nd_right = None, nd_balance = mb\<rparr>)"
  define rt where "rt = (if ps = [] then Some m else av_root s)"
  define h4 where "h4 = relink ps (Some m) h3"
  define h5 where "h5 = h4(n \<mapsto> \<lparr>nd_parent = q, nd_left = rootid ml, nd_right = rootid r, nd_balance = b\<rparr>)"
  define h6 where "h6 = reparent ml (Some n) h5"
  define h7 where "h7 = h6(m \<mapsto> \<lparr>nd_parent = p, nd_left = y, nd_right = None, nd_balance = mb\<rparr>)"
  define h8 where "h8 = reparent_top qs (Some m) h7"
  define h9 where "h9 = h8(n \<mapsto> \<lparr>nd_parent = q, nd_left = rootid ml, nd_right = None, nd_balance = b\<rparr>)"
  define h10 where "h10 = h9(m \<mapsto> \<lparr>nd_parent = p, nd_left = y, nd_right = rootid r, nd_balance = mb\<rparr>)"
  define h11 where "h11 = reparent r (Some m) h10"
  have q1: "prep h1 qs (Some m) (Some n)" using s(5) d by (simp add: h1_def)
  have q2: "prep h2 qs (Some n) (Some n)" unfolding h2_def by (rule relink_prep [OF q1 d(14)])
  have p3: "prep h3 ps (Some n) None" using s(2) d e by (simp add: h3_def h2_def h1_def)
  have p4: "prep h4 ps (Some m) None" unfolding h4_def by (rule relink_prep [OF p3 d(13)])
  have ml5: "rep h5 (Some m) ml" using s(4) d e by (simp add: h5_def h4_def h3_def h2_def h1_def)
  have ml6: "rep h6 (Some n) ml" unfolding h6_def by (rule reparent_rep [OF ml5 d(12)])
  have q7: "prep h7 qs (Some n) (Some n)" using q2 d e by (simp add: h7_def h6_def h5_def h4_def h3_def)
  have q8: "prep h8 qs (Some n) (Some m)" unfolding h8_def by (rule reparent_top_prep [OF q7 d(14)])
  have r10: "rep h10 (Some n) r" using s(3) d e by (simp add: h10_def h9_def h8_def h7_def h6_def h5_def h4_def h3_def h2_def h1_def)
  have r11: "rep h11 (Some m) r" unfolding h11_def by (rule reparent_rep [OF r10 d(11)])
  have n: "h1 m = h m" "h2 m = h m" "h2 n = h1 n" "h3 n = h1 n" "h4 n = h1 n" "h4 m = h3 m" "h6 n = h5 n" "h6 m = h3 m" "h7 n = h5 n" "h8 n = h5 n" "h8 m = h7 m"
    using d by (simp_all add: h8_def h7_def h6_def h5_def h4_def h3_def h2_def h1_def)
  have a2: "put_below q m (Some n) (s\<lparr>av_nodes := h1\<rparr>) = Some (s\<lparr>av_nodes := h2\<rparr>)"
    using put_below_rep [of "s\<lparr>av_nodes := h1\<rparr>" qs m "Some n" "Some n"] q1 d assms(2) by (simp add: q h2_def)
  have a4: "put_below p n (Some m) (s\<lparr>av_nodes := h3\<rparr>) = Some (s\<lparr>av_root := rt, av_nodes := h4\<rparr>)"
    using put_below_rep [of "s\<lparr>av_nodes := h3\<rparr>" ps n None "Some m"] p3 d by (simp add: p_def rt_def h4_def)
  have a6: "set_child_parent (rootid ml) (Some n) (s\<lparr>av_root := rt, av_nodes := h5\<rparr>) = Some (s\<lparr>av_root := rt, av_nodes := h6\<rparr>)"
    using set_child_parent_rep [of "s\<lparr>av_root := rt, av_nodes := h5\<rparr>" "Some m" ml "Some n"] ml5 by (simp add: h6_def)
  have a8: "set_child_parent y (Some m) (s\<lparr>av_root := rt, av_nodes := h7\<rparr>) = Some (s\<lparr>av_root := rt, av_nodes := h8\<rparr>)"
    using set_child_parent_top [of "s\<lparr>av_root := rt, av_nodes := h7\<rparr>" qs "Some n" "Some n" "Some m"] q7 assms(2) by (simp add: y h8_def)
  have a11: "set_child_parent (rootid r) (Some m) (s\<lparr>av_root := rt, av_nodes := h10\<rparr>) = Some (s\<lparr>av_root := rt, av_nodes := h11\<rparr>)"
    using set_child_parent_rep [of "s\<lparr>av_root := rt, av_nodes := h10\<rparr>" "Some n" r "Some m"] r10 by (simp add: h11_def)
  have c0: "set_child_parent None a x = Some x" for a x by (simp add: set_child_parent_def)
  have sw0: "swap_links n m False (s\<lparr>av_root := rt, av_nodes := h4\<rparr>) = Some (s\<lparr>av_root := rt, av_nodes := h8\<rparr>)"
  proof -
    have "get_link n False (s\<lparr>av_root := rt, av_nodes := h4\<rparr>) = Some y" "get_link m False (s\<lparr>av_root := rt, av_nodes := h4\<rparr>) = Some (rootid ml)"
      using n by (simp_all add: h1_def h3_def)
    moreover have "set_link n False (rootid ml) (s\<lparr>av_root := rt, av_nodes := h4\<rparr>) = Some (s\<lparr>av_root := rt, av_nodes := h5\<rparr>)"
      using n by (simp add: h5_def h1_def)
    moreover have "set_link m False y (s\<lparr>av_root := rt, av_nodes := h6\<rparr>) = Some (s\<lparr>av_root := rt, av_nodes := h7\<rparr>)"
      using n by (simp add: h7_def h3_def)
    ultimately show ?thesis using a6 a8 by (simp add: swap_links_def)
  qed
  have sw1: "swap_links n m True (s\<lparr>av_root := rt, av_nodes := h8\<rparr>) = Some (s\<lparr>av_root := rt, av_nodes := h11\<rparr>)"
  proof -
    have "get_link n True (s\<lparr>av_root := rt, av_nodes := h8\<rparr>) = Some (rootid r)" "get_link m True (s\<lparr>av_root := rt, av_nodes := h8\<rparr>) = Some None"
      using n by (simp_all add: h5_def h7_def)
    moreover have "set_link n True None (s\<lparr>av_root := rt, av_nodes := h8\<rparr>) = Some (s\<lparr>av_root := rt, av_nodes := h9\<rparr>)"
      using n by (simp add: h9_def h5_def)
    moreover have "set_link m True (rootid r) (s\<lparr>av_root := rt, av_nodes := h9\<rparr>) = Some (s\<lparr>av_root := rt, av_nodes := h10\<rparr>)"
      using n d by (simp add: h10_def h9_def h7_def)
    ultimately show ?thesis using a11 by (simp add: swap_links_def c0)
  qed
  have "get_parent n s = Some p" "get_parent m s = Some q" using hn hm by (simp_all add: h_def)
  moreover have "set_parent n q s = Some (s\<lparr>av_nodes := h1\<rparr>)" using hn by (simp add: h1_def h_def)
  moreover have "set_parent m p (s\<lparr>av_nodes := h2\<rparr>) = Some (s\<lparr>av_nodes := h3\<rparr>)" using n hm by (simp add: h3_def)
  ultimately have "swap_apart n m s = Some (s\<lparr>av_root := rt, av_nodes := h11\<rparr>)"
    by (simp add: swap_apart_def a2 a4 sw0 sw1)
  moreover have "srep (s\<lparr>av_root := rt, av_nodes := h11\<rparr>) (qs @ (False, m, mb, r) # ps) (Nd ml n b Lf)"
  proof -
    have "prep h11 ps (Some m) None" using p4 d e by (simp add: h11_def h10_def h9_def h8_def h7_def h6_def h5_def)
    moreover have "prep h11 qs (Some n) (Some m)" using q8 d e by (simp add: h11_def h10_def h9_def)
    moreover have "rep h11 (Some n) ml" using ml6 d e by (simp add: h11_def h10_def h9_def h8_def h7_def)
    moreover have "h11 n = h9 n" "h11 m = h10 m" using d by (simp_all add: h11_def h10_def)
    moreover have "proot ps (Some m) = rt" using s(1) by (auto simp: rt_def proot_not_nil)
    ultimately show ?thesis using r11 di d
      by (auto simp: srep_def prep_append ppar_append proot_append pids_append q y p_def h9_def h10_def)
  qed
  ultimately show thesis by (rule that)
qed

lemma srep_distinct: "srep s ps t \<Longrightarrow> distinct (inord (plug ps t))"
  unfolding srep_def distinct_pids by blast

lemma plug_append: "plug (qs @ ps) t = plug ps (plug qs t)"
  by (induction qs arbitrary: t rule: pids.induct) auto

lemma srep_at: "srep s (qs @ (sd, x, b, u) # ps) t \<longleftrightarrow> srep s ps (nd sd (plug qs t) x b u)"
  by (simp add: srep_plug [of s "qs @ _"] srep_plug [of s ps] plug_append)

lemma set_balance_above:
  assumes "srep s (qs @ (sd, x, b, u) # ps) t"
  obtains s' where "set_balance x b' s = Some s'" "srep s' (qs @ (sd, x, b', u) # ps) t"
proof -
  have "srep s ps (nd sd (plug qs t) x b u)" using assms by (simp add: srep_at)
  then obtain s' where "set_balance x b' s = Some s'" "srep s' ps (nd sd (plug qs t) x b' u)" by (rule set_nd)
  with that show thesis by (simp add: srep_at)
qed

lemma swap_nodes_rep:
  assumes "srep s (qs @ (False, n, b, r) # ps) (Nd ml m mb Lf)"
  shows "\<exists>s'. BAVL_swap_nodes n m s = Some s' \<and> srep s' (qs @ (False, m, b, r) # ps) (Nd ml n mb Lf)"
proof -
  have at: "srep s ps (Nd (plug qs (Nd ml m mb Lf)) n b r)" using assms by (simp add: srep_at)
  have p: "get_parent n s = Some (ppar ps None)" by (rule node_rep(4) [OF at])
  have p2: "get_parent m s = Some (ppar (qs @ (False, n, b, r) # ps) None)" by (rule node_rep(4) [OF assms])
  have di: "distinct (pids (qs @ (False, n, b, r) # ps) @ inord (Nd ml m mb Lf))" using assms by (simp add: srep_def)
  have np: "ppar ps None \<noteq> Some m" using di by (cases "(ps, None :: nat option)" rule: ppar.cases) (auto simp: pids_append)
  have adj: "ppar (qs @ (False, n, b, r) # ps) None = Some n \<longleftrightarrow> qs = []"
    using di by (cases "(qs, None :: nat option)" rule: ppar.cases) (auto simp: pids_append)
  obtain s1 where s1: "(if ppar (qs @ (False, n, b, r) # ps) None = Some n \<or> ppar ps None = Some m
      then if ppar ps None = Some m then swap_adjacent m n s else swap_adjacent n m s else swap_apart n m s) = Some s1"
    "srep s1 (qs @ (False, m, mb, r) # ps) (Nd ml n b Lf)"
  proof (cases "qs = []")
    case True
    then have "srep s ((False, n, b, r) # ps) (Nd ml m mb Lf)" using assms by simp
    then obtain s1 where "swap_adjacent n m s = Some s1" "srep s1 ((False, m, mb, r) # ps) (Nd ml n b Lf)" by (rule swap_adjacent_rep)
    with True np that show thesis by simp
  next
    case False
    from swap_apart_rep [OF assms this] obtain s1 where
      "swap_apart n m s = Some s1" "srep s1 (qs @ (False, m, mb, r) # ps) (Nd ml n b Lf)" by blast
    with False np adj that show thesis by simp
  qed
  have b1: "get_balance n s1 = Some b" by (rule node_rep(1) [OF s1(2)])
  have "srep s1 ps (Nd (plug qs (Nd ml n b Lf)) m mb r)" using s1(2) by (simp add: srep_at)
  then have b2: "get_balance m s1 = Some mb" by (rule node_rep(1))
  obtain s2 where s2: "set_balance n mb s1 = Some s2" "srep s2 (qs @ (False, m, mb, r) # ps) (Nd ml n mb Lf)"
    using balance_rep(5) [OF s1(2)] by blast
  from s2(2) obtain s3 where s3: "set_balance m b s2 = Some s3" "srep s3 (qs @ (False, m, b, r) # ps) (Nd ml n mb Lf)"
    by (rule set_balance_above)
  from s3(2) show ?thesis using p p2 s1(1) b1 b2 s2(1) s3(1) by (simp add: BAVL_swap_nodes_def)
qed

section \<open>Removal\<close>

lemma last_rep:
  assumes "rep (av_nodes s) p t" "rootid t = Some c"
  shows "\<exists>qs ml m mb. t = plug qs (Nd ml m mb Lf) \<and> list_all fst qs \<and> BAVL_subtree_max s c = Some m"
  using assms
proof (induction t arbitrary: p c)
  case (Nd l n b r)
  then have x: "av_nodes s n = Some \<lparr>nd_parent = p, nd_left = rootid l, nd_right = rootid r, nd_balance = b\<rparr>" "c = n" by simp_all
  show ?case
  proof (cases "rootid r")
    case None
    then have "r = Lf" by (cases r) simp_all
    with x show ?thesis by (intro exI [of _ "[]"]) (simp add: BAVL_subtree_max.simps [of s n])
  next
    case (Some d)
    with Nd.IH(2) [of "Some n" d] Nd.prems obtain qs ml m mb where
      "r = plug qs (avl.Nd ml m mb Lf)" "list_all fst qs" "BAVL_subtree_max s d = Some m" by auto
    moreover have "plug (qs @ [(True, n, b, l)]) t = avl.Nd l n b (plug qs t)" for t by (simp add: plug_append)
    ultimately show ?thesis using x Some
      by (intro exI [of _ "qs @ [(True, n, b, l)]"] exI [of _ ml] exI [of _ m] exI [of _ mb]) (simp add: BAVL_subtree_max.simps [of s n])
  qed
qed simp

lemma find_place: "n \<in> set (inord t) \<Longrightarrow> \<exists>ps l b r. t = plug ps (Nd l n b r)"
proof (induction t)
  case (Nd l m b r)
  have ap: "plug (ps @ [(sd, x, c, u)]) t = nd sd (plug ps t) x c u" for ps sd x c u t by (simp add: plug_append)
  consider "n = m" | "n \<in> set (inord l)" | "n \<in> set (inord r)" using Nd.prems by auto
  then show ?case
  proof cases
    case 1
    then show ?thesis by (intro exI [of _ "[]"]) simp
  next
    case 2
    with Nd.IH(1) obtain ps l' b' r' where "l = plug ps (avl.Nd l' n b' r')" by blast
    with ap [of ps False m b r] show ?thesis by (metis nd_simps(1))
  next
    case 3
    with Nd.IH(2) obtain ps l' b' r' where "r = plug ps (avl.Nd l' n b' r')" by blast
    with ap [of ps True m b l] show ?thesis by (metis nd_simps(2))
  qed
qed simp

lemma remove_tail_rep:
  assumes s: "srep s ps (Nd l n b r)" and e: "l = Lf \<or> r = Lf" and ok: "avl_ok (plug ps (Nd l n b r))"
  shows "\<exists>s' t'. remove_tail n s = Some s' \<and> srep s' [] t' \<and> avl_ok t' \<and> inord t' = before_hole ps @ inord l @ inord r @ after_hole ps"
proof -
  define c where "c = (if l \<noteq> Lf then l else r)"
  have rid: "(if rootid l \<noteq> None then rootid l else rootid r) = rootid c" by (cases l) (simp_all add: c_def)
  have as: "\<not> (rootid l \<noteq> None \<and> rootid r \<noteq> None)" using e by auto
  obtain s1 where s1: "BAVL_replace_subtree n (rootid c) s = Some s1" "srep s1 ps c"
    using replace_rep [OF s e] by (auto simp: c_def)
  have inc: "inord c = inord l @ inord r" using e by (auto simp: c_def)
  have okn: "avl_ok (Nd l n b r)" "path_ok ps (ht (Nd l n b r))" using ok avl_ok_plug by blast+
  have okc: "avl_ok c" "ht c - (-1) = ht (Nd l n b r)" using okn(1) e by (auto simp: c_def)
  show ?thesis
  proof (cases ps)
    case Nil
    then have "remove_tail n s = Some s1" using s1(1) as rid node_rep [OF s] by (simp add: remove_tail_def)
    with Nil s1(2) okc(1) inc show ?thesis by auto
  next
    case (Cons f ps')
    obtain sd y bb u where f: "f = (sd, y, bb, u)" by (cases f)
    have s0: "srep s ((sd, y, bb, u) # ps') (Nd l n b r)" using s by (simp add: Cons f)
    note pa = parent_side [OF s0, simplified]
    have "path_ok ((sd, y, bb, u) # ps') (ht c - (-1))" using okn(2) okc(2) by (simp add: Cons f)
    from rebalance_rep [OF s1(2) [unfolded Cons f] okc(1) this] obtain s' t' where
      s': "BAVL_rebalance y sd (-1) s1 = Some s'" "srep s' [] t'" "avl_ok t'" "inord t' = inord (plug ((sd, y, bb, u) # ps') c)" by auto
    have "remove_tail n s = Some s'" using s1(1) as rid node_rep [OF s] pa s'(1) by (simp add: remove_tail_def Cons f)
    moreover have "inord t' = before_hole ps @ inord c @ after_hole ps" using s'(4) inord_plug [of ps c] by (simp add: Cons f)
    ultimately show ?thesis using s'(2,3) inc by auto
  qed
qed

lemma path_ok_relabel: "path_ok (qs @ (sd, n, b, u) # ps) h \<longleftrightarrow> path_ok (qs @ (sd, m, b, u) # ps) h"
  by (induction qs arbitrary: h rule: pids.induct) auto

lemma hole_append: "before_hole (qs @ ps) = before_hole ps @ before_hole qs" "after_hole (qs @ ps) = after_hole qs @ after_hole ps"
  by (induction qs rule: pids.induct) auto

lemma after_right: "list_all fst qs \<Longrightarrow> after_hole qs = []"
  by (induction qs rule: pids.induct) auto

lemma remove_rep:
  assumes s: "srep s [] t" and ok: "avl_ok t" and n: "n \<in> set (inord t)"
  shows "\<exists>s' t'. BAVL_Remove n s = Some s' \<and> srep s' [] t' \<and> avl_ok t' \<and> inord t' = remove1 n (inord t)"
proof -
  obtain ps l b r where t: "t = plug ps (Nd l n b r)" using find_place [OF n] by blast
  have s0: "srep s ps (Nd l n b r)" using s t srep_plug by simp
  have di: "distinct (inord t)" using srep_distinct [OF s] by simp
  have inr: "remove1 n (inord t) = before_hole ps @ inord l @ inord r @ after_hole ps"
    using di by (simp add: t inord_plug remove1_append)
  have split: "BAVL_Remove n s = (case (rootid l, rootid r) of
      (Some l, Some r) \<Rightarrow> do { m \<leftarrow> BAVL_subtree_max s l; s \<leftarrow> BAVL_swap_nodes n m s; remove_tail n s } | _ \<Rightarrow> remove_tail n s)"
    using node_rep [OF s0] by (auto simp: BAVL_Remove_def split: option.splits)
  show ?thesis
  proof (cases "l = Lf \<or> r = Lf")
    case True
    then have "BAVL_Remove n s = remove_tail n s" using split by (auto split: option.splits)
    with remove_tail_rep [OF s0 True] ok t inr show ?thesis by auto
  next
    case False
    then obtain cl cr where c: "rootid l = Some cl" "rootid r = Some cr" by (cases l; cases r) auto
    have "rep (av_nodes s) (Some n) l" using s0 by (simp add: srep_def)
    from last_rep [OF this c(1)] obtain qs ml m mb where
      m: "l = plug qs (Nd ml m mb Lf)" "list_all fst qs" "BAVL_subtree_max s cl = Some m" by blast
    have "srep s (qs @ (False, n, b, r) # ps) (Nd ml m mb Lf)" using s0 m(1) by (simp add: srep_at)
    from swap_nodes_rep [OF this] obtain s1 where
      s1: "BAVL_swap_nodes n m s = Some s1" "srep s1 (qs @ (False, m, b, r) # ps) (Nd ml n mb Lf)" by blast
    have tt: "t = plug (qs @ (False, n, b, r) # ps) (Nd ml m mb Lf)"
      by (simp add: t m(1) plug_append)
    have "avl_ok (Nd ml n mb Lf)" "path_ok (qs @ (False, m, b, r) # ps) (ht (Nd ml n mb Lf))"
      using ok path_ok_relabel [of qs False n b r ps _ m] by (auto simp: tt avl_ok_plug)
    then have "avl_ok (plug (qs @ (False, m, b, r) # ps) (Nd ml n mb Lf))" by (simp only: avl_ok_plug)
    from remove_tail_rep [OF s1(2) _ this] obtain s' t' where s': "remove_tail n s1 = Some s'" "srep s' [] t'" "avl_ok t'"
      "inord t' = before_hole (qs @ (False, m, b, r) # ps) @ inord ml @ after_hole (qs @ (False, m, b, r) # ps)" by auto
    have "inord t' = remove1 n (inord t)"
      using s'(4) inr after_right [OF m(2)] by (simp add: hole_append m(1) inord_plug)
    with split c m(3) s1(1) s' show ?thesis by auto
  qed
qed

section \<open>Going down\<close>

text \<open>
  \<open>f\<close> is what the comparator says of the value against each node; along the tree it goes from 1 through 0 to -1. The loop ends at a
  node that compares equal, or at the place where the value belongs.
\<close>

lemma descend_rep:
  assumes "rep (av_nodes s) p t" "rootid t = Some c" "\<forall>m\<in>set (inord t). compare m = Some (f m) \<and> (f m = -1 \<or> f m = 0 \<or> f m = 1)"
    "sorted_wrt (\<lambda>m n. f n \<le> f m) (inord t)" "\<forall>m\<in>set (before_hole ps). f m = 1" "\<forall>m\<in>set (after_hole ps). f m = -1"
  shows "(\<exists>m\<in>set (inord t). f m = (0::int) \<and> BAVL_descend compare s c = Some (m, None)) \<or>
    (\<exists>sd x b u qs. BAVL_descend compare s c = Some (x, Some sd) \<and> plug ((sd, x, b, u) # qs) Lf = plug ps t \<and>
      (\<forall>m\<in>set (before_hole ((sd, x, b, u) # qs)). f m = 1) \<and> (\<forall>m\<in>set (after_hole ((sd, x, b, u) # qs)). f m = -1))"
  using assms
proof (induction t arbitrary: p c ps)
  case (Nd l n b r)
  have x: "av_nodes s n = Some \<lparr>nd_parent = p, nd_left = rootid l, nd_right = rootid r, nd_balance = b\<rparr>" "c = n"
    "rep (av_nodes s) (Some n) l" "rep (av_nodes s) (Some n) r"
    using Nd.prems(1,2) by simp_all
  have fn: "compare n = Some (f n)" "f n = -1 \<or> f n = 0 \<or> f n = 1" using Nd.prems(3) by simp_all
  have cmp: "\<forall>m\<in>set (inord l). compare m = Some (f m) \<and> (f m = -1 \<or> f m = 0 \<or> f m = 1)"
    "\<forall>m\<in>set (inord r). compare m = Some (f m) \<and> (f m = -1 \<or> f m = 0 \<or> f m = 1)" using Nd.prems(3) by simp_all
  have so: "sorted_wrt (\<lambda>m n. f n \<le> f m) (inord l)" "sorted_wrt (\<lambda>m n. f n \<le> f m) (inord r)" using Nd.prems(4) by (simp_all add: sorted_wrt_append)
  have lo: "f n \<le> f m" if "m \<in> set (inord l)" for m using Nd.prems(4) that by (simp add: sorted_wrt_append)
  have hi: "f m \<le> f n" if "m \<in> set (inord r)" for m using Nd.prems(4) that by (simp add: sorted_wrt_append)
  have eq: "BAVL_descend compare s n = (if f n = 0 then Some (n, None)
      else (case (if f n = 1 then rootid r else rootid l) of None \<Rightarrow> Some (n, Some (f n = 1)) | Some d \<Rightarrow> BAVL_descend compare s d))"
    using fn x(1) by (subst BAVL_descend.simps) simp
  consider (found) "f n = 0" | (right) "f n = 1" | (left) "f n = -1" using fn(2) by blast
  then show ?case
  proof cases
    case found
    with eq x(2) show ?thesis by simp
  next
    case right
    let ?ps = "(True, n, b, l) # ps"
    have be: "\<forall>m\<in>set (before_hole ?ps). f m = 1" using Nd.prems(5) lo right cmp(1) by fastforce
    have af: "\<forall>m\<in>set (after_hole ?ps). f m = -1" using Nd.prems(6) by simp
    show ?thesis
    proof (cases "rootid r")
      case None
      then have "r = Lf" by (cases r) simp_all
      with eq None right x(2) be af show ?thesis
        by (intro disjI2 exI [of _ True] exI [of _ n] exI [of _ b] exI [of _ l] exI [of _ ps]) simp
    next
      case (Some d)
      have de: "BAVL_descend compare s c = BAVL_descend compare s d" using eq Some right x(2) by simp
      have pl: "plug ?ps r = plug ps (avl.Nd l n b r)" by simp
      have "set (inord r) \<subseteq> set (inord (avl.Nd l n b r))" by auto
      with Nd.IH(2) [OF x(4) Some cmp(2) so(2) be af, unfolded pl] show ?thesis unfolding de by blast
    qed
  next
    case left
    let ?ps = "(False, n, b, r) # ps"
    have be: "\<forall>m\<in>set (before_hole ?ps). f m = 1" using Nd.prems(5) by simp
    have af: "\<forall>m\<in>set (after_hole ?ps). f m = -1" using Nd.prems(6) hi left cmp(2) by fastforce
    show ?thesis
    proof (cases "rootid l")
      case None
      then have "l = Lf" by (cases l) simp_all
      with eq None left x(2) be af show ?thesis
        by (intro disjI2 exI [of _ False] exI [of _ n] exI [of _ b] exI [of _ r] exI [of _ ps]) simp
    next
      case (Some d)
      have de: "BAVL_descend compare s c = BAVL_descend compare s d" using eq Some left x(2) by simp
      have pl: "plug ?ps l = plug ps (avl.Nd l n b r)" by simp
      have "set (inord l) \<subseteq> set (inord (avl.Nd l n b r))" by auto
      with Nd.IH(1) [OF x(3) Some cmp(1) so(1) be af, unfolded pl] show ?thesis unfolding de by blast
    qed
  qed
qed simp

section \<open>Insertion\<close>

lemma hang_rep:
  assumes "srep s ((sd, x, b, u) # ps) Lf" "n \<notin> set (pids ((sd, x, b, u) # ps))"
  shows "\<exists>s1. set_link x sd (Some n) s = Some s1 \<and>
    srep (s1\<lparr>av_nodes := (av_nodes s1)(n \<mapsto> \<lparr>nd_parent = Some x, nd_left = None, nd_right = None, nd_balance = 0\<rparr>)\<rparr>)
      ((sd, x, b, u) # ps) (Nd Lf n 0 Lf)"
  using assms by (auto simp: srep_def)

lemma insert_rep:
  assumes s: "srep s [] t" and ok: "avl_ok t" and n: "n \<notin> set (inord t)"
    and f: "\<forall>m\<in>set (inord t). BAVL_compare cmp n m = Some (f m) \<and> (f m = -1 \<or> f m = 0 \<or> f m = 1)"
      "sorted_wrt (\<lambda>m n. f n \<le> f m) (inord t)"
  shows "(\<exists>m\<in>set (inord t). f m = (0::int) \<and> BAVL_Insert cmp n s = Some (0, Some m, s)) \<or>
    (\<exists>as bs ref s' t'. inord t = as @ bs \<and> (\<forall>m\<in>set as. f m = 1) \<and> (\<forall>m\<in>set bs. f m = -1) \<and>
      BAVL_Insert cmp n s = Some (1, ref, s') \<and> srep s' [] t' \<and> avl_ok t' \<and> inord t' = as @ n # bs)"
proof (cases "rootid t")
  case None
  then have "t = Lf" by (cases t) simp_all
  moreover have "av_root s = None" using s None by (simp add: srep_def)
  ultimately show ?thesis
    by (intro disjI2 exI [of _ "[]"] exI [of _ "[]"] exI [of _ None] exI [of _ "s\<lparr>av_root := Some n,
      av_nodes := (av_nodes s)(n \<mapsto> \<lparr>nd_parent = None, nd_left = None, nd_right = None, nd_balance = 0\<rparr>)\<rparr>"] exI [of _ "Nd Lf n 0 Lf"])
      (simp add: BAVL_Insert_def srep_def)
next
  case (Some c)
  have root: "av_root s = Some c" "rep (av_nodes s) None t" using s Some by (simp_all add: srep_def)
  from descend_rep [where ps = "[]", OF root(2) Some f] consider
    (found) m where "m \<in> set (inord t)" "f m = 0" "BAVL_descend (BAVL_compare cmp n) s c = Some (m, None)"
  | (leaf) sd x b u qs where "BAVL_descend (BAVL_compare cmp n) s c = Some (x, Some sd)" "plug ((sd, x, b, u) # qs) Lf = t"
      "\<forall>m\<in>set (before_hole ((sd, x, b, u) # qs)). f m = 1" "\<forall>m\<in>set (after_hole ((sd, x, b, u) # qs)). f m = -1"
    by auto
  then show ?thesis
  proof cases
    case found
    then have "BAVL_Insert cmp n s = Some (0, Some m, s)" using root(1) by (simp add: BAVL_Insert_def)
    with found show ?thesis by blast
  next
    case leaf
    let ?ps = "(sd, x, b, u) # qs"
    have s0: "srep s ?ps Lf" using s leaf(2) srep_plug by metis
    have "inord t = before_hole ?ps @ after_hole ?ps" using inord_plug [of ?ps Lf] leaf(2) by simp
    then have sp: "inord t = before_hole ?ps @ after_hole ?ps" "n \<notin> set (pids ?ps)" using n by (simp_all only: set_pids) simp
    from hang_rep [OF s0 sp(2)] obtain s1 where s1: "set_link x sd (Some n) s = Some s1"
      "srep (s1\<lparr>av_nodes := (av_nodes s1)(n \<mapsto> \<lparr>nd_parent = Some x, nd_left = None, nd_right = None, nd_balance = 0\<rparr>)\<rparr>) ?ps (Nd Lf n 0 Lf)"
      by blast
    have "avl_ok (plug ?ps Lf)" using ok leaf(2) by (simp only:)
    then have "path_ok ?ps (ht (Nd Lf n 0 Lf) - 1)" by (simp only: avl_ok_plug) simp
    from rebalance_rep [OF s1(2) _ this] obtain s' t' where
      s': "BAVL_rebalance x sd 1 (s1\<lparr>av_nodes := (av_nodes s1)(n \<mapsto> \<lparr>nd_parent = Some x, nd_left = None, nd_right = None, nd_balance = 0\<rparr>)\<rparr>) = Some s'"
        "srep s' [] t'" "avl_ok t'" "inord t' = inord (plug ?ps (Nd Lf n 0 Lf))" by auto
    have "BAVL_Insert cmp n s = Some (1, Some x, s')"
      using root(1) leaf(1) s1(1) s'(1) by (simp add: BAVL_Insert_def Let_def)
    moreover have "inord t' = before_hole ?ps @ n # after_hole ?ps" using s'(4) by (simp only: inord_plug) simp
    ultimately show ?thesis using sp(1) leaf(3,4) s'(2,3) by blast
  qed
qed

section \<open>Walks\<close>

lemma follow_first:
  assumes "rep (av_nodes s) p t" "rootid t = Some c"
  shows "follow_links False s c = Some (hd (inord t)) \<and> inord t \<noteq> []"
  using assms
proof (induction t arbitrary: p c)
  case (Nd l n b r)
  then have x: "av_nodes s n = Some \<lparr>nd_parent = p, nd_left = rootid l, nd_right = rootid r, nd_balance = b\<rparr>" "c = n" by simp_all
  show ?case
  proof (cases "rootid l")
    case None
    then have "l = Lf" by (cases l) simp_all
    with x show ?thesis by (simp add: follow_links.simps [of False s n])
  next
    case (Some d)
    with Nd.IH(1) [of "Some n" d] Nd.prems x show ?thesis by (simp add: follow_links.simps [of False s n])
  qed
qed simp

lemma follow_last:
  assumes "rep (av_nodes s) p t" "rootid t = Some c"
  shows "follow_links True s c = Some (last (inord t)) \<and> inord t \<noteq> []"
  using assms
proof (induction t arbitrary: p c)
  case (Nd l n b r)
  then have x: "av_nodes s n = Some \<lparr>nd_parent = p, nd_left = rootid l, nd_right = rootid r, nd_balance = b\<rparr>" "c = n" by simp_all
  show ?case
  proof (cases "rootid r")
    case None
    then have "r = Lf" by (cases r) simp_all
    with x show ?thesis by (simp add: follow_links.simps [of True s n])
  next
    case (Some d)
    with Nd.IH(2) [of "Some n" d] Nd.prems x show ?thesis by (simp add: follow_links.simps [of True s n])
  qed
qed simp

definition head :: "nat list \<Rightarrow> nat option" where
  "head xs = (case xs of [] \<Rightarrow> None | x # _ \<Rightarrow> Some x)"

lemma head_append: "head (xs @ ys) = (if xs = [] then head ys else head xs)"
  by (cases xs) (simp_all add: head_def)

lemma climb_rep:
  assumes "srep s ps t" "rootid t = Some n"
  shows "climb_links True s n = Some (head (after_hole ps))" "climb_links False s n = Some (head (rev (before_hole ps)))"
  using assms
proof (induction ps arbitrary: t n rule: pids.induct)
  case 1
  case (1 t n)
  then have "get_parent n s = Some None" by (cases t) (auto simp: srep_def)
  then show ?case by (subst climb_links.simps) (simp add: head_def)
next
  case 1
  case (2 t n)
  then have "get_parent n s = Some None" by (cases t) (auto simp: srep_def)
  then show ?case by (subst climb_links.simps) (simp add: head_def)
next
  case (2 sd x b u ps)
  case (1 t n)
  note pa = parent_side [OF 1]
  have s: "srep s ps (nd sd t x b u)" using 1(1) by (simp add: srep_up)
  show ?case
  proof (cases sd)
    case True
    with 2(1) [OF s rootid_nd] pa show ?thesis by (subst climb_links.simps) simp
  next
    case False
    with pa show ?thesis by (subst climb_links.simps) (simp add: head_def)
  qed
next
  case (2 sd x b u ps)
  case (2 t n)
  note pa = parent_side [OF 2]
  have s: "srep s ps (nd sd t x b u)" using 2(1) by (simp add: srep_up)
  have x: "get_link x False s = Some (if sd then rootid u else Some n)" using 2 by (auto simp: srep_def)
  have "n \<notin> set (inord u)" using 2(1) rootid_in [OF 2(2)] by (auto simp: srep_def)
  then have nu: "rootid u \<noteq> Some n" using rootid_in by blast
  show ?case
  proof (cases sd)
    case True
    with pa x nu show ?thesis by (subst climb_links.simps) (simp add: head_def)
  next
    case False
    with \<open>\<And>t n. srep s ps t \<Longrightarrow> rootid t = Some n \<Longrightarrow> climb_links False s n = Some (head (rev (before_hole ps)))\<close> [OF s rootid_nd] pa x
    show ?thesis by (subst climb_links.simps) simp
  qed
qed

lemma next_rep:
  assumes "srep s ps (Nd l n b r)"
  shows "BAVL_GetNext n s = Some (head (inord r @ after_hole ps))" "BAVL_GetPrev n s = Some (head (rev (before_hole ps @ inord l)))"
proof -
  have r: "rep (av_nodes s) (Some n) r" "rep (av_nodes s) (Some n) l" using assms by (simp_all add: srep_def)
  note cl = climb_rep [OF assms rootid.simps(2)]
  show "BAVL_GetNext n s = Some (head (inord r @ after_hole ps))"
  proof (cases "rootid r")
    case None
    then have "r = Lf" by (cases r) simp_all
    then show ?thesis using node_rep [OF assms] cl(1) by (simp add: BAVL_GetNext_def)
  next
    case (Some d)
    from follow_first [OF r(1) Some] Some node_rep [OF assms] show ?thesis
      by (cases "inord r") (simp_all add: BAVL_GetNext_def head_def)
  qed
  show "BAVL_GetPrev n s = Some (head (rev (before_hole ps @ inord l)))"
  proof (cases "rootid l")
    case None
    then have "l = Lf" by (cases l) simp_all
    then show ?thesis using node_rep [OF assms] cl(2) by (simp add: BAVL_GetPrev_def)
  next
    case (Some d)
    from follow_last [OF r(2) Some] Some node_rep [OF assms] show ?thesis
      by (cases "inord l" rule: rev_cases) (simp_all add: BAVL_GetPrev_def head_def)
  qed
qed

section \<open>The check\<close>

lemma assert_rep:
  assumes "rep (av_nodes s) p t" "rootid t = Some c" "avl_ok t" "sorted_wrt (\<lambda>m n. cmp m n = -1 \<and> cmp n m = 1) (inord t)"
  shows "assert_recurser cmp s c = Some (ht t)"
  using assms
proof (induction t arbitrary: p c)
  case (Nd l n b r)
  have x: "av_nodes s n = Some \<lparr>nd_parent = p, nd_left = rootid l, nd_right = rootid r, nd_balance = b\<rparr>" "c = n"
    "rep (av_nodes s) (Some n) l" "rep (av_nodes s) (Some n) r" using Nd.prems(1,2) by simp_all
  have so: "sorted_wrt (\<lambda>m n. cmp m n = -1 \<and> cmp n m = 1) (inord l)" "sorted_wrt (\<lambda>m n. cmp m n = -1 \<and> cmp n m = 1) (inord r)"
    "\<forall>m\<in>set (inord l). cmp m n = -1" "\<forall>m\<in>set (inord r). cmp m n = 1" using Nd.prems(4) by (simp_all add: sorted_wrt_append)
  have ok: "avl_ok l" "avl_ok r" "-1 \<le> b" "b \<le> 1" "b = ht r - ht l" using Nd.prems(3) by simp_all
  have l: "(case rootid l of None \<Rightarrow> Some 0 | Some m \<Rightarrow> do {
       p \<leftarrow> get_parent m s; ASSERT (p = Some n); c \<leftarrow> BAVL_compare cmp m n; ASSERT (c = -1); assert_recurser cmp s m }) = Some (ht l)"
  proof (cases l)
    case l: (Nd l1 d b1 r1)
    have "get_parent d s = Some (Some n)" "cmp d n = -1" using x(3) so(3) by (simp_all add: l)
    with Nd.IH(1) [OF x(3) _ ok(1) so(1), of d] show ?thesis by (simp add: l BAVL_compare_def)
  qed simp
  have r: "(case rootid r of None \<Rightarrow> Some 0 | Some m \<Rightarrow> do {
       p \<leftarrow> get_parent m s; ASSERT (p = Some n); c \<leftarrow> BAVL_compare cmp m n; ASSERT (c = 1); assert_recurser cmp s m }) = Some (ht r)"
  proof (cases r)
    case r: (Nd l1 d b1 r1)
    have "get_parent d s = Some (Some n)" "cmp d n = 1" using x(4) so(4) by (simp_all add: r)
    with Nd.IH(2) [OF x(4) _ ok(2) so(2), of d] show ?thesis by (simp add: r BAVL_compare_def)
  qed simp
  show ?case unfolding x(2) using l r x(1) ok(3-5) by (subst assert_recurser.simps) simp
qed simp

end
