(* ===== verification/BavlSpec.thy ===== *)
theory BavlSpec
  imports BavlOps UdpGwClient
begin

text \<open>
  The contract of theory SearchTree, as the interface between a tree and its user, and its proof for structure/BAVL.h: every sequence of
  operations gives the results that the sorted sequence of nodes gives, and leaves a tree that passes \<^verbatim>\<open>BAVL_Verify\<close>. The last part
  applies this to the two trees of udpgw_client/UdpGwClient.c.
\<close>

section \<open>Operations on the sequence of nodes\<close>

datatype 'k tree_op = TrInsert nat | TrRemove nat | TrLookup 'k | TrFirst | TrLast | TrNext nat | TrPrev nat | TrIsEmpty

datatype tree_res = ResInt int | ResNode "nat option" | ResVoid

definition following :: "nat \<Rightarrow> nat list \<Rightarrow> nat option" where
  "following n xs = head (List.tl (dropWhile (\<lambda>m. m \<noteq> n) xs))"

fun list_op :: "('k \<Rightarrow> 'k \<Rightarrow> int) \<Rightarrow> (nat \<Rightarrow> 'k) \<Rightarrow> nat list \<Rightarrow> 'k tree_op \<Rightarrow> tree_res \<times> nat list" where
  "list_op cmp keyof xs (TrInsert n) =
     (case tree_insert (\<lambda>m n. cmp (keyof m) (keyof n)) n xs of None \<Rightarrow> (ResInt 0, xs) | Some ys \<Rightarrow> (ResInt 1, ys))"
| "list_op cmp keyof xs (TrRemove n) = (ResVoid, tree_remove n xs)"
| "list_op cmp keyof xs (TrLookup k) = (ResNode (tree_lookup (\<lambda>k n. cmp k (keyof n)) k xs), xs)"
| "list_op cmp keyof xs TrFirst = (ResNode (head xs), xs)"
| "list_op cmp keyof xs TrLast = (ResNode (head (rev xs)), xs)"
| "list_op cmp keyof xs (TrNext n) = (ResNode (following n xs), xs)"
| "list_op cmp keyof xs (TrPrev n) = (ResNode (following n (rev xs)), xs)"
| "list_op cmp keyof xs TrIsEmpty = (ResInt (of_bool (xs = [])), xs)"

fun bavl_op :: "('k \<Rightarrow> 'k \<Rightarrow> int) \<Rightarrow> (nat \<Rightarrow> 'k) \<Rightarrow> BAVL \<Rightarrow> 'k tree_op \<Rightarrow> (tree_res \<times> BAVL) option" where
  "bavl_op cmp keyof s (TrInsert n) = do {
     (r, ref, s) \<leftarrow> BAVL_Insert (\<lambda>m n. cmp (keyof m) (keyof n)) n s;
     Some (ResInt r, s)
   }"
| "bavl_op cmp keyof s (TrRemove n) = do { s \<leftarrow> BAVL_Remove n s; Some (ResVoid, s) }"
| "bavl_op cmp keyof s (TrLookup k) = do { r \<leftarrow> BAVL_LookupExact (\<lambda>k n. cmp k (keyof n)) k s; Some (ResNode r, s) }"
| "bavl_op cmp keyof s TrFirst = do { r \<leftarrow> BAVL_GetFirst s; Some (ResNode r, s) }"
| "bavl_op cmp keyof s TrLast = do { r \<leftarrow> BAVL_GetLast s; Some (ResNode r, s) }"
| "bavl_op cmp keyof s (TrNext n) = do { r \<leftarrow> BAVL_GetNext n s; Some (ResNode r, s) }"
| "bavl_op cmp keyof s (TrPrev n) = do { r \<leftarrow> BAVL_GetPrev n s; Some (ResNode r, s) }"
| "bavl_op cmp keyof s TrIsEmpty = Some (ResInt (of_bool (BAVL_IsEmpty s)), s)"

text \<open>A node is inserted when it is not in the tree; it is removed, or asked for its neighbours, when it is.\<close>

fun op_allowed :: "('k \<Rightarrow> bool) \<Rightarrow> (nat \<Rightarrow> 'k) \<Rightarrow> nat list \<Rightarrow> 'k tree_op \<Rightarrow> bool" where
  "op_allowed key keyof xs (TrInsert n) \<longleftrightarrow> n \<notin> set xs \<and> key (keyof n)"
| "op_allowed key keyof xs (TrLookup k) \<longleftrightarrow> key k"
| "op_allowed key keyof xs (TrRemove n) \<longleftrightarrow> n \<in> set xs"
| "op_allowed key keyof xs (TrNext n) \<longleftrightarrow> n \<in> set xs"
| "op_allowed key keyof xs (TrPrev n) \<longleftrightarrow> n \<in> set xs"
| "op_allowed key keyof xs _ \<longleftrightarrow> True"

section \<open>Implementing operations\<close>

fun run_ops :: "('s \<Rightarrow> 'o \<Rightarrow> ('r \<times> 's) option) \<Rightarrow> 's \<Rightarrow> 'o list \<Rightarrow> ('r list \<times> 's) option" where
  "run_ops f s [] = Some ([], s)"
| "run_ops f s (x # xs) = do { (r, s) \<leftarrow> f s x; (rs, s) \<leftarrow> run_ops f s xs; Some (r # rs, s) }"

fun run_spec :: "('a \<Rightarrow> 'o \<Rightarrow> 'r \<times> 'a) \<Rightarrow> 'a \<Rightarrow> 'o list \<Rightarrow> 'r list \<times> 'a" where
  "run_spec g a [] = ([], a)"
| "run_spec g a (x # xs) = (let (r, a) = g a x; (rs, a) = run_spec g a xs in (r # rs, a))"

fun all_allowed :: "('a \<Rightarrow> 'o \<Rightarrow> bool) \<Rightarrow> ('a \<Rightarrow> 'o \<Rightarrow> 'r \<times> 'a) \<Rightarrow> 'a \<Rightarrow> 'o list \<Rightarrow> bool" where
  "all_allowed ok g a [] \<longleftrightarrow> True"
| "all_allowed ok g a (x # xs) \<longleftrightarrow> ok a x \<and> all_allowed ok g (snd (g a x)) xs"

text \<open>An implementation of an abstract data type: each operation that is allowed returns what the specification says.\<close>

locale implementation =
  fixes holds :: "'s \<Rightarrow> 'a \<Rightarrow> bool"
    and impl :: "'s \<Rightarrow> 'o \<Rightarrow> ('r \<times> 's) option"
    and spec :: "'a \<Rightarrow> 'o \<Rightarrow> 'r \<times> 'a"
    and allowed :: "'a \<Rightarrow> 'o \<Rightarrow> bool"
  assumes one_op: "holds s a \<Longrightarrow> allowed a x \<Longrightarrow> \<exists>s'. impl s x = Some (fst (spec a x), s') \<and> holds s' (snd (spec a x))"
begin

lemma all_ops:
  assumes "holds s a" "all_allowed allowed spec a xs"
  shows "\<exists>s'. run_ops impl s xs = Some (fst (run_spec spec a xs), s') \<and> holds s' (snd (run_spec spec a xs))"
  using assms
proof (induction xs arbitrary: s a)
  case Nil
  then show ?case by simp
next
  case (Cons x xs)
  from one_op [of s a x] Cons.prems obtain s1 where s1: "impl s x = Some (fst (spec a x), s1)" "holds s1 (snd (spec a x))" by auto
  with Cons.IH [OF s1(2)] Cons.prems obtain s' where
    "run_ops impl s1 xs = Some (fst (run_spec spec (snd (spec a x)) xs), s')" "holds s' (snd (run_spec spec (snd (spec a x)) xs))" by auto
  with s1(1) show ?case by (auto simp: Let_def split: prod.splits)
qed

end

section \<open>BAVL implements sorted sequences\<close>

definition three_way :: "('k \<Rightarrow> 'k \<Rightarrow> int) \<Rightarrow> bool" where
  "three_way cmp \<longleftrightarrow> (\<forall>x y. cmp x y = -1 \<or> cmp x y = 0 \<or> cmp x y = 1)"

definition bavl_holds :: "('k \<Rightarrow> 'k \<Rightarrow> int) \<Rightarrow> (nat \<Rightarrow> 'k) \<Rightarrow> ('k \<Rightarrow> bool) \<Rightarrow> BAVL \<Rightarrow> nat list \<Rightarrow> bool" where
  "bavl_holds cmp keyof key s xs \<longleftrightarrow> comparator cmp key \<and> three_way cmp \<and> ordered_by cmp keyof xs \<and> (\<forall>n\<in>set xs. key (keyof n)) \<and>
     (\<exists>t. srep s [] t \<and> avl_ok t \<and> inord t = xs)"

lemma tree_insert_at:
  assumes "\<forall>m\<in>set as. cmp n m = (1::int)" "\<forall>m\<in>set bs. cmp n m = -1"
  shows "tree_insert cmp n (as @ bs) = Some (as @ n # bs)"
  using assms by (induction as) (auto split: list.split intro: list.exhaust [of bs])

lemma tree_insert_there:
  assumes "sorted_wrt (\<lambda>a b. cmp n b \<le> cmp n a) xs" "m \<in> set xs" "cmp n m = (0::int)"
  shows "tree_insert cmp n xs = None"
  using assms by (induction xs) auto

text \<open>Against one key, the nodes of an ordered tree compare first greater, then equal, then less.\<close>

lemma compare_down:
  assumes c: "comparator cmp key" "three_way cmp" and xs: "ordered_by cmp keyof xs" "\<forall>n\<in>set xs. key (keyof n)" and k: "key k"
  shows "sorted_wrt (\<lambda>m n. cmp k (keyof n) \<le> cmp k (keyof m)) xs"
proof (rule sorted_wrt_mono_rel)
  show "sorted_wrt (\<lambda>m n. cmp (keyof m) (keyof n) < 0) xs" using xs(1) by (simp add: ordered_by_def)
  fix m n
  assume m: "m \<in> set xs" "n \<in> set xs" "cmp (keyof m) (keyof n) < 0"
  have kk: "key (keyof m)" "key (keyof n)" using m xs(2) by simp_all
  have t: "cmp k (keyof n) = -1 \<or> cmp k (keyof n) = 0 \<or> cmp k (keyof n) = 1" using c(2) unfolding three_way_def by blast
  consider "cmp k (keyof m) = 1" | "cmp k (keyof m) = 0" | "cmp k (keyof m) = -1" using c(2) unfolding three_way_def by blast
  then show "cmp k (keyof n) \<le> cmp k (keyof m)"
  proof cases
    case 1
    with t show ?thesis by auto
  next
    case 2
    then have "k = keyof m" using comparator.cmp_zero [OF c(1) k kk(1)] by simp
    with m(3) 2 show ?thesis by simp
  next
    case 3
    with comparator.cmp_trans [OF c(1) k kk _ m(3)] have "cmp k (keyof n) < 0" by simp
    with t 3 show ?thesis by auto
  qed
qed

lemma compare_three: "three_way cmp \<Longrightarrow> BAVL_compare (\<lambda>k n. cmp k (keyof n)) k m = Some (cmp k (keyof m))"
  "three_way cmp \<Longrightarrow> BAVL_compare (\<lambda>m n. cmp (keyof m) (keyof n)) n m = Some (cmp (keyof n) (keyof m))"
  "three_way cmp \<Longrightarrow> cmp x y = -1 \<or> cmp x y = 0 \<or> cmp x y = 1"
  by (auto simp: BAVL_compare_def three_way_def)

lemma lookup_impl:
  assumes h: "bavl_holds cmp keyof key s xs" and k: "key k"
  shows "BAVL_LookupExact (\<lambda>k n. cmp k (keyof n)) k s = Some (tree_lookup (\<lambda>k n. cmp k (keyof n)) k xs)"
proof -
  from h obtain t where c: "comparator cmp key" "three_way cmp" and o': "ordered_by cmp keyof xs" "\<forall>n\<in>set xs. key (keyof n)"
    and t: "srep s [] t" "inord t = xs" unfolding bavl_holds_def by blast
  show ?thesis
  proof (cases "rootid t")
    case None
    then have "t = Lf" by (cases t) simp_all
    with t None show ?thesis by (auto simp: BAVL_LookupExact_def srep_def tree_lookup_def)
  next
    case (Some r)
    have root: "av_root s = Some r" "rep (av_nodes s) None t" using t(1) Some by (simp_all add: srep_def)
    let ?f = "\<lambda>n. cmp k (keyof n)"
    have f: "\<forall>m\<in>set (inord t). BAVL_compare (\<lambda>k n. cmp k (keyof n)) k m = Some (?f m) \<and> (?f m = -1 \<or> ?f m = 0 \<or> ?f m = 1)"
      using compare_three [OF c(2)] by simp
    have so: "sorted_wrt (\<lambda>m n. ?f n \<le> ?f m) (inord t)" using compare_down [OF c o' k] t(2) by simp
    from descend_rep [where ps = "[]", OF root(2) Some f so] consider
      (found) m where "m \<in> set (inord t)" "?f m = 0" "BAVL_descend (BAVL_compare (\<lambda>k n. cmp k (keyof n)) k) s r = Some (m, None)"
    | (leaf) sd x b u qs where "BAVL_descend (BAVL_compare (\<lambda>k n. cmp k (keyof n)) k) s r = Some (x, Some sd)" "plug ((sd, x, b, u) # qs) Lf = t"
        "\<forall>m\<in>set (before_hole ((sd, x, b, u) # qs)). ?f m = 1" "\<forall>m\<in>set (after_hole ((sd, x, b, u) # qs)). ?f m = -1"
      by auto
    then show ?thesis
    proof cases
      case found
      have km: "keyof m = k" using comparator.cmp_zero [OF c(1) k] o'(2) found(1,2) t(2) by force
      have inj: "inj_on keyof (set xs)" by (rule comparator.ordered_distinct(2) [OF c(1) o'])
      have "find (\<lambda>n. keyof n = k) xs = Some m"
      proof (cases "find (\<lambda>n. keyof n = k) xs")
        case None
        with found(1) km t(2) show ?thesis by (auto simp: find_None_iff)
      next
        case (Some m')
        then have "m' \<in> set xs" "keyof m' = k" by (auto simp: find_Some_iff)
        with inj km found(1) t(2) have "m' = m" by (auto dest: inj_onD)
        with Some show ?thesis by simp
      qed
      with found root comparator.tree_lookup_eq [OF c(1) k o'(2)] show ?thesis by (simp add: BAVL_LookupExact_def)
    next
      case leaf
      have "xs = before_hole ((sd, x, b, u) # qs) @ after_hole ((sd, x, b, u) # qs)"
        using inord_plug [of "(sd, x, b, u) # qs" Lf] leaf(2) t(2) by simp
      with leaf(3,4) have "\<forall>m\<in>set xs. ?f m \<noteq> 0" by auto
      then have "find (\<lambda>n. ?f n = 0) xs = None" by (auto simp: find_None_iff)
      with leaf root show ?thesis by (simp add: BAVL_LookupExact_def tree_lookup_def)
    qed
  qed
qed

lemma insert_impl:
  assumes h: "bavl_holds cmp keyof key s xs" and n: "n \<notin> set xs" "key (keyof n)"
  shows "\<exists>s'. bavl_op cmp keyof s (TrInsert n) = Some (fst (list_op cmp keyof xs (TrInsert n)), s') \<and>
    bavl_holds cmp keyof key s' (snd (list_op cmp keyof xs (TrInsert n)))"
proof -
  from h obtain t where c: "comparator cmp key" "three_way cmp" and o': "ordered_by cmp keyof xs" "\<forall>n\<in>set xs. key (keyof n)"
    and t: "srep s [] t" "avl_ok t" "inord t = xs" unfolding bavl_holds_def by blast
  let ?cmp = "\<lambda>m n. cmp (keyof m) (keyof n)"
  have f: "\<forall>m\<in>set (inord t). BAVL_compare ?cmp n m = Some (?cmp n m) \<and> (?cmp n m = -1 \<or> ?cmp n m = 0 \<or> ?cmp n m = 1)"
    using compare_three [OF c(2)] by simp
  have so: "sorted_wrt (\<lambda>a b. ?cmp n b \<le> ?cmp n a) (inord t)" using compare_down [OF c o' n(2)] t(3) by simp
  have nt: "n \<notin> set (inord t)" using n(1) t(3) by simp
  from insert_rep [OF t(1,2) nt f so] consider
    (there) m where "m \<in> set (inord t)" "?cmp n m = 0" "BAVL_Insert ?cmp n s = Some (0, Some m, s)"
  | (new) as bs ref s' t' where "inord t = as @ bs" "\<forall>m\<in>set as. ?cmp n m = 1" "\<forall>m\<in>set bs. ?cmp n m = -1"
      "BAVL_Insert ?cmp n s = Some (1, ref, s')" "srep s' [] t'" "avl_ok t'" "inord t' = as @ n # bs"
    by auto
  then show ?thesis
  proof cases
    case there
    have "tree_insert ?cmp n xs = None" by (rule tree_insert_there [where m = m]) (use so there(1,2) t(3) in simp_all)
    with there(3) h show ?thesis by simp
  next
    case new
    have ti: "tree_insert ?cmp n xs = Some (as @ n # bs)" using tree_insert_at [of as ?cmp n bs] new(1-3) t(3) by simp
    have "keyof n \<notin> keyof ` set xs"
    proof
      assume "keyof n \<in> keyof ` set xs"
      then obtain m where "m \<in> set xs" "?cmp n m = 0" using comparator.cmp_refl [OF c(1) n(2)] by auto
      with new(1-3) t(3) show False by auto
    qed
    from comparator.tree_insert_spec [OF c(1) o' n(2) this] ti have "ordered_by cmp keyof (as @ n # bs)" "set (as @ n # bs) = insert n (set xs)"
      by auto
    with c o'(2) n(2) new(5-7) have "bavl_holds cmp keyof key s' (as @ n # bs)" unfolding bavl_holds_def by (metis insert_iff)
    with ti new(4) show ?thesis by simp
  qed
qed

lemma remove_impl:
  assumes h: "bavl_holds cmp keyof key s xs" and n: "n \<in> set xs"
  shows "\<exists>s'. BAVL_Remove n s = Some s' \<and> bavl_holds cmp keyof key s' (tree_remove n xs)"
proof -
  from h obtain t where t: "srep s [] t" "avl_ok t" "inord t = xs" unfolding bavl_holds_def by blast
  have "n \<in> set (inord t)" using n t(3) by simp
  from remove_rep [OF t(1,2) this] t(3) obtain s' t' where
    "BAVL_Remove n s = Some s'" "srep s' [] t'" "avl_ok t'" "inord t' = remove1 n xs" by blast
  moreover have "set (remove1 n xs) \<subseteq> set xs" by (rule set_remove1_subset)
  ultimately show ?thesis using h ordered_by_remove [of cmp keyof xs n] unfolding bavl_holds_def tree_remove_def by blast
qed

lemma walk_impl:
  assumes h: "bavl_holds cmp keyof key s xs"
  shows "BAVL_GetFirst s = Some (head xs)" "BAVL_GetLast s = Some (head (rev xs))" "BAVL_IsEmpty s = (xs = [])"
    "n \<in> set xs \<Longrightarrow> BAVL_GetNext n s = Some (following n xs)" "n \<in> set xs \<Longrightarrow> BAVL_GetPrev n s = Some (following n (rev xs))"
proof -
  from h obtain t where t: "srep s [] t" "avl_ok t" "inord t = xs" unfolding bavl_holds_def by blast
  have "BAVL_GetFirst s = Some (head xs) \<and> BAVL_GetLast s = Some (head (rev xs)) \<and> BAVL_IsEmpty s = (xs = [])"
  proof (cases "rootid t")
    case None
    then have "t = Lf" by (cases t) simp_all
    with t None show ?thesis by (auto simp: BAVL_GetFirst_def BAVL_GetLast_def BAVL_IsEmpty_def srep_def head_def)
  next
    case (Some r)
    have root: "av_root s = Some r" "rep (av_nodes s) None t" using t(1) Some by (simp_all add: srep_def)
    have ne: "xs \<noteq> []" using follow_first [OF root(2) Some] t(3) by simp
    have "head xs = Some (hd xs)" using ne by (cases xs) (simp_all add: head_def)
    moreover have "head (rev xs) = Some (last xs)" using ne by (cases xs rule: rev_cases) (simp_all add: head_def)
    ultimately show ?thesis using follow_first [OF root(2) Some] follow_last [OF root(2) Some] root(1) t(3) ne
      by (simp add: BAVL_GetFirst_def BAVL_GetLast_def BAVL_IsEmpty_def)
  qed
  then show "BAVL_GetFirst s = Some (head xs)" "BAVL_GetLast s = Some (head (rev xs))" "BAVL_IsEmpty s = (xs = [])" by blast+
  assume n: "n \<in> set xs"
  from find_place [of n t] n t(3) obtain ps l b r where p: "t = plug ps (Nd l n b r)" by auto
  have s: "srep s ps (Nd l n b r)" using t(1) p srep_plug by simp
  have xs: "xs = (before_hole ps @ inord l) @ n # inord r @ after_hole ps" using t(3) p by (simp add: inord_plug)
  have di: "n \<notin> set (before_hole ps @ inord l)" "n \<notin> set (inord r @ after_hole ps)" using srep_distinct [OF t(1)] t(3) xs by auto
  have f: "following n (as @ n # bs) = head bs" if "n \<notin> set as" for as bs
    using that by (induction as) (simp_all add: following_def)
  have "following n xs = head (inord r @ after_hole ps)" unfolding xs by (rule f [OF di(1)])
  with next_rep(1) [OF s] show "BAVL_GetNext n s = Some (following n xs)" by simp
  have "rev xs = rev (inord r @ after_hole ps) @ n # rev (before_hole ps @ inord l)" by (simp add: xs)
  moreover have "n \<notin> set (rev (inord r @ after_hole ps))" using di(2) by simp
  then have "following n (rev (inord r @ after_hole ps) @ n # rev (before_hole ps @ inord l)) = head (rev (before_hole ps @ inord l))" by (rule f)
  ultimately have "following n (rev xs) = head (rev (before_hole ps @ inord l))" by simp
  with next_rep(2) [OF s] show "BAVL_GetPrev n s = Some (following n (rev xs))" by simp
qed

interpretation bavl: implementation "bavl_holds cmp keyof key" "bavl_op cmp keyof" "list_op cmp keyof" "op_allowed key keyof"
  for cmp :: "'k \<Rightarrow> 'k \<Rightarrow> int" and keyof and key
proof
  fix s xs and x :: "'k tree_op"
  assume h: "bavl_holds cmp keyof key s xs" and a: "op_allowed key keyof xs x"
  show "\<exists>s'. bavl_op cmp keyof s x = Some (fst (list_op cmp keyof xs x), s') \<and> bavl_holds cmp keyof key s' (snd (list_op cmp keyof xs x))"
  proof (cases x)
    case (TrInsert n)
    with a insert_impl [OF h] show ?thesis by simp
  next
    case (TrRemove n)
    with a remove_impl [OF h, of n] show ?thesis by auto
  qed (use a h lookup_impl [OF h] walk_impl [OF h] in simp_all)
qed

lemma uint16_three_way: "three_way uint16_comparator"
  by (simp add: three_way_def uint16_comparator_def B_COMPARE_def)

lemma conaddr_three_way: "three_way conaddr_comparator"
proof -
  have "BAddr_CompareOrder a b = -1 \<or> BAddr_CompareOrder a b = 0 \<or> BAddr_CompareOrder a b = 1" for a b
    by (auto simp: BAddr_CompareOrder.simps Let_def B_COMPARE_def split: BAddr.split)
  then show ?thesis by (auto simp: three_way_def conaddr_comparator_def Let_def)
qed

lemma bavl_start: "comparator cmp key \<Longrightarrow> three_way cmp \<Longrightarrow> bavl_holds cmp keyof key (BAVL_Init mem) []"
  by (auto simp: bavl_holds_def ordered_by_def srep_def BAVL_Init_def intro!: exI [of _ Lf])

lemma bavl_run:
  assumes "comparator cmp key" "three_way cmp" "all_allowed (op_allowed key keyof) (list_op cmp keyof) [] ops"
  shows "\<exists>s. run_ops (bavl_op cmp keyof) (BAVL_Init mem) ops = Some (fst (run_spec (list_op cmp keyof) [] ops), s) \<and>
    bavl_holds cmp keyof key s (snd (run_spec (list_op cmp keyof) [] ops))"
  by (rule bavl.all_ops [OF bavl_start [OF assms(1,2)] assms(3)])

lemma bavl_holds_checks:
  assumes h: "bavl_holds cmp keyof key s xs"
  shows "(case av_root s of None \<Rightarrow> xs = []
    | Some r \<Rightarrow> \<exists>height. assert_recurser (\<lambda>m n. cmp (keyof m) (keyof n)) s r = Some height \<and> 0 < height \<and> 2 ^ (nat height div 2) \<le> length xs + 1)"
    "BAVL_Verify (\<lambda>m n. cmp (keyof m) (keyof n)) s = Some ()"
proof -
  from h obtain t where c: "comparator cmp key" "three_way cmp" and ord: "ordered_by cmp keyof xs" "\<forall>n\<in>set xs. key (keyof n)"
    and t: "srep s [] t" "avl_ok t" "inord t = xs" unfolding bavl_holds_def by blast
  have "sorted_wrt (\<lambda>m n. cmp (keyof m) (keyof n) = -1 \<and> cmp (keyof n) (keyof m) = 1) xs"
  proof (rule sorted_wrt_mono_rel)
    show "sorted_wrt (\<lambda>m n. cmp (keyof m) (keyof n) < 0) xs" using ord(1) by (simp add: ordered_by_def)
    fix m n
    assume mn: "m \<in> set xs" "n \<in> set xs" and "cmp (keyof m) (keyof n) < 0"
    then have "cmp (keyof m) (keyof n) = -1" using compare_three(3) [OF c(2), of "keyof m" "keyof n"] by auto
    then show "cmp (keyof m) (keyof n) = -1 \<and> cmp (keyof n) (keyof m) = 1"
      using comparator.cmp_swap [OF c(1), of "keyof n" "keyof m"] ord(2) mn by simp
  qed
  then have a: "assert_recurser (\<lambda>m n. cmp (keyof m) (keyof n)) s r = Some (ht t)" if "rootid t = Some r" for r
    using assert_rep [OF _ that t(2)] t(1,3) by (auto simp: srep_def)
  have "2 ^ (nat (ht t) div 2) \<le> length xs + 1" using avl_height [OF t(2)] t(3) by simp
  moreover have "0 < ht t" if r: "rootid t = Some r" for r
  proof (cases t)
    case (Nd l n b u)
    then show ?thesis using ht_nonneg [of l] by (simp add: max_def)
  qed (use r in simp)
  ultimately show "(case av_root s of None \<Rightarrow> xs = []
    | Some r \<Rightarrow> \<exists>height. assert_recurser (\<lambda>m n. cmp (keyof m) (keyof n)) s r = Some height \<and> 0 < height \<and> 2 ^ (nat height div 2) \<le> length xs + 1)"
    using t a by (cases t) (auto simp: srep_def)
  show "BAVL_Verify (\<lambda>m n. cmp (keyof m) (keyof n)) s = Some ()"
    using t a by (cases t) (auto simp: srep_def BAVL_Verify_def get_parent_def)
qed

section \<open>Properties\<close>

text \<open>
  C6. A search tree of structure/BAVL.h behaves as the sorted sequence of its nodes. Starting from \<^verbatim>\<open>BAVL_Init\<close>, whatever the links
  in memory were, any number of insertions of nodes that are not in the tree, removals of nodes that are, lookups, walks to the first, last,
  next and previous node and emptiness tests, in any order, all return, without a failed assertion or a null dereference, and return exactly
  what the same operations on the sorted list of the nodes return: an insertion reports 0 when a node with an equal key is present and changes
  nothing, a lookup gives the node with that key. This is what the client of the tree in UdpGwClient.c is proved against. The comparator must
  order the keys and return -1, 0 or 1.
\<close>

theorem bavl_is_sorted_list:
  assumes "comparator cmp key" "three_way cmp" "all_allowed (op_allowed key keyof) (list_op cmp keyof) [] ops"
  shows "\<exists>s. run_ops (bavl_op cmp keyof) (BAVL_Init mem) ops = Some (fst (run_spec (list_op cmp keyof) [] ops), s)"
  using bavl_run [OF assms, of mem] by blast

theorem bavl_is_sorted_list_witness:
  "\<exists>s. run_ops (bavl_op uint16_comparator word_of_nat) (BAVL_Init Map.empty)
     [TrInsert 5, TrInsert 3, TrInsert 4, TrFirst, TrInsert 65539, TrRemove 4, TrLookup 5, TrLookup 4, TrNext 3, TrPrev 3, TrIsEmpty] =
   Some ([ResInt 1, ResInt 1, ResInt 1, ResNode (Some 3), ResInt 0, ResVoid, ResNode (Some 5), ResNode None, ResNode (Some 5), ResNode None,
     ResInt 0], s)"
  using bavl_is_sorted_list [OF conid_order.comparator_axioms uint16_three_way, of word_of_nat
    "[TrInsert 5, TrInsert 3, TrInsert 4, TrFirst, TrInsert 65539, TrRemove 4, TrLookup 5, TrLookup 4, TrNext 3, TrPrev 3, TrIsEmpty]" Map.empty]
  by (simp add: uint16_comparator_def B_COMPARE_def tree_remove_def tree_lookup_def following_def head_def)

text \<open>
  C12. The tree stays a balanced search tree. After any such sequence of operations the consistency check the code carries,
  \<^verbatim>\<open>BAVL_Verify\<close>, passes: every node's stored balance is the difference of the heights of its subtrees and lies between -1 and 1, the
  parent links are the inverse of the child links and every child compares on its side of its parent. The height \<open>h\<close> that the check
  computes satisfies \<open>2 ^ (h div 2) \<le> n + 1\<close> for a tree of \<open>n\<close> nodes, so an operation visits logarithmically many nodes.
\<close>

theorem bavl_stays_balanced:
  assumes "comparator cmp key" "three_way cmp" "all_allowed (op_allowed key keyof) (list_op cmp keyof) [] ops"
  shows "\<exists>rs s. run_ops (bavl_op cmp keyof) (BAVL_Init mem) ops = Some (rs, s) \<and>
    BAVL_Verify (\<lambda>m n. cmp (keyof m) (keyof n)) s = Some () \<and>
    (case av_root s of None \<Rightarrow> snd (run_spec (list_op cmp keyof) [] ops) = []
     | Some r \<Rightarrow> \<exists>height. assert_recurser (\<lambda>m n. cmp (keyof m) (keyof n)) s r = Some height \<and> 0 < height \<and>
         2 ^ (nat height div 2) \<le> length (snd (run_spec (list_op cmp keyof) [] ops)) + 1)"
  using bavl_run [OF assms, of mem] bavl_holds_checks by blast

definition some_conaddrs :: "nat \<Rightarrow> UdpGwClient_conaddr" where
  "some_conaddrs n = \<lparr>ca_local_addr = BAddr_IPV4 9 9, ca_remote_addr = BAddr_IPV4 2 (word_of_nat n)\<rparr>"

lemma some_ops: "all_allowed (op_allowed ip_conaddr some_conaddrs) (list_op conaddr_comparator some_conaddrs) []
    [TrInsert 1, TrInsert 2, TrInsert 3, TrRemove 2]"
  by code_simp

theorem bavl_stays_balanced_witness:
  "\<exists>rs s. run_ops (bavl_op conaddr_comparator some_conaddrs) (BAVL_Init Map.empty) [TrInsert 1, TrInsert 2, TrInsert 3, TrRemove 2] =
      Some (rs, s) \<and> BAVL_Verify (\<lambda>m n. conaddr_comparator (some_conaddrs m) (some_conaddrs n)) s = Some ()"
  using bavl_stays_balanced [OF conaddr_order.comparator_axioms conaddr_three_way some_ops, of Map.empty] by blast

end
