(* ===== verification/NumText.thy ===== *)
theory NumText
  imports Wire
begin

text \<open>
  Numbers as text: misc/parse_number.h, misc/find_char.h and the number formats of \<^verbatim>\<open>printf\<close> that the address printers use. Text is a
  list of characters; the length argument of the \<^verbatim>\<open>_bin\<close> functions is the length of the list. The functions on chunked strings
  (\<^verbatim>\<open>b_cstring\<close>) are left out.
\<close>

section \<open>Digits\<close>

definition decode_decimal_digit :: "char \<Rightarrow> int" where
  "decode_decimal_digit c = (case map_of (zip ''0123456789'' [0, 1, 2, 3, 4, 5, 6, 7, 8, 9]) c of Some d \<Rightarrow> d | None \<Rightarrow> -1)"

definition decode_hex_digit :: "char \<Rightarrow> int" where
  "decode_hex_digit c = (case map_of (zip ''0123456789AaBbCcDdEeFf''
     [0, 1, 2, 3, 4, 5, 6, 7, 8, 9, 10, 10, 11, 11, 12, 12, 13, 13, 14, 14, 15, 15]) c of Some d \<Rightarrow> d | None \<Rightarrow> -1)"

text \<open>The digits of a number, most significant first, as \<^verbatim>\<open>%u\<close> and \<^verbatim>\<open>%x\<close> print them.\<close>

definition digit_char :: "nat \<Rightarrow> char" where
  "digit_char d = ''0123456789abcdef'' ! d"

function digits :: "nat \<Rightarrow> nat \<Rightarrow> nat list" where
  "digits b n = (if b \<le> 1 \<or> n < b then [n] else digits b (n div b) @ [n mod b])"
  by pat_completeness auto
termination by (relation "measure snd") auto

declare digits.simps [simp del]

definition fmt_dec :: "nat \<Rightarrow> string" where
  "fmt_dec n = map digit_char (digits 10 n)"

definition fmt_hex :: "nat \<Rightarrow> string" where
  "fmt_hex n = map digit_char (digits 16 n)"

section \<open>Parsing\<close>

fun parse__no_overflow :: "string \<Rightarrow> u64 \<Rightarrow> u64 option" where
  "parse__no_overflow [] n = Some n"
| "parse__no_overflow (c # str) n =
     (if (of_char c :: int) < of_char (CHR ''0'') \<or> (of_char c :: int) > of_char (CHR ''9'') then None
      else parse__no_overflow str (10 * n + of_int (of_char c - of_char (CHR ''0''))))"

definition parse_number__uintmax_max_str :: string where
  "parse_number__uintmax_max_str = ''18446744073709551615''"

definition parse_unsigned_integer_bin :: "string \<Rightarrow> u64 option" where
  "parse_unsigned_integer_bin str = (
     if str = [] then None
     else let str = dropWhile (\<lambda>c. c = CHR ''0'') str in
       if length str > length parse_number__uintmax_max_str \<or>
          (length str = length parse_number__uintmax_max_str \<and>
           memcmp (map of_char str) (map of_char parse_number__uintmax_max_str) > 0)
       then None
       else parse__no_overflow str 0)"

definition UINTMAX_MAX :: int where "UINTMAX_MAX = 2 ^ 64 - 1"

fun parse_hex_loop :: "string \<Rightarrow> u64 \<Rightarrow> u64 option" where
  "parse_hex_loop [] n = Some n"
| "parse_hex_loop (c # str) n =
     (let digit = decode_hex_digit c in
      if digit < 0 then None
      else if uint n > UINTMAX_MAX div 16 then None
      else if digit > UINTMAX_MAX - uint (n * 16) then None
      else parse_hex_loop str (n * 16 + of_int digit))"

definition parse_unsigned_hex_integer_bin :: "string \<Rightarrow> u64 option" where
  "parse_unsigned_hex_integer_bin str = (if str = [] then None else parse_hex_loop str 0)"

definition parse_signmag_integer_bin :: "string \<Rightarrow> (int \<times> u64) option" where
  "parse_signmag_integer_bin str =
     (let (sign, str) = (case str of
          c # rest \<Rightarrow> if c = CHR ''+'' \<or> c = CHR ''-'' then (1 - 2 * of_bool (c = CHR ''-''), rest) else (1, str)
        | [] \<Rightarrow> (1, str)) in
      map_option (\<lambda>mag. (sign, mag)) (parse_unsigned_integer_bin str))"

definition b_find_char_bin :: "string \<Rightarrow> char \<Rightarrow> nat option" where
  "b_find_char_bin str c = (let i = length (takeWhile (\<lambda>x. x \<noteq> c) str) in if i < length str then Some i else None)"

section \<open>Generating\<close>

function compute_decimal_repr_size :: "u64 \<Rightarrow> nat" where
  "compute_decimal_repr_size x = (if x div 10 > 0 then 1 + compute_decimal_repr_size (x div 10) else 1)"
  by pat_completeness auto
termination by (relation "measure unat") (auto simp: unat_div word_greater_zero_iff intro!: div_less_dividend dest: unat_gt_0 [THEN iffD2])

declare compute_decimal_repr_size.simps [simp del]

function generate_loop :: "u64 \<Rightarrow> string \<Rightarrow> nat \<Rightarrow> string option" where
  "generate_loop x out p = (if p = 0 then None
     else do {
       out \<leftarrow> mem_write out (p - 1) [char_of (of_char (CHR ''0'') + uint (x mod 10))];
       if x div 10 > 0 then generate_loop (x div 10) out (p - 1) else Some out
     })"
  by pat_completeness auto
termination by (relation "measure (\<lambda>(x, out, p). p)") auto

declare generate_loop.simps [simp del]

text \<open>The buffer is \<open>out\<close>; a position before its start or after its end is a fault.\<close>

definition generate_decimal_repr :: "u64 \<Rightarrow> string \<Rightarrow> nat \<Rightarrow> string option" where
  "generate_decimal_repr x out repr_size = do {
     ASSERT (repr_size = compute_decimal_repr_size x);
     generate_loop x out repr_size
   }"

definition generate_decimal_repr_string :: "u64 \<Rightarrow> string \<Rightarrow> (nat \<times> string) option" where
  "generate_decimal_repr_string x out = do {
     let repr_size = compute_decimal_repr_size x;
     out \<leftarrow> generate_decimal_repr x out repr_size;
     out \<leftarrow> mem_write out repr_size [CHR 0x00];
     Some (repr_size, out)
   }"

section \<open>Numbers and their digits\<close>

definition is_digit :: "char \<Rightarrow> bool" where
  "is_digit c \<longleftrightarrow> 48 \<le> (of_char c :: nat) \<and> (of_char c :: nat) \<le> 57"

fun dec_val :: "string \<Rightarrow> nat" where
  "dec_val [] = 0"
| "dec_val (c # s) = (of_char c - 48) * 10 ^ length s + dec_val s"

lemma of_char_int: "(of_char c :: int) = int (of_char c)" "(of_char c :: u8) = of_nat (of_char c)"
  by (simp_all add: of_nat_of_char)

lemma of_char_bound: "(of_char c :: nat) < 256"
  using nat_of_char_less_256 [of c] by simp

lemma unat_of_char: "unat (of_char c :: u8) = of_char c"
  unfolding of_char_int(2) using of_char_bound [of c] by (simp add: unat_of_nat)

lemma dec_val_less: "list_all is_digit s \<Longrightarrow> dec_val s < 10 ^ length s"
proof (induction s)
  case (Cons c s)
  then have "of_char c - 48 \<le> (9::nat)" "dec_val s < 10 ^ length s" by (auto simp: is_digit_def)
  then have "(of_char c - 48) * 10 ^ length s + dec_val s < 9 * 10 ^ length s + (10::nat) ^ length s"
    by (intro add_le_less_mono mult_le_mono1)
  then show ?case by simp
qed simp

lemma parse__no_overflow_eq:
  "parse__no_overflow s (of_nat m) = (if list_all is_digit s then Some (of_nat (m * 10 ^ length s + dec_val s)) else None)"
proof (induction s arbitrary: m)
  case (Cons c s)
  show ?case
  proof (cases "is_digit c")
    case True
    have d: "(of_int (of_char c - of_char (CHR ''0'')) :: u64) = of_nat (of_char c - 48)"
      using True by (simp add: is_digit_def of_char_int of_nat_diff)
    have "10 * of_nat m + (of_int (of_char c - of_char (CHR ''0'')) :: u64) = of_nat (10 * m + (of_char c - 48))"
      unfolding d by simp
    then have "parse__no_overflow (c # s) (of_nat m) = parse__no_overflow s (of_nat (10 * m + (of_char c - 48)))"
      using True by (simp add: is_digit_def of_char_int algebra_simps)
    moreover have "(10 * m + (of_char c - 48)) * 10 ^ length s + dec_val s = m * 10 ^ length (c # s) + dec_val (c # s)"
      by (simp add: algebra_simps)
    ultimately show ?thesis using True Cons.IH [of "10 * m + (of_char c - 48)"] by (simp only: list.pred_inject simp_thms)
  qed (auto simp: is_digit_def of_char_int)
qed simp

lemma memcmp_digits:
  assumes "list_all is_digit s" "list_all is_digit t" "length s = length t"
  shows "0 < memcmp (map of_char s) (map of_char t) \<longleftrightarrow> dec_val t < dec_val s"
  using assms
proof (induction s arbitrary: t)
  case (Cons c s)
  then obtain d u where t: "t = d # u" and l: "length s = length u" by (cases t) auto
  have dig: "is_digit c" "is_digit d" "list_all is_digit s" "list_all is_digit u" using Cons.prems t by simp_all
  define x y where "x = of_char c - (48::nat)" and "y = of_char d - (48::nat)"
  have v: "dec_val (c # s) = x * 10 ^ length u + dec_val s" "dec_val t = y * 10 ^ length u + dec_val u" using t l by (simp_all add: x_def y_def)
  have b: "dec_val s < 10 ^ length u" "dec_val u < 10 ^ length u" using dec_val_less [OF dig(3)] dec_val_less [OF dig(4)] l by simp_all
  have w: "(of_char c :: u8) < of_char d \<longleftrightarrow> x < y" "(of_char c :: u8) = of_char d \<longleftrightarrow> x = y"
    using dig(1,2) by (auto simp: x_def y_def is_digit_def word_less_nat_alt unat_of_char word_unat_eq_iff simp del: of_char_eq_iff)
  consider "x = y" | "x < y" | "y < x" by linarith
  then show ?case
  proof cases
    case 1
    with w Cons.IH [OF dig(3,4) l] v show ?thesis by (simp add: t)
  next
    case 2
    then have "(x + 1) * 10 ^ length u \<le> y * 10 ^ length u" by (intro mult_le_mono1) simp
    with b v have "dec_val (c # s) < dec_val t" by simp
    with 2 w show ?thesis by (simp add: t)
  next
    case 3
    then have "(y + 1) * 10 ^ length u \<le> x * 10 ^ length u" by (intro mult_le_mono1) simp
    with b v have "dec_val t < dec_val (c # s)" by simp
    with 3 w show ?thesis by (auto simp: t not_less)
  qed
qed simp

lemma strip_zeros:
  "dec_val (dropWhile (\<lambda>c. c = CHR ''0'') s) = dec_val s"
  "list_all is_digit (dropWhile (\<lambda>c. c = CHR ''0'') s) = list_all is_digit s"
  by (induction s) (auto simp: is_digit_def)

lemma max_str: "list_all is_digit parse_number__uintmax_max_str" "dec_val parse_number__uintmax_max_str = 2 ^ 64 - 1"
  "length parse_number__uintmax_max_str = 20"
  by (simp_all add: parse_number__uintmax_max_str_def is_digit_def)

lemma parse_unsigned_integer_eq:
  "parse_unsigned_integer_bin s =
     (if s \<noteq> [] \<and> list_all is_digit s \<and> dec_val s < 2 ^ 64 then Some (of_nat (dec_val s)) else None)"
proof -
  define r where "r = dropWhile (\<lambda>c. c = CHR ''0'') s"
  have r: "dec_val r = dec_val s" "list_all is_digit r = list_all is_digit s" using strip_zeros by (simp_all add: r_def)
  have p: "parse__no_overflow r 0 = (if list_all is_digit r then Some (of_nat (dec_val r)) else None)"
    using parse__no_overflow_eq [of r 0] by simp
  have e: "parse_unsigned_integer_bin s = (if s = [] then None
     else if length r > 20 \<or> (length r = 20 \<and> memcmp (map of_char r) (map of_char parse_number__uintmax_max_str) > 0) then None
     else parse__no_overflow r 0)"
    unfolding parse_unsigned_integer_bin_def Let_def r_def [symmetric] max_str(3) by simp
  show ?thesis
  proof (cases "s \<noteq> [] \<and> list_all is_digit s")
    case False
    then show ?thesis unfolding e p using r by auto
  next
    case True
    then have dr: "list_all is_digit r" using r by simp
    have big: "10 ^ (length r - 1) \<le> dec_val r" if ne: "r \<noteq> []"
    proof -
      obtain c u where cu: "r = c # u" using ne by (cases r) auto
      have c: "c \<noteq> CHR ''0''" using cu hd_dropWhile [of "\<lambda>c. c = CHR ''0''" s] by (simp add: r_def)
      have "is_digit c" using dr cu by simp
      moreover have "of_char c \<noteq> (48::nat)" using c of_char_eq_iff [of c "CHR ''0''", where ?'a = nat] by simp
      ultimately have "1 \<le> of_char c - (48::nat)" by (auto simp: is_digit_def)
      then have "1 * 10 ^ length u \<le> (of_char c - 48) * (10::nat) ^ length u" by (rule mult_le_mono1)
      then have "10 ^ length u \<le> (of_char c - 48) * (10::nat) ^ length u" by (simp only: mult_1)
      then have "10 ^ length u \<le> (of_char c - 48) * (10::nat) ^ length u + dec_val u" by (rule trans_le_add1)
      then show ?thesis by (simp only: cu dec_val.simps list.size add_Suc_right add_0_right diff_Suc_1)
    qed
    consider "length r > 20" | "length r = 20" | "length r \<le> 19" by linarith
    then show ?thesis
    proof cases
      case 1
      then have "(10::nat) ^ 20 \<le> 10 ^ (length r - 1)" by (intro power_increasing) auto
      with big 1 have "\<not> dec_val r < 2 ^ 64" by fastforce
      with 1 show ?thesis unfolding e using r by auto
    next
      case 2
      with memcmp_digits [OF dr max_str(1)] True dr show ?thesis unfolding e p using r max_str(2,3) by auto
    next
      case 3
      then have "(10::nat) ^ length r \<le> 10 ^ 19" by (intro power_increasing) auto
      with dec_val_less [OF dr] have "dec_val r < 2 ^ 64" by simp
      with 3 True dr show ?thesis unfolding e p using r by auto
    qed
  qed
qed

section \<open>Digits of a number\<close>

lemma digits_small: "n < b \<Longrightarrow> digits b n = [n]"
  by (subst digits.simps) simp

lemma digits_large: "1 < b \<Longrightarrow> b \<le> n \<Longrightarrow> digits b n = digits b (n div b) @ [n mod b]"
  by (subst digits.simps) simp

lemma digits_induct:
  assumes "1 < b" "\<And>n. n < b \<Longrightarrow> P n" "\<And>n. b \<le> n \<Longrightarrow> P (n div b) \<Longrightarrow> P n"
  shows "P (n::nat)"
proof (induction n rule: less_induct)
  case (less n)
  show ?case
  proof (cases "n < b")
    case False
    moreover have "n div b < n" using assms(1) False by (intro div_less_dividend) auto
    ultimately show ?thesis using assms(3) [of n] less.IH by simp
  qed (rule assms(2))
qed

lemma digits_ne [simp]: "digits b n \<noteq> []"
  by (subst digits.simps) auto

lemma digits_range: 
  assumes b: "1 < b"
  shows "\<forall>d\<in>set (digits b n). d < b"
proof (induction n rule: digits_induct [OF b])
  case (2 n)
  then show ?case using b by (auto simp: digits_large [OF b 2(1)])
qed (simp add: digits_small)

lemma digits_length:
  assumes b: "1 < b"
  shows "0 < k \<Longrightarrow> n < b ^ k \<Longrightarrow> length (digits b n) \<le> k"
proof (induction n arbitrary: k rule: digits_induct [OF b])
  case (2 n)
  then obtain j where j: "k = Suc j" by (cases k) auto
  have "n div b < b ^ j" using 2 j by (simp add: less_mult_imp_div_less mult.commute)
  moreover have "0 < j" using 2 j by (cases j) simp_all
  ultimately show ?case using 2 b j by (simp add: digits_large [OF b 2(1)])
qed (simp add: digits_small)

lemma digits_value:
  assumes b: "1 < b"
  shows "foldl (\<lambda>a d. b * a + d) 0 (digits b n) = n"
proof (induction n rule: digits_induct [OF b])
  case (2 n)
  then show ?case using b by (simp add: digits_large [OF b 2(1)])
qed (simp add: digits_small)

lemma div_10: "x div 10 > 0 \<longleftrightarrow> 10 \<le> unat (x :: u64)" "unat (x div 10) = unat x div 10" "unat (x mod 10) = unat x mod 10"
proof -
  show u: "unat (x div 10) = unat x div 10" "unat (x mod 10) = unat x mod 10" by (simp_all add: unat_div unat_mod)
  have "x div 10 > 0 \<longleftrightarrow> unat x div 10 \<noteq> 0" unfolding u(1) [symmetric] by (simp add: word_greater_zero_iff unat_eq_0)
  then show "x div 10 > 0 \<longleftrightarrow> 10 \<le> unat x" by (simp add: div_eq_0_iff not_less)
qed

lemma repr_size_eq: "compute_decimal_repr_size x = length (digits 10 (unat x))"
proof (induction x rule: compute_decimal_repr_size.induct)
  case (1 x)
  then show ?case by (subst compute_decimal_repr_size.simps) (simp add: div_10 digits_large digits_small not_le)
qed

lemma digit_char_dec:
  assumes "d < 10"
  shows "digit_char d = char_of (48 + d)" "is_digit (digit_char d)" "of_char (digit_char d) - (48::nat) = d"
proof -
  have "list_all (\<lambda>d. digit_char d = char_of (48 + d) \<and> is_digit (digit_char d) \<and> of_char (digit_char d) - (48::nat) = d) [0..<10]"
    by code_simp
  then have "\<forall>d\<in>set [0..<10]. digit_char d = char_of (48 + d) \<and> is_digit (digit_char d) \<and> of_char (digit_char d) - (48::nat) = d"
    unfolding list_all_iff .
  moreover have "d \<in> set [0..<10]" using assms by simp
  ultimately show "digit_char d = char_of (48 + d)" "is_digit (digit_char d)" "of_char (digit_char d) - (48::nat) = d" by blast+
qed

lemma fmt_dec_large: "10 \<le> n \<Longrightarrow> fmt_dec n = fmt_dec (n div 10) @ [digit_char (n mod 10)]"
  by (simp add: fmt_dec_def digits_large)

lemma fmt_dec_small: "n < 10 \<Longrightarrow> fmt_dec n = [digit_char n]"
  by (simp add: fmt_dec_def digits_small)

lemma generate_loop_eq:
  "length (fmt_dec (unat x)) \<le> p \<Longrightarrow> p \<le> length buf \<Longrightarrow>
   generate_loop x buf p = Some (take (p - length (fmt_dec (unat x))) buf @ fmt_dec (unat x) @ drop p buf)"
proof (induction x buf p rule: generate_loop.induct)
  case (1 x buf p)
  have "0 < length (digits 10 (unat x))" by simp
  then have p: "p \<noteq> 0" using 1(2) unfolding fmt_dec_def length_map by linarith
  define c where "c = char_of (of_char (CHR ''0'') + uint (x mod 10))"
  have "uint (x mod 10) = int (unat x mod 10)" by (simp only: uint_nat div_10(3))
  then have "of_char (CHR ''0'') + uint (x mod 10) = int (48 + unat x mod 10)" by simp
  then have c: "c = digit_char (unat x mod 10)" unfolding c_def by (simp only: char_of_nat) (simp add: digit_char_dec(1))
  define buf' where "buf' = take (p - 1) buf @ c # drop p buf"
  have w: "mem_write buf (p - 1) [c] = Some buf'" using p 1(3) by (simp add: fault_simps buf'_def)
  have step: "generate_loop x buf p = (if 10 \<le> unat x then generate_loop (x div 10) buf' (p - 1) else Some buf')"
    unfolding generate_loop.simps [of x buf p] c_def [symmetric] w div_10(1) using p by simp
  show ?case
  proof (cases "10 \<le> unat x")
    case True
    define k where "k = length (fmt_dec (unat x div 10))"
    have f: "fmt_dec (unat x) = fmt_dec (unat x div 10) @ [c]" unfolding c by (rule fmt_dec_large [OF True])
    then have k: "Suc k \<le> p" using 1(2) by (simp add: k_def)
    have "generate_loop (x div 10) buf' (p - 1) =
        Some (take (p - 1 - length (fmt_dec (unat (x div 10)))) buf' @ fmt_dec (unat (x div 10)) @ drop (p - 1) buf')"
    proof (rule 1(1) [OF p w [unfolded c_def]])
      show "0 < x div 10" using True div_10(1) by blast
      show "length (fmt_dec (unat (x div 10))) \<le> p - 1" unfolding div_10(2) using k by (simp add: k_def)
      show "p - 1 \<le> length buf'" using 1(3) by (simp add: buf'_def)
    qed
    moreover have "take (p - 1 - k) buf' = take (p - Suc k) buf" "drop (p - 1) buf' = c # drop p buf"
      using k 1(3) by (simp_all add: buf'_def)
    ultimately show ?thesis using True step by (simp add: f div_10(2) flip: k_def)
  next
    case False
    then have f: "fmt_dec (unat x) = [c]" unfolding c by (simp add: fmt_dec_small)
    show ?thesis using False step by (simp add: f buf'_def)
  qed
qed

lemma fmt_dec_ne [simp]: "fmt_dec n \<noteq> []"
  by (simp add: fmt_dec_def)

lemma dec_val_append: "dec_val (s @ t) = dec_val s * 10 ^ length t + dec_val t"
  by (induction s) (simp_all add: power_add algebra_simps)

lemma fmt_dec_digits: "list_all is_digit (fmt_dec n)"
  using digits_range [of 10 n] digit_char_dec(2) by (auto simp: fmt_dec_def list_all_iff)

lemma fmt_dec_value: "dec_val (fmt_dec n) = n"
proof (induction n rule: digits_induct [of 10])
  case (2 n)
  then show ?case by (simp add: fmt_dec_small digit_char_dec)
next
  case (3 n)
  then show ?case by (simp add: fmt_dec_large dec_val_append digit_char_dec)
qed simp

lemma fmt_dec_length: "n < 10 ^ k \<Longrightarrow> 0 < k \<Longrightarrow> length (fmt_dec n) \<le> k"
  by (simp add: fmt_dec_def digits_length)

lemma generate_string_eq:
  assumes "length (fmt_dec (unat x)) < length buf"
  shows "generate_decimal_repr_string x buf =
    Some (length (fmt_dec (unat x)), fmt_dec (unat x) @ CHR 0x00 # drop (Suc (length (fmt_dec (unat x)))) buf)"
  using assms generate_loop_eq [of x "length (fmt_dec (unat x))" buf]
  by (simp add: generate_decimal_repr_string_def generate_decimal_repr_def repr_size_eq fmt_dec_def fault_simps Let_def)

end
