(* ===== verification/IpText.thy ===== *)
theory IpText
  imports NumText
begin

text \<open>
  IP addresses as text: misc/ipaddr.h, misc/ipaddr6.h and the printers of system/BAddr.h. A parser works on the text and on the object it
  fills, whose bytes before the call are a parameter; its outer option is the fault (a position outside the text or the object), the inner
  one the result 0. What a parser that fails leaves in the object is not kept, as no caller reads it.
\<close>

type_synonym 'a parsed = "'a option option"

abbreviation (input) rejected :: "'a parsed" where "rejected \<equiv> Some None"
abbreviation (input) accepted :: "'a \<Rightarrow> 'a parsed" where "accepted x \<equiv> Some (Some x)"

section \<open>IPv4\<close>

record ipv4_ifaddr =
  ia_addr :: u32
  ia_prefix :: int

function ipv4_addr_loop :: "nat \<Rightarrow> string \<Rightarrow> bytes \<Rightarrow> bytes parsed" where
  "ipv4_addr_loop i name out =
     (let j = length (takeWhile (\<lambda>c. c \<noteq> CHR ''.'') name) in
      if (j = length name \<and> i < 3) \<or> (j < length name \<and> i = 3) then rejected
      else if j < 1 \<or> j > 3 then rejected
      else (case parse_unsigned_integer_bin (take j name) of
          None \<Rightarrow> rejected
        | Some d \<Rightarrow>
            if d > 255 then rejected
            else do {
              out \<leftarrow> mem_write out i [ucast d];
              if i = 3 then accepted out else ipv4_addr_loop (i + 1) (drop (j + 1) name) out
            }))"
  by pat_completeness auto
termination by (relation "measure (\<lambda>(i, name, out). length name)") (auto simp: takeWhile_eq_Nil_iff)

declare ipv4_addr_loop.simps [simp del]

definition ipaddr_parse_ipv4_addr_bin :: "string \<Rightarrow> u32 \<Rightarrow> u32 parsed" where
  "ipaddr_parse_ipv4_addr_bin name out_addr = map_option (map_option of_mem32) (ipv4_addr_loop 0 name (mem32 out_addr))"

definition ipaddr_parse_ipv4_prefix_bin :: "string \<Rightarrow> int option" where
  "ipaddr_parse_ipv4_prefix_bin str = do { d \<leftarrow> parse_unsigned_integer_bin str; if d > 32 then None else Some (uint d) }"

definition ipaddr_parse_ipv4_ifaddr_bin :: "string \<Rightarrow> u32 \<Rightarrow> ipv4_ifaddr parsed" where
  "ipaddr_parse_ipv4_ifaddr_bin str out = (case b_find_char_bin str CHR ''/'' of
       None \<Rightarrow> rejected
     | Some slash_pos \<Rightarrow> do {
         r \<leftarrow> ipaddr_parse_ipv4_addr_bin (take slash_pos str) out;
         (case r of
           None \<Rightarrow> rejected
         | Some addr \<Rightarrow> Some (map_option (\<lambda>prefix. \<lparr>ia_addr = addr, ia_prefix = prefix\<rparr>)
             (ipaddr_parse_ipv4_prefix_bin (drop (slash_pos + 1) str))))
       })"

text \<open>The mask with \<open>i\<close> leading ones, as both loops build it.\<close>

primrec ipv4_mask_loop :: "nat \<Rightarrow> u32" where
  "ipv4_mask_loop 0 = 0"
| "ipv4_mask_loop (Suc i) = ipv4_mask_loop i OR push_bit (32 - i - 1) 1"

definition ipaddr_ipv4_mask_from_prefix :: "int \<Rightarrow> u32 option" where
  "ipaddr_ipv4_mask_from_prefix prefix = do {
     ASSERT (prefix \<ge> 0);
     ASSERT (prefix \<le> 32);
     Some (hton32 (ipv4_mask_loop (nat prefix)))
   }"

definition ipaddr_ipv4_prefix_from_mask :: "u32 \<Rightarrow> int option" where
  "ipaddr_ipv4_prefix_from_mask msk = map_option int (find (\<lambda>i. ntoh32 msk = ipv4_mask_loop i) [0..<33])"

definition ipaddr_ipv4_ifaddr_from_addr_mask :: "u32 \<Rightarrow> u32 \<Rightarrow> ipv4_ifaddr option" where
  "ipaddr_ipv4_ifaddr_from_addr_mask addr msk =
     map_option (\<lambda>prefix. \<lparr>ia_addr = addr, ia_prefix = prefix\<rparr>) (ipaddr_ipv4_prefix_from_mask msk)"

definition ipaddr_ipv4_addrs_in_network :: "u32 \<Rightarrow> u32 \<Rightarrow> int \<Rightarrow> bool option" where
  "ipaddr_ipv4_addrs_in_network addr1 addr2 netprefix = do {
     ASSERT (netprefix \<ge> 0);
     ASSERT (netprefix \<le> 32);
     msk \<leftarrow> ipaddr_ipv4_mask_from_prefix netprefix;
     Some (addr1 AND msk = addr2 AND msk)
   }"

definition IPADDR_PRINT_MAX :: nat where "IPADDR_PRINT_MAX = 19"

definition fmt_u8 :: "u8 \<Rightarrow> string" where
  "fmt_u8 b = fmt_dec (unat b)"

definition ipaddr_print_addr :: "u32 \<Rightarrow> string" where
  "ipaddr_print_addr addr = (let b = mem32 addr in
     fmt_u8 (b ! 0) @ ''.'' @ fmt_u8 (b ! 1) @ ''.'' @ fmt_u8 (b ! 2) @ ''.'' @ fmt_u8 (b ! 3))"

definition ipaddr_print_ifaddr :: "ipv4_ifaddr \<Rightarrow> string option" where
  "ipaddr_print_ifaddr ifaddr = do {
     ASSERT (ia_prefix ifaddr \<ge> 0);
     ASSERT (ia_prefix ifaddr \<le> 32);
     let b = mem32 (ia_addr ifaddr);
     Some (fmt_u8 (b ! 0) @ ''.'' @ fmt_u8 (b ! 1) @ ''.'' @ fmt_u8 (b ! 2) @ ''.'' @ fmt_u8 (b ! 3) @ ''/'' @ fmt_dec (nat (ia_prefix ifaddr)))
   }"

section \<open>IPv6: parsing\<close>

type_synonym ipv6_addr = bytes

record ipv6_ifaddr =
  ia6_addr :: ipv6_addr
  ia6_prefix :: int

text \<open>The variables of the parser's first loop.\<close>

record v6_state =
  v6_num_blocks :: nat
  v6_compress_pos :: int
  v6_block :: u16
  v6_empty :: bool
  v6_out :: bytes

datatype v6_end = V6_Fail | V6_End v6_state | V6_IPv4 nat v6_state

definition store_block :: "v6_state \<Rightarrow> v6_state option" where
  "store_block st = do {
     out \<leftarrow> mem_write (v6_out st) (2 * v6_num_blocks st) [ucast (drop_bit 8 (v6_block st)), ucast (v6_block st AND 0xFF)];
     Some (st\<lparr>v6_out := out, v6_num_blocks := v6_num_blocks st + 1\<rparr>)
   }"

text \<open>A colon: it ends the block before it, a double one also marks the compressed part.\<close>

definition v6_colon :: "nat \<Rightarrow> bool \<Rightarrow> v6_state \<Rightarrow> v6_state parsed" where
  "v6_colon i is_double st = do {
     r \<leftarrow> (if i > 0 then
             if v6_empty st \<or> v6_num_blocks st = 7 then rejected
             else do { st \<leftarrow> store_block st; accepted (st\<lparr>v6_block := 0, v6_empty := True\<rparr>) }
           else if \<not> is_double then rejected
           else accepted st);
     (case r of
       None \<Rightarrow> rejected
     | Some st \<Rightarrow>
         if is_double then
           if v6_compress_pos st \<noteq> -1 then rejected
           else accepted (st\<lparr>v6_compress_pos := int (v6_num_blocks st)\<rparr>)
         else accepted st)
   }"

definition v6_digit :: "char \<Rightarrow> v6_state \<Rightarrow> v6_state option" where
  "v6_digit c st =
     (let digit = decode_hex_digit c in
      if digit < 0 then None
      else if uint (v6_block st) > UINT16_MAX div 16 then None
      else if digit > UINT16_MAX - uint (v6_block st * 16) then None
      else Some (st\<lparr>v6_block := v6_block st * 16 + of_int digit, v6_empty := False\<rparr>))"

function v6_loop :: "string \<Rightarrow> nat \<Rightarrow> v6_state \<Rightarrow> v6_end option" where
  "v6_loop name i st =
     (if i < length name then
        if name ! i = CHR ''.'' then Some (V6_IPv4 i st)
        else if name ! i = CHR '':'' then
          (let is_double = (i + 1 < length name \<and> name ! (i + 1) = CHR '':'') in
           (case v6_colon i is_double st of
             None \<Rightarrow> None
           | Some None \<Rightarrow> Some V6_Fail
           | Some (Some st) \<Rightarrow> v6_loop name (i + 1 + of_bool is_double) st))
        else
          (case v6_digit (name ! i) st of
            None \<Rightarrow> Some V6_Fail
          | Some st \<Rightarrow> v6_loop name (i + 1) st)
      else Some (V6_End st))"
  by pat_completeness auto
termination by (relation "measure (\<lambda>(name, i, st). length name - i)") auto

declare v6_loop.simps [simp del]

text \<open>After the label \<^verbatim>\<open>ipv4_done\<close>: the blocks after the compressed part move to the end, zeros fill the gap.\<close>

definition v6_done :: "nat \<Rightarrow> int \<Rightarrow> bytes \<Rightarrow> ipv6_addr parsed" where
  "v6_done num_blocks compress_pos out =
     (if compress_pos = -1 \<and> num_blocks \<noteq> 8 then rejected
      else do {
        let compress_pos = nat (if compress_pos = -1 then 0 else compress_pos);
        ASSERT (compress_pos \<le> num_blocks \<and> num_blocks \<le> 8);
        let num_rear = num_blocks - compress_pos;
        rear \<leftarrow> mem_read out (2 * compress_pos) (2 * num_rear);
        out \<leftarrow> mem_write out (2 * (8 - num_rear)) rear;
        out \<leftarrow> mem_write out (2 * compress_pos) (replicate (2 * (8 - num_rear - compress_pos)) 0);
        accepted out
      })"

text \<open>The label \<^verbatim>\<open>ipv4_ending\<close>: back to the last colon, then four decimal bytes up to the end.\<close>

primrec back_to_colon :: "string \<Rightarrow> nat \<Rightarrow> nat option" where
  "back_to_colon name 0 = None"
| "back_to_colon name (Suc i) = (if name ! i = CHR '':'' then Some (Suc i) else back_to_colon name i)"

fun v4_tail :: "string \<Rightarrow> bytes \<Rightarrow> nat \<Rightarrow> u8 \<Rightarrow> bool \<Rightarrow> (bytes \<times> nat \<times> u8 \<times> bool) parsed" where
  "v4_tail [] bytes cur_byte byte none = accepted (bytes, cur_byte, byte, none)"
| "v4_tail (c # name) bytes cur_byte byte none =
     (if c = CHR ''.'' then
        if none \<or> cur_byte = 3 then rejected
        else do {
          bytes \<leftarrow> mem_write bytes cur_byte [byte];
          v4_tail name bytes (cur_byte + 1) 0 True
        }
      else if \<not> none \<and> byte = 0 then rejected
      else (let digit = decode_decimal_digit c in
        if digit < 0 then rejected
        else if uint byte > 255 div 10 then rejected
        else if digit > 255 - uint (byte * 10) then rejected
        else v4_tail name bytes cur_byte (byte * 10 + of_int digit) False))"

definition v6_ipv4_ending :: "string \<Rightarrow> nat \<Rightarrow> v6_state \<Rightarrow> ipv6_addr parsed" where
  "v6_ipv4_ending name i st =
     (if v6_empty st \<or> (v6_num_blocks st = 0 \<and> v6_compress_pos st = -1) then rejected
      else do {
        i \<leftarrow> back_to_colon name i;
        r \<leftarrow> v4_tail (drop i name) (replicate 4 0) 0 0 True;
        (case r of
          None \<Rightarrow> rejected
        | Some (bytes, cur_byte, byte, none) \<Rightarrow>
            if cur_byte \<noteq> 3 \<or> none then rejected
            else do {
              bytes \<leftarrow> mem_write bytes cur_byte [byte];
              if 8 - int (v6_num_blocks st) < 2 then rejected
              else do {
                out \<leftarrow> mem_write (v6_out st) (2 * v6_num_blocks st) bytes;
                v6_done (v6_num_blocks st + 2) (v6_compress_pos st) out
              }
            })
      })"

definition ipaddr6_parse_ipv6_addr_bin :: "string \<Rightarrow> ipv6_addr \<Rightarrow> ipv6_addr parsed" where
  "ipaddr6_parse_ipv6_addr_bin name out_addr = do {
     r \<leftarrow> v6_loop name 0 \<lparr>v6_num_blocks = 0, v6_compress_pos = -1, v6_block = 0, v6_empty = True, v6_out = out_addr\<rparr>;
     (case r of
       V6_Fail \<Rightarrow> rejected
     | V6_IPv4 i st \<Rightarrow> v6_ipv4_ending name i st
     | V6_End st \<Rightarrow>
         if \<not> v6_empty st then do { st \<leftarrow> store_block st; v6_done (v6_num_blocks st) (v6_compress_pos st) (v6_out st) }
         else if int (v6_num_blocks st) \<noteq> v6_compress_pos st then rejected
         else v6_done (v6_num_blocks st) (v6_compress_pos st) (v6_out st))
   }"

definition ipaddr6_parse_ipv6_prefix_bin :: "string \<Rightarrow> int option" where
  "ipaddr6_parse_ipv6_prefix_bin str = do { d \<leftarrow> parse_unsigned_integer_bin str; if d > 128 then None else Some (uint d) }"

definition ipaddr6_parse_ipv6_ifaddr_bin :: "string \<Rightarrow> ipv6_addr \<Rightarrow> ipv6_ifaddr parsed" where
  "ipaddr6_parse_ipv6_ifaddr_bin str out = (case b_find_char_bin str CHR ''/'' of
       None \<Rightarrow> rejected
     | Some slash_pos \<Rightarrow> do {
         r \<leftarrow> ipaddr6_parse_ipv6_addr_bin (take slash_pos str) out;
         (case r of
           None \<Rightarrow> rejected
         | Some addr \<Rightarrow> Some (map_option (\<lambda>prefix. \<lparr>ia6_addr = addr, ia6_prefix = prefix\<rparr>)
             (ipaddr6_parse_ipv6_prefix_bin (drop (slash_pos + 1) str))))
       })"

section \<open>IPv6: masks and printing\<close>

text \<open>A byte with \<open>i\<close> leading ones, as the loops build it.\<close>

primrec byte_mask_loop :: "nat \<Rightarrow> u8" where
  "byte_mask_loop 0 = 0"
| "byte_mask_loop (Suc i) = byte_mask_loop i OR push_bit (8 - i - 1) 1"

definition ipaddr6_ipv6_mask_from_prefix :: "int \<Rightarrow> ipv6_addr \<Rightarrow> ipv6_addr option" where
  "ipaddr6_ipv6_mask_from_prefix prefix out_mask = do {
     ASSERT (prefix \<ge> 0);
     ASSERT (prefix \<le> 128);
     let quot = nat (prefix div 8);
     let rem = nat (prefix mod 8);
     out_mask \<leftarrow> mem_write out_mask 0 (replicate quot 0xFF);
     out_mask \<leftarrow> mem_write out_mask quot (replicate (16 - quot) 0);
     if rem > 0 then do { b \<leftarrow> mem_read out_mask quot 1; mem_write out_mask quot [b ! 0 OR byte_mask_loop rem] }
     else Some out_mask
   }"

definition ipaddr6_ipv6_prefix_from_mask :: "ipv6_addr \<Rightarrow> int option" where
  "ipaddr6_ipv6_prefix_from_mask msk =
     (let i = length (takeWhile (\<lambda>b. b = 0xFF) msk) in
      if i < 16 then
        (case find (\<lambda>j. msk ! i = byte_mask_loop j) [0..<9] of
          None \<Rightarrow> None
        | Some j \<Rightarrow> if \<exists>b\<in>set (drop (i + 1) msk). b \<noteq> 0 then None else Some (8 * int i + int j))
      else Some (8 * int i))"

definition ipaddr6_ipv6_ifaddr_from_addr_mask :: "ipv6_addr \<Rightarrow> ipv6_addr \<Rightarrow> ipv6_ifaddr option" where
  "ipaddr6_ipv6_ifaddr_from_addr_mask addr msk =
     map_option (\<lambda>prefix. \<lparr>ia6_addr = addr, ia6_prefix = prefix\<rparr>) (ipaddr6_ipv6_prefix_from_mask msk)"

definition ipaddr6_ipv6_addrs_in_network :: "ipv6_addr \<Rightarrow> ipv6_addr \<Rightarrow> int \<Rightarrow> bool option" where
  "ipaddr6_ipv6_addrs_in_network addr1 addr2 netprefix = do {
     ASSERT (netprefix \<ge> 0);
     ASSERT (netprefix \<le> 128);
     let quot = nat (netprefix div 8);
     let rem = nat (netprefix mod 8);
     if memcmp (take quot addr1) (take quot addr2) \<noteq> 0 then Some False
     else if rem = 0 then Some True
     else (let t = byte_mask_loop rem in Some (addr1 ! quot AND t = addr2 ! quot AND t))
   }"

definition v6_block_at :: "ipv6_addr \<Rightarrow> nat \<Rightarrow> u16" where
  "v6_block_at addr i = push_bit 8 (ucast (addr ! (2 * i))) OR ucast (addr ! (2 * i + 1))"

text \<open>The search for the longest run of zero blocks, as (start, length) of the longest and of the current run.\<close>

definition v6_zeros_step :: "ipv6_addr \<Rightarrow> (nat \<times> nat) \<times> nat \<times> nat \<Rightarrow> nat \<Rightarrow> (nat \<times> nat) \<times> nat \<times> nat" where
  "v6_zeros_step addr = (\<lambda>(largest, current_start, current_len) i.
     if addr ! (2 * i) = 0 \<and> addr ! (2 * i + 1) = 0
     then (let current_len = current_len + 1 in
       (if current_len > snd largest then (current_start, current_len) else largest, current_start, current_len))
     else (largest, i + 1, 0))"

definition v6_largest_zeros :: "ipv6_addr \<Rightarrow> nat \<times> nat" where
  "v6_largest_zeros addr = fst (foldl (v6_zeros_step addr) ((0, 0), 0, 0) [0..<8])"

definition fmt_block :: "ipv6_addr \<Rightarrow> nat \<Rightarrow> string" where
  "fmt_block addr i = fmt_hex (unat (v6_block_at addr i))"

definition IPADDR6_PRINT_MAX :: nat where "IPADDR6_PRINT_MAX = 44"

definition ipaddr6_print_addr :: "ipv6_addr \<Rightarrow> string" where
  "ipaddr6_print_addr addr =
     (let (largest_start, largest_len) = v6_largest_zeros addr in
      if largest_len > 1 then
        concat (map (\<lambda>i. fmt_block addr i @ '':'') [0..<largest_start]) @
        (if largest_start = 0 then '':'' else []) @
        concat (map (\<lambda>i. '':'' @ fmt_block addr i) [largest_start + largest_len..<8]) @
        (if largest_start + largest_len = 8 then '':'' else [])
      else concat (map (\<lambda>i. (if i = 0 then [] else '':'') @ fmt_block addr i) [0..<8]))"

definition ipaddr6_print_ifaddr :: "ipv6_ifaddr \<Rightarrow> string option" where
  "ipaddr6_print_ifaddr addr = do {
     ASSERT (ia6_prefix addr \<ge> 0);
     ASSERT (ia6_prefix addr \<le> 128);
     Some (ipaddr6_print_addr (ia6_addr addr) @ ''/'' @ fmt_dec (nat (ia6_prefix addr)))
   }"

end
