(* ===== verification/IpTextLaws.thy ===== *)
theory IpTextLaws
  imports IpText
begin

text \<open>
  The parsers of theory IpText never leave the text or the object, and read back what the printers write.
\<close>

section \<open>The IPv6 parser stays inside\<close>

definition v6_ok :: "string \<Rightarrow> nat \<Rightarrow> v6_state \<Rightarrow> bool" where
  "v6_ok name i st \<longleftrightarrow> length (v6_out st) = 16 \<and> v6_num_blocks st \<le> 7 \<and>
     (v6_compress_pos st = -1 \<or> 0 \<le> v6_compress_pos st \<and> v6_compress_pos st \<le> int (v6_num_blocks st)) \<and>
     (v6_num_blocks st \<noteq> 0 \<or> v6_compress_pos st \<noteq> -1 \<longrightarrow> (\<exists>j<i. name ! j = CHR '':''))"

lemma v6_ok_mono: "v6_ok name i st \<Longrightarrow> i \<le> k \<Longrightarrow> v6_ok name k st"
  unfolding v6_ok_def by (meson less_le_trans)

lemma v6_ok_digit: "v6_digit c st = Some st' \<Longrightarrow> v6_ok name i st \<Longrightarrow> v6_ok name i st'"
  by (auto simp: v6_digit_def v6_ok_def Let_def split: if_splits)

lemma v6_colon_ok:
  assumes "v6_ok name i st" "name ! i = CHR '':''"
  shows "\<exists>r. v6_colon i d st = Some r \<and> (\<forall>st'. r = Some st' \<longrightarrow> v6_ok name (i + 1) st')"
proof -
  have c: "\<exists>j<i + 1. name ! j = CHR '':''" using assms(2) by auto
  then show ?thesis using assms(1)
    by (auto simp: v6_colon_def v6_ok_def store_block_def fault_simps)
qed

text \<open>The steps of the loop.\<close>

definition double_at :: "string \<Rightarrow> nat \<Rightarrow> bool" where
  "double_at name i \<longleftrightarrow> i + 1 < length name \<and> name ! (i + 1) = CHR '':''"

lemma v6_loop_end: "\<not> i < length name \<Longrightarrow> v6_loop name i st = Some (V6_End st)"
  by (subst v6_loop.simps) simp

lemma v6_loop_dot: "i < length name \<Longrightarrow> name ! i = CHR ''.'' \<Longrightarrow> v6_loop name i st = Some (V6_IPv4 i st)"
  by (subst v6_loop.simps) simp

lemma v6_loop_colon: "i < length name \<Longrightarrow> name ! i = CHR '':'' \<Longrightarrow> v6_loop name i st = (case v6_colon i (double_at name i) st of
    None \<Rightarrow> None | Some None \<Rightarrow> Some V6_Fail | Some (Some st) \<Rightarrow> v6_loop name (i + 1 + of_bool (double_at name i)) st)"
  by (subst v6_loop.simps) (auto simp: double_at_def Let_def)

lemma v6_loop_digit: "i < length name \<Longrightarrow> name ! i \<noteq> CHR ''.'' \<Longrightarrow> name ! i \<noteq> CHR '':'' \<Longrightarrow>
    v6_loop name i st = (case v6_digit (name ! i) st of None \<Rightarrow> Some V6_Fail | Some st \<Rightarrow> v6_loop name (i + 1) st)"
  by (subst v6_loop.simps) simp

lemma v6_loop_safe:
  "v6_ok name i st \<Longrightarrow> \<exists>r. v6_loop name i st = Some r \<and> (case r of V6_Fail \<Rightarrow> True
     | V6_End st' \<Rightarrow> \<exists>k. v6_ok name k st' | V6_IPv4 k st' \<Rightarrow> v6_ok name k st')"
proof (induction name i st rule: v6_loop.induct)
  case (1 name i st)
  consider (finish) "\<not> i < length name" | (dot) "i < length name" "name ! i = CHR ''.''" | (colon) "i < length name" "name ! i = CHR '':''"
    | (digit) "i < length name" "name ! i \<noteq> CHR ''.''" "name ! i \<noteq> CHR '':''" by blast
  then show ?case
  proof cases
    case colon
    define d where "d = double_at name i"
    from v6_colon_ok [OF 1(3) colon(2), of d] obtain r where r: "v6_colon i d st = Some r"
      "\<forall>st'. r = Some st' \<longrightarrow> v6_ok name (i + 1) st'" by blast
    show ?thesis
    proof (cases r)
      case None
      with r colon show ?thesis by (simp add: v6_loop_colon d_def)
    next
      case (Some st')
      then have "v6_ok name (i + 1 + of_bool d) st'" using r(2) by (auto intro: v6_ok_mono [of name "i + 1"])
      with 1(1) [OF colon(1) _ colon(2) refl, of "Some st'" st'] r Some colon show ?thesis
        by (simp add: v6_loop_colon d_def double_at_def)
    qed
  next
    case digit
    then show ?thesis
    proof (cases "v6_digit (name ! i) st")
      case (Some st')
      then have "v6_ok name (i + 1) st'" using v6_ok_mono [OF v6_ok_digit [OF Some 1(3)], of "i + 1"] by simp
      with 1(2) [OF digit Some] Some digit show ?thesis by (simp add: v6_loop_digit)
    qed (simp add: v6_loop_digit)
  qed (use 1(3) in \<open>auto simp: v6_loop_end v6_loop_dot\<close>)
qed

lemma v6_done_safe:
  assumes "length out = 16" "n \<le> 8" "c = -1 \<or> 0 \<le> c \<and> c \<le> int n"
  shows "\<exists>r. v6_done n c out = Some r \<and> (\<forall>b. r = Some b \<longrightarrow> length b = 16)"
  using assms by (auto simp: v6_done_def fault_simps Let_def)

lemma back_to_colon_ok: "\<exists>j<i. name ! j = CHR '':'' \<Longrightarrow> \<exists>k. back_to_colon name i = Some k"
  by (induction i) (auto simp: less_Suc_eq)

lemma v4_tail_safe:
  "length bs = 4 \<Longrightarrow> cur \<le> 3 \<Longrightarrow> \<exists>r. v4_tail s bs cur b e = Some r \<and>
     (\<forall>bs' cur' b' e'. r = Some (bs', cur', b', e') \<longrightarrow> length bs' = 4 \<and> cur' \<le> 3)"
proof (induction s bs cur b e rule: v4_tail.induct)
  case (2 c name bs cur b e)
  show ?case
  proof (cases "c = CHR ''.''")
    case True
    show ?thesis
    proof (cases "e \<or> cur = 3")
      case False
      define bs' where "bs' = take cur bs @ b # drop (Suc cur) bs"
      have w: "mem_write bs cur [b] = Some bs'" using 2(3,4) by (simp add: fault_simps bs'_def)
      have "length bs' = 4" "cur + 1 \<le> 3" using False 2(3,4) by (auto simp: bs'_def)
      with 2(1) [OF True False w] True False w show ?thesis by simp
    qed (simp add: True)
  next
    case False
    with 2 show ?thesis by (auto simp: Let_def)
  qed
qed auto

lemma parse_ipv6_safe:
  assumes "length out = 16"
  shows "\<exists>r. ipaddr6_parse_ipv6_addr_bin name out = Some r \<and> (\<forall>b. r = Some b \<longrightarrow> length b = 16)"
proof -
  define st0 where "st0 = \<lparr>v6_num_blocks = 0, v6_compress_pos = -1, v6_block = 0, v6_empty = True, v6_out = out\<rparr>"
  have "v6_ok name 0 st0" using assms by (simp add: v6_ok_def st0_def)
  from v6_loop_safe [OF this] obtain r where r: "v6_loop name 0 st0 = Some r"
    "case r of V6_Fail \<Rightarrow> True | V6_End st' \<Rightarrow> \<exists>k. v6_ok name k st' | V6_IPv4 k st' \<Rightarrow> v6_ok name k st'" by blast
  note p = ipaddr6_parse_ipv6_addr_bin_def [of name out, folded st0_def]
  show ?thesis
  proof (cases r)
    case V6_Fail
    with r(1) show ?thesis by (simp add: p)
  next
    case (V6_End st)
    with r(2) obtain k where k: "v6_ok name k st" by auto
    then have d: "\<exists>r. v6_done (v6_num_blocks st') (v6_compress_pos st') (v6_out st') = Some r \<and> (\<forall>b. r = Some b \<longrightarrow> length b = 16)"
      if "st' = st \<or> store_block st = Some st'" for st'
      using that by (intro v6_done_safe) (auto simp: v6_ok_def store_block_def fault_simps)
    have s: "\<exists>st'. store_block st = Some st'" using k by (auto simp: v6_ok_def store_block_def fault_simps)
    show ?thesis using r(1) V6_End d [of st] d s by (auto simp: p)
  next
    case (V6_IPv4 k st)
    then have k: "v6_ok name k st" using r(2) by simp
    show ?thesis
    proof (cases "v6_empty st \<or> (v6_num_blocks st = 0 \<and> v6_compress_pos st = -1)")
      case False
      then obtain m where m: "back_to_colon name k = Some m" using back_to_colon_ok k by (auto simp: v6_ok_def)
      from v4_tail_safe [of "replicate 4 0" 0 "drop m name" 0 True] obtain t where t: "v4_tail (drop m name) (replicate 4 0) 0 0 True = Some t"
        "\<forall>bs' cur' b' e'. t = Some (bs', cur', b', e') \<longrightarrow> length bs' = 4 \<and> cur' \<le> 3" by auto
      show ?thesis
      proof (cases t)
        case None
        with m t(1) r(1) V6_IPv4 show ?thesis by (auto simp: p v6_ipv4_ending_def)
      next
        case (Some x)
        obtain bs cur b e where x: "x = (bs, cur, b, e)" by (cases x)
        with Some t(2) have bs: "length bs = 4" "cur \<le> 3" by auto
        show ?thesis
        proof (cases "cur \<noteq> 3 \<or> e \<or> 8 - int (v6_num_blocks st) < 2")
          case True
          with m t(1) r(1) V6_IPv4 Some x bs show ?thesis by (auto simp: p v6_ipv4_ending_def fault_simps)
        next
          case in_range: False
          define bs' where "bs' = take cur bs @ b # drop (Suc cur) bs"
          have w: "mem_write bs cur [b] = Some bs'" "length bs' = 4" using bs in_range by (simp_all add: fault_simps bs'_def)
          define out' where "out' = take (2 * v6_num_blocks st) (v6_out st) @ bs' @ drop (2 * v6_num_blocks st + 4) (v6_out st)"
          have w': "mem_write (v6_out st) (2 * v6_num_blocks st) bs' = Some out'" "length out' = 16"
            using k in_range w(2) by (auto simp: fault_simps out'_def v6_ok_def)
          have "\<exists>r. v6_done (v6_num_blocks st + 2) (v6_compress_pos st) out' = Some r \<and> (\<forall>b. r = Some b \<longrightarrow> length b = 16)"
            using k in_range w'(2) by (intro v6_done_safe) (auto simp: v6_ok_def)
          with m t(1) r(1) V6_IPv4 Some x w w' in_range False show ?thesis by (simp add: p v6_ipv4_ending_def)
        qed
      qed
    qed (use r(1) V6_IPv4 in \<open>simp add: p v6_ipv4_ending_def\<close>)
  qed
qed

section \<open>Blocks\<close>

abbreviation hx :: "u16 \<Rightarrow> string" where "hx g \<equiv> fmt_hex (unat g)"

lemma digit_char_hex:
  assumes "d < 16"
  shows "decode_hex_digit (digit_char d) = int d" "digit_char d \<noteq> CHR '':''" "digit_char d \<noteq> CHR ''.''" "digit_char d \<noteq> CHR ''/''"
proof -
  have "list_all (\<lambda>d. decode_hex_digit (digit_char d) = int d \<and> digit_char d \<noteq> CHR '':'' \<and> digit_char d \<noteq> CHR ''.'' \<and>
    digit_char d \<noteq> CHR ''/'') [0..<16]" by code_simp
  then have "\<forall>d\<in>set [0..<16]. decode_hex_digit (digit_char d) = int d \<and> digit_char d \<noteq> CHR '':'' \<and> digit_char d \<noteq> CHR ''.'' \<and>
    digit_char d \<noteq> CHR ''/''" unfolding list_all_iff .
  moreover have "d \<in> set [0..<16]" using assms by simp
  ultimately show "decode_hex_digit (digit_char d) = int d" "digit_char d \<noteq> CHR '':''" "digit_char d \<noteq> CHR ''.''" "digit_char d \<noteq> CHR ''/''"
    by blast+
qed

lemma hx_chars: "c \<in> set (hx g) \<Longrightarrow> c \<noteq> CHR '':'' \<and> c \<noteq> CHR ''.'' \<and> c \<noteq> CHR ''/''"
  using digits_range [of 16 "unat g"] digit_char_hex by (auto simp: fmt_hex_def)

lemma hx_ne [simp]: "hx g \<noteq> []"
  by (simp add: fmt_hex_def)

lemma hx_length: "length (hx g) \<le> 4"
proof -
  have "unat g < 2 ^ LENGTH(16)" by (rule unsigned_less)
  then show ?thesis by (simp add: fmt_hex_def digits_length)
qed

lemma horner_mono: "a \<le> foldl (\<lambda>a d. 16 * a + d) a (ds :: nat list)"
proof (induction ds arbitrary: a)
  case (Cons d ds)
  have "a \<le> 16 * a + d" by simp
  also have "\<dots> \<le> foldl (\<lambda>a d. 16 * a + d) (16 * a + d) ds" by (rule Cons.IH)
  finally show ?case by simp
qed simp

lemma v6_digit_hex:
  assumes "d < 16" "16 * v + d < 65536" "v6_block st = of_nat v"
  shows "v6_digit (digit_char d) st = Some (st\<lparr>v6_block := of_nat (16 * v + d), v6_empty := False\<rparr>)"
proof -
  have "uint (of_nat v :: u16) = int v" "uint (of_nat v * 16 :: u16) = 16 * int v"
    using assms(2) by (simp_all add: uint_word_ariths unsigned_of_nat take_bit_eq_mod)
  with assms show ?thesis by (simp add: v6_digit_def digit_char_hex Let_def)
qed

lemma v6_loop_hex:
  "name = pre @ map digit_char ds @ post \<Longrightarrow> \<forall>d\<in>set ds. d < 16 \<Longrightarrow> v6_block st = of_nat v \<Longrightarrow>
   foldl (\<lambda>a d. 16 * a + d) v ds < 65536 \<Longrightarrow>
   v6_loop name (length pre) st = v6_loop name (length pre + length ds)
     (st\<lparr>v6_block := of_nat (foldl (\<lambda>a d. 16 * a + d) v ds), v6_empty := (ds = [] \<and> v6_empty st)\<rparr>)"
proof (induction ds arbitrary: pre st v)
  case (Nil pre st v)
  have "st\<lparr>v6_block := of_nat v, v6_empty := v6_empty st\<rparr> = st" using Nil(3) by (cases st) simp
  then show ?case by simp
next
  case (Cons d ds)
  define st' where "st' = st\<lparr>v6_block := of_nat (16 * v + d), v6_empty := False\<rparr>"
  have d: "d < 16" using Cons.prems(2) by simp
  have v: "16 * v + d < 65536" using horner_mono [of "16 * v + d" ds] Cons.prems(4) by simp
  have c: "length pre < length name" "name ! length pre = digit_char d" using Cons.prems(1) by (simp_all add: nth_append)
  have "v6_loop name (length pre) st = v6_loop name (length pre + 1) st'"
    using c d v6_digit_hex [OF d v Cons.prems(3)] by (simp add: v6_loop_digit digit_char_hex st'_def)
  also have "\<dots> = v6_loop name (length (pre @ [digit_char d])) st'" by simp
  also have "\<dots> = v6_loop name (length (pre @ [digit_char d]) + length ds)
     (st'\<lparr>v6_block := of_nat (foldl (\<lambda>a d. 16 * a + d) (16 * v + d) ds), v6_empty := (ds = [] \<and> v6_empty st')\<rparr>)"
    using Cons.prems by (intro Cons.IH) (simp_all add: st'_def)
  finally show ?case by (simp add: st'_def)
qed

lemma v6_loop_block:
  assumes "name = pre @ hx g @ post" "v6_block st = 0"
  shows "v6_loop name (length pre) st = v6_loop name (length pre + length (hx g)) (st\<lparr>v6_block := g, v6_empty := False\<rparr>)"
proof -
  have g: "unat g < 2 ^ LENGTH(16)" by (rule unsigned_less)
  show ?thesis
    using v6_loop_hex [of name pre "digits 16 (unat g)" post st 0] assms g digits_range [of 16 "unat g"]
    by (simp add: fmt_hex_def digits_value)
qed

fun join_blocks :: "u16 list \<Rightarrow> string" where
  "join_blocks [] = []"
| "join_blocks [g] = hx g"
| "join_blocks (g # h # gs) = hx g @ CHR '':'' # join_blocks (h # gs)"

definition block_bytes :: "u16 \<Rightarrow> bytes" where
  "block_bytes g = [ucast (drop_bit 8 g), ucast (g AND 0xFF)]"

lemma join_first: "\<exists>c s. join_blocks (g # gs) = c # s \<and> c \<noteq> CHR '':''"
proof -
  obtain c s where "hx g = c # s" using hx_ne [of g] by (cases "hx g") auto
  then show ?thesis using hx_chars [of c g] by (cases gs) auto
qed

lemma join_chars: "c \<in> set (join_blocks gs) \<Longrightarrow> c \<noteq> CHR ''/''"
  by (induction gs rule: join_blocks.induct) (auto dest: hx_chars)

lemma store_block_eq:
  "2 * v6_num_blocks st + 2 \<le> length (v6_out st) \<Longrightarrow> store_block st = Some (st\<lparr>
     v6_out := take (2 * v6_num_blocks st) (v6_out st) @ block_bytes (v6_block st) @ drop (2 * v6_num_blocks st + 2) (v6_out st),
     v6_num_blocks := v6_num_blocks st + 1\<rparr>)"
  by (simp add: store_block_def fault_simps block_bytes_def)

text \<open>Blocks with single colons between them: all but the last are stored.\<close>

lemma v6_loop_join:
  assumes "gs \<noteq> []" "name = pre @ join_blocks gs @ post" "v6_block st = 0" "v6_empty st" "length (v6_out st) = 16"
    "v6_num_blocks st + length gs \<le> 8"
  shows "\<exists>out. v6_loop name (length pre) st = v6_loop name (length (pre @ join_blocks gs))
       (st\<lparr>v6_num_blocks := v6_num_blocks st + length gs - 1, v6_block := last gs, v6_empty := False, v6_out := out\<rparr>) \<and> length out = 16 \<and>
     take (2 * (v6_num_blocks st + length gs - 1)) out = take (2 * v6_num_blocks st) (v6_out st) @ concat (map block_bytes (butlast gs))"
  using assms
proof (induction gs arbitrary: pre st rule: join_blocks.induct)
  case (2 g)
  then show ?case using v6_loop_block [of name pre g post st] by (intro exI [of _ "v6_out st"]) simp
next
  case (3 g h gs)
  define n where "n = v6_num_blocks st"
  define out1 where "out1 = take (2 * n) (v6_out st) @ block_bytes g @ drop (2 * n + 2) (v6_out st)"
  define st1 where "st1 = st\<lparr>v6_block := g, v6_empty := False\<rparr>"
  define st2 where "st2 = st\<lparr>v6_block := 0, v6_empty := True, v6_out := out1, v6_num_blocks := n + 1\<rparr>"
  let ?i = "length pre + length (hx g)"
  obtain c s where cs: "join_blocks (h # gs) = c # s" "c \<noteq> CHR '':''" using join_first by blast
  have name: "name = (pre @ hx g) @ CHR '':'' # join_blocks (h # gs) @ post" using 3(3) by simp
  have i: "?i < length name" "name ! ?i = CHR '':''" "\<not> double_at name ?i"
    using cs by (simp_all add: name nth_append double_at_def)
  have n: "n \<le> 6" using 3(7) by (simp add: n_def)
  have "v6_colon ?i False st1 = accepted st2"
    using n 3(6) by (simp add: v6_colon_def st1_def st2_def store_block_eq n_def out1_def)
  then have "v6_loop name ?i st1 = v6_loop name (?i + 1) st2" using i by (simp add: v6_loop_colon)
  moreover have "v6_loop name (length pre) st = v6_loop name ?i st1"
    using v6_loop_block [of name pre g "CHR '':'' # join_blocks (h # gs) @ post" st] name 3(4) by (simp add: st1_def)
  moreover have "\<exists>out. v6_loop name (length (pre @ hx g @ [CHR '':''])) st2 = v6_loop name (length ((pre @ hx g @ [CHR '':'']) @ join_blocks (h # gs)))
       (st2\<lparr>v6_num_blocks := v6_num_blocks st2 + length (h # gs) - 1, v6_block := last (h # gs), v6_empty := False, v6_out := out\<rparr>) \<and>
     length out = 16 \<and>
     take (2 * (v6_num_blocks st2 + length (h # gs) - 1)) out = take (2 * v6_num_blocks st2) (v6_out st2) @ concat (map block_bytes (butlast (h # gs)))"
    using 3(7) n 3(6) by (intro 3(1)) (simp_all add: name st2_def out1_def n_def block_bytes_def)
  moreover have "take (2 * (n + 1)) out1 = take (2 * n) (v6_out st) @ block_bytes g" using n 3(6) by (simp add: out1_def block_bytes_def)
  ultimately show ?case by (auto simp: st2_def n_def)
qed simp

lemma v6_done_eq:
  assumes "length out = 16" "take (2 * n) out = F @ R" "length F = 2 * c" "c \<le> n" "n \<le> 8"
  shows "v6_done n (int c) out = accepted (F @ replicate (16 - 2 * n) 0 @ R)"
proof -
  have "2 * n = length F + length R" using arg_cong [OF assms(2), of length] assms(1,5) by simp
  then have R: "length R = 2 * (n - c)" using assms(3) by simp
  have out: "out = F @ R @ drop (2 * n) out" using append_take_drop_id [of "2 * n" out] assms(2) by simp
  have rear: "mem_read out (2 * c) (2 * (n - c)) = Some R"
    using assms R by (subst out) (simp add: fault_simps)
  define out1 where "out1 = take (2 * (8 - (n - c))) out @ R"
  have w: "mem_write out (2 * (8 - (n - c))) R = Some out1" using assms R by (simp add: fault_simps out1_def)
  have "take (2 * c) out1 = take (2 * c) out" using assms by (simp add: out1_def)
  also have "\<dots> = F" using assms by (subst out) simp
  finally have F: "take (2 * c) out1 = F" .
  have "drop (2 * c + 2 * (8 - (n - c) - c)) out1 = R" using assms by (simp add: out1_def)
  then have "mem_write out1 (2 * c) (replicate (2 * (8 - (n - c) - c)) 0) = Some (F @ replicate (16 - 2 * n) 0 @ R)"
    using assms R F by (simp add: fault_simps out1_def)
  with rear w assms show ?thesis by (simp add: v6_done_def Let_def)
qed

section \<open>Parsing what the printer writes\<close>

definition v6_start :: "bytes \<Rightarrow> v6_state" where
  "v6_start out = \<lparr>v6_num_blocks = 0, v6_compress_pos = -1, v6_block = 0, v6_empty = True, v6_out = out\<rparr>"

lemma parse_ipv6_start: "ipaddr6_parse_ipv6_addr_bin name out = do {
     r \<leftarrow> v6_loop name 0 (v6_start out);
     (case r of
       V6_Fail \<Rightarrow> rejected
     | V6_IPv4 i st \<Rightarrow> v6_ipv4_ending name i st
     | V6_End st \<Rightarrow>
         if \<not> v6_empty st then do { st \<leftarrow> store_block st; v6_done (v6_num_blocks st) (v6_compress_pos st) (v6_out st) }
         else if int (v6_num_blocks st) \<noteq> v6_compress_pos st then rejected
         else v6_done (v6_num_blocks st) (v6_compress_pos st) (v6_out st))
   }"
  unfolding ipaddr6_parse_ipv6_addr_bin_def v6_start_def ..

lemma length_blocks [simp]: "length (concat (map block_bytes gs)) = 2 * length gs"
  by (induction gs) (simp_all add: block_bytes_def)

lemma concat_butlast: "gs \<noteq> [] \<Longrightarrow> concat (map f gs) = concat (map f (butlast gs)) @ f (last gs)"
  by (induction gs) auto

text \<open>The last blocks up to the end of the text, after \<open>n\<close> blocks that are stored.\<close>

lemma v6_finish:
  assumes gs: "gs \<noteq> []" "name = pre @ join_blocks gs" and st: "v6_block st = 0" "v6_empty st" "length (v6_out st) = 16"
    and n: "v6_num_blocks st + length gs \<le> 8"
  shows "\<exists>st' out. v6_loop name (length pre) st = Some (V6_End st') \<and> \<not> v6_empty st' \<and> store_block st' = Some out \<and>
     v6_num_blocks out = v6_num_blocks st + length gs \<and> v6_compress_pos out = v6_compress_pos st \<and> length (v6_out out) = 16 \<and>
     take (2 * v6_num_blocks out) (v6_out out) = take (2 * v6_num_blocks st) (v6_out st) @ concat (map block_bytes gs)"
proof -
  define m where "m = v6_num_blocks st + length gs - 1"
  have m: "m \<le> 7" "v6_num_blocks st + length gs = Suc m" using n gs(1) by (cases gs; simp add: m_def)+
  from v6_loop_join [of gs name pre "[]" st] gs st n obtain out where out:
    "v6_loop name (length pre) st = v6_loop name (length name) (st\<lparr>v6_num_blocks := m, v6_block := last gs, v6_empty := False, v6_out := out\<rparr>)"
    "length out = 16" "take (2 * m) out = take (2 * v6_num_blocks st) (v6_out st) @ concat (map block_bytes (butlast gs))"
    unfolding m_def by auto
  have b: "concat (map block_bytes gs) = concat (map block_bytes (butlast gs)) @ block_bytes (last gs)"
    using gs(1) by (rule concat_butlast)
  define st' where "st' = st\<lparr>v6_num_blocks := m, v6_block := last gs, v6_empty := False, v6_out := out\<rparr>"
  have "store_block st' = Some (st'\<lparr>v6_out := take (2 * m) out @ block_bytes (last gs) @ drop (2 * m + 2) out, v6_num_blocks := m + 1\<rparr>)"
    using out(2) m(1) by (simp add: store_block_eq st'_def)
  moreover have "take (2 * (m + 1)) (take (2 * m) out @ block_bytes (last gs) @ drop (2 * m + 2) out) =
      take (2 * v6_num_blocks st) (v6_out st) @ concat (map block_bytes gs)"
  proof -
    have "take (2 * (m + 1)) (take (2 * m) out @ block_bytes (last gs) @ drop (2 * m + 2) out) = take (2 * m) out @ block_bytes (last gs)"
      using out(2) m(1) by (simp add: block_bytes_def)
    then show ?thesis by (simp only: out(3) b append_assoc)
  qed
  moreover have "length (take (2 * m) out @ block_bytes (last gs) @ drop (2 * m + 2) out) = 16" using out(2) m(1) by (simp add: block_bytes_def)
  ultimately show ?thesis using out(1) m(2) by (intro exI [of _ st'] exI) (auto simp: v6_loop_end st'_def)
qed

lemma parse_plain:
  assumes "length gs = 8" "length out = 16"
  shows "ipaddr6_parse_ipv6_addr_bin (join_blocks gs) out = accepted (concat (map block_bytes gs))"
proof -
  have ne: "gs \<noteq> []" using assms(1) by auto
  from v6_finish [of gs "join_blocks gs" "[]" "v6_start out"] ne assms obtain st' e where
    "v6_loop (join_blocks gs) 0 (v6_start out) = Some (V6_End st')" "\<not> v6_empty st'" "store_block st' = Some e" "v6_num_blocks e = 8"
    "v6_compress_pos e = -1" "length (v6_out e) = 16" "take 16 (v6_out e) = concat (map block_bytes gs)"
    by (auto simp: v6_start_def)
  then show ?thesis using assms by (simp add: parse_ipv6_start v6_done_def fault_simps)
qed

text \<open>After a double colon.\<close>

lemma parse_rear:
  assumes name: "name = pre @ join_blocks hs" and st: "v6_block st = 0" "v6_empty st" "length (v6_out st) = 16"
    and c: "v6_compress_pos st = int (v6_num_blocks st)" and n: "v6_num_blocks st + length hs \<le> 8"
    and F: "take (2 * v6_num_blocks st) (v6_out st) = F"
    and start: "v6_loop name 0 (v6_start out) = v6_loop name (length pre) st"
  shows "ipaddr6_parse_ipv6_addr_bin name out =
    accepted (F @ replicate (16 - 2 * (v6_num_blocks st + length hs)) 0 @ concat (map block_bytes hs))"
proof -
  have lF: "length F = 2 * v6_num_blocks st" using st(3) n F by auto
  show ?thesis
  proof (cases "hs = []")
    case True
    then have "v6_loop name (length pre) st = Some (V6_End st)" using name by (simp add: v6_loop_end)
    with start st c n True v6_done_eq [of "v6_out st" "v6_num_blocks st" F "[]" "v6_num_blocks st"] F lF show ?thesis
      by (simp add: parse_ipv6_start)
  next
    case False
    from v6_finish [OF False name st n] obtain st' e where
      e: "v6_loop name (length pre) st = Some (V6_End st')" "\<not> v6_empty st'" "store_block st' = Some e"
      "v6_num_blocks e = v6_num_blocks st + length hs" "v6_compress_pos e = v6_compress_pos st" "length (v6_out e) = 16"
      "take (2 * v6_num_blocks e) (v6_out e) = take (2 * v6_num_blocks st) (v6_out st) @ concat (map block_bytes hs)" by blast
    with start c n F lF v6_done_eq [of "v6_out e" "v6_num_blocks st + length hs" F "concat (map block_bytes hs)" "v6_num_blocks st"] show ?thesis
      by (simp add: parse_ipv6_start)
  qed
qed

lemma parse_compressed:
  assumes n: "length gs + length hs \<le> 7" and out: "length out = 16"
  shows "ipaddr6_parse_ipv6_addr_bin (join_blocks gs @ ''::'' @ join_blocks hs) out =
    accepted (concat (map block_bytes gs) @ replicate (16 - 2 * (length gs + length hs)) 0 @ concat (map block_bytes hs))"
proof (cases "gs = []")
  case True
  let ?name = "''::'' @ join_blocks hs"
  have "double_at ?name 0" by (simp add: double_at_def)
  moreover have "v6_colon 0 True (v6_start out) = accepted ((v6_start out)\<lparr>v6_compress_pos := 0\<rparr>)"
    by (simp add: v6_colon_def v6_start_def)
  ultimately have "v6_loop ?name 0 (v6_start out) = v6_loop ?name (length ''::'') ((v6_start out)\<lparr>v6_compress_pos := 0\<rparr>)"
    by (subst v6_loop_colon) simp_all
  from parse_rear [OF refl _ _ _ _ _ refl this] n out True show ?thesis by (simp add: v6_start_def)
next
  case False
  let ?name = "join_blocks gs @ ''::'' @ join_blocks hs"
  define k where "k = length (join_blocks gs)"
  define m where "m = length gs - 1"
  have gs: "length gs = Suc m" "m \<le> 6" using False n by (cases gs; simp add: m_def)+
  from v6_loop_join [OF False, of ?name "[]" "''::'' @ join_blocks hs" "v6_start out"] n out gs obtain buf where
    "v6_loop ?name 0 (v6_start out) = v6_loop ?name k
       ((v6_start out)\<lparr>v6_num_blocks := m, v6_block := last gs, v6_empty := False, v6_out := buf\<rparr>)"
    and buf: "length buf = 16" "take (2 * m) buf = concat (map block_bytes (butlast gs))"
    by (auto simp: v6_start_def k_def)
  moreover define st where "st = (v6_start out)\<lparr>v6_num_blocks := m, v6_block := last gs, v6_empty := False, v6_out := buf\<rparr>"
  ultimately have to_st: "v6_loop ?name 0 (v6_start out) = v6_loop ?name k st" by simp
  define buf' where "buf' = take (2 * m) buf @ block_bytes (last gs) @ drop (2 * m + 2) buf"
  define st' where "st' = (v6_start out)\<lparr>v6_num_blocks := Suc m, v6_block := 0, v6_empty := True, v6_out := buf', v6_compress_pos := int (Suc m)\<rparr>"
  obtain g gs' where "gs = g # gs'" using False by (cases gs) auto
  with join_first [of g gs'] have "0 < k" by (auto simp: k_def)
  then have k: "0 < k" "k < length ?name" "?name ! k = CHR '':''" "double_at ?name k"
    by (simp_all add: k_def double_at_def nth_append)
  have "v6_colon k True st = accepted st'"
    using k(1) gs n buf(1) by (simp add: v6_colon_def st_def st'_def store_block_eq buf'_def v6_start_def)
  with k have "v6_loop ?name k st = v6_loop ?name (length (join_blocks gs @ ''::'')) st'" by (subst v6_loop_colon) (simp_all add: k_def)
  with to_st have to_st': "v6_loop ?name 0 (v6_start out) = v6_loop ?name (length (join_blocks gs @ ''::'')) st'" by simp
  have "concat (map block_bytes gs) = concat (map block_bytes (butlast gs)) @ block_bytes (last gs)"
    using False by (rule concat_butlast)
  then have F: "take (2 * Suc m) buf' = concat (map block_bytes gs)" using buf gs by (simp add: buf'_def block_bytes_def)
  from parse_rear [OF _ _ _ _ _ _ _ to_st', of hs "concat (map block_bytes gs)"] gs n buf F show ?thesis
    by (simp add: st'_def buf'_def block_bytes_def)
qed

definition v6_blocks :: "ipv6_addr \<Rightarrow> u16 list" where
  "v6_blocks addr = map (v6_block_at addr) [0..<8]"

lemma bytes_of_block:
  "ucast (drop_bit 8 (push_bit 8 (ucast (a :: u8)) OR ucast (b :: u8) :: u16)) = a"
  "ucast ((push_bit 8 (ucast (a :: u8)) OR ucast (b :: u8) :: u16) AND 0xFF) = b"
proof -
  have m: "(0xFF :: u16) = mask 8" by (simp add: mask_eq_exp_minus_1)
  show "ucast (drop_bit 8 (push_bit 8 (ucast a) OR ucast b :: u16)) = a" "ucast ((push_bit 8 (ucast a) OR ucast b :: u16) AND 0xFF) = b"
    unfolding m by (rule bit_word_eqI; auto simp: bit_simps)+
qed

lemma block_bytes_at: "block_bytes (v6_block_at addr i) = [addr ! (2 * i), addr ! (2 * i + 1)]"
  unfolding block_bytes_def v6_block_at_def bytes_of_block ..

lemma bytes_of_blocks:
  assumes "k \<le> 8" "length addr = 16"
  shows "concat (map block_bytes (map (v6_block_at addr) [j..<k])) = take (2 * (k - j)) (drop (2 * j) addr)"
  using assms(1)
proof (induction k)
  case (Suc k)
  show ?case
  proof (cases "j \<le> k")
    case True
    have e: "2 * j + 2 * (k - j) = 2 * k" using True by simp
    have "take (2 * (Suc k - j)) (drop (2 * j) addr) = take (2 * (k - j)) (drop (2 * j) addr) @ [addr ! (2 * k), addr ! (2 * k + 1)]"
      using True Suc.prems assms(2) by (simp add: Suc_diff_le take_Suc_conv_app_nth e)
    with Suc True show ?thesis by (simp add: block_bytes_at)
  qed simp
qed simp

lemma join_before: "gs \<noteq> [] \<Longrightarrow> concat (map (\<lambda>g. hx g @ '':'') gs) = join_blocks gs @ '':''"
  by (induction gs rule: join_blocks.induct) auto

lemma join_after: "gs \<noteq> [] \<Longrightarrow> concat (map (\<lambda>g. '':'' @ hx g) gs) = '':'' @ join_blocks gs"
  by (induction gs rule: join_blocks.induct) auto

lemma join_length: "length (join_blocks gs) \<le> 5 * length gs - 1"
proof (induction gs rule: join_blocks.induct)
  case (3 g h gs)
  then show ?case using hx_length [of g] by simp
qed (use hx_length in \<open>auto simp: le_diff_conv\<close>)

text \<open>The search for zeros finds a run of zero blocks inside the address, and no run is longer.\<close>

definition zero_run :: "ipv6_addr \<Rightarrow> nat \<Rightarrow> nat \<Rightarrow> bool" where
  "zero_run addr start len \<longleftrightarrow> (\<forall>i. start \<le> i \<and> i < start + len \<longrightarrow> addr ! (2 * i) = 0 \<and> addr ! (2 * i + 1) = 0)"

lemma zeros_fold:
  "\<exists>ls ll cs cl. foldl (v6_zeros_step addr) ((0, 0), 0, 0) [0..<n] = ((ls, ll), cs, cl) \<and> ls + ll \<le> n \<and> cs + cl = n \<and> cl \<le> ll \<and>
     zero_run addr ls ll \<and> zero_run addr cs cl \<and>
     (\<forall>a k. a + k \<le> n \<longrightarrow> zero_run addr a k \<longrightarrow> k \<le> ll) \<and> (\<forall>a k. a + k = n \<longrightarrow> zero_run addr a k \<longrightarrow> k \<le> cl)"
proof (induction n)
  case (Suc n)
  then obtain ls ll cs cl where f: "foldl (v6_zeros_step addr) ((0, 0), 0, 0) [0..<n] = ((ls, ll), cs, cl)"
    and i: "ls + ll \<le> n" "cs + cl = n" "cl \<le> ll" "zero_run addr ls ll" "zero_run addr cs cl"
    and mx: "\<forall>a k. a + k \<le> n \<longrightarrow> zero_run addr a k \<longrightarrow> k \<le> ll" "\<forall>a k. a + k = n \<longrightarrow> zero_run addr a k \<longrightarrow> k \<le> cl" by auto
  have short: "zero_run addr a k \<Longrightarrow> zero_run addr a (k - 1)" for a k by (auto simp: zero_run_def)
  show ?case
  proof (cases "addr ! (2 * n) = 0 \<and> addr ! (2 * n + 1) = 0")
    case True
    have run: "zero_run addr cs (Suc cl)" using i True by (auto simp: zero_run_def less_Suc_eq)
    have m2: "k \<le> Suc cl" if "a + k = Suc n" "zero_run addr a k" for a k
    proof (cases k)
      case (Suc j)
      then show ?thesis using mx(2) short [OF that(2)] that(1) by auto
    qed simp
    have m1: "k \<le> max ll (Suc cl)" if ak: "a + k \<le> Suc n" "zero_run addr a k" for a k
    proof (cases "a + k = Suc n")
      case False
      then have "a + k \<le> n" using ak(1) by simp
      with mx(1) ak(2) have "k \<le> ll" by blast
      then show ?thesis by simp
    next
      case True
      with m2 ak(2) have "k \<le> Suc cl" by blast
      then show ?thesis by simp
    qed
    show ?thesis
    proof (cases "Suc cl > ll")
      case True
      with \<open>addr ! (2 * n) = 0 \<and> addr ! (2 * n + 1) = 0\<close> f i run m1 m2 show ?thesis
        by (intro exI [of _ cs] exI [of _ "Suc cl"]) (auto simp: v6_zeros_step_def max_def)
    next
      case False
      with True f i run m1 m2 show ?thesis
        by (intro exI [of _ ls] exI [of _ ll] exI [of _ cs] exI [of _ "Suc cl"]) (auto simp: v6_zeros_step_def max_def)
    qed
  next
    case False
    have m2: "k \<le> 0" if ak: "a + k = Suc n" "zero_run addr a k" for a k
    proof (rule ccontr)
      assume "\<not> k \<le> 0"
      then have "a \<le> n" "n < a + k" using ak(1) by auto
      then show False using ak(2) False by (auto simp: zero_run_def)
    qed
    have m1: "k \<le> ll" if ak: "a + k \<le> Suc n" "zero_run addr a k" for a k
    proof (cases "a + k = Suc n")
      case True
      then show ?thesis using m2 [OF True ak(2)] by simp
    next
      case False
      then have "a + k \<le> n" using ak(1) by simp
      with mx(1) ak(2) show ?thesis by blast
    qed
    have "zero_run addr (Suc n) 0" by (auto simp: zero_run_def)
    with False f i m1 m2 show ?thesis
      by (intro exI [of _ ls] exI [of _ ll] exI [of _ "Suc n"] exI [of _ 0]) (auto simp: v6_zeros_step_def)
  qed
qed (auto simp: zero_run_def)

lemma largest_zeros:
  obtains ls ll where "v6_largest_zeros addr = (ls, ll)" "ls + ll \<le> 8" "zero_run addr ls ll"
    "\<And>a k. a + k \<le> 8 \<Longrightarrow> zero_run addr a k \<Longrightarrow> k \<le> ll"
  using zeros_fold [of addr 8] unfolding v6_largest_zeros_def by fastforce

lemma print_compressed:
  assumes "v6_largest_zeros addr = (ls, ll)" "1 < ll" "ls + ll \<le> 8"
  shows "ipaddr6_print_addr addr = join_blocks (map (v6_block_at addr) [0..<ls]) @ ''::'' @ join_blocks (map (v6_block_at addr) [ls + ll..<8])"
proof -
  have c: "concat (map (\<lambda>i. fmt_block addr i @ '':'') [0..<ls]) = concat (map (\<lambda>g. hx g @ '':'') (map (v6_block_at addr) [0..<ls]))"
    "concat (map (\<lambda>i. '':'' @ fmt_block addr i) [ls + ll..<8]) = concat (map (\<lambda>g. '':'' @ hx g) (map (v6_block_at addr) [ls + ll..<8]))"
    by (simp_all add: fmt_block_def o_def)
  have front: "concat (map (\<lambda>i. fmt_block addr i @ '':'') [0..<ls]) @ (if ls = 0 then '':'' else []) =
      join_blocks (map (v6_block_at addr) [0..<ls]) @ '':''"
  proof (cases "ls = 0")
    case False
    then have "map (v6_block_at addr) [0..<ls] \<noteq> []" by simp
    from join_before [OF this] False show ?thesis unfolding c by simp
  qed simp
  have rear: "concat (map (\<lambda>i. '':'' @ fmt_block addr i) [ls + ll..<8]) @ (if ls + ll = 8 then '':'' else []) =
      '':'' @ join_blocks (map (v6_block_at addr) [ls + ll..<8])"
  proof (cases "ls + ll = 8")
    case False
    then have "map (v6_block_at addr) [ls + ll..<8] \<noteq> []" using assms(3) by simp
    from join_after [OF this] False show ?thesis unfolding c by simp
  qed simp
  have "ipaddr6_print_addr addr = (concat (map (\<lambda>i. fmt_block addr i @ '':'') [0..<ls]) @ (if ls = 0 then '':'' else [])) @
      concat (map (\<lambda>i. '':'' @ fmt_block addr i) [ls + ll..<8]) @ (if ls + ll = 8 then '':'' else [])"
    using assms(1,2) by (simp add: ipaddr6_print_addr_def)
  then show ?thesis unfolding front rear by simp
qed

lemma print_plain:
  assumes "v6_largest_zeros addr = (ls, ll)" "\<not> 1 < ll"
  shows "ipaddr6_print_addr addr = join_blocks (v6_blocks addr)"
  using assms by (simp add: ipaddr6_print_addr_def v6_blocks_def fmt_block_def upt_rec numeral_eq_Suc)

lemma parse_print_ipv6:
  assumes a: "length addr = 16" and out: "length out = 16"
  shows "ipaddr6_parse_ipv6_addr_bin (ipaddr6_print_addr addr) out = accepted addr"
proof -
  obtain ls ll where z: "v6_largest_zeros addr = (ls, ll)" "ls + ll \<le> 8" "zero_run addr ls ll" by (rule largest_zeros)
  show ?thesis
  proof (cases "1 < ll")
    case True
    have mid: "take (2 * ll) (drop (2 * ls) addr) = replicate (2 * ll) 0"
    proof (rule nth_equalityI)
      fix i
      assume "i < length (take (2 * ll) (drop (2 * ls) addr))"
      then have i: "i < 2 * ll" by simp
      then have "ls \<le> ls + i div 2" "ls + i div 2 < ls + ll" by auto
      then have "addr ! (2 * (ls + i div 2)) = 0 \<and> addr ! (2 * (ls + i div 2) + 1) = 0" using z(3) unfolding zero_run_def by blast
      moreover have "2 * ls + i = 2 * (ls + i div 2) \<or> 2 * ls + i = 2 * (ls + i div 2) + 1" by presburger
      ultimately have "addr ! (2 * ls + i) = 0" by metis
      then show "take (2 * ll) (drop (2 * ls) addr) ! i = replicate (2 * ll) 0 ! i" using i a z(2) by auto
    qed (use a z(2) in simp)
    have "addr = take (2 * ls) addr @ take (2 * ll) (drop (2 * ls) addr) @ drop (2 * (ls + ll)) addr"
      by (metis append_take_drop_id drop_drop mult_2 distrib_left add.commute)
    then have addr: "take (2 * ls) addr @ replicate (2 * ll) 0 @ drop (2 * (ls + ll)) addr = addr" unfolding mid by simp
    have front: "concat (map block_bytes (map (v6_block_at addr) [0..<ls])) = take (2 * ls) addr"
      using bytes_of_blocks [of ls addr 0] z(2) a by simp
    have rear: "concat (map block_bytes (map (v6_block_at addr) [ls + ll..<8])) = drop (2 * (ls + ll)) addr"
      using bytes_of_blocks [of 8 addr "ls + ll"] z(2) a by simp
    have "16 - 2 * (length (map (v6_block_at addr) [0..<ls]) + length (map (v6_block_at addr) [ls + ll..<8])) = 2 * ll" using z(2) by simp
    then show ?thesis
      using parse_compressed [of "map (v6_block_at addr) [0..<ls]" "map (v6_block_at addr) [ls + ll..<8]" out] z(2) True out addr
      unfolding print_compressed [OF z(1) True z(2)] front rear by simp
  next
    case False
    have "concat (map block_bytes (v6_blocks addr)) = addr" using bytes_of_blocks [of 8 addr 0] a by (simp add: v6_blocks_def)
    then show ?thesis using parse_plain [of "v6_blocks addr" out] out print_plain [OF z(1) False] by (simp add: v6_blocks_def)
  qed
qed

lemma print_ipv6_length: "length (ipaddr6_print_addr addr) \<le> 39"
proof -
  obtain ls ll where z: "v6_largest_zeros addr = (ls, ll)" "ls + ll \<le> 8" by (rule largest_zeros)
  show ?thesis
  proof (cases "1 < ll")
    case True
    then show ?thesis using join_length [of "map (v6_block_at addr) [0..<ls]"] join_length [of "map (v6_block_at addr) [ls + ll..<8]"] z(2)
      unfolding print_compressed [OF z(1) True z(2)] by simp
  next
    case False
    then show ?thesis using join_length [of "v6_blocks addr"] by (simp add: print_plain [OF z(1) False] v6_blocks_def)
  qed
qed

lemma print_ipv6_chars: "c \<in> set (ipaddr6_print_addr addr) \<Longrightarrow> c \<noteq> CHR ''/''"
proof -
  obtain ls ll where z: "v6_largest_zeros addr = (ls, ll)" "ls + ll \<le> 8" by (rule largest_zeros)
  assume "c \<in> set (ipaddr6_print_addr addr)"
  then show ?thesis
    by (cases "1 < ll") (auto simp: print_compressed [OF z(1) _ z(2)] print_plain [OF z(1)] dest: join_chars)
qed

section \<open>IPv4\<close>

lemma ipv4_addr_loop_safe:
  "i \<le> 3 \<Longrightarrow> length out = 4 \<Longrightarrow> \<exists>r. ipv4_addr_loop i name out = Some r \<and> (\<forall>b. r = Some b \<longrightarrow> length b = 4)"
proof (induction i name out rule: ipv4_addr_loop.induct)
  case (1 i name out)
  define j where "j = length (takeWhile (\<lambda>c. c \<noteq> CHR ''.'') name)"
  show ?case
  proof (cases "(j = length name \<and> i < 3) \<or> (j < length name \<and> i = 3) \<or> j < 1 \<or> j > 3 \<or>
      (\<forall>d. parse_unsigned_integer_bin (take j name) = Some d \<longrightarrow> d > 255)")
    case True
    then show ?thesis by (subst ipv4_addr_loop.simps) (auto simp: Let_def simp flip: j_def split: option.split)
  next
    case False
    then obtain d where d: "parse_unsigned_integer_bin (take j name) = Some d" "\<not> d > 255" by blast
    define out' where "out' = take i out @ ucast d # drop (Suc i) out"
    have w: "mem_write out i [ucast d] = Some out'" "length out' = 4" using 1(2,3) by (simp_all add: fault_simps out'_def)
    have step: "ipv4_addr_loop i name out = (if i = 3 then accepted out' else ipv4_addr_loop (i + 1) (drop (j + 1) name) out')"
      using False d w(1) unfolding ipv4_addr_loop.simps [of i name out] Let_def j_def [symmetric] d(1) by auto
    show ?thesis
    proof (cases "i = 3")
      case f: False
      have "\<exists>r. ipv4_addr_loop (i + 1) (drop (j + 1) name) out' = Some r \<and> (\<forall>b. r = Some b \<longrightarrow> length b = 4)"
        using False f d w 1(2) by (intro 1(1) [OF j_def]) auto
      then show ?thesis using step f by simp
    qed (use step w(2) in simp)
  qed
qed

lemma fmt_u8_length: "1 \<le> length (fmt_u8 b)" "length (fmt_u8 b) \<le> 3"
proof -
  have b: "unat b < 2 ^ LENGTH(8)" by (rule unsigned_less)
  show "1 \<le> length (fmt_u8 b)" using fmt_dec_ne [of "unat b"] unfolding fmt_u8_def by (cases "fmt_dec (unat b)") simp_all
  show "length (fmt_u8 b) \<le> 3" unfolding fmt_u8_def by (rule fmt_dec_length) (use b in simp_all)
qed

lemma fmt_u8_chars: "c \<in> set (fmt_u8 b) \<Longrightarrow> c \<noteq> CHR ''.'' \<and> c \<noteq> CHR ''/'' \<and> c \<noteq> CHR '':''"
  using fmt_dec_digits [of "unat b"] by (auto simp: fmt_u8_def list_all_iff is_digit_def)

lemma u8_through_u64: "\<not> (ucast (b :: u8) :: u64) > 255" "ucast (ucast b :: u64) = b" "parse_unsigned_integer_bin (fmt_u8 b) = Some (ucast b)"
proof -
  have b: "unat b < 2 ^ LENGTH(8)" by (rule unsigned_less)
  have u: "(of_nat (unat b) :: u64) = ucast b" by simp
  have "unat (ucast b :: u64) = unat b" using b unfolding u [symmetric] unat_of_nat by simp
  then show "\<not> (ucast b :: u64) > 255" using b by (simp add: word_less_nat_alt)
  show "ucast (ucast b :: u64) = b" by (rule bit_word_eqI) (simp add: bit_simps)
  show "parse_unsigned_integer_bin (fmt_u8 b) = Some (ucast b)"
    using b by (simp add: fmt_u8_def parse_unsigned_integer_eq fmt_dec_digits fmt_dec_value)
qed

lemma takeWhile_fmt: "takeWhile (\<lambda>c. c \<noteq> CHR ''.'') (fmt_u8 b @ rest) = fmt_u8 b @ takeWhile (\<lambda>c. c \<noteq> CHR ''.'') rest"
  using fmt_u8_chars by (simp add: takeWhile_append2)

lemma takeWhile_whole: "takeWhile (\<lambda>c. c \<noteq> CHR ''.'') (fmt_u8 b) = fmt_u8 b"
  using takeWhile_fmt [of b "[]"] by (simp only: takeWhile.simps append_Nil2)

lemma fmt_u8_ne: "fmt_u8 b \<noteq> []"
  using fmt_u8_length(1) [of b] by auto

lemma ipv4_loop_byte:
  assumes "i < 3" "length out = 4"
  shows "ipv4_addr_loop i (fmt_u8 b @ CHR ''.'' # rest) out = ipv4_addr_loop (i + 1) rest (take i out @ b # drop (Suc i) out)"
  using assms fmt_u8_length [of b] u8_through_u64 [of b]
  by (subst ipv4_addr_loop.simps) (simp add: takeWhile_fmt fmt_u8_ne Let_def fault_simps)

lemma ipv4_loop_last:
  assumes "length out = 4"
  shows "ipv4_addr_loop 3 (fmt_u8 b) out = accepted (take 3 out @ [b])"
  using assms fmt_u8_length [of b] u8_through_u64 [of b]
  by (subst ipv4_addr_loop.simps) (simp add: takeWhile_whole fmt_u8_ne Let_def fault_simps)

lemma list4_of: "length xs = 4 \<Longrightarrow> xs = [xs ! 0, xs ! 1, xs ! 2, xs ! 3]"
  by (rule nth_equalityI) (auto simp: less_Suc_eq numeral_eq_Suc)

lemma parse_print_ipv4: "ipaddr_parse_ipv4_addr_bin (ipaddr_print_addr addr) out = accepted addr"
proof -
  define a b c d where "a = mem32 addr ! 0" and "b = mem32 addr ! 1" and "c = mem32 addr ! 2" and "d = mem32 addr ! 3"
  have m: "mem32 addr = [a, b, c, d]" unfolding a_def b_def c_def d_def by (rule list4_of) simp
  obtain w x y z where o: "mem32 out = [w, x, y, z]" using list4_of [of "mem32 out"] by simp
  have "ipv4_addr_loop 0 (fmt_u8 a @ CHR ''.'' # fmt_u8 b @ CHR ''.'' # fmt_u8 c @ CHR ''.'' # fmt_u8 d) (mem32 out) =
      ipv4_addr_loop 1 (fmt_u8 b @ CHR ''.'' # fmt_u8 c @ CHR ''.'' # fmt_u8 d) [a, x, y, z]" by (subst ipv4_loop_byte) (simp_all add: o)
  also have "\<dots> = ipv4_addr_loop 2 (fmt_u8 c @ CHR ''.'' # fmt_u8 d) [a, b, y, z]" by (subst ipv4_loop_byte) (simp_all add: numeral_2_eq_2)
  also have "\<dots> = ipv4_addr_loop 3 (fmt_u8 d) [a, b, c, z]" by (subst ipv4_loop_byte) (simp_all add: numeral_eq_Suc)
  also have "\<dots> = accepted (mem32 addr)" by (subst ipv4_loop_last) (simp_all add: m)
  finally show ?thesis by (simp add: ipaddr_parse_ipv4_addr_bin_def ipaddr_print_addr_def Let_def a_def b_def c_def d_def)
qed

lemma print_ipv4_length: "length (ipaddr_print_addr addr) \<le> 15"
  using fmt_u8_length(2) [of "mem32 addr ! 0"] fmt_u8_length(2) [of "mem32 addr ! 1"] fmt_u8_length(2) [of "mem32 addr ! 2"]
    fmt_u8_length(2) [of "mem32 addr ! 3"] by (simp add: ipaddr_print_addr_def Let_def)

lemma print_ipv4_chars: "c \<in> set (ipaddr_print_addr addr) \<Longrightarrow> c \<noteq> CHR ''/'' \<and> c \<noteq> CHR '':''"
  using fmt_u8_chars by (auto simp: ipaddr_print_addr_def Let_def)

section \<open>Addresses with a prefix length\<close>

lemma find_slash: "\<forall>c\<in>set s. c \<noteq> CHR ''/'' \<Longrightarrow> b_find_char_bin (s @ CHR ''/'' # t) CHR ''/'' = Some (length s)"
  by (simp add: b_find_char_bin_def takeWhile_append2)

lemma parse_prefix: "n \<le> 128 \<Longrightarrow> parse_unsigned_integer_bin (fmt_dec n) = Some (of_nat n) \<and> uint (of_nat n :: u64) = int n"
  by (simp add: parse_unsigned_integer_eq fmt_dec_digits fmt_dec_value unsigned_of_nat take_bit_nat_eq_self)

lemma prefix_limit: "n \<le> 128 \<Longrightarrow> (of_nat n :: u64) > of_nat m \<longleftrightarrow> m < n" if "m \<le> 128"
  using that by (simp add: word_less_nat_alt unat_of_nat)

lemma ipv4_ifaddr_round_trip:
  assumes "0 \<le> p" "p \<le> 32"
  shows "\<exists>s. ipaddr_print_ifaddr \<lparr>ia_addr = a, ia_prefix = p\<rparr> = Some s \<and> length s < IPADDR_PRINT_MAX \<and>
    ipaddr_parse_ipv4_ifaddr_bin s out = Some (Some \<lparr>ia_addr = a, ia_prefix = p\<rparr>)"
proof -
  let ?s = "ipaddr_print_addr a @ CHR ''/'' # fmt_dec (nat p)"
  have "ipaddr_print_ifaddr \<lparr>ia_addr = a, ia_prefix = p\<rparr> = Some ?s"
    using assms by (simp add: ipaddr_print_ifaddr_def ipaddr_print_addr_def Let_def)
  moreover have "length (fmt_dec (nat p)) \<le> 2" by (rule fmt_dec_length) (use assms in simp_all)
  then have "length ?s < IPADDR_PRINT_MAX" using print_ipv4_length [of a] by (simp add: IPADDR_PRINT_MAX_def)
  moreover have "b_find_char_bin ?s CHR ''/'' = Some (length (ipaddr_print_addr a))" using print_ipv4_chars by (intro find_slash) blast
  then have "ipaddr_parse_ipv4_ifaddr_bin ?s out = Some (Some \<lparr>ia_addr = a, ia_prefix = p\<rparr>)"
    using assms parse_prefix [of "nat p"] prefix_limit [of 32 "nat p"]
    by (simp add: ipaddr_parse_ipv4_ifaddr_bin_def parse_print_ipv4 ipaddr_parse_ipv4_prefix_bin_def)
  ultimately show ?thesis by blast
qed

lemma ipv6_ifaddr_round_trip:
  assumes "0 \<le> p" "p \<le> 128" "length a = 16" "length out = 16"
  shows "\<exists>s. ipaddr6_print_ifaddr \<lparr>ia6_addr = a, ia6_prefix = p\<rparr> = Some s \<and> length s < IPADDR6_PRINT_MAX \<and>
    ipaddr6_parse_ipv6_ifaddr_bin s out = Some (Some \<lparr>ia6_addr = a, ia6_prefix = p\<rparr>)"
proof -
  let ?s = "ipaddr6_print_addr a @ CHR ''/'' # fmt_dec (nat p)"
  have "ipaddr6_print_ifaddr \<lparr>ia6_addr = a, ia6_prefix = p\<rparr> = Some ?s" using assms by (simp add: ipaddr6_print_ifaddr_def)
  moreover have "length (fmt_dec (nat p)) \<le> 3" by (rule fmt_dec_length) (use assms in simp_all)
  then have "length ?s < IPADDR6_PRINT_MAX" using print_ipv6_length [of a] by (simp add: IPADDR6_PRINT_MAX_def)
  moreover have "b_find_char_bin ?s CHR ''/'' = Some (length (ipaddr6_print_addr a))" using print_ipv6_chars by (intro find_slash) blast
  then have "ipaddr6_parse_ipv6_ifaddr_bin ?s out = Some (Some \<lparr>ia6_addr = a, ia6_prefix = p\<rparr>)"
    using assms parse_prefix [of "nat p"] prefix_limit [of 128 "nat p"]
    by (simp add: ipaddr6_parse_ipv6_ifaddr_bin_def parse_print_ipv6 ipaddr6_parse_ipv6_prefix_bin_def)
  ultimately show ?thesis by blast
qed

lemma parse_ipv4_safe: "\<exists>r. ipaddr_parse_ipv4_addr_bin name out = Some r"
  using ipv4_addr_loop_safe [of 0 "mem32 out" name] by (auto simp: ipaddr_parse_ipv4_addr_bin_def)

lemma parse_ifaddr_safe:
  "\<exists>r. ipaddr_parse_ipv4_ifaddr_bin name out = Some r"
  "length out6 = 16 \<Longrightarrow> \<exists>r. ipaddr6_parse_ipv6_ifaddr_bin name out6 = Some r"
proof -
  show "\<exists>r. ipaddr_parse_ipv4_ifaddr_bin name out = Some r"
  proof (cases "b_find_char_bin name CHR ''/''")
    case (Some i)
    with parse_ipv4_safe [of "take i name" out] show ?thesis by (auto simp: ipaddr_parse_ipv4_ifaddr_bin_def split: option.split)
  qed (simp add: ipaddr_parse_ipv4_ifaddr_bin_def)
  assume l: "length out6 = 16"
  show "\<exists>r. ipaddr6_parse_ipv6_ifaddr_bin name out6 = Some r"
  proof (cases "b_find_char_bin name CHR ''/''")
    case (Some i)
    with parse_ipv6_safe [OF l, of "take i name"] show ?thesis by (auto simp: ipaddr6_parse_ipv6_ifaddr_bin_def split: option.split)
  qed (simp add: ipaddr6_parse_ipv6_ifaddr_bin_def)
qed

end
