(* ===== verification/AddrText.thy ===== *)
theory AddrText
  imports IpTextLaws
begin

text \<open>
  The rest of system/BAddr.h: IP addresses without a port, accessors, comparison, printing, and the resolution of address strings. The
  resolver of the operating system is a parameter: for an address family, the numeric-host flag and a name it gives the bytes of an address,
  or nothing. \<open>strtol\<close> and \<open>atoi\<close> are those of the C library, for a 64-bit \<^verbatim>\<open>long\<close>.
\<close>

section \<open>Numbers of the C library\<close>

definition isspace :: "char \<Rightarrow> bool" where
  "isspace c \<longleftrightarrow> (of_char c :: nat) \<in> {9, 10, 11, 12, 13, 32}"

text \<open>The value and what is left of the string; without digits nothing is consumed.\<close>

definition strtol :: "string \<Rightarrow> int \<times> string" where
  "strtol s =
     (let s1 = dropWhile isspace s;
          neg = (s1 \<noteq> [] \<and> hd s1 = CHR ''-'');
          s2 = (if s1 \<noteq> [] \<and> (hd s1 = CHR ''-'' \<or> hd s1 = CHR ''+'') then List.tl s1 else s1);
          ds = takeWhile is_digit s2;
          v = (if neg then - int (dec_val ds) else int (dec_val ds)) in
      if ds = [] then (0, s) else (max (- (2 ^ 63)) (min (2 ^ 63 - 1) v), dropWhile is_digit s2))"

definition atoi :: "string \<Rightarrow> int" where
  "atoi s = signed_take_bit 31 (fst (strtol s))"

section \<open>Addresses\<close>

datatype BIPAddr =
    BIPAddr_NONE
  | BIPAddr_IPV4 u32
  | BIPAddr_IPV6 bytes

definition BIPAddr_IsInvalid :: "BIPAddr \<Rightarrow> bool" where
  "BIPAddr_IsInvalid addr \<longleftrightarrow> addr = BIPAddr_NONE"

fun BIPAddr_Compare :: "BIPAddr \<Rightarrow> BIPAddr \<Rightarrow> bool" where
  "BIPAddr_Compare (BIPAddr_IPV4 a) (BIPAddr_IPV4 b) = (a = b)"
| "BIPAddr_Compare (BIPAddr_IPV6 a) (BIPAddr_IPV6 b) = (memcmp a b = 0)"
| "BIPAddr_Compare _ _ = False"

fun BAddr_GetPort :: "BAddr \<Rightarrow> u16 option" where
  "BAddr_GetPort (BAddr_IPV4 _ port) = Some port"
| "BAddr_GetPort (BAddr_IPV6 _ port) = Some port"
| "BAddr_GetPort _ = None"

fun BAddr_GetIPAddr :: "BAddr \<Rightarrow> BIPAddr" where
  "BAddr_GetIPAddr (BAddr_IPV4 ip _) = BIPAddr_IPV4 ip"
| "BAddr_GetIPAddr (BAddr_IPV6 ip _) = BIPAddr_IPV6 ip"
| "BAddr_GetIPAddr _ = BIPAddr_NONE"

fun BAddr_SetPort :: "BAddr \<Rightarrow> u16 \<Rightarrow> BAddr option" where
  "BAddr_SetPort (BAddr_IPV4 ip _) port = Some (BAddr_IPV4 ip port)"
| "BAddr_SetPort (BAddr_IPV6 ip _) port = Some (BAddr_IPV6 ip port)"
| "BAddr_SetPort _ _ = None"

fun BAddr_MakeFromIpaddrAndPort :: "BIPAddr \<Rightarrow> u16 \<Rightarrow> BAddr" where
  "BAddr_MakeFromIpaddrAndPort BIPAddr_NONE port = BAddr_NONE"
| "BAddr_MakeFromIpaddrAndPort (BIPAddr_IPV4 ip) port = BAddr_InitIPv4 ip port"
| "BAddr_MakeFromIpaddrAndPort (BIPAddr_IPV6 ip) port = BAddr_InitIPv6 ip port"

definition BAddr_InitPacket :: "u16 \<Rightarrow> int \<Rightarrow> int \<Rightarrow> int \<Rightarrow> bytes \<Rightarrow> BAddr option" where
  "BAddr_InitPacket phys_proto interface_index header_type packet_type phys_addr = do {
     ASSERT (header_type = 1);
     ASSERT (packet_type = 1 \<or> packet_type = 2 \<or> packet_type = 3 \<or> packet_type = 4 \<or> packet_type = 5);
     phys_addr \<leftarrow> mem_read phys_addr 0 6;
     Some (BAddr_PACKET phys_proto interface_index header_type packet_type phys_addr)
   }"

fun BAddr_Compare :: "BAddr \<Rightarrow> BAddr \<Rightarrow> bool" where
  "BAddr_Compare (BAddr_IPV4 a p) (BAddr_IPV4 b q) = (a = b \<and> p = q)"
| "BAddr_Compare (BAddr_IPV6 a p) (BAddr_IPV6 b q) = (memcmp a b = 0 \<and> p = q)"
| "BAddr_Compare _ _ = False"

section \<open>Printing\<close>

definition BIPADDR_MAX_PRINT_LEN :: nat where "BIPADDR_MAX_PRINT_LEN = 40"
definition BADDR_MAX_PRINT_LEN :: nat where "BADDR_MAX_PRINT_LEN = 120"

definition fmt_int :: "int \<Rightarrow> string" where
  "fmt_int i = (if i < 0 then CHR ''-'' # fmt_dec (nat (- i)) else fmt_dec (nat i))"

definition fmt_02x :: "u8 \<Rightarrow> string" where
  "fmt_02x b = (if unat b < 16 then ''0'' else []) @ fmt_hex (unat b)"

fun BIPAddr_Print :: "BIPAddr \<Rightarrow> string" where
  "BIPAddr_Print BIPAddr_NONE = ''(none)''"
| "BIPAddr_Print (BIPAddr_IPV4 ipv4) = (let b = mem32 ipv4 in
     fmt_u8 (b ! 0) @ ''.'' @ fmt_u8 (b ! 1) @ ''.'' @ fmt_u8 (b ! 2) @ ''.'' @ fmt_u8 (b ! 3))"
| "BIPAddr_Print (BIPAddr_IPV6 ipv6) = (let be16 = (\<lambda>i. fmt_hex (unat (badvpn_read_be16 (drop i ipv6)))) in
     be16 0 @ '':'' @ be16 2 @ '':'' @ be16 4 @ '':'' @ be16 6 @ '':'' @ be16 8 @ '':'' @ be16 10 @ '':'' @ be16 12 @ '':'' @ be16 14)"

fun BAddr_Print :: "BAddr \<Rightarrow> string option" where
  "BAddr_Print BAddr_NONE = Some ''(none)''"
| "BAddr_Print (BAddr_IPV4 ip port) = Some (BIPAddr_Print (BIPAddr_IPV4 ip) @ '':'' @ fmt_dec (unat (ntoh16 port)))"
| "BAddr_Print (BAddr_IPV6 ip port) = Some (BIPAddr_Print (BIPAddr_IPV6 ip) @ '':'' @ fmt_dec (unat (ntoh16 port)))"
| "BAddr_Print (BAddr_PACKET phys_proto interface_index header_type packet_type phys_addr) = do {
     ASSERT (header_type = 1);
     Some (''proto='' @ fmt_dec (unat phys_proto) @ '',ifindex='' @ fmt_int interface_index @ '',htype=eth,ptype='' @ fmt_int packet_type @
       '',addr='' @ fmt_02x (phys_addr ! 0) @ '':'' @ fmt_02x (phys_addr ! 1) @ '':'' @ fmt_02x (phys_addr ! 2) @ '':'' @
       fmt_02x (phys_addr ! 3) @ '':'' @ fmt_02x (phys_addr ! 4) @ '':'' @ fmt_02x (phys_addr ! 5))
   }"

section \<open>Resolving\<close>

type_synonym resolver = "int \<Rightarrow> bool \<Rightarrow> string \<Rightarrow> bytes option"

abbreviation (input) AF_INET :: int where "AF_INET \<equiv> 2"
abbreviation (input) AF_INET6 :: int where "AF_INET6 \<equiv> 10"

definition BADDR_MAX_ADDR_LEN :: nat where "BADDR_MAX_ADDR_LEN = 128"

text \<open>What the resolver returns: an IPv4 address has 4 bytes, an IPv6 address 16.\<close>

definition resolves :: "resolver \<Rightarrow> bool" where
  "resolves getaddrinfo \<longleftrightarrow> (\<forall>numeric s. (\<forall>b. getaddrinfo AF_INET numeric s = Some b \<longrightarrow> length b = 4) \<and>
     (\<forall>b. getaddrinfo AF_INET6 numeric s = Some b \<longrightarrow> length b = 16))"

definition BIPAddr_Resolve :: "resolver \<Rightarrow> string \<Rightarrow> bool \<Rightarrow> BIPAddr option" where
  "BIPAddr_Resolve getaddrinfo str noresolve =
     (let len = length str;
          v6 = (len \<ge> 1 \<and> str ! 0 = CHR ''['' \<and> str ! (len - 1) = CHR '']'');
          addr_str = (if v6 then take (len - 2) (drop 1 str) else str) in
      if length addr_str > BADDR_MAX_ADDR_LEN then None
      else if v6 then map_option BIPAddr_IPV6 (getaddrinfo AF_INET6 noresolve addr_str)
      else map_option (\<lambda>b. BIPAddr_IPV4 (of_mem32 b)) (getaddrinfo AF_INET noresolve addr_str))"

text \<open>The parts of an address string: whether it is IPv6, the address and the port.\<close>

definition split_addr :: "string \<Rightarrow> (bool \<times> string \<times> string) option" where
  "split_addr str =
     (if str ! 0 = CHR ''['' then
        (let i = 1 + length (takeWhile (\<lambda>c. c \<noteq> CHR '']'') (drop 1 str)) in
         if i \<ge> length str then None
         else if i + 1 \<ge> length str \<or> str ! (i + 1) \<noteq> CHR '':'' then None
         else Some (True, take (i - 1) (drop 1 str), drop (i + 2) str))
      else
        (let i = length (takeWhile (\<lambda>c. c \<noteq> CHR '':'') str) in
         if i \<ge> length str then None
         else Some (False, take i str, drop (i + 1) str)))"

text \<open>The port: text of at most five characters that \<^verbatim>\<open>strtol\<close> consumes completely.\<close>

definition parse_port :: "string \<Rightarrow> u16 option" where
  "parse_port port_str =
     (let (conv_res, err) = strtol port_str in
      if port_str = [] \<or> err \<noteq> [] then None
      else if conv_res < 0 \<or> conv_res > UINT16_MAX then None
      else Some (hton16 (of_int conv_res)))"

text \<open>The name is stored when the caller passes a buffer for it, of \<open>name_len\<close> characters.\<close>

definition BAddr_Parse2 :: "resolver \<Rightarrow> string \<Rightarrow> nat option \<Rightarrow> bool \<Rightarrow> (BAddr \<times> string) option" where
  "BAddr_Parse2 getaddrinfo str name_len noresolve =
     (if length str < 1 \<or> length str > 1000 then None
      else do {
        (v6, addr_str, port_str) \<leftarrow> split_addr str;
        if length addr_str \<ge> 128 then None
        else if length port_str \<ge> 6 then None
        else do {
          port \<leftarrow> parse_port port_str;
          b \<leftarrow> getaddrinfo (if v6 then AF_INET6 else AF_INET) noresolve addr_str;
          if (\<exists>n\<in>set_option name_len. length addr_str \<ge> n) then None
          else Some (if v6 then BAddr_IPV6 b port else BAddr_IPV4 (of_mem32 b) port, addr_str)
        }
      })"

definition BAddr_Parse :: "resolver \<Rightarrow> string \<Rightarrow> nat option \<Rightarrow> (BAddr \<times> string) option" where
  "BAddr_Parse getaddrinfo str name_len = BAddr_Parse2 getaddrinfo str name_len False"

section \<open>Printed addresses fit and are read back\<close>

lemma strtol_fmt_dec:
  assumes "n < 2 ^ 63"
  shows "strtol (fmt_dec n) = (int n, [])"
proof -
  obtain c s where c: "fmt_dec n = c # s" by (cases "fmt_dec n") auto
  have d: "list_all is_digit (fmt_dec n)" by (rule fmt_dec_digits)
  then have "\<not> isspace c" "c \<noteq> CHR ''-''" "c \<noteq> CHR ''+''" by (auto simp: c is_digit_def isspace_def)
  moreover have "takeWhile is_digit (fmt_dec n) = fmt_dec n" "dropWhile is_digit (fmt_dec n) = []"
    using d by (auto simp: list_all_iff takeWhile_eq_all_conv)
  ultimately show ?thesis using assms fmt_dec_value [of n] by (simp add: strtol_def Let_def c)
qed

lemma parse_port_fmt: "parse_port (fmt_dec (unat (ntoh16 port))) = Some port"
proof -
  have p: "unat (ntoh16 port) < 2 ^ LENGTH(16)" by (rule unsigned_less)
  then have "strtol (fmt_dec (unat (ntoh16 port))) = (int (unat (ntoh16 port)), [])" by (intro strtol_fmt_dec) simp
  moreover from p have "unat (ntoh16 port) < 65536" by simp
  then have "\<not> UINT16_MAX < int (unat (ntoh16 port))" by linarith
  moreover have "hton16 (of_int (int (unat (ntoh16 port)))) = port" by simp
  ultimately show ?thesis by (simp only: parse_port_def Let_def prod.case fmt_dec_ne simp_thms if_False) simp
qed

lemma print_length_ip: "length (BIPAddr_Print a) < BIPADDR_MAX_PRINT_LEN"
proof (cases a)
  case (BIPAddr_IPV4 ip)
  then show ?thesis using print_ipv4_length [of ip] by (simp add: ipaddr_print_addr_def Let_def BIPADDR_MAX_PRINT_LEN_def)
next
  case (BIPAddr_IPV6 ip)
  have "length (fmt_hex (unat (badvpn_read_be16 (drop i ip)))) \<le> 4" for i by (rule hx_length)
  from this [of 0] this [of 2] this [of 4] this [of 6] this [of 8] this [of 10] this [of 12] this [of 14] show ?thesis
    by (simp add: BIPAddr_IPV6 Let_def BIPADDR_MAX_PRINT_LEN_def)
qed (simp add: BIPADDR_MAX_PRINT_LEN_def)

lemma port_length: "length (fmt_dec (unat (p :: u16))) \<le> 5"
proof -
  have "unat p < 2 ^ LENGTH(16)" by (rule unsigned_less)
  then show ?thesis by (intro fmt_dec_length) simp_all
qed

text \<open>A resolver that takes the dotted form of an IPv4 address to that address.\<close>

definition takes_dotted :: "resolver \<Rightarrow> bool \<Rightarrow> bool" where
  "takes_dotted getaddrinfo noresolve \<longleftrightarrow> (\<forall>ip. getaddrinfo AF_INET noresolve (BIPAddr_Print (BIPAddr_IPV4 ip)) = Some (mem32 ip))"

lemma parse_print_baddr:
  assumes "takes_dotted getaddrinfo noresolve"
  shows "\<exists>s. BAddr_Print (BAddr_IPV4 ip port) = Some s \<and> length s < BADDR_MAX_PRINT_LEN \<and>
    BAddr_Parse2 getaddrinfo s None noresolve = Some (BAddr_IPV4 ip port, BIPAddr_Print (BIPAddr_IPV4 ip))"
proof -
  define a where "a = BIPAddr_Print (BIPAddr_IPV4 ip)"
  define p where "p = fmt_dec (unat (ntoh16 port))"
  have a: "a = ipaddr_print_addr ip" by (simp add: a_def ipaddr_print_addr_def)
  have la: "length a \<le> 15" using print_ipv4_length a by simp
  have lp: "length p \<le> 5" "p \<noteq> []" using port_length by (simp_all add: p_def)
  have "a \<noteq> []" using fmt_u8_ne by (simp add: a ipaddr_print_addr_def Let_def)
  then obtain c r where c: "a = c # r" by (cases a) auto
  have "c \<noteq> CHR ''[''"
    using fmt_dec_digits [of "unat (mem32 ip ! 0)"] fmt_u8_ne [of "mem32 ip ! 0"] c
    by (cases "fmt_u8 (mem32 ip ! 0)") (auto simp: a ipaddr_print_addr_def Let_def fmt_u8_def is_digit_def)
  then have "split_addr (a @ CHR '':'' # p) = Some (False, a, p)"
    using c print_ipv4_chars [of _ ip] by (auto simp: split_addr_def Let_def takeWhile_append2 a)
  moreover have "parse_port p = Some port" unfolding p_def by (rule parse_port_fmt)
  moreover have "getaddrinfo AF_INET noresolve a = Some (mem32 ip)" using assms unfolding a_def takes_dotted_def by blast
  ultimately have "BAddr_Parse2 getaddrinfo (a @ CHR '':'' # p) None noresolve = Some (BAddr_IPV4 ip port, a)"
    using la lp by (simp add: BAddr_Parse2_def)
  moreover have "BAddr_Print (BAddr_IPV4 ip port) = Some (a @ CHR '':'' # p)" by (simp only: BAddr_Print.simps a_def p_def append.simps)
  moreover have "length (a @ CHR '':'' # p) < BADDR_MAX_PRINT_LEN" using la lp by (simp add: BADDR_MAX_PRINT_LEN_def)
  ultimately show ?thesis unfolding a_def [symmetric] by blast
qed

text \<open>
  C7. Addresses as text. What \<^verbatim>\<open>ipaddr_print_ifaddr\<close> and \<^verbatim>\<open>ipaddr6_print_ifaddr\<close> write for an address and a prefix length, with the
  terminator, fits into the buffers of \<^verbatim>\<open>IPADDR_PRINT_MAX\<close> and \<^verbatim>\<open>IPADDR6_PRINT_MAX\<close> characters their callers provide, and the parsers read
  exactly that address and prefix length back, whatever the result object held before; for IPv6 this goes through the compressed form. For
  any text at all the parsers return without reading outside the text or writing outside the address. What \<^verbatim>\<open>BAddr_Print\<close> writes for an IPv4
  address with a port fits into \<^verbatim>\<open>BADDR_MAX_PRINT_LEN\<close>, and \<^verbatim>\<open>BAddr_Parse2\<close> reads it back, given a resolver that takes the dotted form of an
  address to that address.
\<close>

theorem address_text_round_trip:
  assumes "0 \<le> p4" "p4 \<le> 32" "0 \<le> p6" "p6 \<le> 128" "length a6 = 16" "length out6 = 16"
    and "takes_dotted getaddrinfo noresolve"
  shows "(\<exists>s. ipaddr_print_ifaddr \<lparr>ia_addr = a4, ia_prefix = p4\<rparr> = Some s \<and> length s < IPADDR_PRINT_MAX \<and>
      ipaddr_parse_ipv4_ifaddr_bin s out4 = Some (Some \<lparr>ia_addr = a4, ia_prefix = p4\<rparr>)) \<and>
    (\<exists>s. ipaddr6_print_ifaddr \<lparr>ia6_addr = a6, ia6_prefix = p6\<rparr> = Some s \<and> length s < IPADDR6_PRINT_MAX \<and>
      ipaddr6_parse_ipv6_ifaddr_bin s out6 = Some (Some \<lparr>ia6_addr = a6, ia6_prefix = p6\<rparr>)) \<and>
    (\<exists>r. ipaddr_parse_ipv4_ifaddr_bin name out4 = Some r) \<and>
    (\<exists>r. ipaddr6_parse_ipv6_ifaddr_bin name out6 = Some r) \<and>
    (\<exists>s. BAddr_Print (BAddr_IPV4 a4 port) = Some s \<and> length s < BADDR_MAX_PRINT_LEN \<and>
      BAddr_Parse2 getaddrinfo s None noresolve = Some (BAddr_IPV4 a4 port, BIPAddr_Print (BIPAddr_IPV4 a4)))"
  using ipv4_ifaddr_round_trip [OF assms(1,2)] ipv6_ifaddr_round_trip [OF assms(3-6)] parse_ifaddr_safe(1)
    parse_ifaddr_safe(2) [OF assms(6)] parse_print_baddr [OF assms(7)] by blast

definition sample_ipv6 :: ipv6_addr where
  "sample_ipv6 = [0x20, 0x01, 0x0D, 0xB8, 0, 0, 0, 0, 0, 0, 0, 1, 0, 0, 0, 0]"

text \<open>A resolver that knows numeric IPv4 addresses only.\<close>

definition numeric_resolver :: resolver where
  "numeric_resolver family numeric s = (case ipaddr_parse_ipv4_addr_bin s 0 of Some (Some a) \<Rightarrow> Some (mem32 a) | _ \<Rightarrow> None)"

lemma numeric_resolver_ok: "takes_dotted numeric_resolver False"
  unfolding takes_dotted_def
proof
  fix ip
  have "BIPAddr_Print (BIPAddr_IPV4 ip) = ipaddr_print_addr ip" by (simp add: ipaddr_print_addr_def)
  then show "numeric_resolver AF_INET False (BIPAddr_Print (BIPAddr_IPV4 ip)) = Some (mem32 ip)"
    by (simp only: numeric_resolver_def parse_print_ipv4 option.case)
qed

theorem address_text_round_trip_witness:
  "(\<exists>s. ipaddr6_print_ifaddr \<lparr>ia6_addr = sample_ipv6, ia6_prefix = 64\<rparr> = Some s \<and>
     ipaddr6_parse_ipv6_ifaddr_bin s (replicate 16 7) = Some (Some \<lparr>ia6_addr = sample_ipv6, ia6_prefix = 64\<rparr>)) \<and>
   (\<exists>s. ipaddr_print_ifaddr \<lparr>ia_addr = 0x0100000A, ia_prefix = 24\<rparr> = Some s \<and>
     ipaddr_parse_ipv4_ifaddr_bin s 7 = Some (Some \<lparr>ia_addr = 0x0100000A, ia_prefix = 24\<rparr>)) \<and>
   (\<exists>s a. BAddr_Print (BAddr_IPV4 0x0100000A 80) = Some s \<and> BAddr_Parse2 numeric_resolver s None False = Some (BAddr_IPV4 0x0100000A 80, a))"
proof -
  have l: "length sample_ipv6 = 16" "length (replicate 16 (7::u8)) = 16" by (simp_all add: sample_ipv6_def)
  have p: "0 \<le> (24::int)" "(24::int) \<le> 32" "0 \<le> (64::int)" "(64::int) \<le> 128" by simp_all
  show ?thesis using address_text_round_trip [OF p l numeric_resolver_ok, of "0x0100000A" 7 _ 80] by blast
qed

end
