(* ===== verification/Options.thy ===== *)
theory Options
  imports AddrText SocksClient
begin

text \<open>
  The options of tun2socks (tun2socks/tun2socks.c, misc/loglevel.h): the command line, the defaults, and what \<^verbatim>\<open>process_arguments\<close> makes of
  them. Options are \<open>None\<close> where the pointer is null. The names of the log channels, from a generated list, are a parameter; so are the
  resolver and the file reader of the operating system. Messages are left out.
\<close>

section \<open>Options\<close>

abbreviation (input) LOGGER_STDOUT :: int where "LOGGER_STDOUT \<equiv> 1"
abbreviation (input) LOGGER_SYSLOG :: int where "LOGGER_SYSLOG \<equiv> 2"
abbreviation (input) BLOG_DEBUG :: int where "BLOG_DEBUG \<equiv> 5"

record options =
  op_help :: bool
  op_version :: bool
  op_logger :: int
  op_logger_syslog_facility :: string
  op_logger_syslog_ident :: string
  op_loglevel :: int
  op_loglevels :: "int list"
  op_tundev :: "string option"
  op_netif_ipaddr :: "string option"
  op_netif_netmask :: "string option"
  op_netif_ip6addr :: "string option"
  op_socks_server_addr :: "string option"
  op_username :: "string option"
  op_password :: "string option"
  op_password_file :: "string option"
  op_append_source_to_username :: bool
  op_udpgw_remote_server_addr :: "string option"
  op_udpgw_max_connections :: int
  op_udpgw_connection_buffer_size :: int
  op_udpgw_transparent_dns :: int
  op_tun_fd :: int
  op_tun_mtu :: int
  op_set_signal :: bool

text \<open>\<open>tun_mtu\<close> is the one field that is not set here; it keeps the value \<open>mtu\<close>.\<close>

definition init_arguments :: "string list \<Rightarrow> int \<Rightarrow> string \<Rightarrow> options" where
  "init_arguments channels mtu program_name = \<lparr>
     op_help = False,
     op_version = False,
     op_logger = LOGGER_STDOUT,
     op_logger_syslog_facility = ''daemon'',
     op_logger_syslog_ident = program_name,
     op_loglevel = -1,
     op_loglevels = replicate (length channels) (-1),
     op_tundev = None,
     op_netif_ipaddr = None,
     op_netif_netmask = None,
     op_netif_ip6addr = None,
     op_socks_server_addr = None,
     op_username = None,
     op_password = None,
     op_password_file = None,
     op_append_source_to_username = False,
     op_udpgw_remote_server_addr = None,
     op_udpgw_max_connections = 256,
     op_udpgw_connection_buffer_size = 8,
     op_udpgw_transparent_dns = 0,
     op_tun_fd = 0,
     op_tun_mtu = mtu,
     op_set_signal = True\<rparr>"

definition parse_loglevel :: "string \<Rightarrow> int" where
  "parse_loglevel str =
     (if str = ''none'' then 0
      else if str = ''error'' then 1
      else if str = ''warning'' then 2
      else if str = ''notice'' then 3
      else if str = ''info'' then 4
      else if str = ''debug'' then BLOG_DEBUG
      else (let (res, endptr) = strtol str in
        if str \<noteq> [] \<and> endptr = [] \<and> res \<ge> 0 \<and> res \<le> BLOG_DEBUG then res else -1))"

definition BLogGlobal_GetChannelByName :: "string list \<Rightarrow> string \<Rightarrow> int" where
  "BLogGlobal_GetChannelByName channels channel_name =
     (case find (\<lambda>i. channels ! i = channel_name) [0..<length channels] of Some i \<Rightarrow> int i | None \<Rightarrow> -1)"

section \<open>The command line\<close>

text \<open>\<^verbatim>\<open>argv[i]\<close>; an index past the arguments is a fault.\<close>

definition argument :: "string list \<Rightarrow> nat \<Rightarrow> string option" where
  "argument argv i = (if i < length argv then Some (argv ! i) else None)"

text \<open>
  An option that takes one argument, and one that takes two: \<open>f\<close> says what it does, \<open>None\<close> for a wrong argument. The results are the index
  of the last argument that was used and the options.
\<close>

definition one_argument :: "string list \<Rightarrow> nat \<Rightarrow> (string \<Rightarrow> options option) \<Rightarrow> (nat \<times> options) parsed" where
  "one_argument argv i f =
     (if 1 \<ge> int (length argv) - int i then rejected
      else do {
        arg2 \<leftarrow> argument argv (i + 1);
        Some (map_option (\<lambda>opts. (i + 1, opts)) (f arg2))
      })"

definition two_arguments :: "string list \<Rightarrow> nat \<Rightarrow> (string \<Rightarrow> string \<Rightarrow> options option) \<Rightarrow> (nat \<times> options) parsed" where
  "two_arguments argv i f =
     (if 2 \<ge> int (length argv) - int i then rejected
      else do {
        arg2 \<leftarrow> argument argv (i + 1);
        arg3 \<leftarrow> argument argv (i + 2);
        Some (map_option (\<lambda>opts. (i + 2, opts)) (f arg2 arg3))
      })"

definition option_step :: "string list \<Rightarrow> string list \<Rightarrow> nat \<Rightarrow> options \<Rightarrow> (nat \<times> options) parsed" where
  "option_step channels argv i opts = do {
     arg \<leftarrow> argument argv i;
     if arg = ''--help'' then accepted (i, opts\<lparr>op_help := True\<rparr>)
     else if arg = ''--version'' then accepted (i, opts\<lparr>op_version := True\<rparr>)
     else if arg = ''--logger'' then one_argument argv i (\<lambda>arg2.
       if arg2 = ''stdout'' then Some (opts\<lparr>op_logger := LOGGER_STDOUT\<rparr>)
       else if arg2 = ''syslog'' then Some (opts\<lparr>op_logger := LOGGER_SYSLOG\<rparr>)
       else None)
     else if arg = ''--syslog-facility'' then one_argument argv i (\<lambda>a. Some (opts\<lparr>op_logger_syslog_facility := a\<rparr>))
     else if arg = ''--syslog-ident'' then one_argument argv i (\<lambda>a. Some (opts\<lparr>op_logger_syslog_ident := a\<rparr>))
     else if arg = ''--loglevel'' then one_argument argv i (\<lambda>a.
       let l = parse_loglevel a in if l < 0 then None else Some (opts\<lparr>op_loglevel := l\<rparr>))
     else if arg = ''--channel-loglevel'' then two_arguments argv i (\<lambda>a b.
       let channel = BLogGlobal_GetChannelByName channels a; loglevel = parse_loglevel b in
       if channel < 0 then None
       else if loglevel < 0 then None
       else Some (opts\<lparr>op_loglevels := (op_loglevels opts)[nat channel := loglevel]\<rparr>))
     else if arg = ''--tundev'' then one_argument argv i (\<lambda>a. Some (opts\<lparr>op_tundev := Some a\<rparr>))
     else if arg = ''--netif-ipaddr'' then one_argument argv i (\<lambda>a. Some (opts\<lparr>op_netif_ipaddr := Some a\<rparr>))
     else if arg = ''--netif-netmask'' then one_argument argv i (\<lambda>a. Some (opts\<lparr>op_netif_netmask := Some a\<rparr>))
     else if arg = ''--netif-ip6addr'' then one_argument argv i (\<lambda>a. Some (opts\<lparr>op_netif_ip6addr := Some a\<rparr>))
     else if arg = ''--socks-server-addr'' then one_argument argv i (\<lambda>a. Some (opts\<lparr>op_socks_server_addr := Some a\<rparr>))
     else if arg = ''--username'' then one_argument argv i (\<lambda>a. Some (opts\<lparr>op_username := Some a\<rparr>))
     else if arg = ''--password'' then one_argument argv i (\<lambda>a. Some (opts\<lparr>op_password := Some a\<rparr>))
     else if arg = ''--password-file'' then one_argument argv i (\<lambda>a. Some (opts\<lparr>op_password_file := Some a\<rparr>))
     else if arg = ''--append-source-to-username'' then accepted (i, opts\<lparr>op_append_source_to_username := True\<rparr>)
     else if arg = ''--udpgw-remote-server-addr'' then one_argument argv i (\<lambda>a. Some (opts\<lparr>op_udpgw_remote_server_addr := Some a\<rparr>))
     else if arg = ''--udpgw-max-connections'' then one_argument argv i (\<lambda>a.
       let n = atoi a in if n \<le> 0 then None else Some (opts\<lparr>op_udpgw_max_connections := n\<rparr>))
     else if arg = ''--udpgw-connection-buffer-size'' then one_argument argv i (\<lambda>a.
       let n = atoi a in if n \<le> 0 then None else Some (opts\<lparr>op_udpgw_connection_buffer_size := n\<rparr>))
     else if arg = ''--udpgw-transparent-dns'' then accepted (i, opts\<lparr>op_udpgw_transparent_dns := 1\<rparr>)
     else rejected
   }"

partial_function (option) arguments_loop :: "string list \<Rightarrow> string list \<Rightarrow> nat \<Rightarrow> options \<Rightarrow> options parsed" where
  "arguments_loop channels argv i opts =
     (if i < length argv then
        (case option_step channels argv i opts of
          None \<Rightarrow> None
        | Some None \<Rightarrow> rejected
        | Some (Some (i, opts)) \<Rightarrow> arguments_loop channels argv (i + 1) opts)
      else accepted opts)"

text \<open>The options that have to be given, after the loop.\<close>

definition arguments_complete :: "options \<Rightarrow> bool" where
  "arguments_complete opts =
     (if op_help opts \<or> op_version opts then True
      else if op_netif_ipaddr opts = None then False
      else if op_netif_netmask opts = None then False
      else if op_socks_server_addr opts = None then False
      else if op_username opts \<noteq> None then
        (if op_password opts = None \<and> op_password_file opts = None then False
         else if op_password opts \<noteq> None \<and> op_password_file opts \<noteq> None then False
         else True)
      else True)"

definition parse_arguments :: "string list \<Rightarrow> int \<Rightarrow> string list \<Rightarrow> options parsed" where
  "parse_arguments channels mtu argv =
     (if length argv = 0 then rejected
      else do {
        prog \<leftarrow> argument argv 0;
        r \<leftarrow> arguments_loop channels argv 1 (init_arguments channels mtu prog);
        Some (case r of None \<Rightarrow> None | Some opts \<Rightarrow> if arguments_complete opts then Some opts else None)
      })"

section \<open>Processing\<close>

text \<open>The global variables that \<^verbatim>\<open>process_arguments\<close> sets.\<close>

record settings =
  se_netif_ipaddr :: BIPAddr
  se_netif_netmask :: BIPAddr
  se_netif_ip6addr :: ipv6_addr
  se_socks_server_addr :: BAddr
  se_socks_auth_info :: "BSocksClient_auth_info list"
  se_password_file_contents :: "bytes option"
  se_udpgw_remote_server_addr :: BAddr

definition string_bytes :: "string \<Rightarrow> bytes" where
  "string_bytes s = map of_char s"

text \<open>
  The result is the return value with the globals; a null pointer that is read is a fault. The array \<^verbatim>\<open>socks_auth_info\<close> has two elements.
  The globals that are not assigned keep the values of \<open>g\<close>.
\<close>

definition process_auth :: "(string \<Rightarrow> bytes option) \<Rightarrow> options \<Rightarrow> settings \<Rightarrow> (bool \<times> settings) option" where
  "process_auth read_file opts g = do {
     let g = g\<lparr>se_socks_auth_info := [BSocksClient_auth_none]\<rparr>;
     (case op_username opts of
       None \<Rightarrow> Some (True, g)
     | Some username \<Rightarrow> do {
         (ok, password, g) \<leftarrow> (case op_password opts of
             Some password \<Rightarrow> Some (True, string_bytes password, g)
           | None \<Rightarrow> do {
               file \<leftarrow> op_password_file opts;
               Some (case read_file file of
                   None \<Rightarrow> (False, [], g)
                 | Some contents \<Rightarrow> (True, contents, g\<lparr>se_password_file_contents := Some contents\<rparr>))
             });
         if \<not> ok then Some (False, g)
         else do {
           ASSERT (length (se_socks_auth_info g) < 2);
           Some (True, g\<lparr>se_socks_auth_info := se_socks_auth_info g @ [BSocksClient_auth_password (string_bytes username) password]\<rparr>)
         }
       })
   }"

definition process_arguments :: "resolver \<Rightarrow> (string \<Rightarrow> bytes option) \<Rightarrow> options \<Rightarrow> settings \<Rightarrow> (bool \<times> settings) option" where
  "process_arguments getaddrinfo read_file opts g = do {
     ASSERT (se_password_file_contents g = None);
     ipaddr \<leftarrow> op_netif_ipaddr opts;
     (case BIPAddr_Resolve getaddrinfo ipaddr False of
       Some (BIPAddr_IPV4 ip) \<Rightarrow> do {
         let g = g\<lparr>se_netif_ipaddr := BIPAddr_IPV4 ip\<rparr>;
         netmask \<leftarrow> op_netif_netmask opts;
         (case BIPAddr_Resolve getaddrinfo netmask False of
           Some (BIPAddr_IPV4 m) \<Rightarrow> do {
             let g = g\<lparr>se_netif_netmask := BIPAddr_IPV4 m\<rparr>;
             ip6 \<leftarrow> (case op_netif_ip6addr opts of
                 None \<Rightarrow> accepted (se_netif_ip6addr g)
               | Some s \<Rightarrow> ipaddr6_parse_ipv6_addr_bin s (se_netif_ip6addr g));
             (case ip6 of
               None \<Rightarrow> Some (False, g)
             | Some ip6 \<Rightarrow> do {
                 let g = g\<lparr>se_netif_ip6addr := ip6\<rparr>;
                 server \<leftarrow> op_socks_server_addr opts;
                 (case BAddr_Parse2 getaddrinfo server None False of
                   None \<Rightarrow> Some (False, g)
                 | Some (addr, _) \<Rightarrow> do {
                     (ok, g) \<leftarrow> process_auth read_file opts (g\<lparr>se_socks_server_addr := addr\<rparr>);
                     if \<not> ok then Some (False, g)
                     else (case op_udpgw_remote_server_addr opts of
                         None \<Rightarrow> Some (True, g)
                       | Some s \<Rightarrow> Some (case BAddr_Parse2 getaddrinfo s None False of
                             None \<Rightarrow> (False, g)
                           | Some (addr, _) \<Rightarrow> (True, g\<lparr>se_udpgw_remote_server_addr := addr\<rparr>)))
                   })
               })
           }
         | _ \<Rightarrow> Some (False, g))
       }
     | _ \<Rightarrow> Some (False, g))
   }"

section \<open>The command lines that are accepted\<close>

definition loglevel_ok :: "int \<Rightarrow> bool" where
  "loglevel_ok l \<longleftrightarrow> -1 \<le> l \<and> l \<le> BLOG_DEBUG"

definition count_ok :: "int \<Rightarrow> bool" where
  "count_ok n \<longleftrightarrow> 0 < n \<and> n \<le> INT_MAX"

text \<open>The options that a command line can give, for the channels and the MTU \<open>mtu\<close>.\<close>

definition options_ok :: "string list \<Rightarrow> int \<Rightarrow> options \<Rightarrow> bool" where
  "options_ok channels mtu opts \<longleftrightarrow> (op_logger opts = LOGGER_STDOUT \<or> op_logger opts = LOGGER_SYSLOG) \<and> loglevel_ok (op_loglevel opts) \<and>
     length (op_loglevels opts) = length channels \<and> list_all loglevel_ok (op_loglevels opts) \<and>
     count_ok (op_udpgw_max_connections opts) \<and> count_ok (op_udpgw_connection_buffer_size opts) \<and>
     (op_udpgw_transparent_dns opts = 0 \<or> op_udpgw_transparent_dns opts = 1) \<and>
     op_tun_fd opts = 0 \<and> op_tun_mtu opts = mtu \<and> op_set_signal opts"

lemma parse_loglevel_ok: "loglevel_ok (parse_loglevel s)"
  by (auto simp: parse_loglevel_def loglevel_ok_def split: prod.split)

lemma atoi_ok: "0 < atoi s \<Longrightarrow> count_ok (atoi s)"
  using signed_take_bit_int_less_exp [of 31 "fst (strtol s)"] by (simp add: count_ok_def atoi_def)

lemma init_ok: "options_ok channels mtu (init_arguments channels mtu prog)"
  by (simp add: options_ok_def init_arguments_def loglevel_ok_def count_ok_def list_all_iff)

text \<open>A step ends, and goes on behind \<open>i\<close> with options that are well formed.\<close>

definition goes_on :: "string list \<Rightarrow> int \<Rightarrow> nat \<Rightarrow> (nat \<times> options) parsed \<Rightarrow> bool" where
  "goes_on channels mtu i r \<longleftrightarrow> (\<exists>x. r = Some x \<and> (\<forall>i' opts. x = Some (i', opts) \<longrightarrow> i \<le> i' \<and> options_ok channels mtu opts))"

lemma goes_on_if: "goes_on channels mtu i x \<Longrightarrow> goes_on channels mtu i y \<Longrightarrow> goes_on channels mtu i (if b then x else y)"
  by simp

lemma goes_on_accepted: "options_ok channels mtu opts \<Longrightarrow> goes_on channels mtu i (Some (Some (i, opts)))"
  by (simp add: goes_on_def)

lemma goes_on_rejected: "goes_on channels mtu i (Some None)"
  by (simp add: goes_on_def)

lemma goes_on_one:
  assumes "i < length argv" "\<And>a opts. f a = Some opts \<Longrightarrow> options_ok channels mtu opts"
  shows "goes_on channels mtu i (one_argument argv i f)"
  using assms by (auto simp: goes_on_def one_argument_def argument_def)

lemma goes_on_two:
  assumes "i < length argv" "\<And>a b opts. f a b = Some opts \<Longrightarrow> options_ok channels mtu opts"
  shows "goes_on channels mtu i (two_arguments argv i f)"
  using assms by (auto simp: goes_on_def two_arguments_def argument_def)

lemma options_ok_update:
  assumes "options_ok channels mtu opts"
  shows "options_ok channels mtu (opts\<lparr>op_help := b\<rparr>)" "options_ok channels mtu (opts\<lparr>op_version := b\<rparr>)"
    "options_ok channels mtu (opts\<lparr>op_logger := 1\<rparr>)" "options_ok channels mtu (opts\<lparr>op_logger := 2\<rparr>)"
    "options_ok channels mtu (opts\<lparr>op_logger_syslog_facility := s\<rparr>)" "options_ok channels mtu (opts\<lparr>op_logger_syslog_ident := s\<rparr>)"
    "options_ok channels mtu (opts\<lparr>op_tundev := t\<rparr>)" "options_ok channels mtu (opts\<lparr>op_netif_ipaddr := t\<rparr>)"
    "options_ok channels mtu (opts\<lparr>op_netif_netmask := t\<rparr>)" "options_ok channels mtu (opts\<lparr>op_netif_ip6addr := t\<rparr>)"
    "options_ok channels mtu (opts\<lparr>op_socks_server_addr := t\<rparr>)" "options_ok channels mtu (opts\<lparr>op_username := t\<rparr>)"
    "options_ok channels mtu (opts\<lparr>op_password := t\<rparr>)" "options_ok channels mtu (opts\<lparr>op_password_file := t\<rparr>)"
    "options_ok channels mtu (opts\<lparr>op_append_source_to_username := b\<rparr>)" "options_ok channels mtu (opts\<lparr>op_udpgw_remote_server_addr := t\<rparr>)"
    "options_ok channels mtu (opts\<lparr>op_udpgw_transparent_dns := 1\<rparr>)"
    "options_ok channels mtu (opts\<lparr>op_loglevel := parse_loglevel s\<rparr>)"
    "0 < atoi s \<Longrightarrow> options_ok channels mtu (opts\<lparr>op_udpgw_max_connections := atoi s\<rparr>)"
    "0 < atoi s \<Longrightarrow> options_ok channels mtu (opts\<lparr>op_udpgw_connection_buffer_size := atoi s\<rparr>)"
    "options_ok channels mtu (opts\<lparr>op_loglevels := (op_loglevels opts)[k := parse_loglevel s]\<rparr>)"
  using assms by (simp_all add: options_ok_def parse_loglevel_ok atoi_ok)
    (auto simp: list_all_iff parse_loglevel_ok dest: set_update_subset_insert [THEN subsetD])

lemma option_step_ok:
  assumes ok: "options_ok channels mtu opts" and i: "i < length argv"
  shows "goes_on channels mtu i (option_step channels argv i opts)"
proof -
  have a: "argument argv i = Some (argv ! i)" using i by (simp add: argument_def)
  show ?thesis
    unfolding option_step_def a bind.bind_lunit
    by (intro goes_on_if goes_on_accepted goes_on_rejected goes_on_one [OF i] goes_on_two [OF i] options_ok_update [OF ok];
        (auto simp: Let_def options_ok_update [OF ok] not_le split: if_splits)?)
qed

lemma arguments_loop_ok:
  "options_ok channels mtu opts \<Longrightarrow>
   \<exists>r. arguments_loop channels argv i opts = Some r \<and> (\<forall>opts'. r = Some opts' \<longrightarrow> options_ok channels mtu opts')"
proof (induction "length argv - i" arbitrary: i opts rule: less_induct)
  case less
  show ?case
  proof (cases "i < length argv")
    case True
    from option_step_ok [OF less.prems True] obtain x where x: "option_step channels argv i opts = Some x"
      "\<forall>i' opts. x = Some (i', opts) \<longrightarrow> i \<le> i' \<and> options_ok channels mtu opts" unfolding goes_on_def by blast
    show ?thesis
    proof (cases x)
      case None
      with x True show ?thesis by (subst arguments_loop.simps) simp
    next
      case (Some y)
      obtain i' opts' where y: "y = (i', opts')" by (cases y)
      with x Some have i': "i \<le> i'" "options_ok channels mtu opts'" by auto
      have "length argv - (i' + 1) < length argv - i" using True i'(1) by simp
      from less.hyps [OF this i'(2)] show ?thesis using True x Some y by (subst arguments_loop.simps) simp
    qed
  next
    case False
    then show ?thesis using less.prems by (subst arguments_loop.simps) simp
  qed
qed

lemma parse_arguments_ok:
  "\<exists>r. parse_arguments channels mtu argv = Some r \<and>
    (\<forall>opts. r = Some opts \<longrightarrow> options_ok channels mtu opts \<and> arguments_complete opts)"
proof (cases "argv = []")
  case False
  then have a: "argument argv 0 = Some (argv ! 0)" by (simp add: argument_def)
  from arguments_loop_ok [OF init_ok [of channels mtu "argv ! 0"], of argv 1] obtain r where
    "arguments_loop channels argv 1 (init_arguments channels mtu (argv ! 0)) = Some r"
    "\<forall>opts'. r = Some opts' \<longrightarrow> options_ok channels mtu opts'" by blast
  with False a show ?thesis by (auto simp: parse_arguments_def split: option.split)
qed (simp add: parse_arguments_def)

section \<open>A command line for every configuration\<close>

definition flag :: "string \<Rightarrow> bool \<Rightarrow> string list" where
  "flag name b = (if b then [name] else [])"

definition valued :: "string \<Rightarrow> string option \<Rightarrow> string list" where
  "valued name v = (case v of None \<Rightarrow> [] | Some a \<Rightarrow> [name, a])"

definition level_args :: "string list \<Rightarrow> int list \<Rightarrow> nat list \<Rightarrow> string list" where
  "level_args channels levels is =
     concat (map (\<lambda>i. if levels ! i < 0 then [] else [''--channel-loglevel'', channels ! i, fmt_dec (nat (levels ! i))]) is)"

definition render :: "string list \<Rightarrow> options \<Rightarrow> string list" where
  "render channels opts =
     flag ''--help'' (op_help opts) @ flag ''--version'' (op_version opts) @
     [''--logger'', if op_logger opts = LOGGER_STDOUT then ''stdout'' else ''syslog''] @
     [''--syslog-facility'', op_logger_syslog_facility opts] @ [''--syslog-ident'', op_logger_syslog_ident opts] @
     valued ''--loglevel'' (if op_loglevel opts < 0 then None else Some (fmt_dec (nat (op_loglevel opts)))) @
     level_args channels (op_loglevels opts) [0..<length channels] @
     valued ''--tundev'' (op_tundev opts) @ valued ''--netif-ipaddr'' (op_netif_ipaddr opts) @
     valued ''--netif-netmask'' (op_netif_netmask opts) @ valued ''--netif-ip6addr'' (op_netif_ip6addr opts) @
     valued ''--socks-server-addr'' (op_socks_server_addr opts) @ valued ''--username'' (op_username opts) @
     valued ''--password'' (op_password opts) @ valued ''--password-file'' (op_password_file opts) @
     flag ''--append-source-to-username'' (op_append_source_to_username opts) @
     valued ''--udpgw-remote-server-addr'' (op_udpgw_remote_server_addr opts) @
     [''--udpgw-max-connections'', fmt_dec (nat (op_udpgw_max_connections opts))] @
     [''--udpgw-connection-buffer-size'', fmt_dec (nat (op_udpgw_connection_buffer_size opts))] @
     flag ''--udpgw-transparent-dns'' (op_udpgw_transparent_dns opts = 1)"

text \<open>A segment of the command line that turns \<open>opts\<close> into \<open>opts'\<close>, wherever it stands.\<close>

definition consumes :: "string list \<Rightarrow> string list \<Rightarrow> options \<Rightarrow> options \<Rightarrow> bool" where
  "consumes channels seg opts opts' \<longleftrightarrow> (\<forall>pre post. arguments_loop channels (pre @ seg @ post) (length pre) opts =
     arguments_loop channels (pre @ seg @ post) (length pre + length seg) opts')"

lemma consumes_Nil: "consumes channels [] opts opts"
  by (simp add: consumes_def)

lemma consumes_append:
  assumes "consumes channels s opts opts1" "consumes channels t opts1 opts2"
  shows "consumes channels (s @ t) opts opts2"
  unfolding consumes_def
proof (intro allI)
  fix pre post
  have "arguments_loop channels (pre @ s @ t @ post) (length pre) opts = arguments_loop channels (pre @ s @ t @ post) (length pre + length s) opts1"
    using assms(1) unfolding consumes_def by blast
  also have "\<dots> = arguments_loop channels ((pre @ s) @ t @ post) (length (pre @ s)) opts1" by simp
  also have "\<dots> = arguments_loop channels ((pre @ s) @ t @ post) (length (pre @ s) + length t) opts2"
    using assms(2) unfolding consumes_def by blast
  finally show "arguments_loop channels (pre @ (s @ t) @ post) (length pre) opts =
      arguments_loop channels (pre @ (s @ t) @ post) (length pre + length (s @ t)) opts2" by (simp add: add.assoc)
qed

lemma consumes_step:
  assumes "seg \<noteq> []" "\<And>pre post. option_step channels (pre @ seg @ post) (length pre) opts = Some (Some (length pre + length seg - 1, opts'))"
  shows "consumes channels seg opts opts'"
  unfolding consumes_def
proof (intro allI)
  fix pre post
  have l: "length pre + length seg - 1 + 1 = length pre + length seg" "length pre < length (pre @ seg @ post)"
    using assms(1) by (cases seg; simp)+
  show "arguments_loop channels (pre @ seg @ post) (length pre) opts =
      arguments_loop channels (pre @ seg @ post) (length pre + length seg) opts'"
    by (subst (1) arguments_loop.simps) (simp only: l if_True assms(2) option.case prod.case)
qed

lemma consumes_flag: "consumes channels (flag ''--help'' b) opts (if b then opts\<lparr>op_help := True\<rparr> else opts)"
  "consumes channels (flag ''--version'' b) opts (if b then opts\<lparr>op_version := True\<rparr> else opts)"
  "consumes channels (flag ''--append-source-to-username'' b) opts (if b then opts\<lparr>op_append_source_to_username := True\<rparr> else opts)"
  "consumes channels (flag ''--udpgw-transparent-dns'' b) opts (if b then opts\<lparr>op_udpgw_transparent_dns := 1\<rparr> else opts)"
  by (cases b; simp add: flag_def consumes_Nil; intro consumes_step; simp add: option_step_def argument_def)+

lemma consumes_one:
  assumes "\<And>argv i. i < length argv \<Longrightarrow> argv ! i = name \<Longrightarrow> option_step channels argv i opts = one_argument argv i f" "f a = Some opts'"
  shows "consumes channels [name, a] opts opts'"
proof (rule consumes_step)
  fix pre post
  have "option_step channels (pre @ [name, a] @ post) (length pre) opts = one_argument (pre @ [name, a] @ post) (length pre) f"
    by (rule assms(1)) (simp_all add: nth_append)
  also have "\<dots> = Some (Some (length pre + length [name, a] - 1, opts'))"
    using assms(2) by (simp add: one_argument_def argument_def nth_append)
  finally show "option_step channels (pre @ [name, a] @ post) (length pre) opts = Some (Some (length pre + length [name, a] - 1, opts'))" .
qed simp

lemma consumes_channel:
  assumes "f a b = Some opts'"
    and "\<And>argv i. i < length argv \<Longrightarrow> argv ! i = ''--channel-loglevel'' \<Longrightarrow> option_step channels argv i opts = two_arguments argv i f"
  shows "consumes channels [''--channel-loglevel'', a, b] opts opts'"
proof (rule consumes_step)
  fix pre post
  have "option_step channels (pre @ [''--channel-loglevel'', a, b] @ post) (length pre) opts =
      two_arguments (pre @ [''--channel-loglevel'', a, b] @ post) (length pre) f"
    by (rule assms(2)) (simp_all add: nth_append)
  also have "\<dots> = Some (Some (length pre + length [''--channel-loglevel'', a, b] - 1, opts'))"
    using assms(1) by (simp add: two_arguments_def argument_def nth_append)
  finally show "option_step channels (pre @ [''--channel-loglevel'', a, b] @ post) (length pre) opts =
      Some (Some (length pre + length [''--channel-loglevel'', a, b] - 1, opts'))" .
qed simp

lemma step_at: "i < length argv \<Longrightarrow> argv ! i = name \<Longrightarrow> argument argv i = Some name"
  by (simp add: argument_def)

lemma consumes_text:
  "consumes channels [''--syslog-facility'', a] opts (opts\<lparr>op_logger_syslog_facility := a\<rparr>)"
  "consumes channels [''--syslog-ident'', a] opts (opts\<lparr>op_logger_syslog_ident := a\<rparr>)"
  "consumes channels [''--tundev'', a] opts (opts\<lparr>op_tundev := Some a\<rparr>)"
  "consumes channels [''--netif-ipaddr'', a] opts (opts\<lparr>op_netif_ipaddr := Some a\<rparr>)"
  "consumes channels [''--netif-netmask'', a] opts (opts\<lparr>op_netif_netmask := Some a\<rparr>)"
  "consumes channels [''--netif-ip6addr'', a] opts (opts\<lparr>op_netif_ip6addr := Some a\<rparr>)"
  "consumes channels [''--socks-server-addr'', a] opts (opts\<lparr>op_socks_server_addr := Some a\<rparr>)"
  "consumes channels [''--username'', a] opts (opts\<lparr>op_username := Some a\<rparr>)"
  "consumes channels [''--password'', a] opts (opts\<lparr>op_password := Some a\<rparr>)"
  "consumes channels [''--password-file'', a] opts (opts\<lparr>op_password_file := Some a\<rparr>)"
  "consumes channels [''--udpgw-remote-server-addr'', a] opts (opts\<lparr>op_udpgw_remote_server_addr := Some a\<rparr>)"
  by (rule consumes_one; simp add: option_step_def step_at)+

lemma loglevel_text: "0 \<le> l \<Longrightarrow> loglevel_ok l \<Longrightarrow> parse_loglevel (fmt_dec (nat l)) = l"
proof -
  assume l: "0 \<le> l" "loglevel_ok l"
  then have "nat l < 10" by (simp add: loglevel_ok_def)
  then have d: "fmt_dec (nat l) = [digit_char (nat l)]" "is_digit (digit_char (nat l))"
    using digit_char_dec(2) [of "nat l"] by (simp_all add: fmt_dec_small)
  have "strtol (fmt_dec (nat l)) = (int (nat l), [])" using l by (intro strtol_fmt_dec) (simp add: loglevel_ok_def)
  with l d show ?thesis by (auto simp: parse_loglevel_def loglevel_ok_def)
qed

lemma atoi_text: "count_ok n \<Longrightarrow> atoi (fmt_dec (nat n)) = n"
proof -
  assume n: "count_ok n"
  then have "nat n \<le> 2147483647" unfolding count_ok_def by linarith
  then have "strtol (fmt_dec (nat n)) = (int (nat n), [])" by (intro strtol_fmt_dec) simp
  with n show ?thesis by (simp add: atoi_def count_ok_def signed_take_bit_int_eq_self)
qed

lemma consumes_number:
  assumes "count_ok n"
  shows "consumes channels [''--udpgw-max-connections'', fmt_dec (nat n)] opts (opts\<lparr>op_udpgw_max_connections := n\<rparr>)"
    "consumes channels [''--udpgw-connection-buffer-size'', fmt_dec (nat n)] opts (opts\<lparr>op_udpgw_connection_buffer_size := n\<rparr>)"
proof -
  have n: "atoi (fmt_dec (nat n)) = n" "\<not> n \<le> 0" using assms atoi_text by (simp_all add: count_ok_def)
  show "consumes channels [''--udpgw-max-connections'', fmt_dec (nat n)] opts (opts\<lparr>op_udpgw_max_connections := n\<rparr>)"
    by (rule consumes_one [where f = "\<lambda>a. let n = atoi a in if n \<le> 0 then None else Some (opts\<lparr>op_udpgw_max_connections := n\<rparr>)"])
      (simp_all add: option_step_def step_at n)
  show "consumes channels [''--udpgw-connection-buffer-size'', fmt_dec (nat n)] opts (opts\<lparr>op_udpgw_connection_buffer_size := n\<rparr>)"
    by (rule consumes_one [where f = "\<lambda>a. let n = atoi a in if n \<le> 0 then None else Some (opts\<lparr>op_udpgw_connection_buffer_size := n\<rparr>)"])
      (simp_all add: option_step_def step_at n)
qed

lemma consumes_logger:
  "consumes channels [''--logger'', ''stdout''] opts (opts\<lparr>op_logger := 1\<rparr>)"
  "consumes channels [''--logger'', ''syslog''] opts (opts\<lparr>op_logger := 2\<rparr>)"
  by (rule consumes_one [where f = "\<lambda>a. if a = ''stdout'' then Some (opts\<lparr>op_logger := 1\<rparr>)
      else if a = ''syslog'' then Some (opts\<lparr>op_logger := 2\<rparr>) else None"]; simp add: option_step_def step_at)+

lemma consumes_loglevel:
  assumes "0 \<le> l" "loglevel_ok l"
  shows "consumes channels [''--loglevel'', fmt_dec (nat l)] opts (opts\<lparr>op_loglevel := l\<rparr>)"
  using assms by (intro consumes_one [where f = "\<lambda>a. let l = parse_loglevel a in if l < 0 then None else Some (opts\<lparr>op_loglevel := l\<rparr>)"])
    (simp_all add: option_step_def step_at loglevel_text)

lemma channel_index: "distinct channels \<Longrightarrow> i < length channels \<Longrightarrow> BLogGlobal_GetChannelByName channels (channels ! i) = int i"
proof -
  assume d: "distinct channels" and i: "i < length channels"
  have "find (\<lambda>j. channels ! j = channels ! i) [0..<length channels] = Some i"
    unfolding find_Some_iff
  proof (intro exI [of _ i] conjI allI impI)
    fix j assume "j < i"
    then show "channels ! ([0..<length channels] ! j) \<noteq> channels ! i" using d i by (simp add: nth_eq_iff_index_eq)
  qed (use i in simp_all)
  then show ?thesis by (simp add: BLogGlobal_GetChannelByName_def)
qed

lemma consumes_level:
  assumes "distinct channels" "i < length channels" "0 \<le> l" "loglevel_ok l"
  shows "consumes channels [''--channel-loglevel'', channels ! i, fmt_dec (nat l)] opts (opts\<lparr>op_loglevels := (op_loglevels opts)[i := l]\<rparr>)"
  using assms by (intro consumes_channel [where f = "\<lambda>a b. let channel = BLogGlobal_GetChannelByName channels a; loglevel = parse_loglevel b in
       if channel < 0 then None else if loglevel < 0 then None else Some (opts\<lparr>op_loglevels := (op_loglevels opts)[nat channel := loglevel]\<rparr>)"])
    (simp_all add: option_step_def step_at loglevel_text channel_index)

lemma consumes_levels:
  assumes "distinct channels" "list_all loglevel_ok levels" "length levels = length channels" "n \<le> length channels"
    and "op_loglevels opts = replicate (length channels) (-1)"
  shows "consumes channels (level_args channels levels [0..<n]) opts
    (opts\<lparr>op_loglevels := take n levels @ replicate (length channels - n) (-1)\<rparr>)"
  using assms(4)
proof (induction n)
  case 0
  have "opts\<lparr>op_loglevels := replicate (length channels) (-1)\<rparr> = opts" using assms(5) by (cases opts) simp
  then show ?case by (simp add: level_args_def consumes_Nil)
next
  case (Suc n)
  define o1 where "o1 = opts\<lparr>op_loglevels := take n levels @ replicate (length channels - n) (-1)\<rparr>"
  have l: "loglevel_ok (levels ! n)" using assms(2,3) Suc.prems by (simp add: list_all_length)
  have "replicate (length channels - n) (-1::int) = -1 # replicate (length channels - Suc n) (-1)"
    using Suc.prems by (simp add: Suc_diff_Suc [symmetric])
  then have u: "(op_loglevels o1)[n := levels ! n] = take (Suc n) levels @ replicate (length channels - Suc n) (-1)"
    using Suc.prems assms(3) by (simp add: o1_def list_update_append take_Suc_conv_app_nth)
  have "consumes channels (if levels ! n < 0 then [] else [''--channel-loglevel'', channels ! n, fmt_dec (nat (levels ! n))]) o1
      (o1\<lparr>op_loglevels := take (Suc n) levels @ replicate (length channels - Suc n) (-1)\<rparr>)"
  proof (cases "levels ! n < 0")
    case True
    then have "levels ! n = -1" using l by (simp add: loglevel_ok_def)
    then have "(op_loglevels o1)[n := levels ! n] = op_loglevels o1"
      using Suc.prems assms(3) by (intro list_update_same_conv [THEN iffD2]) (simp_all add: o1_def nth_append)
    with u True show ?thesis using consumes_Nil [of channels o1] by (simp add: o1_def)
  next
    case False
    then show ?thesis using consumes_level [OF assms(1) _ _ l, of n o1] u Suc.prems by simp
  qed
  from consumes_append [OF Suc.IH this [unfolded o1_def]] Suc.prems show ?case by (simp add: level_args_def)
qed

lemma consumes_valued:
  assumes "\<And>a. consumes channels [name, a] opts (f (Some a))" "f None = opts"
  shows "consumes channels (valued name v) opts (f v)"
  using assms consumes_Nil [of channels opts] by (cases v) (simp_all add: valued_def)

lemma render_consumed:
  assumes d: "distinct channels" and ok: "options_ok channels mtu opts"
  shows "consumes channels (render channels opts) (init_arguments channels mtu prog) opts"
proof -
  note o = ok [unfolded options_ok_def]
  define s0 where "s0 = init_arguments channels mtu prog"
  define s1 where "s1 = s0\<lparr>op_help := op_help opts\<rparr>"
  define s2 where "s2 = s1\<lparr>op_version := op_version opts\<rparr>"
  define s3 where "s3 = s2\<lparr>op_logger := op_logger opts\<rparr>"
  define s4 where "s4 = s3\<lparr>op_logger_syslog_facility := op_logger_syslog_facility opts\<rparr>"
  define s5 where "s5 = s4\<lparr>op_logger_syslog_ident := op_logger_syslog_ident opts\<rparr>"
  define s6 where "s6 = s5\<lparr>op_loglevel := op_loglevel opts\<rparr>"
  define s7 where "s7 = s6\<lparr>op_loglevels := op_loglevels opts\<rparr>"
  define s8 where "s8 = s7\<lparr>op_tundev := op_tundev opts\<rparr>"
  define s9 where "s9 = s8\<lparr>op_netif_ipaddr := op_netif_ipaddr opts\<rparr>"
  define s10 where "s10 = s9\<lparr>op_netif_netmask := op_netif_netmask opts\<rparr>"
  define s11 where "s11 = s10\<lparr>op_netif_ip6addr := op_netif_ip6addr opts\<rparr>"
  define s12 where "s12 = s11\<lparr>op_socks_server_addr := op_socks_server_addr opts\<rparr>"
  define s13 where "s13 = s12\<lparr>op_username := op_username opts\<rparr>"
  define s14 where "s14 = s13\<lparr>op_password := op_password opts\<rparr>"
  define s15 where "s15 = s14\<lparr>op_password_file := op_password_file opts\<rparr>"
  define s16 where "s16 = s15\<lparr>op_append_source_to_username := op_append_source_to_username opts\<rparr>"
  define s17 where "s17 = s16\<lparr>op_udpgw_remote_server_addr := op_udpgw_remote_server_addr opts\<rparr>"
  define s18 where "s18 = s17\<lparr>op_udpgw_max_connections := op_udpgw_max_connections opts\<rparr>"
  define s19 where "s19 = s18\<lparr>op_udpgw_connection_buffer_size := op_udpgw_connection_buffer_size opts\<rparr>"
  define s20 where "s20 = s19\<lparr>op_udpgw_transparent_dns := op_udpgw_transparent_dns opts\<rparr>"
  note ds = s0_def s1_def s2_def s3_def s4_def s5_def s6_def s7_def s8_def s9_def s10_def s11_def s12_def s13_def s14_def s15_def s16_def
    s17_def s18_def s19_def s20_def init_arguments_def
  have last: "s20 = opts" using o by (cases opts) (simp add: ds)
  have c1: "consumes channels (flag ''--help'' (op_help opts)) s0 s1"
    using consumes_flag(1) [of channels "op_help opts" s0] by (cases "op_help opts") (simp_all add: ds)
  have c2: "consumes channels (flag ''--version'' (op_version opts)) s1 s2"
    using consumes_flag(2) [of channels "op_version opts" s1] by (cases "op_version opts") (simp_all add: ds)
  have c3: "consumes channels [''--logger'', if op_logger opts = LOGGER_STDOUT then ''stdout'' else ''syslog''] s2 s3"
    using o consumes_logger [of channels s2] by (auto simp: s3_def)
  have c4: "consumes channels [''--syslog-facility'', op_logger_syslog_facility opts] s3 s4" unfolding s4_def by (rule consumes_text)
  have c5: "consumes channels [''--syslog-ident'', op_logger_syslog_ident opts] s4 s5" unfolding s5_def by (rule consumes_text)
  have c6: "consumes channels (valued ''--loglevel'' (if op_loglevel opts < 0 then None else Some (fmt_dec (nat (op_loglevel opts))))) s5 s6"
  proof (cases "op_loglevel opts < 0")
    case True
    then have "op_loglevel opts = -1" using o by (simp add: loglevel_ok_def)
    then have "s6 = s5" by (simp add: ds)
    with True show ?thesis using consumes_Nil [of channels s5] by (simp add: valued_def)
  next
    case False
    with o show ?thesis using consumes_loglevel [of "op_loglevel opts" channels s5] by (simp add: valued_def s6_def)
  qed
  have c7: "consumes channels (level_args channels (op_loglevels opts) [0..<length channels]) s6 s7"
    using consumes_levels [of channels "op_loglevels opts" "length channels" s6] d o by (simp add: s7_def) (simp add: ds)
  have c8: "consumes channels (valued ''--tundev'' (op_tundev opts)) s7 s8"
    unfolding s8_def by (rule consumes_valued [OF consumes_text(3)]) (simp add: ds)
  have c9: "consumes channels (valued ''--netif-ipaddr'' (op_netif_ipaddr opts)) s8 s9"
    unfolding s9_def by (rule consumes_valued [OF consumes_text(4)]) (simp add: ds)
  have c10: "consumes channels (valued ''--netif-netmask'' (op_netif_netmask opts)) s9 s10"
    unfolding s10_def by (rule consumes_valued [OF consumes_text(5)]) (simp add: ds)
  have c11: "consumes channels (valued ''--netif-ip6addr'' (op_netif_ip6addr opts)) s10 s11"
    unfolding s11_def by (rule consumes_valued [OF consumes_text(6)]) (simp add: ds)
  have c12: "consumes channels (valued ''--socks-server-addr'' (op_socks_server_addr opts)) s11 s12"
    unfolding s12_def by (rule consumes_valued [OF consumes_text(7)]) (simp add: ds)
  have c13: "consumes channels (valued ''--username'' (op_username opts)) s12 s13"
    unfolding s13_def by (rule consumes_valued [OF consumes_text(8)]) (simp add: ds)
  have c14: "consumes channels (valued ''--password'' (op_password opts)) s13 s14"
    unfolding s14_def by (rule consumes_valued [OF consumes_text(9)]) (simp add: ds)
  have c15: "consumes channels (valued ''--password-file'' (op_password_file opts)) s14 s15"
    unfolding s15_def by (rule consumes_valued [OF consumes_text(10)]) (simp add: ds)
  have c16: "consumes channels (flag ''--append-source-to-username'' (op_append_source_to_username opts)) s15 s16"
    using consumes_flag(3) [of channels "op_append_source_to_username opts" s15] by (cases "op_append_source_to_username opts") (simp_all add: ds)
  have c17: "consumes channels (valued ''--udpgw-remote-server-addr'' (op_udpgw_remote_server_addr opts)) s16 s17"
    unfolding s17_def by (rule consumes_valued [OF consumes_text(11)]) (simp add: ds)
  have c18: "consumes channels [''--udpgw-max-connections'', fmt_dec (nat (op_udpgw_max_connections opts))] s17 s18"
    unfolding s18_def using o by (intro consumes_number) simp
  have c19: "consumes channels [''--udpgw-connection-buffer-size'', fmt_dec (nat (op_udpgw_connection_buffer_size opts))] s18 s19"
    unfolding s19_def using o by (intro consumes_number) simp
  have c20: "consumes channels (flag ''--udpgw-transparent-dns'' (op_udpgw_transparent_dns opts = 1)) s19 s20"
    using o consumes_flag(4) [of channels "op_udpgw_transparent_dns opts = 1" s19] by (auto simp: ds)
  show ?thesis
    unfolding render_def s0_def [symmetric]
    using consumes_append [OF c1 consumes_append [OF c2 consumes_append [OF c3 consumes_append [OF c4 consumes_append [OF c5
      consumes_append [OF c6 consumes_append [OF c7 consumes_append [OF c8 consumes_append [OF c9 consumes_append [OF c10
      consumes_append [OF c11 consumes_append [OF c12 consumes_append [OF c13 consumes_append [OF c14 consumes_append [OF c15
      consumes_append [OF c16 consumes_append [OF c17 consumes_append [OF c18 consumes_append [OF c19 c20]]]]]]]]]]]]]]]]]]]
    unfolding last .
qed
lemma render_parsed:
  assumes d: "distinct channels" and ok: "options_ok channels mtu opts" "arguments_complete opts"
  shows "parse_arguments channels mtu (prog # render channels opts) = Some (Some opts)"
proof -
  let ?argv = "prog # render channels opts"
  have "arguments_loop channels ([prog] @ render channels opts @ []) (length [prog]) (init_arguments channels mtu prog) =
      arguments_loop channels ([prog] @ render channels opts @ []) (length [prog] + length (render channels opts)) opts"
    using render_consumed [OF d ok(1), of prog] unfolding consumes_def by blast
  then have "arguments_loop channels ?argv 1 (init_arguments channels mtu prog) = arguments_loop channels ?argv (length ?argv) opts"
    by simp
  also have "\<dots> = Some (Some opts)" by (subst arguments_loop.simps) simp
  finally show ?thesis using ok(2) by (simp add: parse_arguments_def argument_def)
qed

section \<open>Processing never fails an assertion\<close>

lemma parse2_ip_addr: "resolves getaddrinfo \<Longrightarrow> BAddr_Parse2 getaddrinfo s name noresolve = Some (a, n) \<Longrightarrow> ip_addr a"
proof -
  assume r: "resolves getaddrinfo" and p: "BAddr_Parse2 getaddrinfo s name noresolve = Some (a, n)"
  have six: "getaddrinfo AF_INET6 noresolve t = Some b \<Longrightarrow> length b = 16" for t b using r unfolding resolves_def by blast
  from p have "(\<exists>t b port. getaddrinfo AF_INET6 noresolve t = Some b \<and> a = BAddr_IPV6 b port) \<or> (\<exists>ip port. a = BAddr_IPV4 ip port)"
    by (auto simp: BAddr_Parse2_def bind_eq_Some_conv split: if_splits)
  with six show "ip_addr a" by auto
qed

text \<open>What the start of the program relies on.\<close>

definition settings_ok :: "options \<Rightarrow> settings \<Rightarrow> bool" where
  "settings_ok opts g \<longleftrightarrow> (\<exists>ip. se_netif_ipaddr g = BIPAddr_IPV4 ip) \<and> (\<exists>m. se_netif_netmask g = BIPAddr_IPV4 m) \<and>
     length (se_netif_ip6addr g) = 16 \<and> ip_addr (se_socks_server_addr g) \<and>
     list_all (\<lambda>ai. ai_auth_type ai = 0 \<or> ai_auth_type ai = 2) (se_socks_auth_info g) \<and> length (se_socks_auth_info g) \<le> 2 \<and>
     (op_udpgw_remote_server_addr opts \<noteq> None \<longrightarrow> ip_addr (se_udpgw_remote_server_addr g))"

lemma process_auth_ok:
  assumes "op_username opts \<noteq> None \<longrightarrow> op_password opts \<noteq> None \<or> op_password_file opts \<noteq> None"
  shows "\<exists>ok ais p. process_auth read_file opts g = Some (ok, g\<lparr>se_socks_auth_info := ais, se_password_file_contents := p\<rparr>) \<and>
    list_all (\<lambda>ai. ai_auth_type ai = 0 \<or> ai_auth_type ai = 2) ais \<and> length ais \<le> 2"
proof (cases "op_username opts")
  case None
  then show ?thesis
    by (intro exI [of _ True] exI [of _ "[BSocksClient_auth_none]"] exI [of _ "se_password_file_contents g"])
      (simp add: process_auth_def BSocksClient_auth_none_def)
next
  case (Some u)
  have two: "list_all (\<lambda>ai. ai_auth_type ai = 0 \<or> ai_auth_type ai = 2) [BSocksClient_auth_none, BSocksClient_auth_password n p]" for n p
    by (simp add: BSocksClient_auth_none_def BSocksClient_auth_password_def)
  show ?thesis
  proof (cases "op_password opts")
    case pw: (Some p)
    then show ?thesis using Some two
      by (intro exI [of _ True] exI [of _ "[BSocksClient_auth_none, BSocksClient_auth_password (string_bytes u) (string_bytes p)]"]
          exI [of _ "se_password_file_contents g"]) (simp add: process_auth_def)
  next
    case None
    then obtain path where f: "op_password_file opts = Some path" using assms Some by auto
    show ?thesis
    proof (cases "read_file path")
      case no: None
      then show ?thesis using Some None f
        by (intro exI [of _ False] exI [of _ "[BSocksClient_auth_none]"] exI [of _ "se_password_file_contents g"])
          (simp add: process_auth_def BSocksClient_auth_none_def)
    next
      case contents: (Some c)
      then show ?thesis using Some None f two
        by (intro exI [of _ True] exI [of _ "[BSocksClient_auth_none, BSocksClient_auth_password (string_bytes u) c]"]
            exI [of _ "Some c"]) (simp add: process_auth_def)
    qed
  qed
qed

lemma process_arguments_ok:
  assumes r: "resolves getaddrinfo" and opts: "arguments_complete opts" "\<not> op_help opts" "\<not> op_version opts"
    and g: "length (se_netif_ip6addr g) = 16" "se_password_file_contents g = None"
  shows "\<exists>ok g'. process_arguments getaddrinfo read_file opts g = Some (ok, g') \<and> (ok \<longrightarrow> settings_ok opts g')"
proof -
  from opts obtain ipaddr netmask server where o: "op_netif_ipaddr opts = Some ipaddr" "op_netif_netmask opts = Some netmask"
    "op_socks_server_addr opts = Some server" "op_username opts \<noteq> None \<longrightarrow> op_password opts \<noteq> None \<or> op_password_file opts \<noteq> None"
    by (auto simp: arguments_complete_def split: if_splits)
  show ?thesis
  proof (cases "(\<exists>ip. BIPAddr_Resolve getaddrinfo ipaddr False = Some (BIPAddr_IPV4 ip)) \<and>
      (\<exists>m. BIPAddr_Resolve getaddrinfo netmask False = Some (BIPAddr_IPV4 m))")
    case False
    then show ?thesis using o(1-3) g by (auto simp: process_arguments_def Let_def split: option.split BIPAddr.split)
  next
    case True
    then obtain ip m where ipm: "BIPAddr_Resolve getaddrinfo ipaddr False = Some (BIPAddr_IPV4 ip)"
      "BIPAddr_Resolve getaddrinfo netmask False = Some (BIPAddr_IPV4 m)" by blast
    obtain ip6 where ip6: "(case op_netif_ip6addr opts of None \<Rightarrow> accepted (se_netif_ip6addr g)
        | Some s \<Rightarrow> ipaddr6_parse_ipv6_addr_bin s (se_netif_ip6addr g)) = Some ip6"
      "\<forall>a. ip6 = Some a \<longrightarrow> length a = 16"
    proof (cases "op_netif_ip6addr opts")
      case None
      with g(1) show ?thesis by (intro that [of "Some (se_netif_ip6addr g)"]) simp_all
    next
      case (Some s)
      from parse_ipv6_safe [OF g(1), of s] obtain r where "ipaddr6_parse_ipv6_addr_bin s (se_netif_ip6addr g) = Some r"
        "\<forall>b. r = Some b \<longrightarrow> length b = 16" by blast
      with Some show ?thesis by (intro that [of r]) simp_all
    qed
    show ?thesis
    proof (cases "ip6 = None \<or> BAddr_Parse2 getaddrinfo server None False = None")
      case True
      then show ?thesis using o(1-3) g ipm ip6(1)
        by (cases ip6; cases "op_netif_ip6addr opts"; auto simp: process_arguments_def Let_def)
    next
      case False
      then obtain a addr n where a: "ip6 = Some a" "length a = 16" "BAddr_Parse2 getaddrinfo server None False = Some (addr, n)"
        using ip6(2) by auto
      let ?g = "g\<lparr>se_netif_ipaddr := BIPAddr_IPV4 ip, se_netif_netmask := BIPAddr_IPV4 m, se_netif_ip6addr := a, se_socks_server_addr := addr\<rparr>"
      from process_auth_ok [OF o(4), of read_file ?g] obtain ok ais p where
        au: "process_auth read_file opts ?g = Some (ok, ?g\<lparr>se_socks_auth_info := ais, se_password_file_contents := p\<rparr>)"
        "list_all (\<lambda>ai. ai_auth_type ai = 0 \<or> ai_auth_type ai = 2) ais" "length ais \<le> 2" by blast
      have ipa: "ip_addr addr" by (rule parse2_ip_addr [OF r a(3)])
      have e: "process_arguments getaddrinfo read_file opts g = (let g = ?g\<lparr>se_socks_auth_info := ais, se_password_file_contents := p\<rparr> in
          if \<not> ok then Some (False, g)
          else (case op_udpgw_remote_server_addr opts of None \<Rightarrow> Some (True, g)
            | Some s \<Rightarrow> Some (case BAddr_Parse2 getaddrinfo s None False of None \<Rightarrow> (False, g)
                | Some (addr, _) \<Rightarrow> (True, g\<lparr>se_udpgw_remote_server_addr := addr\<rparr>))))"
        using o(1-3) g ipm ip6(1) a(1,3) au(1)
        by (cases g; cases "op_netif_ip6addr opts"; clarsimp simp: process_arguments_def Let_def)
      show ?thesis unfolding e
        using au(2,3) ipa a(2) by (auto simp: Let_def settings_ok_def split: option.splits dest: parse2_ip_addr [OF r])
    qed
  qed
qed

section \<open>Property\<close>

definition config_complete :: "options \<Rightarrow> bool" where
  "config_complete opts \<longleftrightarrow> op_help opts \<or> op_version opts \<or>
     (None \<notin> {op_netif_ipaddr opts, op_netif_netmask opts, op_socks_server_addr opts} \<and>
      (op_username opts \<noteq> None \<longrightarrow> (op_password opts = None) \<noteq> (op_password_file opts = None)))"

lemma config_complete_eq: "arguments_complete opts = config_complete opts"
  unfolding arguments_complete_def config_complete_def by auto

text \<open>
  C40. Which command lines are accepted. For any arguments \<^verbatim>\<open>parse_arguments\<close> returns and reads no argument behind the last; and a
  configuration is the result of some command line exactly if it is well formed (a known logger, log levels in range, positive counts,
  \<^verbatim>\<open>set_signal\<close> set and no file descriptor) and complete (help or version, or the addresses and the SOCKS server, and for a username exactly one
  source of the password). So every such configuration can be asked for, and no command line gives another.
\<close>

theorem command_lines_exactly_valid:
  assumes "distinct channels"
  shows "(\<exists>r. parse_arguments channels mtu argv = Some r) \<and>
    ((\<exists>argv. parse_arguments channels mtu argv = Some (Some opts)) \<longleftrightarrow> options_ok channels mtu opts \<and> config_complete opts)"
  unfolding config_complete_eq [symmetric] using parse_arguments_ok [of channels mtu] render_parsed [OF assms] by (metis option.inject)

theorem command_lines_exactly_valid_witness:
  "(\<exists>argv. parse_arguments [''tun2socks'', ''BReactor''] 1500 argv =
      Some (Some ((init_arguments [''tun2socks'', ''BReactor''] 1500 ''p'')\<lparr>op_version := True, op_loglevels := [-1, 5]\<rparr>))) \<and>
   (\<not> (\<exists>argv. parse_arguments [''tun2socks'', ''BReactor''] 1500 argv =
      Some (Some ((init_arguments [''tun2socks'', ''BReactor''] 1500 ''p'')\<lparr>op_username := Some ''u''\<rparr>))))"
proof -
  have d: "distinct [''tun2socks'', ''BReactor'']" by simp
  let ?o = "(init_arguments [''tun2socks'', ''BReactor''] 1500 ''p'')\<lparr>op_version := True, op_loglevels := [-1, 5]\<rparr>"
  let ?u = "(init_arguments [''tun2socks'', ''BReactor''] 1500 ''p'')\<lparr>op_username := Some ''u''\<rparr>"
  have "options_ok [''tun2socks'', ''BReactor''] 1500 ?o \<and> config_complete ?o"
    by (simp add: options_ok_def config_complete_def init_arguments_def loglevel_ok_def count_ok_def)
  moreover have "\<not> config_complete ?u" by (simp add: config_complete_def init_arguments_def)
  ultimately show ?thesis using command_lines_exactly_valid [OF d, of 1500 "[]"] by blast
qed

end
