(* ===== verification/Startup.thy ===== *)
theory Startup
  imports Options TunUdp TcpListener
begin

text \<open>
  The life of tun2socks (tun2socks/tun2socks.c): \<^verbatim>\<open>run\<close> from the options to the end, with the handlers of the event loop that belong to no
  other component, on top of the machines of the TCP clients and of the UDP path. The state has the global variables and a trace of what is
  acquired and released. Whether the calls of the system, of the reactor and of lwIP succeed is a parameter; so are the callbacks of the event
  loop. Logging is left out; so are the calls of lwIP that have no effect here.
\<close>

section \<open>The state\<close>

datatype resource =
    Password_file_contents | Reactor | Signals | Device | Device_read_interface | Device_read_buffer | Udpgw_client
  | Lwip_init_job | Device_write_buf | Tcp_timer | Netif | Listener | Listener_ip6

datatype resource_event = Acquired resource | Released resource

text \<open>
  \<open>ap_signal_initialized\<close> and \<open>ap_signal_finished\<close> are those of \<^verbatim>\<open>bsignal_global\<close>, \<open>ap_exiting\<close> is that of the reactor; \<open>ap_udp\<close> is the udpgw client
  with the device write buffer, when there is one.
\<close>

record app =
  ap_settings :: settings
  ap_signal_initialized :: bool
  ap_signal_finished :: bool
  ap_quitting :: bool
  ap_exiting :: bool
  ap_mtu :: int
  ap_udp_mtu :: int
  ap_udp :: "tun_state option"
  ap_job_set :: bool
  ap_timer_set :: bool
  ap_have_netif :: bool
  ap_listener :: bool
  ap_listener_ip6 :: bool
  ap_tcp :: tcp_clients
  ap_trace :: "resource_event list"

definition acquire :: "resource \<Rightarrow> app \<Rightarrow> app" where
  "acquire r s = s\<lparr>ap_trace := ap_trace s @ [Acquired r]\<rparr>"

definition release :: "resource \<Rightarrow> app \<Rightarrow> app" where
  "release r s = s\<lparr>ap_trace := ap_trace s @ [Released r]\<rparr>"

definition acquire_if :: "bool \<Rightarrow> resource \<Rightarrow> app \<Rightarrow> app" where
  "acquire_if b r s = (if b then acquire r s else s)"

definition release_if :: "bool \<Rightarrow> resource \<Rightarrow> app \<Rightarrow> app" where
  "release_if b r s = (if b then release r s else s)"

text \<open>The results of the calls of \<^verbatim>\<open>run\<close>, and the memory they get.\<close>

record outcomes =
  oc_network :: bool
  oc_reactor :: bool
  oc_signal :: bool
  oc_device :: bool
  oc_device_mtu :: int
  oc_read_buffer :: bool
  oc_udpgw_mem :: SocksUdpGwClient
  oc_socks_mem :: socks_run
  oc_connector :: bool
  oc_write_buf :: "bytes option"

section \<open>The handlers of the event loop\<close>

definition app_globals :: "options \<Rightarrow> app \<Rightarrow> tun_globals" where
  "app_globals opts s = \<lparr>tg_quitting = ap_quitting s, tg_udpgw = (op_udpgw_remote_server_addr opts \<noteq> None),
     tg_transparent_dns = (op_udpgw_transparent_dns opts \<noteq> 0), tg_ip6 = (op_netif_ip6addr opts \<noteq> None),
     tg_netif_ipv4 = (case se_netif_ipaddr (ap_settings s) of BIPAddr_IPV4 ip \<Rightarrow> ip | _ \<Rightarrow> 0),
     tg_udp_mtu = ap_udp_mtu s, tg_device_mtu = ap_mtu s\<rparr>"

definition terminate :: "app \<Rightarrow> app option" where
  "terminate s = do {
     ASSERT (\<not> ap_quitting s);
     Some (s\<lparr>ap_quitting := True, ap_exiting := True\<rparr>)
   }"

definition signal_handler :: "app \<Rightarrow> app option" where
  "signal_handler s = do {
     ASSERT (\<not> ap_quitting s);
     terminate s
   }"

definition device_error_handler :: "app \<Rightarrow> app option" where
  "device_error_handler s = do {
     ASSERT (\<not> ap_quitting s);
     terminate s
   }"

text \<open>\<open>g_terminate\<close> is what the handler reads of the flag that \<^verbatim>\<open>terminateTun2SocksNative\<close> sets.\<close>

definition tcp_timer_handler :: "bool \<Rightarrow> app \<Rightarrow> app option" where
  "tcp_timer_handler g_terminate s = do {
     ASSERT (\<not> ap_quitting s);
     if g_terminate then terminate s
     else Some (s\<lparr>ap_timer_set := True\<rparr>)
   }"

text \<open>The results of the calls of lwIP in \<^verbatim>\<open>lwip_init_job_hadler\<close>, for IPv4 and for IPv6.\<close>

record lwip_results =
  lw_netif_add :: bool
  lw_tcp_new :: bool
  lw_bind :: bool
  lw_listen :: bool
  lw_tcp_new_ip6 :: bool
  lw_bind_ip6 :: bool
  lw_listen_ip6 :: bool

fun is_ipv4 :: "BIPAddr \<Rightarrow> bool" where
  "is_ipv4 (BIPAddr_IPV4 _) = True"
| "is_ipv4 _ = False"

definition lwip_fail :: "app \<Rightarrow> app option" where
  "lwip_fail s = (if \<not> ap_quitting s then terminate s else Some s)"

text \<open>A listener keeps its name when \<^verbatim>\<open>tcp_listen\<close> replaces the pcb.\<close>

definition lwip_init_job_hadler :: "options \<Rightarrow> lwip_results \<Rightarrow> app \<Rightarrow> app option" where
  "lwip_init_job_hadler opts lw s = do {
     ASSERT (\<not> ap_quitting s);
     ASSERT (is_ipv4 (se_netif_ipaddr (ap_settings s)));
     ASSERT (is_ipv4 (se_netif_netmask (ap_settings s)));
     ASSERT (\<not> ap_have_netif s);
     ASSERT (\<not> ap_listener s);
     ASSERT (\<not> ap_listener_ip6 s);
     if \<not> lw_netif_add lw then lwip_fail s
     else do {
       let s = acquire Netif (s\<lparr>ap_have_netif := True\<rparr>);
       if \<not> lw_tcp_new lw then lwip_fail s
       else do {
         let s = acquire Listener s;
         if \<not> lw_bind lw then lwip_fail (release Listener s)
         else if \<not> lw_listen lw then lwip_fail (release Listener s)
         else do {
           let s = s\<lparr>ap_listener := True\<rparr>;
           if op_netif_ip6addr opts = None then Some s
           else if \<not> lw_tcp_new_ip6 lw then lwip_fail s
           else do {
             let s = acquire Listener_ip6 s;
             if \<not> lw_bind_ip6 lw then lwip_fail (release Listener_ip6 s)
             else if \<not> lw_listen_ip6 lw then lwip_fail (release Listener_ip6 s)
             else Some (s\<lparr>ap_listener_ip6 := True\<rparr>)
           }
         }
       }
     }
   }"

section \<open>The event loop\<close>

datatype callback =
    Lwip_init lwip_results
  | Timer_expired bool
  | Device_error
  | Signal_received
  | Tcp_event clients_ev
  | Udp_event tun_event

text \<open>
  What the reactor may call: a job or timer only while it is set, timers and file descriptors only when no job is left, handlers
  of lwIP once the listener exists, and what the machines of the components allow.
\<close>

fun possible :: "app \<Rightarrow> callback \<Rightarrow> bool" where
  "possible s (Lwip_init lw) = ap_job_set s"
| "possible s (Timer_expired t) = (ap_timer_set s \<and> \<not> ap_job_set s)"
| "possible s Device_error = True"
| "possible s Signal_received = (ap_signal_initialized s \<and> \<not> ap_job_set s)"
| "possible s (Tcp_event e) = (ap_listener s \<and> tcp_enabled (ap_tcp s) e)"
| "possible s (Udp_event e) = (case ap_udp s of None \<Rightarrow> False | Some t \<Rightarrow> tun_enabled t e)"

fun call_handler :: "options \<Rightarrow> app \<Rightarrow> callback \<Rightarrow> app option" where
  "call_handler opts s (Lwip_init lw) = lwip_init_job_hadler opts lw (s\<lparr>ap_job_set := False\<rparr>)"
| "call_handler opts s (Timer_expired t) = tcp_timer_handler t (s\<lparr>ap_timer_set := False\<rparr>)"
| "call_handler opts s Device_error = device_error_handler s"
| "call_handler opts s Signal_received = signal_handler s"
| "call_handler opts s (Tcp_event e) =
     map_option (\<lambda>t. s\<lparr>ap_tcp := t\<rparr>) (tcp_step (se_socks_server_addr (ap_settings s)) (ap_tcp s) e)"
| "call_handler opts s (Udp_event e) = do {
     t \<leftarrow> ap_udp s;
     t \<leftarrow> tun_step (app_globals opts s) t e;
     Some (s\<lparr>ap_udp := Some t\<rparr>)
   }"

text \<open>The loop, for what happens while it runs; a callback that is not possible does not happen.\<close>

fun event_loop :: "options \<Rightarrow> callback list \<Rightarrow> app \<Rightarrow> app option" where
  "event_loop opts [] s = Some s"
| "event_loop opts (c # cs) s =
     (if ap_exiting s then Some s
      else if possible s c then do {
        s \<leftarrow> call_handler opts s c;
        event_loop opts cs s
      }
      else event_loop opts cs s)"

section \<open>run\<close>

text \<open>The labels at the end. The result says whether \<^verbatim>\<open>run\<close> has returned, or is still in the event loop.\<close>

definition fail1 :: "app \<Rightarrow> (bool \<times> app) option" where
  "fail1 s = Some (True, release_if (se_password_file_contents (ap_settings s) \<noteq> None) Password_file_contents s)"

definition fail2 :: "app \<Rightarrow> (bool \<times> app) option" where
  "fail2 s = fail1 (release Reactor s)"

definition BSignal_Finish :: "app \<Rightarrow> app option" where
  "BSignal_Finish s = do {
     ASSERT (ap_signal_initialized s);
     ASSERT (\<not> ap_signal_finished s);
     Some (release Signals (s\<lparr>ap_signal_finished := True\<rparr>))
   }"

definition fail3 :: "app \<Rightarrow> (bool \<times> app) option" where
  "fail3 s = do { s \<leftarrow> BSignal_Finish s; fail2 s }"

definition fail4 :: "app \<Rightarrow> (bool \<times> app) option" where
  "fail4 s = fail3 (release Device (release Device_read_interface s))"

definition fail4a :: "app \<Rightarrow> (bool \<times> app) option" where
  "fail4a s = fail4 (release Device_read_buffer s)"

definition fail5 :: "options \<Rightarrow> app \<Rightarrow> (bool \<times> app) option" where
  "fail5 opts s = do {
     let s = release Lwip_init_job (s\<lparr>ap_job_set := False\<rparr>);
     s \<leftarrow> (if op_udpgw_remote_server_addr opts \<noteq> None then do {
         t \<leftarrow> ap_udp s;
         SocksUdpGwClient_Free (sg_u (tu_s t));
         Some (release Udpgw_client (s\<lparr>ap_udp := None\<rparr>))
       } else Some s);
     fail4a s
   }"

text \<open>After the event loop: the clients, the listeners, the network interface, the timer and the buffer.\<close>

definition run_end :: "options \<Rightarrow> app \<Rightarrow> (bool \<times> app) option" where
  "run_end opts s = do {
     t \<leftarrow> free_clients (ap_tcp s);
     let s = s\<lparr>ap_tcp := t\<rparr>;
     let s = release_if (ap_listener_ip6 s) Listener_ip6 s;
     let s = release_if (ap_listener s) Listener s;
     let s = release_if (ap_have_netif s) Netif s;
     let s = release Tcp_timer (s\<lparr>ap_timer_set := False\<rparr>);
     fail5 opts (release Device_write_buf s)
   }"

definition run_loop :: "outcomes \<Rightarrow> options \<Rightarrow> callback list \<Rightarrow> app \<Rightarrow> (bool \<times> app) option" where
  "run_loop oc opts cs s = do {
     let s = acquire Lwip_init_job (s\<lparr>ap_job_set := True\<rparr>);
     case oc_write_buf oc of
       None \<Rightarrow> fail5 opts s
     | Some buf \<Rightarrow> do {
         let s = acquire Device_write_buf (s\<lparr>ap_udp := map_option (\<lambda>t. t\<lparr>tu_buf := buf\<rparr>) (ap_udp s)\<rparr>);
         let s = acquire Tcp_timer (s\<lparr>ap_timer_set := True\<rparr>);
         let s = s\<lparr>ap_have_netif := False, ap_listener := False, ap_listener_ip6 := False,
           ap_tcp := clients_init (map_option string_bytes (op_username opts)) (op_append_source_to_username opts)
             (se_socks_auth_info (ap_settings s))\<rparr>;
         s \<leftarrow> event_loop opts cs s;
         if ap_exiting s then run_end opts s else Some (False, s)
       }
   }"

definition run_udpgw :: "outcomes \<Rightarrow> options \<Rightarrow> callback list \<Rightarrow> app \<Rightarrow> (bool \<times> app) option" where
  "run_udpgw oc opts cs s =
     (if op_udpgw_remote_server_addr opts \<noteq> None then do {
        let s = s\<lparr>ap_udp_mtu := run_udp_mtu (ap_mtu s) (op_netif_ip6addr opts \<noteq> None)\<rparr>;
        let udpgw_mtu = udpgw_compute_mtu (ap_udp_mtu s);
        if udpgw_mtu < 0 \<or> udpgw_mtu > PACKETPROTO_MAXPAYLOAD then fail4a s
        else do {
          (ok, u) \<leftarrow> SocksUdpGwClient_Init (oc_udpgw_mem oc) (ap_udp_mtu s) 256 (op_udpgw_connection_buffer_size opts) 10000
            (se_socks_server_addr (ap_settings s)) (se_socks_auth_info (ap_settings s)) (se_udpgw_remote_server_addr (ap_settings s))
            (oc_connector oc);
          if ok = 0 then fail4a s
          else do {
            let r = oc_socks_mem oc;
            let t = \<lparr>tu_s = connected u r \<lparr>sg_u = u, sg_run = r, sg_user = []\<rparr>, tu_buf = [], tu_written = [], tu_lwip = []\<rparr>;
            run_loop oc opts cs (acquire Udpgw_client (s\<lparr>ap_udp := Some t\<rparr>))
          }
        }
      }
      else run_loop oc opts cs s)"

definition run_device :: "outcomes \<Rightarrow> options \<Rightarrow> callback list \<Rightarrow> app \<Rightarrow> (bool \<times> app) option" where
  "run_device oc opts cs s =
     (if \<not> oc_device oc then fail3 s
      else do {
        let s = acquire Device (s\<lparr>ap_mtu := (if op_tun_fd opts \<noteq> 0 then op_tun_mtu opts else oc_device_mtu oc)\<rparr>);
        ASSERT (ap_mtu s \<ge> 0);
        let s = acquire Device_read_interface s;
        if \<not> oc_read_buffer oc then fail4 s
        else run_udpgw oc opts cs (acquire Device_read_buffer s)
      })"

definition run :: "resolver \<Rightarrow> (string \<Rightarrow> bytes option) \<Rightarrow> outcomes \<Rightarrow> options \<Rightarrow> callback list \<Rightarrow> app \<Rightarrow> (bool \<times> app) option" where
  "run getaddrinfo read_file oc opts cs s = do {
     let s = s\<lparr>ap_settings := (ap_settings s)\<lparr>se_password_file_contents := None\<rparr>\<rparr>;
     if \<not> oc_network oc then fail1 s
     else do {
       (ok, g) \<leftarrow> process_arguments getaddrinfo read_file opts (ap_settings s);
       let s = s\<lparr>ap_settings := g\<rparr>;
       let s = acquire_if (se_password_file_contents g \<noteq> None) Password_file_contents s;
       if \<not> ok then fail1 s
       else if \<not> oc_reactor oc then fail1 s
       else do {
         let s = acquire Reactor (s\<lparr>ap_exiting := False, ap_quitting := False\<rparr>);
         if op_set_signal opts then do {
           ASSERT (\<not> ap_signal_initialized s);
           if \<not> oc_signal oc then fail2 s
           else run_device oc opts cs (acquire Signals (s\<lparr>ap_signal_initialized := True, ap_signal_finished := False\<rparr>))
         }
         else run_device oc opts cs s
       }
     }
   }"

text \<open>The options with which \<^verbatim>\<open>runTun2SocksNative\<close> calls \<^verbatim>\<open>run\<close>.\<close>

definition native_options :: "string list \<Rightarrow> int \<Rightarrow> int \<Rightarrow> string \<Rightarrow> string \<Rightarrow> string option \<Rightarrow> string \<Rightarrow> string \<Rightarrow> int \<Rightarrow> options" where
  "native_options channels fd mtu ipv4_address ipv4_netmask ipv6_address socks_server udpgw_server udpgw_transparent_dns =
     (init_arguments channels mtu ''Psiphon tun2socks'')\<lparr>op_tun_fd := fd, op_tun_mtu := mtu, op_netif_ipaddr := Some ipv4_address,
       op_netif_netmask := Some ipv4_netmask, op_netif_ip6addr := ipv6_address, op_socks_server_addr := Some socks_server,
       op_udpgw_remote_server_addr := Some udpgw_server, op_udpgw_transparent_dns := udpgw_transparent_dns, op_set_signal := False,
       op_loglevel := 2\<rparr>"
section \<open>What is held\<close>

text \<open>The resources that are held after a trace, the last one first; \<open>None\<close> when one is released that was not acquired last.\<close>

fun replay :: "resource_event list \<Rightarrow> resource list \<Rightarrow> resource list option" where
  "replay [] st = Some st"
| "replay (Acquired r # es) st = replay es (r # st)"
| "replay (Released r # es) [] = None"
| "replay (Released r # es) (x # st) = (if x = r then replay es st else None)"

lemma replay_append [simp]: "replay (xs @ ys) st = replay xs st \<bind> replay ys"
  by (induction xs st rule: replay.induct) simp_all

definition password_held :: "app \<Rightarrow> resource list" where
  "password_held s = (if se_password_file_contents (ap_settings s) \<noteq> None then [Password_file_contents] else [])"

definition device_held :: "app \<Rightarrow> resource list" where
  "device_held s = [Device_read_buffer, Device_read_interface, Device, Signals, Reactor] @ password_held s"

definition base_held :: "options \<Rightarrow> app \<Rightarrow> resource list" where
  "base_held opts s = Lwip_init_job # (if op_udpgw_remote_server_addr opts \<noteq> None then [Udpgw_client] else []) @ device_held s"

definition loop_held :: "options \<Rightarrow> app \<Rightarrow> resource list" where
  "loop_held opts s = (if ap_listener_ip6 s then [Listener_ip6] else []) @ (if ap_listener s then [Listener] else []) @
     (if ap_have_netif s then [Netif] else []) @ [Tcp_timer, Device_write_buf] @ base_held opts s"

definition holds :: "app \<Rightarrow> resource list \<Rightarrow> bool" where
  "holds s st \<longleftrightarrow> replay (ap_trace s) [] = Some st"

lemma holds_acquire [simp]: "holds s st \<Longrightarrow> holds (acquire r s) (r # st)"
  by (simp add: holds_def acquire_def)

lemma holds_release [simp]: "holds s (r # st) \<Longrightarrow> holds (release r s) st"
  by (simp add: holds_def release_def)

lemma trace_only [simp]:
  "ap_settings (acquire r s) = ap_settings s" "ap_settings (release r s) = ap_settings s"
  "ap_signal_initialized (acquire r s) = ap_signal_initialized s" "ap_signal_initialized (release r s) = ap_signal_initialized s"
  "ap_signal_finished (acquire r s) = ap_signal_finished s" "ap_signal_finished (release r s) = ap_signal_finished s"
  "ap_quitting (acquire r s) = ap_quitting s" "ap_quitting (release r s) = ap_quitting s"
  "ap_exiting (acquire r s) = ap_exiting s" "ap_exiting (release r s) = ap_exiting s"
  "ap_mtu (acquire r s) = ap_mtu s" "ap_mtu (release r s) = ap_mtu s"
  "ap_udp_mtu (acquire r s) = ap_udp_mtu s" "ap_udp_mtu (release r s) = ap_udp_mtu s"
  "ap_udp (acquire r s) = ap_udp s" "ap_udp (release r s) = ap_udp s"
  "ap_job_set (acquire r s) = ap_job_set s" "ap_job_set (release r s) = ap_job_set s"
  "ap_have_netif (acquire r s) = ap_have_netif s" "ap_have_netif (release r s) = ap_have_netif s"
  "ap_listener (acquire r s) = ap_listener s" "ap_listener (release r s) = ap_listener s"
  "ap_listener_ip6 (acquire r s) = ap_listener_ip6 s" "ap_listener_ip6 (release r s) = ap_listener_ip6 s"
  "ap_tcp (acquire r s) = ap_tcp s" "ap_tcp (release r s) = ap_tcp s"
  by (simp_all add: acquire_def release_def)

lemma holds_update [simp]:
  "holds (s\<lparr>ap_settings := x1\<rparr>) st = holds s st" "holds (s\<lparr>ap_signal_initialized := x2\<rparr>) st = holds s st"
  "holds (s\<lparr>ap_signal_finished := x2\<rparr>) st = holds s st" "holds (s\<lparr>ap_quitting := x2\<rparr>) st = holds s st"
  "holds (s\<lparr>ap_exiting := x2\<rparr>) st = holds s st" "holds (s\<lparr>ap_mtu := x3\<rparr>) st = holds s st"
  "holds (s\<lparr>ap_udp_mtu := x3\<rparr>) st = holds s st" "holds (s\<lparr>ap_udp := x4\<rparr>) st = holds s st"
  "holds (s\<lparr>ap_job_set := x2\<rparr>) st = holds s st" "holds (s\<lparr>ap_timer_set := x2\<rparr>) st = holds s st"
  "holds (s\<lparr>ap_have_netif := x2\<rparr>) st = holds s st" "holds (s\<lparr>ap_listener := x2\<rparr>) st = holds s st"
  "holds (s\<lparr>ap_listener_ip6 := x2\<rparr>) st = holds s st" "holds (s\<lparr>ap_tcp := x5\<rparr>) st = holds s st"
  by (simp_all add: holds_def)

lemma holds_release_if [simp]: "holds s ((if b then [r] else []) @ st) \<Longrightarrow> holds (release_if b r s) st"
  by (cases b) (simp_all add: release_if_def)

lemma release_if_only [simp]:
  "ap_settings (release_if b r s) = ap_settings s" "ap_signal_initialized (release_if b r s) = ap_signal_initialized s"
  "ap_signal_finished (release_if b r s) = ap_signal_finished s" "ap_udp (release_if b r s) = ap_udp s"
  "ap_have_netif (release_if b r s) = ap_have_netif s" "ap_listener (release_if b r s) = ap_listener s"
  by (simp_all add: release_if_def)

section \<open>The end\<close>

text \<open>The run has returned, with nothing held; or it is still in the loop.\<close>

definition balanced :: "(bool \<times> app) option \<Rightarrow> bool" where
  "balanced r \<longleftrightarrow> (\<exists>b s. r = Some (b, s) \<and> (b \<longrightarrow> holds s []))"

definition signals_ready :: "app \<Rightarrow> bool" where
  "signals_ready s \<longleftrightarrow> ap_signal_initialized s \<and> \<not> ap_signal_finished s"

lemma fail1_ok: "holds s (password_held s) \<Longrightarrow> balanced (fail1 s)"
  using holds_release_if [of s _ _ "[]"] by (auto simp: fail1_def balanced_def password_held_def)

lemma fail2_ok: "holds s (Reactor # password_held s) \<Longrightarrow> balanced (fail2 s)"
  unfolding fail2_def by (rule fail1_ok) (simp add: password_held_def)

lemma fail3_ok: "holds s (Signals # Reactor # password_held s) \<Longrightarrow> signals_ready s \<Longrightarrow> balanced (fail3 s)"
  by (simp add: fail3_def BSignal_Finish_def signals_ready_def) (rule fail2_ok, simp add: password_held_def)

lemma fail4_ok: "holds s (Device_read_interface # Device # Signals # Reactor # password_held s) \<Longrightarrow> signals_ready s \<Longrightarrow> balanced (fail4 s)"
  unfolding fail4_def by (rule fail3_ok) (simp_all add: password_held_def signals_ready_def)

lemma fail4a_ok: "holds s (device_held s) \<Longrightarrow> signals_ready s \<Longrightarrow> balanced (fail4a s)"
  unfolding fail4a_def by (rule fail4_ok) (simp_all add: password_held_def device_held_def signals_ready_def)

text \<open>The udpgw client can be freed.\<close>

definition udp_ok :: "options \<Rightarrow> app \<Rightarrow> bool" where
  "udp_ok opts s \<longleftrightarrow> (op_udpgw_remote_server_addr opts \<noteq> None) = (ap_udp s \<noteq> None) \<and>
     (\<forall>t. ap_udp s = Some t \<longrightarrow> sug_inv (se_socks_auth_info (ap_settings s)) (se_udpgw_remote_server_addr (ap_settings s)) (tu_s t))"

lemma fail5_ok:
  assumes "holds s (base_held opts s)" "signals_ready s" "udp_ok opts s"
  shows "balanced (fail5 opts s)"
proof (cases "ap_udp s")
  case None
  then have "op_udpgw_remote_server_addr opts = None" using assms(3) by (simp add: udp_ok_def)
  then show ?thesis using assms(1,2)
    by (simp add: fail5_def) (rule fail4a_ok; simp add: base_held_def device_held_def password_held_def signals_ready_def)
next
  case (Some t)
  then have u: "op_udpgw_remote_server_addr opts \<noteq> None" using assms(3) by (simp add: udp_ok_def)
  obtain u where "SocksUdpGwClient_Free (sg_u (tu_s t)) = Some u" using sug_free_ok Some assms(3) unfolding udp_ok_def by blast
  then show ?thesis using assms(1,2) Some u
    by (simp add: fail5_def) (rule fail4a_ok; simp add: base_held_def device_held_def password_held_def signals_ready_def)
qed

definition loop_globals :: "options \<Rightarrow> app \<Rightarrow> tun_globals" where
  "loop_globals opts s = (app_globals opts s)\<lparr>tg_quitting := False\<rparr>"

lemma loop_globals_only [simp]:
  "loop_globals opts (acquire r s) = loop_globals opts s" "loop_globals opts (release r s) = loop_globals opts s"
  "loop_globals opts (s\<lparr>ap_have_netif := b\<rparr>) = loop_globals opts s" "loop_globals opts (s\<lparr>ap_listener := b\<rparr>) = loop_globals opts s"
  "loop_globals opts (s\<lparr>ap_listener_ip6 := b\<rparr>) = loop_globals opts s" "loop_globals opts (s\<lparr>ap_job_set := b\<rparr>) = loop_globals opts s"
  "loop_globals opts (s\<lparr>ap_timer_set := b\<rparr>) = loop_globals opts s" "loop_globals opts (s\<lparr>ap_quitting := b\<rparr>) = loop_globals opts s"
  "loop_globals opts (s\<lparr>ap_exiting := b\<rparr>) = loop_globals opts s" "loop_globals opts (s\<lparr>ap_tcp := x\<rparr>) = loop_globals opts s"
  "loop_globals opts (s\<lparr>ap_udp := y\<rparr>) = loop_globals opts s"
  by (simp_all add: loop_globals_def app_globals_def)

definition app_core :: "options \<Rightarrow> app \<Rightarrow> bool" where
  "app_core opts s \<longleftrightarrow> settings_ok opts (ap_settings s) \<and> ap_exiting s = ap_quitting s \<and> signals_ready s \<and>
     tcp_inv (se_socks_server_addr (ap_settings s)) (ap_tcp s) \<and>
     (op_udpgw_remote_server_addr opts \<noteq> None) = (ap_udp s \<noteq> None) \<and>
     (\<forall>t. ap_udp s = Some t \<longrightarrow> tun_inv (se_socks_auth_info (ap_settings s)) (se_udpgw_remote_server_addr (ap_settings s))
       (loop_globals opts s) t)"

definition app_inv :: "options \<Rightarrow> app \<Rightarrow> bool" where
  "app_inv opts s \<longleftrightarrow> app_core opts s \<and> (ap_job_set s \<longrightarrow> \<not> ap_have_netif s \<and> \<not> ap_listener s \<and> \<not> ap_listener_ip6 s) \<and>
     holds s (loop_held opts s)"

lemma core_only [simp]:
  "app_core opts (acquire r s) = app_core opts s" "app_core opts (release r s) = app_core opts s"
  "app_core opts (s\<lparr>ap_have_netif := b\<rparr>) = app_core opts s" "app_core opts (s\<lparr>ap_listener := b\<rparr>) = app_core opts s"
  "app_core opts (s\<lparr>ap_listener_ip6 := b\<rparr>) = app_core opts s" "app_core opts (s\<lparr>ap_job_set := b\<rparr>) = app_core opts s"
  "app_core opts (s\<lparr>ap_timer_set := b\<rparr>) = app_core opts s"
  by (simp_all add: app_core_def signals_ready_def)

lemma base_only [simp]:
  "base_held opts (acquire r s) = base_held opts s" "base_held opts (release r s) = base_held opts s"
  "base_held opts (s\<lparr>ap_have_netif := b\<rparr>) = base_held opts s" "base_held opts (s\<lparr>ap_listener := b\<rparr>) = base_held opts s"
  "base_held opts (s\<lparr>ap_listener_ip6 := b\<rparr>) = base_held opts s" "base_held opts (s\<lparr>ap_job_set := b\<rparr>) = base_held opts s"
  "base_held opts (s\<lparr>ap_timer_set := b\<rparr>) = base_held opts s" "base_held opts (s\<lparr>ap_quitting := b\<rparr>) = base_held opts s"
  "base_held opts (s\<lparr>ap_exiting := b\<rparr>) = base_held opts s" "base_held opts (s\<lparr>ap_tcp := x\<rparr>) = base_held opts s"
  "base_held opts (s\<lparr>ap_udp := y\<rparr>) = base_held opts s"
  by (simp_all add: base_held_def device_held_def password_held_def)

lemma run_end_ok:
  assumes i: "app_inv opts s"
  shows "balanced (run_end opts s)"
proof -
  obtain t where t: "free_clients (ap_tcp s) = Some t" using free_clients_ends i unfolding app_inv_def app_core_def by blast
  have u: "udp_ok opts s" using i unfolding app_inv_def app_core_def udp_ok_def by (blast dest: tun_invD(1))
  define s1 where "s1 = release_if (ap_listener_ip6 s) Listener_ip6 (s\<lparr>ap_tcp := t\<rparr>)"
  define s2 where "s2 = release_if (ap_have_netif s) Netif (release_if (ap_listener s) Listener s1)"
  define s3 where "s3 = release Device_write_buf (release Tcp_timer (s2\<lparr>ap_timer_set := False\<rparr>))"
  have "holds s (loop_held opts s)" "signals_ready s" using i by (simp_all add: app_inv_def app_core_def)
  then have "holds s2 ([Tcp_timer, Device_write_buf] @ base_held opts s)" "signals_ready s3"
    by (simp_all add: s1_def s2_def s3_def loop_held_def signals_ready_def)
  then have "balanced (fail5 opts s3)" using u
    by (intro fail5_ok) (simp_all add: s1_def s2_def s3_def base_held_def device_held_def password_held_def udp_ok_def)
  then show ?thesis using t by (simp add: run_end_def Let_def s1_def s2_def s3_def)
qed

section \<open>The event loop keeps the invariant\<close>

lemma terminate_ok: "app_inv opts s \<Longrightarrow> \<not> ap_quitting s \<Longrightarrow> \<exists>s'. terminate s = Some s' \<and> app_inv opts s'"
  by (simp add: terminate_def app_inv_def loop_held_def) (simp add: app_core_def signals_ready_def)

lemma lwip_fail_ok: "app_inv opts s \<Longrightarrow> \<exists>s'. lwip_fail s = Some s' \<and> app_inv opts s'"
  using terminate_ok by (simp add: lwip_fail_def)

lemma lwip_init_ok:
  assumes i: "app_inv opts s" and q: "\<not> ap_quitting s" and n: "\<not> ap_have_netif s" "\<not> ap_listener s" "\<not> ap_listener_ip6 s" "\<not> ap_job_set s"
  shows "\<exists>s'. lwip_init_job_hadler opts lw s = Some s' \<and> app_inv opts s'"
proof -
  note d = app_inv_def loop_held_def
  define s1 where "s1 = acquire Netif (s\<lparr>ap_have_netif := True\<rparr>)"
  define s2 where "s2 = (acquire Listener s1)\<lparr>ap_listener := True\<rparr>"
  have i1: "app_inv opts s1" using i n by (simp add: s1_def d)
  have i1': "app_inv opts (release Listener (acquire Listener s1))" using i n by (simp add: s1_def d)
  have i2: "app_inv opts s2" using i n by (simp add: s1_def s2_def d)
  have i2': "app_inv opts (release Listener_ip6 (acquire Listener_ip6 s2))" using i n by (simp add: s1_def s2_def d)
  have i3: "app_inv opts ((acquire Listener_ip6 s2)\<lparr>ap_listener_ip6 := True\<rparr>)" using i n by (simp add: s1_def s2_def d)
  have a: "is_ipv4 (se_netif_ipaddr (ap_settings s))" "is_ipv4 (se_netif_netmask (ap_settings s))"
    using i by (auto simp: app_inv_def app_core_def settings_ok_def)
  show ?thesis
    unfolding lwip_init_job_hadler_def using q n a
    by (simp add: Let_def s1_def [symmetric] s2_def [symmetric] i2 i3 lwip_fail_ok [OF i] lwip_fail_ok [OF i1] lwip_fail_ok [OF i1']
        lwip_fail_ok [OF i2] lwip_fail_ok [OF i2'])
qed


lemma timer_ok:
  assumes "app_inv opts s" "\<not> ap_quitting s"
  shows "\<exists>s'. tcp_timer_handler t s = Some s' \<and> app_inv opts s'"
proof -
  have "app_inv opts (s\<lparr>ap_timer_set := True\<rparr>)" using assms(1) by (simp add: app_inv_def loop_held_def)
  with terminate_ok [OF assms] assms(2) show ?thesis by (simp add: tcp_timer_handler_def)
qed

lemma tcp_event_ok:
  assumes i: "app_inv opts s" and e: "tcp_enabled (ap_tcp s) e"
  shows "\<exists>s'. call_handler opts s (Tcp_event e) = Some s' \<and> app_inv opts s'"
proof -
  have "tcp_inv (se_socks_server_addr (ap_settings s)) (ap_tcp s)" using i by (simp add: app_inv_def app_core_def)
  from tcp.step_inv [OF this e] obtain t where t: "tcp_step (se_socks_server_addr (ap_settings s)) (ap_tcp s) e = Some t"
    "tcp_inv (se_socks_server_addr (ap_settings s)) t" by blast
  then have "app_inv opts (s\<lparr>ap_tcp := t\<rparr>)" using i by (simp add: app_inv_def app_core_def signals_ready_def loop_held_def)
  with t(1) show ?thesis by (simp del: tcp_step.simps)
qed

lemma udp_event_ok:
  assumes i: "app_inv opts s" and q: "\<not> ap_quitting s" and t: "ap_udp s = Some t" and e: "tun_enabled t e"
  shows "\<exists>s'. call_handler opts s (Udp_event e) = Some s' \<and> app_inv opts s'"
proof -
  have g: "loop_globals opts s = app_globals opts s" using q by (simp add: loop_globals_def app_globals_def)
  have "tun_inv (se_socks_auth_info (ap_settings s)) (se_udpgw_remote_server_addr (ap_settings s)) (loop_globals opts s) t"
    using i t by (simp add: app_inv_def app_core_def)
  from tun.step_inv [OF this e] obtain t' where t': "tun_step (loop_globals opts s) t e = Some t'"
    "tun_inv (se_socks_auth_info (ap_settings s)) (se_udpgw_remote_server_addr (ap_settings s)) (loop_globals opts s) t'" by blast
  then have "app_inv opts (s\<lparr>ap_udp := Some t'\<rparr>)" using i t by (simp add: app_inv_def app_core_def signals_ready_def loop_held_def)
  with t t'(1) show ?thesis unfolding g by (simp del: tun_step.simps)
qed

lemma call_handler_ok:
  assumes i: "app_inv opts s" and x: "\<not> ap_exiting s" and p: "possible s c"
  shows "\<exists>s'. call_handler opts s c = Some s' \<and> app_inv opts s'"
proof -
  have q: "\<not> ap_quitting s" using i x by (simp add: app_inv_def app_core_def)
  show ?thesis
  proof (cases c)
    case (Lwip_init lw)
    with p i have n: "\<not> ap_have_netif s" "\<not> ap_listener s" "\<not> ap_listener_ip6 s" by (simp_all add: app_inv_def)
    have "app_inv opts (s\<lparr>ap_job_set := False\<rparr>)" using i by (simp add: app_inv_def loop_held_def)
    from lwip_init_ok [OF this] Lwip_init q n show ?thesis by simp
  next
    case (Timer_expired t)
    have "app_inv opts (s\<lparr>ap_timer_set := False\<rparr>)" using i by (simp add: app_inv_def loop_held_def)
    from timer_ok [OF this] Timer_expired q show ?thesis by simp
  next
    case Device_error
    with terminate_ok [OF i q] q show ?thesis by (simp add: device_error_handler_def)
  next
    case Signal_received
    with terminate_ok [OF i q] q show ?thesis by (simp add: signal_handler_def)
  next
    case (Tcp_event e)
    with tcp_event_ok [OF i] p show ?thesis by simp
  next
    case (Udp_event e)
    with p obtain t where "ap_udp s = Some t" "tun_enabled t e" by (auto split: option.splits)
    with udp_event_ok [OF i q] Udp_event show ?thesis by blast
  qed
qed

lemma event_loop_ok: "app_inv opts s \<Longrightarrow> \<exists>s'. event_loop opts cs s = Some s' \<and> app_inv opts s'"
proof (induction cs arbitrary: s)
  case Nil
  then show ?case by simp
next
  case (Cons c cs)
  show ?case
  proof (cases "\<not> ap_exiting s \<and> possible s c")
    case True
    then obtain s' where "call_handler opts s c = Some s'" "app_inv opts s'" using call_handler_ok [OF Cons.prems] by blast
    with Cons.IH True show ?thesis by simp
  next
    case False
    with Cons show ?thesis by auto
  qed
qed
section \<open>The start\<close>

lemma ip_addr_valid: "ip_addr a \<Longrightarrow> \<not> BAddr_IsInvalid a"
  by (cases a) (simp_all add: BAddr_IsInvalid_def)

lemma UdpGwClient_Init_ok:
  assumes m: "0 \<le> m" "m \<le> INT_MAX" "0 \<le> udpgw_compute_mtu m" "udpgw_compute_mtu m \<le> PACKETPROTO_MAXPAYLOAD" and z: "0 < maxc" "0 < sz"
  shows "\<exists>g. UdpGwClient_Init raw m maxc sz ka = Some (1, g)"
proof -
  have u: "udpgw_compute_mtu m = m + 21" using udpgw_compute_mtu_eq [OF m(2)] m(3) by (simp split: if_splits)
  have l: "23 + m + 1 < 2 ^ 64" using m(2) by simp
  obtain q0 where q0: "PacketPassFairQueue_Init (23 + m) False False 1 (fq_flows (ug_send_queue raw)) = Some (1, q0)" "fq_flows_list q0 = []"
    using fq_Init_succeeds [of "23 + m" 1 False False "fq_flows (ug_send_queue raw)"] m(1) l by auto
  obtain q1 where "PacketPassFairQueueFlow_Init 0 q0 = Some q1" using flow_init_step [OF fq_Init_inv [OF q0(1)], of 0] q0(2) by auto
  then show ?thesis using m z u q0(1) by (simp add: UdpGwClient_Init_def PacketPassConnector_Init_def Let_def)
qed

lemma SocksUdpGwClient_Init_ok:
  assumes m: "0 \<le> m" "m \<le> INT_MAX" "0 \<le> udpgw_compute_mtu m" "udpgw_compute_mtu m \<le> PACKETPROTO_MAXPAYLOAD" and z: "0 < maxc" "0 < sz"
    and a: "ip_addr server" "ip_addr addr" "list_all (\<lambda>ai. ai_auth_type ai = 0 \<or> ai_auth_type ai = 2) ais"
  shows "\<exists>u. SocksUdpGwClient_Init raw m maxc sz ka server ais addr ok = Some (1, u)"
proof -
  let ?u = "raw\<lparr>su_udp_mtu := m, su_socks_server_addr := server, su_auth_info := ais, su_remote_udpgw_addr := addr\<rparr>"
  obtain g where g: "UdpGwClient_Init (su_udpgw_client ?u) m maxc sz ka = Some (1, g)" using UdpGwClient_Init_ok [OF m z] by blast
  have "auth_ok ais" using a(3) by (simp add: auth_ok_def)
  from socks_init_ok [OF ip_addr_valid [OF a(1)] this a(2), of ok] obtain c where
    c: "BSocksClient_Init server ais addr ok = Some (if ok then 1 else 0, c)" by blast
  show ?thesis using g c ip_addr_valid [OF a(1)] ip_addr_type [OF a(2)]
    by (cases ok) (simp_all add: SocksUdpGwClient_Init_def try_connect_def Let_def)
qed

text \<open>Before the event loop is entered.\<close>

definition starting :: "outcomes \<Rightarrow> options \<Rightarrow> app \<Rightarrow> bool" where
  "starting oc opts s \<longleftrightarrow> settings_ok opts (ap_settings s) \<and> signals_ready s \<and> \<not> ap_quitting s \<and> \<not> ap_exiting s \<and>
     \<not> op_append_source_to_username opts \<and> (\<forall>buf. oc_write_buf oc = Some buf \<longrightarrow> int (length buf) = ap_mtu s)"

lemma run_loop_ok:
  assumes st: "starting oc opts s"
    and h: "holds s ((if op_udpgw_remote_server_addr opts \<noteq> None then [Udpgw_client] else []) @ device_held s)"
    and u: "udp_ok opts s"
    and t: "\<And>t buf. ap_udp s = Some t \<Longrightarrow> int (length buf) = ap_mtu s \<Longrightarrow>
      tun_inv (se_socks_auth_info (ap_settings s)) (se_udpgw_remote_server_addr (ap_settings s)) (loop_globals opts s) (t\<lparr>tu_buf := buf\<rparr>)"
  shows "balanced (run_loop oc opts cs s)"
proof -
  define s1 where "s1 = acquire Lwip_init_job (s\<lparr>ap_job_set := True\<rparr>)"
  have h1: "holds s1 (base_held opts s1)" using h by (simp add: s1_def base_held_def device_held_def password_held_def)
  have r: "signals_ready s1" "udp_ok opts s1" using st u by (simp_all add: s1_def starting_def signals_ready_def udp_ok_def)
  show ?thesis
  proof (cases "oc_write_buf oc")
    case None
    with fail5_ok [OF h1 r] show ?thesis by (simp add: run_loop_def s1_def)
  next
    case (Some buf)
    define s2 where "s2 = acquire Device_write_buf (s1\<lparr>ap_udp := map_option (\<lambda>t. t\<lparr>tu_buf := buf\<rparr>) (ap_udp s1)\<rparr>)"
    define s3 where "s3 = (acquire Tcp_timer (s2\<lparr>ap_timer_set := True\<rparr>))\<lparr>ap_have_netif := False, ap_listener := False, ap_listener_ip6 := False,
      ap_tcp := clients_init (map_option string_bytes (op_username opts)) (op_append_source_to_username opts) (se_socks_auth_info (ap_settings s2))\<rparr>"
    have l: "int (length buf) = ap_mtu s" using st Some by (simp add: starting_def)
    have so: "settings_ok opts (ap_settings s)" using st by (simp add: starting_def)
    have "tcp_init (se_socks_server_addr (ap_settings s)) (clients_init (map_option string_bytes (op_username opts)) False (se_socks_auth_info (ap_settings s)))"
      using so ip_addr_valid unfolding tcp_init_def settings_ok_def auth_ok_def by blast
    then have c: "tcp_inv (se_socks_server_addr (ap_settings s)) (clients_init (map_option string_bytes (op_username opts)) False (se_socks_auth_info (ap_settings s)))"
      by (rule tcp_init_inv)
    have "app_core opts s3"
      unfolding app_core_def using st c u by (auto simp: s1_def s2_def s3_def starting_def signals_ready_def udp_ok_def t [OF _ l])
    then have "app_inv opts s3" using h1 by (simp add: app_inv_def s2_def s3_def loop_held_def)
    from event_loop_ok [OF this] obtain s4 where s4: "event_loop opts cs s3 = Some s4" "app_inv opts s4" by blast
    have e: "run_loop oc opts cs s = (if ap_exiting s4 then run_end opts s4 else Some (False, s4))"
      using Some s4(1) by (simp add: run_loop_def s1_def s2_def s3_def Let_def)
    show ?thesis using run_end_ok [OF s4(2)] unfolding e by (cases "ap_exiting s4") (auto simp: balanced_def)
  qed
qed

lemma run_udp_mtu_bounds: "0 \<le> m \<Longrightarrow> m \<le> INT_MAX \<Longrightarrow> 0 \<le> run_udp_mtu m ip6 \<and> run_udp_mtu m ip6 \<le> INT_MAX"
  by (simp add: run_udp_mtu_def Let_def)

lemma run_udpgw_ok:
  assumes st: "starting oc opts s" and h: "holds s (device_held s)" and n: "ap_udp s = None"
    and m: "0 \<le> ap_mtu s" "ap_mtu s \<le> INT_MAX" and c: "count_ok (op_udpgw_connection_buffer_size opts)"
  shows "balanced (run_udpgw oc opts cs s)"
proof (cases "op_udpgw_remote_server_addr opts = None")
  case True
  then have "balanced (run_loop oc opts cs s)" by (intro run_loop_ok [OF st]) (use h n in \<open>simp_all add: udp_ok_def\<close>)
  with True show ?thesis by (simp add: run_udpgw_def)
next
  case False
  define s1 where "s1 = s\<lparr>ap_udp_mtu := run_udp_mtu (ap_mtu s) (op_netif_ip6addr opts \<noteq> None)\<rparr>"
  have b: "0 \<le> ap_udp_mtu s1" "ap_udp_mtu s1 \<le> INT_MAX" using run_udp_mtu_bounds [OF m] by (simp_all add: s1_def)
  have h1: "holds s1 (device_held s1)" "signals_ready s1"
    using h st by (simp_all add: s1_def device_held_def password_held_def starting_def signals_ready_def)
  show ?thesis
  proof (cases "udpgw_compute_mtu (ap_udp_mtu s1) < 0 \<or> udpgw_compute_mtu (ap_udp_mtu s1) > PACKETPROTO_MAXPAYLOAD")
    case True
    with False fail4a_ok [OF h1] show ?thesis by (simp add: run_udpgw_def s1_def Let_def)
  next
    case in_range: False
    let ?ais = "se_socks_auth_info (ap_settings s)" and ?addr = "se_udpgw_remote_server_addr (ap_settings s)"
    have so: "ip_addr (se_socks_server_addr (ap_settings s))" "ip_addr ?addr" "list_all (\<lambda>ai. ai_auth_type ai = 0 \<or> ai_auth_type ai = 2) ?ais"
      using st False unfolding starting_def settings_ok_def by blast+
    have z: "(0::int) < 256" "0 < op_udpgw_connection_buffer_size opts" "op_udpgw_connection_buffer_size opts \<le> INT_MAX"
      using c by (simp_all add: count_ok_def)
    obtain u where u: "SocksUdpGwClient_Init (oc_udpgw_mem oc) (ap_udp_mtu s1) 256 (op_udpgw_connection_buffer_size opts) 10000
        (se_socks_server_addr (ap_settings s)) ?ais ?addr (oc_connector oc) = Some (1, u)"
      using SocksUdpGwClient_Init_ok [OF b _ _ z(1,2) so] in_range unfolding de_Morgan_disj not_less by blast
    define t where "t = \<lparr>tu_s = connected u (oc_socks_mem oc) \<lparr>sg_u = u, sg_run = oc_socks_mem oc, sg_user = []\<rparr>, tu_buf = [], tu_written = [], tu_lwip = []\<rparr>"
    define s2 where "s2 = acquire Udpgw_client (s1\<lparr>ap_udp := Some t\<rparr>)"
    have sg: "sug_init ?ais ?addr (tu_s t)" unfolding sug_init_def using u b(2) z(3) so(2,3) by (fastforce simp: t_def)
    have "balanced (run_loop oc opts cs s2)"
    proof (rule run_loop_ok)
      show "starting oc opts s2" using st by (simp add: s1_def s2_def starting_def signals_ready_def)
      show "holds s2 ((if op_udpgw_remote_server_addr opts \<noteq> None then [Udpgw_client] else []) @ device_held s2)"
        using h1(1) False by (simp add: s2_def device_held_def password_held_def)
      show "udp_ok opts s2" using False sug_init_inv [OF sg] by (simp add: udp_ok_def s1_def s2_def)
      fix t' and buf :: bytes
      assume t': "ap_udp s2 = Some t'" "int (length buf) = ap_mtu s2"
      have g: "tg_udpgw (loop_globals opts s2)" "\<not> tg_quitting (loop_globals opts s2)" "tg_udp_mtu (loop_globals opts s2) = ap_udp_mtu s1"
        "tg_device_mtu (loop_globals opts s2) = ap_mtu s1" using False by (simp_all add: s2_def loop_globals_def app_globals_def)
      have "tun_init ?ais ?addr (loop_globals opts s2) (t\<lparr>tu_buf := buf\<rparr>)"
        unfolding tun_init_def using u b(2) z(3) so(2,3) g t'(2)
        by (intro exI [of _ "oc_udpgw_mem oc"] exI [of _ "256"] exI [of _ "op_udpgw_connection_buffer_size opts"] exI [of _ "10000"]
            exI [of _ "se_socks_server_addr (ap_settings s)"] exI [of _ "oc_connector oc"] exI [of _ "oc_socks_mem oc"] exI [of _ u])
          (simp add: t_def s2_def)
      then show "tun_inv (se_socks_auth_info (ap_settings s2)) (se_udpgw_remote_server_addr (ap_settings s2)) (loop_globals opts s2) (t'\<lparr>tu_buf := buf\<rparr>)"
        using t'(1) tun_init_inv by (simp add: s1_def s2_def del: loop_globals_only)
    qed
    then show ?thesis using False in_range u by (simp add: run_udpgw_def s1_def s2_def t_def Let_def)
  qed
qed
lemma run_device_ok:
  assumes st: "starting oc opts (s\<lparr>ap_mtu := mtu\<rparr>)" and h: "holds s (Signals # Reactor # password_held s)" and n: "ap_udp s = None"
    and m: "mtu = (if op_tun_fd opts \<noteq> 0 then op_tun_mtu opts else oc_device_mtu oc)" "0 \<le> mtu" "mtu \<le> INT_MAX"
    and c: "count_ok (op_udpgw_connection_buffer_size opts)"
  shows "balanced (run_device oc opts cs s)"
proof (cases "oc_device oc")
  case False
  have "signals_ready s" using st by (simp add: starting_def signals_ready_def)
  from fail3_ok [OF h this] False show ?thesis by (simp add: run_device_def)
next
  case True
  define s1 where "s1 = acquire Device_read_interface (acquire Device (s\<lparr>ap_mtu := mtu\<rparr>))"
  have h1: "holds s1 (Device_read_interface # Device # Signals # Reactor # password_held s1)" "signals_ready s1"
    using h st by (simp_all add: s1_def password_held_def starting_def signals_ready_def)
  have "balanced (run_udpgw oc opts cs (acquire Device_read_buffer s1))"
    by (rule run_udpgw_ok) (use st h1 n m c in \<open>simp_all add: s1_def device_held_def password_held_def starting_def signals_ready_def\<close>)
  then show ?thesis using True fail4_ok [OF h1] m by (simp add: run_device_def s1_def Let_def)
qed

section \<open>Without the signal handler\<close>

lemma fail_unset:
  assumes "\<not> ap_signal_initialized s"
  shows "fail3 s = None" "fail4 s = None" "fail4a s = None"
  using assms by (simp_all add: fail4a_def fail4_def fail3_def BSignal_Finish_def)

lemma fail5_unset:
  assumes "\<not> ap_signal_initialized s"
  shows "fail5 opts s = None"
proof (cases "op_udpgw_remote_server_addr opts \<noteq> None \<and> ap_udp s \<noteq> None")
  case True
  then obtain t where t: "ap_udp s = Some t" by auto
  show ?thesis using assms True t
    by (cases "SocksUdpGwClient_Free (sg_u (tu_s t))") (simp_all add: fail5_def Let_def fail_unset)
next
  case False
  then show ?thesis using assms by (auto simp: fail5_def Let_def fail_unset)
qed

lemma handler_keeps_signal: "call_handler opts s c = Some s' \<Longrightarrow> ap_signal_initialized s' = ap_signal_initialized s"
  by (cases c) (auto simp: lwip_init_job_hadler_def lwip_fail_def tcp_timer_handler_def device_error_handler_def signal_handler_def terminate_def
      Let_def bind_eq_Some_conv split: if_splits)

lemma loop_keeps_signal: "event_loop opts cs s = Some s' \<Longrightarrow> ap_signal_initialized s' = ap_signal_initialized s"
  by (induction cs arbitrary: s) (auto simp: bind_eq_Some_conv dest: handler_keeps_signal split: if_splits)

lemma run_end_unset: "\<not> ap_signal_initialized s \<Longrightarrow> run_end opts s = None"
  by (cases "free_clients (ap_tcp s)") (simp_all add: run_end_def Let_def fail5_unset)

lemma run_loop_unset:
  assumes "\<not> ap_signal_initialized s"
  shows "run_loop oc opts cs s \<noteq> Some (True, s')"
  using assms by (auto simp: run_loop_def Let_def fail5_unset bind_eq_Some_conv run_end_unset dest!: loop_keeps_signal split: option.splits if_splits)

lemma run_device_unset:
  assumes "\<not> ap_signal_initialized s"
  shows "run_device oc opts cs s \<noteq> Some (True, s')"
  using assms by (auto simp: run_device_def run_udpgw_def Let_def fail_unset bind_eq_Some_conv run_loop_unset split: if_splits)

section \<open>Property\<close>

text \<open>The options \<^verbatim>\<open>run\<close> is called with: from a command line, or from the Java side.\<close>

definition configured :: "options \<Rightarrow> bool" where
  "configured opts \<longleftrightarrow> (\<exists>channels mtu argv. parse_arguments channels mtu argv = Some (Some opts)) \<or>
     (\<exists>channels fd mtu ip netmask ip6 server udpgw dns. opts = native_options channels fd mtu ip netmask ip6 server udpgw dns)"

lemma configured_ok: "configured opts \<Longrightarrow> arguments_complete opts \<and> count_ok (op_udpgw_connection_buffer_size opts)"
proof -
  assume "configured opts"
  then consider (line) channels mtu argv where "parse_arguments channels mtu argv = Some (Some opts)"
    | (native) channels fd mtu ip netmask ip6 server udpgw dns where "opts = native_options channels fd mtu ip netmask ip6 server udpgw dns"
    unfolding configured_def by blast
  then show ?thesis
  proof cases
    case line
    with parse_arguments_ok [of channels mtu argv] have "options_ok channels mtu opts" "arguments_complete opts" by auto
    then show ?thesis by (simp add: options_ok_def)
  next
    case native
    then show ?thesis by (simp add: native_options_def init_arguments_def arguments_complete_def count_ok_def)
  qed
qed

text \<open>What the device and the memory give: an MTU, and a buffer of that size when there is one.\<close>

definition device_ok :: "outcomes \<Rightarrow> options \<Rightarrow> bool" where
  "device_ok oc opts \<longleftrightarrow> (let mtu = (if op_tun_fd opts \<noteq> 0 then op_tun_mtu opts else oc_device_mtu oc) in
     0 \<le> mtu \<and> mtu \<le> INT_MAX \<and> (\<forall>buf \<in> set_option (oc_write_buf oc). int (length buf) = mtu))"

definition fresh :: "app \<Rightarrow> bool" where
  "fresh s \<longleftrightarrow> ap_trace s = [] \<and> ap_udp s = None \<and> \<not> ap_signal_initialized s \<and> length (se_netif_ip6addr (ap_settings s)) = 16"

lemma run_cases:
  assumes opts: "configured opts" "\<not> op_help opts" "\<not> op_version opts" "\<not> op_append_source_to_username opts"
    and env: "resolves getaddrinfo" "device_ok oc opts" and f: "fresh s"
  shows "balanced (run getaddrinfo read_file oc opts cs s) \<and> op_set_signal opts \<or>
    (\<exists>s'. run getaddrinfo read_file oc opts cs s = Some (True, s') \<and> holds s' [] \<and> Acquired Reactor \<notin> set (ap_trace s')) \<or>
    \<not> op_set_signal opts \<and> (\<forall>s'. run getaddrinfo read_file oc opts cs s \<noteq> Some (True, s'))"
proof -
  define s0 where "s0 = s\<lparr>ap_settings := (ap_settings s)\<lparr>se_password_file_contents := None\<rparr>\<rparr>"
  have f0: "ap_trace s0 = []" "ap_udp s0 = None" "\<not> ap_signal_initialized s0" "length (se_netif_ip6addr (ap_settings s0)) = 16"
    "se_password_file_contents (ap_settings s0) = None" using f by (simp_all add: s0_def fresh_def)
  note c = configured_ok [OF opts(1)]
  obtain ok g where g: "process_arguments getaddrinfo read_file opts (ap_settings s0) = Some (ok, g)" "ok \<longrightarrow> settings_ok opts g"
    using process_arguments_ok [OF env(1) _ opts(2,3) f0(4,5), of read_file] c by blast
  define s1 where "s1 = acquire_if (se_password_file_contents g \<noteq> None) Password_file_contents (s0\<lparr>ap_settings := g\<rparr>)"
  have s1: "holds s1 (password_held s1)" "ap_settings s1 = g" "ap_udp s1 = None" "\<not> ap_signal_initialized s1"
    "Acquired Reactor \<notin> set (ap_trace s1)"
    using f0 by (auto simp: s1_def password_held_def holds_def acquire_def acquire_if_def)
  have early: "\<exists>s'. fail1 x = Some (True, s') \<and> holds s' [] \<and> Acquired Reactor \<notin> set (ap_trace s')"
    if "holds x (password_held x)" "Acquired Reactor \<notin> set (ap_trace x)" for x
    using that fail1_ok [OF that(1)] by (auto simp: fail1_def balanced_def release_if_def release_def)
  show ?thesis
  proof (cases "oc_network oc \<and> ok \<and> oc_reactor oc")
    case False
    have "run getaddrinfo read_file oc opts cs s = fail1 (if oc_network oc then s1 else s0)"
      using False g(1) by (auto simp: run_def s0_def [symmetric] s1_def Let_def)
    moreover have "holds s0 (password_held s0)" using f0 by (simp add: holds_def password_held_def)
    ultimately show ?thesis using early [of s0] early [of s1] s1 f0 by (cases "oc_network oc") simp_all
  next
    case True
    define s2 where "s2 = acquire Reactor (s1\<lparr>ap_exiting := False, ap_quitting := False\<rparr>)"
    have s2: "holds s2 (Reactor # password_held s2)" "\<not> ap_signal_initialized s2" "ap_udp s2 = None" "ap_settings s2 = g"
      using s1 by (simp_all add: s2_def password_held_def)
    have e: "run getaddrinfo read_file oc opts cs s = (if op_set_signal opts
        then if \<not> oc_signal oc then fail2 s2
          else run_device oc opts cs (acquire Signals (s2\<lparr>ap_signal_initialized := True, ap_signal_finished := False\<rparr>))
        else run_device oc opts cs s2)"
      using True g(1) s1(4) by (simp add: run_def s0_def [symmetric] s1_def s2_def Let_def)
    show ?thesis
    proof (cases "op_set_signal opts")
      case sig: True
      define s3 where "s3 = acquire Signals (s2\<lparr>ap_signal_initialized := True, ap_signal_finished := False\<rparr>)"
      define mtu where "mtu = (if op_tun_fd opts \<noteq> 0 then op_tun_mtu opts else oc_device_mtu oc)"
      have d: "0 \<le> mtu" "mtu \<le> INT_MAX" "\<forall>buf. oc_write_buf oc = Some buf \<longrightarrow> int (length buf) = mtu"
        using env(2) by (simp_all add: device_ok_def Let_def mtu_def)
      have "balanced (run_device oc opts cs s3)"
      proof (rule run_device_ok [OF _ _ _ mtu_def d(1,2)])
        show "starting oc opts (s3\<lparr>ap_mtu := mtu\<rparr>)"
          using g(2) True d(3) opts(4) s2(4) by (simp add: starting_def signals_ready_def s3_def s2_def)
        show "holds s3 (Signals # Reactor # password_held s3)" using s2(1) by (simp add: s3_def password_held_def)
        show "ap_udp s3 = None" using s2(3) by (simp add: s3_def)
        show "count_ok (op_udpgw_connection_buffer_size opts)" using c by blast
      qed
      with e sig fail2_ok [OF s2(1)] show ?thesis by (simp add: s3_def)
    next
      case False
      with e run_device_unset [OF s2(2)] show ?thesis by simp
    qed
  qed
qed

text \<open>
  C3. The program from the options to the end. With the options of any command line that does not ask for \<^verbatim>\<open>append_source_to_username\<close> (with
  which a freed string can be read: C39), whatever fails on the way up and whatever happens in the event loop to the TCP clients,
  the UDP path, the device, the timer and the signals, \<^verbatim>\<open>run\<close> fails no assertion of any component, and when it
  returns it has released exactly what it had acquired, in the reverse order. One thing must not happen: that a send buffer of more than 2 GiB is
  allocated for a UDP connection (\<^verbatim>\<open>memory_ok\<close>, part of what may happen to the UDP path), which a huge \<^verbatim>\<open>udpgw_connection_buffer_size\<close> asks for. With the options that the Java side passes, where
  \<^verbatim>\<open>set_signal\<close> is 0, it does so too as long as the reactor was not created; once it was, \<^verbatim>\<open>run\<close> never returns properly, because \<^verbatim>\<open>BSignal_Finish\<close>
  asserts that the signal handler was set up.
\<close>

theorem run_balanced:
  assumes "configured opts" "\<not> op_help opts" "\<not> op_version opts" "\<not> op_append_source_to_username opts"
    and "resolves getaddrinfo" "device_ok oc opts" "fresh s"
  shows "(op_set_signal opts \<longrightarrow> run getaddrinfo read_file oc opts cs s \<noteq> None) \<and>
    (\<forall>s'. run getaddrinfo read_file oc opts cs s = Some (True, s') \<longrightarrow> replay (ap_trace s') [] = Some [] \<and>
      (\<not> op_set_signal opts \<longrightarrow> Acquired Reactor \<notin> set (ap_trace s')))"
  using run_cases [OF assms, of read_file cs] by (auto simp: balanced_def holds_def)


section \<open>A run\<close>

definition example_resolver :: resolver where
  "example_resolver family numeric s = (if family = AF_INET then Some [10, 0, 0, 1] else None)"

definition example_options :: options where
  "example_options = (init_arguments [] 1500 ''tun2socks'')\<lparr>op_netif_ipaddr := Some ''a'', op_netif_netmask := Some ''m'',
     op_socks_server_addr := Some ''s:1080'', op_username := Some ''u'', op_password_file := Some ''f''\<rparr>"

definition example_outcomes :: outcomes where
  "example_outcomes = \<lparr>oc_network = True, oc_reactor = True, oc_signal = True, oc_device = True, oc_device_mtu = 2, oc_read_buffer = True,
     oc_udpgw_mem = sug_raw, oc_socks_mem = socks_run0 (su_socks_client sug_raw), oc_connector = True, oc_write_buf = Some [0, 0]\<rparr>"

definition example_app :: app where
  "example_app = \<lparr>ap_settings = \<lparr>se_netif_ipaddr = BIPAddr_NONE, se_netif_netmask = BIPAddr_NONE, se_netif_ip6addr = replicate 16 0,
       se_socks_server_addr = BAddr_NONE, se_socks_auth_info = [], se_password_file_contents = None, se_udpgw_remote_server_addr = BAddr_NONE\<rparr>,
     ap_signal_initialized = False, ap_signal_finished = False, ap_quitting = False, ap_exiting = False, ap_mtu = 0, ap_udp_mtu = 0, ap_udp = None,
     ap_job_set = False, ap_timer_set = False, ap_have_netif = False, ap_listener = False, ap_listener_ip6 = False,
     ap_tcp = clients_init None False [], ap_trace = []\<rparr>"

definition example_callbacks :: "callback list" where
  "example_callbacks = [Lwip_init \<lparr>lw_netif_add = True, lw_tcp_new = True, lw_bind = True, lw_listen = True, lw_tcp_new_ip6 = True, lw_bind_ip6 = True,
       lw_listen_ip6 = True\<rparr>, Timer_expired False, Signal_received, Timer_expired True]"

lemma example_run: "(case run example_resolver (\<lambda>_. Some [7]) example_outcomes example_options example_callbacks example_app of
    Some (r, s) \<Rightarrow> r \<and> length (ap_trace s) = 22 | None \<Rightarrow> False)"
  by code_simp

lemma example_configured: "configured example_options"
proof -
  have d: "distinct ([] :: string list)" by simp
  have "options_ok [] 1500 example_options" "arguments_complete example_options"
    by (simp_all add: example_options_def options_ok_def arguments_complete_def init_arguments_def loglevel_ok_def count_ok_def)
  from render_parsed [OF d this, of "[]"] show ?thesis unfolding configured_def by blast
qed

theorem run_balanced_witness:
  "\<exists>s'. run example_resolver (\<lambda>_. Some [7]) example_outcomes example_options example_callbacks example_app = Some (True, s') \<and>
     length (ap_trace s') = 22 \<and> replay (ap_trace s') [] = Some []"
proof -
  obtain s' where s': "run example_resolver (\<lambda>_. Some [7]) example_outcomes example_options example_callbacks example_app = Some (True, s')"
    "length (ap_trace s') = 22" using example_run by (auto split: option.splits)
  have o: "\<not> op_help example_options" "\<not> op_version example_options" "\<not> op_append_source_to_username example_options"
    "op_tun_fd example_options = 0" by (simp_all add: example_options_def init_arguments_def)
  have e: "resolves example_resolver" "device_ok example_outcomes example_options" "fresh example_app"
    using o by (simp_all add: resolves_def example_resolver_def device_ok_def example_outcomes_def fresh_def example_app_def)
  show ?thesis using s' run_balanced [OF example_configured o(1-3) e, of "\<lambda>_. Some [7]" example_callbacks] by auto
qed

end
