(* ===== verification/Reactor.thy ===== *)
theory Reactor
  imports BPending BSize SearchTree
begin

text \<open>
  system/BReactor_badvpn.c, the event loop, in the variant of the Android build (epoll): jobs, timers, file descriptors and limits. The system
  calls are parameters: what \<^verbatim>\<open>btime_gettime\<close> and \<^verbatim>\<open>epoll_wait\<close> return. Timers, file descriptors and limits are addressed by numbers; the maps hold
  the live ones. The timers tree is given by its contract (theory \<^verbatim>\<open>SearchTree\<close>), the intrusive lists by their entries. A
  call of a handler is a result. The debug counters of descriptors and limits, which \<^verbatim>\<open>BReactor_Free\<close> looks at, are left out.
\<close>

section \<open>State\<close>

abbreviation (input) INT64_MAX :: int where "INT64_MAX \<equiv> 9223372036854775807"
abbreviation (input) INT64_MIN :: int where "INT64_MIN \<equiv> - 9223372036854775808"

datatype timer_state = TIMER_STATE_INACTIVE | TIMER_STATE_RUNNING | TIMER_STATE_EXPIRED

text \<open>\<open>bt_msTime\<close> is the duration of a \<^verbatim>\<open>BTimer\<close>; a timer without is a \<^verbatim>\<open>BSmallTimer\<close> only.\<close>

record BSmallTimer =
  bt_absTime :: int
  bt_state :: timer_state
  bt_msTime :: "int option"

text \<open>\<open>fd_returned\<close> is the place among the results of epoll that \<^verbatim>\<open>epoll_returned_ptr\<close> points to.\<close>

record BFileDescriptor =
  fd_active :: bool
  fd_waitEvents :: "32 word"
  fd_returned :: "nat option"

record BReactorLimit =
  li_limit :: int
  li_count :: int

text \<open>\<open>re_results\<close> is the part of the array \<^verbatim>\<open>epoll_results\<close> that is in use, with the pointer and the events of each entry.\<close>

record ('h, 'u) BReactor =
  re_exiting :: bool
  re_exit_code :: int
  re_jobs :: "('h, 'u) BPendingGroup"
  re_timers :: "nat \<rightharpoonup> BSmallTimer"
  re_tree :: "nat list"
  re_expired :: "nat list"
  re_limits :: "nat \<rightharpoonup> BReactorLimit"
  re_active :: "nat list"
  re_fds :: "nat \<rightharpoonup> BFileDescriptor"
  re_results :: "(nat option \<times> 32 word) list"
  re_pos :: nat

text \<open>The result says whether \<^verbatim>\<open>epoll_create\<close> succeeded.\<close>

definition BReactor_Init :: "bool \<Rightarrow> (bool \<times> ('h, 'u) BReactor)" where
  "BReactor_Init epoll_create_ok = (epoll_create_ok, \<lparr>re_exiting = False, re_exit_code = 0, re_jobs = BPendingGroup_Init, re_timers = (\<lambda>_. None),
     re_tree = [], re_expired = [], re_limits = (\<lambda>_. None), re_active = [], re_fds = (\<lambda>_. None), re_results = [], re_pos = 0\<rparr>)"

definition BReactor_Free :: "('h, 'u) BReactor \<Rightarrow> unit option" where
  "BReactor_Free re = do {
     ASSERT (\<not> BPendingGroup_HasJobs (re_jobs re));
     ASSERT (re_tree re = []);
     ASSERT (re_expired re = []);
     ASSERT (re_active re = []);
     BPendingGroup_Free (re_jobs re)
   }"

definition BReactor_Quit :: "int \<Rightarrow> ('h, 'u) BReactor \<Rightarrow> ('h, 'u) BReactor" where
  "BReactor_Quit code re = re\<lparr>re_exiting := True, re_exit_code := code\<rparr>"

section \<open>Time and timers\<close>

definition add_int64_overflows :: "int \<Rightarrow> int \<Rightarrow> int" where
  "add_int64_overflows a b =
     (if (a < 0) \<noteq> (b < 0) then 0
      else if a < 0 then (if a < INT64_MIN - b then -1 else 0)
      else (if a > INT64_MAX - b then 1 else 0))"

definition btime_add :: "int \<Rightarrow> int \<Rightarrow> int" where
  "btime_add t1 t2 = (let overflows = add_int64_overflows t1 t2 in
     if overflows \<noteq> 0 then (if overflows > 0 then INT64_MAX else INT64_MIN) else t1 + t2)"

fun compare_timers :: "int \<times> nat \<Rightarrow> int \<times> nat \<Rightarrow> int" where
  "compare_timers (absTime1, t1) (absTime2, t2) =
     (let cmp = B_COMPARE absTime1 absTime2 in if cmp \<noteq> 0 then cmp else B_COMPARE t1 t2)"

text \<open>What the comparator reads of a timer: its time and its address.\<close>

definition timer_key :: "(nat \<rightharpoonup> BSmallTimer) \<Rightarrow> nat \<Rightarrow> int \<times> nat" where
  "timer_key timers t = ((case timers t of Some bt \<Rightarrow> bt_absTime bt | None \<Rightarrow> 0), t)"

definition BSmallTimer_Init :: "nat \<Rightarrow> ('h, 'u) BReactor \<Rightarrow> ('h, 'u) BReactor" where
  "BSmallTimer_Init t re = re\<lparr>re_timers := (re_timers re)(t \<mapsto> \<lparr>bt_absTime = 0, bt_state = TIMER_STATE_INACTIVE, bt_msTime = None\<rparr>)\<rparr>"

definition BTimer_Init :: "nat \<Rightarrow> int \<Rightarrow> ('h, 'u) BReactor \<Rightarrow> ('h, 'u) BReactor" where
  "BTimer_Init t msTime re =
     re\<lparr>re_timers := (re_timers re)(t \<mapsto> \<lparr>bt_absTime = 0, bt_state = TIMER_STATE_INACTIVE, bt_msTime = Some msTime\<rparr>)\<rparr>"

definition BSmallTimer_IsRunning :: "nat \<Rightarrow> ('h, 'u) BReactor \<Rightarrow> bool option" where
  "BSmallTimer_IsRunning t re = map_option (\<lambda>bt. bt_state bt \<noteq> TIMER_STATE_INACTIVE) (re_timers re t)"

definition BTimer_IsRunning :: "nat \<Rightarrow> ('h, 'u) BReactor \<Rightarrow> bool option" where
  "BTimer_IsRunning t re = BSmallTimer_IsRunning t re"

definition BReactor_PendingGroup :: "('h, 'u) BReactor \<Rightarrow> ('h, 'u) BPendingGroup" where
  "BReactor_PendingGroup re = re_jobs re"

definition BReactor_RemoveSmallTimer :: "nat \<Rightarrow> ('h, 'u) BReactor \<Rightarrow> ('h, 'u) BReactor option" where
  "BReactor_RemoveSmallTimer t re = do {
     bt \<leftarrow> re_timers re t;
     if bt_state bt = TIMER_STATE_INACTIVE then Some re
     else do {
       let re = (if bt_state bt = TIMER_STATE_EXPIRED then re\<lparr>re_expired := remove1 t (re_expired re)\<rparr>
                 else re\<lparr>re_tree := tree_remove t (re_tree re)\<rparr>);
       Some (re\<lparr>re_timers := (re_timers re)(t \<mapsto> bt\<lparr>bt_state := TIMER_STATE_INACTIVE\<rparr>)\<rparr>)
     }
   }"

datatype timer_mode = BTIMER_SET_ABSOLUTE | BTIMER_SET_RELATIVE

text \<open>\<open>now\<close> is what \<^verbatim>\<open>btime_gettime\<close> returns.\<close>

definition BReactor_SetSmallTimer :: "int \<Rightarrow> nat \<Rightarrow> timer_mode \<Rightarrow> int \<Rightarrow> ('h, 'u) BReactor \<Rightarrow> ('h, 'u) BReactor option" where
  "BReactor_SetSmallTimer now t mode time re = do {
     re \<leftarrow> BReactor_RemoveSmallTimer t re;
     let time = (if mode = BTIMER_SET_RELATIVE then btime_add now time else time);
     bt \<leftarrow> re_timers re t;
     let re = re\<lparr>re_timers := (re_timers re)(t \<mapsto> bt\<lparr>bt_absTime := time, bt_state := TIMER_STATE_RUNNING\<rparr>)\<rparr>;
     tree \<leftarrow> tree_insert (\<lambda>t1 t2. compare_timers (timer_key (re_timers re) t1) (timer_key (re_timers re) t2)) t (re_tree re);
     Some (re\<lparr>re_tree := tree\<rparr>)
   }"

definition BReactor_SetTimer :: "int \<Rightarrow> nat \<Rightarrow> ('h, 'u) BReactor \<Rightarrow> ('h, 'u) BReactor option" where
  "BReactor_SetTimer now t re = do {
     bt \<leftarrow> re_timers re t;
     msTime \<leftarrow> bt_msTime bt;
     BReactor_SetSmallTimer now t BTIMER_SET_RELATIVE msTime re
   }"

definition BReactor_SetTimerAfter :: "int \<Rightarrow> nat \<Rightarrow> int \<Rightarrow> ('h, 'u) BReactor \<Rightarrow> ('h, 'u) BReactor option" where
  "BReactor_SetTimerAfter now t after re = BReactor_SetSmallTimer now t BTIMER_SET_RELATIVE after re"

definition BReactor_SetTimerAbsolute :: "int \<Rightarrow> nat \<Rightarrow> int \<Rightarrow> ('h, 'u) BReactor \<Rightarrow> ('h, 'u) BReactor option" where
  "BReactor_SetTimerAbsolute now t time re = BReactor_SetSmallTimer now t BTIMER_SET_ABSOLUTE time re"

definition BReactor_RemoveTimer :: "nat \<Rightarrow> ('h, 'u) BReactor \<Rightarrow> ('h, 'u) BReactor option" where
  "BReactor_RemoveTimer t re = BReactor_RemoveSmallTimer t re"

section \<open>File descriptors\<close>

abbreviation (input) BREACTOR_READ :: "32 word" where "BREACTOR_READ \<equiv> 1"
abbreviation (input) BREACTOR_WRITE :: "32 word" where "BREACTOR_WRITE \<equiv> 2"
abbreviation (input) BREACTOR_ERROR :: "32 word" where "BREACTOR_ERROR \<equiv> 4"
abbreviation (input) BREACTOR_HUP :: "32 word" where "BREACTOR_HUP \<equiv> 8"
abbreviation (input) EPOLLIN :: "32 word" where "EPOLLIN \<equiv> 1"
abbreviation (input) EPOLLOUT :: "32 word" where "EPOLLOUT \<equiv> 4"
abbreviation (input) EPOLLERR :: "32 word" where "EPOLLERR \<equiv> 8"
abbreviation (input) EPOLLHUP :: "32 word" where "EPOLLHUP \<equiv> 16"

text \<open>The pointer of a descriptor that was not added yet has no meaning; \<open>None\<close> stands for it here.\<close>

definition BFileDescriptor_Init :: "nat \<Rightarrow> ('h, 'u) BReactor \<Rightarrow> ('h, 'u) BReactor" where
  "BFileDescriptor_Init i re = re\<lparr>re_fds := (re_fds re)(i \<mapsto> \<lparr>fd_active = False, fd_waitEvents = 0, fd_returned = None\<rparr>)\<rparr>"

definition BReactor_AddFileDescriptor :: "bool \<Rightarrow> nat \<Rightarrow> ('h, 'u) BReactor \<Rightarrow> (bool \<times> ('h, 'u) BReactor) option" where
  "BReactor_AddFileDescriptor epoll_ctl_ok i re = do {
     bs \<leftarrow> re_fds re i;
     ASSERT (\<not> fd_active bs);
     if \<not> epoll_ctl_ok then Some (False, re)
     else Some (True, re\<lparr>re_fds := (re_fds re)(i \<mapsto> \<lparr>fd_active = True, fd_waitEvents = 0, fd_returned = None\<rparr>)\<rparr>)
   }"

definition BReactor_RemoveFileDescriptor :: "nat \<Rightarrow> ('h, 'u) BReactor \<Rightarrow> ('h, 'u) BReactor option" where
  "BReactor_RemoveFileDescriptor i re = do {
     bs \<leftarrow> re_fds re i;
     ASSERT (fd_active bs);
     let re = re\<lparr>re_fds := (re_fds re)(i \<mapsto> bs\<lparr>fd_active := False\<rparr>)\<rparr>;
     (case fd_returned bs of
       None \<Rightarrow> Some re
     | Some k \<Rightarrow> do {
         ASSERT (k < length (re_results re));
         Some (re\<lparr>re_results := (re_results re)[k := (None, snd (re_results re ! k))]\<rparr>)
       })
   }"

definition BReactor_SetFileDescriptorEvents :: "nat \<Rightarrow> 32 word \<Rightarrow> ('h, 'u) BReactor \<Rightarrow> ('h, 'u) BReactor option" where
  "BReactor_SetFileDescriptorEvents i events re = do {
     bs \<leftarrow> re_fds re i;
     ASSERT (fd_active bs);
     ASSERT (and events (not (or BREACTOR_READ BREACTOR_WRITE)) = 0);
     if fd_waitEvents bs = events then Some re
     else Some (re\<lparr>re_fds := (re_fds re)(i \<mapsto> bs\<lparr>fd_waitEvents := events\<rparr>)\<rparr>)
   }"

text \<open>The events that are reported for what epoll returned.\<close>

definition reported_events :: "32 word \<Rightarrow> 32 word \<Rightarrow> 32 word" where
  "reported_events waitEvents events =
     or (if and waitEvents BREACTOR_READ \<noteq> 0 \<and> and events EPOLLIN \<noteq> 0 then BREACTOR_READ else 0)
     (or (if and waitEvents BREACTOR_WRITE \<noteq> 0 \<and> and events EPOLLOUT \<noteq> 0 then BREACTOR_WRITE else 0)
     (or (if and events EPOLLERR \<noteq> 0 then BREACTOR_ERROR else 0)
         (if and events EPOLLHUP \<noteq> 0 then BREACTOR_HUP else 0)))"

section \<open>Limits\<close>

definition BReactorLimit_Init :: "nat \<Rightarrow> int \<Rightarrow> ('h, 'u) BReactor \<Rightarrow> ('h, 'u) BReactor option" where
  "BReactorLimit_Init l limit re = do {
     ASSERT (limit > 0);
     Some (re\<lparr>re_limits := (re_limits re)(l \<mapsto> \<lparr>li_limit = limit, li_count = 0\<rparr>)\<rparr>)
   }"

definition BReactorLimit_Free :: "nat \<Rightarrow> ('h, 'u) BReactor \<Rightarrow> ('h, 'u) BReactor option" where
  "BReactorLimit_Free l re = do {
     li \<leftarrow> re_limits re l;
     let re = (if li_count li > 0 then re\<lparr>re_active := remove1 l (re_active re)\<rparr> else re);
     Some (re\<lparr>re_limits := (re_limits re)(l := None)\<rparr>)
   }"

definition BReactorLimit_Increment :: "nat \<Rightarrow> ('h, 'u) BReactor \<Rightarrow> (bool \<times> ('h, 'u) BReactor) option" where
  "BReactorLimit_Increment l re = do {
     li \<leftarrow> re_limits re l;
     if li_count li \<ge> li_limit li then Some (False, re)
     else do {
       let li = li\<lparr>li_count := li_count li + 1\<rparr>;
       let re = re\<lparr>re_limits := (re_limits re)(l \<mapsto> li)\<rparr>;
       Some (True, if li_count li = 1 then re\<lparr>re_active := re_active re @ [l]\<rparr> else re)
     }
   }"

definition BReactorLimit_SetLimit :: "nat \<Rightarrow> int \<Rightarrow> ('h, 'u) BReactor \<Rightarrow> ('h, 'u) BReactor option" where
  "BReactorLimit_SetLimit l limit re = do {
     ASSERT (limit > 0);
     li \<leftarrow> re_limits re l;
     Some (re\<lparr>re_limits := (re_limits re)(l \<mapsto> li\<lparr>li_limit := limit\<rparr>)\<rparr>)
   }"

function reset_limits :: "('h, 'u) BReactor \<Rightarrow> ('h, 'u) BReactor option" where
  "reset_limits re = (case re_active re of
       [] \<Rightarrow> Some re
     | l # ls \<Rightarrow> (case re_limits re l of
         None \<Rightarrow> None
       | Some li \<Rightarrow>
           if \<not> li_count li > 0 then None
           else reset_limits (re\<lparr>re_limits := (re_limits re)(l \<mapsto> li\<lparr>li_count := 0\<rparr>), re_active := ls\<rparr>)))"
  by pat_completeness auto
termination by (relation "measure (\<lambda>re. length (re_active re))") auto

declare reset_limits.simps [simp del]

section \<open>Waiting\<close>

text \<open>A timer goes from the tree to the end of the expired list.\<close>

definition expire_timer :: "nat \<Rightarrow> BSmallTimer \<Rightarrow> ('h, 'u) BReactor \<Rightarrow> ('h, 'u) BReactor" where
  "expire_timer t bt re = re\<lparr>re_tree := tree_remove t (re_tree re), re_expired := re_expired re @ [t],
     re_timers := (re_timers re)(t \<mapsto> bt\<lparr>bt_state := TIMER_STATE_EXPIRED\<rparr>)\<rparr>"

text \<open>The first timers of the tree while their time is at most \<open>now\<close>; whether there were any.\<close>

function move_expired_timers :: "int \<Rightarrow> ('h, 'u) BReactor \<Rightarrow> (bool \<times> ('h, 'u) BReactor) option" where
  "move_expired_timers now re = (case re_tree re of
       [] \<Rightarrow> Some (False, re)
     | t # _ \<Rightarrow> (case re_timers re t of
         None \<Rightarrow> None
       | Some bt \<Rightarrow>
           if bt_state bt \<noteq> TIMER_STATE_RUNNING then None
           else if bt_absTime bt > now then Some (False, re)
           else map_option (\<lambda>(_, re). (True, re)) (move_expired_timers now (expire_timer t bt re))))"
  by pat_completeness auto
termination by (relation "measure (\<lambda>(now, re). length (re_tree re))") (auto simp: expire_timer_def tree_remove_def)

declare move_expired_timers.simps [simp del]

text \<open>The loop of \<^verbatim>\<open>move_first_timers\<close>, which asserts in addition that no time is earlier.\<close>

function move_equal_timers :: "int \<Rightarrow> ('h, 'u) BReactor \<Rightarrow> ('h, 'u) BReactor option" where
  "move_equal_timers first_time re = (case re_tree re of
       [] \<Rightarrow> Some re
     | t # _ \<Rightarrow> (case re_timers re t of
         None \<Rightarrow> None
       | Some bt \<Rightarrow>
           if bt_state bt \<noteq> TIMER_STATE_RUNNING \<or> bt_absTime bt < first_time then None
           else if bt_absTime bt > first_time then Some re
           else move_equal_timers first_time (expire_timer t bt re)))"
  by pat_completeness auto
termination by (relation "measure (\<lambda>(first_time, re). length (re_tree re))") (auto simp: expire_timer_def tree_remove_def)

declare move_equal_timers.simps [simp del]

definition move_first_timers :: "('h, 'u) BReactor \<Rightarrow> ('h, 'u) BReactor option" where
  "move_first_timers re = (case re_tree re of
       [] \<Rightarrow> None
     | t # _ \<Rightarrow> do {
         bt \<leftarrow> re_timers re t;
         ASSERT (bt_state bt = TIMER_STATE_RUNNING);
         move_equal_timers (bt_absTime bt) (expire_timer t bt re)
       })"

fun set_epoll_fd_pointers :: "nat \<Rightarrow> (nat option \<times> 32 word) list \<Rightarrow> ('h, 'u) BReactor \<Rightarrow> ('h, 'u) BReactor option" where
  "set_epoll_fd_pointers k [] re = Some re"
| "set_epoll_fd_pointers k ((p, _) # events) re = do {
     i \<leftarrow> p;
     bfd \<leftarrow> re_fds re i;
     ASSERT (fd_active bfd);
     ASSERT (fd_returned bfd = None);
     set_epoll_fd_pointers (k + 1) events (re\<lparr>re_fds := (re_fds re)(i \<mapsto> bfd\<lparr>fd_returned := Some k\<rparr>)\<rparr>)
   }"

text \<open>
  The calls of \<^verbatim>\<open>epoll_wait\<close> of one wait: those that are interrupted or time out, with the time afterwards, until it returns descriptors
  \<open>we_events\<close>, at least one, if it comes to that. \<open>we_now\<close> is the time at the start.
\<close>

datatype attempt = Wait_interrupted int | Wait_timed_out int

fun attempt_time :: "attempt \<Rightarrow> int" where
  "attempt_time (Wait_interrupted n) = n"
| "attempt_time (Wait_timed_out n) = n"

record wait_env =
  we_now :: int
  we_attempts :: "attempt list"
  we_events :: "(nat \<times> 32 word) list"

text \<open>The label \<^verbatim>\<open>try_again\<close>: \<open>None\<close> when the wait is over because of a timer.\<close>

fun wait_loop :: "int option \<Rightarrow> int \<Rightarrow> attempt list \<Rightarrow> (nat \<times> 32 word) list \<Rightarrow> ('h, 'u) BReactor \<Rightarrow> ('h, 'u) BReactor option" where
  "wait_loop timeout now [] events re =
     (let results = map (\<lambda>(i, ev). (Some i, ev)) events in
      if events = [] \<or> length events > 64 then None
      else set_epoll_fd_pointers 0 results (re\<lparr>re_results := results\<rparr>))"
| "wait_loop None now (Wait_interrupted _ # as) events re = wait_loop None now as events re"
| "wait_loop None now (Wait_timed_out _ # as) events re = None"
| "wait_loop (Some timeout_abs) now (Wait_interrupted n # as) events re =
     (if n \<ge> timeout_abs then move_first_timers re else wait_loop (Some timeout_abs) n as events re)"
| "wait_loop (Some timeout_abs) now (Wait_timed_out n # as) events re =
     (let timeout_rel = timeout_abs - now;
          timeout_rel_trunc = (if timeout_rel > INT_MAX then INT_MAX else timeout_rel) in
      if timeout_rel_trunc = timeout_rel then move_first_timers re
      else if n \<ge> timeout_abs then move_first_timers re
      else wait_loop (Some timeout_abs) n as events re)"

definition wait_for_events :: "wait_env \<Rightarrow> ('h, 'u) BReactor \<Rightarrow> ('h, 'u) BReactor option" where
  "wait_for_events env re = do {
     ASSERT (\<not> BPendingGroup_HasJobs (re_jobs re));
     ASSERT (re_expired re = []);
     ASSERT (re_pos re = length (re_results re));
     let re = re\<lparr>re_results := [], re_pos := 0\<rparr>;
     case re_tree re of
       [] \<Rightarrow> do {
         re \<leftarrow> wait_loop None 0 (we_attempts env) (we_events env) re;
         reset_limits re
       }
     | t # _ \<Rightarrow> do {
         first_timer \<leftarrow> re_timers re t;
         ASSERT (bt_state first_timer = TIMER_STATE_RUNNING);
         (moved, re) \<leftarrow> move_expired_timers (we_now env) re;
         if moved then Some re
         else do {
           re \<leftarrow> wait_loop (Some (bt_absTime first_timer)) (we_now env) (we_attempts env) (we_events env) re;
           reset_limits re
         }
       }
   }"

section \<open>The loop\<close>

text \<open>What one round of the loop of \<^verbatim>\<open>BReactor_Exec\<close> does: the handler it calls, if any.\<close>

datatype ('h, 'u) dispatched =
    Exits int
  | Runs_job 'h 'u
  | Runs_timer nat
  | Runs_fd nat "32 word"
  | Runs_nothing

definition dispatch_fd :: "('h, 'u) BReactor \<Rightarrow> (('h, 'u) dispatched \<times> ('h, 'u) BReactor) option" where
  "dispatch_fd re = (let (p, events) = re_results re ! re_pos re; pos = re_pos re; re = re\<lparr>re_pos := re_pos re + 1\<rparr> in
     (case p of
       None \<Rightarrow> Some (Runs_nothing, re)
     | Some i \<Rightarrow> do {
         bfd \<leftarrow> re_fds re i;
         ASSERT (fd_active bfd);
         ASSERT (fd_returned bfd = Some pos);
         let re = re\<lparr>re_fds := (re_fds re)(i \<mapsto> bfd\<lparr>fd_returned := None\<rparr>)\<rparr>;
         let ev = reported_events (fd_waitEvents bfd) events;
         Some (if ev = 0 then Runs_nothing else Runs_fd i ev, re)
       }))"

text \<open>Whether the next round waits for events.\<close>

definition waits :: "('h, 'u) BReactor \<Rightarrow> bool" where
  "waits re \<longleftrightarrow> \<not> re_exiting re \<and> \<not> BPendingGroup_HasJobs (re_jobs re) \<and> re_expired re = [] \<and> re_pos re = length (re_results re)"

definition dispatch :: "wait_env \<Rightarrow> ('h, 'u) BReactor \<Rightarrow> (('h, 'u) dispatched \<times> ('h, 'u) BReactor) option" where
  "dispatch env re =
     (if re_exiting re then Some (Exits (re_exit_code re), re)
      else if BPendingGroup_HasJobs (re_jobs re) then do {
        ((handler, user), jobs) \<leftarrow> BPendingGroup_ExecuteJob (re_jobs re);
        Some (Runs_job handler user, re\<lparr>re_jobs := jobs\<rparr>)
      }
      else (case re_expired re of
        t # ts \<Rightarrow> do {
          bt \<leftarrow> re_timers re t;
          ASSERT (bt_state bt = TIMER_STATE_EXPIRED);
          Some (Runs_timer t, re\<lparr>re_expired := ts, re_timers := (re_timers re)(t \<mapsto> bt\<lparr>bt_state := TIMER_STATE_INACTIVE\<rparr>)\<rparr>)
        }
      | [] \<Rightarrow>
          if re_pos re < length (re_results re) then dispatch_fd re
          else map_option (\<lambda>re. (Runs_nothing, re)) (wait_for_events env re)))"

text \<open>One round of \<^verbatim>\<open>BReactor_Synchronize\<close>: whether it is over, and with which result.\<close>

definition synchronize :: "nat \<Rightarrow> ('h, 'u) BReactor \<Rightarrow> (bool option \<times> ('h, 'u) BReactor) option" where
  "synchronize ref re =
     (if re_exiting re then Some (Some False, re)
      else do {
        ASSERT (BPendingGroup_HasJobs (re_jobs re));
        if BPendingGroup_PeekJob (re_jobs re) = Some ref then Some (Some True, re)
        else do {
          (_, jobs) \<leftarrow> BPendingGroup_ExecuteJob (re_jobs re);
          Some (None, re\<lparr>re_jobs := jobs\<rparr>)
        }
      })"
section \<open>Timers\<close>

lemma compare_timers_less: "compare_timers (a, s) (b, t) < 0 \<longleftrightarrow> a < b \<or> a = b \<and> s < t"
  by (simp add: Let_def)

interpretation timer_order: comparator compare_timers "\<lambda>_. True"
proof unfold_locales
  fix x y z :: "int \<times> nat"
  show "compare_timers x y = 0 \<longleftrightarrow> x = y" by (cases x; cases y) (auto simp: Let_def)
  show "compare_timers y x = - compare_timers x y" by (cases x; cases y) (auto simp: Let_def B_COMPARE_def)
  assume "compare_timers x y < 0" "compare_timers y z < 0"
  then show "compare_timers x z < 0" by (cases x; cases y; cases z) (auto simp: compare_timers_less simp del: compare_timers.simps)
qed

definition timers_inv :: "int \<Rightarrow> (nat \<rightharpoonup> BSmallTimer) \<Rightarrow> nat list \<Rightarrow> nat list \<Rightarrow> bool" where
  "timers_inv c timers tree expired \<longleftrightarrow> ordered_by compare_timers (timer_key timers) tree \<and> distinct tree \<and> distinct expired \<and>
     (\<forall>t. t \<in> set tree \<longleftrightarrow> (\<exists>bt. timers t = Some bt \<and> bt_state bt = TIMER_STATE_RUNNING)) \<and>
     (\<forall>t. t \<in> set expired \<longleftrightarrow> (\<exists>bt. timers t = Some bt \<and> bt_state bt = TIMER_STATE_EXPIRED)) \<and>
     (\<forall>t \<in> set expired. \<forall>bt. timers t = Some bt \<longrightarrow> bt_absTime bt \<le> c)"

abbreviation tinv :: "int \<Rightarrow> ('h, 'u) BReactor \<Rightarrow> bool" where
  "tinv c re \<equiv> timers_inv c (re_timers re) (re_tree re) (re_expired re)"

lemma timers_inv_later: "timers_inv c tm tr ex \<Longrightarrow> c \<le> c' \<Longrightarrow> timers_inv c' tm tr ex"
  unfolding timers_inv_def by force

lemma timers_inv_head:
  assumes "timers_inv c tm (t # ts) ex"
  obtains bt where "tm t = Some bt" "bt_state bt = TIMER_STATE_RUNNING" "\<forall>x\<in>set ts. \<forall>b. tm x = Some b \<longrightarrow> bt_absTime bt \<le> bt_absTime b"
proof -
  obtain bt where bt: "tm t = Some bt" "bt_state bt = TIMER_STATE_RUNNING" using assms unfolding timers_inv_def by (metis list.set_intros(1))
  have "\<forall>x\<in>set ts. compare_timers (timer_key tm t) (timer_key tm x) < 0" using assms by (simp add: timers_inv_def ordered_by_def)
  then have "\<forall>x\<in>set ts. \<forall>b. tm x = Some b \<longrightarrow> bt_absTime bt \<le> bt_absTime b"
    using bt(1) by (fastforce simp: timer_key_def Let_def split: if_splits)
  with bt show thesis by (rule that)
qed

lemma ordered_by_upd:
  assumes "ordered_by compare_timers (timer_key tm) tree" "t \<notin> set tree"
  shows "ordered_by compare_timers (timer_key (tm(t \<mapsto> bt))) tree"
proof -
  have "\<forall>n\<in>set tree. timer_key tm n = timer_key (tm(t \<mapsto> bt)) n" using assms(2) by (auto simp: timer_key_def)
  from ordered_by_cong [OF this, of compare_timers] assms(1) show ?thesis by simp
qed

text \<open>A timer that is made inactive, wherever it is.\<close>

lemma timers_inv_stop:
  assumes i: "timers_inv c tm tree ex" and t: "tm t = Some bt"
  shows "timers_inv c (tm(t \<mapsto> bt\<lparr>bt_state := TIMER_STATE_INACTIVE\<rparr>)) (remove1 t tree) (remove1 t ex)"
proof -
  have d: "distinct tree" "distinct ex" using i unfolding timers_inv_def by blast+
  have "ordered_by compare_timers (timer_key tm) (remove1 t tree)"
    using i ordered_by_remove [of compare_timers "timer_key tm" tree t] by (simp add: timers_inv_def tree_remove_def)
  moreover have "t \<notin> set (remove1 t tree)" using d by simp
  ultimately have "ordered_by compare_timers (timer_key (tm(t \<mapsto> bt\<lparr>bt_state := TIMER_STATE_INACTIVE\<rparr>))) (remove1 t tree)"
    by (rule ordered_by_upd)
  moreover have "\<forall>x\<in>set (remove1 t ex). \<forall>b. (tm(t \<mapsto> bt\<lparr>bt_state := TIMER_STATE_INACTIVE\<rparr>)) x = Some b \<longrightarrow> bt_absTime b \<le> c"
    using i d unfolding timers_inv_def by (auto split: if_splits)
  ultimately show ?thesis using i t d unfolding timers_inv_def by auto
qed

lemma remove_timer_ok:
  assumes i: "tinv c re" and t: "re_timers re t = Some bt"
  shows "BReactor_RemoveSmallTimer t re = Some (re\<lparr>re_timers := (re_timers re)(t \<mapsto> bt\<lparr>bt_state := TIMER_STATE_INACTIVE\<rparr>),
    re_tree := remove1 t (re_tree re), re_expired := remove1 t (re_expired re)\<rparr>)"
proof (cases "bt_state bt")
  case TIMER_STATE_INACTIVE
  then have "t \<notin> set (re_tree re)" "t \<notin> set (re_expired re)" using i t unfolding timers_inv_def by auto
  then have "remove1 t (re_tree re) = re_tree re" "remove1 t (re_expired re) = re_expired re" by (simp_all add: remove1_idem)
  moreover have "(re_timers re)(t \<mapsto> bt\<lparr>bt_state := TIMER_STATE_INACTIVE\<rparr>) = re_timers re"
    using t TIMER_STATE_INACTIVE by (intro ext) (cases bt, simp)
  ultimately show ?thesis using t TIMER_STATE_INACTIVE by (simp add: BReactor_RemoveSmallTimer_def)
next
  case TIMER_STATE_RUNNING
  then have "t \<notin> set (re_expired re)" using i t unfolding timers_inv_def by auto
  with TIMER_STATE_RUNNING t show ?thesis by (simp add: BReactor_RemoveSmallTimer_def remove1_idem tree_remove_def)
next
  case TIMER_STATE_EXPIRED
  then have "t \<notin> set (re_tree re)" using i t unfolding timers_inv_def by auto
  with TIMER_STATE_EXPIRED t show ?thesis by (simp add: BReactor_RemoveSmallTimer_def remove1_idem)
qed

lemma set_timer_ok:
  assumes i: "tinv c re" and t: "re_timers re t = Some bt"
  shows "\<exists>tm tr ex. BReactor_SetSmallTimer now t mode time re = Some (re\<lparr>re_timers := tm, re_tree := tr, re_expired := ex\<rparr>) \<and>
    timers_inv c tm tr ex"
proof -
  define T where "T = (if mode = BTIMER_SET_RELATIVE then btime_add now time else time)"
  define tm1 where "tm1 = (re_timers re)(t \<mapsto> bt\<lparr>bt_state := TIMER_STATE_INACTIVE\<rparr>)"
  define tm where "tm = (re_timers re)(t \<mapsto> bt\<lparr>bt_absTime := T, bt_state := TIMER_STATE_RUNNING\<rparr>)"
  let ?tr = "remove1 t (re_tree re)" and ?ex = "remove1 t (re_expired re)"
  have i1: "timers_inv c tm1 ?tr ?ex" using timers_inv_stop [OF i t] by (simp add: tm1_def)
  have n: "t \<notin> set ?tr" "t \<notin> set ?ex" using i unfolding timers_inv_def by simp_all
  have eq: "tm = tm1(t \<mapsto> bt\<lparr>bt_absTime := T, bt_state := TIMER_STATE_RUNNING\<rparr>)" by (simp add: tm_def tm1_def)
  have o: "ordered_by compare_timers (timer_key tm) ?tr" using i1 n(1) unfolding timers_inv_def eq by (blast intro: ordered_by_upd)
  have inj: "timer_key tm t \<notin> timer_key tm ` set ?tr" using n(1) by (auto simp: timer_key_def)
  obtain tr where tr: "tree_insert (\<lambda>m n. compare_timers (timer_key tm m) (timer_key tm n)) t ?tr = Some tr"
    "ordered_by compare_timers (timer_key tm) tr" "set tr = insert t (set ?tr)"
    using timer_order.tree_insert_spec [OF o _ _ inj] by auto
  have d: "distinct tr" using timer_order.ordered_distinct(1) [OF tr(2)] by simp
  have "timers_inv c tm tr ?ex" using i1 n tr(2,3) d unfolding timers_inv_def eq by (auto split: if_splits)
  moreover have "BReactor_SetSmallTimer now t mode time re = Some (re\<lparr>re_timers := tm, re_tree := tr, re_expired := ?ex\<rparr>)"
    using tr(1) by (simp add: BReactor_SetSmallTimer_def remove_timer_ok [OF i t] T_def [symmetric] tm_def Let_def)
  ultimately show ?thesis by blast
qed

lemma expire_ok:
  assumes i: "tinv c re" and tr: "re_tree re = t # ts" and t: "re_timers re t = Some bt" "bt_absTime bt \<le> c"
  shows "tinv c (expire_timer t bt re)"
proof -
  obtain b where "re_timers re t = Some b" "bt_state b = TIMER_STATE_RUNNING" using timers_inv_head i [unfolded tr] by metis
  with t(1) have r: "bt_state bt = TIMER_STATE_RUNNING" by simp
  then have n: "t \<notin> set ts" "t \<notin> set (re_expired re)" using i tr t(1) unfolding timers_inv_def by auto
  have "ordered_by compare_timers (timer_key (re_timers re)) ts" using i tr by (simp add: timers_inv_def ordered_by_def)
  from ordered_by_upd [OF this n(1)] have "ordered_by compare_timers (timer_key ((re_timers re)(t \<mapsto> bt\<lparr>bt_state := TIMER_STATE_EXPIRED\<rparr>))) ts" .
  then show ?thesis using i tr t n r unfolding timers_inv_def by (auto simp: expire_timer_def tree_remove_def split: if_splits)
qed

text \<open>Only the timers change.\<close>

definition timers_only :: "('h, 'u) BReactor \<Rightarrow> ('h, 'u) BReactor \<Rightarrow> bool" where
  "timers_only re re' \<longleftrightarrow> (\<exists>tm tr ex. re' = re\<lparr>re_timers := tm, re_tree := tr, re_expired := ex\<rparr>)"

lemma timers_only_refl: "timers_only re re"
  unfolding timers_only_def by (intro exI [of _ "re_timers re"] exI [of _ "re_tree re"] exI [of _ "re_expired re"]) simp

lemma timers_only_expire: "timers_only (expire_timer t bt re) re' \<Longrightarrow> timers_only re re'"
  unfolding timers_only_def by (auto simp: expire_timer_def)

lemma move_expired_ok: "tinv c re \<Longrightarrow> now \<le> c \<Longrightarrow> \<exists>m re'. move_expired_timers now re = Some (m, re') \<and> tinv c re' \<and> timers_only re re'"
proof (induction now re rule: move_expired_timers.induct)
  case (1 now re)
  show ?case
  proof (cases "re_tree re")
    case Nil
    then show ?thesis using 1(2) timers_only_refl [of re] by (subst move_expired_timers.simps) auto
  next
    case (Cons t ts)
    then obtain bt where bt: "re_timers re t = Some bt" "bt_state bt = TIMER_STATE_RUNNING" using timers_inv_head 1(2) by metis
    show ?thesis
    proof (cases "bt_absTime bt > now")
      case True
      then show ?thesis using 1(2) Cons bt timers_only_refl [of re] by (subst move_expired_timers.simps) auto
    next
      case False
      have "tinv c (expire_timer t bt re)" using expire_ok [OF 1(2) Cons bt(1)] False 1(3) by simp
      from 1(1) [OF Cons bt(1) _ False this 1(3)] bt(2) obtain m re' where
        "move_expired_timers now (expire_timer t bt re) = Some (m, re')" "tinv c re'" "timers_only (expire_timer t bt re) re'" by auto
      then show ?thesis using Cons bt False timers_only_expire by (subst move_expired_timers.simps) auto
    qed
  qed
qed

lemma move_equal_ok:
  "tinv c re \<Longrightarrow> T \<le> c \<Longrightarrow> \<forall>x\<in>set (re_tree re). \<forall>b. re_timers re x = Some b \<longrightarrow> T \<le> bt_absTime b \<Longrightarrow>
   \<exists>re'. move_equal_timers T re = Some re' \<and> tinv c re' \<and> timers_only re re'"
proof (induction T re rule: move_equal_timers.induct)
  case (1 T re)
  show ?case
  proof (cases "re_tree re")
    case Nil
    then show ?thesis using 1(2) timers_only_refl [of re] by (subst move_equal_timers.simps) simp
  next
    case (Cons t ts)
    then obtain bt where bt: "re_timers re t = Some bt" "bt_state bt = TIMER_STATE_RUNNING" using timers_inv_head 1(2) by metis
    have ge: "T \<le> bt_absTime bt" using 1(4) Cons bt(1) by simp
    show ?thesis
    proof (cases "bt_absTime bt > T")
      case True
      then show ?thesis using 1(2) Cons bt timers_only_refl [of re] by (subst move_equal_timers.simps) simp
    next
      case False
      have g: "\<not> (bt_state bt \<noteq> TIMER_STATE_RUNNING \<or> bt_absTime bt < T)" using bt(2) ge by simp
      have i: "tinv c (expire_timer t bt re)" using expire_ok [OF 1(2) Cons bt(1)] False 1(3) by simp
      have "t \<notin> set ts" using 1(2) Cons unfolding timers_inv_def by simp
      then have "\<forall>x\<in>set (re_tree (expire_timer t bt re)). \<forall>b. re_timers (expire_timer t bt re) x = Some b \<longrightarrow> T \<le> bt_absTime b"
        using 1(4) Cons by (auto simp: expire_timer_def tree_remove_def)
      from 1(1) [OF Cons bt(1) g False i 1(3) this] obtain re' where
        "move_equal_timers T (expire_timer t bt re) = Some re'" "tinv c re'" "timers_only (expire_timer t bt re) re'" by blast
      then show ?thesis using Cons bt False ge timers_only_expire by (subst move_equal_timers.simps) auto
    qed
  qed
qed

lemma move_first_ok:
  assumes i: "tinv c re" and tr: "re_tree re = t # ts" and t: "re_timers re t = Some bt" "bt_absTime bt \<le> c"
  shows "\<exists>re'. move_first_timers re = Some re' \<and> tinv c re' \<and> timers_only re re'"
proof -
  obtain b where "re_timers re t = Some b" "bt_state b = TIMER_STATE_RUNNING"
    "\<forall>x\<in>set ts. \<forall>b'. re_timers re x = Some b' \<longrightarrow> bt_absTime b \<le> bt_absTime b'"
    using timers_inv_head i [unfolded tr] by metis
  with t(1) have h: "bt_state bt = TIMER_STATE_RUNNING" "\<forall>x\<in>set ts. \<forall>b'. re_timers re x = Some b' \<longrightarrow> bt_absTime bt \<le> bt_absTime b'" by auto
  have "t \<notin> set ts" using i tr unfolding timers_inv_def by simp
  then have "\<forall>x\<in>set (re_tree (expire_timer t bt re)). \<forall>b. re_timers (expire_timer t bt re) x = Some b \<longrightarrow> bt_absTime bt \<le> bt_absTime b"
    using h(2) tr by (auto simp: expire_timer_def tree_remove_def)
  from move_equal_ok [OF expire_ok [OF i tr t] t(2) this] obtain re' where
    "move_equal_timers (bt_absTime bt) (expire_timer t bt re) = Some re'" "tinv c re'" "timers_only (expire_timer t bt re) re'" by blast
  then show ?thesis using tr t(1) h(1) timers_only_expire by (auto simp: move_first_timers_def)
qed
section \<open>File descriptors\<close>

text \<open>The results that are still to be dispatched and the descriptors point to each other.\<close>

definition fds_inv :: "(nat \<rightharpoonup> BFileDescriptor) \<Rightarrow> (nat option \<times> 32 word) list \<Rightarrow> nat \<Rightarrow> bool" where
  "fds_inv fds results pos \<longleftrightarrow> pos \<le> length results \<and>
     (\<forall>k i. pos \<le> k \<and> k < length results \<and> fst (results ! k) = Some i \<longrightarrow> (\<exists>b. fds i = Some b \<and> fd_active b \<and> fd_returned b = Some k)) \<and>
     (\<forall>i b k. fds i = Some b \<and> fd_active b \<and> fd_returned b = Some k \<longrightarrow> pos \<le> k \<and> k < length results \<and> fst (results ! k) = Some i)"

lemma fds_inv_pointers:
  assumes "fds_inv fds results pos" "fds i = Some b" "fd_active b" "fd_returned b = Some k"
  shows "pos \<le> k" "k < length results" "fst (results ! k) = Some i"
  using assms unfolding fds_inv_def by blast+

lemma fds_inv_entry:
  assumes "fds_inv fds results pos" "pos \<le> k" "k < length results" "fst (results ! k) = Some i"
  obtains b where "fds i = Some b" "fd_active b" "fd_returned b = Some k"
  using assms unfolding fds_inv_def by blast

text \<open>A descriptor that is not active may change; an active one may change its events.\<close>

lemma fds_inv_inactive:
  assumes i: "fds_inv fds results pos" and a: "\<forall>b. fds i = Some b \<longrightarrow> \<not> fd_active b" and b: "case b of Some b \<Rightarrow> fd_returned b = None | None \<Rightarrow> True"
  shows "fds_inv (fds(i := b)) results pos"
  unfolding fds_inv_def
proof (intro conjI allI impI)
  show "pos \<le> length results" using i unfolding fds_inv_def by blast
  fix k j
  assume k: "pos \<le> k \<and> k < length results \<and> fst (results ! k) = Some j"
  then obtain b' where b': "fds j = Some b'" "fd_active b'" "fd_returned b' = Some k" using fds_inv_entry [OF i] by blast
  with a have "j \<noteq> i" by auto
  with b' show "\<exists>b'. (fds(i := b)) j = Some b' \<and> fd_active b' \<and> fd_returned b' = Some k" by simp
next
  fix j b' k
  assume "(fds(i := b)) j = Some b' \<and> fd_active b' \<and> fd_returned b' = Some k"
  with b have "fds j = Some b'" "fd_active b'" "fd_returned b' = Some k" by (auto split: if_splits)
  from fds_inv_pointers [OF i this] show "pos \<le> k" "k < length results" "fst (results ! k) = Some j" .
qed

lemma fds_inv_events:
  assumes i: "fds_inv fds results pos" and b: "fds i = Some b"
  shows "fds_inv (fds(i \<mapsto> b\<lparr>fd_waitEvents := e\<rparr>)) results pos"
  unfolding fds_inv_def
proof (intro conjI allI impI)
  show "pos \<le> length results" using i unfolding fds_inv_def by blast
  fix k j
  assume "pos \<le> k \<and> k < length results \<and> fst (results ! k) = Some j"
  then obtain b' where "fds j = Some b'" "fd_active b'" "fd_returned b' = Some k" using fds_inv_entry [OF i] by blast
  with b show "\<exists>b'. (fds(i \<mapsto> b\<lparr>fd_waitEvents := e\<rparr>)) j = Some b' \<and> fd_active b' \<and> fd_returned b' = Some k" by auto
next
  fix j b' k
  assume "(fds(i \<mapsto> b\<lparr>fd_waitEvents := e\<rparr>)) j = Some b' \<and> fd_active b' \<and> fd_returned b' = Some k"
  then obtain b'' where "fds j = Some b''" "fd_active b''" "fd_returned b'' = Some k" using b by (auto split: if_splits)
  from fds_inv_pointers [OF i this] show "pos \<le> k" "k < length results" "fst (results ! k) = Some j" .
qed

lemma fds_inv_remove:
  assumes i: "fds_inv fds results pos" and b: "fds i = Some b" "fd_active b" "fd_returned b = Some k"
  shows "fds_inv (fds(i \<mapsto> b\<lparr>fd_active := False\<rparr>)) (results[k := (None, e)]) pos"
  unfolding fds_inv_def
proof (intro conjI allI impI)
  show "pos \<le> length (results[k := (None, e)])" using i unfolding fds_inv_def by simp
  fix n j
  assume n: "pos \<le> n \<and> n < length (results[k := (None, e)]) \<and> fst (results[k := (None, e)] ! n) = Some j"
  then have nk: "n \<noteq> k" by auto
  with n obtain b' where b': "fds j = Some b'" "fd_active b'" "fd_returned b' = Some n" using fds_inv_entry [OF i, of n j] by auto
  with nk b(1,3) have "j \<noteq> i" by auto
  with b' show "\<exists>b'. (fds(i \<mapsto> b\<lparr>fd_active := False\<rparr>)) j = Some b' \<and> fd_active b' \<and> fd_returned b' = Some n" by simp
next
  fix j b' n
  assume "(fds(i \<mapsto> b\<lparr>fd_active := False\<rparr>)) j = Some b' \<and> fd_active b' \<and> fd_returned b' = Some n"
  then have j: "j \<noteq> i" "fds j = Some b'" "fd_active b'" "fd_returned b' = Some n" by (auto split: if_splits)
  note p = fds_inv_pointers [OF i j(2-4)]
  have "n \<noteq> k" using p(3) fds_inv_pointers(3) [OF i b] j(1) by auto
  with p show "pos \<le> n" "n < length (results[k := (None, e)])" "fst (results[k := (None, e)] ! n) = Some j" by simp_all
qed

lemma fds_inv_unreturned:
  assumes i: "fds_inv fds results pos" and b: "fds i = Some b" "fd_returned b = None"
  shows "fds_inv (fds(i \<mapsto> b\<lparr>fd_active := False\<rparr>)) results pos"
  unfolding fds_inv_def
proof (intro conjI allI impI)
  show "pos \<le> length results" using i unfolding fds_inv_def by blast
  fix k j
  assume k: "pos \<le> k \<and> k < length results \<and> fst (results ! k) = Some j"
  then obtain b' where b': "fds j = Some b'" "fd_active b'" "fd_returned b' = Some k" using fds_inv_entry [OF i] by blast
  with b have "j \<noteq> i" by auto
  with b' show "\<exists>b'. (fds(i \<mapsto> b\<lparr>fd_active := False\<rparr>)) j = Some b' \<and> fd_active b' \<and> fd_returned b' = Some k" by simp
next
  fix j b' k
  assume "(fds(i \<mapsto> b\<lparr>fd_active := False\<rparr>)) j = Some b' \<and> fd_active b' \<and> fd_returned b' = Some k"
  then have "fds j = Some b'" "fd_active b'" "fd_returned b' = Some k" by (auto split: if_splits)
  from fds_inv_pointers [OF i this] show "pos \<le> k" "k < length results" "fst (results ! k) = Some j" .
qed

text \<open>An entry is dispatched.\<close>

lemma fds_inv_next:
  assumes i: "fds_inv fds results pos" and p: "pos < length results" "fst (results ! pos) = Some j" and b: "fds j = Some b"
  shows "fds_inv (fds(j \<mapsto> b\<lparr>fd_returned := None\<rparr>)) results (pos + 1)"
  unfolding fds_inv_def
proof (intro conjI allI impI)
  show "pos + 1 \<le> length results" using p(1) by simp
  fix k m
  assume k: "pos + 1 \<le> k \<and> k < length results \<and> fst (results ! k) = Some m"
  then have "pos \<le> k" by simp
  from fds_inv_entry [OF i this] k obtain b' where b': "fds m = Some b'" "fd_active b'" "fd_returned b' = Some k" by blast
  obtain c where "fds j = Some c" "fd_returned c = Some pos" using fds_inv_entry [OF i le_refl p] by blast
  with b' k have "m \<noteq> j" by auto
  with b' show "\<exists>b'. (fds(j \<mapsto> b\<lparr>fd_returned := None\<rparr>)) m = Some b' \<and> fd_active b' \<and> fd_returned b' = Some k" by simp
next
  fix m b' k
  assume "(fds(j \<mapsto> b\<lparr>fd_returned := None\<rparr>)) m = Some b' \<and> fd_active b' \<and> fd_returned b' = Some k"
  then have m: "m \<noteq> j" "fds m = Some b'" "fd_active b'" "fd_returned b' = Some k" by (auto split: if_splits)
  note q = fds_inv_pointers [OF i m(2-4)]
  have "k \<noteq> pos" using q(3) p(2) m(1) by auto
  with q show "pos + 1 \<le> k" "k < length results" "fst (results ! k) = Some m" by simp_all
qed

lemma fds_inv_skip:
  assumes i: "fds_inv fds results pos" and p: "pos < length results" "fst (results ! pos) = None"
  shows "fds_inv fds results (pos + 1)"
  unfolding fds_inv_def
proof (intro conjI allI impI)
  show "pos + 1 \<le> length results" using p(1) by simp
  fix k m
  assume "pos + 1 \<le> k \<and> k < length results \<and> fst (results ! k) = Some m"
  then show "\<exists>b. fds m = Some b \<and> fd_active b \<and> fd_returned b = Some k" using fds_inv_entry [OF i, of k m] by auto
next
  fix m b k
  assume "fds m = Some b \<and> fd_active b \<and> fd_returned b = Some k"
  then have "fds m = Some b" "fd_active b" "fd_returned b = Some k" by blast+
  note q = fds_inv_pointers [OF i this]
  have "k \<noteq> pos" using q(3) p(2) by auto
  with q show "pos + 1 \<le> k" "k < length results" "fst (results ! k) = Some m" by simp_all
qed

lemma fds_inv_start:
  assumes "\<forall>i b. fds i = Some b \<and> fd_active b \<longrightarrow> fd_returned b = None"
  shows "fds_inv fds [] 0"
  using assms unfolding fds_inv_def by auto

lemma fds_inv_end: "fds_inv fds results (length results) \<Longrightarrow> fds i = Some b \<Longrightarrow> fd_active b \<Longrightarrow> fd_returned b = None"
  using fds_inv_pointers(1,2) [of fds results "length results" i b] by (cases "fd_returned b") auto

text \<open>The pointers are set for all results at once.\<close>

definition fresh_results :: "(nat \<rightharpoonup> BFileDescriptor) \<Rightarrow> (nat \<times> 32 word) list \<Rightarrow> bool" where
  "fresh_results fds events \<longleftrightarrow> distinct (map fst events) \<and> length events \<le> 64 \<and>
     (\<forall>e \<in> set events. case fds (fst e) of Some b \<Rightarrow> fd_active b | None \<Rightarrow> False)"

lemma fresh_results_iff: "fresh_results fds events \<longleftrightarrow> distinct (map fst events) \<and> length events \<le> 64 \<and>
     (\<forall>e \<in> set events. \<exists>b. fds (fst e) = Some b \<and> fd_active b)"
  unfolding fresh_results_def by (auto split: option.splits)

lemma set_pointers:
  assumes "distinct (map fst evs)" "\<forall>e \<in> set evs. \<exists>b. re_fds re (fst e) = Some b \<and> fd_active b \<and> fd_returned b = None"
  shows "\<exists>fds. set_epoll_fd_pointers k (map (\<lambda>(i, ev). (Some i, ev)) evs) re = Some (re\<lparr>re_fds := fds\<rparr>) \<and>
    (\<forall>j. j \<notin> fst ` set evs \<longrightarrow> fds j = re_fds re j) \<and>
    (\<forall>n < length evs. \<exists>b. re_fds re (fst (evs ! n)) = Some b \<and> fds (fst (evs ! n)) = Some (b\<lparr>fd_returned := Some (k + n)\<rparr>))"
  using assms
proof (induction evs arbitrary: k re)
  case Nil
  show ?case by (intro exI [of _ "re_fds re"]) simp
next
  case (Cons e evs)
  obtain i ev where e: "e = (i, ev)" by (cases e)
  obtain b where b: "re_fds re i = Some b" "fd_active b" "fd_returned b = None" using Cons.prems(2) e by auto
  define re1 where "re1 = re\<lparr>re_fds := (re_fds re)(i \<mapsto> b\<lparr>fd_returned := Some k\<rparr>)\<rparr>"
  have ni: "i \<notin> fst ` set evs" using Cons.prems(1) e by auto
  have keep: "re_fds re1 (fst x) = re_fds re (fst x)" if "x \<in> set evs" for x using that ni by (force simp: re1_def)
  then have "\<forall>x \<in> set evs. \<exists>b. re_fds re1 (fst x) = Some b \<and> fd_active b \<and> fd_returned b = None" using Cons.prems(2) by simp
  from Cons.IH [OF _ this, of "k + 1"] Cons.prems(1) obtain fds where f:
    "set_epoll_fd_pointers (k + 1) (map (\<lambda>(i, ev). (Some i, ev)) evs) re1 = Some (re1\<lparr>re_fds := fds\<rparr>)"
    "\<forall>j. j \<notin> fst ` set evs \<longrightarrow> fds j = re_fds re1 j"
    "\<forall>n < length evs. \<exists>b. re_fds re1 (fst (evs ! n)) = Some b \<and> fds (fst (evs ! n)) = Some (b\<lparr>fd_returned := Some (k + 1 + n)\<rparr>)"
    by auto
  have "\<exists>b'. re_fds re (fst ((e # evs) ! n)) = Some b' \<and> fds (fst ((e # evs) ! n)) = Some (b'\<lparr>fd_returned := Some (k + n)\<rparr>)"
    if "n < length (e # evs)" for n
  proof (cases n)
    case 0
    then show ?thesis using e b(1) f(2) ni by (simp add: re1_def)
  next
    case (Suc m)
    with that have m: "m < length evs" "(e # evs) ! n = evs ! m" by simp_all
    then obtain b' where "re_fds re1 (fst (evs ! m)) = Some b'" "fds (fst (evs ! m)) = Some (b'\<lparr>fd_returned := Some (k + 1 + m)\<rparr>)"
      using f(3) by blast
    then show ?thesis using m Suc keep [of "evs ! m"] by simp
  qed
  moreover have "fds j = re_fds re j" if "j \<notin> fst ` set (e # evs)" for j
    using that f(2) e by (auto simp: re1_def)
  moreover have "set_epoll_fd_pointers k (map (\<lambda>(i, ev). (Some i, ev)) (e # evs)) re = Some (re\<lparr>re_fds := fds\<rparr>)"
    using e b f(1) by (simp add: re1_def)
  ultimately show ?case by blast
qed

lemma set_pointers_ok:
  assumes ev: "fresh_results (re_fds re) evs" and r: "\<forall>i b. re_fds re i = Some b \<and> fd_active b \<longrightarrow> fd_returned b = None"
  shows "\<exists>fds. set_epoll_fd_pointers 0 (map (\<lambda>(i, ev). (Some i, ev)) evs) re = Some (re\<lparr>re_fds := fds\<rparr>) \<and>
    fds_inv fds (map (\<lambda>(i, ev). (Some i, ev)) evs) 0"
proof -
  have "\<forall>e \<in> set evs. \<exists>b. re_fds re (fst e) = Some b \<and> fd_active b \<and> fd_returned b = None"
    using ev r unfolding fresh_results_iff by blast
  from set_pointers [OF _ this, of 0] ev obtain fds where
    f: "set_epoll_fd_pointers 0 (map (\<lambda>(i, ev). (Some i, ev)) evs) re = Some (re\<lparr>re_fds := fds\<rparr>)"
    "\<forall>j. j \<notin> fst ` set evs \<longrightarrow> fds j = re_fds re j"
    "\<forall>n < length evs. \<exists>b. re_fds re (fst (evs ! n)) = Some b \<and> fds (fst (evs ! n)) = Some (b\<lparr>fd_returned := Some n\<rparr>)"
    unfolding fresh_results_iff by auto
  have nth: "fst (map (\<lambda>(i, ev). (Some i, ev)) evs ! n) = Some (fst (evs ! n))" if "n < length evs" for n
    using that by (simp add: case_prod_beta)
  have "fds_inv fds (map (\<lambda>(i, ev). (Some i, ev)) evs) 0"
    unfolding fds_inv_def
  proof (intro conjI allI impI)
    fix k i
    assume "0 \<le> k \<and> k < length (map (\<lambda>(i, ev). (Some i, ev)) evs) \<and> fst (map (\<lambda>(i, ev). (Some i, ev)) evs ! k) = Some i"
    then have k: "k < length evs" "fst (evs ! k) = i" using nth by auto
    with f(3) obtain b where b: "re_fds re i = Some b" "fds i = Some (b\<lparr>fd_returned := Some k\<rparr>)" by blast
    obtain b' where "re_fds re i = Some b'" "fd_active b'" using ev k unfolding fresh_results_iff by (metis nth_mem)
    with b show "\<exists>b. fds i = Some b \<and> fd_active b \<and> fd_returned b = Some k" by auto
  next
    fix i b k
    assume a: "fds i = Some b \<and> fd_active b \<and> fd_returned b = Some k"
    have "i \<in> fst ` set evs"
    proof (rule ccontr)
      assume "i \<notin> fst ` set evs"
      with f(2) a have "re_fds re i = Some b" by simp
      with a r show False by force
    qed
    then obtain n where n: "n < length evs" "fst (evs ! n) = i" by (auto simp: in_set_conv_nth)
    with f(3) a have "k = n" by fastforce
    with n nth show "k < length (map (\<lambda>(i, ev). (Some i, ev)) evs)" "fst (map (\<lambda>(i, ev). (Some i, ev)) evs ! k) = Some i" by simp_all
  qed simp_all
  with f(1) show ?thesis by blast
qed

section \<open>Limits\<close>

definition limits_inv :: "(nat \<rightharpoonup> BReactorLimit) \<Rightarrow> nat list \<Rightarrow> bool" where
  "limits_inv limits active \<longleftrightarrow> distinct active \<and> (\<forall>l. l \<in> set active \<longleftrightarrow> (\<exists>li. limits l = Some li \<and> li_count li > 0)) \<and>
     (\<forall>l li. limits l = Some li \<longrightarrow> 0 \<le> li_count li)"

lemma reset_limits_ok:
  "limits_inv (re_limits re) (re_active re) \<Longrightarrow>
   \<exists>limits. reset_limits re = Some (re\<lparr>re_limits := limits, re_active := []\<rparr>) \<and> limits_inv limits []"
proof (induction re rule: reset_limits.induct)
  case (1 re)
  show ?case
  proof (cases "re_active re")
    case Nil
    then have "re\<lparr>re_limits := re_limits re, re_active := []\<rparr> = re" by simp
    with Nil 1(2) show ?thesis by (subst reset_limits.simps) (intro exI [of _ "re_limits re"], simp)
  next
    case (Cons l ls)
    then obtain li where li: "re_limits re l = Some li" "li_count li > 0" using 1(2) unfolding limits_inv_def by (metis list.set_intros(1))
    let ?re = "re\<lparr>re_limits := (re_limits re)(l \<mapsto> li\<lparr>li_count := 0\<rparr>), re_active := ls\<rparr>"
    have "limits_inv (re_limits ?re) (re_active ?re)"
      using 1(2) li Cons unfolding limits_inv_def by (auto split: if_splits)
    moreover have "\<not> \<not> 0 < li_count li" using li(2) by simp
    ultimately obtain limits where "reset_limits ?re = Some (?re\<lparr>re_limits := limits, re_active := []\<rparr>)" "limits_inv limits []"
      using 1(1) [OF Cons li(1)] by blast
    then show ?thesis using Cons li by (subst reset_limits.simps) (auto intro!: exI [of _ limits])
  qed
qed
section \<open>Waiting keeps the invariant\<close>

text \<open>
  What \<^verbatim>\<open>epoll_wait\<close> promises: time does not go back, and a call only times out when it was given a timeout and that has passed.
\<close>

fun attempts_ok :: "int option \<Rightarrow> int \<Rightarrow> attempt list \<Rightarrow> bool" where
  "attempts_ok timeout now [] \<longleftrightarrow> True"
| "attempts_ok timeout now (Wait_interrupted n # as) \<longleftrightarrow> now \<le> n \<and> attempts_ok timeout n as"
| "attempts_ok timeout now (Wait_timed_out n # as) \<longleftrightarrow> now \<le> n \<and>
     (case timeout of None \<Rightarrow> False | Some T \<Rightarrow> now + min (T - now) INT_MAX \<le> n) \<and> attempts_ok timeout n as"

fun attempts_clock :: "int \<Rightarrow> attempt list \<Rightarrow> int" where
  "attempts_clock now [] = now"
| "attempts_clock now (Wait_interrupted n # as) = attempts_clock n as"
| "attempts_clock now (Wait_timed_out n # as) = attempts_clock n as"

lemma attempts_clock_ge: "attempts_ok timeout now as \<Longrightarrow> now \<le> attempts_clock now as"
  by (induction timeout now as rule: attempts_ok.induct) auto

definition none_returned :: "(nat \<rightharpoonup> BFileDescriptor) \<Rightarrow> bool" where
  "none_returned fds \<longleftrightarrow> (\<forall>i b. fds i = Some b \<and> fd_active b \<longrightarrow> fd_returned b = None)"

text \<open>After a wait: the timers and the descriptors have changed, and there are new results.\<close>

definition waited :: "int \<Rightarrow> ('h, 'u) BReactor \<Rightarrow> ('h, 'u) BReactor \<Rightarrow> bool" where
  "waited c re re' \<longleftrightarrow> tinv c re' \<and> fds_inv (re_fds re') (re_results re') (re_pos re') \<and> re_jobs re' = re_jobs re \<and>
     re_limits re' = re_limits re \<and> re_active re' = re_active re"

lemma waited_timers:
  assumes "tinv c re'" "timers_only re re'" "none_returned (re_fds re)" "re_results re = []" "re_pos re = 0"
  shows "waited c re re'"
proof -
  obtain tm tr ex where re': "re' = re\<lparr>re_timers := tm, re_tree := tr, re_expired := ex\<rparr>" using assms(2) unfolding timers_only_def by blast
  have "fds_inv (re_fds re) [] 0" using assms(3) unfolding none_returned_def by (intro fds_inv_start) blast
  with assms(1,4,5) show ?thesis by (simp add: waited_def re')
qed

lemma waited_results:
  assumes "tinv c re" "none_returned (re_fds re)" "fresh_results (re_fds re) events" "re_pos re = 0" "events \<noteq> []"
  shows "\<exists>re'. wait_loop timeout now [] events re = Some re' \<and> waited c re re'"
proof -
  let ?re = "re\<lparr>re_results := map (\<lambda>(i, ev). (Some i, ev)) events\<rparr>"
  have l: "\<not> 64 < length events" using assms(3) by (simp add: fresh_results_def)
  have "fresh_results (re_fds ?re) events" "\<forall>i b. re_fds ?re i = Some b \<and> fd_active b \<longrightarrow> fd_returned b = None"
    using assms(2,3) by (simp_all add: none_returned_def)
  from set_pointers_ok [OF this] obtain fds where
    "set_epoll_fd_pointers 0 (map (\<lambda>(i, ev). (Some i, ev)) events) ?re = Some (?re\<lparr>re_fds := fds\<rparr>)"
    "fds_inv fds (map (\<lambda>(i, ev). (Some i, ev)) events) 0" by blast
  then show ?thesis using l assms(1,4,5) by (intro exI [of _ "?re\<lparr>re_fds := fds\<rparr>"]) (simp add: waited_def)
qed

lemma wait_loop_none:
  assumes "tinv c re" "none_returned (re_fds re)" "fresh_results (re_fds re) events" "re_pos re = 0" "events \<noteq> []" "attempts_ok None n as"
  shows "\<exists>re'. wait_loop None now as events re = Some re' \<and> waited c re re'"
  using assms(6)
proof (induction as arbitrary: n)
  case Nil
  show ?case by (rule waited_results [OF assms(1-5)])
next
  case (Cons a as)
  then show ?case by (cases a) auto
qed

lemma wait_loop_some:
  assumes i: "tinv c re" and f: "none_returned (re_fds re)" "fresh_results (re_fds re) events" "re_results re = []" "re_pos re = 0"
    and tr: "re_tree re = t # ts" and t: "re_timers re t = Some bt"
    and ok: "attempts_ok (Some (bt_absTime bt)) now as" "attempts_clock now as \<le> c"
    "events \<noteq> [] \<or> (\<exists>a\<in>set as. bt_absTime bt \<le> attempt_time a)"
  shows "\<exists>re'. wait_loop (Some (bt_absTime bt)) now as events re = Some re' \<and> waited c re re'"
  using ok
proof (induction as arbitrary: now)
  case Nil
  then show ?case using waited_results [OF i f(1,2,4)] by simp
next
  case (Cons a as)
  let ?T = "bt_absTime bt"
  have moved: "\<exists>re'. move_first_timers re = Some re' \<and> waited c re re'" if "?T \<le> c"
    using move_first_ok [OF i tr t that] waited_timers f(1,3,4) by blast
  show ?case
  proof (cases a)
    case (Wait_interrupted n)
    have "n \<le> c" using attempts_clock_ge [of "Some ?T" n as] Cons.prems Wait_interrupted by simp
    with moved Cons Wait_interrupted show ?thesis by (cases "n \<ge> ?T") auto
  next
    case (Wait_timed_out n)
    have c: "n \<le> c" using attempts_clock_ge [of "Some ?T" n as] Cons.prems Wait_timed_out by simp
    have n: "now + min (?T - now) INT_MAX \<le> n" using Cons.prems(1) Wait_timed_out by simp
    show ?thesis
    proof (cases "?T - now > INT_MAX \<and> n < ?T")
      case True
      with Cons Wait_timed_out show ?thesis by (auto simp: Let_def)
    next
      case False
      then have "?T \<le> c" using n c by linarith
      from moved [OF this] show ?thesis using False Wait_timed_out by (auto simp: Let_def)
    qed
  qed
qed

definition reactor_inv :: "int \<Rightarrow> ('h, 'u) BReactor \<Rightarrow> bool" where
  "reactor_inv c re \<longleftrightarrow> pending_inv (re_jobs re) \<and> tinv c re \<and> fds_inv (re_fds re) (re_results re) (re_pos re) \<and>
     limits_inv (re_limits re) (re_active re)"

definition first_time :: "('h, 'u) BReactor \<Rightarrow> int option" where
  "first_time re = (case re_tree re of [] \<Rightarrow> None | t # _ \<Rightarrow> map_option bt_absTime (re_timers re t))"

text \<open>What \<^verbatim>\<open>epoll_wait\<close> gives the reactor; it only returns nothing when the wait is over because of a timer.\<close>

definition wait_ok :: "int \<Rightarrow> wait_env \<Rightarrow> ('h, 'u) BReactor \<Rightarrow> bool" where
  "wait_ok c env re \<longleftrightarrow> c \<le> we_now env \<and> attempts_ok (first_time re) (we_now env) (we_attempts env) \<and> fresh_results (re_fds re) (we_events env) \<and>
     (waits re \<and> we_events env = [] \<longrightarrow> (case first_time re of
         None \<Rightarrow> False
       | Some T \<Rightarrow> T \<le> we_now env \<or> (\<exists>a\<in>set (we_attempts env). T \<le> attempt_time a)))"

lemma reset_ok:
  assumes "pending_inv (re_jobs re)" "waited c re re'" "limits_inv (re_limits re) (re_active re)"
  shows "\<exists>re2. reset_limits re' = Some re2 \<and> reactor_inv c re2"
proof -
  have "limits_inv (re_limits re') (re_active re')" using assms(2,3) by (simp add: waited_def)
  from reset_limits_ok [OF this] assms(1,2) show ?thesis by (auto simp: reactor_inv_def waited_def)
qed

lemma wait_for_events_ok:
  assumes i: "reactor_inv c re" and w: "wait_ok c env re" and e: "\<not> re_exiting re" "\<not> BPendingGroup_HasJobs (re_jobs re)" "re_expired re = []"
    "re_pos re = length (re_results re)"
  shows "\<exists>re'. wait_for_events env re = Some re' \<and> reactor_inv (attempts_clock (we_now env) (we_attempts env)) re'"
proof -
  let ?c = "attempts_clock (we_now env) (we_attempts env)"
  define re1 where "re1 = re\<lparr>re_results := [], re_pos := 0\<rparr>"
  have ok: "attempts_ok (first_time re) (we_now env) (we_attempts env)" "c \<le> we_now env" using w by (simp_all add: wait_ok_def)
  have nc: "we_now env \<le> ?c" by (rule attempts_clock_ge [OF ok(1)])
  have p: "pending_inv (re_jobs re1)" "limits_inv (re_limits re1) (re_active re1)" using i by (simp_all add: re1_def reactor_inv_def)
  have ti: "tinv ?c re1" using i timers_inv_later ok(2) nc by (fastforce simp: re1_def reactor_inv_def)
  have "fds_inv (re_fds re) (re_results re) (length (re_results re))" using i e(4) by (simp add: reactor_inv_def)
  then have f: "none_returned (re_fds re1)" unfolding none_returned_def re1_def using fds_inv_end by force
  have ev: "fresh_results (re_fds re1) (we_events env)" "re_results re1 = []" "re_pos re1 = 0" using w by (simp_all add: re1_def wait_ok_def)
  have wt: "waits re" using e by (simp add: waits_def)
  show ?thesis
  proof (cases "re_tree re")
    case Nil
    then have ne: "we_events env \<noteq> []" using w wt by (simp add: wait_ok_def first_time_def)
    from Nil have "attempts_ok None (we_now env) (we_attempts env)" using ok(1) by (simp add: first_time_def)
    from wait_loop_none [OF ti f ev(1,3) ne this, of 0] obtain re2 where
      "wait_loop None 0 (we_attempts env) (we_events env) re1 = Some re2" "waited ?c re1 re2" by blast
    moreover have "re_tree re1 = []" using Nil by (simp add: re1_def)
    ultimately show ?thesis using reset_ok [OF p(1) _ p(2)] e by (auto simp: wait_for_events_def re1_def [symmetric])
  next
    case (Cons t ts)
    then have tr: "re_tree re1 = t # ts" by (simp add: re1_def)
    obtain bt where bt: "re_timers re1 t = Some bt" "bt_state bt = TIMER_STATE_RUNNING" using timers_inv_head ti [unfolded tr] by metis
    then have T: "attempts_ok (Some (bt_absTime bt)) (we_now env) (we_attempts env)" using ok(1) Cons by (simp add: first_time_def re1_def)
    obtain m re2 where m: "move_expired_timers (we_now env) re1 = Some (m, re2)" "tinv ?c re2" "timers_only re1 re2"
      using move_expired_ok [OF ti nc] by blast
    have eq: "wait_for_events env re = (if m then Some re2 else do {
        re \<leftarrow> wait_loop (Some (bt_absTime bt)) (we_now env) (we_attempts env) (we_events env) re2; reset_limits re })"
      using Cons e bt m(1) by (simp add: wait_for_events_def re1_def [symmetric] Let_def) (simp add: re1_def)
    show ?thesis
    proof (cases m)
      case True
      have "waited ?c re1 re2" by (rule waited_timers [OF m(2,3) f ev(2,3)])
      then show ?thesis using p True by (simp add: eq reactor_inv_def waited_def)
    next
      case False
      have gt: "bt_absTime bt > we_now env"
      proof (rule ccontr)
        assume "\<not> bt_absTime bt > we_now env"
        then have "m" using m(1) tr bt by (subst (asm) move_expired_timers.simps) auto
        with False show False ..
      qed
      from gt w wt Cons bt(1) have ne: "we_events env \<noteq> [] \<or> (\<exists>a\<in>set (we_attempts env). bt_absTime bt \<le> attempt_time a)"
        by (auto simp: wait_ok_def first_time_def re1_def)
      have "re2 = re1" using False gt m(1) tr bt by (subst (asm) move_expired_timers.simps) auto
      with wait_loop_some [OF ti f ev(1,2,3) tr bt(1) T order.refl ne] obtain re3 where
        "wait_loop (Some (bt_absTime bt)) (we_now env) (we_attempts env) (we_events env) re2 = Some re3" "waited ?c re1 re3" by blast
      with reset_ok [OF p(1) this(2) p(2)] False show ?thesis by (auto simp: eq)
    qed
  qed
qed

section \<open>A round of the loop\<close>

text \<open>The handler that is called is the right one.\<close>

definition dispatched_ok :: "int \<Rightarrow> ('h, 'u) BReactor \<Rightarrow> ('h, 'u) dispatched \<Rightarrow> bool" where
  "dispatched_ok c re d = (case d of
       Exits code \<Rightarrow> re_exiting re \<and> code = re_exit_code re
     | Runs_job h u \<Rightarrow> \<not> re_exiting re \<and> (\<exists>i js b. pg_jobs (re_jobs re) = i # js \<and> pg_objs (re_jobs re) i = Some b \<and> bp_handler b = h \<and> bp_user b = u)
     | Runs_timer t \<Rightarrow> \<not> re_exiting re \<and> pg_jobs (re_jobs re) = [] \<and>
         (\<exists>bt. re_timers re t = Some bt \<and> bt_state bt = TIMER_STATE_EXPIRED \<and> bt_absTime bt \<le> c)
     | Runs_fd i ev \<Rightarrow> \<not> re_exiting re \<and> pg_jobs (re_jobs re) = [] \<and> re_expired re = [] \<and> ev \<noteq> 0 \<and>
         (\<exists>b. re_fds re i = Some b \<and> fd_active b \<and> (and ev BREACTOR_READ \<noteq> 0 \<longrightarrow> and (fd_waitEvents b) BREACTOR_READ \<noteq> 0) \<and>
           (and ev BREACTOR_WRITE \<noteq> 0 \<longrightarrow> and (fd_waitEvents b) BREACTOR_WRITE \<noteq> 0))
     | Runs_nothing \<Rightarrow> \<not> re_exiting re \<and> pg_jobs (re_jobs re) = [] \<and> re_expired re = [])"

lemma reported_ok:
  "and (reported_events w e) BREACTOR_READ \<noteq> 0 \<Longrightarrow> and w BREACTOR_READ \<noteq> 0"
  "and (reported_events w e) BREACTOR_WRITE \<noteq> 0 \<Longrightarrow> and w BREACTOR_WRITE \<noteq> 0"
  by (auto simp: reported_events_def split: if_splits)

lemma dispatch_fd_ok:
  assumes i: "reactor_inv c re" and p: "re_pos re < length (re_results re)"
  shows "\<exists>d re'. dispatch_fd re = Some (d, re') \<and> reactor_inv c re' \<and> (d = Runs_nothing \<or> (\<exists>j ev b. d = Runs_fd j ev \<and> ev \<noteq> 0 \<and>
    re_fds re j = Some b \<and> fd_active b \<and> (and ev BREACTOR_READ \<noteq> 0 \<longrightarrow> and (fd_waitEvents b) BREACTOR_READ \<noteq> 0) \<and>
    (and ev BREACTOR_WRITE \<noteq> 0 \<longrightarrow> and (fd_waitEvents b) BREACTOR_WRITE \<noteq> 0)))"
proof -
  obtain q ev where e: "re_results re ! re_pos re = (q, ev)" by (cases "re_results re ! re_pos re")
  have fi: "fds_inv (re_fds re) (re_results re) (re_pos re)" using i by (simp add: reactor_inv_def)
  show ?thesis
  proof (cases q)
    case None
    then have "fds_inv (re_fds re) (re_results re) (re_pos re + 1)" using fds_inv_skip [OF fi p] e by simp
    with i e None show ?thesis by (simp add: dispatch_fd_def reactor_inv_def Let_def)
  next
    case (Some j)
    then obtain b where b: "re_fds re j = Some b" "fd_active b" "fd_returned b = Some (re_pos re)"
      using fds_inv_entry [OF fi order.refl p, of j] e by auto
    have "fds_inv ((re_fds re)(j \<mapsto> b\<lparr>fd_returned := None\<rparr>)) (re_results re) (re_pos re + 1)"
      using fds_inv_next [OF fi p _ b(1)] e Some by simp
    with i have "reactor_inv c (re\<lparr>re_pos := re_pos re + 1, re_fds := (re_fds re)(j \<mapsto> b\<lparr>fd_returned := None\<rparr>)\<rparr>)" by (simp add: reactor_inv_def)
    moreover have "dispatch_fd re = Some (if reported_events (fd_waitEvents b) ev = 0 then Runs_nothing else Runs_fd j (reported_events (fd_waitEvents b) ev),
        re\<lparr>re_pos := re_pos re + 1, re_fds := (re_fds re)(j \<mapsto> b\<lparr>fd_returned := None\<rparr>)\<rparr>)"
      using e Some b by (simp add: dispatch_fd_def Let_def)
    ultimately show ?thesis using b reported_ok [of "fd_waitEvents b" ev] by (cases "reported_events (fd_waitEvents b) ev = 0") auto
  qed
qed

lemma dispatch_ok:
  assumes i: "reactor_inv c re" and w: "wait_ok c env re"
  shows "\<exists>d re'. dispatch env re = Some (d, re') \<and> reactor_inv (attempts_clock (we_now env) (we_attempts env)) re' \<and> dispatched_ok c re d"
proof -
  let ?c = "attempts_clock (we_now env) (we_attempts env)"
  have "c \<le> ?c" using attempts_clock_ge w unfolding wait_ok_def by (metis order.trans)
  then have later: "reactor_inv ?c r" if "reactor_inv c r" for r :: "('a, 'b) BReactor"
    using that timers_inv_later unfolding reactor_inv_def by blast
  have pi: "pending_inv (re_jobs re)" and ti: "tinv c re" using i by (simp_all add: reactor_inv_def)
  consider (exit) "re_exiting re" | (job) k js where "\<not> re_exiting re" "pg_jobs (re_jobs re) = k # js"
    | (timer) t ts where "\<not> re_exiting re" "pg_jobs (re_jobs re) = []" "re_expired re = t # ts"
    | (fd) "\<not> re_exiting re" "pg_jobs (re_jobs re) = []" "re_expired re = []" "re_pos re < length (re_results re)"
    | (wait) "\<not> re_exiting re" "pg_jobs (re_jobs re) = []" "re_expired re = []" "re_pos re = length (re_results re)"
    using i unfolding reactor_inv_def fds_inv_def by (metis list.exhaust order.not_eq_order_implies_strict)
  then show ?thesis
  proof cases
    case exit
    with later [OF i] show ?thesis by (simp add: dispatch_def dispatched_ok_def)
  next
    case job
    obtain b where b: "pg_objs (re_jobs re) k = Some b" "BPendingGroup_ExecuteJob (re_jobs re) = Some ((bp_handler b, bp_user b),
        (re_jobs re)\<lparr>pg_jobs := js, pg_objs := (pg_objs (re_jobs re))(k \<mapsto> b\<lparr>bp_removed := True, bp_pending := False\<rparr>)\<rparr>)"
      using BPendingGroup_ExecuteJob_eq [OF pi job(2)] .
    have "pending_enabled (re_jobs re) EvExecute" using job(2) by (simp add: BPendingGroup_HasJobs_def)
    from pending_step_inv [OF pi this] b(2) have "pending_inv ((re_jobs re)\<lparr>pg_jobs := js,
        pg_objs := (pg_objs (re_jobs re))(k \<mapsto> b\<lparr>bp_removed := True, bp_pending := False\<rparr>)\<rparr>)" by simp
    with i have "reactor_inv c (re\<lparr>re_jobs := (re_jobs re)\<lparr>pg_jobs := js,
        pg_objs := (pg_objs (re_jobs re))(k \<mapsto> b\<lparr>bp_removed := True, bp_pending := False\<rparr>)\<rparr>\<rparr>)" by (simp add: reactor_inv_def)
    from later [OF this] job b show ?thesis by (simp add: dispatch_def dispatched_ok_def BPendingGroup_HasJobs_def)
  next
    case timer
    obtain bt where bt: "re_timers re t = Some bt" "bt_state bt = TIMER_STATE_EXPIRED"
      using ti timer(3) unfolding timers_inv_def by (metis list.set_intros(1))
    have le: "bt_absTime bt \<le> c" using ti timer(3) bt(1) unfolding timers_inv_def by simp
    have "t \<notin> set (re_tree re)" using ti bt unfolding timers_inv_def by auto
    then have "tinv c (re\<lparr>re_expired := ts, re_timers := (re_timers re)(t \<mapsto> bt\<lparr>bt_state := TIMER_STATE_INACTIVE\<rparr>)\<rparr>)"
      using timers_inv_stop [OF ti bt(1)] timer(3) by (simp add: remove1_idem)
    with i have "reactor_inv c (re\<lparr>re_expired := ts, re_timers := (re_timers re)(t \<mapsto> bt\<lparr>bt_state := TIMER_STATE_INACTIVE\<rparr>)\<rparr>)"
      by (simp add: reactor_inv_def)
    from later [OF this] timer bt le show ?thesis by (simp add: dispatch_def dispatched_ok_def BPendingGroup_HasJobs_def)
  next
    case fd
    from dispatch_fd_ok [OF i fd(4)] obtain d re' where d: "dispatch_fd re = Some (d, re')" "reactor_inv c re'" "d = Runs_nothing \<or> (\<exists>j ev b. d = Runs_fd j ev \<and> ev \<noteq> 0 \<and>
      re_fds re j = Some b \<and> fd_active b \<and> (and ev BREACTOR_READ \<noteq> 0 \<longrightarrow> and (fd_waitEvents b) BREACTOR_READ \<noteq> 0) \<and>
      (and ev BREACTOR_WRITE \<noteq> 0 \<longrightarrow> and (fd_waitEvents b) BREACTOR_WRITE \<noteq> 0))" by blast
    then have "dispatched_ok c re d" using fd(1-3) by (auto simp: dispatched_ok_def)
    with d fd later show ?thesis by (auto simp: dispatch_def BPendingGroup_HasJobs_def)
  next
    case wait
    have "\<not> BPendingGroup_HasJobs (re_jobs re)" using wait(2) by (simp add: BPendingGroup_HasJobs_def)
    from wait_for_events_ok [OF i w wait(1) this wait(3,4)] wait show ?thesis
      by (auto simp: dispatch_def dispatched_ok_def BPendingGroup_HasJobs_def)
  qed
qed
section \<open>The reactor as a machine\<close>

text \<open>
  \<open>rn_clock\<close> is the latest time that was read. The events are the rounds of the two loops and the operations that handlers perform between
  them; a number is reused for another object only when the old one is not in use any more.
\<close>

record ('h, 'u) reactor_run =
  rn_re :: "('h, 'u) BReactor"
  rn_clock :: int

datatype ('h, 'u) reactor_event =
    RvDispatch wait_env | RvSynchronize nat | RvJob "('h, 'u) pending_event"
  | RvSmallTimerInit nat | RvTimerInit nat int | RvTimerForget nat
  | RvSetSmallTimer int nat timer_mode int | RvSetTimer int nat | RvSetTimerAfter int nat int | RvSetTimerAbsolute int nat int
  | RvRemoveSmallTimer nat | RvRemoveTimer nat
  | RvFdInit nat | RvFdAdd bool nat | RvFdRemove nat | RvFdEvents nat "32 word" | RvFdForget nat
  | RvLimitInit nat int | RvLimitFree nat | RvLimitIncrement nat | RvLimitSet nat int | RvQuit int

definition rn_lift :: "('h, 'u) BReactor option \<Rightarrow> int \<Rightarrow> ('h, 'u) reactor_run option" where
  "rn_lift r c = map_option (\<lambda>re. \<lparr>rn_re = re, rn_clock = c\<rparr>) r"

fun reactor_step :: "('h, 'u) reactor_run \<Rightarrow> ('h, 'u) reactor_event \<Rightarrow> ('h, 'u) reactor_run option" where
  "reactor_step s (RvDispatch env) =
     rn_lift (map_option snd (dispatch env (rn_re s))) (attempts_clock (we_now env) (we_attempts env))"
| "reactor_step s (RvSynchronize ref) = rn_lift (map_option snd (synchronize ref (rn_re s))) (rn_clock s)"
| "reactor_step s (RvJob e) =
     rn_lift (map_option (\<lambda>jobs. (rn_re s)\<lparr>re_jobs := jobs\<rparr>) (pending_step (re_jobs (rn_re s)) e)) (rn_clock s)"
| "reactor_step s (RvSmallTimerInit t) = rn_lift (Some (BSmallTimer_Init t (rn_re s))) (rn_clock s)"
| "reactor_step s (RvTimerInit t msTime) = rn_lift (Some (BTimer_Init t msTime (rn_re s))) (rn_clock s)"
| "reactor_step s (RvTimerForget t) = rn_lift (Some ((rn_re s)\<lparr>re_timers := (re_timers (rn_re s))(t := None)\<rparr>)) (rn_clock s)"
| "reactor_step s (RvSetSmallTimer now t mode time) = rn_lift (BReactor_SetSmallTimer now t mode time (rn_re s)) now"
| "reactor_step s (RvSetTimer now t) = rn_lift (BReactor_SetTimer now t (rn_re s)) now"
| "reactor_step s (RvSetTimerAfter now t after) = rn_lift (BReactor_SetTimerAfter now t after (rn_re s)) now"
| "reactor_step s (RvSetTimerAbsolute now t time) = rn_lift (BReactor_SetTimerAbsolute now t time (rn_re s)) now"
| "reactor_step s (RvRemoveSmallTimer t) = rn_lift (BReactor_RemoveSmallTimer t (rn_re s)) (rn_clock s)"
| "reactor_step s (RvRemoveTimer t) = rn_lift (BReactor_RemoveTimer t (rn_re s)) (rn_clock s)"
| "reactor_step s (RvFdInit i) = rn_lift (Some (BFileDescriptor_Init i (rn_re s))) (rn_clock s)"
| "reactor_step s (RvFdAdd ok i) = rn_lift (map_option snd (BReactor_AddFileDescriptor ok i (rn_re s))) (rn_clock s)"
| "reactor_step s (RvFdRemove i) = rn_lift (BReactor_RemoveFileDescriptor i (rn_re s)) (rn_clock s)"
| "reactor_step s (RvFdEvents i events) = rn_lift (BReactor_SetFileDescriptorEvents i events (rn_re s)) (rn_clock s)"
| "reactor_step s (RvFdForget i) = rn_lift (Some ((rn_re s)\<lparr>re_fds := (re_fds (rn_re s))(i := None)\<rparr>)) (rn_clock s)"
| "reactor_step s (RvLimitInit l limit) = rn_lift (BReactorLimit_Init l limit (rn_re s)) (rn_clock s)"
| "reactor_step s (RvLimitFree l) = rn_lift (BReactorLimit_Free l (rn_re s)) (rn_clock s)"
| "reactor_step s (RvLimitIncrement l) = rn_lift (map_option snd (BReactorLimit_Increment l (rn_re s))) (rn_clock s)"
| "reactor_step s (RvLimitSet l limit) = rn_lift (BReactorLimit_SetLimit l limit (rn_re s)) (rn_clock s)"
| "reactor_step s (RvQuit code) = rn_lift (Some (BReactor_Quit code (rn_re s))) (rn_clock s)"

definition timer_idle :: "('h, 'u) BReactor \<Rightarrow> nat \<Rightarrow> bool" where
  "timer_idle re t \<longleftrightarrow> (case re_timers re t of None \<Rightarrow> True | Some bt \<Rightarrow> bt_state bt = TIMER_STATE_INACTIVE)"

definition fd_idle :: "('h, 'u) BReactor \<Rightarrow> nat \<Rightarrow> bool" where
  "fd_idle re i \<longleftrightarrow> (case re_fds re i of None \<Rightarrow> True | Some b \<Rightarrow> \<not> fd_active b)"

definition fd_live :: "('h, 'u) BReactor \<Rightarrow> nat \<Rightarrow> bool" where
  "fd_live re i \<longleftrightarrow> (case re_fds re i of None \<Rightarrow> False | Some b \<Rightarrow> fd_active b)"

fun reactor_enabled :: "('h, 'u) reactor_run \<Rightarrow> ('h, 'u) reactor_event \<Rightarrow> bool" where
  "reactor_enabled s (RvDispatch env) \<longleftrightarrow> wait_ok (rn_clock s) env (rn_re s)"
| "reactor_enabled s (RvSynchronize ref) \<longleftrightarrow> re_exiting (rn_re s) \<or> BPendingGroup_HasJobs (re_jobs (rn_re s))"
| "reactor_enabled s (RvJob e) \<longleftrightarrow> e \<noteq> EvExecute \<and> pending_enabled (re_jobs (rn_re s)) e"
| "reactor_enabled s (RvSmallTimerInit t) \<longleftrightarrow> timer_idle (rn_re s) t"
| "reactor_enabled s (RvTimerInit t msTime) \<longleftrightarrow> timer_idle (rn_re s) t"
| "reactor_enabled s (RvTimerForget t) \<longleftrightarrow> timer_idle (rn_re s) t"
| "reactor_enabled s (RvSetSmallTimer now t mode time) \<longleftrightarrow> rn_clock s \<le> now \<and> re_timers (rn_re s) t \<noteq> None"
| "reactor_enabled s (RvSetTimer now t) \<longleftrightarrow> rn_clock s \<le> now \<and> Option.bind (re_timers (rn_re s) t) bt_msTime \<noteq> None"
| "reactor_enabled s (RvSetTimerAfter now t after) \<longleftrightarrow> rn_clock s \<le> now \<and> re_timers (rn_re s) t \<noteq> None"
| "reactor_enabled s (RvSetTimerAbsolute now t time) \<longleftrightarrow> rn_clock s \<le> now \<and> re_timers (rn_re s) t \<noteq> None"
| "reactor_enabled s (RvRemoveSmallTimer t) \<longleftrightarrow> re_timers (rn_re s) t \<noteq> None"
| "reactor_enabled s (RvRemoveTimer t) \<longleftrightarrow> re_timers (rn_re s) t \<noteq> None"
| "reactor_enabled s (RvFdInit i) \<longleftrightarrow> fd_idle (rn_re s) i"
| "reactor_enabled s (RvFdAdd ok i) \<longleftrightarrow> re_fds (rn_re s) i \<noteq> None \<and> fd_idle (rn_re s) i"
| "reactor_enabled s (RvFdRemove i) \<longleftrightarrow> fd_live (rn_re s) i"
| "reactor_enabled s (RvFdEvents i events) \<longleftrightarrow> fd_live (rn_re s) i \<and> and events (not (or BREACTOR_READ BREACTOR_WRITE)) = 0"
| "reactor_enabled s (RvFdForget i) \<longleftrightarrow> fd_idle (rn_re s) i"
| "reactor_enabled s (RvLimitInit l limit) \<longleftrightarrow> re_limits (rn_re s) l = None \<and> limit > 0"
| "reactor_enabled s (RvLimitFree l) \<longleftrightarrow> re_limits (rn_re s) l \<noteq> None"
| "reactor_enabled s (RvLimitIncrement l) \<longleftrightarrow> re_limits (rn_re s) l \<noteq> None"
| "reactor_enabled s (RvLimitSet l limit) \<longleftrightarrow> re_limits (rn_re s) l \<noteq> None \<and> limit > 0"
| "reactor_enabled s (RvQuit code) \<longleftrightarrow> True"

definition reactor_init :: "('h, 'u) reactor_run \<Rightarrow> bool" where
  "reactor_init s \<longleftrightarrow> rn_re s = snd (BReactor_Init True)"

definition run_inv :: "('h, 'u) reactor_run \<Rightarrow> bool" where
  "run_inv s \<longleftrightarrow> reactor_inv (rn_clock s) (rn_re s)"

lemma reactor_inv_later: "reactor_inv c re \<Longrightarrow> c \<le> c' \<Longrightarrow> reactor_inv c' re"
  unfolding reactor_inv_def using timers_inv_later by blast

lemma rn_liftI: "r = Some re' \<Longrightarrow> reactor_inv c re' \<Longrightarrow> \<exists>s'. rn_lift r c = Some s' \<and> run_inv s'"
  by (simp add: rn_lift_def run_inv_def)

subsection \<open>Each kind of operation\<close>

lemma timers_inv_idle:
  assumes i: "tinv c re" and t: "timer_idle re t" and b: "\<forall>bt. b = Some bt \<longrightarrow> bt_state bt = TIMER_STATE_INACTIVE"
  shows "timers_inv c ((re_timers re)(t := b)) (re_tree re) (re_expired re)"
proof -
  have n: "t \<notin> set (re_tree re)" "t \<notin> set (re_expired re)" using i t by (auto simp: timers_inv_def timer_idle_def split: option.splits)
  have "\<forall>x\<in>set (re_tree re). timer_key (re_timers re) x = timer_key ((re_timers re)(t := b)) x" using n by (auto simp: timer_key_def)
  from ordered_by_cong [OF this, of compare_timers] i
  have "ordered_by compare_timers (timer_key ((re_timers re)(t := b))) (re_tree re)" by (simp add: timers_inv_def)
  then show ?thesis using i n b unfolding timers_inv_def by (auto split: if_splits)
qed

lemma reactor_idle_timer:
  assumes "reactor_inv c re" "timer_idle re t" "\<forall>bt. b = Some bt \<longrightarrow> bt_state bt = TIMER_STATE_INACTIVE"
  shows "reactor_inv c (re\<lparr>re_timers := (re_timers re)(t := b)\<rparr>)"
  using assms timers_inv_idle [of c re t b] by (simp add: reactor_inv_def)

lemma reactor_set_timer:
  assumes "reactor_inv c re" "re_timers re t \<noteq> None" "c \<le> now"
  shows "\<exists>re'. BReactor_SetSmallTimer now t mode time re = Some re' \<and> reactor_inv now re'"
proof -
  obtain bt where bt: "re_timers re t = Some bt" using assms(2) by blast
  have i: "reactor_inv now re" using reactor_inv_later assms(1,3) by blast
  then have "tinv now re" by (simp add: reactor_inv_def)
  from set_timer_ok [OF this bt, of now mode time] i show ?thesis unfolding reactor_inv_def by fastforce
qed

lemma reactor_remove_timer:
  assumes "reactor_inv c re" "re_timers re t \<noteq> None"
  shows "\<exists>re'. BReactor_RemoveSmallTimer t re = Some re' \<and> reactor_inv c re'"
proof -
  obtain bt where bt: "re_timers re t = Some bt" using assms(2) by blast
  have i: "tinv c re" using assms(1) by (simp add: reactor_inv_def)
  from remove_timer_ok [OF i bt] timers_inv_stop [OF i bt] assms(1) show ?thesis by (simp add: reactor_inv_def)
qed

lemma reactor_idle_fd:
  assumes "reactor_inv c re" "fd_idle re i" "case b of Some b \<Rightarrow> fd_returned b = None | None \<Rightarrow> True"
  shows "reactor_inv c (re\<lparr>re_fds := (re_fds re)(i := b)\<rparr>)"
proof -
  have a: "\<forall>b. re_fds re i = Some b \<longrightarrow> \<not> fd_active b" using assms(2) by (auto simp: fd_idle_def split: option.splits)
  from fds_inv_inactive [of "re_fds re" _ _ i b] a assms(1,3) show ?thesis by (simp add: reactor_inv_def)
qed

lemma reactor_remove_fd:
  assumes "reactor_inv c re" "fd_live re i"
  shows "\<exists>re'. BReactor_RemoveFileDescriptor i re = Some re' \<and> reactor_inv c re'"
proof -
  obtain b where b: "re_fds re i = Some b" "fd_active b" using assms(2) by (auto simp: fd_live_def split: option.splits)
  have fi: "fds_inv (re_fds re) (re_results re) (re_pos re)" using assms(1) by (simp add: reactor_inv_def)
  show ?thesis
  proof (cases "fd_returned b")
    case None
    from fds_inv_unreturned [OF fi b(1) this] assms(1) b None show ?thesis by (simp add: BReactor_RemoveFileDescriptor_def reactor_inv_def)
  next
    case (Some k)
    from fds_inv_remove [OF fi b Some] fds_inv_pointers(2) [OF fi b Some] assms(1) b Some show ?thesis
      by (simp add: BReactor_RemoveFileDescriptor_def reactor_inv_def)
  qed
qed

lemma reactor_limits:
  assumes "reactor_inv c re"
  shows "re_limits re l = None \<Longrightarrow> n > 0 \<Longrightarrow> \<exists>re'. BReactorLimit_Init l n re = Some re' \<and> reactor_inv c re'"
    and "re_limits re l = Some li \<Longrightarrow> \<exists>re'. BReactorLimit_Free l re = Some re' \<and> reactor_inv c re'"
    and "re_limits re l = Some li \<Longrightarrow> \<exists>b re'. BReactorLimit_Increment l re = Some (b, re') \<and> reactor_inv c re'"
    and "re_limits re l = Some li \<Longrightarrow> n > 0 \<Longrightarrow> \<exists>re'. BReactorLimit_SetLimit l n re = Some re' \<and> reactor_inv c re'"
proof -
  have li: "limits_inv (re_limits re) (re_active re)" using assms by (simp add: reactor_inv_def)
  {
    assume l: "re_limits re l = None" "n > 0"
    then have "l \<notin> set (re_active re)" using li unfolding limits_inv_def by auto
    then have "limits_inv ((re_limits re)(l \<mapsto> \<lparr>li_limit = n, li_count = 0\<rparr>)) (re_active re)" using li l unfolding limits_inv_def by auto
    with assms l(2) show "\<exists>re'. BReactorLimit_Init l n re = Some re' \<and> reactor_inv c re'" by (simp add: BReactorLimit_Init_def reactor_inv_def)
  next
    assume l: "re_limits re l = Some li"
    then have iff: "l \<in> set (re_active re) \<longleftrightarrow> li_count li > 0" using li unfolding limits_inv_def by auto
    have d: "distinct (re_active re)" using li by (simp add: limits_inv_def)
    have "limits_inv ((re_limits re)(l := None)) (remove1 l (re_active re))" using li d unfolding limits_inv_def by auto
    moreover have "\<not> li_count li > 0 \<Longrightarrow> remove1 l (re_active re) = re_active re" using iff by (simp add: remove1_idem)
    ultimately show "\<exists>re'. BReactorLimit_Free l re = Some re' \<and> reactor_inv c re'"
      using assms l by (auto simp: BReactorLimit_Free_def reactor_inv_def Let_def)
    show "\<exists>b re'. BReactorLimit_Increment l re = Some (b, re') \<and> reactor_inv c re'"
    proof (cases "li_count li \<ge> li_limit li")
      case True
      with assms l show ?thesis by (simp add: BReactorLimit_Increment_def) (rule exI [of _ False], simp)
    next
      case False
      have c0: "0 \<le> li_count li" using li l unfolding limits_inv_def by auto
      then have c1: "li_count li \<noteq> 0 \<Longrightarrow> 0 < li_count li" by simp
      have "limits_inv ((re_limits re)(l \<mapsto> li\<lparr>li_count := li_count li + 1\<rparr>)) (if li_count li = 0 then re_active re @ [l] else re_active re)"
        using li l c0 c1 unfolding limits_inv_def by auto
      with assms l False show ?thesis by (auto simp: BReactorLimit_Increment_def reactor_inv_def Let_def)
    qed
    assume "n > 0"
    moreover have "limits_inv ((re_limits re)(l \<mapsto> li\<lparr>li_limit := n\<rparr>)) (re_active re)" using li l unfolding limits_inv_def by auto
    ultimately show "\<exists>re'. BReactorLimit_SetLimit l n re = Some re' \<and> reactor_inv c re'"
      using assms l by (simp add: BReactorLimit_SetLimit_def reactor_inv_def)
  }
qed

lemma reactor_jobs:
  assumes "reactor_inv c re" "pending_enabled (re_jobs re) e"
  shows "\<exists>jobs. pending_step (re_jobs re) e = Some jobs \<and> reactor_inv c (re\<lparr>re_jobs := jobs\<rparr>)"
proof -
  have "pending_inv (re_jobs re)" using assms(1) by (simp add: reactor_inv_def)
  from pending_step_inv [OF this assms(2)] assms(1) show ?thesis unfolding reactor_inv_def by fastforce
qed

lemma reactor_synchronize:
  assumes i: "reactor_inv c re" and en: "re_exiting re \<or> BPendingGroup_HasJobs (re_jobs re)"
  shows "\<exists>r re'. synchronize ref re = Some (r, re') \<and> reactor_inv c re'"
proof (cases "re_exiting re \<or> BPendingGroup_PeekJob (re_jobs re) = Some ref")
  case True
  with i en show ?thesis by (auto simp: synchronize_def)
next
  case False
  then have "pending_enabled (re_jobs re) EvExecute" using en by simp
  from reactor_jobs [OF i this] obtain hu jobs where "BPendingGroup_ExecuteJob (re_jobs re) = Some (hu, jobs)" "reactor_inv c (re\<lparr>re_jobs := jobs\<rparr>)"
    by auto
  with False en show ?thesis by (auto simp: synchronize_def)
qed

lemma reactor_step_inv:
  assumes i: "run_inv s" and en: "reactor_enabled s e"
  shows "\<exists>s'. reactor_step s e = Some s' \<and> run_inv s'"
proof -
  have ri: "reactor_inv (rn_clock s) (rn_re s)" using i by (simp add: run_inv_def)
  note idle_t = reactor_idle_timer [OF ri] and idle_f = reactor_idle_fd [OF ri]
  show ?thesis
  proof (cases e)
    case (RvDispatch env)
    with en have "wait_ok (rn_clock s) env (rn_re s)" by simp
    from dispatch_ok [OF ri this] RvDispatch show ?thesis by (auto intro!: rn_liftI)
  next
    case (RvSynchronize ref)
    with reactor_synchronize [OF ri, of ref] en show ?thesis by (auto intro!: rn_liftI)
  next
    case (RvJob e)
    with reactor_jobs [OF ri, of e] en show ?thesis by (auto intro!: rn_liftI)
  next
    case (RvSmallTimerInit t)
    with en idle_t show ?thesis by (auto simp: BSmallTimer_Init_def intro!: rn_liftI)
  next
    case (RvTimerInit t ms)
    with en idle_t show ?thesis by (auto simp: BTimer_Init_def intro!: rn_liftI)
  next
    case (RvTimerForget t)
    with en idle_t show ?thesis by (auto intro!: rn_liftI)
  next
    case (RvSetSmallTimer now t mode time)
    with reactor_set_timer [OF ri, of t now mode time] en show ?thesis by (auto intro!: rn_liftI)
  next
    case (RvSetTimer now t)
    then obtain bt ms where bt: "re_timers (rn_re s) t = Some bt" "bt_msTime bt = Some ms" "rn_clock s \<le> now"
      using en by (cases "re_timers (rn_re s) t") auto
    with reactor_set_timer [OF ri, of t now BTIMER_SET_RELATIVE ms] RvSetTimer show ?thesis by (auto simp: BReactor_SetTimer_def intro!: rn_liftI)
  next
    case (RvSetTimerAfter now t after)
    with reactor_set_timer [OF ri, of t now BTIMER_SET_RELATIVE after] en show ?thesis
      by (auto simp: BReactor_SetTimerAfter_def intro!: rn_liftI)
  next
    case (RvSetTimerAbsolute now t time)
    with reactor_set_timer [OF ri, of t now BTIMER_SET_ABSOLUTE time] en show ?thesis
      by (auto simp: BReactor_SetTimerAbsolute_def intro!: rn_liftI)
  next
    case (RvRemoveSmallTimer t)
    with reactor_remove_timer [OF ri, of t] en show ?thesis by (auto intro!: rn_liftI)
  next
    case (RvRemoveTimer t)
    with reactor_remove_timer [OF ri, of t] en show ?thesis by (auto simp: BReactor_RemoveTimer_def intro!: rn_liftI)
  next
    case (RvFdInit i)
    with en idle_f show ?thesis by (auto simp: BFileDescriptor_Init_def intro!: rn_liftI)
  next
    case (RvFdAdd ok i)
    then obtain b where b: "re_fds (rn_re s) i = Some b" "\<not> fd_active b" using en by (auto simp: fd_idle_def)
    with en RvFdAdd ri idle_f show ?thesis by (cases ok) (auto simp: BReactor_AddFileDescriptor_def intro!: rn_liftI)
  next
    case (RvFdRemove i)
    with reactor_remove_fd [OF ri, of i] en show ?thesis by (auto intro!: rn_liftI)
  next
    case (RvFdEvents i events)
    then obtain b where b: "re_fds (rn_re s) i = Some b" "fd_active b" using en by (auto simp: fd_live_def split: option.splits)
    have "fds_inv ((re_fds (rn_re s))(i \<mapsto> b\<lparr>fd_waitEvents := events\<rparr>)) (re_results (rn_re s)) (re_pos (rn_re s))"
      using ri b(1) fds_inv_events [of "re_fds (rn_re s)" _ _ i b] by (simp add: reactor_inv_def)
    then have "reactor_inv (rn_clock s) ((rn_re s)\<lparr>re_fds := (re_fds (rn_re s))(i \<mapsto> b\<lparr>fd_waitEvents := events\<rparr>)\<rparr>)"
      using ri by (simp add: reactor_inv_def)
    with ri b en RvFdEvents show ?thesis
      by (cases "fd_waitEvents b = events") (simp_all add: BReactor_SetFileDescriptorEvents_def rn_lift_def run_inv_def)
  next
    case (RvFdForget i)
    with en idle_f show ?thesis by (auto intro!: rn_liftI)
  next
    case (RvLimitInit l limit)
    with reactor_limits(1) [OF ri, of l limit] en show ?thesis by (auto intro!: rn_liftI)
  next
    case (RvLimitFree l)
    then obtain li where "re_limits (rn_re s) l = Some li" using en by auto
    from reactor_limits(2) [OF ri this] RvLimitFree show ?thesis by (auto intro!: rn_liftI)
  next
    case (RvLimitIncrement l)
    then obtain li where "re_limits (rn_re s) l = Some li" using en by auto
    from reactor_limits(3) [OF ri this] RvLimitIncrement show ?thesis by (auto intro!: rn_liftI)
  next
    case (RvLimitSet l limit)
    then obtain li where "re_limits (rn_re s) l = Some li" "limit > 0" using en by auto
    from reactor_limits(4) [OF ri this] RvLimitSet show ?thesis by (auto intro!: rn_liftI)
  next
    case (RvQuit code)
    with ri show ?thesis by (auto simp: BReactor_Quit_def reactor_inv_def intro!: rn_liftI)
  qed
qed

interpretation reactor: machine reactor_init reactor_step reactor_enabled run_inv
proof
  show "run_inv s" if "reactor_init s" for s :: "('a, 'b) reactor_run"
    using that pending_init_inv
    by (simp add: reactor_init_def run_inv_def reactor_inv_def BReactor_Init_def timers_inv_def fds_inv_def limits_inv_def ordered_by_def)
qed (rule reactor_step_inv)
section \<open>The order of the timers\<close>

definition timer_time :: "(nat \<rightharpoonup> BSmallTimer) \<Rightarrow> nat \<Rightarrow> int" where
  "timer_time timers t = fst (timer_key timers t)"

lemma tree_times_sorted: "tinv c re \<Longrightarrow> sorted (map (timer_time (re_timers re)) (re_tree re))"
  unfolding sorted_map timers_inv_def ordered_by_def
  by (elim conjE, erule sorted_wrt_mono_rel [rotated]) (auto simp: timer_time_def timer_key_def Let_def split: if_splits)

lemma timer_key_expire: "re_timers re t = Some bt \<Longrightarrow> timer_key (re_timers (expire_timer t bt re)) = timer_key (re_timers re)"
  by (intro ext) (simp add: expire_timer_def timer_key_def)

text \<open>The timers \<open>ex\<close> at the front of the tree have gone to the list: those whose time is at most \<open>b\<close>.\<close>

definition expired_upto :: "int \<Rightarrow> nat list \<Rightarrow> ('h, 'u) BReactor \<Rightarrow> ('h, 'u) BReactor \<Rightarrow> bool" where
  "expired_upto b ex re re' \<longleftrightarrow> re_tree re = ex @ re_tree re' \<and> re_expired re' = re_expired re @ ex \<and>
     (\<forall>t\<in>set ex. timer_time (re_timers re) t \<le> b) \<and> (\<forall>t\<in>set (re_tree re'). b < timer_time (re_timers re) t)"

lemma expired_upto_nil: "(\<forall>t\<in>set (re_tree re). b < timer_time (re_timers re) t) \<Longrightarrow> expired_upto b [] re re"
  by (simp add: expired_upto_def)

lemma expired_upto_step:
  assumes "re_tree re = t # ts" "re_timers re t = Some bt" "bt_absTime bt \<le> b" "expired_upto b ex (expire_timer t bt re) re'"
  shows "expired_upto b (t # ex) re re'"
proof -
  have "timer_time (re_timers (expire_timer t bt re)) = timer_time (re_timers re)"
    using timer_key_expire [OF assms(2)] by (intro ext) (simp add: timer_time_def)
  with assms show ?thesis by (simp add: expired_upto_def) (simp add: expire_timer_def tree_remove_def timer_time_def timer_key_def)
qed

lemma tree_later:
  assumes "tinv c re" "re_tree re = t # ts" "re_timers re t = Some bt" "b < bt_absTime bt"
  shows "\<forall>t\<in>set (re_tree re). b < timer_time (re_timers re) t"
proof -
  have "timer_time (re_timers re) t = bt_absTime bt" using assms(3) by (simp add: timer_time_def timer_key_def)
  with tree_times_sorted [OF assms(1)] assms(2,4) show ?thesis by auto
qed

lemma move_expired_split: "tinv c re \<Longrightarrow> move_expired_timers now re = Some (m, re') \<Longrightarrow> \<exists>ex. expired_upto now ex re re' \<and> m = (ex \<noteq> [])"
proof (induction now re arbitrary: c m re' rule: move_expired_timers.induct)
  case (1 now re)
  show ?case
  proof (cases "re_tree re")
    case Nil
    with 1(3) show ?thesis using expired_upto_nil [of re now] by (subst (asm) move_expired_timers.simps) auto
  next
    case (Cons t ts)
    then obtain bt where bt: "re_timers re t = Some bt" "bt_state bt = TIMER_STATE_RUNNING" using timers_inv_head 1(2) by metis
    show ?thesis
    proof (cases "bt_absTime bt > now")
      case True
      then have "m = False" "re' = re" using 1(3) Cons bt by (subst (asm) move_expired_timers.simps; simp)+
      then show ?thesis using expired_upto_nil tree_later [OF 1(2) Cons bt(1) True] by blast
    next
      case False
      obtain m1 where m1: "move_expired_timers now (expire_timer t bt re) = Some (m1, re')" "m"
        using 1(3) Cons bt False by (subst (asm) move_expired_timers.simps) auto
      have "tinv (max c now) re" using timers_inv_later 1(2) by (metis max.cobounded1)
      from expire_ok [OF this Cons bt(1)] False have "tinv (max c now) (expire_timer t bt re)" by simp
      from 1(1) [OF Cons bt(1) _ False this m1(1)] bt(2) obtain ex where "expired_upto now ex (expire_timer t bt re) re'" by auto
      from expired_upto_step [OF Cons bt(1) _ this] False m1(2) show ?thesis by auto
    qed
  qed
qed

lemma move_equal_split:
  "tinv c re \<Longrightarrow> \<forall>x\<in>set (re_tree re). T \<le> timer_time (re_timers re) x \<Longrightarrow> move_equal_timers T re = Some re' \<Longrightarrow> \<exists>ex. expired_upto T ex re re'"
proof (induction T re arbitrary: c re' rule: move_equal_timers.induct)
  case (1 T re)
  show ?case
  proof (cases "re_tree re")
    case Nil
    with 1(4) show ?thesis using expired_upto_nil [of re T] by (subst (asm) move_equal_timers.simps) auto
  next
    case (Cons t ts)
    then obtain bt where bt: "re_timers re t = Some bt" "bt_state bt = TIMER_STATE_RUNNING" using timers_inv_head 1(2) by metis
    have ge: "\<not> (bt_state bt \<noteq> TIMER_STATE_RUNNING \<or> bt_absTime bt < T)" using 1(3) Cons bt by (simp add: timer_time_def timer_key_def)
    show ?thesis
    proof (cases "bt_absTime bt > T")
      case True
      then have "re' = re" using 1(4) Cons bt ge by (subst (asm) move_equal_timers.simps) simp
      then show ?thesis using expired_upto_nil tree_later [OF 1(2) Cons bt(1) True] by blast
    next
      case False
      have m: "move_equal_timers T (expire_timer t bt re) = Some re'" using 1(4) Cons bt ge False by (subst (asm) move_equal_timers.simps) simp
      have "tinv (max c T) re" using timers_inv_later 1(2) by (metis max.cobounded1)
      from expire_ok [OF this Cons bt(1)] False have i: "tinv (max c T) (expire_timer t bt re)" by simp
      have "\<forall>x\<in>set (re_tree (expire_timer t bt re)). T \<le> timer_time (re_timers (expire_timer t bt re)) x"
        using 1(3) Cons timer_key_expire [OF bt(1)] by (simp add: timer_time_def) (simp add: expire_timer_def tree_remove_def)
      from 1(1) [OF Cons bt(1) ge False i this m] obtain ex where "expired_upto T ex (expire_timer t bt re) re'" by blast
      from expired_upto_step [OF Cons bt(1) _ this] False show ?thesis by auto
    qed
  qed
qed

lemma move_first_split:
  assumes i: "tinv c re" and tr: "re_tree re = t # ts" and t: "re_timers re t = Some bt" and m: "move_first_timers re = Some re'"
  shows "\<exists>ex. expired_upto (bt_absTime bt) (t # ex) re re'"
proof -
  let ?T = "bt_absTime bt" and ?re = "expire_timer t bt re"
  have "bt_state bt = TIMER_STATE_RUNNING" using timers_inv_head i [unfolded tr] t by fastforce
  with m tr t have m: "move_equal_timers ?T ?re = Some re'" by (simp add: move_first_timers_def)
  have "tinv (max c ?T) re" using timers_inv_later i by (metis max.cobounded1)
  from expire_ok [OF this tr t] have i': "tinv (max c ?T) ?re" by simp
  have "timer_time (re_timers re) t = ?T" using t by (simp add: timer_time_def timer_key_def)
  with tree_times_sorted [OF i] tr have "\<forall>x\<in>set ts. ?T \<le> timer_time (re_timers re) x" by auto
  then have "\<forall>x\<in>set (re_tree ?re). ?T \<le> timer_time (re_timers ?re) x"
    using tr timer_key_expire [OF t] by (simp add: timer_time_def) (simp add: expire_timer_def tree_remove_def)
  from move_equal_split [OF i' this m] expired_upto_step [OF tr t order.refl] show ?thesis by blast
qed

lemma set_pointers_only: "set_epoll_fd_pointers k rs re = Some re' \<Longrightarrow> \<exists>fds. re' = re\<lparr>re_fds := fds\<rparr>"
proof (induction k rs re rule: set_epoll_fd_pointers.induct)
  case (1 k re)
  then show ?case by (intro exI [of _ "re_fds re"]) simp
next
  case (2 k p u events re)
  then show ?case by (auto simp: bind_eq_Some_conv ASSERT_def split: if_splits)
qed

lemma reset_limits_only: "reset_limits re = Some re' \<Longrightarrow> \<exists>limits. re' = re\<lparr>re_limits := limits, re_active := []\<rparr>"
proof (induction re rule: reset_limits.induct)
  case (1 re)
  then show ?case
  proof (cases "re_active re")
    case Nil
    with 1(2) show ?thesis by (subst (asm) reset_limits.simps) (intro exI [of _ "re_limits re"], simp)
  next
    case (Cons l ls)
    obtain li where li: "re_limits re l = Some li" "\<not> \<not> li_count li > 0"
      "reset_limits (re\<lparr>re_limits := (re_limits re)(l \<mapsto> li\<lparr>li_count := 0\<rparr>), re_active := ls\<rparr>) = Some re'"
      using 1(2) Cons by (subst (asm) reset_limits.simps) (auto split: option.splits if_splits)
    from 1(1) [OF Cons li] show ?thesis by auto
  qed
qed

lemma wait_loop_cases:
  "wait_loop timeout now as events re = Some re' \<Longrightarrow> (timeout \<noteq> None \<and> move_first_timers re = Some re') \<or>
   (\<exists>fds results. re' = re\<lparr>re_results := results, re_fds := fds\<rparr> \<and> results \<noteq> [])"
proof (induction timeout now as events re rule: wait_loop.induct)
  case (1 timeout now events re)
  then have "events \<noteq> []" "set_epoll_fd_pointers 0 (map (\<lambda>(i, ev). (Some i, ev)) events) (re\<lparr>re_results := map (\<lambda>(i, ev). (Some i, ev)) events\<rparr>) = Some re'"
    by (auto simp: Let_def split: if_splits)
  with set_pointers_only [OF this(2)] show ?case by auto
qed (auto simp: Let_def split: if_splits)

lemma results_expire: "re_results (expire_timer t bt re) = re_results re"
  by (simp add: expire_timer_def)

lemma move_expired_results: "move_expired_timers now re = Some (m, re') \<Longrightarrow> re_results re' = re_results re"
proof (induction now re arbitrary: m rule: move_expired_timers.induct)
  case (1 now re)
  from 1(2) show ?case
    by (subst (asm) move_expired_timers.simps) (auto split: list.splits option.splits if_splits dest!: 1(1) simp: results_expire)
qed

lemma move_equal_results: "move_equal_timers T re = Some re' \<Longrightarrow> re_results re' = re_results re"
proof (induction T re rule: move_equal_timers.induct)
  case (1 T re)
  from 1(2) show ?case
    by (subst (asm) move_equal_timers.simps) (auto split: list.splits option.splits if_splits dest!: 1(1) simp: results_expire)
qed

lemma move_first_results: "move_first_timers re = Some re' \<Longrightarrow> re_results re' = re_results re"
  by (auto simp: move_first_timers_def bind_eq_Some_conv ASSERT_def expire_timer_def dest!: move_equal_results split: list.splits if_splits)

text \<open>A wait is a move of timers, from a state that differs in the results, or ends with results.\<close>

definition wait_result :: "wait_env \<Rightarrow> ('h, 'u) BReactor \<Rightarrow> ('h, 'u) BReactor \<Rightarrow> bool" where
  "wait_result env re re' \<longleftrightarrow>
     (\<exists>b ex. ex \<noteq> [] \<and> we_now env \<le> b \<and> expired_upto b ex re re' \<and> re_results re' = []) \<or>
     (expired_upto (we_now env) [] re re' \<and> re_results re' \<noteq> [])"

lemma wait_for_events_result:
  assumes i: "tinv c re" and w: "wait_for_events env re = Some re'"
  shows "wait_result env re re'"
proof -
  define re1 where "re1 = re\<lparr>re_results := [], re_pos := 0\<rparr>"
  have e: "\<not> BPendingGroup_HasJobs (re_jobs re)" "re_expired re = []" "re_pos re = length (re_results re)"
    using w by (auto simp: wait_for_events_def ASSERT_def split: if_splits)
  have i1: "tinv c re1" using i by (simp add: re1_def)
  have upto: "expired_upto b ex re re2 = expired_upto b ex re1 re2" for b ex re2 by (simp add: expired_upto_def re1_def)
  show ?thesis
  proof (cases "re_tree re")
    case Nil
    then have "re_tree re1 = []" by (simp add: re1_def)
    then obtain re2 where "wait_loop None 0 (we_attempts env) (we_events env) re1 = Some re2" "reset_limits re2 = Some re'"
      using w e by (auto simp: wait_for_events_def re1_def [symmetric] bind_eq_Some_conv)
    from wait_loop_cases [OF this(1)] reset_limits_only [OF this(2)] Nil show ?thesis by (auto simp: wait_result_def expired_upto_def re1_def)
  next
    case (Cons t ts)
    then have tr: "re_tree re1 = t # ts" by (simp add: re1_def)
    obtain bt where bt: "re_timers re1 t = Some bt" "bt_state bt = TIMER_STATE_RUNNING" using timers_inv_head i1 [unfolded tr] by metis
    obtain m re2 where m: "move_expired_timers (we_now env) re1 = Some (m, re2)"
      "if m then re' = re2 else (\<exists>re3. wait_loop (Some (bt_absTime bt)) (we_now env) (we_attempts env) (we_events env) re2 = Some re3 \<and> reset_limits re3 = Some re')"
      using w e tr bt by (auto simp: wait_for_events_def re1_def [symmetric] bind_eq_Some_conv split: if_splits)
    obtain ex where ex: "expired_upto (we_now env) ex re1 re2" "m = (ex \<noteq> [])" using move_expired_split [OF i1 m(1)] by blast
    show ?thesis
    proof (cases m)
      case True
      moreover have "re_results re2 = []" using move_expired_results [OF m(1)] by (simp add: re1_def)
      ultimately show ?thesis using m(2) ex upto unfolding wait_result_def by (metis order.refl)
    next
      case False
      then obtain re3 where re3: "wait_loop (Some (bt_absTime bt)) (we_now env) (we_attempts env) (we_events env) re2 = Some re3"
        "reset_limits re3 = Some re'" using m(2) by auto
      have gt: "we_now env < bt_absTime bt"
      proof (rule ccontr)
        assume "\<not> we_now env < bt_absTime bt"
        then have "m" using m(1) tr bt by (subst (asm) move_expired_timers.simps) auto
        with False show False ..
      qed
      then have re2: "re2 = re1" using m(1) tr bt by (subst (asm) move_expired_timers.simps) auto
      obtain limits where re': "re' = re3\<lparr>re_limits := limits, re_active := []\<rparr>" using reset_limits_only [OF re3(2)] by blast
      from wait_loop_cases [OF re3(1)] show ?thesis
      proof (elim disjE conjE exE)
        assume mf: "move_first_timers re2 = Some re3"
        obtain ex where "expired_upto (bt_absTime bt) (t # ex) re1 re3" using move_first_split [OF i1 tr bt(1)] mf re2 by blast
        then have "expired_upto (bt_absTime bt) (t # ex) re re'" by (subst upto) (simp add: re' expired_upto_def)
        moreover have "re_results re' = []" using move_first_results [OF mf] re2 by (simp add: re' re1_def)
        ultimately show ?thesis using gt unfolding wait_result_def by (metis list.distinct(1) order.strict_implies_order)
      next
        fix fds results assume r: "re3 = re2\<lparr>re_results := results, re_fds := fds\<rparr>" "results \<noteq> []"
        have "expired_upto (we_now env) [] re re'" using ex(1) False ex(2) by (subst upto) (simp add: re' r expired_upto_def re2)
        then show ?thesis using r by (simp add: wait_result_def re')
      qed
    qed
  qed
qed
section \<open>Properties\<close>

text \<open>
  C4. The event loop is safe and calls the right handlers. In every run from an initialised reactor no assertion fails; a timer is in the
  tree exactly when it runs, the tree is in the order of time, and the list holds exactly the expired timers. In every round that follows the
  dispatch succeeds: it calls a job if there is one, otherwise an expired timer, which is never early, otherwise a descriptor, which is active
  and gets, besides errors and hang-ups, only the read and write events that it waits for, also when handlers have removed descriptors, timers or limits in the meantime.
\<close>

theorem reactor_safe:
  assumes "reactor_init s0" "admissible reactor_enabled reactor_step s0 es"
  shows "\<exists>s. exec reactor_step s0 es = Some s \<and>
    (\<forall>t. t \<in> set (re_tree (rn_re s)) \<longleftrightarrow> (\<exists>bt. re_timers (rn_re s) t = Some bt \<and> bt_state bt = TIMER_STATE_RUNNING)) \<and>
    (\<forall>t. t \<in> set (re_expired (rn_re s)) \<longleftrightarrow> (\<exists>bt. re_timers (rn_re s) t = Some bt \<and> bt_state bt = TIMER_STATE_EXPIRED)) \<and>
    sorted (map (timer_time (re_timers (rn_re s))) (re_tree (rn_re s))) \<and>
    (\<forall>env. wait_ok (rn_clock s) env (rn_re s) \<longrightarrow>
       (\<exists>d re'. dispatch env (rn_re s) = Some (d, re') \<and> dispatched_ok (rn_clock s) (rn_re s) d))"
proof -
  obtain s where s: "exec reactor_step s0 es = Some s" "run_inv s" using reactor.run_safe [OF assms] by blast
  then have i: "reactor_inv (rn_clock s) (rn_re s)" by (simp add: run_inv_def)
  then have t: "tinv (rn_clock s) (rn_re s)" by (simp add: reactor_inv_def)
  show ?thesis
  proof (intro exI [of _ s] conjI allI impI)
    fix env assume "wait_ok (rn_clock s) env (rn_re s)"
    from dispatch_ok [OF i this] show "\<exists>d re'. dispatch env (rn_re s) = Some (d, re') \<and> dispatched_ok (rn_clock s) (rn_re s) d" by blast
  qed (use s(1) t tree_times_sorted [OF t] in \<open>simp_all add: timers_inv_def\<close>)
qed

definition sample_reactor :: "(nat, nat) reactor_run" where
  "sample_reactor = \<lparr>rn_re = snd (BReactor_Init True), rn_clock = 100\<rparr>"

text \<open>Two timers and two descriptors; both descriptors are returned, and the handler of the first removes the second.\<close>

definition sample_events :: "(nat, nat) reactor_event list" where
  "sample_events = [RvSmallTimerInit 1, RvTimerInit 2 50, RvSetSmallTimer 100 1 BTIMER_SET_ABSOLUTE 130, RvSetTimer 101 2,
     RvFdInit 7, RvFdAdd True 7, RvFdEvents 7 1, RvFdInit 8, RvFdAdd True 8, RvFdEvents 8 2,
     RvDispatch \<lparr>we_now = 110, we_attempts = [Wait_interrupted 115], we_events = [(7, 1), (8, 4)]\<rparr>,
     RvDispatch \<lparr>we_now = 120, we_attempts = [], we_events = []\<rparr>, RvFdRemove 8,
     RvDispatch \<lparr>we_now = 121, we_attempts = [], we_events = []\<rparr>,
     RvDispatch \<lparr>we_now = 122, we_attempts = [Wait_timed_out 131], we_events = []\<rparr>]"

lemma sample_reactor_admissible:
  "reactor_init sample_reactor" "admissible reactor_enabled reactor_step sample_reactor sample_events"
  by (simp add: sample_reactor_def reactor_init_def, code_simp)

lemma reactor_safe_witness:
  "\<exists>s. exec reactor_step sample_reactor sample_events = Some s \<and> sorted (map (timer_time (re_timers (rn_re s))) (re_tree (rn_re s)))"
  using reactor_safe [OF sample_reactor_admissible] by blast

text \<open>
  C5. A wait of the event loop ends with something to do, and timers expire in the order of their times. It succeeds in every state that is
  reached; the timers that expire are the first ones of the tree, all that are due at the start of the wait and no timer that is earlier than
  another one or equal to it is left behind; none is early. If none expires, the wait has ended with descriptors, and only then.
\<close>

theorem wait_ends_in_order:
  assumes "reactor_init s0" "admissible reactor_enabled reactor_step s0 es" "exec reactor_step s0 es = Some s"
    and "waits (rn_re s)" "wait_ok (rn_clock s) env (rn_re s)"
  shows "\<exists>re'. wait_for_events env (rn_re s) = Some re' \<and> re_tree (rn_re s) = re_expired re' @ re_tree re' \<and>
    (\<forall>t\<in>set (re_expired re'). timer_time (re_timers re') t \<le> attempts_clock (we_now env) (we_attempts env)) \<and>
    (\<forall>t\<in>set (re_tree re'). we_now env < timer_time (re_timers (rn_re s)) t) \<and>
    (\<forall>t\<in>set (re_expired re'). \<forall>u\<in>set (re_tree re'). timer_time (re_timers (rn_re s)) t < timer_time (re_timers (rn_re s)) u) \<and>
    (re_expired re' = [] \<longleftrightarrow> re_results re' \<noteq> [])"
proof -
  have "run_inv s0" using reactor.init_inv assms(1) .
  from reactor.exec_preserves [OF this assms(2,3)] have i: "reactor_inv (rn_clock s) (rn_re s)" by (simp add: run_inv_def)
  have w: "\<not> re_exiting (rn_re s)" "\<not> BPendingGroup_HasJobs (re_jobs (rn_re s))" "re_expired (rn_re s) = []"
    "re_pos (rn_re s) = length (re_results (rn_re s))" using assms(4) by (simp_all add: waits_def)
  obtain re' where re': "wait_for_events env (rn_re s) = Some re'" "reactor_inv (attempts_clock (we_now env) (we_attempts env)) re'"
    using wait_for_events_ok [OF i assms(5) w] by blast
  have "\<forall>t\<in>set (re_expired re'). timer_time (re_timers re') t \<le> attempts_clock (we_now env) (we_attempts env)"
    using re'(2) unfolding reactor_inv_def timers_inv_def by (fastforce simp: timer_time_def timer_key_def)
  moreover have "wait_result env (rn_re s) re'" using wait_for_events_result [OF _ re'(1), of "rn_clock s"] i by (simp add: reactor_inv_def)
  ultimately show ?thesis using re'(1) w(3) unfolding wait_result_def expired_upto_def by fastforce
qed

lemma wait_ends_in_order_witness:
  "\<exists>re'. wait_for_events \<lparr>we_now = 132, we_attempts = [Wait_interrupted 160], we_events = []\<rparr>
     (rn_re (the (exec reactor_step sample_reactor (sample_events @ [RvDispatch \<lparr>we_now = 131, we_attempts = [], we_events = []\<rparr>])))) = Some re' \<and>
     (re_expired re' = [] \<longleftrightarrow> re_results re' \<noteq> [])"
proof -
  let ?es = "sample_events @ [RvDispatch \<lparr>we_now = 131, we_attempts = [], we_events = []\<rparr>]"
  have a: "admissible reactor_enabled reactor_step sample_reactor ?es" by code_simp
  obtain s where s: "exec reactor_step sample_reactor ?es = Some s" using reactor.run_safe [OF sample_reactor_admissible(1) a] by blast
  have "case exec reactor_step sample_reactor ?es of None \<Rightarrow> False | Some s \<Rightarrow> waits (rn_re s) \<and>
    wait_ok (rn_clock s) \<lparr>we_now = 132, we_attempts = [Wait_interrupted 160], we_events = []\<rparr> (rn_re s)" by code_simp
  with s have "waits (rn_re s)" "wait_ok (rn_clock s) \<lparr>we_now = 132, we_attempts = [Wait_interrupted 160], we_events = []\<rparr> (rn_re s)" by simp_all
  from wait_ends_in_order [OF sample_reactor_admissible(1) a s this] s show ?thesis by auto
qed

end
