(* ===== verification/Spec2Isabelle.thy ===== *)
theory Spec2Isabelle
  imports ChunkBuffer BPending Flow_Interfaces PacketProto Wire FairQueue PacketBuffer Connectors SocksClient UdpGwClient SocksUdpGw TunUdp TcpListener BavlSpec Startup Reactor
begin

text \<open>
  A verification library for the native core of the Android client: \<^verbatim>\<open>tun2socks\<close> and the parts of badvpn that it is
  built from (paths below are relative to \<^verbatim>\<open>src/app/src/main/jni/badvpn/\<close>). Packets read from the TUN device are
  either UDP, which is sent through the udpgw protocol over one SOCKS connection, or are given to lwIP,
  whose TCP connections are each relayed over a SOCKS connection of their own.

  \<^bold>\<open>How the code is modelled.\<close> A struct is a record with the fields the code reads, a packed struct has a memory image, an enumeration is
  a datatype, an integer whose width matters is a word; a buffer is a list of bytes of fixed length. A C function
  is a HOL function that takes the object and returns it updated, with the list of the calls it makes to its environment
  (interface operations, handlers of its user). \<open>None\<close> is a fault: an \<^verbatim>\<open>ASSERT\<close> of the code that fails, or
  an access outside a buffer. Return codes and error reports of the code are ordinary values. What the code gets from
  code outside the repository or from the operating system (allocation, connection set-up, lwIP, timers) is a parameter or an
  event. A component is a machine: \<open>step\<close> runs one handler, \<open>enabled\<close> says when the environment may call it, as the
  interfaces document; the locale \<open>machine\<close> (theory \<^verbatim>\<open>Prelude\<close>) turns an invariant that every enabled step
  keeps into safety of all runs, and each component interprets it.

  \<^bold>\<open>Theories, bottom up.\<close>

  \<^item> \<^verbatim>\<open>Prelude\<close>: C types, faults, and the interfaces as locales: \<open>codec\<close> (memory images), \<open>comparator\<close> (what the search trees
    demand of a comparator), \<open>fifo\<close> (packet buffers), \<open>machine\<close>.
  \<^item> \<^verbatim>\<open>Byteorder\<close> (misc/byteorder.h, misc/read_write_int.h, misc/compare.h, misc/minmax.h), \<^verbatim>\<open>BSize\<close> (misc/bsize.h,
    misc/balign.h, misc/balloc.h, the udpgw MTU), \<^verbatim>\<open>Wire\<close> (system/BAddr.h, protocol/, misc/socks_proto.h), \<^verbatim>\<open>IPProto\<close>
    (misc/ipv4_proto.h, misc/ipv6_proto.h, misc/udp_proto.h): pure functions; their lemmas are round trips, exactness of the size arithmetic,
    the order laws of addresses and the checksum laws of RFC 1071.
  \<^item> \<^verbatim>\<open>ChunkBuffer\<close> (structure/ChunkBuffer2.h): the circular buffer on its byte array refines a bounded queue of packets.
  \<^item> \<^verbatim>\<open>BPending\<close> (base/BPending.c): the job list; \<^verbatim>\<open>Flow_Interfaces\<close> (flow/\<^emph>\<open>Packet,Stream\<close>\<^emph>\<open>Pass,Recv\<close>Interface): the protocol of
    requests, completions and cancellation between user and provider.
  \<^item> \<^verbatim>\<open>PacketProto\<close> (flow/PacketProtoEncoder.c, PacketStreamSender.c, PacketProtoDecoder.c): framing; decoding any
    fragmentation of a stream of encoded packets gives the packets. \<^verbatim>\<open>PacketBuffer\<close> (flow/PacketBuffer.c, SinglePacketBuffer.c, BufferWriter.c,
    PacketProtoFlow.c), \<^verbatim>\<open>Connectors\<close> (flow/PacketPassConnector.c, flowextra/PacketPassInactivityMonitor.c).
  \<^item> \<^verbatim>\<open>SearchTree\<close>: the contract of structure/BAVL.h and SAvl.h as functions on sorted lists, and \<^verbatim>\<open>FairQueue\<close>
    (flow/PacketPassFairQueue.c) on top of it: virtual times, renormalisation before overflow, least-served-first.
  \<^item> \<^verbatim>\<open>SocksClient\<close> (socksclient/BSocksClient.c): the SOCKS5 exchange as a machine.
  \<^item> \<^verbatim>\<open>UdpGwClient\<close> (udpgw_client/UdpGwClient.c): the connection table with its two trees and LRU list, refining a table with
    least-recently-used replacement. \<^verbatim>\<open>SocksUdpGw\<close> (tun2socks/SocksUdpGwClient.c): keeps the udpgw client connected; its
    machine contains those of the SOCKS client and the udpgw client.
  \<^item> \<^verbatim>\<open>DeviceUdp\<close> (tun2socks/tun2socks.c, tuntap/BTap.c): packets between device, lwIP and udpgw; \<^verbatim>\<open>TunUdp\<close>: all of the UDP side as
    one machine, the composition of everything above it.
  \<^item> \<^verbatim>\<open>TcpClient\<close> (tun2socks/tun2socks.c): the relay of one TCP connection, both ends of which may go away; \<^verbatim>\<open>TcpRelay\<close>: the relay
    with its SOCKS client as a machine, with its invariant; \<^verbatim>\<open>TcpRelayRun\<close>: what holds of all its runs (safety, order, single release, no stall, return values).
    \<^verbatim>\<open>TcpListener\<close>: the list of clients, accepting (misc/concat_strings.h for usernames), and freeing at the end.
  \<^item> \<^verbatim>\<open>BAVL\<close> (structure/BAVL.h): the AVL tree on nodes with parent and child pointers; \<^verbatim>\<open>AvlTree\<close>: mathematical trees and the
    height bound; \<^verbatim>\<open>BavlRep\<close>, \<^verbatim>\<open>BavlOps\<close>: the memory represents a tree and every operation acts on that tree; \<^verbatim>\<open>BavlSpec\<close>: the contract
    that \<^verbatim>\<open>SearchTree\<close> states is proved for the code.
  \<^item> \<^verbatim>\<open>NumText\<close> (misc/parse_number.h, misc/find_char.h), \<^verbatim>\<open>IpText\<close> (misc/ipaddr.h, misc/ipaddr6.h), \<^verbatim>\<open>IpTextLaws\<close>, \<^verbatim>\<open>AddrText\<close> (the rest of
    system/BAddr.h): numbers and addresses as text; the parsers never leave their input and read back what the printers write.
  \<^item> \<^verbatim>\<open>Options\<close> (tun2socks/tun2socks.c, misc/loglevel.h): the command line and the settings made of it; exactly the well-formed configurations
    are accepted. \<^verbatim>\<open>Startup\<close> (tun2socks/tun2socks.c, system/BSignal.c): \<^verbatim>\<open>run\<close> with all its failure paths, the event loop over the machines of
    \<^verbatim>\<open>TcpListener\<close> and \<^verbatim>\<open>TunUdp\<close>, and the end; everything acquired is released in reverse order.
  \<^item> \<^verbatim>\<open>Reactor\<close> (system/BReactor_badvpn.c, system/BTime.h): the event loop in its epoll variant, with jobs, timers, descriptors and limits; it
    calls the right handlers, timers expire in order and never early, and operations of handlers between its rounds leave it consistent.

  \<^bold>\<open>Bounds and loops.\<close> Loops are total functions: by structure, or with a measure (carry folding decreases the value, the
    write loop decreases the rest). Loops whose end is not
    evident from their arguments (the search for an unused udpgw identifier, the loops over linked nodes of the AVL tree, the loops that free lists,
    the loop over the command line) are partial functions, and the properties prove that they return. Runs are lists of events of any length; the properties quantify over all of them and need no fuel.

  \<^bold>\<open>Conditions.\<close> Two things that the code allows break it, and the properties that they concern say so. A send buffer of more than 2 GiB
    (an unchecked option asks for it) overflows an \<^verbatim>\<open>int\<close> of the circular buffer: \<open>chunk_buffer_too_large\<close> proves that an assertion then fails, and the
    machines of the UDP side assume, as \<open>memory_ok\<close> in what their environment may do, that no such buffer is allocated. With \<^verbatim>\<open>append_source_to_username\<close> the
    SOCKS clients, which all point to one array of authentication data, can read a freed username: the theory \<^verbatim>\<open>TcpListener\<close> models the shared array
    and the fault and proves that it happens; safety of the list of clients and of the whole program is proved for programs without that option, where the array never
    changes (the SOCKS client of the udpgw connection therefore keeps its own copy in the model).

  \<^bold>\<open>Not modelled.\<close> The operating system side (system calls of the reactor and its variants other than epoll, sockets, signals, time, TUN device, logging, the conversion of its socket addresses), which the machines see as events and results; lwIP, which is
  vendored; \<^verbatim>\<open>DebugObject\<close> bookkeeping; \<^verbatim>\<open>Free\<close> functions that only release memory (flow/); \<^verbatim>\<open>BAVL_COUNT\<close>, an option
  that is off; the AVL variants SAvl.h and CAvl_impl.h, which are used by contract; of tun2socks \<^verbatim>\<open>main\<close>, the
  setting of log levels and the Java wrappers; the variants of the number parsers for \<^verbatim>\<open>b_cstring\<close>; programs that the Android build
  leaves out (client, server, udpgw server, NCD and tools), generated code, and the Java and Kotlin application.
\<close>

end
